(* ===== verification/Prelude.thy ===== *)
theory Prelude
  imports Main "HOL-Library.AList" "HOL-Library.Product_Lexorder"
begin

text \<open>
  What the component theories share: the named collections of rewrite rules and invariants, the
  JavaScript array operations the sources use (\<open>findIndex\<close>, \<open>indexOf\<close>, \<open>splice\<close>, the stable
  \<open>sort\<close>, decimal printing), the search for the lowest free number that four of the simulations
  run, and the generic list and rotation lemmas their proofs rest on.
\<close>

section \<open>Collections\<close>

named_theorems js_simps "the JavaScript library operations, unfolded"
named_theorems wf_intros "well-formedness is kept by an operation"
named_theorems frame_simps "fields an operation leaves alone"

section \<open>JavaScript operations\<close>

subsection \<open>Decimal printing of a natural number (a template literal's \<open>${n}\<close>)\<close>

fun digit_char :: "nat \<Rightarrow> char" where
  "digit_char d = char_of (48 + d)"

fun string_of_nat :: "nat \<Rightarrow> string" where
  "string_of_nat n = (if n < 10 then [digit_char n] else string_of_nat (n div 10) @ [digit_char (n mod 10)])"

declare string_of_nat.simps [simp del]

definition string_of_int :: "int \<Rightarrow> string" where
  "string_of_int i = (if i < 0 then ''-'' @ string_of_nat (nat (- i)) else string_of_nat (nat i))"

subsection \<open>\<open>Array.join\<close>\<close>

fun join_with :: "string \<Rightarrow> string list \<Rightarrow> string" where
  "join_with sep [] = ''''"
| "join_with sep [x] = x"
| "join_with sep (x # y # xs) = x @ sep @ join_with sep (y # xs)"

subsection \<open>\<open>Array.findIndex\<close> and \<open>indexOf\<close>: an index, or none\<close>

fun find_index :: "('a \<Rightarrow> bool) \<Rightarrow> 'a list \<Rightarrow> nat option" where
  "find_index P [] = None"
| "find_index P (x # xs) = (if P x then Some 0 else map_option Suc (find_index P xs))"

abbreviation index_of :: "'a \<Rightarrow> 'a list \<Rightarrow> nat option" where
  "index_of x \<equiv> find_index (\<lambda>y. y = x)"

subsection \<open>\<open>Array.splice\<close>: delete one element, or insert one\<close>

definition splice_out :: "nat \<Rightarrow> 'a list \<Rightarrow> 'a list" where
  "splice_out i xs = take i xs @ drop (Suc i) xs"

definition splice_in :: "nat \<Rightarrow> 'a \<Rightarrow> 'a list \<Rightarrow> 'a list" where
  "splice_in i x xs = take i xs @ x # drop i xs"

subsection \<open>The lowest number not taken: \<open>while (taken.has(n)) n++\<close>\<close>

function lowest_from :: "nat list \<Rightarrow> nat \<Rightarrow> nat" where
  "lowest_from taken n = (if n \<in> set taken then lowest_from taken (Suc n) else n)"
  by pat_completeness auto
termination
proof (relation "measure (\<lambda>(taken, n). card {x \<in> set taken. n \<le> x})")
  fix taken :: "nat list" and n :: nat
  assume "n \<in> set taken"
  then have "n \<in> {x \<in> set taken. n \<le> x} - {x \<in> set taken. Suc n \<le> x}" by simp
  moreover have "{x \<in> set taken. Suc n \<le> x} \<subseteq> {x \<in> set taken. n \<le> x}" by (simp add: Collect_mono)
  ultimately have "{x \<in> set taken. Suc n \<le> x} \<subset> {x \<in> set taken. n \<le> x}" by blast
  then show "((taken, Suc n), taken, n) \<in> measure (\<lambda>(taken, n). card {x \<in> set taken. n \<le> x})"
    by (simp add: psubset_card_mono)
qed simp

declare lowest_from.simps [simp del]

subsection \<open>Rotation: a list read from index \<open>k\<close>, then from its start\<close>

definition rotated :: "nat \<Rightarrow> 'a list \<Rightarrow> 'a list" where
  "rotated k xs = drop k xs @ take k xs"

subsection \<open>The number stepper of the guides (\<open>guides-a/kit.ts\<close>): \<open>set\<close> clamps\<close>

definition stepper_set :: "int \<Rightarrow> int \<Rightarrow> int \<Rightarrow> int" where
  "stepper_set lo hi v = min hi (max lo v)"

section \<open>Lemmas\<close>

subsection \<open>\<open>find_index\<close>\<close>

lemma find_index_None [simp]: "find_index P xs = None \<longleftrightarrow> (\<forall>x \<in> set xs. \<not> P x)"
  by (induction xs) auto

lemma find_index_SomeD:
  "find_index P xs = Some i \<Longrightarrow> i < length xs \<and> P (xs ! i) \<and> (\<forall>k<i. \<not> P (xs ! k))"
proof (induction xs arbitrary: i)
  case Nil
  then show ?case by simp
next
  case (Cons x xs)
  show ?case
  proof (cases "P x")
    case True
    with Cons.prems show ?thesis by auto
  next
    case False
    with Cons.prems obtain j where "find_index P xs = Some j" "i = Suc j" by auto
    with Cons.IH [of j] False show ?thesis
      by (auto simp: nth_Cons split: nat.splits)
  qed
qed

lemma find_index_SomeI:
  "i < length xs \<Longrightarrow> P (xs ! i) \<Longrightarrow> (\<And>k. k < i \<Longrightarrow> \<not> P (xs ! k)) \<Longrightarrow> find_index P xs = Some i"
proof (induction xs arbitrary: i)
  case Nil
  then show ?case by simp
next
  case (Cons x xs)
  show ?case
  proof (cases i)
    case 0
    with Cons.prems show ?thesis by simp
  next
    case (Suc j)
    have "\<not> P x" using Cons.prems(3) [of 0] Suc by simp
    moreover have "find_index P xs = Some j"
      using Cons.prems(1,2) Cons.prems(3) [of "Suc k" for k] Suc by (intro Cons.IH) fastforce+
    ultimately show ?thesis using Suc by simp
  qed
qed

lemma find_index_ex: "(\<exists>x \<in> set xs. P x) \<Longrightarrow> \<exists>i. find_index P xs = Some i"
  by (metis find_index_None not_None_eq)

lemma splice_out_index_of:
  "index_of x xs = Some i \<Longrightarrow> splice_out i xs = remove1 x xs"
  by (induction xs arbitrary: i) (auto simp: splice_out_def split: if_splits)

lemma mset_splice_in_set [simp]: "set (splice_in i x xs) = insert x (set xs)"
  unfolding splice_in_def by (metis Un_insert_right append_take_drop_id list.simps(15) set_append)

lemma length_splice_in [simp]: "i \<le> length xs \<Longrightarrow> length (splice_in i x xs) = Suc (length xs)"
  by (simp add: splice_in_def)

subsection \<open>The lowest free number\<close>

lemma lowest_from_spec:
  "n \<le> lowest_from taken n \<and> lowest_from taken n \<notin> set taken
    \<and> (\<forall>k. n \<le> k \<and> k < lowest_from taken n \<longrightarrow> k \<in> set taken)"
proof (induction taken n rule: lowest_from.induct)
  case (1 taken n)
  show ?case
  proof (cases "n \<in> set taken")
    case True
    with "1.IH" show ?thesis
      by (auto simp: lowest_from.simps [of taken n] Suc_le_eq) (metis le_neq_implies_less)
  next
    case False
    then show ?thesis by (auto simp: lowest_from.simps [of taken n])
  qed
qed

lemma lowest_from_free [simp]: "lowest_from taken n \<notin> set taken"
  and lowest_from_ge: "n \<le> lowest_from taken n"
  and lowest_from_below: "n \<le> k \<Longrightarrow> k < lowest_from taken n \<Longrightarrow> k \<in> set taken"
  using lowest_from_spec [of n taken] by auto

text \<open>Counting what lies below the answer: it is at most the number of taken values.\<close>

lemma lowest_from_bound: "lowest_from taken n \<le> n + length taken"
proof -
  have "{n..<lowest_from taken n} \<subseteq> set taken"
    by (auto intro: lowest_from_below)
  then have "card {n..<lowest_from taken n} \<le> card (set taken)"
    by (intro card_mono) auto
  also have "\<dots> \<le> length taken" by (rule card_length)
  finally show ?thesis by simp
qed

subsection \<open>Rotation\<close>

lemma set_rotated [simp]: "set (rotated k xs) = set xs"
  unfolding rotated_def by (metis append_take_drop_id set_append sup_commute)

lemma length_rotated [simp]: "length (rotated k xs) = length xs"
  by (simp add: rotated_def)

lemma rotated_nth:
  "k < length xs \<Longrightarrow> j < length xs \<Longrightarrow> rotated k xs ! j = xs ! ((k + j) mod length xs)"
  by (auto simp: rotated_def nth_append mod_if algebra_simps)

subsection \<open>Sums over association lists\<close>

lemma sum_list_filter_le: "length (filter P xs) \<le> length xs"
  by simp

end
