(* ===== verification/Scene.thy ===== *)
theory Scene
  imports Main
begin

text \<open>
  The contract of a scene the reader drives: a state, an action for each button, and an invariant that the first state has. An
  action whose guard the page checks is defined in every state with the invariant, and keeps it. Then every sequence of actions is
  answered. The Redis, SQLite and crash test scenes, the storage demo and the scenes of the guides are instances.
\<close>

primrec presses :: "('a \<Rightarrow> 's \<Rightarrow> 's option) \<Rightarrow> 'a list \<Rightarrow> 's \<Rightarrow> 's option" where
  "presses act [] s = Some s"
| "presses act (a # as) s = (case act a s of None \<Rightarrow> None | Some s' \<Rightarrow> presses act as s')"

lemma presses_append: "presses act (as @ bs) s = (case presses act as s of None \<Rightarrow> None | Some s' \<Rightarrow> presses act bs s')"
  by (induction "as" arbitrary: s) (auto split: option.split)

locale scene =
  fixes opens :: "'s \<Rightarrow> bool" and act :: "'a \<Rightarrow> 's \<Rightarrow> 's option" and inv :: "'s \<Rightarrow> bool"
  assumes opens_inv: "opens s \<Longrightarrow> inv s"
    and act_defined: "inv s \<Longrightarrow> \<exists>s'. act a s = Some s'"
    and act_inv: "inv s \<Longrightarrow> act a s = Some s' \<Longrightarrow> inv s'"
begin

lemma presses_from: "inv s \<Longrightarrow> \<exists>s'. presses act as s = Some s' \<and> inv s'"
proof (induction "as" arbitrary: s)
  case (Cons a as)
  obtain s' where s': "act a s = Some s'" using act_defined[OF Cons.prems] by blast
  with Cons.IH[OF act_inv[OF Cons.prems s']] show ?case by simp
qed simp

text \<open>However the reader clicks, the scene answers, and every state shown on the way has the invariant.\<close>

lemma every_press_answered: "opens s \<Longrightarrow> \<exists>s'. presses act as s = Some s' \<and> inv s'"
  using presses_from opens_inv by blast

lemma presses_prefix:
  assumes "opens s" "presses act (as @ bs) s = Some s'"
  obtains m where "presses act as s = Some m" "inv m" "presses act bs m = Some s'"
  using assms every_press_answered[OF assms(1), of "as"] by (auto simp: presses_append split: option.splits)

end

end
