(* ===== verification/Round_Robin.thy ===== *)
theory Round_Robin
  imports Prelude
begin

text \<open>
  The contract of a round-robin picker, shared by the three places of the sources that pick a queue
  in turn (\<open>home/order.ts\<close>, \<open>guides-a/model.ts\<close>, \<open>heromap/pool.ts\<close>). The reference is
  \<open>rr_first\<close>: read the sources from the turn on, then from the start, and take the first that has
  a job. The locale states it as a law of a picker and proves fairness once, for every picker that
  keeps it.
\<close>

definition rr_first :: "nat list \<Rightarrow> nat \<Rightarrow> nat option" where
  "rr_first ls t = map_option (\<lambda>k. (t + k) mod length ls) (find_index (\<lambda>l. 0 < l) (rotated t ls))"

text \<open>How far source \<open>i\<close> is from having the turn.\<close>

definition rr_dist :: "nat \<Rightarrow> nat \<Rightarrow> nat \<Rightarrow> nat" where
  "rr_dist n t i = (if t \<le> i then i - t else i + n - t)"

lemma rr_dist_less: "t < n \<Longrightarrow> i < n \<Longrightarrow> rr_dist n t i < n"
  by (auto simp: rr_dist_def)

lemma rr_dist_mod: "t < n \<Longrightarrow> i < n \<Longrightarrow> (t + rr_dist n t i) mod n = i"
  by (auto simp: rr_dist_def)

lemma rr_first_None: "t < length ls \<Longrightarrow> rr_first ls t = None \<longleftrightarrow> (\<forall>l \<in> set ls. l = 0)"
  by (simp add: rr_first_def)

lemma rr_first_SomeD:
  assumes "t < length ls" and "rr_first ls t = Some p"
  shows "p < length ls \<and> 0 < ls ! p \<and> (\<forall>i < length ls. rr_dist (length ls) t i < rr_dist (length ls) t p \<longrightarrow> ls ! i = 0)"
proof -
  let ?n = "length ls"
  from assms(2) obtain k where k: "find_index (\<lambda>l. 0 < l) (rotated t ls) = Some k" and p: "p = (t + k) mod ?n"
    by (auto simp: rr_first_def)
  from find_index_SomeD [OF k] have kn: "k < ?n" and pos: "0 < rotated t ls ! k"
    and before: "\<And>j. j < k \<Longrightarrow> rotated t ls ! j = 0" by auto
  have pn: "p < ?n" unfolding p using assms(1) by (intro mod_less_divisor) linarith
  have dk: "rr_dist ?n t p = k"
    using p kn assms(1) by (auto simp: rr_dist_def mod_if)
  have "ls ! i = 0" if "i < ?n" "rr_dist ?n t i < k" for i
  proof -
    have "rotated t ls ! rr_dist ?n t i = ls ! i"
      using that assms(1) rr_dist_less [of t ?n i] by (simp add: rotated_nth rr_dist_mod)
    with before [OF that(2)] show ?thesis by simp
  qed
  with pn pos p kn assms(1) dk show ?thesis by (auto simp: rotated_nth)
qed

lemma rr_dist_decreases:
  assumes "t < n" "i < n" "p < n" "p \<noteq> i" "rr_dist n t p \<le> rr_dist n t i"
  shows "rr_dist n (Suc p mod n) i < rr_dist n t i"
  using assms by (auto simp: rr_dist_def mod_Suc split: if_splits)

section \<open>The interface\<close>

locale round_robin =
  fixes scan :: "nat list \<Rightarrow> nat \<Rightarrow> nat option"
  assumes scan_first: "t < length ls \<Longrightarrow> scan ls t = rr_first ls t"
begin

text \<open>The turn before pick \<open>k\<close>, when the sources hold \<open>lens k\<close> jobs at that pick.\<close>

fun turn_at :: "nat \<Rightarrow> (nat \<Rightarrow> nat list) \<Rightarrow> nat \<Rightarrow> nat \<Rightarrow> nat" where
  "turn_at n lens t 0 = t"
| "turn_at n lens t (Suc k) = Suc (the (scan (lens k) (turn_at n lens t k))) mod n"

lemma picks_first_with_job:
  assumes "t < length ls" "scan ls t = Some p"
  shows "p < length ls" "0 < ls ! p"
    "\<forall>i < length ls. rr_dist (length ls) t i < rr_dist (length ls) t p \<longrightarrow> ls ! i = 0"
  using rr_first_SomeD [of t ls p] assms scan_first by auto

lemma picks_something:
  assumes "t < length ls" "i < length ls" "0 < ls ! i"
  obtains p where "scan ls t = Some p" "p < length ls" "rr_dist (length ls) t p \<le> rr_dist (length ls) t i"
proof -
  from assms have "scan ls t \<noteq> None"
    by (metis bot_nat_0.not_eq_extremum nth_mem rr_first_None scan_first)
  then obtain p where p: "scan ls t = Some p" by auto
  from picks_first_with_job [OF assms(1) p] assms(2,3) have "rr_dist (length ls) t p \<le> rr_dist (length ls) t i"
    by (metis not_le less_numeral_extra(3))
  with p picks_first_with_job(1) [OF assms(1) p] show thesis by (rule that)
qed

lemma turn_at_less:
  assumes "0 < n" "t < n" shows "turn_at n lens t k < n"
  using assms by (cases k) auto

text \<open>While source \<open>i\<close> is passed over, each pick brings the turn nearer to it.\<close>

lemma turn_approaches:
  assumes len: "\<And>k. length (lens k) = n" and i: "i < n" and pos: "\<And>k. 0 < lens k ! i" and t: "t < n"
    and skipped: "\<And>j. j < k \<Longrightarrow> scan (lens j) (turn_at n lens t j) \<noteq> Some i"
  shows "rr_dist n (turn_at n lens t k) i + k \<le> rr_dist n t i"
  using skipped
proof (induction k)
  case 0
  then show ?case by simp
next
  case (Suc k)
  let ?u = "turn_at n lens t k"
  have u: "?u < n" using i t turn_at_less by simp
  obtain p where p: "scan (lens k) ?u = Some p" "p < n" "rr_dist n ?u p \<le> rr_dist n ?u i"
    using picks_something [of ?u "lens k" i] u i pos len by metis
  with Suc.prems [of k] have "p \<noteq> i" by auto
  with rr_dist_decreases [OF u i p(2) _ p(3)] p(1)
  have "rr_dist n (turn_at n lens t (Suc k)) i < rr_dist n ?u i" by simp
  moreover have "rr_dist n ?u i + k \<le> rr_dist n t i" using Suc by simp
  ultimately show ?case by simp
qed

text \<open>Fairness: a source that keeps having a job is picked within as many picks as there are sources.\<close>

lemma fair:
  assumes "\<And>k. length (lens k) = n" "i < n" "\<And>k. 0 < lens k ! i" "t < n"
  shows "\<exists>k < n. scan (lens k) (turn_at n lens t k) = Some i"
proof (rule ccontr)
  assume "\<not> ?thesis"
  then have "rr_dist n (turn_at n lens t n) i + n \<le> rr_dist n t i"
    using assms by (intro turn_approaches) auto
  with rr_dist_less [OF assms(4,2)] show False by simp
qed

end

end
