(* ===== verification/Order.thy ===== *)
theory Order
  imports Round_Robin "HOL-Library.Multiset"
begin

text \<open>
  \<open>docs/src/components/home/order.ts\<close>: the order the home page's scenes run jobs in.
  \<open>priorityQueue\<close> gives a priority queue's contents after each Add, and \<open>roundRobin\<close> the jobs a
  worker with several queues takes under the RoundRobin strategy. Array reads past the end, which
  raise a TypeError in JavaScript, are the error value; the two nested loops of \<open>roundRobin\<close> may
  not end on a bad start, so they are partial functions and their return is a theorem.
\<close>

section \<open>Data\<close>

record Add =
  add_name :: string
  add_priority :: int

definition PRIORITY_ADDS :: "Add list" where
  "PRIORITY_ADDS =
    [\<lparr>add_name = ''report'', add_priority = 10\<rparr>, \<lparr>add_name = ''alert'', add_priority = 1\<rparr>, \<lparr>add_name = ''digest'', add_priority = 10\<rparr>]"

definition RR_QUEUES :: "(string \<times> string list) list" where
  "RR_QUEUES =
    [(''alerts'', [''a1'', ''a2'']), (''reports'', [''r1'']), (''emails'', [''e1'', ''e2'', ''e3''])]"

record Pick =
  pk_queue :: nat
  pk_job :: string
  pk_skipped :: "nat list"

datatype order_error = TypeError

section \<open>Operations\<close>

definition priorityQueue :: "Add list \<Rightarrow> Add list list" where
  "priorityQueue adds =
    map (\<lambda>i. map fst (sort_key (\<lambda>(add, at). (add_priority add, at))
           (zip (take (i + 1) adds) [0..<length (take (i + 1) adds)])))
      [0..<length adds]"

text \<open>
  The inner \<open>do \<dots> while (index !== start)\<close>: the queue found (if any), the next index, and the empty
  queues passed over.
\<close>

partial_function (option) rr_search ::
  "string list list \<Rightarrow> nat \<Rightarrow> nat \<Rightarrow> nat list \<Rightarrow> (order_error + nat option \<times> nat \<times> nat list) option" where
  "rr_search left start index skip =
    (if index < length left then
       (if left ! index \<noteq> [] then Some (Inr (Some index, (index + 1) mod length left, skip))
        else if (index + 1) mod length left \<noteq> start
        then rr_search left start ((index + 1) mod length left) (skip @ [index])
        else Some (Inr (None, (index + 1) mod length left, skip @ [index])))
     else Some (Inl TypeError))"

text \<open>The outer \<open>for (;;)\<close>: one pick per turn, until no queue has a job.\<close>

partial_function (option) rr_loop ::
  "string list list \<Rightarrow> nat \<Rightarrow> Pick list \<Rightarrow> (order_error + Pick list) option" where
  "rr_loop left index picks =
    Option.bind (rr_search left index index []) (\<lambda>r. case r of
      Inl e \<Rightarrow> Some (Inl e)
    | Inr (found, index', skip) \<Rightarrow>
        (case found of
          None \<Rightarrow> Some (Inr picks)
        | Some q \<Rightarrow> rr_loop (left[q := tl (left ! q)]) index'
                     (picks @ [\<lparr>pk_queue = q, pk_job = hd (left ! q), pk_skipped = skip\<rparr>])))"

definition roundRobin :: "string list list \<Rightarrow> (order_error + Pick list) option" where
  "roundRobin queues = rr_loop queues 0 []"

section \<open>The priority queue\<close>

text \<open>
  Sorting by priority and then by the place in the list is the library's stable sort by priority.
\<close>

lemma sort_key_zip_upt:
  "map fst (sort_key (\<lambda>(x, at). (f x, at)) (zip xs [k..<k + length xs])) = sort_key f xs"
proof (induction xs arbitrary: k)
  case Nil
  then show ?case by simp
next
  case (Cons x xs)
  let ?g = "\<lambda>(x, at :: nat). (f x, at)"
  have later: "k < at" if "(y, at) \<in> set (sort_key ?g (zip xs [Suc k..<Suc k + length xs]))" for y at
    using that by (auto dest!: set_zip_rightD)
  have ins: "map fst (insort_key ?g (x, k) ps) = insort_key f x (map fst ps)"
    if "\<forall>(y, at) \<in> set ps. k < at" for ps :: "('a \<times> nat) list"
    using that by (induction ps) (auto simp: less_eq_prod_def split: prod.splits)
  have "zip (x # xs) [k..<k + length (x # xs)] = (x, k) # zip xs [Suc k..<Suc k + length xs]"
    by (simp add: upt_rec)
  with Cons.IH [of "Suc k"] ins [of "sort_key ?g (zip xs [Suc k..<Suc k + length xs])"] later
  show ?case by fastforce
qed

lemma priorityQueue_sorts:
  "priorityQueue adds = map (\<lambda>i. sort_key add_priority (take (i + 1) adds)) [0..<length adds]"
proof -
  have "map fst (sort_key (\<lambda>(add, at). (add_priority add, at)) (zip xs [0..<length xs])) = sort_key add_priority xs"
    for xs :: "Add list"
    using sort_key_zip_upt [of add_priority xs 0] by simp
  then show ?thesis unfolding priorityQueue_def by (simp only:)
qed

text \<open>
  C1: after the (i+1)-th Add, the contents that \<open>priorityQueue\<close> gives are the first i+1 jobs added,
  sorted stably by priority: lowest number first, equal numbers in the order they were added.
\<close>

theorem priorityQueue_stable_sort:
  "priorityQueue adds = map (\<lambda>i. sort_key add_priority (take (i + 1) adds)) [0..<length adds]"
  by (rule priorityQueue_sorts)

section \<open>Round robin\<close>

text \<open>How many queues the search still reads: from the index up to the start, all of them at the start.\<close>

definition rr_left :: "nat \<Rightarrow> nat \<Rightarrow> nat \<Rightarrow> nat" where
  "rr_left n start index = (if start \<le> index then n - (index - start) else start - index)"

definition rr_seen :: "'a list \<Rightarrow> nat \<Rightarrow> nat \<Rightarrow> 'a list" where
  "rr_seen xs index d = map (\<lambda>x. xs ! ((index + x) mod length xs)) [0..<d]"

lemma rr_search_result:
  assumes "start < length left" "index < length left"
  shows "rr_search left start index skip = Some (Inr
    (case find_index (\<lambda>q. q \<noteq> []) (rr_seen left index (rr_left (length left) start index)) of
       Some j \<Rightarrow> (Some ((index + j) mod length left), (index + j + 1) mod length left,
                  skip @ map (\<lambda>x. (index + x) mod length left) [0..<j])
     | None \<Rightarrow> (None, start, skip @ map (\<lambda>x. (index + x) mod length left) [0..<rr_left (length left) start index])))"
  using assms
proof (induction "rr_left (length left) start index" arbitrary: index skip)
  case 0
  then show ?case by (auto simp: rr_left_def split: if_splits)
next
  case (Suc d)
  let ?n = "length left" and ?i = "(index + 1) mod length left"
  have upt: "[0..<Suc k] = 0 # map Suc [0..<k]" for k by (simp add: map_Suc_upt upt_conv_Cons)
  have shift: "(Suc index mod ?n + x) mod ?n = Suc (index + x) mod ?n"
    "Suc (Suc index mod ?n + x) mod ?n = Suc (Suc (index + x)) mod ?n" for x
    using mod_add_left_eq [of "Suc index" ?n x] mod_add_left_eq [of "Suc index" ?n "Suc x"] by simp_all
  show ?case
  proof (cases "left ! index \<noteq> []")
    case True
    with Suc.prems Suc.hyps(2) [symmetric] show ?thesis
      by (subst rr_search.simps) (simp add: rr_seen_def upt del: upt_Suc)
  next
    case False
    show ?thesis
    proof (cases "?i = start")
      case True
      with Suc.prems have "rr_left ?n start index = 1"
        by (auto simp: rr_left_def mod_if split: if_splits)
      with True False Suc.prems show ?thesis
        by (subst rr_search.simps) (simp add: rr_seen_def)
    next
      case neq: False
      have d: "d = rr_left ?n start ?i"
        using neq Suc.prems Suc.hyps(2) by (auto simp: rr_left_def mod_if split: if_splits)
      have i: "?i < ?n" using Suc.prems by (intro mod_less_divisor) linarith
      have "rr_search left start index skip = rr_search left start ?i (skip @ [index])"
        using False neq Suc.prems by (subst rr_search.simps) simp
      also note Suc.hyps(1) [OF d Suc.prems(1) i]
      finally show ?thesis
        using False Suc.prems d [symmetric] Suc.hyps(2) [symmetric]
        by (simp add: rr_seen_def upt shift comp_def del: upt_Suc find_index_None split: option.splits)
    qed
  qed
qed

lemma rr_seen_start: "start < length left \<Longrightarrow> rr_seen left start (length left) = rotated start left"
  by (intro nth_equalityI) (simp_all add: rr_seen_def rotated_nth)

text \<open>A whole search finds what the reference picker finds, and passes over the queues before it.\<close>

lemma rr_search_first:
  assumes "t < length left"
  shows "rr_search left t t [] = Some (Inr
    (case rr_first (map length left) t of
       Some q \<Rightarrow> (Some q, Suc q mod length left, map (\<lambda>x. (t + x) mod length left) [0..<rr_dist (length left) t q])
     | None \<Rightarrow> (None, t, map (\<lambda>x. (t + x) mod length left) [0..<length left])))"
proof -
  have rot: "find_index (\<lambda>l. 0 < l) (rotated t (map length left)) = find_index (\<lambda>q. q \<noteq> []) (rotated t left)"
  proof -
    have "find_index (\<lambda>l. 0 < l) (map length qs) = find_index (\<lambda>q. q \<noteq> []) qs" for qs :: "string list list"
      by (induction qs) auto
    from this [of "rotated t left"] show ?thesis by (simp add: rotated_def drop_map take_map)
  qed
  have dist: "rr_dist (length left) t ((t + k) mod length left) = k" if "k < length left" for k
    using that assms by (auto simp: rr_dist_def mod_if)
  show ?thesis
    using rr_search_result [OF assms assms, of "[]"] assms
    by (auto simp: rr_seen_start rr_left_def rr_first_def rot dist mod_Suc_eq
        simp del: find_index_None dest!: find_index_SomeD split: option.splits)
qed

text \<open>
  What a run of picks has to be, from queues \<open>left\<close> and turn \<open>t\<close>: each pick is the head of its queue, the
  queues between the turn and it are empty and are the ones listed, the turn moves past it, and the run
  ends only when every queue is empty.
\<close>

fun rr_picks_ok :: "string list list \<Rightarrow> nat \<Rightarrow> Pick list \<Rightarrow> bool" where
  "rr_picks_ok left t [] = (\<forall>q \<in> set left. q = [])"
| "rr_picks_ok left t (p # ps) =
    (pk_queue p < length left \<and> left ! pk_queue p \<noteq> [] \<and> pk_job p = hd (left ! pk_queue p)
      \<and> pk_skipped p = map (\<lambda>x. (t + x) mod length left) [0..<rr_dist (length left) t (pk_queue p)]
      \<and> (\<forall>i \<in> set (pk_skipped p). left ! i = [])
      \<and> rr_picks_ok (left[pk_queue p := tl (left ! pk_queue p)]) (Suc (pk_queue p) mod length left) ps)"

lemma sum_list_tl_less:
  assumes "q < length left" "left ! q \<noteq> []"
  shows "sum_list (map length (left[q := tl (left ! q)])) < sum_list (map length left)"
proof -
  have "sum_list (map length (left[q := tl (left ! q)])) = sum_list ((map length left)[q := length (left ! q) - 1])"
    by (simp add: map_update)
  also have "\<dots> = sum_list (map length left) + (length (left ! q) - 1) - length (left ! q)"
    using assms(1) by (simp add: sum_list_update)
  moreover have "length (left ! q) \<le> sum_list (map length left)"
    using assms(1) by (intro member_le_sum_list) simp_all
  ultimately show ?thesis using assms(2) by (simp add: length_greater_0_conv [symmetric] del: length_greater_0_conv)
qed

lemma rr_loop_result:
  assumes "t < length left"
  shows "\<exists>ps. rr_loop left t picks = Some (Inr (picks @ ps)) \<and> rr_picks_ok left t ps"
  using assms
proof (induction "sum_list (map length left)" arbitrary: left t picks rule: less_induct)
  case less
  let ?n = "length left"
  show ?case
  proof (cases "rr_first (map length left) t")
    case None
    with less.prems have "rr_loop left t picks = Some (Inr picks)"
      by (subst rr_loop.simps) (simp add: rr_search_first)
    moreover have "\<forall>q \<in> set left. q = []" using None less.prems by (simp add: rr_first_None)
    ultimately show ?thesis by (intro exI [of _ "[]"]) simp
  next
    case (Some q)
    let ?skip = "map (\<lambda>x. (t + x) mod ?n) [0..<rr_dist ?n t q]"
    let ?pick = "\<lparr>pk_queue = q, pk_job = hd (left ! q), pk_skipped = ?skip\<rparr>"
    from rr_first_SomeD [OF _ Some] less.prems have q: "q < ?n" "left ! q \<noteq> []"
      and empty: "\<And>i. i < ?n \<Longrightarrow> rr_dist ?n t i < rr_dist ?n t q \<Longrightarrow> left ! i = []" by auto
    have skip: "\<forall>i \<in> set ?skip. left ! i = []"
      using less.prems q rr_dist_less [OF less.prems q(1)]
      by (auto intro!: empty mod_less_divisor) (auto simp: rr_dist_def mod_if split: if_splits)
    have next_turn: "Suc q mod ?n < length (left[q := tl (left ! q)])"
      using q(1) by (simp, intro mod_less_divisor) linarith
    have "rr_loop left t picks = rr_loop (left[q := tl (left ! q)]) (Suc q mod ?n) (picks @ [?pick])"
      using less.prems Some by (subst rr_loop.simps) (simp add: rr_search_first)
    moreover obtain ps where "rr_loop (left[q := tl (left ! q)]) (Suc q mod ?n) (picks @ [?pick]) = Some (Inr ((picks @ [?pick]) @ ps))"
      "rr_picks_ok (left[q := tl (left ! q)]) (Suc q mod ?n) ps"
      using less.hyps [OF sum_list_tl_less [OF q] next_turn, of "picks @ [?pick]"] by blast
    ultimately show ?thesis using q skip by (intro exI [of _ "?pick # ps"]) simp
  qed
qed

lemma rr_picks_ok_whole_queues:
  "rr_picks_ok left t ps \<Longrightarrow> i < length left \<Longrightarrow> map pk_job (filter (\<lambda>p. pk_queue p = i) ps) = left ! i"
proof (induction ps arbitrary: left t)
  case Nil
  then show ?case by (auto simp: all_set_conv_all_nth)
next
  case (Cons p ps)
  from Cons.prems have "map pk_job (filter (\<lambda>p. pk_queue p = i) ps) = left[pk_queue p := tl (left ! pk_queue p)] ! i"
    by (intro Cons.IH [of _ "Suc (pk_queue p) mod length left"]) auto
  with Cons.prems show ?case by (auto simp: nth_list_update)
qed

section \<open>The picker as a round-robin picker\<close>

definition order_scan :: "nat list \<Rightarrow> nat \<Rightarrow> nat option" where
  "order_scan ls t = (case rr_search (map (\<lambda>l. replicate l ''j'') ls) t t [] of
     Some (Inr (found, _)) \<Rightarrow> found | _ \<Rightarrow> None)"

interpretation order_rr: round_robin order_scan
proof
  fix t :: nat and ls :: "nat list"
  assume "t < length ls"
  then show "order_scan ls t = rr_first ls t"
    by (simp add: order_scan_def rr_search_first comp_def split: option.splits)
qed

section \<open>Properties\<close>

text \<open>
  C2: on at least one queue, \<open>roundRobin\<close> returns, and its picks are a correct round-robin run from queue
  0: each takes the head of the first queue with a job from the one after the last served, lists exactly
  the empty queues passed over, and the run stops only when every queue is empty.
\<close>

theorem roundRobin_correct_run:
  assumes "queues \<noteq> []"
  shows "\<exists>picks. roundRobin queues = Some (Inr picks) \<and> rr_picks_ok queues 0 picks"
  using assms rr_loop_result [of 0 queues "[]"] by (simp add: roundRobin_def)

theorem roundRobin_correct_run_witness:
  "map snd RR_QUEUES \<noteq> [] \<and>
   (\<exists>picks. roundRobin (map snd RR_QUEUES) = Some (Inr picks) \<and> rr_picks_ok (map snd RR_QUEUES) 0 picks)"
proof -
  have "map snd RR_QUEUES \<noteq> []" by (simp add: RR_QUEUES_def)
  with roundRobin_correct_run [OF this] show ?thesis by blast
qed

text \<open>
  No job is lost, taken twice or reordered: the picks of queue i, in order, are exactly the jobs that
  queue i held, head first.
\<close>

theorem roundRobin_takes_each_queue_whole:
  assumes "roundRobin queues = Some (Inr picks)" and "i < length queues"
  shows "map pk_job (filter (\<lambda>p. pk_queue p = i) picks) = queues ! i"
proof -
  from assms(2) have "0 < length queues" by linarith
  from rr_loop_result [OF this, of "[]"] assms(1) have "rr_picks_ok queues 0 picks"
    by (simp add: roundRobin_def)
  then show ?thesis using assms(2) by (rule rr_picks_ok_whole_queues)
qed

lemma roundRobin_example:
  "roundRobin [[''a1''], [], [''e1'', ''e2'']] = Some (Inr
    [\<lparr>pk_queue = 0, pk_job = ''a1'', pk_skipped = []\<rparr>, \<lparr>pk_queue = 2, pk_job = ''e1'', pk_skipped = [1]\<rparr>,
     \<lparr>pk_queue = 2, pk_job = ''e2'', pk_skipped = [0, 1]\<rparr>])"
  by (simp add: roundRobin_def rr_loop.simps rr_search.simps)

theorem roundRobin_takes_each_queue_whole_witness:
  "map pk_job (filter (\<lambda>p. pk_queue p = 2)
     [\<lparr>pk_queue = 0, pk_job = ''a1'', pk_skipped = []\<rparr>, \<lparr>pk_queue = 2, pk_job = ''e1'', pk_skipped = [1]\<rparr>,
      \<lparr>pk_queue = 2, pk_job = ''e2'', pk_skipped = [0, 1 :: nat]\<rparr>]) = [''e1'', ''e2'']"
  using roundRobin_takes_each_queue_whole [OF roundRobin_example, of 2] by simp

text \<open>
  With no queue at all, the first read is past the end of the array and raises a TypeError.
\<close>

theorem roundRobin_no_queue: "roundRobin [] = Some (Inl TypeError)"
  by (simp add: roundRobin_def rr_loop.simps rr_search.simps)

end
