(* ===== verification/Strategy.thy ===== *)
theory Strategy
  imports Order
begin

text \<open>
  \<open>docs/src/components/guides-a/model.ts\<close>: the rules of the library that the guide scenes draw. \<open>pick\<close>
  chooses the source of the next job under each of the four strategies, with the sentence the scene
  prints, and \<open>nextRanked\<close> the job that leaves a priority queue first. A source list is what the
  worker holds: ordered by queue priority, and by bind order among equals.
\<close>

section \<open>Data\<close>

datatype StrategyName = Priority | RoundRobin | MaxLen | MinLen

record Source =
  src_name :: string
  src_len :: nat

record SourcePick =
  sp_index :: nat
  sp_why :: string

record Ranked =
  rk_priority :: int
  rk_seq :: int

section \<open>Operations\<close>

text \<open>The endless loop of the RoundRobin case: the index found, the moved turn, the names passed over.\<close>

partial_function (option) rr_turn_loop ::
  "Source list \<Rightarrow> nat \<Rightarrow> string list \<Rightarrow> (order_error + nat \<times> nat \<times> string list) option" where
  "rr_turn_loop sources i skip =
    (if i < length sources then
       (if 0 < src_len (sources ! i) then Some (Inr (i, (i + 1) mod length sources, skip))
        else rr_turn_loop sources ((i + 1) mod length sources) (skip @ [src_name (sources ! i)]))
     else Some (Inl TypeError))"

definition tied_at :: "Source list \<Rightarrow> nat \<Rightarrow> nat list" where
  "tied_at sources v = filter (\<lambda>i. src_len (sources ! i) = v) [0..<length sources]"

definition tie_why :: "Source list \<Rightarrow> nat list \<Rightarrow> nat \<Rightarrow> string" where
  "tie_why sources tied v =
    join_with '' and '' (map (\<lambda>i. src_name (sources ! i)) tied) @ '' tie at '' @ string_of_nat v @ ''. ''
      @ src_name (sources ! hd tied) @ '' comes first in the list.''"

definition rr_why :: "string list \<Rightarrow> string \<Rightarrow> string" where
  "rr_why skip nm =
    (if skip \<noteq> [] then join_with '' and '' skip @ '' '' @ (if 1 < length skip then ''are'' else ''is'') @ '' empty: skipped. ''
     else '''') @ ''It is the turn of '' @ nm @ ''.''"

definition pick :: "StrategyName \<Rightarrow> Source list \<Rightarrow> nat \<Rightarrow> (order_error + SourcePick option \<times> nat) option" where
  "pick strategy sources rr =
    (if sources = [] \<or> (\<forall>s \<in> set sources. src_len s = 0) then Some (Inr (None, rr))
     else case strategy of
       Priority \<Rightarrow>
         (case find_index (\<lambda>s. 0 < src_len s) sources of
            None \<Rightarrow> Some (Inl TypeError)
          | Some i \<Rightarrow> Some (Inr (Some \<lparr>sp_index = i,
              sp_why = src_name (sources ! i) @ '' is the first queue in the list that has a job.''\<rparr>, rr)))
     | RoundRobin \<Rightarrow>
         Option.bind (rr_turn_loop sources rr []) (\<lambda>r. case r of
            Inl e \<Rightarrow> Some (Inl e)
          | Inr (i, rr', skip) \<Rightarrow>
              Some (Inr (Some \<lparr>sp_index = i, sp_why = rr_why skip (src_name (sources ! i))\<rparr>, rr')))
     | MaxLen \<Rightarrow>
         (let m = Max (set (map src_len sources)); tied = tied_at sources m; i = hd tied in
          Some (Inr (Some \<lparr>sp_index = i,
            sp_why = (if 1 < length tied then tie_why sources tied m
                      else src_name (sources ! i) @ '' has the most waiting jobs: '' @ string_of_nat m @ ''.'')\<rparr>, rr)))
     | MinLen \<Rightarrow>
         (let live = filter (\<lambda>s. 0 < src_len s) sources; m = Min (set (map src_len live));
              tied = tied_at sources m; i = hd tied in
          Some (Inr (Some \<lparr>sp_index = i,
            sp_why = (if 1 < length tied then tie_why sources tied m
                      else src_name (sources ! i) @ '' has the fewest waiting jobs: '' @ string_of_nat m
                        @ ''. Empty queues do not count.'')\<rparr>, rr))))"

fun nextRanked_from :: "'a Ranked_scheme option \<Rightarrow> 'a Ranked_scheme list \<Rightarrow> 'a Ranked_scheme option" where
  "nextRanked_from best [] = best"
| "nextRanked_from best (it # items) =
    nextRanked_from
      (case best of
         None \<Rightarrow> Some it
       | Some b \<Rightarrow>
           (if rk_priority it < rk_priority b \<or> rk_priority it = rk_priority b \<and> rk_seq it < rk_seq b then Some it else Some b))
      items"

definition nextRanked :: "'a Ranked_scheme list \<Rightarrow> 'a Ranked_scheme option" where
  "nextRanked items = nextRanked_from None items"

section \<open>The turn of round robin\<close>

lemma rr_turn_loop_search:
  assumes "i < length sources" "start < length sources"
    and "find_index (\<lambda>q. 0 < src_len q) (rr_seen sources i (rr_left (length sources) start i)) = Some j"
  shows "\<exists>skip'. rr_turn_loop sources i skip = Some (Inr ((i + j) mod length sources, (i + j + 1) mod length sources, skip'))"
  using assms
proof (induction j arbitrary: i skip)
  case (Suc j)
  let ?n = "length sources" and ?i = "(i + 1) mod length sources"
  obtain d where d: "rr_left ?n start i = Suc d"
    using Suc.prems by (cases "rr_left ?n start i") (auto simp: rr_seen_def)
  have upt: "[0..<Suc k] = 0 # map Suc [0..<k]" for k by (simp add: map_Suc_upt upt_conv_Cons)
  have shift: "(Suc i mod ?n + x) mod ?n = Suc (i + x) mod ?n"
    "Suc (Suc i mod ?n + x) mod ?n = Suc (Suc (i + x)) mod ?n" for x
    using mod_add_left_eq [of "Suc i" ?n x] mod_add_left_eq [of "Suc i" ?n "Suc x"] by simp_all
  from Suc.prems d have empty: "src_len (sources ! i) = 0"
    and tail: "find_index (\<lambda>q. 0 < src_len q) (map (\<lambda>x. sources ! (Suc (i + x) mod ?n)) [0..<d]) = Some j"
    by (auto simp: rr_seen_def upt comp_def simp del: upt_Suc find_index_None split: if_splits)
  then have "0 < d" by (cases d) auto
  with d Suc.prems have left: "rr_left ?n start ?i = d"
    by (auto simp: rr_left_def mod_if split: if_splits)
  have i: "?i < ?n" using Suc.prems(1) by (intro mod_less_divisor) linarith
  have "rr_turn_loop sources i skip = rr_turn_loop sources ?i (skip @ [src_name (sources ! i)])"
    using empty Suc.prems by (subst rr_turn_loop.simps) simp
  with Suc.IH [OF i Suc.prems(2), of "skip @ [src_name (sources ! i)]"] tail left
  show ?case by (simp add: rr_seen_def shift)
next
  case 0
  obtain d where d: "rr_left (length sources) start i = Suc d"
    using 0 by (cases "rr_left (length sources) start i") (auto simp: rr_seen_def)
  have "[0..<Suc d] = 0 # map Suc [0..<d]" by (simp add: map_Suc_upt upt_conv_Cons)
  with 0 d have "0 < src_len (sources ! i)"
    by (auto simp: rr_seen_def simp del: upt_Suc find_index_None split: if_splits)
  with 0 show ?case by (subst rr_turn_loop.simps) simp
qed

lemma rr_turn_loop_first:
  assumes "t < length sources" "rr_first (map src_len sources) t = Some p"
  shows "\<exists>skip'. rr_turn_loop sources t skip = Some (Inr (p, Suc p mod length sources, skip'))"
proof -
  let ?n = "length sources"
  from assms(2) obtain k where k: "find_index (\<lambda>l. 0 < l) (rotated t (map src_len sources)) = Some k"
    and p: "p = (t + k) mod ?n" by (auto simp: rr_first_def)
  have map_index: "find_index P (map f xs) = find_index (P \<circ> f) xs" for P f and xs :: "Source list"
    by (induction xs) auto
  have "rr_seen sources t (rr_left ?n t t) = rotated t sources"
    using assms(1) by (simp add: rr_seen_start rr_left_def)
  moreover have "rotated t (map src_len sources) = map src_len (rotated t sources)"
    by (simp add: rotated_def drop_map take_map)
  ultimately have "find_index (\<lambda>q. 0 < src_len q) (rr_seen sources t (rr_left ?n t t)) = Some k"
    using k by (simp add: map_index comp_def)
  from rr_turn_loop_search [OF assms(1,1) this, of skip] p show ?thesis
    by (simp add: mod_Suc_eq)
qed

section \<open>What each strategy promises\<close>

text \<open>
  The abstract contract, over the numbers of waiting jobs and the turn: Priority the first source with a
  job, RoundRobin the first from the turn, MaxLen the longest and MinLen the shortest but empty, the
  first of equals.
\<close>

fun strategy_spec :: "StrategyName \<Rightarrow> nat list \<Rightarrow> nat \<Rightarrow> nat \<Rightarrow> bool" where
  "strategy_spec Priority ls t i = (i < length ls \<and> 0 < ls ! i \<and> (\<forall>k < i. ls ! k = 0))"
| "strategy_spec RoundRobin ls t i =
    (i < length ls \<and> 0 < ls ! i
      \<and> (\<forall>k < length ls. rr_dist (length ls) t k < rr_dist (length ls) t i \<longrightarrow> ls ! k = 0))"
| "strategy_spec MaxLen ls t i =
    (i < length ls \<and> 0 < ls ! i \<and> (\<forall>k < length ls. ls ! k \<le> ls ! i) \<and> (\<forall>k < i. ls ! k < ls ! i))"
| "strategy_spec MinLen ls t i =
    (i < length ls \<and> 0 < ls ! i \<and> (\<forall>k < length ls. 0 < ls ! k \<longrightarrow> ls ! i \<le> ls ! k)
      \<and> (\<forall>k < i. ls ! k = 0 \<or> ls ! i < ls ! k))"

lemma strategy_spec_nonempty: "strategy_spec st ls t i \<Longrightarrow> i < length ls \<and> 0 < ls ! i"
  by (cases st) auto

text \<open>The contract leaves no choice: it names one source.\<close>

lemma strategy_spec_unique:
  assumes "t < length ls" "strategy_spec st ls t i" "strategy_spec st ls t j"
  shows "i = j"
proof (cases st)
  case RoundRobin
  with assms have "rr_dist (length ls) t i = rr_dist (length ls) t j"
    by (metis less_numeral_extra(3) linorder_neqE_nat strategy_spec.simps(2))
  with assms RoundRobin show ?thesis by (metis rr_dist_mod strategy_spec.simps(2))
next
  case Priority
  with assms show ?thesis by (metis less_numeral_extra(3) linorder_neqE_nat strategy_spec.simps(1))
next
  case MaxLen
  with assms show ?thesis by (metis leD linorder_neqE_nat strategy_spec.simps(3))
next
  case MinLen
  with assms show ?thesis by (metis leD less_numeral_extra(3) linorder_neqE_nat strategy_spec.simps(4))
qed

lemma hd_filter_first:
  assumes "\<exists>i < n. P i"
  shows "hd (filter P [0..<n]) < n \<and> P (hd (filter P [0..<n])) \<and> (\<forall>k < hd (filter P [0..<n]). \<not> P k)"
proof -
  let ?ys = "filter P [0..<n]"
  from assms obtain i where "i < n" "P i" by blast
  then have ne: "?ys \<noteq> []" by (simp add: filter_empty_conv) (use atLeastLessThan_iff in blast)
  then have hd: "hd ?ys \<in> set ?ys" by (rule hd_in_set)
  have "\<not> P k" if "k < hd ?ys" for k
  proof
    assume "P k"
    with that hd have "k \<in> set ?ys" by simp
    moreover have "sorted ?ys" by (rule sorted_wrt_filter) simp
    ultimately have "hd ?ys \<le> k" using ne by (cases ?ys) auto
    with that show False by simp
  qed
  moreover from hd have "hd ?ys < n" "P (hd ?ys)" by (simp_all only: set_filter mem_Collect_eq atLeastLessThan_iff set_upt)
  ultimately show ?thesis by blast
qed

lemma tied_at_first:
  assumes "v \<in> src_len ` set sources"
  shows "hd (tied_at sources v) < length sources \<and> src_len (sources ! hd (tied_at sources v)) = v
    \<and> (\<forall>k < hd (tied_at sources v). src_len (sources ! k) \<noteq> v)"
proof -
  have "\<exists>i < length sources. src_len (sources ! i) = v" using assms by (auto simp: in_set_conv_nth)
  from hd_filter_first [OF this] show ?thesis unfolding tied_at_def .
qed

lemma pick_Priority_spec:
  assumes "\<exists>s \<in> set sources. 0 < src_len s"
  shows "\<exists>p. pick Priority sources rr = Some (Inr (Some p, rr)) \<and> strategy_spec Priority (map src_len sources) rr (sp_index p)"
proof -
  from find_index_ex [OF assms] obtain i where i: "find_index (\<lambda>s. 0 < src_len s) sources = Some i" by blast
  from find_index_SomeD [OF i] have "strategy_spec Priority (map src_len sources) rr i" by auto
  with i assms show ?thesis by (auto simp: pick_def simp del: find_index_None)
qed

lemma pick_RoundRobin_spec:
  assumes "\<exists>s \<in> set sources. 0 < src_len s" and "rr < length sources"
  shows "\<exists>p. pick RoundRobin sources rr = Some (Inr (Some p, Suc (sp_index p) mod length sources))
    \<and> rr_first (map src_len sources) rr = Some (sp_index p)"
proof -
  from assms have "rr_first (map src_len sources) rr \<noteq> None" by (subst rr_first_None) auto
  then obtain i where i: "rr_first (map src_len sources) rr = Some i" by blast
  with rr_turn_loop_first [OF assms(2) i, of "[]"] assms(1) show ?thesis
    by (auto simp: pick_def)
qed

lemma pick_MaxLen_spec:
  assumes "\<exists>s \<in> set sources. 0 < src_len s"
  shows "\<exists>p. pick MaxLen sources rr = Some (Inr (Some p, rr)) \<and> strategy_spec MaxLen (map src_len sources) rr (sp_index p)"
proof -
  let ?m = "Max (set (map src_len sources))" and ?i = "hd (tied_at sources (Max (set (map src_len sources))))"
  from assms have ne: "sources \<noteq> []" by auto
  have m: "?m \<in> src_len ` set sources" using Max_in [of "set (map src_len sources)"] ne by simp
  have le: "src_len (sources ! k) \<le> ?m" if "k < length sources" for k
    using that by (intro Max_ge) auto
  from assms obtain s where "s \<in> set sources" "0 < src_len s" by blast
  moreover from this have "src_len s \<le> ?m" by (intro Max_ge) auto
  ultimately have "0 < ?m" by linarith
  moreover have "src_len (sources ! k) < ?m" if "k < ?i" for k
    using tied_at_first [OF m] le [of k] that by (metis le_neq_implies_less order.strict_trans)
  ultimately have "strategy_spec MaxLen (map src_len sources) rr ?i"
    using tied_at_first [OF m] le by (simp del: set_map)
  with assms show ?thesis by (auto simp: pick_def Let_def)
qed

lemma pick_MinLen_spec:
  assumes "\<exists>s \<in> set sources. 0 < src_len s"
  shows "\<exists>p. pick MinLen sources rr = Some (Inr (Some p, rr)) \<and> strategy_spec MinLen (map src_len sources) rr (sp_index p)"
proof -
  let ?live = "filter (\<lambda>s. 0 < src_len s) sources"
  let ?m = "Min (set (map src_len ?live))"
  from assms have ne: "set (map src_len ?live) \<noteq> {}" by auto
  have m: "?m \<in> set (map src_len ?live)" using ne by (intro Min_in) simp_all
  then have pos: "0 < ?m" and m': "?m \<in> src_len ` set sources" by auto
  have le: "?m \<le> src_len (sources ! k)" if "k < length sources" "0 < src_len (sources ! k)" for k
    using that by (intro Min_le) auto
  have "src_len (sources ! k) = 0 \<or> ?m < src_len (sources ! k)" if "k < hd (tied_at sources ?m)" for k
    using tied_at_first [OF m'] le [of k] that by (metis le_neq_implies_less not_gr_zero order.strict_trans)
  with tied_at_first [OF m'] le pos have "strategy_spec MinLen (map src_len sources) rr (hd (tied_at sources ?m))"
    by (simp del: set_map set_filter)
  with assms show ?thesis by (auto simp: pick_def Let_def)
qed

section \<open>The guides' picker as a round-robin picker\<close>

definition guide_scan :: "nat list \<Rightarrow> nat \<Rightarrow> nat option" where
  "guide_scan ls t = (case pick RoundRobin (map (\<lambda>l. \<lparr>src_name = '''', src_len = l\<rparr>) ls) t of
     Some (Inr (Some p, _)) \<Rightarrow> Some (sp_index p) | _ \<Rightarrow> None)"

interpretation guide_rr: round_robin guide_scan
proof
  fix t :: nat and ls :: "nat list"
  let ?ss = "map (\<lambda>l. \<lparr>src_name = '''', src_len = l\<rparr>) ls"
  assume t: "t < length ls"
  have lens: "map src_len ?ss = ls" by (simp add: comp_def)
  show "guide_scan ls t = rr_first ls t"
  proof (cases "\<exists>s \<in> set ?ss. 0 < src_len s")
    case True
    with pick_RoundRobin_spec [OF True, of t] t lens show ?thesis
      by (auto simp: guide_scan_def)
  next
    case False
    then have "\<forall>l \<in> set ls. l = 0" by auto
    with t have "rr_first ls t = None" by (simp add: rr_first_None)
    with False show ?thesis by (simp add: guide_scan_def pick_def)
  qed
qed

section \<open>Picks in a row\<close>

text \<open>The turn before pick \<open>k\<close>, when pick \<open>k\<close> finds the sources as \<open>srcs k\<close>: what the worker keeps in \<open>rr\<close>.\<close>

fun guide_turn :: "(nat \<Rightarrow> Source list) \<Rightarrow> nat \<Rightarrow> nat \<Rightarrow> nat" where
  "guide_turn srcs t 0 = t"
| "guide_turn srcs t (Suc k) =
    (case pick RoundRobin (srcs k) (guide_turn srcs t k) of Some (Inr (_, rr')) \<Rightarrow> rr' | _ \<Rightarrow> guide_turn srcs t k)"

lemma pick_RoundRobin_scan:
  assumes "rr < length sources" and "i < length sources" and "0 < src_len (sources ! i)"
  shows "\<exists>p. pick RoundRobin sources rr = Some (Inr (Some p, Suc (sp_index p) mod length sources))
    \<and> guide_scan (map src_len sources) rr = Some (sp_index p)"
proof -
  have "\<exists>s \<in> set sources. 0 < src_len s" using assms(2,3) nth_mem by blast
  from pick_RoundRobin_spec [OF this assms(1)] guide_rr.scan_first [of rr "map src_len sources"] assms(1)
  show ?thesis by auto
qed

lemma guide_turn_turn_at:
  assumes "\<And>k. length (srcs k) = n" "i < n" "\<And>k. 0 < src_len (srcs k ! i)" "t < n"
  shows "guide_turn srcs t k = guide_rr.turn_at n (\<lambda>k. map src_len (srcs k)) t k"
proof (induction k)
  case (Suc k)
  have "guide_turn srcs t k < n" using Suc assms guide_rr.turn_at_less [of n t] by simp
  then obtain p where "pick RoundRobin (srcs k) (guide_turn srcs t k) = Some (Inr (Some p, Suc (sp_index p) mod n))"
    "guide_scan (map src_len (srcs k)) (guide_turn srcs t k) = Some (sp_index p)"
    using pick_RoundRobin_scan [of "guide_turn srcs t k" "srcs k" i] assms(1) [of k] assms(2) assms(3) [of k] by auto
  with Suc show ?case by simp
qed simp

section \<open>The head of a priority queue\<close>

definition ranked_key :: "'a Ranked_scheme \<Rightarrow> int \<times> int" where
  "ranked_key r = (rk_priority r, rk_seq r)"

lemma nextRanked_from_min:
  "\<exists>r. nextRanked_from (Some b) items = Some r \<and> r \<in> insert b (set items) \<and> (\<forall>y \<in> insert b (set items). ranked_key r \<le> ranked_key y)"
proof (induction items arbitrary: b)
  case Nil
  then show ?case by simp
next
  case (Cons it items)
  let ?c = "if rk_priority it < rk_priority b \<or> rk_priority it = rk_priority b \<and> rk_seq it < rk_seq b then it else b"
  from Cons.IH [of ?c] obtain r where r: "nextRanked_from (Some ?c) items = Some r" "r \<in> insert ?c (set items)"
    "\<forall>y \<in> insert ?c (set items). ranked_key r \<le> ranked_key y" by blast
  have "ranked_key ?c \<le> ranked_key b" "ranked_key ?c \<le> ranked_key it" by (auto simp: ranked_key_def)
  with r(3) have "ranked_key r \<le> ranked_key b" "ranked_key r \<le> ranked_key it" by (auto intro: order.trans)
  with r show ?case by (auto split: if_splits)
qed

lemma nextRanked_min:
  assumes "items \<noteq> []"
  shows "\<exists>r \<in> set items. nextRanked items = Some r \<and> (\<forall>y \<in> set items. ranked_key r \<le> ranked_key y)"
  using assms by (cases items) (auto simp: nextRanked_def intro: nextRanked_from_min [THEN exE])

lemma hd_sort_key_min: "xs \<noteq> [] \<Longrightarrow> hd (sort_key f xs) \<in> set xs \<and> (\<forall>y \<in> set xs. f (hd (sort_key f xs)) \<le> f y)"
proof -
  assume "xs \<noteq> []"
  then obtain z zs where z: "sort_key f xs = z # zs" by (metis length_0_conv length_sort neq_Nil_conv)
  have "sorted (map f (z # zs))" using sorted_sort_key [of f xs] z by simp
  moreover have "set xs = set (z # zs)" using set_sort [of f xs] z by simp
  ultimately show ?thesis using z by auto
qed

text \<open>The jobs of a list of Adds as the guides' priority queue holds them: priority, place, and the job.\<close>

definition ranked_adds :: "Add list \<Rightarrow> Add Ranked_scheme list" where
  "ranked_adds adds = map (\<lambda>(a, i). \<lparr>rk_priority = add_priority a, rk_seq = int i, \<dots> = a\<rparr>) (zip adds [0..<length adds])"

section \<open>Properties\<close>

lemma pick_spec:
  assumes "\<exists>s \<in> set sources. 0 < src_len s" and "rr < length sources"
  shows "\<exists>p. pick st sources rr
      = Some (Inr (Some p, if st = RoundRobin then Suc (sp_index p) mod length sources else rr))
    \<and> strategy_spec st (map src_len sources) rr (sp_index p)"
proof (cases st)
  case RoundRobin
  with pick_RoundRobin_spec [OF assms] rr_first_SomeD [of rr "map src_len sources"] assms show ?thesis by auto
qed (use assms pick_Priority_spec pick_MaxLen_spec pick_MinLen_spec in auto)

text \<open>
  C3: while some source has a job, \<open>pick\<close> returns a source that meets the strategy's contract, and
  moves the round-robin turn just past it under RoundRobin and leaves it alone under the others.
\<close>

theorem pick_meets_strategy:
  assumes "\<exists>s \<in> set sources. 0 < src_len s" and "rr < length sources"
  shows "\<exists>p. pick st sources rr
      = Some (Inr (Some p, if st = RoundRobin then Suc (sp_index p) mod length sources else rr))
    \<and> strategy_spec st (map src_len sources) rr (sp_index p)"
  by (rule pick_spec [OF assms])

theorem pick_meets_strategy_witness:
  "\<exists>p. pick RoundRobin [\<lparr>src_name = ''alerts'', src_len = 0\<rparr>, \<lparr>src_name = ''emails'', src_len = 2\<rparr>] 0
      = Some (Inr (Some p, Suc (sp_index p) mod Suc (Suc 0))) \<and> strategy_spec RoundRobin [0, 2] 0 (sp_index p)"
  using pick_meets_strategy [of "[\<lparr>src_name = ''alerts'', src_len = 0\<rparr>, \<lparr>src_name = ''emails'', src_len = 2\<rparr>]" 0 RoundRobin]
  by simp

text \<open>
  \<open>pick\<close> returns null, and leaves the turn alone, exactly when no source has a job.
\<close>

theorem pick_null_iff_no_job:
  assumes "rr < length sources \<or> sources = []"
  shows "pick st sources rr = Some (Inr (None, rr)) \<longleftrightarrow> (\<forall>s \<in> set sources. src_len s = 0)"
proof (cases "\<exists>s \<in> set sources. 0 < src_len s")
  case True
  with assms have "rr < length sources" by auto
  from pick_Priority_spec [OF True, of rr] pick_RoundRobin_spec [OF True this]
    pick_MaxLen_spec [OF True, of rr] pick_MinLen_spec [OF True, of rr] True
  show ?thesis by (cases st) force+
next
  case False
  then show ?thesis by (simp add: pick_def)
qed

theorem pick_null_iff_no_job_witness:
  "pick MinLen [\<lparr>src_name = ''alerts'', src_len = 0\<rparr>] 0 = Some (Inr (None, 0))"
  using pick_null_iff_no_job [of 0 "[\<lparr>src_name = ''alerts'', src_len = 0\<rparr>]" MinLen] by simp

text \<open>
  C4: RoundRobin is fair: over any changes of the other sources, a source that has a job at every pick
  is chosen within as many picks as there are sources, wherever the turn stood.
\<close>

theorem pick_round_robin_fair:
  assumes "\<And>k. length (srcs k) = n" "i < n" "\<And>k. 0 < src_len (srcs k ! i)" "t < n"
  shows "\<exists>k < n. \<exists>p rr'. pick RoundRobin (srcs k) (guide_turn srcs t k) = Some (Inr (Some p, rr')) \<and> sp_index p = i"
proof -
  obtain k where k: "k < n" "guide_scan (map src_len (srcs k)) (guide_rr.turn_at n (\<lambda>k. map src_len (srcs k)) t k) = Some i"
    using guide_rr.fair [of "\<lambda>k. map src_len (srcs k)" n i t] assms by auto
  have "guide_turn srcs t k = guide_rr.turn_at n (\<lambda>k. map src_len (srcs k)) t k"
    by (rule guide_turn_turn_at [OF assms])
  moreover from this have "guide_turn srcs t k < length (srcs k)" using assms guide_rr.turn_at_less [of n t] by simp
  then obtain p rr' where "pick RoundRobin (srcs k) (guide_turn srcs t k) = Some (Inr (Some p, rr'))"
    "guide_scan (map src_len (srcs k)) (guide_turn srcs t k) = Some (sp_index p)"
    using pick_RoundRobin_scan [of "guide_turn srcs t k" "srcs k" i] assms(1) [of k] assms(2) assms(3) [of k] by auto
  ultimately show ?thesis using k by auto
qed

theorem pick_round_robin_fair_witness:
  "\<exists>k < (2 :: nat). \<exists>p rr'.
    pick RoundRobin [\<lparr>src_name = ''a'', src_len = 5\<rparr>, \<lparr>src_name = ''b'', src_len = 1\<rparr>]
      (guide_turn (\<lambda>_. [\<lparr>src_name = ''a'', src_len = 5\<rparr>, \<lparr>src_name = ''b'', src_len = 1\<rparr>]) 0 k)
    = Some (Inr (Some p, rr')) \<and> sp_index p = 1"
  using pick_round_robin_fair [of "\<lambda>_. [\<lparr>src_name = ''a'', src_len = 5\<rparr>, \<lparr>src_name = ''b'', src_len = 1\<rparr>]" 2 1 0]
  by simp

text \<open>
  The guides' \<open>nextRanked\<close> and the home page's \<open>priorityQueue\<close> agree: of the jobs added so far, the one
  \<open>nextRanked\<close> sends out is the head of the list \<open>priorityQueue\<close> ends with.
\<close>

theorem nextRanked_is_priorityQueue_head:
  assumes "adds \<noteq> []"
  shows "map_option Ranked.more (nextRanked (ranked_adds adds)) = Some (hd (last (priorityQueue adds)))"
proof -
  let ?key = "\<lambda>(a, i :: nat). (add_priority a, i)" and ?zs = "zip adds [0..<length adds]"
  have zs: "?zs \<noteq> []" using assms by simp
  obtain a i where hd: "hd (sort_key ?key ?zs) = (a, i)" by force
  from hd_sort_key_min [OF zs, of ?key] hd have ai: "(a, i) \<in> set ?zs"
    and min: "\<And>b j. (b, j) \<in> set ?zs \<Longrightarrow> (add_priority a, i) \<le> (add_priority b, j)" by auto
  from nextRanked_min [of "ranked_adds adds"] zs obtain r where r: "r \<in> set (ranked_adds adds)"
    "nextRanked (ranked_adds adds) = Some r" "\<forall>y \<in> set (ranked_adds adds). ranked_key r \<le> ranked_key y"
    by (auto simp: ranked_adds_def)
  from r(1) obtain b j where bj: "(b, j) \<in> set ?zs" "r = \<lparr>rk_priority = add_priority b, rk_seq = int j, \<dots> = b\<rparr>"
    by (auto simp: ranked_adds_def)
  have "ranked_key r \<le> (add_priority a, int i)" using r(3) ai by (force simp: ranked_adds_def ranked_key_def)
  with min [OF bj(1)] bj(2) have "j = i" by (auto simp: ranked_key_def)
  with ai bj(1) have "b = a" by (auto simp: in_set_zip)
  moreover have "hd (last (priorityQueue adds)) = a"
  proof -
    have "last (priorityQueue adds) = map fst (sort_key ?key ?zs)"
      using assms by (simp add: priorityQueue_def last_map del: upt_Suc)
    moreover have "sort_key ?key ?zs \<noteq> []" using zs by (metis length_0_conv length_sort)
    ultimately show ?thesis using hd by (simp add: hd_map)
  qed
  ultimately show ?thesis using r(2) bj(2) by simp
qed

theorem nextRanked_is_priorityQueue_head_witness:
  "map_option Ranked.more (nextRanked (ranked_adds PRIORITY_ADDS)) = Some (hd (last (priorityQueue PRIORITY_ADDS)))"
  using nextRanked_is_priorityQueue_head [of PRIORITY_ADDS] by (simp add: PRIORITY_ADDS_def)

end
