(* ===== verification/Pool_Model.thy ===== *)
theory Pool_Model
  imports Complex_Main Prelude "HOL-Library.Multiset"
begin

text \<open>
  \<open>docs/src/components/learn/engine.ts\<close>: the small model of a worker pool that the Learn page steps
  through. \<open>worthSpawning\<close>, \<open>batchSize\<close>, \<open>batchBudget\<close> and \<open>plan\<close> decide the next hand-off, and
  \<open>PoolModel\<close> applies one atomic step per \<open>advance\<close>. Times are milliseconds and may be fractions of
  one, so they are rationals; a job is its number.
\<close>

section \<open>Data\<close>

definition MAX_BATCH :: nat where "MAX_BATCH = 32"
definition SPAWN_NANOS :: rat where "SPAWN_NANOS = 2000"
definition HANDOFF_GAP :: rat where "HANDOFF_GAP = 32000"

record Plan =
  p_node :: nat
  p_isNew :: bool
  p_k :: nat
  p_alive :: nat
  p_shares :: nat
  p_even :: nat
  p_budget :: nat

record Batch =
  b_node :: nat
  b_jobs :: "nat list"
  b_start :: rat
  b_end :: rat

datatype SleepWhy = WhyEmpty | WhyFull

datatype Step =
    StAdd nat
  | StWake
  | StHandoff nat "nat list" bool
  | StSleep SleepWhy
  | StFinish nat "nat list" bool
  | StWait
  | StIdle

datatype Phase = Rest | Dispatch

record PoolModel =
  concurrency :: nat
  jobNanos :: rat
  jobMs :: rat
  pqueue :: "nat list"
  pidle :: "nat list"
  pbusy :: "Batch list"
  pdone :: "nat list"
  pnow :: rat
  signal :: bool
  dropped :: nat
  awake :: bool
  pnext :: nat
  phase :: Phase

section \<open>Operations\<close>

definition worthSpawning :: "nat \<Rightarrow> rat \<Rightarrow> nat \<Rightarrow> bool" where
  "worthSpawning pending nanos alive =
    (if alive = 0 \<or> nanos = 0 then True else of_nat pending * nanos > SPAWN_NANOS * of_nat alive * of_nat alive)"

definition batchSize :: "nat \<Rightarrow> nat \<Rightarrow> nat" where
  "batchSize pending shares = max 1 (min (pending div max shares 1) MAX_BATCH)"

definition batchBudget :: "rat \<Rightarrow> nat \<Rightarrow> nat" where
  "batchBudget nanos alive =
    (if nanos = 0 then 1
     else let need = ceiling (of_nat (max alive 1) * HANDOFF_GAP / nanos) in nat (max 1 (min need (int MAX_BATCH))))"

definition plan :: "nat \<Rightarrow> nat \<Rightarrow> rat \<Rightarrow> nat \<Rightarrow> nat option \<Rightarrow> nat \<Rightarrow> Plan option" where
  "plan pending conc nanos alive idleNode newNode =
    (let grow = worthSpawning pending nanos alive;
         shares = (if grow then min conc pending else alive);
         budget = (if 1 < conc then batchBudget nanos alive else MAX_BATCH);
         even = batchSize pending shares;
         mk = (\<lambda>node isNew. \<lparr>p_node = node, p_isNew = isNew, p_k = min even (min budget MAX_BATCH),
                p_alive = alive, p_shares = shares, p_even = even, p_budget = budget\<rparr>)
     in case idleNode of
          Some node \<Rightarrow> Some (mk node False)
        | None \<Rightarrow> if grow then Some (mk newNode True) else None)"

definition PoolModel_new :: "nat \<Rightarrow> rat \<Rightarrow> bool \<Rightarrow> PoolModel" where
  "PoolModel_new conc ms measured =
    \<lparr>concurrency = conc, jobNanos = (if measured then ms * 1000000 else 0), jobMs = ms, pqueue = [], pidle = [1],
     pbusy = [], pdone = [], pnow = 0, signal = False, dropped = 0, awake = False, pnext = 1, phase = Rest\<rparr>"

definition alive :: "PoolModel \<Rightarrow> nat" where
  "alive m = length (pbusy m) + length (pidle m)"

definition pm_minIdle :: "PoolModel \<Rightarrow> nat" where
  "pm_minIdle m = 1"

definition lowestFreeNode :: "PoolModel \<Rightarrow> nat" where
  "lowestFreeNode m = lowest_from (pidle m @ map b_node (pbusy m)) 1"

text \<open>\<open>add\<close>: n pushes, and n tries of the signal slot, which holds one.\<close>

fun try_signal :: "nat \<Rightarrow> PoolModel \<Rightarrow> PoolModel" where
  "try_signal 0 m = m"
| "try_signal (Suc n) m =
    try_signal n (if signal m then m\<lparr>dropped := dropped m + 1\<rparr> else m\<lparr>signal := True\<rparr>)"

definition pm_add :: "nat \<Rightarrow> PoolModel \<Rightarrow> Step \<times> PoolModel" where
  "pm_add n m =
    (StAdd n, try_signal n (m\<lparr>pqueue := pqueue m @ [pnext m..<pnext m + n], pnext := pnext m + n\<rparr>))"

definition nextDue :: "PoolModel \<Rightarrow> rat option" where
  "nextDue m = (if pbusy m = [] then None else Some (Min (set (map b_end (pbusy m)))))"

definition loopBusy :: "PoolModel \<Rightarrow> bool" where
  "loopBusy m = (signal m \<or> phase m = Dispatch)"

definition finishBatch :: "nat \<Rightarrow> PoolModel \<Rightarrow> Step \<times> PoolModel" where
  "finishBatch i m =
    (let b = pbusy m ! i;
         kept = (length (pqueue m) > length (pidle m) \<or> length (pidle m) < pm_minIdle m)
     in (StFinish (b_node b) (b_jobs b) kept,
         m\<lparr>pbusy := splice_out i (pbusy m), pdone := pdone m @ b_jobs b, jobNanos := jobMs m * 1000000,
           pidle := (if kept then pidle m @ [b_node b] else pidle m), signal := True\<rparr>))"

text \<open>The scan of \<open>advance\<close> for the batch that ended first: the first of the earliest ends not after now.\<close>

fun due_upto :: "Batch list \<Rightarrow> rat \<Rightarrow> nat \<Rightarrow> nat option" where
  "due_upto busy now 0 = None"
| "due_upto busy now (Suc i) =
    (let best = due_upto busy now i in
     if b_end (busy ! i) \<le> now \<and> (case best of None \<Rightarrow> True | Some j \<Rightarrow> b_end (busy ! i) < b_end (busy ! j))
     then Some i else best)"

definition pm_dispatch :: "PoolModel \<Rightarrow> Step \<times> PoolModel" where
  "pm_dispatch m =
    (let sleep = (StSleep (if pqueue m = [] then WhyEmpty else WhyFull), m\<lparr>awake := False, phase := Rest\<rparr>) in
     if length (pbusy m) < concurrency m \<and> 0 < length (pqueue m) then
       (case plan (length (pqueue m)) (concurrency m) (jobNanos m) (alive m)
               (if pidle m \<noteq> [] then Some (last (pidle m)) else None) (lowestFreeNode m) of
          None \<Rightarrow> sleep
        | Some p \<Rightarrow>
            let jobs = take (p_k p) (pqueue m) in
            (StHandoff (p_node p) jobs (p_isNew p),
             m\<lparr>pidle := (if p_isNew p then pidle m else butlast (pidle m)), pqueue := drop (p_k p) (pqueue m),
               pbusy := pbusy m @ [\<lparr>b_node = p_node p, b_jobs = jobs, b_start = pnow m,
                                    b_end = pnow m + of_nat (length jobs) * jobMs m\<rparr>]\<rparr>))
     else sleep)"

definition pm_advance :: "rat \<Rightarrow> PoolModel \<Rightarrow> Step \<times> PoolModel" where
  "pm_advance t m0 =
    (let m = m0\<lparr>pnow := max (pnow m0) t\<rparr>; due = due_upto (pbusy m) (pnow m) (length (pbusy m)) in
     if phase m = Rest \<and> due \<noteq> None then finishBatch (the due) m
     else if signal m \<and> phase m = Rest then (StWake, m\<lparr>signal := False, awake := True, phase := Dispatch\<rparr>)
     else if phase m = Dispatch then pm_dispatch m
     else (if pbusy m \<noteq> [] then StWait else StIdle, m))"

section \<open>The planner\<close>

lemma batchSize_bounds: "1 \<le> batchSize pending shares" "batchSize pending shares \<le> MAX_BATCH"
  by (auto simp: batchSize_def MAX_BATCH_def)

lemma batchSize_le_pending: "0 < pending \<Longrightarrow> batchSize pending shares \<le> pending"
  by (auto simp: batchSize_def min_le_iff_disj)

lemma batchBudget_bounds: "1 \<le> batchBudget nanos n" "batchBudget nanos n \<le> MAX_BATCH"
  by (auto simp: batchBudget_def Let_def MAX_BATCH_def)

lemma plan_k_bounds:
  assumes "plan pending conc nanos n idleNode newNode = Some p" "0 < pending"
  shows "1 \<le> p_k p" "p_k p \<le> MAX_BATCH" "p_k p \<le> pending"
  using assms batchSize_bounds batchSize_le_pending [OF assms(2)] batchBudget_bounds
  by (auto simp: plan_def Let_def MAX_BATCH_def min_le_iff_disj split: option.splits if_splits)

lemma plan_node:
  assumes "plan pending conc nanos n idleNode newNode = Some p"
  shows "(p_isNew p \<longrightarrow> idleNode = None \<and> p_node p = newNode) \<and> (\<not> p_isNew p \<longrightarrow> idleNode = Some (p_node p))"
  using assms by (auto simp: plan_def Let_def split: option.splits if_splits)

text \<open>The planner declines only with a goroutine alive and none idle.\<close>

lemma plan_None: "plan pending conc nanos n idleNode newNode = None \<Longrightarrow> idleNode = None \<and> n \<noteq> 0"
  by (auto simp: plan_def Let_def worthSpawning_def split: option.splits if_splits)

section \<open>The batch that is due\<close>

lemma due_upto_Some:
  "due_upto busy now n = Some j \<Longrightarrow>
    j < n \<and> b_end (busy ! j) \<le> now \<and> (\<forall>k < n. b_end (busy ! j) \<le> b_end (busy ! k))"
proof (induction n arbitrary: j)
  case (Suc n)
  show ?case
  proof (cases "due_upto busy now n")
    case None
    have "\<forall>k < n. \<not> b_end (busy ! k) \<le> now" using None
      by (induction n) (auto simp: Let_def less_Suc_eq split: if_splits option.splits)
    with Suc.prems None show ?thesis by (auto simp: less_Suc_eq split: if_splits)
  next
    case (Some j')
    with Suc.IH [OF Some] Suc.prems show ?thesis by (fastforce simp: Let_def less_Suc_eq split: if_splits)
  qed
qed simp

lemma due_upto_None: "due_upto busy now n = None \<longleftrightarrow> (\<forall>k < n. now < b_end (busy ! k))"
  by (induction n) (auto simp: Let_def less_Suc_eq not_less split: option.splits)

section \<open>Well-formed pools\<close>

text \<open>
  The goroutines are distinct and at most \<open>concurrency\<close>; every batch holds a job; the jobs added are, in
  some order, those waiting, those in a batch and those done; the queue is the tail of what was added;
  and work is never forgotten: a resting loop with jobs waiting has a signal or a batch still running.
\<close>

definition pm_all :: "PoolModel \<Rightarrow> nat multiset" where
  "pm_all m = mset (pdone m) + mset (concat (map b_jobs (pbusy m))) + mset (pqueue m)"

definition queue_tail :: "nat list \<Rightarrow> nat \<Rightarrow> bool" where
  "queue_tail xs p \<longleftrightarrow> xs = [p - length xs..<p]"

definition pm_nodes :: "PoolModel \<Rightarrow> nat list" where
  "pm_nodes m = pidle m @ map b_node (pbusy m)"

definition batch_ok :: "Batch \<Rightarrow> bool" where
  "batch_ok b \<longleftrightarrow> b_jobs b \<noteq> [] \<and> length (b_jobs b) \<le> MAX_BATCH"

definition pm_wf :: "PoolModel \<Rightarrow> bool" where
  "pm_wf m \<longleftrightarrow>
    1 \<le> concurrency m \<and> 1 \<le> pnext m
    \<and> distinct (pm_nodes m) \<and> (\<forall>n \<in> set (pm_nodes m). 1 \<le> n)
    \<and> length (pm_nodes m) \<le> concurrency m
    \<and> (\<forall>b \<in> set (pbusy m). batch_ok b)
    \<and> pm_all m = mset [1..<pnext m]
    \<and> queue_tail (pqueue m) (pnext m)
    \<and> (phase m = Rest \<and> \<not> signal m \<and> pqueue m \<noteq> [] \<longrightarrow> pbusy m \<noteq> [])"

lemma pm_wf_new: "1 \<le> conc \<Longrightarrow> pm_wf (PoolModel_new conc ms measured)"
  by (simp add: pm_wf_def PoolModel_new_def pm_nodes_def pm_all_def queue_tail_def)

lemma try_signal_frame [frame_simps]:
  "concurrency (try_signal n m) = concurrency m" "pidle (try_signal n m) = pidle m"
  "pbusy (try_signal n m) = pbusy m" "pqueue (try_signal n m) = pqueue m" "pdone (try_signal n m) = pdone m"
  "pnext (try_signal n m) = pnext m" "phase (try_signal n m) = phase m" "pnow (try_signal n m) = pnow m"
  "jobMs (try_signal n m) = jobMs m"
  by (induction n m rule: try_signal.induct) auto

lemma try_signal_signal: "signal (try_signal n m) \<longleftrightarrow> signal m \<or> 0 < n"
  by (induction n m rule: try_signal.induct) auto

lemma try_signal_counts:
  "dropped (try_signal n m) + (if signal (try_signal n m) then 1 else 0) = dropped m + (if signal m then 1 else 0) + n"
  by (induction n m rule: try_signal.induct) (auto split: if_splits)

lemma queue_tail_append:
  assumes "queue_tail xs p"
  shows "queue_tail (xs @ [p..<p + n]) (p + n)"
proof -
  have "xs @ [p..<p + n] = [p - length xs..<p + n]"
    using assms upt_add_eq_append [of "p - length xs" p n] by (simp add: queue_tail_def)
  then show ?thesis by (simp add: queue_tail_def)
qed

lemma queue_tail_drop:
  assumes "queue_tail xs p"
  shows "queue_tail (drop k xs) p"
proof -
  have xs: "xs = [p - length xs..<p]" using assms by (simp add: queue_tail_def)
  have len: "length xs = p - (p - length xs)" using arg_cong [OF xs, of length] by simp
  have "drop k xs = [p - length xs + k..<p]" using arg_cong [OF xs, of "drop k"] by simp
  moreover have "p - length xs + k = p - length (drop k xs) \<or> [p - length xs + k..<p] = [] \<and> drop k xs = []"
    using len by auto
  ultimately show ?thesis by (auto simp: queue_tail_def)
qed

lemma pm_wf_add [wf_intros]:
  assumes "pm_wf m"
  shows "pm_wf (snd (pm_add n m))"
proof -
  let ?m = "snd (pm_add n m)"
  have all: "[1..<pnext m + n] = [1..<pnext m] @ [pnext m..<pnext m + n]"
    using assms by (intro upt_add_eq_append) (simp add: pm_wf_def)
  have "pm_all ?m = pm_all m + mset [pnext m..<pnext m + n]"
    by (simp add: pm_all_def pm_add_def frame_simps union_assoc)
  also have "\<dots> = mset [1..<pnext m + n]" unfolding all using assms by (simp add: pm_wf_def)
  finally have "pm_all ?m = mset [1..<pnext ?m]" by (simp add: pm_add_def frame_simps)
  moreover have "queue_tail (pqueue ?m) (pnext ?m)"
    using assms queue_tail_append by (simp add: pm_wf_def pm_add_def frame_simps)
  moreover have "pm_nodes ?m = pm_nodes m" "phase ?m = phase m" "pbusy ?m = pbusy m" "concurrency ?m = concurrency m"
    "1 \<le> pnext m \<Longrightarrow> 1 \<le> pnext ?m"
    by (simp_all add: pm_nodes_def pm_add_def frame_simps)
  moreover have "phase m = Rest \<and> \<not> signal ?m \<and> pqueue ?m \<noteq> [] \<Longrightarrow> pbusy m \<noteq> []"
    using assms by (auto simp: pm_wf_def pm_add_def frame_simps try_signal_signal)
  ultimately show ?thesis using assms unfolding pm_wf_def by simp
qed

lemma pm_wf_finishBatch:
  assumes "pm_wf m" "i < length (pbusy m)"
  shows "pm_wf (snd (finishBatch i m))"
proof -
  let ?m = "snd (finishBatch i m)"
  obtain b xs ys where b: "pbusy m ! i = b" and xy: "pbusy m = xs @ b # ys" "splice_out i (pbusy m) = xs @ ys"
    using id_take_nth_drop [OF assms(2)] by (metis splice_out_def)
  have "pm_all ?m = pm_all m"
    unfolding pm_all_def xy(1) by (simp add: finishBatch_def Let_def xy(2) b ac_simps)
  moreover have "distinct (pm_nodes m) \<Longrightarrow> distinct (pm_nodes ?m)" "length (pm_nodes ?m) \<le> length (pm_nodes m)"
    "set (pm_nodes ?m) \<subseteq> set (pm_nodes m)" "set (pbusy ?m) \<subseteq> set (pbusy m)"
    unfolding pm_nodes_def xy(1) by (auto simp: finishBatch_def Let_def xy(2) b)
  moreover have "pqueue ?m = pqueue m" "pnext ?m = pnext m" "signal ?m" "concurrency ?m = concurrency m"
    by (simp_all add: finishBatch_def Let_def)
  ultimately show ?thesis using assms(1) unfolding pm_wf_def by auto
qed

text \<open>What a hand-off does, and when the loop goes to sleep: the two outcomes of \<open>pm_dispatch\<close>.\<close>

lemma pm_dispatch_cases:
  obtains (handoff) p where "length (pbusy m) < concurrency m" "pqueue m \<noteq> []"
      "plan (length (pqueue m)) (concurrency m) (jobNanos m) (alive m)
         (if pidle m \<noteq> [] then Some (last (pidle m)) else None) (lowestFreeNode m) = Some p"
      "pm_dispatch m = (StHandoff (p_node p) (take (p_k p) (pqueue m)) (p_isNew p),
         m\<lparr>pidle := (if p_isNew p then pidle m else butlast (pidle m)), pqueue := drop (p_k p) (pqueue m),
           pbusy := pbusy m @ [\<lparr>b_node = p_node p, b_jobs = take (p_k p) (pqueue m), b_start = pnow m,
             b_end = pnow m + of_nat (length (take (p_k p) (pqueue m))) * jobMs m\<rparr>]\<rparr>)"
  | (sleep) why where "pm_dispatch m = (StSleep why, m\<lparr>awake := False, phase := Rest\<rparr>)"
      "why = (if pqueue m = [] then WhyEmpty else WhyFull)"
      "pqueue m \<noteq> [] \<Longrightarrow> concurrency m \<le> length (pbusy m) \<or> pbusy m \<noteq> []"
proof (cases "length (pbusy m) < concurrency m \<and> pqueue m \<noteq> []")
  case True
  let ?p = "plan (length (pqueue m)) (concurrency m) (jobNanos m) (alive m)
    (if pidle m \<noteq> [] then Some (last (pidle m)) else None) (lowestFreeNode m)"
  show thesis
  proof (cases ?p)
    case None
    from plan_None [OF None] have "pbusy m \<noteq> []" by (auto simp: alive_def split: if_splits)
    with True None show thesis by (intro sleep [of WhyFull]) (simp_all add: pm_dispatch_def Let_def)
  next
    case (Some p)
    with True show thesis by (intro handoff [of p]) (simp_all add: pm_dispatch_def Let_def)
  qed
next
  case False
  then show thesis
    by (intro sleep [of "if pqueue m = [] then WhyEmpty else WhyFull"]) (auto simp: pm_dispatch_def Let_def)
qed

lemma pm_wf_dispatch:
  assumes "pm_wf m" "phase m = Dispatch"
  shows "pm_wf (snd (pm_dispatch m))"
proof (cases rule: pm_dispatch_cases [of m])
  case (handoff p)
  let ?m = "snd (pm_dispatch m)"
  have k: "1 \<le> p_k p" "p_k p \<le> MAX_BATCH" "p_k p \<le> length (pqueue m)"
    using plan_k_bounds [OF handoff(3)] handoff(2) by simp_all
  have "pm_all ?m = pm_all m"
    unfolding pm_all_def by (simp add: handoff(4) union_assoc flip: mset_append)
  moreover have "distinct (pm_nodes ?m) \<and> (\<forall>n \<in> set (pm_nodes ?m). 1 \<le> n) \<and> length (pm_nodes ?m) \<le> concurrency m"
  proof (cases "p_isNew p")
    case True
    with plan_node [OF handoff(3)] have "pidle m = []" "p_node p = lowest_from (pm_nodes m) 1"
      by (auto simp: lowestFreeNode_def pm_nodes_def split: if_splits)
    with assms(1) handoff(1) True lowest_from_free [of "pm_nodes m" 1] lowest_from_ge [of 1 "pm_nodes m"] show ?thesis
      by (auto simp: pm_nodes_def handoff(4) pm_wf_def)
  next
    case False
    with plan_node [OF handoff(3)] have "pidle m \<noteq> []" "p_node p = last (pidle m)" by (auto split: if_splits)
    then have "pidle m = butlast (pidle m) @ [p_node p]" by (simp add: append_butlast_last_id)
    then obtain ys where "pidle m = ys @ [p_node p]" "butlast (pidle m) = ys" by blast
    with assms(1) False show ?thesis by (auto simp: pm_nodes_def handoff(4) pm_wf_def)
  qed
  moreover have "queue_tail (pqueue ?m) (pnext ?m)" "\<forall>b \<in> set (pbusy ?m). batch_ok b" "phase ?m = Dispatch"
    "concurrency ?m = concurrency m" "pnext ?m = pnext m"
    using assms k by (auto simp: handoff(4) pm_wf_def queue_tail_drop batch_ok_def)
  ultimately show ?thesis using assms(1) unfolding pm_wf_def by simp
next
  case (sleep why)
  then show ?thesis using assms(1) by (fastforce simp: pm_wf_def pm_nodes_def pm_all_def)
qed

lemma pm_wf_now: "pm_wf (m\<lparr>pnow := t\<rparr>) \<longleftrightarrow> pm_wf m"
  by (simp add: pm_wf_def pm_nodes_def pm_all_def)

lemma pm_wf_wake:
  assumes "pm_wf m" shows "pm_wf (m\<lparr>signal := False, awake := True, phase := Dispatch\<rparr>)"
  using assms by (simp add: pm_wf_def pm_nodes_def pm_all_def)

lemma pm_wf_advance [wf_intros]:
  assumes "pm_wf m"
  shows "pm_wf (snd (pm_advance t m))"
  using assms due_upto_Some [of "pbusy m" _ "length (pbusy m)"]
  by (auto simp: pm_advance_def Let_def pm_wf_now intro!: pm_wf_finishBatch pm_wf_dispatch pm_wf_wake)

section \<open>Progress\<close>

text \<open>What is left to do: every step but waiting and idling brings it down.\<close>

definition pm_work :: "PoolModel \<Rightarrow> nat" where
  "pm_work m = 5 * length (pqueue m) + 3 * length (pbusy m) + (if signal m then 2 else 0)
    + (case phase m of Dispatch \<Rightarrow> 1 | Rest \<Rightarrow> 0)"

lemma finishBatch_work: "i < length (pbusy m) \<Longrightarrow> pm_work (snd (finishBatch i m)) < pm_work m"
  by (auto simp: pm_work_def finishBatch_def Let_def splice_out_def split: Phase.splits)

lemma dispatch_work: "phase m = Dispatch \<Longrightarrow> pm_work (snd (pm_dispatch m)) < pm_work m"
proof (cases rule: pm_dispatch_cases [of m])
  case (handoff p)
  assume "phase m = Dispatch"
  have "1 \<le> p_k p" "p_k p \<le> length (pqueue m)"
    using plan_k_bounds [OF handoff(3)] handoff(2) by simp_all
  then show ?thesis by (simp add: pm_work_def handoff(4))
qed (simp add: pm_work_def)

lemma pm_advance_work:
  assumes "fst (pm_advance t m) \<noteq> StWait" "fst (pm_advance t m) \<noteq> StIdle"
  shows "pm_work (snd (pm_advance t m)) < pm_work m"
proof -
  let ?m = "m\<lparr>pnow := max (pnow m) t\<rparr>"
  have work: "pm_work ?m = pm_work m" by (simp add: pm_work_def)
  have "pm_work (?m\<lparr>signal := False, awake := True, phase := Dispatch\<rparr>) < pm_work m" if "signal m" "phase m = Rest"
    using that by (simp add: pm_work_def)
  with assms finishBatch_work [of _ ?m] dispatch_work [of ?m] due_upto_Some [of "pbusy m" _ "length (pbusy m)"] work
  show ?thesis by (auto simp: pm_advance_def Let_def split: if_splits)
qed

text \<open>Waiting means a batch runs and none is due: at \<open>nextDue\<close> one is.\<close>

lemma pm_advance_Wait:
  assumes "pm_advance t m = (StWait, m')"
  shows "pbusy m' \<noteq> []" "phase m' = Rest" "pm_work m' = pm_work m"
  using assms by (auto simp: pm_advance_def pm_dispatch_def finishBatch_def pm_work_def Let_def
      split: if_splits option.splits Phase.splits) (metis Phase.exhaust)+

lemma pm_advance_at_due:
  assumes "pbusy m \<noteq> []" "phase m = Rest"
  shows "\<exists>i < length (pbusy m). pm_advance (the (nextDue m)) m = finishBatch i (m\<lparr>pnow := max (pnow m) (the (nextDue m))\<rparr>)"
proof -
  let ?t = "the (nextDue m)"
  have "?t \<in> set (map b_end (pbusy m))" using assms(1) Min_in [of "set (map b_end (pbusy m))"] by (simp add: nextDue_def)
  then obtain k where "k < length (pbusy m)" "b_end (pbusy m ! k) = ?t" by (auto simp: in_set_conv_nth)
  then have "due_upto (pbusy m) (max (pnow m) ?t) (length (pbusy m)) \<noteq> None"
    by (auto simp: due_upto_None intro!: exI [of _ k])
  then obtain i where i: "due_upto (pbusy m) (max (pnow m) ?t) (length (pbusy m)) = Some i" by blast
  from due_upto_Some [OF i] have "i < length (pbusy m)" by simp
  with i assms(2) show ?thesis by (intro exI [of _ i]) (simp add: pm_advance_def Let_def)
qed

lemma pm_advance_Wait_then_due:
  assumes "pm_advance t m = (StWait, m')"
  shows "pm_work (snd (pm_advance (the (nextDue m')) m')) < pm_work m"
proof -
  from pm_advance_at_due [OF pm_advance_Wait(1,2) [OF assms]] obtain i where
    "i < length (pbusy m')" "pm_advance (the (nextDue m')) m' = finishBatch i (m'\<lparr>pnow := max (pnow m') (the (nextDue m'))\<rparr>)"
    by blast
  with finishBatch_work [of i "m'\<lparr>pnow := max (pnow m') (the (nextDue m'))\<rparr>"] pm_advance_Wait(3) [OF assms]
  show ?thesis by (simp add: pm_work_def)
qed

text \<open>
  A reader who presses Step to the end: \<open>advance\<close> at the current time, and while the pool waits, at the time
  the next batch is due, until it reports idle.
\<close>

function pm_drain :: "PoolModel \<Rightarrow> PoolModel" where
  "pm_drain m =
    (if fst (pm_advance (pnow m) m) = StIdle then snd (pm_advance (pnow m) m)
     else if fst (pm_advance (pnow m) m) = StWait
     then pm_drain (snd (pm_advance (the (nextDue (snd (pm_advance (pnow m) m)))) (snd (pm_advance (pnow m) m))))
     else pm_drain (snd (pm_advance (pnow m) m)))"
  by pat_completeness auto
termination
proof (relation "measure pm_work")
  fix m
  assume "fst (pm_advance (pnow m) m) = StWait"
  then have "pm_advance (pnow m) m = (StWait, snd (pm_advance (pnow m) m))" by (metis prod.collapse)
  from pm_advance_Wait_then_due [OF this]
  show "(snd (pm_advance (the (nextDue (snd (pm_advance (pnow m) m)))) (snd (pm_advance (pnow m) m))), m) \<in> measure pm_work"
    by simp
qed (simp_all add: pm_advance_work)

declare pm_drain.simps [simp del]

lemma pm_advance_pnext: "pnext (snd (pm_advance t m)) = pnext m"
  by (auto simp: pm_advance_def pm_dispatch_def finishBatch_def Let_def split: option.splits)

lemma pm_advance_Idle:
  assumes "pm_wf m" "fst (pm_advance t m) = StIdle"
  shows "pqueue (snd (pm_advance t m)) = [] \<and> pbusy (snd (pm_advance t m)) = []
    \<and> mset (pdone (snd (pm_advance t m))) = mset [1..<pnext m]"
proof -
  let ?m = "snd (pm_advance t m)"
  have idle: "pbusy ?m = []" "phase ?m = Rest" "\<not> signal ?m"
    using assms(2) by (auto simp: pm_advance_def pm_dispatch_def finishBatch_def Let_def
        split: if_splits option.splits) (metis Phase.exhaust)+
  have wf: "pm_wf ?m" by (rule pm_wf_advance [OF assms(1)])
  with idle have "pqueue ?m = []" by (auto simp: pm_wf_def)
  with idle wf show ?thesis by (simp add: pm_wf_def pm_all_def pm_advance_pnext)
qed

lemma pm_drain_finishes:
  "pm_wf m \<Longrightarrow> pqueue (pm_drain m) = [] \<and> pbusy (pm_drain m) = [] \<and> mset (pdone (pm_drain m)) = mset [1..<pnext m]"
proof (induction m rule: pm_drain.induct)
  case (1 m)
  show ?case
    using "1.IH" "1.prems" pm_advance_Idle [OF "1.prems", of "pnow m"]
    by (subst (1 2 3) pm_drain.simps) (auto simp: pm_wf_advance pm_advance_pnext)
qed

section \<open>Reachable pools\<close>

inductive pm_reach :: "PoolModel \<Rightarrow> bool" where
  pm_start: "1 \<le> conc \<Longrightarrow> pm_reach (PoolModel_new conc ms measured)"
| pm_adds: "pm_reach m \<Longrightarrow> pm_reach (snd (pm_add n m))"
| pm_steps: "pm_reach m \<Longrightarrow> pm_reach (snd (pm_advance t m))"

lemma pm_reach_wf: "pm_reach m \<Longrightarrow> pm_wf m"
  by (induction rule: pm_reach.induct) (auto intro: pm_wf_new wf_intros)

lemma pm_reach_example: "pm_reach (snd (pm_add 3 (PoolModel_new 2 10 False)))"
  by (intro pm_reach.intros) simp

section \<open>Properties\<close>

text \<open>
  C5: in every pool that Adds and steps can reach from a new one with a concurrency of at least 1, no
  goroutine number is used twice, at most \<open>concurrency\<close> goroutines are alive, every running batch holds
  between 1 and MAX_BATCH jobs, and every job added is exactly once in the queue, in a batch or done.
\<close>

theorem pool_model_invariant:
  assumes "pm_reach m"
  shows "distinct (pidle m @ map b_node (pbusy m)) \<and> alive m \<le> concurrency m
    \<and> (\<forall>b \<in> set (pbusy m). 1 \<le> length (b_jobs b) \<and> length (b_jobs b) \<le> MAX_BATCH)
    \<and> mset (pdone m) + mset (concat (map b_jobs (pbusy m))) + mset (pqueue m) = mset [1..<pnext m]"
  using pm_reach_wf [OF assms]
  by (auto simp: pm_wf_def pm_nodes_def pm_all_def alive_def batch_ok_def Suc_le_eq)

theorem pool_model_invariant_witness:
  "alive (snd (pm_add 3 (PoolModel_new 2 10 False))) \<le> 2"
  using pool_model_invariant [OF pm_reach_example]
  by (simp add: pm_add_def frame_simps PoolModel_new_def alive_def)

text \<open>
  No wake-up is lost: when a step reports that the pool is idle, nothing is queued, nothing runs, and
  every job ever added is done.
\<close>

theorem idle_means_all_done:
  assumes "pm_reach m" "fst (pm_advance t m) = StIdle"
  shows "pqueue (snd (pm_advance t m)) = [] \<and> pbusy (snd (pm_advance t m)) = []
    \<and> mset (pdone (snd (pm_advance t m))) = mset [1..<pnext m]"
  using pm_advance_Idle [OF pm_reach_wf [OF assms(1)] assms(2)] .

theorem idle_means_all_done_witness:
  "pqueue (snd (pm_advance 5 (PoolModel_new 2 10 False))) = []"
  using idle_means_all_done [OF pm_start [of 2 10 False], of 5]
  by (simp add: pm_advance_def Let_def PoolModel_new_def)

text \<open>
  C6: stepping always gets to the end: from any reachable pool, \<open>advance\<close> repeated (moving the clock to the next
  due batch whenever the pool waits) stops, and then every job that was added has been done.
\<close>

theorem stepping_drains_pool:
  assumes "pm_reach m"
  shows "pqueue (pm_drain m) = [] \<and> pbusy (pm_drain m) = [] \<and> mset (pdone (pm_drain m)) = mset [1..<pnext m]"
  using pm_drain_finishes [OF pm_reach_wf [OF assms]] .

theorem stepping_drains_pool_witness:
  "mset (pdone (pm_drain (snd (pm_add 3 (PoolModel_new 2 10 False))))) = mset [1..<4]"
  using stepping_drains_pool [OF pm_reach_example]
  by (simp add: pm_add_def frame_simps PoolModel_new_def)

text \<open>
  The planner's hand-off is between one job and what waits, never more than MAX_BATCH, and reuses an
  idle goroutine whenever there is one; it declines only when none is idle and one is already alive.
\<close>

theorem plan_handoff_bounds:
  assumes "0 < pending"
  shows "case plan pending conc nanos n idleNode newNode of
      None \<Rightarrow> idleNode = None \<and> n \<noteq> 0
    | Some p \<Rightarrow> 1 \<le> p_k p \<and> p_k p \<le> min pending MAX_BATCH
        \<and> p_node p = (case idleNode of Some i \<Rightarrow> i | None \<Rightarrow> newNode) \<and> p_isNew p = (idleNode = None)"
  using plan_k_bounds [OF _ assms] plan_node [of pending conc nanos n idleNode newNode]
    plan_None [of pending conc nanos n idleNode newNode]
  by (auto split: option.splits)

theorem plan_handoff_bounds_witness:
  "case plan 100 4 2000 4 (Some 3) 5 of None \<Rightarrow> False | Some p \<Rightarrow> p_k p \<le> MAX_BATCH \<and> p_node p = 3"
  using plan_handoff_bounds [where pending = 100 and conc = 4 and nanos = 2000 and n = 4 and idleNode = "Some 3" and newNode = 5] by (auto split: option.splits)

end
