(* ===== verification/Redis_Flow.thy ===== *)
theory Redis_Flow
  imports Prelude Scene "HOL-Library.Multiset"
begin

text \<open>
  \<open>docs/src/components/ops/redisflow-model.ts\<close>, the state of the Redis scene and what each button does
  to it, and the event handlers of \<open>redisflow.ts\<close> that call it: a button acts only when the last render
  left it enabled. Seconds are natural numbers, the steps of the slider. The right single quotation
  mark of the messages is its three UTF-8 bytes.
\<close>

section \<open>Data\<close>

datatype RMode = Persistent | Dist

definition VISIBILITY :: nat where "VISIBILITY = 300"
definition HEARTBEAT :: nat where "HEARTBEAT = 30"
definition DIST_BACK :: nat where "DIST_BACK = 6"

definition rsquo :: string where "rsquo = [CHR 0xE2, CHR 0x80, CHR 0x99]"

record RState =
  rmode :: RMode
  jobs :: "nat list"
  inflight :: "nat option"
  closedUnder :: bool
  crashed :: bool
  elapsed :: nat
  returned :: bool
  runs :: "nat \<rightharpoonup> nat"
  msg :: string

section \<open>Operations\<close>

definition rfresh :: "RMode \<Rightarrow> RState" where
  "rfresh m = \<lparr>rmode = m, jobs = [7, 8, 9, 10], inflight = None, closedUnder = False, crashed = False, elapsed = 0,
    returned = False, runs = Map.empty,
    msg = ''Job 7 waits in jobs. Press Take a job to see what one script does to the keys.''\<rparr>"

definition mmss :: "nat \<Rightarrow> string" where
  "mmss sec = string_of_nat (sec div 60) @ '':''
    @ (if sec mod 60 < 10 then ''0'' @ string_of_nat (sec mod 60) else string_of_nat (sec mod 60))"

definition threshold :: "RState \<Rightarrow> nat" where
  "threshold s = (case rmode s of Dist \<Rightarrow> DIST_BACK | Persistent \<Rightarrow> HEARTBEAT)"

definition held :: "RState \<Rightarrow> bool" where
  "held s \<longleftrightarrow> inflight s \<noteq> None \<and> \<not> closedUnder s \<and> \<not> returned s"

definition nacked :: "RState \<Rightarrow> bool" where
  "nacked s \<longleftrightarrow> held s \<or> (crashed s \<and> inflight s \<noteq> None \<and> \<not> returned s)"

text \<open>\<open>take\<close>: the shift of an empty list is JavaScript's undefined, which the scene never asks for; here it is \<open>None\<close>.\<close>

definition rtake :: "RState \<Rightarrow> RState option" where
  "rtake s = (case jobs s of [] \<Rightarrow> None
    | j # js \<Rightarrow> Some (s\<lparr>jobs := js, inflight := Some j,
        runs := (runs s)(j \<mapsto> (case runs s j of None \<Rightarrow> 0 | Some n \<Rightarrow> n) + 1),
        returned := False, closedUnder := False,
        msg := ''One script moved job '' @ string_of_nat j @ '' from jobs to jobs:nacked under ack-'' @ string_of_nat j
          @ '', and set its deadline in jobs:timeouts: Redis'' @ rsquo
          @ ''s time plus the visibility timeout, 5 minutes by default.''\<rparr>))"

text \<open>\<open>ack\<close>, with a job in flight (\<open>s.inflight!\<close>).\<close>

definition rack :: "RState \<Rightarrow> RState option" where
  "rack s = (case inflight s of None \<Rightarrow> None
    | Some j \<Rightarrow> Some
       (if closedUnder s
        then s\<lparr>inflight := None, closedUnder := False,
          msg := ''Acknowledge returned false: the queue was closed, so the worker reports ErrAcknowledgeJob on Errs(). The function of job ''
            @ string_of_nat j @ '' had run, and job '' @ string_of_nat j @ '' is back in jobs, so it runs again.''\<rparr>
        else s\<lparr>inflight := None,
          msg := ''Acknowledge removed the entry from jobs:nacked and from jobs:timeouts. Redis forgot job '' @ string_of_nat j @ ''.''\<rparr>))"

definition rkill :: "RState \<Rightarrow> RState" where
  "rkill s0 =
    (let s = s0\<lparr>crashed := True, elapsed := 0\<rparr> in
     if closedUnder s
     then s\<lparr>msg := ''The process died. Close had already put job '' @ (case inflight s of None \<Rightarrow> ''null'' | Some j \<Rightarrow> string_of_nat j)
              @ '' back at the front of jobs, so nothing is held, and the job runs again.'',
            inflight := None, closedUnder := False\<rparr>
     else s\<lparr>msg := (case inflight s of
         None \<Rightarrow> ''The process died while no job was running. Nothing is held. The jobs wait in jobs.''
       | Some j \<Rightarrow> ''The process died. Job '' @ string_of_nat j
           @ '' stays in jobs:nacked with its deadline. Move the slider to move time forward.'')\<rparr>)"

text \<open>\<open>close\<close>, with a job in flight (\<open>s.inflight!\<close>).\<close>

definition rclose :: "RState \<Rightarrow> RState option" where
  "rclose s = (case inflight s of None \<Rightarrow> None
    | Some j \<Rightarrow> Some (s\<lparr>closedUnder := True, jobs := j # jobs s,
        msg := ''Close put job '' @ string_of_nat j
          @ '' back at the front of jobs at once, while its function still runs. After Close, Acknowledge on that object returns false. Stop the worker before you close the queue.''\<rparr>))"

definition sweepIfDue :: "RState \<Rightarrow> RState" where
  "sweepIfDue s =
    (if \<not> crashed s \<or> inflight s = None \<or> returned s then s
     else if threshold s \<le> elapsed s
     then s\<lparr>returned := True, jobs := the (inflight s) # jobs s, inflight := None, crashed := False,
        msg := (case rmode s of
          Dist \<Rightarrow> ''About six seconds after the crash, Redis has dropped the dead consumer'' @ rsquo
            @ ''s wake-up channel, and consumer B'' @ rsquo
            @ ''s sweep puts job 7 back at the front of jobs and wakes a consumer for it.''
        | Persistent \<Rightarrow> ''The restarted program has run for '' @ string_of_nat HEARTBEAT @ '' seconds. A queue object'' @ rsquo
            @ ''s sweep finds the dead object'' @ rsquo
            @ ''s heartbeat that old, and puts job 7 back at the front of jobs. A job past its deadline comes back as soon as any queue object finds it, whichever comes first.'')\<rparr>
     else s\<lparr>msg := (case rmode s of
          Dist \<Rightarrow> ''Job 7 is still in jobs:nacked. The other consumers wait for the dead one'' @ rsquo @ ''s channel to go.''
        | Persistent \<Rightarrow> ''Job 7 is still in jobs:nacked. The heartbeat is '' @ string_of_nat (elapsed s)
            @ '' seconds old and the limit is '' @ string_of_nat HEARTBEAT @ ''. The deadline is in ''
            @ mmss (VISIBILITY - elapsed s) @ ''.'')\<rparr>)"

subsection \<open>The scene's handlers (\<open>redisflow.ts\<close>)\<close>

datatype RAct = ATake | AAck | AKill | AClose | AReset

fun rdisabled :: "RAct \<Rightarrow> RState \<Rightarrow> bool" where
  "rdisabled ATake s = (inflight s \<noteq> None \<or> jobs s = [] \<or> crashed s)"
| "rdisabled AAck s = (inflight s = None \<or> crashed s \<or> returned s)"
| "rdisabled AKill s = crashed s"
| "rdisabled AClose s = (inflight s = None \<or> crashed s \<or> closedUnder s \<or> returned s)"
| "rdisabled AReset s = False"

text \<open>A click: nothing when the button is disabled. The result is \<open>None\<close> only if the model was asked for an undefined job.\<close>

fun rclick :: "RAct \<Rightarrow> RState \<Rightarrow> RState option" where
  "rclick a s =
    (if rdisabled a s then Some s
     else case a of ATake \<Rightarrow> rtake s | AAck \<Rightarrow> rack s | AKill \<Rightarrow> Some (rkill s) | AClose \<Rightarrow> rclose s
       | AReset \<Rightarrow> Some (rfresh (rmode s)))"

definition rslide :: "nat \<Rightarrow> RState \<Rightarrow> RState" where
  "rslide v s = sweepIfDue (s\<lparr>elapsed := v\<rparr>)"

definition rslider_hidden :: "RState \<Rightarrow> bool" where
  "rslider_hidden s \<longleftrightarrow> \<not> crashed s \<or> inflight s = None"

section \<open>Reachable scenes\<close>

text \<open>
  The scene as its user can drive it, with the jobs Redis has forgotten after an acknowledgement kept
  aside: a job leaves for good only by an \<open>ack\<close> while the queue object still holds it.
\<close>

inductive rf_reach :: "RState \<Rightarrow> nat multiset \<Rightarrow> bool" where
  rf_open: "rf_reach (rfresh m) {#}"
| rf_click: "rf_reach s acked \<Longrightarrow> a \<noteq> AReset \<Longrightarrow> rclick a s = Some s' \<Longrightarrow>
    rf_reach s' (if a = AAck \<and> \<not> rdisabled AAck s \<and> \<not> closedUnder s then add_mset (the (inflight s)) acked else acked)"
| rf_slide: "rf_reach s acked \<Longrightarrow> \<not> rslider_hidden s \<Longrightarrow> rf_reach (rslide v s) acked"

definition in_nacked :: "RState \<Rightarrow> nat multiset" where
  "in_nacked s = (case inflight s of Some j \<Rightarrow> if nacked s then {#j#} else {#} | None \<Rightarrow> {#})"

text \<open>
  The scene's invariant: every job is exactly once in \<open>jobs\<close>, in \<open>jobs:nacked\<close> or acknowledged; a closed queue
  object and a crashed one are never one state; a job put back has left the flight.
\<close>

definition rf_ok :: "RState \<Rightarrow> nat multiset \<Rightarrow> bool" where
  "rf_ok s acked \<longleftrightarrow>
    mset (jobs s) + in_nacked s + acked = {#7, 8, 9, 10#}
    \<and> (returned s \<longrightarrow> inflight s = None) \<and> (closedUnder s \<longrightarrow> inflight s \<noteq> None \<and> \<not> crashed s)"

lemmas rf_defs = rf_ok_def in_nacked_def nacked_def held_def

lemma rf_ok_fresh: "rf_ok (rfresh m) {#}"
  by (simp add: rf_defs rfresh_def)

lemma rf_ok_take:
  assumes "rf_ok s acked" "\<not> rdisabled ATake s" "rtake s = Some s'"
  shows "rf_ok s' acked"
  using assms by (auto simp: rf_defs rtake_def split: list.splits)

lemma rf_ok_ack:
  assumes "rf_ok s acked" "\<not> rdisabled AAck s" "rack s = Some s'"
  shows "rf_ok s' (if closedUnder s then acked else add_mset (the (inflight s)) acked)"
  using assms by (auto simp: rf_defs rack_def split: option.splits)

lemma rf_ok_kill: "rf_ok s acked \<Longrightarrow> \<not> rdisabled AKill s \<Longrightarrow> rf_ok (rkill s) acked"
  by (auto simp: rf_defs rkill_def Let_def split: option.splits)

lemma rf_ok_close: "rf_ok s acked \<Longrightarrow> \<not> rdisabled AClose s \<Longrightarrow> rclose s = Some s' \<Longrightarrow> rf_ok s' acked"
  by (auto simp: rf_defs rclose_def split: option.splits)

lemma rf_ok_slide: "rf_ok s acked \<Longrightarrow> rf_ok (rslide v s) acked"
  by (auto simp: rf_defs rslide_def sweepIfDue_def split: option.splits)

lemma rf_reach_ok: "rf_reach s acked \<Longrightarrow> rf_ok s acked"
proof (induction rule: rf_reach.induct)
  case (rf_click s acked a s')
  then show ?case
    using rf_ok_take [of s acked s'] rf_ok_ack [of s acked s'] rf_ok_kill [of s acked] rf_ok_close [of s acked s']
    by (cases a) (auto split: if_splits)
qed (auto intro: rf_ok_fresh rf_ok_slide)

lemma rclick_defined:
  assumes "rf_ok s acked"
  shows "\<exists>s'. rclick a s = Some s'"
  using assms by (cases a) (auto simp: rtake_def rack_def rclose_def split: list.splits)

text \<open>The scene's contract: a click, or the slider where it shows.\<close>

definition rf_input :: "RAct + nat \<Rightarrow> RState \<Rightarrow> RState option" where
  "rf_input i s = (case i of Inl a \<Rightarrow> rclick a s | Inr v \<Rightarrow> Some (if rslider_hidden s then s else rslide v s))"

lemma rf_ok_click: "rf_ok s acked \<Longrightarrow> rclick a s = Some s' \<Longrightarrow> \<exists>acked'. rf_ok s' acked'"
  using rf_ok_fresh rf_ok_take [of s acked s'] rf_ok_ack [of s acked s'] rf_ok_kill [of s acked] rf_ok_close [of s acked s']
  by (cases a) (auto split: if_splits)

interpretation redis_scene: scene "\<lambda>s. \<exists>m. s = rfresh m" rf_input "\<lambda>s. \<exists>acked. rf_ok s acked"
proof unfold_locales
  show "\<exists>m. s = rfresh m \<Longrightarrow> \<exists>acked. rf_ok s acked" for s using rf_ok_fresh by blast
  show "\<exists>acked. rf_ok s acked \<Longrightarrow> \<exists>s'. rf_input i s = Some s'" for s i
    using rclick_defined by (cases i) (auto simp: rf_input_def simp del: rclick.simps)
  show "\<exists>acked. rf_ok s acked \<Longrightarrow> rf_input i s = Some s' \<Longrightarrow> \<exists>acked. rf_ok s' acked" for s i s'
    by (cases i) (auto simp: rf_input_def simp del: rclick.simps split: if_splits intro: rf_ok_click, metis rf_ok_slide)
qed

section \<open>Runs on the page\<close>

definition rf_do :: "RAct list \<Rightarrow> RState \<Rightarrow> RState option" where
  "rf_do as s = foldl (\<lambda>r a. Option.bind r (rclick a)) (Some s) as"

lemma rf_reach_take_7: "rf_reach (the (rtake (rfresh m))) {#}"
proof -
  have "rclick ATake (rfresh m) = rtake (rfresh m)" by (simp add: rfresh_def)
  moreover have "rtake (rfresh m) = Some (the (rtake (rfresh m)))" by (simp add: rfresh_def rtake_def)
  ultimately have "rclick ATake (rfresh m) = Some (the (rtake (rfresh m)))" by simp
  from rf_click [OF rf_open _ this] show ?thesis by simp
qed

lemma rf_reach_kill_7: "rf_reach (rkill (the (rtake (rfresh m)))) {#}"
proof -
  have "rclick AKill (the (rtake (rfresh m))) = Some (rkill (the (rtake (rfresh m))))" by (simp add: rfresh_def rtake_def)
  from rf_click [OF rf_reach_take_7 _ this] show ?thesis by simp
qed

section \<open>Properties\<close>

text \<open>
  C7: however the reader clicks and moves time, no job is lost or doubled: jobs 7 to 10 are each exactly once in
  \<open>jobs\<close>, in \<open>jobs:nacked\<close>, or forgotten after an acknowledgement that Redis accepted.
\<close>

theorem redis_scene_keeps_every_job:
  assumes "rf_reach s acked"
  shows "mset (jobs s) + in_nacked s + acked = {#7, 8, 9, 10#}"
  using rf_reach_ok [OF assms] by (simp add: rf_ok_def)

theorem redis_scene_keeps_every_job_witness:
  "mset (jobs (rkill (the (rtake (rfresh Dist))))) + in_nacked (rkill (the (rtake (rfresh Dist)))) + {#} = {#7, 8, 9, 10#}"
  using redis_scene_keeps_every_job [OF rf_reach_kill_7] .

text \<open>
  The scene never asks the model for a job that is not there: in every reachable state each click is
  defined, the guards of the buttons covering the reads of an empty list and of a null job.
\<close>

theorem redis_scene_clicks_defined:
  assumes "rf_reach s acked"
  shows "\<exists>s'. rclick a s = Some s'"
  using rclick_defined [OF rf_reach_ok [OF assms]] .

theorem redis_scene_clicks_defined_witness:
  "\<exists>s'. rclick AClose (the (rtake (rfresh Persistent))) = Some s'"
  using redis_scene_clicks_defined [OF rf_reach_take_7] .

text \<open>
  After a crash with a job in flight, moving time to the threshold (6 s for a distributed queue, 30 s for a
  persistent one) puts exactly that job back at the front of \<open>jobs\<close> and empties \<open>jobs:nacked\<close>; before the
  threshold it stays there.
\<close>

theorem sweep_returns_job_at_threshold:
  assumes "crashed s" "inflight s = Some j" "\<not> returned s"
  shows "if threshold s \<le> v
    then jobs (rslide v s) = j # jobs s \<and> \<not> nacked (rslide v s) \<and> \<not> crashed (rslide v s)
    else jobs (rslide v s) = jobs s \<and> nacked (rslide v s) \<and> inflight (rslide v s) = Some j"
  using assms by (auto simp: rslide_def sweepIfDue_def threshold_def nacked_def held_def)

theorem sweep_returns_job_at_threshold_witness:
  "jobs (rslide 30 (rkill (the (rtake (rfresh Persistent))))) = [7, 8, 9, 10]
    \<and> nacked (rslide 29 (rkill (the (rtake (rfresh Persistent)))))"
proof -
  let ?s = "rkill (the (rtake (rfresh Persistent)))"
  have s: "crashed ?s" "inflight ?s = Some 7" "\<not> returned ?s" "threshold ?s = 30" "jobs ?s = [8, 9, 10]"
    by (simp_all add: rkill_def rtake_def rfresh_def threshold_def HEARTBEAT_def Let_def)
  from sweep_returns_job_at_threshold [OF s(1-3), of 30] sweep_returns_job_at_threshold [OF s(1-3), of 29] s
  show ?thesis by simp
qed

text \<open>
  The sweep's message names job 7 whatever job was in flight: with job 8 taken and its holder killed, the job
  that goes back to the front of \<open>jobs\<close> is 8, and the message says that job 7 does.
\<close>

theorem sweep_message_names_wrong_job:
  "\<exists>s. rf_do [ATake, AAck, ATake, AKill] (rfresh Dist) = Some s \<and> \<not> rslider_hidden s
    \<and> jobs (rslide 6 s) = [8, 9, 10]
    \<and> msg (rslide 6 s) = ''About six seconds after the crash, Redis has dropped the dead consumer'' @ rsquo
        @ ''s wake-up channel, and consumer B'' @ rsquo
        @ ''s sweep puts job 7 back at the front of jobs and wakes a consumer for it.''"
  by (simp add: rf_do_def rfresh_def rtake_def rack_def rkill_def Let_def rslide_def sweepIfDue_def threshold_def
      DIST_BACK_def rslider_hidden_def)

end
