(* ===== verification/Worker_Sim.thy ===== *)
theory Worker_Sim
  imports Complex_Main Prelude
begin

text \<open>
  \<open>docs/src/components/guides-b/sim.ts\<close>: the model of one worker behind the guide scenes, the class
  \<open>WorkerSim\<close>. Jobs and goroutines are shared objects: the queue, the park, a batch, the list of goroutines
  and the pool hold references to them. So the state keeps a heap of each (\<open>jobh\<close>, \<open>gorh\<close>), indexed by the
  object's own number, and the arrays hold numbers. The events given to \<open>onEvent\<close> are appended to a log.
  Times are milliseconds of a frame clock, so rationals.
\<close>

section \<open>Data\<close>

datatype Status = Initiated | Idle | Running | Pausing | Paused | Stopping | Stopped
datatype Where = InQueue | InBatch | InPark | InLane | Out
datatype JobState = JQueued | JRunning | JDone | JFailed | JClosed
datatype Fail = FailError | FailPanic
datatype CtxErr = Canceled | Deadline
datatype SimErr = ErrRunningWorker | ErrNotRunningWorker | ErrWorkerPaused | ErrWorkerStopped | ErrWorkerPausing
  | ErrWorkerStopping | ErrSameConcurrency

text \<open>An error as the scenes print it, \<open>nil\<close> for none.\<close>

fun err_text :: "SimErr option \<Rightarrow> string" where
  "err_text None = ''nil''"
| "err_text (Some ErrRunningWorker) = ''ErrRunningWorker''"
| "err_text (Some ErrNotRunningWorker) = ''ErrNotRunningWorker''"
| "err_text (Some ErrWorkerPaused) = ''ErrWorkerPaused''"
| "err_text (Some ErrWorkerStopped) = ''ErrWorkerStopped''"
| "err_text (Some ErrWorkerPausing) = ''ErrWorkerPausing''"
| "err_text (Some ErrWorkerStopping) = ''ErrWorkerStopping''"
| "err_text (Some ErrSameConcurrency) = ''ErrSameConcurrency''"

record Job =
  j_id :: nat
  j_dur :: rat
  j_left :: rat
  j_state :: JobState
  j_at :: Where
  j_fail :: "Fail option"
  j_watch :: bool
  j_early :: bool
  j_stale :: bool
  j_slot :: "nat option"
  j_added :: rat
  j_started :: "rat option"
  j_ended :: "rat option"

record Gor =
  g_id :: nat
  g_slot :: nat
  g_busy :: bool
  g_batch :: "nat list"
  g_i :: nat

datatype SimEvent =
    EAdd nat
  | EStart nat
  | EEnd nat
  | EPark "nat list"
  | EClose "nat list"
  | EStatus Status Status
  | ESpawn nat
  | EExit nat

record Metrics =
  submitted :: nat
  completed :: nat
  successful :: nat
  failed :: nat

definition MAX_BATCH_SIM :: nat where "MAX_BATCH_SIM = 32"
definition STEP :: rat where "STEP = 40"

record WorkerSim =
  now :: rat
  status :: Status
  limit :: int
  minIdlePct :: int
  expiry :: rat
  queue :: "nat list"
  parked :: "nat list"
  gors :: "nat list"
  pool :: "nat list"
  curProcessing :: int
  metrics :: Metrics
  userCtx :: "CtxErr option"
  ctx :: "CtxErr option"
  log :: "SimEvent list"
  restartPending :: bool
  nextJob :: nat
  nextGor :: nat
  expiryClock :: rat
  idleSince :: "nat \<rightharpoonup> rat"
  jobh :: "nat \<Rightarrow> Job"
  gorh :: "nat \<Rightarrow> Gor"

record AddOpts =
  o_dur :: "rat option"
  o_fail :: "Fail option"
  o_watch :: bool

section \<open>Reads\<close>

definition busy :: "WorkerSim \<Rightarrow> nat" where
  "busy s = length (filter (\<lambda>g. g_busy (gorh s g)) (gors s))"

definition numConcurrency :: "WorkerSim \<Rightarrow> int" where "numConcurrency s = limit s"
definition numProcessing :: "WorkerSim \<Rightarrow> nat" where "numProcessing s = busy s"
definition numIdleWorkers :: "WorkerSim \<Rightarrow> nat" where "numIdleWorkers s = length (pool s)"
definition queueLen :: "WorkerSim \<Rightarrow> nat" where "queueLen s = length (queue s)"

definition numPending :: "WorkerSim \<Rightarrow> int" where
  "numPending s = int (length (queue s)) + int (length (parked s)) + max 0 (curProcessing s - int (busy s))"

definition isActive :: "WorkerSim \<Rightarrow> bool" where
  "isActive s \<longleftrightarrow> status s = Idle \<or> status s = Running"

definition halting :: "WorkerSim \<Rightarrow> bool" where
  "halting s \<longleftrightarrow> status s = Pausing \<or> status s = Paused \<or> status s = Stopping \<or> status s = Stopped"

definition minIdle :: "WorkerSim \<Rightarrow> int" where
  "minIdle s = max ((limit s * minIdlePct s) div 100) 1"

definition sweepIn :: "WorkerSim \<Rightarrow> rat" where
  "sweepIn s = (if expiry s > 0 then max 0 (expiry s - expiryClock s) else 0)"

definition statusError :: "WorkerSim \<Rightarrow> SimErr" where
  "statusError s = (case status s of
     Paused \<Rightarrow> ErrWorkerPaused | Stopped \<Rightarrow> ErrWorkerStopped | Pausing \<Rightarrow> ErrWorkerPausing
   | Stopping \<Rightarrow> ErrWorkerStopping | Running \<Rightarrow> ErrRunningWorker | Idle \<Rightarrow> ErrRunningWorker
   | Initiated \<Rightarrow> ErrNotRunningWorker)"

definition waitDone :: "WorkerSim \<Rightarrow> bool" where
  "waitDone s = (case status s of
     Running \<Rightarrow> numPending s = 0 \<and> curProcessing s = 0
   | Idle \<Rightarrow> numPending s = 0 \<and> curProcessing s = 0
   | Initiated \<Rightarrow> True
   | _ \<Rightarrow> curProcessing s = 0)"

definition waitUntilIdleDone :: "WorkerSim \<Rightarrow> bool" where
  "waitUntilIdleDone s \<longleftrightarrow> status s = Idle \<and> numPending s = 0 \<and> curProcessing s = 0"

definition waitUntilPausedDone :: "WorkerSim \<Rightarrow> bool" where
  "waitUntilPausedDone s \<longleftrightarrow> status s = Paused"

definition waitUntilStoppedDone :: "WorkerSim \<Rightarrow> bool" where
  "waitUntilStoppedDone s \<longleftrightarrow> status s = Stopped"

definition moving :: "WorkerSim \<Rightarrow> bool" where
  "moving s \<longleftrightarrow> 0 < busy s \<or> status s = Stopping \<or> (isActive s \<and> 0 < length (queue s) + length (parked s))"

section \<open>Inside\<close>

definition emit :: "SimEvent \<Rightarrow> WorkerSim \<Rightarrow> WorkerSim" where
  "emit e s = s\<lparr>log := log s @ [e]\<rparr>"

definition upd_job :: "nat \<Rightarrow> (Job \<Rightarrow> Job) \<Rightarrow> WorkerSim \<Rightarrow> WorkerSim" where
  "upd_job j f s = s\<lparr>jobh := (jobh s)(j := f (jobh s j))\<rparr>"

definition upd_gor :: "nat \<Rightarrow> (Gor \<Rightarrow> Gor) \<Rightarrow> WorkerSim \<Rightarrow> WorkerSim" where
  "upd_gor g f s = s\<lparr>gorh := (gorh s)(g := f (gorh s g))\<rparr>"

definition upd_jobs :: "nat list \<Rightarrow> (Job \<Rightarrow> Job) \<Rightarrow> WorkerSim \<Rightarrow> WorkerSim" where
  "upd_jobs js f s = fold (\<lambda>j. upd_job j f) js s"

definition setStatus :: "Status \<Rightarrow> WorkerSim \<Rightarrow> WorkerSim" where
  "setStatus to s = (if to = status s then s else emit (EStatus (status s) to) (s\<lparr>status := to\<rparr>))"

definition spawn :: "WorkerSim \<Rightarrow> nat \<times> WorkerSim" where
  "spawn s =
    (let g = nextGor s; slot = lowest_from (map (\<lambda>x. g_slot (gorh s x)) (gors s)) 0 in
     (g, emit (ESpawn g) (s\<lparr>nextGor := g + 1, gors := gors s @ [g], idleSince := (idleSince s)(g \<mapsto> now s),
        gorh := (gorh s)(g := \<lparr>g_id = g, g_slot = slot, g_busy = False, g_batch = [], g_i = 0\<rparr>)\<rparr>)))"

definition exit_gor :: "nat \<Rightarrow> WorkerSim \<Rightarrow> WorkerSim" where
  "exit_gor g s = emit (EExit g) (s\<lparr>gors := filter (\<lambda>x. x \<noteq> g) (gors s), pool := filter (\<lambda>x. x \<noteq> g) (pool s),
     idleSince := (idleSince s)(g := None)\<rparr>)"

definition begin_job :: "nat \<Rightarrow> nat \<Rightarrow> WorkerSim \<Rightarrow> WorkerSim" where
  "begin_job g i s =
    (let j = g_batch (gorh s g) ! i; slot = g_slot (gorh s g) in
     emit (EStart j)
       (upd_job j (\<lambda>x. x\<lparr>j_state := JRunning, j_at := InLane, j_slot := Some slot, j_started := Some (now s)\<rparr>)
         (upd_gor g (\<lambda>x. x\<lparr>g_i := i\<rparr>) s)))"

text \<open>The two filling loops of \<open>dispatch\<close>: the parked jobs first, then the queue's, passing over closed ones.\<close>

fun fill_queue :: "(nat \<Rightarrow> Job) \<Rightarrow> nat \<Rightarrow> nat list \<Rightarrow> nat list \<times> nat list" where
  "fill_queue h need [] = ([], [])"
| "fill_queue h need (j # js) =
    (if need = 0 then ([], j # js)
     else if j_state (h j) = JClosed then fill_queue h need js
     else (let (buf, rest) = fill_queue h (need - 1) js in (j # buf, rest)))"

definition hand_k :: "WorkerSim \<Rightarrow> nat" where
  "hand_k s = (if limit s = 1 then min (length (queue s) + length (parked s)) MAX_BATCH_SIM else 1)"

definition ws_ready :: "WorkerSim \<Rightarrow> bool" where
  "ws_ready s \<longleftrightarrow> isActive s \<and> int (busy s) < limit s \<and> 0 < length (queue s) + length (parked s)"

text \<open>A goroutine for the batch: the last one of the pool, or a new one.\<close>

definition take_gor :: "WorkerSim \<Rightarrow> nat \<times> WorkerSim" where
  "take_gor s = (if pool s \<noteq> [] then (last (pool s), s\<lparr>pool := butlast (pool s)\<rparr>) else spawn s)"

definition take_jobs :: "nat \<Rightarrow> WorkerSim \<Rightarrow> nat list \<times> WorkerSim" where
  "take_jobs k s =
    (let from_park = take k (parked s);
         (from_queue, rest) = fill_queue (jobh s) (k - length from_park) (queue s)
     in (from_park @ from_queue, s\<lparr>parked := drop k (parked s), queue := rest\<rparr>))"

definition give_batch :: "nat \<Rightarrow> nat list \<Rightarrow> WorkerSim \<Rightarrow> WorkerSim" where
  "give_batch g buf s =
    (let s1 = upd_gor g (\<lambda>x. x\<lparr>g_busy := True, g_batch := buf, g_i := 0\<rparr>) s;
         s2 = s1\<lparr>curProcessing := curProcessing s1 + int (length buf)\<rparr>;
         s3 = (if status s2 = Idle then setStatus Running s2 else s2);
         s4 = upd_jobs buf (\<lambda>x. x\<lparr>j_at := InBatch\<rparr>) s3
     in begin_job g 0 s4)"

text \<open>One turn of \<open>dispatch\<close>: the new state, and whether the loop goes on.\<close>

definition hand_off :: "WorkerSim \<Rightarrow> WorkerSim \<times> bool" where
  "hand_off s =
    (let k = hand_k s; (g, s1) = take_gor s; (buf, s2) = take_jobs k s1
     in if buf = [] then (s2\<lparr>pool := pool s2 @ [g]\<rparr>, False) else (give_batch g buf s2, True))"

lemma fill_queue_length: "length (fst (fill_queue h n js)) + length (snd (fill_queue h n js)) \<le> length js"
  by (induction h n js rule: fill_queue.induct) (auto simp: Let_def split: prod.splits)

lemma upd_jobs_frame [simp]:
  "queue (upd_jobs js f s) = queue s" "parked (upd_jobs js f s) = parked s" "gors (upd_jobs js f s) = gors s"
  "pool (upd_jobs js f s) = pool s" "gorh (upd_jobs js f s) = gorh s" "status (upd_jobs js f s) = status s"
  "limit (upd_jobs js f s) = limit s" "nextJob (upd_jobs js f s) = nextJob s" "nextGor (upd_jobs js f s) = nextGor s"
  "curProcessing (upd_jobs js f s) = curProcessing s" "idleSince (upd_jobs js f s) = idleSince s"
  "now (upd_jobs js f s) = now s" "metrics (upd_jobs js f s) = metrics s" "ctx (upd_jobs js f s) = ctx s"
  "userCtx (upd_jobs js f s) = userCtx s" "restartPending (upd_jobs js f s) = restartPending s"
  "expiry (upd_jobs js f s) = expiry s" "minIdlePct (upd_jobs js f s) = minIdlePct s"
  "expiryClock (upd_jobs js f s) = expiryClock s" "log (upd_jobs js f s) = log s"
  unfolding upd_jobs_def by (induction js arbitrary: s) (simp_all add: upd_job_def)

lemma take_gor_frame [simp]:
  "queue (snd (take_gor s)) = queue s" "parked (snd (take_gor s)) = parked s" "jobh (snd (take_gor s)) = jobh s"
  by (simp_all add: take_gor_def spawn_def Let_def emit_def)

lemma give_batch_frame [simp]:
  "queue (give_batch g buf s) = queue s" "parked (give_batch g buf s) = parked s"
  by (simp_all add: give_batch_def begin_job_def upd_job_def upd_gor_def emit_def setStatus_def Let_def)

lemma take_jobs_length:
  assumes "take_jobs k s = (buf, s')"
  shows "length buf + (length (queue s') + length (parked s')) \<le> length (queue s) + length (parked s)"
  using assms fill_queue_length[of "jobh s" "k - length (take k (parked s))" "queue s"]
  by (auto simp: take_jobs_def Let_def split: prod.splits)

lemma hand_off_shrinks:
  assumes "hand_off s = (s', True)"
  shows "length (queue s') + length (parked s') < length (queue s) + length (parked s)"
proof -
  obtain g s1 where g: "take_gor s = (g, s1)" by (metis prod.exhaust)
  obtain buf s2 where b: "take_jobs (hand_k s) s1 = (buf, s2)" by (metis prod.exhaust)
  have "buf \<noteq> []" "s' = give_batch g buf s2"
    using assms by (simp_all add: hand_off_def g b split: if_splits)
  moreover have "queue s1 = queue s" "parked s1 = parked s" using take_gor_frame[of s] g by simp_all
  ultimately show ?thesis using take_jobs_length[OF b] by (cases buf) auto
qed

text \<open>\<open>dispatch\<close>: hand out batches while a goroutine may start and a job waits.\<close>

function ws_dispatch :: "WorkerSim \<Rightarrow> WorkerSim" where
  "ws_dispatch s = (if ws_ready s then (let (s', go) = hand_off s in if go then ws_dispatch s' else s') else s)"
  by auto
termination
  by (relation "measure (\<lambda>s. length (queue s) + length (parked s))") (auto simp: hand_off_shrinks)

declare ws_dispatch.simps [simp del]

definition endBatch :: "nat \<Rightarrow> WorkerSim \<Rightarrow> WorkerSim" where
  "endBatch g s0 =
    (let k = length (g_batch (gorh s0 g));
         s1 = upd_gor g (\<lambda>x. x\<lparr>g_busy := False, g_batch := [], g_i := 0\<rparr>) s0;
         s2 = s1\<lparr>idleSince := (idleSince s1)(g \<mapsto> now s1)\<rparr>;
         pending = length (queue s2) + length (parked s2);
         s3 = (if length (pool s2) < pending \<or> 0 < expiry s2 \<or> int (length (pool s2)) < minIdle s2
               then s2\<lparr>pool := pool s2 @ [g]\<rparr> else exit_gor g s2);
         s4 = s3\<lparr>curProcessing := curProcessing s3 - int k\<rparr>
     in if curProcessing s4 = 0
        then (if status s4 = Running then setStatus Idle s4
              else if status s4 = Pausing then setStatus Paused s4 else s4)
        else s4)"

text \<open>
  The loop of \<open>finishJob\<close> over the rest of the batch: a purged job is closed, the rest is parked when the
  worker halts, otherwise the next job begins. Past the end, or after parking, the batch ends.
\<close>

function finish_next :: "nat \<Rightarrow> nat \<Rightarrow> WorkerSim \<Rightarrow> WorkerSim" where
  "finish_next g nxt s =
    (if nxt < length (g_batch (gorh s g))
     then (let nj = g_batch (gorh s g) ! nxt in
       if j_stale (jobh s nj)
       then finish_next g (nxt + 1) (emit (EClose [nj]) (upd_job nj (\<lambda>x. x\<lparr>j_state := JClosed, j_at := Out\<rparr>) s))
       else if halting s
       then (let rest = filter (\<lambda>x. j_state (jobh s x) \<noteq> JClosed) (drop nxt (g_batch (gorh s g)));
                 s1 = upd_jobs rest (\<lambda>x. x\<lparr>j_at := InPark\<rparr>) s
             in endBatch g (emit (EPark rest) (s1\<lparr>parked := parked s1 @ rest\<rparr>)))
       else begin_job g nxt s)
     else endBatch g s)"
  by auto
termination
  by (relation "measure (\<lambda>(g, n, s). length (g_batch (gorh s g)) - n)") (auto simp: emit_def upd_job_def)

declare finish_next.simps [simp del]

definition count_end :: "bool \<Rightarrow> Metrics \<Rightarrow> Metrics" where
  "count_end fl m =
    (if fl then m\<lparr>failed := failed m + 1, completed := completed m + 1\<rparr>
     else m\<lparr>successful := successful m + 1, completed := completed m + 1\<rparr>)"

definition finishJob :: "nat \<Rightarrow> nat \<Rightarrow> WorkerSim \<Rightarrow> WorkerSim" where
  "finishJob g j s =
    (let fl = j_fail (jobh s j) \<noteq> None;
         s1 = upd_job j (\<lambda>x. x\<lparr>j_state := (if fl then JFailed else JDone), j_at := Out, j_ended := Some (now s)\<rparr>) s;
         s2 = emit (EEnd j) (s1\<lparr>metrics := count_end fl (metrics s1)\<rparr>)
     in finish_next g (g_i (gorh s2 g) + 1) s2)"

text \<open>One turn of the pool walk of \<open>expire\<close>: the state, what is kept so far, and \<open>len\<close>.\<close>

definition expire_one :: "int \<Rightarrow> nat \<Rightarrow> WorkerSim \<times> nat list \<times> int \<Rightarrow> WorkerSim \<times> nat list \<times> int" where
  "expire_one target g acc =
    (let (s, keep, len) = acc;
         idleFor = now s - (case idleSince s g of Some t \<Rightarrow> t | None \<Rightarrow> now s)
     in if target < len \<and> expiry s < idleFor then (exit_gor g s, keep, len - 1) else (s, keep @ [g], len))"

definition ws_expire :: "rat \<Rightarrow> WorkerSim \<Rightarrow> WorkerSim" where
  "ws_expire dt s0 =
    (let s1 = s0\<lparr>expiryClock := expiryClock s0 + dt\<rparr>
     in if expiryClock s1 < expiry s1 then s1
        else let s2 = s1\<lparr>expiryClock := 0\<rparr>; target = minIdle s2
             in if int (length (pool s2)) \<le> target then s2
                else let (s3, keep, len) = fold (expire_one target) (pool s2) (s2, [], int (length (pool s2)))
                     in s3\<lparr>pool := keep\<rparr>)"

section \<open>Calls\<close>

definition ws_add :: "AddOpts \<Rightarrow> WorkerSim \<Rightarrow> WorkerSim \<times> nat" where
  "ws_add opts s =
    (let j = nextJob s; d = (case o_dur opts of Some d \<Rightarrow> d | None \<Rightarrow> 2400);
         job = \<lparr>j_id = j, j_dur = d, j_left = d, j_state = JQueued, j_at = InQueue, j_fail = o_fail opts,
                j_watch = o_watch opts, j_early = False, j_stale = False, j_slot = None, j_added = now s,
                j_started = None, j_ended = None\<rparr>;
         s1 = s\<lparr>nextJob := j + 1, jobh := (jobh s)(j := job), queue := queue s @ [j],
                metrics := (metrics s)\<lparr>submitted := submitted (metrics s) + 1\<rparr>\<rparr>
     in (ws_dispatch (emit (EAdd j) s1), j))"

definition ws_start :: "WorkerSim \<Rightarrow> WorkerSim \<times> SimErr option" where
  "ws_start s =
    (if isActive s then (s, Some ErrRunningWorker)
     else if status s \<noteq> Initiated \<and> status s \<noteq> Stopped then (s, Some (statusError s))
     else let s1 = s\<lparr>ctx := userCtx s\<rparr>; (g, s2) = spawn s1; s3 = s2\<lparr>pool := pool s2 @ [g]\<rparr>
          in (ws_dispatch (setStatus Idle s3), None))"

definition ws_stop :: "WorkerSim \<Rightarrow> WorkerSim \<times> SimErr option" where
  "ws_stop s =
    (if status s = Stopped \<or> status s = Stopping then (s, None)
     else if status s = Initiated then (s, Some ErrNotRunningWorker)
     else (setStatus Stopping (s\<lparr>ctx := (case userCtx s of Some c \<Rightarrow> Some c | None \<Rightarrow> Some Canceled)\<rparr>), None))"

definition ws_pause :: "WorkerSim \<Rightarrow> WorkerSim \<times> SimErr option" where
  "ws_pause s =
    (if status s = Paused \<or> status s = Pausing then (s, None)
     else if status s = Idle then (setStatus Paused s, None)
     else if status s = Running
     then (let s1 = setStatus Pausing s in (if curProcessing s1 = 0 then setStatus Paused s1 else s1, None))
     else (s, Some (statusError s)))"

definition ws_resume :: "WorkerSim \<Rightarrow> WorkerSim \<times> SimErr option" where
  "ws_resume s =
    (if status s = Paused then (ws_dispatch (setStatus Idle s), None)
     else if isActive s then (s, None)
     else (s, Some (statusError s)))"

definition ws_restart :: "WorkerSim \<Rightarrow> WorkerSim \<times> SimErr option" where
  "ws_restart s =
    (if status s = Initiated then (s, Some ErrNotRunningWorker)
     else if status s = Stopped then ws_start s
     else ((fst (ws_stop s))\<lparr>restartPending := True\<rparr>, None))"

text \<open>The shrinking loop of \<open>tunePool\<close>; the test is \<open>pool.length !== min\<close>, so a pool below the minimum is emptied.\<close>

fun shrink_pool :: "nat \<Rightarrow> int \<Rightarrow> WorkerSim \<Rightarrow> WorkerSim" where
  "shrink_pool 0 mn s = s"
| "shrink_pool (Suc n) mn s =
    (if int (length (pool s)) = mn \<or> pool s = [] then s
     else shrink_pool n mn (exit_gor (last (pool s)) (s\<lparr>pool := butlast (pool s)\<rparr>)))"

definition ws_tunePool :: "int \<Rightarrow> WorkerSim \<Rightarrow> WorkerSim \<times> SimErr option" where
  "ws_tunePool n s =
    (if \<not> isActive s then (s, Some (statusError s))
     else if limit s = n then (s, Some ErrSameConcurrency)
     else let old = limit s; s1 = s\<lparr>limit := n\<rparr>
          in if old < n then (ws_dispatch s1, None)
             else if expiry s1 \<noteq> 0 then (s1, None)
             else (shrink_pool (nat (old - n)) (minIdle s1) s1, None))"

definition unstarted :: "Gor \<Rightarrow> nat list" where
  "unstarted g = (if g_busy g then drop (g_i g + 1) (g_batch g) else [])"

definition ws_purge :: "WorkerSim \<Rightarrow> WorkerSim \<times> nat" where
  "ws_purge s =
    (let closed = queue s @ parked s;
         s1 = upd_jobs closed (\<lambda>x. x\<lparr>j_state := JClosed\<rparr>) s;
         s2 = s1\<lparr>queue := [], parked := []\<rparr>;
         later = concat (map (\<lambda>g. unstarted (gorh s2 g)) (gors s2));
         s3 = upd_jobs later (\<lambda>x. x\<lparr>j_stale := True\<rparr>) s2
     in (if closed \<noteq> [] then emit (EClose closed) s3 else s3, length closed + length later))"

definition ws_resetMetrics :: "WorkerSim \<Rightarrow> WorkerSim" where
  "ws_resetMetrics s = s\<lparr>metrics := \<lparr>submitted = 0, completed = 0, successful = 0, failed = 0\<rparr>\<rparr>"

definition cancelUser :: "CtxErr \<Rightarrow> WorkerSim \<Rightarrow> WorkerSim" where
  "cancelUser why s =
    (if userCtx s \<noteq> None then s
     else let s1 = s\<lparr>userCtx := Some why\<rparr> in if ctx s1 = None then s1\<lparr>ctx := Some why\<rparr> else s1)"

section \<open>Time\<close>

text \<open>The body of the loop of \<open>step\<close> over a copy of the goroutines.\<close>

definition tick_gor :: "rat \<Rightarrow> nat \<Rightarrow> WorkerSim \<Rightarrow> WorkerSim" where
  "tick_gor dt g s =
    (if \<not> g_busy (gorh s g) then s
     else let j = g_batch (gorh s g) ! g_i (gorh s g);
              s1 = (if j_watch (jobh s j) \<and> ctx s \<noteq> None \<and> \<not> j_early (jobh s j)
                    then upd_job j (\<lambda>x. x\<lparr>j_early := True, j_left := 0\<rparr>) s else s);
              s2 = upd_job j (\<lambda>x. x\<lparr>j_left := j_left x - dt\<rparr>) s1
          in if j_left (jobh s2 j) \<le> 0 then finishJob g j s2 else s2)"

definition notice_done :: "WorkerSim \<Rightarrow> WorkerSim" where
  "notice_done s = (if ctx s \<noteq> None \<and> (isActive s \<or> status s = Pausing \<or> status s = Paused) then setStatus Stopping s else s)"

definition finish_stop :: "WorkerSim \<Rightarrow> WorkerSim" where
  "finish_stop s =
    (if status s = Stopping \<and> curProcessing s = 0
     then (let s1 = fold exit_gor (pool s) s;
               s2 = setStatus Stopped (s1\<lparr>pool := []\<rparr>)
           in if restartPending s2 then fst (ws_start (s2\<lparr>restartPending := False\<rparr>)) else s2)
     else s)"

definition ws_step :: "rat \<Rightarrow> WorkerSim \<Rightarrow> WorkerSim" where
  "ws_step dt s0 =
    (let s1 = notice_done (s0\<lparr>now := now s0 + dt\<rparr>);
         s2 = finish_stop (fold (tick_gor dt) (gors s1) s1);
         s3 = (if 0 < expiry s2 \<and> isActive s2 then ws_expire dt s2 else s2)
     in ws_dispatch s3)"

function ws_advance :: "rat \<Rightarrow> WorkerSim \<Rightarrow> WorkerSim" where
  "ws_advance left s = (if 0 < left then let dt = min left STEP in ws_advance (left - dt) (ws_step dt s) else s)"
  by auto
termination
proof (relation "measure (\<lambda>(left, s). nat \<lceil>left / STEP\<rceil>)", goal_cases)
  case (2 left s dt)
  show ?case
  proof (cases "left \<le> STEP")
    case True with 2 show ?thesis by (simp add: STEP_def)
  next
    case False
    hence "(left - dt) / STEP = left / STEP - 1" using 2 by (simp add: STEP_def field_simps)
    moreover have "0 < left / STEP" using 2 by (simp add: STEP_def)
    ultimately show ?thesis by (simp add: zero_less_ceiling)
  qed
qed simp

declare ws_advance.simps [simp del]

definition no_job :: Job where
  "no_job = \<lparr>j_id = 0, j_dur = 0, j_left = 0, j_state = JClosed, j_at = Out, j_fail = None, j_watch = False,
     j_early = False, j_stale = False, j_slot = None, j_added = 0, j_started = None, j_ended = None\<rparr>"

definition no_gor :: Gor where
  "no_gor = \<lparr>g_id = 0, g_slot = 0, g_busy = False, g_batch = [], g_i = 0\<rparr>"

text \<open>The constructor, with the two fields a scene may set before use (\<open>minIdlePct\<close>, \<open>expiry\<close>) at their defaults.\<close>

definition WorkerSim_new :: "int option \<Rightarrow> bool \<Rightarrow> WorkerSim" where
  "WorkerSim_new size0 autoRun =
    (let s = \<lparr>now = 0, status = Initiated, limit = (case size0 of Some n \<Rightarrow> n | None \<Rightarrow> 1), minIdlePct = 0,
       expiry = 0, queue = [], parked = [], gors = [], pool = [], curProcessing = 0,
       metrics = \<lparr>submitted = 0, completed = 0, successful = 0, failed = 0\<rparr>, userCtx = None, ctx = None, log = [],
       restartPending = False, nextJob = 1, nextGor = 1, expiryClock = 0, idleSince = Map.empty,
       jobh = (\<lambda>_. no_job), gorh = (\<lambda>_. no_gor)\<rparr>
     in if autoRun then fst (ws_start s) else s)"

end
