(* ===== verification/Worker_Sim_Inv.thy ===== *)
theory Worker_Sim_Inv
  imports Worker_Sim "HOL-Library.Multiset"
begin

text \<open>
  The invariant of \<open>WorkerSim\<close> (\<open>Worker_Sim\<close>) and that every call and every step of the clock keeps it.
  Inside an operation a goroutine may be between two batches and jobs may be off every list; so the
  invariant \<open>ws_inv X B off\<close> carries the goroutine in transit \<open>X\<close>, the jobs in hand \<open>B\<close> and the part \<open>off\<close>
  of \<open>curProcessing\<close> they account for. Between calls it is \<open>ws_inv None [] 0\<close>.
\<close>

section \<open>The invariant\<close>

definition open_state :: "JobState \<Rightarrow> bool" where
  "open_state st \<longleftrightarrow> st = JQueued \<or> st = JRunning"

definition open_jobs :: "WorkerSim \<Rightarrow> nat set" where
  "open_jobs s = {j. 0 < j \<and> j < nextJob s \<and> open_state (j_state (jobh s j))}"

definition waits_at :: "Where \<Rightarrow> Job \<Rightarrow> bool" where
  "waits_at w j \<longleftrightarrow> j_state j = JQueued \<and> j_at j = w \<and> \<not> j_stale j"

definition runs_on :: "nat \<Rightarrow> Job \<Rightarrow> bool" where
  "runs_on slot j \<longleftrightarrow> j_state j = JRunning \<and> j_at j = InLane \<and> j_slot j = Some slot \<and> \<not> j_stale j"

text \<open>Jobs taken but not begun: a purge marks all of them or none.\<close>

definition rest_ok :: "(nat \<Rightarrow> Job) \<Rightarrow> nat list \<Rightarrow> bool" where
  "rest_ok h js \<longleftrightarrow> (\<forall>j\<in>set js. j_state (h j) = JQueued) \<and>
     ((\<forall>j\<in>set js. j_stale (h j)) \<or> (\<forall>j\<in>set js. \<not> j_stale (h j)))"

definition gor_ok :: "WorkerSim \<Rightarrow> nat \<Rightarrow> bool" where
  "gor_ok s g \<longleftrightarrow> (let r = gorh s g in
     if g_busy r then g_i r < length (g_batch r) \<and> length (g_batch r) \<le> MAX_BATCH_SIM
       \<and> runs_on (g_slot r) (jobh s (g_batch r ! g_i r)) \<and> rest_ok (jobh s) (drop (Suc (g_i r)) (g_batch r))
     else g_batch r = [] \<and> g_i r = 0)"

definition taken_of :: "nat option \<Rightarrow> WorkerSim \<Rightarrow> nat \<Rightarrow> nat list" where
  "taken_of X s g = (if X = Some g then [] else drop (g_i (gorh s g)) (g_batch (gorh s g)))"

definition held_of :: "nat option \<Rightarrow> WorkerSim \<Rightarrow> nat \<Rightarrow> nat" where
  "held_of X s g = (if X = Some g then 0 else length (g_batch (gorh s g)))"

text \<open>Every job some list holds, with its multiplicity.\<close>

definition live :: "nat option \<Rightarrow> nat list \<Rightarrow> WorkerSim \<Rightarrow> nat multiset" where
  "live X B s = mset (queue s) + mset (parked s) + mset B + (\<Sum>g\<in>set (gors s). mset (taken_of X s g))"

definition gor_inv :: "nat option \<Rightarrow> WorkerSim \<Rightarrow> bool" where
  "gor_inv X s \<longleftrightarrow> distinct (gors s) \<and> (\<forall>g\<in>set (gors s). g < nextGor s)
     \<and> inj_on (\<lambda>g. g_slot (gorh s g)) (set (gors s)) \<and> dom (idleSince s) = set (gors s)
     \<and> distinct (pool s) \<and> set (pool s) = {g\<in>set (gors s). \<not> g_busy (gorh s g) \<and> X \<noteq> Some g}
     \<and> set_option X \<subseteq> set (gors s)"

definition job_inv :: "nat option \<Rightarrow> nat list \<Rightarrow> WorkerSim \<Rightarrow> bool" where
  "job_inv X B s \<longleftrightarrow> live X B s = mset_set (open_jobs s)
     \<and> (\<forall>j\<in>set (queue s). waits_at InQueue (jobh s j)) \<and> (\<forall>j\<in>set (parked s). waits_at InPark (jobh s j))
     \<and> rest_ok (jobh s) B \<and> (\<forall>g\<in>set (gors s). X \<noteq> Some g \<longrightarrow> gor_ok s g) \<and> 0 < nextJob s"

definition cur_inv :: "nat option \<Rightarrow> int \<Rightarrow> WorkerSim \<Rightarrow> bool" where
  "cur_inv X off s \<longleftrightarrow> curProcessing s = int (\<Sum>g\<in>set (gors s). held_of X s g) + off"

definition ws_inv :: "nat option \<Rightarrow> nat list \<Rightarrow> int \<Rightarrow> WorkerSim \<Rightarrow> bool" where
  "ws_inv X B off s \<longleftrightarrow> gor_inv X s \<and> job_inv X B s \<and> cur_inv X off s
     \<and> completed (metrics s) = successful (metrics s) + failed (metrics s)"

lemmas ws_inv_unfold = ws_inv_def gor_inv_def job_inv_def cur_inv_def

section \<open>Primitives\<close>

lemma setStatus_eq: "setStatus to s =
  s\<lparr>status := to, log := (if to = status s then log s else log s @ [EStatus (status s) to])\<rparr>"
  by (simp add: setStatus_def emit_def)

lemmas ws_prims = emit_def upd_job_def upd_gor_def setStatus_eq

lemma jobh_upd_jobs: "(\<And>x. f (f x) = f x) \<Longrightarrow> jobh (upd_jobs js f s) j = (if j \<in> set js then f (jobh s j) else jobh s j)"
  unfolding upd_jobs_def by (induction js arbitrary: s) (auto simp: upd_job_def)

text \<open>The invariant reads these fields only.\<close>

lemma ws_inv_cong:
  assumes "queue s = queue t" "parked s = parked t" "gors s = gors t" "pool s = pool t" "gorh s = gorh t"
    "jobh s = jobh t" "nextJob s = nextJob t" "nextGor s = nextGor t" "curProcessing s = curProcessing t"
    "idleSince s = idleSince t" "metrics s = metrics t"
  shows "ws_inv X B off s = ws_inv X B off t"
proof -
  have "taken_of X s = taken_of X t" "held_of X s = held_of X t" "gor_ok s = gor_ok t" "open_jobs s = open_jobs t"
    by (simp_all add: taken_of_def held_of_def gor_ok_def open_jobs_def assms fun_eq_iff)
  thus ?thesis by (simp add: ws_inv_unfold live_def assms)
qed

lemma ws_inv_emit [simp]: "ws_inv X B off (emit e s) = ws_inv X B off s"
  by (rule ws_inv_cong) (simp_all add: emit_def)

lemma ws_inv_setStatus [simp]: "ws_inv X B off (setStatus to s) = ws_inv X B off s"
  by (rule ws_inv_cong) (simp_all add: setStatus_eq)

lemma ws_inv_frame [simp]:
  "ws_inv X B off (s\<lparr>now := t\<rparr>) = ws_inv X B off s" "ws_inv X B off (s\<lparr>ctx := c\<rparr>) = ws_inv X B off s"
  "ws_inv X B off (s\<lparr>userCtx := c\<rparr>) = ws_inv X B off s" "ws_inv X B off (s\<lparr>expiryClock := t\<rparr>) = ws_inv X B off s"
  "ws_inv X B off (s\<lparr>restartPending := b\<rparr>) = ws_inv X B off s" "ws_inv X B off (s\<lparr>limit := n\<rparr>) = ws_inv X B off s"
  by (rule ws_inv_cong; simp)+

lemma distinct_if_count: "(\<And>a. count (mset xs) a \<le> 1) \<Longrightarrow> distinct xs"
proof (induction xs)
  case (Cons x xs)
  have "count (mset xs) a \<le> 1" for a
    by (rule order_trans[OF _ Cons.prems[of a]]) simp
  moreover have "count (mset xs) x = 0" using Cons.prems[of x] by simp
  ultimately show ?case using Cons.IH by (simp add: count_mset_0_iff)
qed simp

lemma open_jobs_finite [simp]: "finite (open_jobs s)"
  by (rule finite_subset[of _ "{..<nextJob s}"]) (auto simp: open_jobs_def)

lemma live_count: "job_inv X B s \<Longrightarrow> count (live X B s) j \<le> 1"
  by (auto simp: job_inv_def count_mset_set')

lemma live_open: "job_inv X B s \<Longrightarrow> j \<in># live X B s \<longleftrightarrow> j \<in> open_jobs s"
  by (simp add: job_inv_def)

lemma live_parts:
  assumes "job_inv X B s" "g \<in> set (gors s)"
  shows "count (mset (queue s)) j + count (mset (parked s)) j + count (mset B) j + count (mset (taken_of X s g)) j
    + (\<Sum>h\<in>set (gors s) - {g}. count (mset (taken_of X s h)) j) \<le> 1"
  using live_count[OF assms(1), of j] assms(2)
  by (simp add: live_def count_sum sum.remove[of "set (gors s)" g])

text \<open>A job in one place is in no other.\<close>

lemma held_apart:
  assumes "job_inv X B s" "g \<in> set (gors s)" "j \<in> set (taken_of X s g)"
  shows "j \<notin> set (queue s)" "j \<notin> set (parked s)" "j \<notin> set B"
    "\<And>h. h \<in> set (gors s) \<Longrightarrow> h \<noteq> g \<Longrightarrow> j \<notin> set (taken_of X s h)" "distinct (taken_of X s g)"
proof -
  have c: "0 < count (mset (taken_of X s g)) j" using assms(3) by simp
  note p = live_parts[OF assms(1,2)]
  show "j \<notin> set (queue s)" "j \<notin> set (parked s)" "j \<notin> set B"
    unfolding count_mset_0_iff[symmetric] using p[of j] c by linarith+
  show "j \<notin> set (taken_of X s h)" if "h \<in> set (gors s)" "h \<noteq> g" for h
  proof -
    have "(\<Sum>h\<in>set (gors s) - {g}. count (mset (taken_of X s h)) j) = 0" using p[of j] c by linarith
    hence "count (mset (taken_of X s h)) j = 0" using that by simp
    thus ?thesis by (simp add: count_eq_zero_iff)
  qed
  show "distinct (taken_of X s g)"
  proof (rule distinct_if_count)
    show "count (mset (taken_of X s g)) a \<le> 1" for a using p[of a] by linarith
  qed
qed

lemma hand_apart:
  assumes "job_inv X B s" "j \<in> set B"
  shows "j \<notin> set (queue s)" "j \<notin> set (parked s)" "\<And>h. h \<in> set (gors s) \<Longrightarrow> j \<notin> set (taken_of X s h)" "distinct B"
proof -
  have p: "count (mset (queue s)) a + count (mset (parked s)) a + count (mset B) a
    + (\<Sum>h\<in>set (gors s). count (mset (taken_of X s h)) a) \<le> 1" for a
    using live_count[OF assms(1), of a] by (simp add: live_def count_sum)
  have c: "0 < count (mset B) j" using assms(2) by simp
  show "j \<notin> set (queue s)" "j \<notin> set (parked s)"
    unfolding count_mset_0_iff[symmetric] using p[of j] c by linarith+
  show "j \<notin> set (taken_of X s h)" if "h \<in> set (gors s)" for h
  proof -
    have "(\<Sum>h\<in>set (gors s). count (mset (taken_of X s h)) j) = 0" using p[of j] c by linarith
    hence "count (mset (taken_of X s h)) j = 0" using that by simp
    thus ?thesis by (simp add: count_eq_zero_iff)
  qed
  show "distinct B"
  proof (rule distinct_if_count)
    show "count (mset B) a \<le> 1" for a using p[of a] by linarith
  qed
qed

section \<open>A goroutine in transit\<close>

lemma sum_transit:
  "finite A \<Longrightarrow> g \<in> A \<Longrightarrow> (\<And>h. h \<in> A \<Longrightarrow> h \<noteq> g \<Longrightarrow> f h = f' h) \<Longrightarrow> f' g = (0::'b::comm_monoid_add) \<Longrightarrow> sum f A = f g + sum f' A"
  by (simp add: sum.remove[of A g])

lemma taken_cong: "gorh s = gorh t \<Longrightarrow> taken_of X s = taken_of X t"
  by (simp add: taken_of_def fun_eq_iff)

lemma held_cong: "gorh s = gorh t \<Longrightarrow> held_of X s = held_of X t"
  by (simp add: held_of_def fun_eq_iff)

lemma taken_transit: "g_batch (gorh s g) = [] \<Longrightarrow> taken_of (Some g) s = taken_of None s"
  by (auto simp: taken_of_def fun_eq_iff)

lemma live_transit: "g \<in> set (gors s) \<Longrightarrow> live None B s = live (Some g) B s + mset (drop (g_i (gorh s g)) (g_batch (gorh s g)))"
  using sum_transit[of "set (gors s)" g "\<lambda>h. mset (taken_of None s h)" "\<lambda>h. mset (taken_of (Some g) s h)"]
  by (simp add: live_def taken_of_def)

lemma held_transit: "g \<in> set (gors s) \<Longrightarrow>
  (\<Sum>h\<in>set (gors s). held_of None s h) = (\<Sum>h\<in>set (gors s). held_of (Some g) s h) + length (g_batch (gorh s g))"
  using sum_transit[of "set (gors s)" g "held_of None s" "held_of (Some g) s"]
  by (simp add: held_of_def)

text \<open>An idle goroutine may be taken out of the pool, and put back.\<close>

lemma gor_ok_idle: "gor_ok s g \<Longrightarrow> \<not> g_busy (gorh s g) \<Longrightarrow> g_batch (gorh s g) = [] \<and> g_i (gorh s g) = 0"
  by (simp add: gor_ok_def Let_def)

lemma pool_idle:
  assumes "ws_inv X B off s" "g \<in> set (pool s)"
  shows "g \<in> set (gors s)" "\<not> g_busy (gorh s g)" "g_batch (gorh s g) = []" "g_i (gorh s g) = 0" "X \<noteq> Some g"
proof -
  show a: "g \<in> set (gors s)" "\<not> g_busy (gorh s g)" "X \<noteq> Some g" using assms by (auto simp: ws_inv_unfold)
  have "gor_ok s g" using assms a by (auto simp: ws_inv_unfold)
  thus "g_batch (gorh s g) = []" "g_i (gorh s g) = 0" using gor_ok_idle a by blast+
qed

lemma leave_pool:
  assumes "ws_inv None B off s" "g \<in> set (pool s)"
  shows "ws_inv (Some g) B off (s\<lparr>pool := filter (\<lambda>x. x \<noteq> g) (pool s)\<rparr>)"
proof -
  note i = pool_idle[OF assms]
  let ?t = "s\<lparr>pool := filter (\<lambda>x. x \<noteq> g) (pool s)\<rparr>"
  have "live (Some g) B ?t = live None B s"
    using i by (simp add: live_def taken_cong[of ?t s] taken_transit)
  moreover have "(\<Sum>h\<in>set (gors s). held_of (Some g) ?t h) = (\<Sum>h\<in>set (gors s). held_of None s h)"
    using held_transit[OF i(1)] i by (simp add: held_cong[of ?t s])
  moreover have "open_jobs ?t = open_jobs s" "gor_ok ?t = gor_ok s"
    by (simp_all add: open_jobs_def gor_ok_def fun_eq_iff)
  ultimately show ?thesis using assms i by (auto simp: ws_inv_unfold)
qed

lemma join_pool:
  assumes "ws_inv (Some g) B off s" "\<not> g_busy (gorh s g)" "g_batch (gorh s g) = []" "g_i (gorh s g) = 0"
  shows "ws_inv None B off (s\<lparr>pool := pool s @ [g]\<rparr>)"
proof -
  let ?t = "s\<lparr>pool := pool s @ [g]\<rparr>"
  have g: "g \<in> set (gors s)" using assms by (auto simp: ws_inv_unfold)
  have "live None B ?t = live (Some g) B s"
    using assms by (simp add: live_def taken_cong[of ?t s] taken_transit)
  moreover have "(\<Sum>h\<in>set (gors s). held_of None ?t h) = (\<Sum>h\<in>set (gors s). held_of (Some g) s h)"
    using held_transit[OF g] assms by (simp add: held_cong[of ?t s])
  moreover have "open_jobs ?t = open_jobs s" "gor_ok ?t = gor_ok s"
    by (simp_all add: open_jobs_def gor_ok_def fun_eq_iff)
  moreover have "gor_ok s g" using assms by (simp add: gor_ok_def)
  ultimately show ?thesis using assms g by (auto simp: ws_inv_unfold)
qed

lemma spawn_transit:
  assumes "ws_inv None B off s" "spawn s = (g, s')"
  shows "ws_inv (Some g) B off s'" "\<not> g_busy (gorh s' g)" "g_batch (gorh s' g) = []" "g_i (gorh s' g) = 0"
    "pool s' = pool s" "gors s' = gors s @ [g]" "g \<notin> set (gors s)" "nextGor s' = Suc (nextGor s)" "status s' = status s"
    "queue s' = queue s" "parked s' = parked s" "limit s' = limit s" "jobh s' = jobh s" "curProcessing s' = curProcessing s"
    "restartPending s' = restartPending s" "minIdlePct s' = minIdlePct s" "expiry s' = expiry s"
    "\<And>h. h \<in> set (gors s) \<Longrightarrow> gorh s' h = gorh s h" "nextJob s' = nextJob s" "ctx s' = ctx s" "userCtx s' = userCtx s"
proof -
  define sl where "sl = lowest_from (map (\<lambda>x. g_slot (gorh s x)) (gors s)) 0"
  have s': "s' = emit (ESpawn g) (s\<lparr>nextGor := g + 1, gors := gors s @ [g], idleSince := (idleSince s)(g \<mapsto> now s),
      gorh := (gorh s)(g := \<lparr>g_id = g, g_slot = sl, g_busy = False, g_batch = [], g_i = 0\<rparr>)\<rparr>)"
    and gn: "g = nextGor s" using assms(2) by (auto simp: spawn_def Let_def sl_def)
  show fresh: "g \<notin> set (gors s)" using assms(1) gn by (auto simp: ws_inv_unfold)
  have slf: "sl \<notin> (\<lambda>x. g_slot (gorh s x)) ` set (gors s)"
    using lowest_from_free[of "map (\<lambda>x. g_slot (gorh s x)) (gors s)" 0] by (simp add: sl_def)
  show "\<not> g_busy (gorh s' g)" "g_batch (gorh s' g) = []" "g_i (gorh s' g) = 0" "pool s' = pool s"
    "gors s' = gors s @ [g]" "nextGor s' = Suc (nextGor s)" "status s' = status s" "queue s' = queue s" "parked s' = parked s"
    "limit s' = limit s" "jobh s' = jobh s" "curProcessing s' = curProcessing s" "restartPending s' = restartPending s"
    "minIdlePct s' = minIdlePct s" "expiry s' = expiry s" "nextJob s' = nextJob s" "ctx s' = ctx s" "userCtx s' = userCtx s"
    by (simp_all add: s' emit_def gn)
  show same: "gorh s' h = gorh s h" if "h \<in> set (gors s)" for h using that fresh by (auto simp: s' emit_def)
  have gi: "gor_inv (Some g) s'"
    using assms(1) fresh slf by (auto simp: ws_inv_unfold s' emit_def gn inj_on_def)
  have eqs: "taken_of (Some g) s' h = taken_of None s h" "held_of (Some g) s' h = held_of None s h" "gor_ok s' h = gor_ok s h"
    if "h \<in> set (gors s)" for h
    using that fresh same[OF that] by (auto simp: taken_of_def held_of_def gor_ok_def s' emit_def)
  have "live (Some g) B s' = live None B s"
    using fresh by (simp add: live_def s' emit_def taken_of_def) (rule sum.cong, auto)
  moreover have "(\<Sum>h\<in>set (gors s'). held_of (Some g) s' h) = (\<Sum>h\<in>set (gors s). held_of None s h)"
    using fresh eqs by (simp add: s' emit_def held_of_def)
  moreover have "open_jobs s' = open_jobs s" by (simp add: open_jobs_def s' emit_def)
  moreover have "\<forall>h\<in>set (gors s'). Some g \<noteq> Some h \<longrightarrow> gor_ok s' h"
    using assms(1) eqs fresh by (auto simp: s' emit_def ws_inv_unfold)
  ultimately have "job_inv (Some g) B s'" "cur_inv (Some g) off s'"
    using assms(1) by (simp_all add: ws_inv_unfold s' emit_def)
  thus "ws_inv (Some g) B off s'" using gi assms(1) by (simp add: ws_inv_def s' emit_def)
qed

lemma exit_transit:
  assumes "ws_inv (Some g) B off s"
  shows "ws_inv None B off (exit_gor g s)"
proof -
  have g: "g \<in> set (gors s)" "g \<notin> set (pool s)" using assms by (auto simp: ws_inv_unfold)
  let ?t = "exit_gor g s"
  have st: "set (gors ?t) = set (gors s) - {g}" "queue ?t = queue s" "parked ?t = parked s" "jobh ?t = jobh s"
    "nextJob ?t = nextJob s" "curProcessing ?t = curProcessing s" "metrics ?t = metrics s" "gorh ?t = gorh s"
    "nextGor ?t = nextGor s" "pool ?t = pool s"
    using g by (auto simp: exit_gor_def emit_def intro!: filter_True)
  have gi: "gor_inv None ?t"
  proof -
    have "dom (idleSince ?t) = set (gors s) - {g}" "distinct (gors ?t)"
      using assms by (auto simp: exit_gor_def emit_def ws_inv_unfold)
    thus ?thesis using assms st unfolding gor_inv_def ws_inv_def by (auto intro: inj_on_subset)
  qed
  have "live None B ?t = live (Some g) B s"
    using g by (simp add: live_def st taken_of_def sum.remove[of "set (gors s)" g])
  moreover have "(\<Sum>h\<in>set (gors ?t). held_of None ?t h) = (\<Sum>h\<in>set (gors s). held_of (Some g) s h)"
    using g by (simp add: st held_of_def sum.remove[of "set (gors s)" g])
  moreover have "open_jobs ?t = open_jobs s" "gor_ok ?t = gor_ok s" by (simp_all add: st open_jobs_def gor_ok_def fun_eq_iff)
  ultimately show ?thesis using assms gi st by (auto simp: ws_inv_def job_inv_def cur_inv_def)
qed

lemma exit_pool:
  assumes "ws_inv None B off s" "g \<in> set (pool s)"
  shows "ws_inv None B off (exit_gor g s)"
proof -
  have "exit_gor g s = exit_gor g (s\<lparr>pool := filter (\<lambda>x. x \<noteq> g) (pool s)\<rparr>)"
    by (simp add: exit_gor_def emit_def)
  thus ?thesis using exit_transit[OF leave_pool[OF assms]] by simp
qed

section \<open>Jobs in hand\<close>

lemma rest_ok_cong: "(\<And>j. j \<in> set js \<Longrightarrow> h j = h' j) \<Longrightarrow> rest_ok h js = rest_ok h' js"
  by (simp add: rest_ok_def)

lemma gor_ok_cong:
  assumes "gorh t g = gorh s g" "X \<noteq> Some g" "gor_ok s g" "\<And>j. j \<in> set (taken_of X s g) \<Longrightarrow> jobh t j = jobh s j"
  shows "gor_ok t g"
proof (cases "g_busy (gorh s g)")
  case True
  let ?b = "g_batch (gorh s g)" and ?i = "g_i (gorh s g)"
  have i: "?i < length ?b" using assms(3) True by (simp add: gor_ok_def Let_def)
  have "drop ?i ?b = ?b ! ?i # drop (Suc ?i) ?b" using i by (simp add: Cons_nth_drop_Suc)
  hence tk: "set (taken_of X s g) = insert (?b ! ?i) (set (drop (Suc ?i) ?b))" using assms(2) by (simp add: taken_of_def)
  have "jobh t (?b ! ?i) = jobh s (?b ! ?i)" using assms(4) tk by simp
  moreover have "rest_ok (jobh t) (drop (Suc ?i) ?b) = rest_ok (jobh s) (drop (Suc ?i) ?b)"
    by (rule rest_ok_cong) (use assms(4) tk in simp)
  ultimately show ?thesis using assms(1,3) True by (simp add: gor_ok_def Let_def)
next
  case False thus ?thesis using assms(1,3) by (simp add: gor_ok_def Let_def)
qed

lemma heap_change:
  assumes "ws_inv X B off s" "\<And>j. j \<notin> set B \<Longrightarrow> h j = jobh s j"
  shows "\<forall>j\<in>set (queue s). waits_at InQueue (h j)" "\<forall>j\<in>set (parked s). waits_at InPark (h j)"
    "\<forall>g\<in>set (gors s). X \<noteq> Some g \<longrightarrow> gor_ok (s\<lparr>jobh := h\<rparr>) g"
proof -
  have j: "job_inv X B s" using assms by (simp add: ws_inv_def)
  have a: "h x = jobh s x" if "x \<in> set (queue s) \<or> x \<in> set (parked s) \<or> (\<exists>g\<in>set (gors s). x \<in> set (taken_of X s g))" for x
    using that hand_apart[OF j, of x] assms(2) by blast
  show "\<forall>j\<in>set (queue s). waits_at InQueue (h j)" "\<forall>j\<in>set (parked s). waits_at InPark (h j)"
    using a j by (auto simp: job_inv_def)
  show "\<forall>g\<in>set (gors s). X \<noteq> Some g \<longrightarrow> gor_ok (s\<lparr>jobh := h\<rparr>) g"
  proof (intro ballI impI)
    fix g assume g: "g \<in> set (gors s)" "X \<noteq> Some g"
    hence "gor_ok s g" using j by (simp add: job_inv_def)
    thus "gor_ok (s\<lparr>jobh := h\<rparr>) g"
      by (rule gor_ok_cong[rotated 2]) (use g a in auto)
  qed
qed

text \<open>The record may change in any way that keeps the places of the jobs in hand and their states.\<close>

lemma hand_update:
  assumes "ws_inv X B off s" "\<And>j. j \<notin> set B \<Longrightarrow> h j = jobh s j"
    "\<And>j. j \<in> set B \<Longrightarrow> j_state (h j) = j_state (jobh s j) \<and> j_stale (h j) = j_stale (jobh s j)"
  shows "ws_inv X B off (s\<lparr>jobh := h\<rparr>)"
proof -
  let ?t = "s\<lparr>jobh := h\<rparr>"
  have st: "j_state (h j) = j_state (jobh s j)" for j using assms(2,3) by (cases "j \<in> set B") auto
  have "open_jobs ?t = open_jobs s" by (simp add: open_jobs_def st)
  moreover have "live X B ?t = live X B s" by (simp add: live_def taken_cong[of ?t s])
  moreover have "rest_ok h B" using assms by (auto simp: ws_inv_unfold rest_ok_def)
  moreover have "held_of X ?t = held_of X s" by (rule held_cong) simp
  ultimately show ?thesis using assms(1) heap_change[OF assms(1), of h, OF assms(2)]
    by (simp add: ws_inv_unfold)
qed

lemma take_jobs_fill:
  "(\<forall>j\<in>set js. j_state (h j) \<noteq> JClosed) \<Longrightarrow> fill_queue h n js = (take n js, drop n js)"
  by (induction h n js rule: fill_queue.induct) (auto simp: take_Cons' drop_Cons')

lemma queue_open: "ws_inv X B off s \<Longrightarrow> \<forall>j\<in>set (queue s). j_state (jobh s j) \<noteq> JClosed"
  by (auto simp: ws_inv_unfold waits_at_def)

lemma take_jobs_eq:
  assumes "ws_inv X B off s"
  shows "take_jobs k s = (take k (parked s) @ take (k - length (parked s)) (queue s),
    s\<lparr>parked := drop k (parked s), queue := drop (k - length (parked s)) (queue s)\<rparr>)"
proof -
  have "k - length (take k (parked s)) = k - length (parked s)" by simp
  thus ?thesis using take_jobs_fill[OF queue_open[OF assms], of "k - length (parked s)"]
    by (simp add: take_jobs_def Let_def)
qed

lemma take_jobs_inv:
  assumes "ws_inv X [] off s" "take_jobs k s = (buf, s')"
  shows "ws_inv X buf off s'" "\<forall>j\<in>set buf. \<not> j_stale (jobh s j)" "jobh s' = jobh s"
proof -
  let ?m = "k - length (parked s)"
  have b: "buf = take k (parked s) @ take ?m (queue s)"
    and s': "s' = s\<lparr>parked := drop k (parked s), queue := drop ?m (queue s)\<rparr>"
    using assms(2) take_jobs_eq[OF assms(1), of k] by auto
  show jh: "jobh s' = jobh s" by (simp add: s')
  have sub: "set buf \<subseteq> set (parked s) \<union> set (queue s)"
    using set_take_subset[of k "parked s"] set_take_subset[of ?m "queue s"] by (auto simp: b)
  thus ns: "\<forall>j\<in>set buf. \<not> j_stale (jobh s j)"
    using assms(1) by (fastforce simp: ws_inv_unfold waits_at_def)
  have "\<forall>j\<in>set buf. j_state (jobh s j) = JQueued"
    using sub assms(1) by (fastforce simp: ws_inv_unfold waits_at_def)
  hence r: "rest_ok (jobh s') buf" using ns by (simp add: rest_ok_def jh)
  have p: "mset (take k (parked s)) + mset (drop k (parked s)) = mset (parked s)" and
    q: "mset (take ?m (queue s)) + mset (drop ?m (queue s)) = mset (queue s)"
    by (metis append_take_drop_id mset_append)+
  have "live X buf s' = (mset (take ?m (queue s)) + mset (drop ?m (queue s))) + (mset (take k (parked s)) + mset (drop k (parked s)))
      + (\<Sum>g\<in>set (gors s). mset (taken_of X s g))"
    by (simp add: live_def s' b taken_cong[of s' s] taken_cong[of "s\<lparr>parked := _, queue := _\<rparr>" s])
  also have "\<dots> = live X [] s" unfolding p q by (simp add: live_def)
  finally have l: "live X buf s' = live X [] s" .
  have o: "open_jobs s' = open_jobs s" "held_of X s' = held_of X s" "gor_ok s' = gor_ok s"
    by (simp_all add: s' open_jobs_def held_of_def gor_ok_def fun_eq_iff)
  have "set (queue s') \<subseteq> set (queue s)" "set (parked s') \<subseteq> set (parked s)"
    by (simp_all add: s' set_drop_subset)
  hence "job_inv X buf s'" using assms(1) l o r jh by (auto simp: ws_inv_def job_inv_def s')
  moreover have "gor_inv X s'" "cur_inv X off s'" using assms(1) o by (simp_all add: ws_inv_unfold s')
  ultimately show "ws_inv X buf off s'" using assms(1) by (simp add: ws_inv_def s')
qed

lemma live_Cons: "live X (j # B) s = add_mset j (live X B s)"
  by (simp add: live_def)

text \<open>A job in hand that finishes, one way or the other, leaves the books.\<close>

lemma drop_hand:
  assumes "ws_inv X (j # B) off s" "\<not> open_state (j_state (f (jobh s j)))"
  shows "ws_inv X B off (upd_job j f s)"
proof -
  let ?t = "upd_job j f s"
  have ji: "job_inv X (j # B) s" using assms(1) by (simp add: ws_inv_def)
  have jB: "j \<notin> set B" using hand_apart(4)[OF ji, of j] by simp
  have o: "open_jobs ?t = open_jobs s - {j}"
    using assms(2) by (auto simp: open_jobs_def upd_job_def)
  have jo: "j \<in> open_jobs s" using live_open[OF ji, of j] by (simp add: live_Cons)
  have "live X B ?t = live X B s" by (simp add: live_def upd_job_def taken_cong[of "s\<lparr>jobh := _\<rparr>" s])
  moreover have "add_mset j (live X B s) = mset_set (open_jobs s)" using ji by (simp add: job_inv_def live_Cons)
  ultimately have "live X B ?t = mset_set (open_jobs ?t)"
    using mset_set.remove[of "open_jobs s" j] jo o by simp
  moreover have "rest_ok (jobh ?t) B"
  proof -
    have "rest_ok (jobh s) B" using ji by (auto simp: job_inv_def rest_ok_def)
    moreover have "rest_ok (jobh ?t) B = rest_ok (jobh s) B"
      by (rule rest_ok_cong) (use jB in \<open>auto simp: upd_job_def\<close>)
    ultimately show ?thesis by simp
  qed
  moreover have "held_of X ?t = held_of X s" by (rule held_cong) (simp add: upd_job_def)
  ultimately show ?thesis using assms(1) heap_change[OF assms(1), of "(jobh s)(j := f (jobh s j))"]
    by (simp add: ws_inv_unfold upd_job_def)
qed

lemma park_hand:
  assumes "ws_inv X B off s" "\<forall>j\<in>set B. \<not> j_stale (jobh s j)"
  shows "ws_inv X [] off ((upd_jobs B (\<lambda>x. x\<lparr>j_at := InPark\<rparr>) s)\<lparr>parked := parked s @ B\<rparr>)"
proof -
  let ?f = "\<lambda>x. x\<lparr>j_at := InPark\<rparr>" and ?h = "jobh (upd_jobs B (\<lambda>x. x\<lparr>j_at := InPark\<rparr>) s)"
  let ?t = "(upd_jobs B ?f s)\<lparr>parked := parked s @ B\<rparr>"
  have h: "?h j = (if j \<in> set B then ?f (jobh s j) else jobh s j)" for j by (rule jobh_upd_jobs) simp
  have hc: "\<forall>j\<in>set (queue s). waits_at InQueue (?h j)" "\<forall>j\<in>set (parked s). waits_at InPark (?h j)"
    "\<forall>g\<in>set (gors s). X \<noteq> Some g \<longrightarrow> gor_ok (s\<lparr>jobh := ?h\<rparr>) g"
    using heap_change[OF assms(1), of ?h] h by simp_all
  have gk: "gor_ok ?t = gor_ok (s\<lparr>jobh := ?h\<rparr>)" "held_of X ?t = held_of X s" "taken_of X ?t = taken_of X s"
    by (simp_all add: gor_ok_def held_of_def taken_of_def fun_eq_iff)
  have "open_jobs ?t = open_jobs s" by (auto simp: open_jobs_def h)
  moreover have "live X [] ?t = live X B s" by (simp add: live_def gk)
  moreover have "\<forall>j\<in>set B. waits_at InPark (?h j)"
    using assms by (auto simp: h waits_at_def ws_inv_unfold rest_ok_def)
  moreover have "rest_ok ?h []" by (simp add: rest_ok_def)
  ultimately show ?thesis using assms(1) hc gk by (auto simp: ws_inv_unfold)
qed

section \<open>Batches\<close>

lemma upd_transit:
  assumes "ws_inv (Some g) B off s" "g_slot (f (gorh s g)) = g_slot (gorh s g)"
  shows "ws_inv (Some g) B off (upd_gor g f s)"
proof -
  let ?t = "upd_gor g f s"
  have gh: "gorh ?t h = gorh s h" if "h \<noteq> g" for h using that by (simp add: upd_gor_def)
  have e: "taken_of (Some g) ?t = taken_of (Some g) s" "held_of (Some g) ?t = held_of (Some g) s"
    using gh by (auto simp: taken_of_def held_of_def fun_eq_iff)
  have ok: "gor_ok ?t h = gor_ok s h" if "h \<noteq> g" for h using that by (simp add: gor_ok_def upd_gor_def)
  have "(\<lambda>h. g_slot (gorh ?t h)) = (\<lambda>h. g_slot (gorh s h))" using assms(2) by (auto simp: upd_gor_def fun_eq_iff)
  moreover have "live (Some g) B ?t = live (Some g) B s" "open_jobs ?t = open_jobs s"
    by (simp_all add: live_def e) (simp_all add: upd_gor_def open_jobs_def)
  moreover have "{h\<in>set (gors s). \<not> g_busy (gorh ?t h) \<and> Some g \<noteq> Some h} = {h\<in>set (gors s). \<not> g_busy (gorh s h) \<and> Some g \<noteq> Some h}"
    using gh by auto
  ultimately show ?thesis using assms(1) ok e unfolding ws_inv_unfold by (auto simp: upd_gor_def)
qed

lemma add_cur: "ws_inv X B off s \<Longrightarrow> ws_inv X B (off + n) (s\<lparr>curProcessing := curProcessing s + n\<rparr>)"
proof -
  assume a: "ws_inv X B off s"
  let ?t = "s\<lparr>curProcessing := curProcessing s + n\<rparr>"
  have "taken_of X ?t = taken_of X s" "held_of X ?t = held_of X s" "gor_ok ?t = gor_ok s" "open_jobs ?t = open_jobs s"
    by (simp_all add: taken_of_def held_of_def gor_ok_def open_jobs_def fun_eq_iff)
  thus ?thesis using a by (simp add: ws_inv_unfold live_def)
qed

lemma begin_inv:
  assumes inv: "ws_inv (Some g) (drop i b) (int (length b)) s" and b: "g_batch (gorh s g) = b" "g_busy (gorh s g)"
    and i: "i < length b" "length b \<le> MAX_BATCH_SIM" "\<not> j_stale (jobh s (b ! i))"
  shows "ws_inv None [] 0 (begin_job g i s)"
proof -
  let ?j = "b ! i" and ?sl = "g_slot (gorh s g)"
  let ?f = "\<lambda>x. x\<lparr>j_state := JRunning, j_at := InLane, j_slot := Some ?sl, j_started := Some (now s)\<rparr>"
  define t where "t = upd_job ?j ?f (upd_gor g (\<lambda>x. x\<lparr>g_i := i\<rparr>) s)"
  have t: "begin_job g i s = emit (EStart ?j) t"
    by (simp add: begin_job_def t_def b Let_def)
  have d: "drop i b = ?j # drop (Suc i) b" using i by (simp add: Cons_nth_drop_Suc)
  have g: "g \<in> set (gors s)" using inv by (auto simp: ws_inv_unfold)
  have ji: "job_inv (Some g) (drop i b) s" using inv by (simp add: ws_inv_def)
  have jn: "?j \<notin> set (drop (Suc i) b)" using hand_apart(4)[OF ji, of ?j] d by simp
  have jh: "jobh t x = (if x = ?j then ?f (jobh s x) else jobh s x)" for x by (simp add: t_def upd_job_def upd_gor_def)
  have gh: "gorh t h = (if h = g then (gorh s g)\<lparr>g_i := i\<rparr> else gorh s h)" for h by (simp add: t_def upd_job_def upd_gor_def)
  have ff: "queue t = queue s" "parked t = parked s" "gors t = gors s" "pool t = pool s" "nextJob t = nextJob s"
    "nextGor t = nextGor s" "curProcessing t = curProcessing s" "idleSince t = idleSince s" "metrics t = metrics s"
    by (simp_all add: t_def upd_job_def upd_gor_def)
  have "open_jobs t = open_jobs s"
  proof -
    have "open_state (j_state (jobh s ?j))" using ji d by (auto simp: job_inv_def rest_ok_def open_state_def)
    thus ?thesis by (auto simp: open_jobs_def ff jh open_state_def)
  qed
  moreover have "live None [] t = live (Some g) (drop i b) s"
  proof -
    have "taken_of (Some g) t = taken_of (Some g) s" by (auto simp: taken_of_def gh fun_eq_iff)
    thus ?thesis using live_transit[of g t "[]"] g b by (simp add: ff gh live_def)
  qed
  moreover have "gor_ok t h" if h: "h \<in> set (gors s)" for h
  proof (cases "h = g")
    case True
    have "rest_ok (jobh t) (drop (Suc i) b)"
    proof -
      have "rest_ok (jobh s) (drop i b)" using ji by (simp add: job_inv_def)
      hence "rest_ok (jobh s) (drop (Suc i) b)" unfolding d by (auto simp: rest_ok_def)
      moreover have "rest_ok (jobh t) (drop (Suc i) b) = rest_ok (jobh s) (drop (Suc i) b)"
        by (rule rest_ok_cong) (use jn jh in auto)
      ultimately show ?thesis by simp
    qed
    thus ?thesis using True b i by (simp add: gor_ok_def gh jh runs_on_def)
  next
    case False
    have "gor_ok (s\<lparr>jobh := jobh t\<rparr>) h"
      using heap_change(3)[OF inv, of "jobh t"] jh d h False by auto
    thus ?thesis using False gh by (simp add: gor_ok_def Let_def split: if_splits)
  qed
  moreover have "(\<Sum>h\<in>set (gors s). held_of None t h) = (\<Sum>h\<in>set (gors s). held_of (Some g) s h) + length b"
  proof -
    have "held_of (Some g) t = held_of (Some g) s" by (auto simp: held_of_def gh fun_eq_iff)
    thus ?thesis using held_transit[of g t] g b by (simp add: ff gh)
  qed
  moreover have "gor_inv None t"
  proof -
    have gi: "gor_inv (Some g) s" using inv by (simp add: ws_inv_def)
    have "g_slot (gorh t h) = g_slot (gorh s h)" "g_busy (gorh t h) = g_busy (gorh s h)" for h by (simp_all add: gh)
    thus ?thesis using gi b unfolding gor_inv_def ff by auto
  qed
  moreover have "\<forall>j\<in>set (queue s). waits_at InQueue (jobh t j)" "\<forall>j\<in>set (parked s). waits_at InPark (jobh t j)"
    using heap_change(1,2)[OF inv, of "jobh t"] jh d by auto
  ultimately show ?thesis using inv unfolding t ws_inv_emit
    by (simp add: ws_inv_def job_inv_def cur_inv_def ff rest_ok_def)
qed

text \<open>The job a goroutine runs comes to hand with the rest of its batch when it ends.\<close>

lemma running_job:
  assumes "ws_inv None [] 0 s" "g \<in> set (gors s)" "g_busy (gorh s g)"
  shows "g_i (gorh s g) < length (g_batch (gorh s g))" "length (g_batch (gorh s g)) \<le> MAX_BATCH_SIM"
    "runs_on (g_slot (gorh s g)) (jobh s (g_batch (gorh s g) ! g_i (gorh s g)))"
    "rest_ok (jobh s) (drop (Suc (g_i (gorh s g))) (g_batch (gorh s g)))"
  using assms by (auto simp: ws_inv_unfold gor_ok_def Let_def)

lemma end_inv:
  assumes inv: "ws_inv None [] 0 s" and g: "g \<in> set (gors s)" "g_busy (gorh s g)"
    and f: "\<not> open_state (j_state (f (jobh s (g_batch (gorh s g) ! g_i (gorh s g)))))"
  shows "ws_inv (Some g) (drop (Suc (g_i (gorh s g))) (g_batch (gorh s g))) (int (length (g_batch (gorh s g))))
    (upd_job (g_batch (gorh s g) ! g_i (gorh s g)) f s)"
proof -
  let ?b = "g_batch (gorh s g)" and ?i = "g_i (gorh s g)"
  let ?j = "?b ! ?i"
  let ?t = "upd_job ?j f s"
  note r = running_job[OF inv g]
  have d: "drop ?i ?b = ?j # drop (Suc ?i) ?b" using r(1) by (simp add: Cons_nth_drop_Suc)
  have ji: "job_inv None [] s" using inv by (simp add: ws_inv_def)
  have tk: "taken_of None s g = ?j # drop (Suc ?i) ?b" by (simp add: taken_of_def d)
  note apart = held_apart[OF ji g(1), of ?j, unfolded tk]
  have jo: "?j \<in> open_jobs s"
    using live_open[OF ji, of ?j] live_transit[OF g(1), of "[]"] d by simp
  have "live (Some g) (drop (Suc ?i) ?b) ?t = live (Some g) (drop (Suc ?i) ?b) s"
    by (simp add: live_def upd_job_def taken_cong[of "s\<lparr>jobh := _\<rparr>" s])
  moreover have "live None [] s = add_mset ?j (live (Some g) (drop (Suc ?i) ?b) s)"
    using live_transit[OF g(1), of "[]"] d by (simp add: live_def)
  moreover have "open_jobs ?t = open_jobs s - {?j}" using f by (auto simp: open_jobs_def upd_job_def)
  ultimately have l: "live (Some g) (drop (Suc ?i) ?b) ?t = mset_set (open_jobs ?t)"
    using mset_set.remove[of "open_jobs s" ?j] jo ji by (simp add: job_inv_def)
  have ro: "rest_ok (jobh ?t) (drop (Suc ?i) ?b)"
  proof -
    have "rest_ok (jobh ?t) (drop (Suc ?i) ?b) = rest_ok (jobh s) (drop (Suc ?i) ?b)"
      by (rule rest_ok_cong) (use apart in \<open>auto simp: upd_job_def\<close>)
    thus ?thesis using r(4) by simp
  qed
  have gk: "\<forall>h\<in>set (gors s). Some g \<noteq> Some h \<longrightarrow> gor_ok ?t h"
  proof (intro ballI impI)
    fix h assume h: "h \<in> set (gors s)" "Some g \<noteq> Some h"
    hence "gor_ok s h" using ji by (simp add: job_inv_def)
    thus "gor_ok ?t h"
      by (rule gor_ok_cong[of _ _ _ None, rotated 2]) (use apart(4)[of h] h in \<open>auto simp: upd_job_def\<close>)
  qed
  have "held_of (Some g) ?t = held_of (Some g) s" by (rule held_cong) (simp add: upd_job_def)
  hence c: "cur_inv (Some g) (int (length ?b)) ?t"
    using inv held_transit[OF g(1)] by (simp add: ws_inv_def cur_inv_def) (simp add: upd_job_def)
  have "gor_inv (Some g) ?t" using inv g by (auto simp: ws_inv_unfold upd_job_def)
  moreover have "job_inv (Some g) (drop (Suc ?i) ?b) ?t"
    unfolding job_inv_def using l ro gk ji apart(1,2) by (auto simp: job_inv_def upd_job_def)
  ultimately show ?thesis using c inv by (simp add: ws_inv_def upd_job_def)
qed

lemma endBatch_inv:
  assumes "ws_inv (Some g) [] (int (length (g_batch (gorh s g)))) s"
  shows "ws_inv None [] 0 (endBatch g s)"
proof -
  let ?k = "int (length (g_batch (gorh s g)))"
  define s1 where "s1 = upd_gor g (\<lambda>x. x\<lparr>g_busy := False, g_batch := [], g_i := 0\<rparr>) s"
  define s2 where "s2 = s1\<lparr>idleSince := (idleSince s1)(g \<mapsto> now s1)\<rparr>"
  have i1: "ws_inv (Some g) [] ?k s1" unfolding s1_def using assms by (rule upd_transit) simp
  have i2: "ws_inv (Some g) [] ?k s2"
  proof -
    have g: "g \<in> set (gors s1)" using i1 by (auto simp: ws_inv_unfold)
    have "taken_of (Some g) s2 = taken_of (Some g) s1" "held_of (Some g) s2 = held_of (Some g) s1" "gor_ok s2 = gor_ok s1"
      "open_jobs s2 = open_jobs s1"
      by (simp_all add: s2_def taken_of_def held_of_def gor_ok_def open_jobs_def fun_eq_iff)
    thus ?thesis using i1 g by (auto simp: ws_inv_unfold live_def s2_def)
  qed
  have idle: "\<not> g_busy (gorh s2 g)" "g_batch (gorh s2 g) = []" "g_i (gorh s2 g) = 0"
    by (simp_all add: s2_def s1_def upd_gor_def)
  define s3 where "s3 = (if length (pool s2) < length (queue s2) + length (parked s2) \<or> 0 < expiry s2 \<or> int (length (pool s2)) < minIdle s2
    then s2\<lparr>pool := pool s2 @ [g]\<rparr> else exit_gor g s2)"
  have i3: "ws_inv None [] ?k s3" unfolding s3_def using join_pool[OF i2 idle] exit_transit[OF i2] by auto
  define s4 where "s4 = s3\<lparr>curProcessing := curProcessing s3 - ?k\<rparr>"
  have i4: "ws_inv None [] 0 s4" using add_cur[OF i3, of "- ?k"] by (simp add: s4_def)
  have "endBatch g s = (if curProcessing s4 = 0 then (if status s4 = Running then setStatus Idle s4
    else if status s4 = Pausing then setStatus Paused s4 else s4) else s4)"
    unfolding endBatch_def Let_def s4_def s3_def s2_def s1_def by (rule refl)
  thus ?thesis using i4 by simp
qed

lemma rest_ok_tail: "rest_ok h (j # js) \<Longrightarrow> rest_ok h js"
  by (auto simp: rest_ok_def)

lemma finish_next_inv:
  assumes "ws_inv (Some g) (drop nxt (g_batch (gorh s g))) (int (length (g_batch (gorh s g)))) s"
    "g_busy (gorh s g)" "length (g_batch (gorh s g)) \<le> MAX_BATCH_SIM"
  shows "ws_inv None [] 0 (finish_next g nxt s)"
  using assms
proof (induction g nxt s rule: finish_next.induct)
  case (1 g nxt s)
  let ?b = "g_batch (gorh s g)"
  let ?nj = "?b ! nxt"
  note inv = 1(2)
  show ?case
  proof (cases "nxt < length ?b")
    case False thus ?thesis using endBatch_inv inv by (subst finish_next.simps) simp
  next
    case n: True
    have d: "drop nxt ?b = ?nj # drop (Suc nxt) ?b" using n by (simp add: Cons_nth_drop_Suc)
    show ?thesis
    proof (cases "j_stale (jobh s ?nj)")
      case True
      let ?t = "emit (EClose [?nj]) (upd_job ?nj (\<lambda>x. x\<lparr>j_state := JClosed, j_at := Out\<rparr>) s)"
      have t: "gorh ?t = gorh s" by (simp add: emit_def upd_job_def)
      have "ws_inv (Some g) (drop (Suc nxt) ?b) (int (length ?b)) ?t"
        using drop_hand[OF inv[unfolded d]] by (simp add: open_state_def)
      thus ?thesis using 1(1)[OF n refl True] t 1(3,4) n True by (subst finish_next.simps) (simp add: Let_def)
    next
      case ns: False
      have ro: "rest_ok (jobh s) (drop nxt ?b)" using inv by (simp add: ws_inv_unfold)
      hence allns: "\<forall>j\<in>set (drop nxt ?b). \<not> j_stale (jobh s j)" using ns d by (auto simp: rest_ok_def)
      have flt: "filter (\<lambda>x. j_state (jobh s x) \<noteq> JClosed) (drop nxt ?b) = drop nxt ?b"
        using ro by (auto simp: rest_ok_def intro!: filter_True)
      show ?thesis
      proof (cases "halting s")
        case True
        let ?t = "emit (EPark (drop nxt ?b)) ((upd_jobs (drop nxt ?b) (\<lambda>x. x\<lparr>j_at := InPark\<rparr>) s)\<lparr>parked := parked s @ drop nxt ?b\<rparr>)"
        have "ws_inv (Some g) [] (int (length ?b)) ?t" using park_hand[OF inv allns] by simp
        moreover have "gorh ?t = gorh s" by (simp add: emit_def)
        ultimately have "ws_inv None [] 0 (endBatch g ?t)" using endBatch_inv[of g ?t] by simp
        thus ?thesis using n ns True flt by (subst finish_next.simps) (simp add: Let_def)
      next
        case False
        have "ws_inv None [] 0 (begin_job g nxt s)"
          using begin_inv[OF inv refl 1(3) n 1(4) ns] .
        thus ?thesis using n ns False by (subst finish_next.simps) (simp add: Let_def)
      qed
    qed
  qed
qed

lemma metrics_inv:
  assumes "ws_inv X B off s" "completed m + successful (metrics s) + failed (metrics s) = completed (metrics s) + successful m + failed m"
  shows "ws_inv X B off (s\<lparr>metrics := m\<rparr>)"
proof -
  let ?t = "s\<lparr>metrics := m\<rparr>"
  have "taken_of X ?t = taken_of X s" "held_of X ?t = held_of X s" "gor_ok ?t = gor_ok s" "open_jobs ?t = open_jobs s"
    by (simp_all add: taken_of_def held_of_def gor_ok_def open_jobs_def fun_eq_iff)
  thus ?thesis using assms by (simp add: ws_inv_unfold live_def)
qed

lemma finishJob_inv:
  assumes "ws_inv None [] 0 s" "g \<in> set (gors s)" "g_busy (gorh s g)"
  shows "ws_inv None [] 0 (finishJob g (g_batch (gorh s g) ! g_i (gorh s g)) s)"
proof -
  let ?b = "g_batch (gorh s g)" and ?i = "g_i (gorh s g)"
  let ?j = "?b ! ?i"
  define fl where "fl \<longleftrightarrow> j_fail (jobh s ?j) \<noteq> None"
  let ?f = "\<lambda>x. x\<lparr>j_state := (if fl then JFailed else JDone), j_at := Out, j_ended := Some (now s)\<rparr>"
  define s1 where "s1 = upd_job ?j ?f s"
  define s2 where "s2 = emit (EEnd ?j) (s1\<lparr>metrics := count_end fl (metrics s1)\<rparr>)"
  have i1: "ws_inv (Some g) (drop (Suc ?i) ?b) (int (length ?b)) s1"
    unfolding s1_def using assms by (intro end_inv) (auto simp: open_state_def)
  have "ws_inv (Some g) (drop (Suc ?i) ?b) (int (length ?b)) (s1\<lparr>metrics := count_end fl (metrics s1)\<rparr>)"
    by (rule metrics_inv[OF i1]) (simp add: count_end_def)
  hence i2: "ws_inv (Some g) (drop (Suc ?i) ?b) (int (length ?b)) s2" by (simp add: s2_def)
  have g2: "gorh s2 = gorh s" by (simp add: s2_def s1_def emit_def upd_job_def)
  have "finishJob g ?j s = finish_next g (g_i (gorh s2 g) + 1) s2"
    by (simp only: finishJob_def Let_def s2_def s1_def fl_def)
  thus ?thesis using finish_next_inv[of g "Suc ?i" s2] i2 assms(3) running_job(2)[OF assms] by (simp add: g2)
qed

text \<open>The clock of a running job.\<close>

lemma run_update:
  assumes "ws_inv None [] 0 s" "\<And>x. j_state (f x) = j_state x \<and> j_stale (f x) = j_stale x \<and> j_at (f x) = j_at x \<and> j_slot (f x) = j_slot x"
  shows "ws_inv None [] 0 (upd_job j f s)"
proof -
  let ?t = "upd_job j f s"
  have h: "j_state (jobh ?t x) = j_state (jobh s x)" "j_stale (jobh ?t x) = j_stale (jobh s x)"
    "j_at (jobh ?t x) = j_at (jobh s x)" "j_slot (jobh ?t x) = j_slot (jobh s x)" for x
    using assms(2) by (simp_all add: upd_job_def)
  have r: "rest_ok (jobh ?t) = rest_ok (jobh s)" "waits_at w (jobh ?t x) = waits_at w (jobh s x)"
    "runs_on n (jobh ?t x) = runs_on n (jobh s x)" for w x n
    by (simp_all add: rest_ok_def waits_at_def runs_on_def h fun_eq_iff)
  have gh: "gorh ?t = gorh s" by (simp add: upd_job_def)
  have "gor_ok ?t = gor_ok s" by (simp add: gor_ok_def gh r fun_eq_iff)
  moreover have ff: "queue ?t = queue s" "parked ?t = parked s" "gors ?t = gors s" "pool ?t = pool s" "nextJob ?t = nextJob s"
    "nextGor ?t = nextGor s" "curProcessing ?t = curProcessing s" "idleSince ?t = idleSince s" "metrics ?t = metrics s"
    by (simp_all add: upd_job_def)
  moreover have "open_jobs ?t = open_jobs s" by (simp add: open_jobs_def h ff)
  ultimately show ?thesis using assms(1)
    by (simp add: ws_inv_unfold live_def taken_cong[OF gh] held_cong[OF gh] r gh)
qed

lemma tick_inv:
  assumes "ws_inv None [] 0 s" "g \<in> set (gors s) \<or> \<not> g_busy (gorh s g)"
  shows "ws_inv None [] 0 (tick_gor dt g s)"
proof (cases "g_busy (gorh s g)")
  case True
  let ?j = "g_batch (gorh s g) ! g_i (gorh s g)"
  define s1 where "s1 = (if j_watch (jobh s ?j) \<and> ctx s \<noteq> None \<and> \<not> j_early (jobh s ?j)
    then upd_job ?j (\<lambda>x. x\<lparr>j_early := True, j_left := 0\<rparr>) s else s)"
  define s2 where "s2 = upd_job ?j (\<lambda>x. x\<lparr>j_left := j_left x - dt\<rparr>) s1"
  have "ws_inv None [] 0 s1" unfolding s1_def using assms(1) by (auto intro: run_update)
  hence i2: "ws_inv None [] 0 s2" unfolding s2_def by (rule run_update) simp
  have e: "gorh s2 = gorh s" "gors s2 = gors s" by (simp_all add: s2_def s1_def upd_job_def)
  have "tick_gor dt g s = (if j_left (jobh s2 ?j) \<le> 0 then finishJob g ?j s2 else s2)"
    unfolding tick_gor_def Let_def using True by (simp only: s2_def s1_def) simp
  thus ?thesis using finishJob_inv[OF i2, of g] i2 e True assms(2) by simp
qed (simp add: tick_gor_def assms)

section \<open>What a finished job leaves alone\<close>

definition same_cfg :: "WorkerSim \<Rightarrow> WorkerSim \<Rightarrow> bool" where
  "same_cfg s t \<longleftrightarrow> limit t = limit s \<and> expiry t = expiry s \<and> minIdlePct t = minIdlePct s \<and> nextJob t = nextJob s
     \<and> ctx t = ctx s \<and> userCtx t = userCtx s \<and> restartPending t = restartPending s \<and> now t = now s"

definition keeps_others :: "nat \<Rightarrow> WorkerSim \<Rightarrow> WorkerSim \<Rightarrow> bool" where
  "keeps_others g s t \<longleftrightarrow> same_cfg s t \<and> set (gors t) \<subseteq> set (gors s)
     \<and> (\<forall>h. h \<noteq> g \<longrightarrow> gorh t h = gorh s h \<and> (h \<in> set (gors s) \<longrightarrow> h \<in> set (gors t)))"

text \<open>The status tells how many jobs are taken, and whether goroutines exist.\<close>

definition st_inv :: "WorkerSim \<Rightarrow> bool" where
  "st_inv s \<longleftrightarrow>
     (status s \<in> {Initiated, Idle, Paused, Stopped} \<longrightarrow> curProcessing s = 0)
   \<and> (status s \<in> {Running, Pausing} \<longrightarrow> 0 < curProcessing s)
   \<and> (status s \<in> {Initiated, Stopped} \<longrightarrow> gors s = [])
   \<and> (restartPending s \<longrightarrow> status s = Stopping)"

lemma keeps_trans: "keeps_others g s t \<Longrightarrow> keeps_others g t u \<Longrightarrow> keeps_others g s u"
  by (auto simp: keeps_others_def same_cfg_def)

lemma keeps_prims [simp]:
  "keeps_others g s (upd_job j f s)" "keeps_others g s (upd_gor g f' s)" "keeps_others g s (emit e s)"
  "keeps_others g s (setStatus st s)" "keeps_others g s (exit_gor g s)" "keeps_others g s (begin_job g i s)"
  "keeps_others g s ((upd_jobs js f s)\<lparr>parked := ps\<rparr>)" "keeps_others g s (s\<lparr>metrics := m\<rparr>)"
  by (auto simp: keeps_others_def same_cfg_def ws_prims exit_gor_def begin_job_def Let_def)

lemma keeps_fields:
  "keeps_others g s (s\<lparr>pool := p\<rparr>)" "keeps_others g s (s\<lparr>curProcessing := c\<rparr>)" "keeps_others g s (s\<lparr>idleSince := i\<rparr>)"
  by (simp_all add: keeps_others_def same_cfg_def)

lemma keeps_endBatch [simp]: "keeps_others g s (endBatch g s)"
proof -
  define s1 where "s1 = upd_gor g (\<lambda>x. x\<lparr>g_busy := False, g_batch := [], g_i := 0\<rparr>) s"
  define s2 where "s2 = s1\<lparr>idleSince := (idleSince s1)(g \<mapsto> now s1)\<rparr>"
  have 2: "keeps_others g s s2" unfolding s2_def s1_def by (rule keeps_trans[OF _ keeps_fields(3)]) simp
  define s3 where "s3 = (if length (pool s2) < length (queue s2) + length (parked s2) \<or> 0 < expiry s2 \<or> int (length (pool s2)) < minIdle s2
    then s2\<lparr>pool := pool s2 @ [g]\<rparr> else exit_gor g s2)"
  have 3: "keeps_others g s s3" unfolding s3_def
    using keeps_trans[OF 2 keeps_fields(1)] keeps_trans[OF 2 keeps_prims(5)] by simp
  define s4 where "s4 = s3\<lparr>curProcessing := curProcessing s3 - int (length (g_batch (gorh s g)))\<rparr>"
  have 4: "keeps_others g s s4" unfolding s4_def by (rule keeps_trans[OF 3 keeps_fields(2)])
  have "endBatch g s = (if curProcessing s4 = 0 then (if status s4 = Running then setStatus Idle s4
    else if status s4 = Pausing then setStatus Paused s4 else s4) else s4)"
    unfolding endBatch_def Let_def s4_def s3_def s2_def s1_def by (rule refl)
  thus ?thesis using 4 keeps_trans[OF 4 keeps_prims(4)] by simp
qed

lemma keeps_finish_next: "keeps_others g s (finish_next g nxt s)"
proof (induction g nxt s rule: finish_next.induct)
  case (1 g nxt s)
  let ?nj = "g_batch (gorh s g) ! nxt"
  show ?case
  proof (cases "nxt < length (g_batch (gorh s g)) \<and> j_stale (jobh s ?nj)")
    case True
    hence "keeps_others g s (finish_next g (nxt + 1) (emit (EClose [?nj]) (upd_job ?nj (\<lambda>x. x\<lparr>j_state := JClosed, j_at := Out\<rparr>) s)))"
      by (intro keeps_trans[OF _ 1] keeps_trans[OF _ keeps_prims(3)]) auto
    thus ?thesis using True by (simp add: finish_next.simps[of g nxt s] Let_def)
  next
    case False
    thus ?thesis by (subst finish_next.simps)
      (auto simp: Let_def intro!: keeps_trans[OF _ keeps_endBatch] keeps_trans[OF _ keeps_prims(3)])
  qed
qed

lemma keeps_finishJob: "keeps_others g s (finishJob g j s)"
  unfolding finishJob_def Let_def
  by (rule keeps_trans[OF _ keeps_finish_next], rule keeps_trans[OF _ keeps_prims(3)], rule keeps_trans[OF _ keeps_prims(8)]) simp

lemma keeps_tick: "keeps_others g s (tick_gor dt g s)"
proof -
  let ?j = "g_batch (gorh s g) ! g_i (gorh s g)"
  let ?s1 = "if j_watch (jobh s ?j) \<and> ctx s \<noteq> None \<and> \<not> j_early (jobh s ?j) then upd_job ?j (\<lambda>x. x\<lparr>j_early := True, j_left := 0\<rparr>) s else s"
  have 1: "keeps_others g s ?s1" by (simp add: keeps_others_def same_cfg_def upd_job_def)
  have 2: "keeps_others g s (upd_job ?j (\<lambda>x. x\<lparr>j_left := j_left x - dt\<rparr>) ?s1)"
    using keeps_trans[OF 1 keeps_prims(1)] .
  have 0: "keeps_others g s s" by (simp add: keeps_others_def same_cfg_def)
  show ?thesis unfolding tick_gor_def Let_def
    using 0 2 keeps_trans[OF 2 keeps_finishJob] by simp
qed

lemma st_inv_cong: "status t = status s \<Longrightarrow> curProcessing t = curProcessing s \<Longrightarrow> gors t = gors s \<Longrightarrow>
  restartPending t = restartPending s \<Longrightarrow> st_inv t = st_inv s"
  by (simp add: st_inv_def)

lemma st_inv_endBatch:
  assumes "st_inv s" "0 \<le> curProcessing (endBatch g s)"
  shows "st_inv (endBatch g s)"
proof -
  let ?k = "int (length (g_batch (gorh s g)))"
  have c: "curProcessing (endBatch g s) = curProcessing s - ?k"
    by (simp add: endBatch_def Let_def ws_prims exit_gor_def)
  have st: "status (endBatch g s) = (if curProcessing s - ?k = 0 then
      (if status s = Running then Idle else if status s = Pausing then Paused else status s) else status s)"
    by (simp add: endBatch_def Let_def ws_prims exit_gor_def)
  have r: "restartPending (endBatch g s) = restartPending s"
    using keeps_endBatch[of g s] by (simp add: keeps_others_def same_cfg_def)
  have g: "gors s = [] \<Longrightarrow> gors (endBatch g s) = []"
    using keeps_endBatch[of g s] by (simp add: keeps_others_def)
  show ?thesis using assms(1,2) c st r g
    by (cases "status s") (auto simp: st_inv_def)
qed

lemma st_inv_finish_next:
  assumes "st_inv s" "0 \<le> curProcessing (finish_next g nxt s)"
  shows "st_inv (finish_next g nxt s)"
  using assms
proof (induction g nxt s rule: finish_next.induct)
  case (1 g nxt s)
  let ?nj = "g_batch (gorh s g) ! nxt"
  let ?t = "emit (EClose [?nj]) (upd_job ?nj (\<lambda>x. x\<lparr>j_state := JClosed, j_at := Out\<rparr>) s)"
  let ?rest = "filter (\<lambda>x. j_state (jobh s x) \<noteq> JClosed) (drop nxt (g_batch (gorh s g)))"
  let ?u = "emit (EPark ?rest) ((upd_jobs ?rest (\<lambda>x. x\<lparr>j_at := InPark\<rparr>) s)\<lparr>parked := parked s @ ?rest\<rparr>)"
  have t: "st_inv ?t" "st_inv ?u" "st_inv (begin_job g nxt s)"
    using 1(2) by (simp_all add: st_inv_def ws_prims begin_job_def Let_def)
  show ?case
  proof (cases "nxt < length (g_batch (gorh s g)) \<and> j_stale (jobh s ?nj)")
    case True thus ?thesis using 1(1)[of ?nj] 1(3) t(1) by (simp add: finish_next.simps[of g nxt s] Let_def)
  next
    case False
    have "st_inv (endBatch g s)" if "0 \<le> curProcessing (endBatch g s)" using st_inv_endBatch 1(2) that by blast
    moreover have "st_inv (endBatch g ?u)" if "0 \<le> curProcessing (endBatch g ?u)" using st_inv_endBatch t(2) that by blast
    ultimately show ?thesis using False 1(3) t(3) by (auto simp: finish_next.simps[of g nxt s] Let_def split: if_splits)
  qed
qed

lemma cur_nonneg: "ws_inv None B 0 s \<Longrightarrow> 0 \<le> curProcessing s"
  by (simp add: ws_inv_def cur_inv_def sum_nonneg)

lemma st_inv_tick:
  assumes "ws_inv None [] 0 s" "st_inv s" "g \<in> set (gors s) \<or> \<not> g_busy (gorh s g)"
  shows "st_inv (tick_gor dt g s)"
proof (cases "g_busy (gorh s g)")
  case True
  let ?j = "g_batch (gorh s g) ! g_i (gorh s g)"
  define s2 where "s2 = upd_job ?j (\<lambda>x. x\<lparr>j_left := j_left x - dt\<rparr>) (if j_watch (jobh s ?j) \<and> ctx s \<noteq> None \<and> \<not> j_early (jobh s ?j)
    then upd_job ?j (\<lambda>x. x\<lparr>j_early := True, j_left := 0\<rparr>) s else s)"
  have t: "tick_gor dt g s = (if j_left (jobh s2 ?j) \<le> 0 then finishJob g ?j s2 else s2)"
    unfolding tick_gor_def Let_def using True by (simp only: s2_def) simp
  have i: "st_inv s2" using assms(2) by (simp add: s2_def st_inv_def upd_job_def)
  have "st_inv (finishJob g ?j s2)" if "0 \<le> curProcessing (finishJob g ?j s2)"
    using that unfolding finishJob_def Let_def
    by (intro st_inv_finish_next) (use i in \<open>simp_all add: st_inv_def ws_prims\<close>)
  thus ?thesis using cur_nonneg[OF tick_inv[OF assms(1,3), of dt]] i by (auto simp: t)
qed (simp add: tick_gor_def assms)

lemma fold_tick:
  assumes "ws_inv None [] 0 s" "st_inv s" "distinct gs" "set gs \<subseteq> set (gors s)"
  shows "ws_inv None [] 0 (fold (tick_gor dt) gs s) \<and> st_inv (fold (tick_gor dt) gs s) \<and> same_cfg s (fold (tick_gor dt) gs s)"
  using assms
proof (induction gs arbitrary: s)
  case (Cons g gs)
  let ?t = "tick_gor dt g s"
  have k: "keeps_others g s ?t" by (rule keeps_tick)
  have "set gs \<subseteq> set (gors ?t)" using Cons.prems(3,4) k by (auto simp: keeps_others_def)
  moreover have "ws_inv None [] 0 ?t" "st_inv ?t" using Cons.prems by (auto intro!: tick_inv st_inv_tick)
  ultimately show ?case using Cons.IH[of ?t] Cons.prems(3) k by (auto simp: keeps_others_def same_cfg_def)
qed (simp add: same_cfg_def)

section \<open>Goroutines that leave\<close>

lemma exit_fields [simp]:
  "limit (exit_gor g s) = limit s" "status (exit_gor g s) = status s" "queue (exit_gor g s) = queue s"
  "parked (exit_gor g s) = parked s" "gorh (exit_gor g s) = gorh s" "jobh (exit_gor g s) = jobh s"
  "curProcessing (exit_gor g s) = curProcessing s" "restartPending (exit_gor g s) = restartPending s"
  "expiry (exit_gor g s) = expiry s" "nextJob (exit_gor g s) = nextJob s" "ctx (exit_gor g s) = ctx s"
  "userCtx (exit_gor g s) = userCtx s" "now (exit_gor g s) = now s" "expiryClock (exit_gor g s) = expiryClock s"
  "minIdlePct (exit_gor g s) = minIdlePct s" "nextGor (exit_gor g s) = nextGor s" "metrics (exit_gor g s) = metrics s"
  "gors (exit_gor g s) = filter (\<lambda>x. x \<noteq> g) (gors s)" "pool (exit_gor g s) = filter (\<lambda>x. x \<noteq> g) (pool s)"
  by (simp_all add: exit_gor_def emit_def)

lemma busy_filter:
  "(\<And>g. g \<in> set (gors s) \<Longrightarrow> \<not> P g \<Longrightarrow> \<not> g_busy (gorh s g)) \<Longrightarrow> gors t = filter P (gors s) \<Longrightarrow> gorh t = gorh s \<Longrightarrow> busy t = busy s"
  unfolding busy_def by (auto intro!: arg_cong[where f = length] filter_cong)

text \<open>What the removal of idle goroutines keeps: everything but the goroutines, the pool, \<open>idleSince\<close> and the log.\<close>

definition only_exits :: "WorkerSim \<Rightarrow> WorkerSim \<Rightarrow> bool" where
  "only_exits s t \<longleftrightarrow> limit t = limit s \<and> status t = status s \<and> queue t = queue s \<and> parked t = parked s \<and> gorh t = gorh s
     \<and> jobh t = jobh s \<and> curProcessing t = curProcessing s \<and> restartPending t = restartPending s \<and> expiry t = expiry s
     \<and> nextJob t = nextJob s \<and> ctx t = ctx s \<and> userCtx t = userCtx s \<and> now t = now s \<and> minIdlePct t = minIdlePct s
     \<and> set (gors t) \<subseteq> set (gors s) \<and> busy t = busy s"

lemma only_exits_trans: "only_exits s t \<Longrightarrow> only_exits t u \<Longrightarrow> only_exits s u"
  by (auto simp: only_exits_def)

lemma only_exits_refl [simp]: "only_exits s s"
  by (simp add: only_exits_def)

lemma only_exits_exit:
  assumes "ws_inv None [] 0 s" "g \<in> set (pool s)"
  shows "only_exits s (exit_gor g s)"
proof -
  have "busy (exit_gor g s) = busy s"
    by (rule busy_filter[where P = "\<lambda>x. x \<noteq> g"]) (use pool_idle[OF assms] in auto)
  thus ?thesis by (auto simp: only_exits_def)
qed

lemma only_exits_st:
  assumes "only_exits s t" "st_inv s"
  shows "st_inv t"
proof -
  have "gors s = [] \<Longrightarrow> gors t = []" using assms(1) by (simp add: only_exits_def)
  moreover have "status t = status s" "curProcessing t = curProcessing s" "restartPending t = restartPending s"
    using assms(1) by (simp_all add: only_exits_def)
  ultimately show ?thesis using assms(2) by (simp add: st_inv_def)
qed

lemma only_exits_ready: "only_exits s t \<Longrightarrow> ws_ready t = ws_ready s"
  by (simp add: only_exits_def ws_ready_def isActive_def)

lemma fold_exit:
  assumes "ws_inv None [] 0 s" "distinct gs" "set gs \<subseteq> set (pool s)"
  shows "ws_inv None [] 0 (fold exit_gor gs s) \<and> only_exits s (fold exit_gor gs s)
    \<and> gors (fold exit_gor gs s) = filter (\<lambda>x. x \<notin> set gs) (gors s)
    \<and> pool (fold exit_gor gs s) = filter (\<lambda>x. x \<notin> set gs) (pool s)"
  using assms
proof (induction gs arbitrary: s)
  case (Cons g gs)
  have g: "g \<in> set (pool s)" using Cons.prems by simp
  have "set gs \<subseteq> set (pool (exit_gor g s))" using Cons.prems by auto
  note ih = Cons.IH[OF exit_pool[OF Cons.prems(1) g] _ this]
  have "filter (\<lambda>x. x \<notin> set gs) (filter (\<lambda>x. x \<noteq> g) xs) = filter (\<lambda>x. x \<notin> set (g # gs)) xs" for xs
    by (simp add: conj_commute)
  thus ?case using ih Cons.prems(2) only_exits_trans[OF only_exits_exit[OF Cons.prems(1) g]] by simp
qed simp

lemma filter_ne: "g \<notin> set xs \<Longrightarrow> filter (\<lambda>x. x \<noteq> g) xs = xs"
  by (rule filter_True) auto

lemma fold_expire:
  assumes "ws_inv None [] 0 s" "pool s = keep @ ps" "len = int (length (pool s))" "target \<le> len"
    "fold (expire_one target) ps (s, keep, len) = (t, keep', len')"
  shows "ws_inv None [] 0 t \<and> only_exits s t \<and> pool t = keep' \<and> target \<le> int (length keep')"
  using assms
proof (induction ps arbitrary: s keep len)
  case (Cons g ps)
  have d: "distinct (keep @ g # ps)" using Cons.prems(1,2) by (simp add: ws_inv_unfold)
  have g: "g \<in> set (pool s)" using Cons.prems(2) by simp
  let ?idle = "now s - (case idleSince s g of Some t \<Rightarrow> t | None \<Rightarrow> now s)"
  show ?case
  proof (cases "target < len \<and> expiry s < ?idle")
    case True
    have p: "pool (exit_gor g s) = keep @ ps" using d Cons.prems(2) by (simp add: filter_ne)
    have e: "expire_one target g (s, keep, len) = (exit_gor g s, keep, len - 1)" using True by (simp add: expire_one_def)
    have "ws_inv None [] 0 t \<and> only_exits (exit_gor g s) t \<and> pool t = keep' \<and> target \<le> int (length keep')"
      by (rule Cons.IH[OF exit_pool[OF Cons.prems(1) g] p]) (use True p Cons.prems e in auto)
    thus ?thesis using only_exits_trans[OF only_exits_exit[OF Cons.prems(1) g]] by blast
  next
    case False
    have e: "expire_one target g (s, keep, len) = (s, keep @ [g], len)"
      unfolding expire_one_def Let_def prod.case using False by (simp only: if_False)
    show ?thesis by (rule Cons.IH[of s "keep @ [g]" len]) (use Cons.prems e in auto)
  qed
qed simp

lemma expire_inv:
  assumes "ws_inv None [] 0 s"
  shows "ws_inv None [] 0 (ws_expire dt s) \<and> only_exits s (ws_expire dt s)
    \<and> min (int (length (pool s))) (minIdle s) \<le> int (length (pool (ws_expire dt s)))"
proof -
  define s1 where "s1 = s\<lparr>expiryClock := expiryClock s + dt\<rparr>"
  define s2 where "s2 = s1\<lparr>expiryClock := 0\<rparr>"
  have i: "ws_inv None [] 0 s1" "ws_inv None [] 0 s2" using assms by (simp_all add: s1_def s2_def)
  have o: "only_exits s s1" "only_exits s s2" by (simp_all add: only_exits_def s1_def s2_def busy_def)
  have m: "minIdle s2 = minIdle s" "pool s2 = pool s" "pool s1 = pool s" by (simp_all add: minIdle_def s2_def s1_def)
  obtain s3 keep len where f: "fold (expire_one (minIdle s2)) (pool s2) (s2, [], int (length (pool s2))) = (s3, keep, len)"
    by (metis prod.exhaust)
  have e: "ws_expire dt s = (if expiryClock s1 < expiry s1 then s1 else if int (length (pool s2)) \<le> minIdle s2 then s2 else s3\<lparr>pool := keep\<rparr>)"
    unfolding ws_expire_def Let_def s1_def[symmetric] s2_def[symmetric] f by simp
  have "ws_inv None [] 0 s3 \<and> only_exits s2 s3 \<and> pool s3 = keep \<and> minIdle s2 \<le> int (length keep)" if "\<not> int (length (pool s2)) \<le> minIdle s2"
    by (rule fold_expire[OF i(2) _ _ _ f]) (use that in auto)
  moreover have "s3\<lparr>pool := keep\<rparr> = s3" if "pool s3 = keep" using that by simp
  ultimately show ?thesis using e i o m only_exits_trans[OF o(2), of s3] by auto
qed

lemma shrink_inv:
  assumes "ws_inv None [] 0 s"
  shows "ws_inv None [] 0 (shrink_pool n mn s) \<and> only_exits s (shrink_pool n mn s)"
  using assms
proof (induction n mn s rule: shrink_pool.induct)
  case (2 n mn s)
  show ?case
  proof (cases "int (length (pool s)) = mn \<or> pool s = []")
    case False
    let ?g = "last (pool s)"
    have g: "?g \<in> set (pool s)" using False by simp
    have p: "pool s = butlast (pool s) @ [?g]" using False by simp
    have "distinct (pool s)" using 2(2) by (simp add: ws_inv_unfold)
    hence "?g \<notin> set (butlast (pool s))" using p by (metis distinct_append disjoint_insert(1) list.simps(15))
    hence "filter (\<lambda>x. x \<noteq> ?g) (butlast (pool s)) = filter (\<lambda>x. x \<noteq> ?g) (pool s)" by (subst (3) p) simp
    hence e: "exit_gor ?g (s\<lparr>pool := butlast (pool s)\<rparr>) = exit_gor ?g s" by (simp add: exit_gor_def emit_def)
    have "ws_inv None [] 0 (shrink_pool n mn (exit_gor ?g s)) \<and> only_exits (exit_gor ?g s) (shrink_pool n mn (exit_gor ?g s))"
      using 2(1)[OF False] exit_pool[OF 2(2) g] e by simp
    thus ?thesis using False e only_exits_trans[OF only_exits_exit[OF 2(2) g]] by simp
  qed (simp add: 2)
qed simp

section \<open>Dispatch\<close>

lemma take_gor_inv:
  assumes "ws_inv None [] 0 s" "take_gor s = (g, s')"
  shows "ws_inv (Some g) [] 0 s'" "status s' = status s" "limit s' = limit s" "queue s' = queue s" "parked s' = parked s"
    "curProcessing s' = curProcessing s" "restartPending s' = restartPending s" "set (gors s') = insert g (set (gors s))"
    "\<And>h. h \<in> set (gors s) \<Longrightarrow> gorh s' h = gorh s h" "\<not> g_busy (gorh s' g)" "jobh s' = jobh s" "expiry s' = expiry s"
    "nextJob s' = nextJob s" "ctx s' = ctx s" "userCtx s' = userCtx s" "g_batch (gorh s' g) = []"
proof -
  have "ws_inv (Some g) [] 0 s' \<and> status s' = status s \<and> limit s' = limit s \<and> queue s' = queue s \<and> parked s' = parked s
    \<and> curProcessing s' = curProcessing s \<and> restartPending s' = restartPending s \<and> set (gors s') = insert g (set (gors s))
    \<and> (\<forall>h\<in>set (gors s). gorh s' h = gorh s h) \<and> \<not> g_busy (gorh s' g) \<and> jobh s' = jobh s \<and> expiry s' = expiry s
    \<and> nextJob s' = nextJob s \<and> ctx s' = ctx s \<and> userCtx s' = userCtx s \<and> g_batch (gorh s' g) = []"
  proof (cases "pool s = []")
    case True
    hence "spawn s = (g, s')" using assms(2) by (simp add: take_gor_def)
    from spawn_transit[OF assms(1) this] show ?thesis by simp
  next
    case False
    hence s': "s' = s\<lparr>pool := butlast (pool s)\<rparr>" "g = last (pool s)" using assms(2) by (auto simp: take_gor_def)
    have gp: "g \<in> set (pool s)" using False s' by simp
    have "filter (\<lambda>x. x \<noteq> g) (pool s) = butlast (pool s)"
    proof -
      have p: "pool s = butlast (pool s) @ [g]" using False s' by simp
      have "distinct (pool s)" using assms(1) by (simp add: ws_inv_unfold)
      hence "g \<notin> set (butlast (pool s))" using p by (metis distinct_append disjoint_insert(1) list.simps(15))
      thus ?thesis by (subst p) (simp add: filter_ne)
    qed
    thus ?thesis using leave_pool[OF assms(1) gp] pool_idle[OF assms(1) gp] s' by auto
  qed
  thus "ws_inv (Some g) [] 0 s'" "status s' = status s" "limit s' = limit s" "queue s' = queue s" "parked s' = parked s"
    "curProcessing s' = curProcessing s" "restartPending s' = restartPending s" "set (gors s') = insert g (set (gors s))"
    "\<And>h. h \<in> set (gors s) \<Longrightarrow> gorh s' h = gorh s h" "\<not> g_busy (gorh s' g)" "jobh s' = jobh s" "expiry s' = expiry s"
    "nextJob s' = nextJob s" "ctx s' = ctx s" "userCtx s' = userCtx s" "g_batch (gorh s' g) = []" by simp_all
qed

lemma give_batch_inv:
  assumes "ws_inv (Some g) buf 0 s" "buf \<noteq> []" "length buf \<le> MAX_BATCH_SIM" "\<forall>j\<in>set buf. \<not> j_stale (jobh s j)"
  shows "ws_inv None [] 0 (give_batch g buf s)"
proof -
  define s1 where "s1 = upd_gor g (\<lambda>x. x\<lparr>g_busy := True, g_batch := buf, g_i := 0\<rparr>) s"
  define s2 where "s2 = s1\<lparr>curProcessing := curProcessing s1 + int (length buf)\<rparr>"
  define s3 where "s3 = (if status s2 = Idle then setStatus Running s2 else s2)"
  define s4 where "s4 = upd_jobs buf (\<lambda>x. x\<lparr>j_at := InBatch\<rparr>) s3"
  have 1: "ws_inv (Some g) buf 0 s1" unfolding s1_def by (rule upd_transit[OF assms(1)]) simp
  have 2: "ws_inv (Some g) buf (int (length buf)) s2" using add_cur[OF 1, of "int (length buf)"] by (simp add: s2_def)
  have 3: "ws_inv (Some g) buf (int (length buf)) s3" using 2 by (simp add: s3_def)
  have h: "jobh s4 j = (if j \<in> set buf then (jobh s3 j)\<lparr>j_at := InBatch\<rparr> else jobh s3 j)" for j
    unfolding s4_def by (rule jobh_upd_jobs) simp
  have "ws_inv (Some g) buf (int (length buf)) (s3\<lparr>jobh := jobh s4\<rparr>)"
    by (rule hand_update[OF 3]) (simp_all add: h)
  moreover have "ws_inv (Some g) buf (int (length buf)) (s3\<lparr>jobh := jobh s4\<rparr>) = ws_inv (Some g) buf (int (length buf)) s4"
    by (rule ws_inv_cong) (simp_all add: s4_def)
  ultimately have 4: "ws_inv (Some g) (drop 0 buf) (int (length buf)) s4" by simp
  have g4: "g_batch (gorh s4 g) = buf" "g_busy (gorh s4 g)"
    by (simp_all add: s4_def s3_def s2_def s1_def ws_prims)
  have "jobh s3 = jobh s" by (simp add: s3_def s2_def s1_def ws_prims)
  hence ns: "\<not> j_stale (jobh s4 (buf ! 0))" using assms(2,4) h by simp
  have "give_batch g buf s = begin_job g 0 s4"
    unfolding give_batch_def Let_def s4_def s3_def s2_def s1_def by (rule refl)
  thus ?thesis using begin_inv[OF 4 g4 _ assms(3) ns] assms(2) by simp
qed

lemma give_batch_fields:
  "limit (give_batch g buf s) = limit s" "gors (give_batch g buf s) = gors s" "expiry (give_batch g buf s) = expiry s"
  "restartPending (give_batch g buf s) = restartPending s" "curProcessing (give_batch g buf s) = curProcessing s + int (length buf)"
  "status (give_batch g buf s) = (if status s = Idle then Running else status s)" "nextJob (give_batch g buf s) = nextJob s"
  "g_busy (gorh (give_batch g buf s) h) = (h = g \<or> g_busy (gorh s h))"
  "ctx (give_batch g buf s) = ctx s" "userCtx (give_batch g buf s) = userCtx s"
  by (simp_all add: give_batch_def begin_job_def ws_prims Let_def)

lemma hand_k_bounds: "ws_ready s \<Longrightarrow> 1 \<le> hand_k s \<and> hand_k s \<le> MAX_BATCH_SIM \<and> hand_k s \<le> length (queue s) + length (parked s)"
  unfolding ws_ready_def hand_k_def MAX_BATCH_SIM_def by (simp only: split: if_split) linarith

lemma busy_card: "gor_inv X s \<Longrightarrow> busy s = card {g\<in>set (gors s). g_busy (gorh s g)}"
  unfolding gor_inv_def busy_def by (metis set_filter distinct_card distinct_filter)

lemma hand_off_inv:
  assumes inv: "ws_inv None [] 0 s" and r: "ws_ready s"
  obtains s' where "hand_off s = (s', True)" "ws_inv None [] 0 s'" "limit s' = limit s" "busy s' = Suc (busy s)"
    "restartPending s' = restartPending s" "status s' = Running" "curProcessing s' = curProcessing s + int (hand_k s)" "expiry s' = expiry s"
    "parked s' = drop (hand_k s) (parked s)" "queue s' = drop (hand_k s - length (parked s)) (queue s)"
    "nextJob s' = nextJob s" "ctx s' = ctx s" "userCtx s' = userCtx s"
proof -
  let ?k = "hand_k s"
  obtain g s1 where tg: "take_gor s = (g, s1)" by (metis prod.exhaust)
  note a = take_gor_inv[OF inv tg]
  obtain buf s2 where tj: "take_jobs ?k s1 = (buf, s2)" by (metis prod.exhaust)
  note b = take_jobs_inv[OF a(1) tj]
  have bs: "buf = take ?k (parked s) @ take (?k - length (parked s)) (queue s)"
    and s2: "s2 = s1\<lparr>parked := drop ?k (parked s), queue := drop (?k - length (parked s)) (queue s)\<rparr>"
    using tj take_jobs_eq[OF a(1), of ?k] a by simp_all
  have lb: "length buf = ?k" using hand_k_bounds[OF r] by (auto simp: bs)
  have ne: "buf \<noteq> []" using lb hand_k_bounds[OF r] by auto
  let ?t = "give_batch g buf s2"
  have i: "ws_inv None [] 0 ?t"
    by (rule give_batch_inv) (use b ne lb hand_k_bounds[OF r] in \<open>simp_all\<close>)
  have bz: "busy ?t = Suc (busy s)"
  proof -
    have "gor_inv None ?t" "gor_inv None s" using i inv by (simp_all add: ws_inv_def)
    moreover have "{h\<in>set (gors ?t). g_busy (gorh ?t h)} = insert g {h\<in>set (gors s). g_busy (gorh s h)}"
      using a by (auto simp: give_batch_fields s2)
    moreover have "g \<notin> {h\<in>set (gors s). g_busy (gorh s h)}" using a(9)[of g] a(10) by auto
    ultimately show ?thesis by (simp add: busy_card)
  qed
  have st: "status ?t = Running" using r a(2) by (auto simp: give_batch_fields s2 ws_ready_def isActive_def)
  show thesis
    by (rule that[of ?t]) (use i bz st ne lb a in \<open>simp_all add: hand_off_def tg tj give_batch_fields s2\<close>)
qed

lemma ready_not_pending: "st_inv s \<Longrightarrow> ws_ready s \<Longrightarrow> \<not> restartPending s"
  by (cases "status s") (simp_all add: st_inv_def ws_ready_def isActive_def)

text \<open>
  What \<open>dispatch\<close> does: it keeps the invariant, never takes the count of busy goroutines over the limit, and
  returns with no goroutine free while a job waits.
\<close>

lemma dispatch_inv:
  assumes "ws_inv None [] 0 s" "st_inv s"
  shows "ws_inv None [] 0 (ws_dispatch s) \<and> st_inv (ws_dispatch s) \<and> \<not> ws_ready (ws_dispatch s)
    \<and> limit (ws_dispatch s) = limit s \<and> int (busy (ws_dispatch s)) \<le> max (int (busy s)) (limit s)
    \<and> restartPending (ws_dispatch s) = restartPending s \<and> expiry (ws_dispatch s) = expiry s
    \<and> nextJob (ws_dispatch s) = nextJob s \<and> ctx (ws_dispatch s) = ctx s \<and> userCtx (ws_dispatch s) = userCtx s"
  using assms
proof (induction s rule: ws_dispatch.induct)
  case (1 s)
  show ?case
  proof (cases "ws_ready s")
    case True
    obtain s' where h: "hand_off s = (s', True)" "ws_inv None [] 0 s'" "limit s' = limit s" "busy s' = Suc (busy s)"
      "restartPending s' = restartPending s" "status s' = Running" "curProcessing s' = curProcessing s + int (hand_k s)" "expiry s' = expiry s"
      "nextJob s' = nextJob s" "ctx s' = ctx s" "userCtx s' = userCtx s"
      using hand_off_inv[OF 1(2) True] by metis
    have "0 < curProcessing s'" using hand_k_bounds[OF True] h(7) cur_nonneg[OF 1(2)] by simp
    moreover have "\<not> restartPending s" by (rule ready_not_pending[OF 1(3) True])
    ultimately have "st_inv s'" using h by (simp add: st_inv_def)
    hence "ws_inv None [] 0 (ws_dispatch s') \<and> st_inv (ws_dispatch s') \<and> \<not> ws_ready (ws_dispatch s')
      \<and> limit (ws_dispatch s') = limit s' \<and> int (busy (ws_dispatch s')) \<le> max (int (busy s')) (limit s')
      \<and> restartPending (ws_dispatch s') = restartPending s' \<and> expiry (ws_dispatch s') = expiry s'
      \<and> nextJob (ws_dispatch s') = nextJob s' \<and> ctx (ws_dispatch s') = ctx s' \<and> userCtx (ws_dispatch s') = userCtx s'"
      using 1(1)[OF True h(1)[symmetric] refl] h(2) by simp
    moreover have "ws_dispatch s = ws_dispatch s'" using True h(1) by (simp add: ws_dispatch.simps[of s])
    moreover have "int (busy s') \<le> limit s" using True h(4) by (simp add: ws_ready_def)
    ultimately show ?thesis using h by auto
  next
    case False thus ?thesis using 1 by (simp add: ws_dispatch.simps[of s])
  qed
qed

end
