(* ===== verification/Worker_Sim_Runs.thy ===== *)
theory Worker_Sim_Runs
  imports Worker_Sim_Inv
begin

text \<open>
  Runs of \<open>WorkerSim\<close>: the public calls and the clock as one step relation, the invariant of every reachable
  state, and what follows for a scene that drives the model.
\<close>

section \<open>The calls keep the invariant\<close>

definition ws_good :: "WorkerSim \<Rightarrow> bool" where
  "ws_good s \<longleftrightarrow> ws_inv None [] 0 s \<and> st_inv s \<and> \<not> ws_ready s"

lemma ws_goodD: "ws_good s \<Longrightarrow> ws_inv None [] 0 s" "ws_good s \<Longrightarrow> st_inv s" "ws_good s \<Longrightarrow> \<not> ws_ready s"
  by (simp_all add: ws_good_def)

lemma dispatch_good: "ws_inv None [] 0 s \<Longrightarrow> st_inv s \<Longrightarrow> ws_good (ws_dispatch s)"
  using dispatch_inv by (simp add: ws_good_def)

lemma inactive_good: "ws_inv None [] 0 s \<Longrightarrow> st_inv s \<Longrightarrow> \<not> isActive s \<Longrightarrow> ws_good s"
  by (simp add: ws_good_def ws_ready_def)

lemma new_job_inv:
  assumes "ws_inv None [] 0 s" "j = nextJob s" "j_state job = JQueued" "j_at job = InQueue" "\<not> j_stale job"
    "queue t = queue s @ [j]" "jobh t = (jobh s)(j := job)" "nextJob t = Suc j" "parked t = parked s" "gors t = gors s"
    "pool t = pool s" "gorh t = gorh s" "nextGor t = nextGor s" "curProcessing t = curProcessing s" "idleSince t = idleSince s"
    "completed (metrics t) = completed (metrics s)" "successful (metrics t) = successful (metrics s)" "failed (metrics t) = failed (metrics s)"
  shows "ws_inv None [] 0 t"
proof -
  have ji: "job_inv None [] s" using assms(1) by (simp add: ws_inv_def)
  have o: "open_jobs t = insert j (open_jobs s)" "j \<notin> open_jobs s"
    using ji assms(2,3,7,8) by (auto simp: open_jobs_def open_state_def job_inv_def)
  have nj: "x \<noteq> j" if "x \<in># live None [] s" for x using that live_open[OF ji] o(2) by blast
  have parts: "x \<noteq> j" if "x \<in> set (queue s) \<or> x \<in> set (parked s) \<or> (\<exists>g\<in>set (gors s). x \<in> set (taken_of None s g))" for x
    by (rule nj) (use that in \<open>auto simp: live_def set_mset_sum\<close>)
  have "live None [] t = add_mset j (live None [] s)" by (simp add: live_def assms taken_cong[of t s])
  hence "live None [] t = mset_set (open_jobs t)" using ji o by (simp add: job_inv_def)
  moreover have "gor_ok t g" if g: "g \<in> set (gors s)" for g
  proof -
    have "gor_ok s g" using ji g by (simp add: job_inv_def)
    thus ?thesis by (rule gor_ok_cong[of _ _ _ None, rotated 2]) (use assms(7,12) parts g in auto)
  qed
  moreover have "\<forall>x\<in>set (queue t). waits_at InQueue (jobh t x)" "\<forall>x\<in>set (parked t). waits_at InPark (jobh t x)"
    using ji parts assms(3-9) by (auto simp: job_inv_def waits_at_def)
  ultimately show ?thesis using assms(1) held_cong[of t s]
    by (simp add: ws_inv_unfold assms rest_ok_def)
qed

lemma add_good: "ws_good s \<Longrightarrow> ws_good (fst (ws_add opts s))"
proof -
  assume g: "ws_good s"
  have "ws_inv None [] 0 s" using g by (rule ws_goodD)
  hence "ws_inv None [] 0 (emit (EAdd (nextJob s)) (s\<lparr>nextJob := nextJob s + 1, jobh := (jobh s)(nextJob s := job), queue := queue s @ [nextJob s],
      metrics := (metrics s)\<lparr>submitted := submitted (metrics s) + 1\<rparr>\<rparr>))"
    if "j_state job = JQueued" "j_at job = InQueue" "\<not> j_stale job" for job
    by (rule new_job_inv[OF _ refl that]) (simp_all add: emit_def)
  moreover have "st_inv (emit e (s\<lparr>nextJob := a, jobh := b, queue := c, metrics := d\<rparr>))" for e a b c d
    using ws_goodD(2)[OF g] by (simp add: st_inv_def emit_def)
  ultimately show ?thesis unfolding ws_add_def Let_def fst_conv by (intro dispatch_good) simp_all
qed

lemma start_good:
  assumes "ws_inv None [] 0 s" "st_inv s" "status s = Initiated \<or> status s = Stopped"
  shows "ws_good (fst (ws_start s))"
proof -
  obtain g s2 where sp: "spawn (s\<lparr>ctx := userCtx s\<rparr>) = (g, s2)" by (metis prod.exhaust)
  have i: "ws_inv None [] 0 (s\<lparr>ctx := userCtx s\<rparr>)" using assms(1) by simp
  note t = spawn_transit[OF i sp]
  have inv: "ws_inv None [] 0 (setStatus Idle (s2\<lparr>pool := pool s2 @ [g]\<rparr>))"
    using join_pool[OF t(1-4)] by simp
  have "st_inv (setStatus Idle (s2\<lparr>pool := pool s2 @ [g]\<rparr>))"
    using assms(2,3) t by (auto simp: st_inv_def setStatus_eq)
  moreover have "fst (ws_start s) = ws_dispatch (setStatus Idle (s2\<lparr>pool := pool s2 @ [g]\<rparr>))"
    using assms(3) sp by (auto simp: ws_start_def isActive_def Let_def)
  ultimately show ?thesis using dispatch_good[OF inv] by simp
qed

lemma start_call: "ws_good s \<Longrightarrow> ws_good (fst (ws_start s))"
  using start_good ws_goodD by (cases "status s = Initiated \<or> status s = Stopped") (auto simp: ws_start_def)

lemma st_stopping: "st_inv (setStatus Stopping s)"
  by (simp add: st_inv_def setStatus_eq)

lemma stop_good: "ws_good s \<Longrightarrow> ws_good (fst (ws_stop s))"
proof (cases "status s = Stopped \<or> status s = Stopping \<or> status s = Initiated")
  case False
  assume g: "ws_good s"
  have "ws_good (setStatus Stopping (s\<lparr>ctx := c\<rparr>))" for c
    by (rule inactive_good) (use ws_goodD(1)[OF g] st_stopping in \<open>auto simp: isActive_def\<close>, simp add: setStatus_eq)+
  thus ?thesis using False by (simp add: ws_stop_def)
qed (auto simp: ws_stop_def)

lemma pause_good: "ws_good s \<Longrightarrow> ws_good (fst (ws_pause s))"
proof -
  assume g: "ws_good s"
  note i = ws_goodD[OF g]
  have "st_inv (setStatus Paused s) \<and> \<not> isActive (setStatus Paused s)" if "status s = Idle"
    using that i(2) by (auto simp: isActive_def st_inv_def setStatus_eq)
  hence "ws_good (setStatus Paused s)" if "status s = Idle" using that i(1) by (simp add: inactive_good)
  moreover have "st_inv (setStatus Pausing s) \<and> \<not> isActive (setStatus Pausing s) \<and> curProcessing (setStatus Pausing s) \<noteq> 0"
    if "status s = Running"
    using that i(2) by (auto simp: isActive_def st_inv_def setStatus_eq)
  hence "ws_good (setStatus Pausing s) \<and> curProcessing (setStatus Pausing s) \<noteq> 0" if "status s = Running"
    using that i(1) by (simp add: inactive_good)
  ultimately show ?thesis using g by (auto simp: ws_pause_def Let_def)
qed

lemma resume_good: "ws_good s \<Longrightarrow> ws_good (fst (ws_resume s))"
proof -
  assume g: "ws_good s"
  note i = ws_goodD[OF g]
  have "st_inv (setStatus Idle s)" if "status s = Paused" using that i by (auto simp: st_inv_def setStatus_eq)
  thus ?thesis using g i(1) by (auto simp: ws_resume_def intro!: dispatch_good)
qed

lemma restart_good: "ws_good s \<Longrightarrow> ws_good (fst (ws_restart s))"
proof -
  assume g: "ws_good s"
  consider "status s = Initiated" | "status s = Stopped" | "status s \<noteq> Initiated" "status s \<noteq> Stopped" by blast
  thus ?thesis
  proof cases
    case 3
    let ?t = "fst (ws_stop s)"
    have st: "status ?t = Stopping" using 3 by (simp add: ws_stop_def setStatus_eq)
    have "ws_inv None [] 0 ?t" "st_inv ?t" using ws_goodD stop_good[OF g] by blast+
    hence "ws_good (?t\<lparr>restartPending := True\<rparr>)"
      by (intro inactive_good) (auto simp: st_inv_def st isActive_def)
    thus ?thesis using 3 by (simp add: ws_restart_def)
  qed (use g start_call in \<open>auto simp: ws_restart_def\<close>)
qed

lemma tunePool_good: "ws_good s \<Longrightarrow> ws_good (fst (ws_tunePool n s))"
proof -
  assume g: "ws_good s"
  let ?s1 = "s\<lparr>limit := n\<rparr>"
  have i: "ws_inv None [] 0 ?s1" "st_inv ?s1" using ws_goodD[OF g] by (simp_all add: st_inv_def)
  have nr: "\<not> ws_ready ?s1" if "n \<le> limit s"
    using that ws_goodD(3)[OF g] by (auto simp: ws_ready_def isActive_def busy_def)
  have "ws_good (shrink_pool k mn ?s1)" if "n \<le> limit s" for k mn
    using shrink_inv[OF i(1), of k mn] only_exits_st[OF _ i(2)] only_exits_ready nr[OF that] by (auto simp: ws_good_def)
  thus ?thesis using g i nr dispatch_good[OF i] by (auto simp: ws_tunePool_def ws_good_def Let_def)
qed

lemma drop_all:
  "ws_inv X B off s \<Longrightarrow> ws_inv X [] off (upd_jobs B (\<lambda>x. x\<lparr>j_state := JClosed\<rparr>) s)"
proof (induction B arbitrary: s)
  case (Cons j B)
  have "ws_inv X B off (upd_job j (\<lambda>x. x\<lparr>j_state := JClosed\<rparr>) s)"
    using drop_hand[OF Cons.prems, of "\<lambda>x. x\<lparr>j_state := JClosed\<rparr>"] by (simp add: open_state_def)
  thus ?case using Cons.IH by (simp add: upd_jobs_def)
qed (simp add: upd_jobs_def)

lemma close_waiting:
  assumes "ws_inv None [] 0 s"
  shows "ws_inv None [] 0 ((upd_jobs (queue s @ parked s) (\<lambda>x. x\<lparr>j_state := JClosed\<rparr>) s)\<lparr>queue := [], parked := []\<rparr>)" (is "ws_inv _ _ _ ?u")
proof -
  let ?f = "\<lambda>x. x\<lparr>j_state := JClosed\<rparr>" and ?k = "length (parked s) + length (queue s)"
  have tj: "take_jobs ?k s = (parked s @ queue s, s\<lparr>parked := [], queue := []\<rparr>)"
    using take_jobs_eq[OF assms, of ?k] by simp
  have "ws_inv None [] 0 (upd_jobs (parked s @ queue s) ?f (s\<lparr>parked := [], queue := []\<rparr>))"
    by (rule drop_all) (rule take_jobs_inv(1)[OF assms tj])
  moreover have "jobh (upd_jobs (parked s @ queue s) ?f (s\<lparr>parked := [], queue := []\<rparr>)) = jobh ?u"
    by (auto simp: fun_eq_iff jobh_upd_jobs)
  ultimately show ?thesis by (subst ws_inv_cong[of _ "upd_jobs (parked s @ queue s) ?f (s\<lparr>parked := [], queue := []\<rparr>)"]) simp_all
qed

lemma drop_taken: "j \<in> set (drop (Suc (g_i (gorh s g))) (g_batch (gorh s g))) \<Longrightarrow> j \<in> set (taken_of None s g)"
  using set_drop_subset_set_drop[of "g_i (gorh s g)" "Suc (g_i (gorh s g))" "g_batch (gorh s g)"] by (auto simp: taken_of_def)

lemma mark_stale:
  assumes "ws_inv None [] 0 s"
  shows "ws_inv None [] 0 (upd_jobs (concat (map (\<lambda>g. unstarted (gorh s g)) (gors s))) (\<lambda>x. x\<lparr>j_stale := True\<rparr>) s)"
    (is "ws_inv _ _ _ (upd_jobs ?l ?f s)")
proof -
  let ?t = "upd_jobs ?l ?f s"
  have h: "jobh ?t j = (if j \<in> set ?l then ?f (jobh s j) else jobh s j)" for j by (rule jobh_upd_jobs) simp
  have ji: "job_inv None [] s" using assms by (simp add: ws_inv_def)
  have sub: "\<exists>g\<in>set (gors s). j \<in> set (taken_of None s g)" if j: "j \<in> set ?l" for j
  proof -
    obtain g where g: "g \<in> set (gors s)" "j \<in> set (unstarted (gorh s g))" using j by auto
    hence "j \<in> set (drop (Suc (g_i (gorh s g))) (g_batch (gorh s g)))" by (simp add: unstarted_def split: if_splits)
    hence "j \<in> set (taken_of None s g)" by (rule drop_taken)
    thus ?thesis using g by blast
  qed
  have qp: "jobh ?t j = jobh s j" if "j \<in> set (queue s) \<or> j \<in> set (parked s)" for j
    using that sub held_apart(1,2)[OF ji] h by metis
  have gk: "gor_ok ?t g" if g: "g \<in> set (gors s)" for g
  proof (cases "g_busy (gorh s g)")
    case True
    let ?b = "g_batch (gorh s g)" and ?i = "g_i (gorh s g)"
    note r = running_job[OF assms g True]
    have tk: "taken_of None s g = ?b ! ?i # drop (Suc ?i) ?b" using r(1) by (simp add: taken_of_def Cons_nth_drop_Suc)
    have j: "?b ! ?i \<notin> set ?l"
    proof
      assume "?b ! ?i \<in> set ?l"
      then obtain h where hh: "h \<in> set (gors s)" "?b ! ?i \<in> set (unstarted (gorh s h))" by auto
      hence "?b ! ?i \<in> set (drop (Suc (g_i (gorh s h))) (g_batch (gorh s h)))" by (simp add: unstarted_def split: if_splits)
      moreover have "?b ! ?i \<in> set (taken_of None s h)" using calculation by (rule drop_taken)
      ultimately have "h = g" "?b ! ?i \<in> set (drop (Suc ?i) ?b)" using held_apart(4)[OF ji g, of "?b ! ?i" h] hh(1) tk by auto
      thus False using held_apart(5)[OF ji g, of "?b ! ?i"] tk by simp
    qed
    have "set (drop (Suc ?i) ?b) \<subseteq> set ?l" using True g by (auto simp: unstarted_def)
    hence "rest_ok (jobh ?t) (drop (Suc ?i) ?b)" using r(4) h by (auto simp: rest_ok_def)
    thus ?thesis using True r j h by (simp add: gor_ok_def)
  next
    case False
    have "gor_ok s g" using ji g by (simp add: job_inv_def)
    thus ?thesis using False by (simp add: gor_ok_def)
  qed
  have "open_jobs ?t = open_jobs s" using h by (auto simp: open_jobs_def)
  thus ?thesis using assms qp gk taken_cong[of ?t s None] held_cong[of ?t s None]
    by (simp add: ws_inv_unfold live_def rest_ok_def)
qed

lemma purge_good: "ws_good s \<Longrightarrow> ws_good (fst (ws_purge s))"
proof -
  assume g: "ws_good s"
  let ?u = "(upd_jobs (queue s @ parked s) (\<lambda>x. x\<lparr>j_state := JClosed\<rparr>) s)\<lparr>queue := [], parked := []\<rparr>"
  let ?v = "upd_jobs (concat (map (\<lambda>g. unstarted (gorh ?u g)) (gors ?u))) (\<lambda>x. x\<lparr>j_stale := True\<rparr>) ?u"
  have i: "ws_inv None [] 0 ?v" by (rule mark_stale, rule close_waiting, rule ws_goodD[OF g])
  have st: "st_inv ?v" using ws_goodD(2)[OF g] by (simp add: st_inv_def)
  have nr: "\<not> ws_ready ?v" by (simp add: ws_ready_def)
  have em: "st_inv (emit e ?v) = st_inv ?v" "ws_ready (emit e ?v) = ws_ready ?v" for e
    by (simp_all add: st_inv_def ws_ready_def emit_def isActive_def busy_def)
  have "ws_good ?v" "ws_good (emit e ?v)" for e using i st nr em by (simp_all add: ws_good_def)
  moreover have "fst (ws_purge s) = (if queue s @ parked s \<noteq> [] then emit (EClose (queue s @ parked s)) ?v else ?v)"
    unfolding ws_purge_def Let_def fst_conv by (rule refl)
  ultimately show ?thesis by presburger
qed

section \<open>The clock keeps the invariant\<close>

text \<open>With no job taken, every goroutine is in the pool, so all of them leave.\<close>

lemma all_leave:
  assumes "ws_inv None [] 0 s" "curProcessing s = 0"
  shows "gors (fold exit_gor (pool s) s) = []"
proof -
  have d: "distinct (pool s)" using assms(1) by (simp add: ws_inv_unfold)
  have "g \<in> set (pool s)" if g: "g \<in> set (gors s)" for g
  proof -
    have "(\<Sum>g\<in>set (gors s). held_of None s g) = 0" using assms by (simp add: ws_inv_unfold flip: of_nat_sum)
    hence "g_batch (gorh s g) = []" using g by (simp add: held_of_def)
    moreover have "gor_ok s g" using assms(1) g by (simp add: ws_inv_unfold)
    ultimately have "\<not> g_busy (gorh s g)" by (auto simp: gor_ok_def)
    thus ?thesis using assms(1) g by (simp add: ws_inv_unfold)
  qed
  thus ?thesis using fold_exit[OF assms(1) d subset_refl] by (simp add: filter_empty_conv)
qed

lemma finish_stop_inv:
  assumes "ws_inv None [] 0 s" "st_inv s"
  shows "ws_inv None [] 0 (finish_stop s) \<and> st_inv (finish_stop s)"
proof (cases "status s = Stopping \<and> curProcessing s = 0")
  case True
  let ?s1 = "fold exit_gor (pool s) s"
  let ?s2 = "setStatus Stopped (?s1\<lparr>pool := []\<rparr>)"
  have d: "distinct (pool s)" using assms(1) by (simp add: ws_inv_unfold)
  note f = fold_exit[OF assms(1) d subset_refl]
  have g0: "gors ?s1 = []" by (rule all_leave[OF assms(1)]) (use True in simp)
  have p0: "pool ?s1 = []" using f by (simp add: filter_empty_conv)
  hence "?s1\<lparr>pool := []\<rparr> = ?s1" by (metis WorkerSim.surjective WorkerSim.update_convs(9))
  hence "ws_inv None [] 0 (?s1\<lparr>pool := []\<rparr>)" using f by metis
  hence i: "ws_inv None [] 0 (?s2\<lparr>restartPending := b\<rparr>)" for b by simp
  have c: "curProcessing ?s1 = 0" "restartPending ?s1 = restartPending s" using f True by (simp_all add: only_exits_def)
  have st: "st_inv (?s2\<lparr>restartPending := False\<rparr>)" using g0 c by (simp add: st_inv_def setStatus_eq)
  have "status (?s2\<lparr>restartPending := False\<rparr>) = Stopped" by (simp add: setStatus_eq)
  hence "ws_good (fst (ws_start (?s2\<lparr>restartPending := False\<rparr>)))" using start_good[OF i st] by blast
  moreover have "ws_inv None [] 0 ?s2" using i[of "restartPending ?s2"] by simp
  moreover have "st_inv ?s2" if "\<not> restartPending ?s2" using g0 c that by (simp add: st_inv_def setStatus_eq)
  ultimately show ?thesis using True by (auto simp: finish_stop_def ws_good_def Let_def)
next
  case False thus ?thesis using assms by (simp only: finish_stop_def if_False)
qed

lemma step_good:
  assumes "ws_good s"
  shows "ws_good (ws_step dt s)"
proof -
  note i = ws_goodD[OF assms]
  define s1 where "s1 = notice_done (s\<lparr>now := now s + dt\<rparr>)"
  have st0: "st_inv (s\<lparr>now := now s + dt\<rparr>)" using i(2) by (simp add: st_inv_def)
  have 1: "ws_inv None [] 0 s1" "st_inv s1"
    using i(1) st0 st_stopping unfolding s1_def notice_done_def by simp_all
  have d: "distinct (gors s1)" using 1(1) by (simp add: ws_inv_unfold)
  define s2 where "s2 = finish_stop (fold (tick_gor dt) (gors s1) s1)"
  have 2: "ws_inv None [] 0 s2" "st_inv s2"
    unfolding s2_def using fold_tick[OF 1 d subset_refl] finish_stop_inv by blast+
  have 3: "ws_inv None [] 0 (ws_expire dt s2)" "st_inv (ws_expire dt s2)"
    using expire_inv[OF 2(1)] only_exits_st[OF _ 2(2)] by blast+
  have "ws_step dt s = ws_dispatch (if 0 < expiry s2 \<and> isActive s2 then ws_expire dt s2 else s2)"
    unfolding ws_step_def Let_def s2_def s1_def by (rule refl)
  thus ?thesis using dispatch_good[OF 2] dispatch_good[OF 3] by simp
qed

lemma advance_good: "ws_good s \<Longrightarrow> ws_good (ws_advance ms s)"
proof (induction ms s rule: ws_advance.induct)
  case (1 left s)
  thus ?case using step_good[OF 1(2)] by (subst ws_advance.simps) (simp add: Let_def)
qed

section \<open>Runs\<close>

text \<open>What a scene may do: the public calls, the clock, and the two options it may set.\<close>

datatype WsCall = CAdd AddOpts | CStart | CStop | CPause | CResume | CRestart | CTune int | CPurge | CReset
  | CCancel CtxErr | CAdvance rat | CMinIdle int | CExpiry rat

fun ws_call :: "WsCall \<Rightarrow> WorkerSim \<Rightarrow> WorkerSim" where
  "ws_call (CAdd opts) s = fst (ws_add opts s)"
| "ws_call CStart s = fst (ws_start s)"
| "ws_call CStop s = fst (ws_stop s)"
| "ws_call CPause s = fst (ws_pause s)"
| "ws_call CResume s = fst (ws_resume s)"
| "ws_call CRestart s = fst (ws_restart s)"
| "ws_call (CTune n) s = fst (ws_tunePool n s)"
| "ws_call CPurge s = fst (ws_purge s)"
| "ws_call CReset s = ws_resetMetrics s"
| "ws_call (CCancel why) s = cancelUser why s"
| "ws_call (CAdvance ms) s = ws_advance ms s"
| "ws_call (CMinIdle p) s = s\<lparr>minIdlePct := p\<rparr>"
| "ws_call (CExpiry e) s = s\<lparr>expiry := e\<rparr>"

inductive ws_reach :: "WorkerSim \<Rightarrow> bool" where
  ws_reach_new: "ws_reach (WorkerSim_new size0 auto)"
| ws_reach_call: "ws_reach s \<Longrightarrow> ws_reach (ws_call c s)"

lemma field_good:
  assumes "ws_good s" "queue t = queue s" "parked t = parked s" "gors t = gors s" "pool t = pool s" "gorh t = gorh s"
    "jobh t = jobh s" "nextJob t = nextJob s" "nextGor t = nextGor s" "curProcessing t = curProcessing s"
    "idleSince t = idleSince s" "metrics t = metrics s" "status t = status s" "limit t = limit s" "restartPending t = restartPending s"
  shows "ws_good t"
proof -
  have "ws_inv None [] 0 t = ws_inv None [] 0 s" by (rule ws_inv_cong) (use assms in simp_all)
  moreover have "st_inv t = st_inv s" by (rule st_inv_cong) (use assms in simp_all)
  moreover have "ws_ready t = ws_ready s" unfolding ws_ready_def isActive_def busy_def using assms(2-14) by simp
  ultimately show ?thesis using assms(1) by (simp add: ws_good_def)
qed

lemma reset_good: "ws_good s \<Longrightarrow> ws_good (ws_resetMetrics s)"
proof -
  assume g: "ws_good s"
  let ?t = "s\<lparr>metrics := \<lparr>submitted = 0, completed = 0, successful = 0, failed = 0\<rparr>\<rparr>"
  have "taken_of None ?t = taken_of None s" "held_of None ?t = held_of None s" "gor_ok ?t = gor_ok s" "open_jobs ?t = open_jobs s"
    by (simp_all add: taken_of_def held_of_def gor_ok_def open_jobs_def fun_eq_iff)
  hence "ws_inv None [] 0 ?t" using ws_goodD(1)[OF g] by (simp add: ws_inv_unfold live_def)
  thus ?thesis using ws_goodD(2,3)[OF g]
    by (simp add: ws_good_def ws_resetMetrics_def st_inv_def ws_ready_def isActive_def busy_def)
qed

lemma cancel_good: "ws_good s \<Longrightarrow> ws_good (cancelUser why s)"
  by (erule field_good) (simp_all add: cancelUser_def Let_def)

lemma blank_good: "WorkerSim_new size0 False = s \<Longrightarrow> ws_inv None [] 0 s \<and> st_inv s \<and> status s = Initiated"
  by (auto simp: WorkerSim_new_def ws_inv_unfold live_def open_jobs_def rest_ok_def st_inv_def open_state_def no_job_def)

lemma new_good: "ws_good (WorkerSim_new size0 auto)"
proof -
  have "WorkerSim_new size0 True = fst (ws_start (WorkerSim_new size0 False))" by (simp add: WorkerSim_new_def)
  thus ?thesis using blank_good[OF refl, of size0] start_good inactive_good
    by (cases auto) (auto simp: isActive_def)
qed

lemma call_good: "ws_good s \<Longrightarrow> ws_good (ws_call c s)"
  by (cases c) (auto intro: add_good start_call stop_good pause_good resume_good restart_good tunePool_good purge_good
      reset_good cancel_good advance_good field_good)

lemma reach_good: "ws_reach s \<Longrightarrow> ws_good s"
  by (induction rule: ws_reach.induct) (auto intro: new_good call_good)

section \<open>What the reads say\<close>

lemma filter_mset_Sum: "filter_mset P (\<Sum>x\<in>A. f x) = (\<Sum>x\<in>A. filter_mset P (f x))"
  by (induction A rule: infinite_finite_induct) auto

lemma size_mset_Sum: "size (\<Sum>x\<in>A. f x :: 'b multiset) = (\<Sum>x\<in>A. size (f x))"
  by (induction A rule: infinite_finite_induct) auto

lemma taken_queued:
  assumes "ws_inv None [] 0 s" "g \<in> set (gors s)"
  shows "filter (\<lambda>j. j_state (jobh s j) = JQueued) (taken_of None s g) = unstarted (gorh s g)"
    and "length (g_batch (gorh s g)) = length (unstarted (gorh s g)) + g_i (gorh s g) + (if g_busy (gorh s g) then 1 else 0)"
proof -
  let ?b = "g_batch (gorh s g)" and ?i = "g_i (gorh s g)"
  have ok: "gor_ok s g" using assms by (simp add: ws_inv_unfold)
  have "filter (\<lambda>j. j_state (jobh s j) = JQueued) (taken_of None s g) = unstarted (gorh s g) \<and>
    length ?b = length (unstarted (gorh s g)) + ?i + (if g_busy (gorh s g) then 1 else 0)"
  proof (cases "g_busy (gorh s g)")
    case True
    note r = running_job[OF assms True]
    have "taken_of None s g = ?b ! ?i # drop (Suc ?i) ?b" using r(1) by (simp add: taken_of_def Cons_nth_drop_Suc)
    moreover have "filter (\<lambda>j. j_state (jobh s j) = JQueued) (drop (Suc ?i) ?b) = drop (Suc ?i) ?b"
      using r(4) by (intro filter_True) (simp add: rest_ok_def)
    ultimately show ?thesis using True r(1,3) by (simp add: runs_on_def unstarted_def)
  next
    case False
    thus ?thesis using gor_ok_idle[OF ok] by (simp add: taken_of_def unstarted_def)
  qed
  thus "filter (\<lambda>j. j_state (jobh s j) = JQueued) (taken_of None s g) = unstarted (gorh s g)"
    "length ?b = length (unstarted (gorh s g)) + ?i + (if g_busy (gorh s g) then 1 else 0)" by blast+
qed

definition unbegun :: "WorkerSim \<Rightarrow> nat set" where
  "unbegun s = {j \<in> open_jobs s. j_state (jobh s j) = JQueued}"

lemma unbegun_mset:
  assumes "ws_inv None [] 0 s"
  shows "mset_set (unbegun s) = mset (queue s) + mset (parked s) + (\<Sum>g\<in>set (gors s). mset (unstarted (gorh s g)))"
proof -
  let ?P = "\<lambda>j. j_state (jobh s j) = JQueued"
  have l: "live None [] s = mset_set (open_jobs s)" using assms by (simp add: ws_inv_unfold)
  have "mset_set (unbegun s) = filter_mset ?P (mset_set (open_jobs s))" by (simp add: unbegun_def filter_mset_mset_set)
  also have "\<dots> = mset (filter ?P (queue s)) + mset (filter ?P (parked s)) + (\<Sum>g\<in>set (gors s). mset (filter ?P (taken_of None s g)))"
    by (simp add: live_def filter_mset_Sum flip: l)
  also have "filter ?P (queue s) = queue s"
    using assms by (intro filter_True) (simp add: ws_inv_unfold waits_at_def)
  also have "filter ?P (parked s) = parked s"
    using assms by (intro filter_True) (simp add: ws_inv_unfold waits_at_def)
  also have "(\<Sum>g\<in>set (gors s). mset (filter ?P (taken_of None s g))) = (\<Sum>g\<in>set (gors s). mset (unstarted (gorh s g)))"
    by (rule sum.cong) (simp_all add: taken_queued[OF assms])
  finally show ?thesis .
qed

lemma busy_sum:
  assumes "ws_inv None [] 0 s"
  shows "busy s = (\<Sum>g\<in>set (gors s). if g_busy (gorh s g) then 1 else 0)"
proof -
  have "busy s = card {g\<in>set (gors s). g_busy (gorh s g)}" 
    by (rule busy_card[of None]) (use assms in \<open>simp add: ws_inv_def\<close>)
  thus ?thesis by (simp add: sum.If_cases Int_def)
qed

lemma cur_split:
  assumes "ws_inv None [] 0 s"
  shows "curProcessing s = int (\<Sum>g\<in>set (gors s). length (unstarted (gorh s g))) + int (\<Sum>g\<in>set (gors s). g_i (gorh s g)) + int (busy s)"
proof -
  have "(\<Sum>g\<in>set (gors s). held_of None s g) = (\<Sum>g\<in>set (gors s). length (unstarted (gorh s g)) + g_i (gorh s g) + (if g_busy (gorh s g) then 1 else 0))"
    by (rule sum.cong) (simp_all add: held_of_def taken_queued(2)[OF assms])
  also have "\<dots> = (\<Sum>g\<in>set (gors s). length (unstarted (gorh s g))) + (\<Sum>g\<in>set (gors s). g_i (gorh s g)) + busy s"
    by (simp add: sum.distrib busy_sum[OF assms])
  finally show ?thesis using assms by (simp add: ws_inv_unfold)
qed

lemma pending_split:
  assumes "ws_inv None [] 0 s"
  shows "numPending s = int (card (unbegun s)) + int (\<Sum>g\<in>set (gors s). g_i (gorh s g))"
proof -
  have "card (unbegun s) = size (mset_set (unbegun s))" by simp
  also have "\<dots> = length (queue s) + length (parked s) + (\<Sum>g\<in>set (gors s). length (unstarted (gorh s g)))"
    unfolding unbegun_mset[OF assms] by (simp add: size_mset_Sum)
  finally show ?thesis using cur_split[OF assms] unfolding numPending_def by (simp del: of_nat_sum)
qed

lemma busy_le_cur: "ws_inv None [] 0 s \<Longrightarrow> int (busy s) \<le> curProcessing s"
  using cur_split by (smt (verit) of_nat_0_le_iff)

lemma busy_pos:
  assumes "ws_inv None [] 0 s"
  shows "0 < busy s \<longleftrightarrow> 0 < curProcessing s"
proof -
  have "length (unstarted (gorh s g)) = 0 \<and> g_i (gorh s g) = 0" if "busy s = 0" "g \<in> set (gors s)" for g
  proof -
    have "\<not> g_busy (gorh s g)" using that by (auto simp: busy_def filter_empty_conv)
    moreover have "gor_ok s g" using assms that by (simp add: ws_inv_unfold)
    ultimately show ?thesis using gor_ok_idle by (simp add: unstarted_def)
  qed
  hence "busy s = 0 \<Longrightarrow> curProcessing s = 0" using cur_split[OF assms] by simp
  thus ?thesis using busy_le_cur[OF assms] by linarith
qed

section \<open>Properties\<close>

definition demo_opts :: AddOpts where
  "demo_opts = \<lparr>o_dur = Some 100, o_fail = None, o_watch = False\<rparr>"

text \<open>A run for the examples: one goroutine, three jobs of 100 ms.\<close>

definition demo_run :: WorkerSim where
  "demo_run = ws_call (CAdd demo_opts) (ws_call (CAdd demo_opts) (ws_call (CAdd demo_opts) (WorkerSim_new (Some 1) True)))"

text \<open>And one job of 30 ms, with the clock advanced past its end.\<close>

definition demo_done :: WorkerSim where
  "demo_done = ws_call (CAdvance 40) (ws_call (CAdd \<lparr>o_dur = Some 30, o_fail = None, o_watch = False\<rparr>) (WorkerSim_new None True))"

text \<open>Two jobs added to a paused worker, which \<open>resume\<close> gives to one goroutine as a batch, and then the limit raised to two.\<close>

definition held_run :: WorkerSim where
  "held_run = ws_call (CTune 2) (ws_call CResume (ws_call (CAdd demo_opts) (ws_call (CAdd demo_opts)
     (ws_call CPause (WorkerSim_new (Some 1) True)))))"

lemma held_reach: "ws_reach held_run"
  unfolding held_run_def by (intro ws_reach_call ws_reach_new)

lemma demo_reach: "ws_reach demo_run"
  unfolding demo_run_def by (intro ws_reach_call ws_reach_new)

lemma demo_done_reach: "ws_reach demo_done"
  unfolding demo_done_def by (intro ws_reach_call ws_reach_new)

text \<open>
  C8: no job is lost and none is held twice. In every state a scene can reach, each job ever added is in
  exactly one place (the queue, the park, or the rest of one goroutine's batch) while it is queued or running,
  and in none once it is done, failed or closed.
\<close>

theorem every_job_in_one_place:
  assumes "ws_reach s" "0 < j" "j < nextJob s"
  shows "count (live None [] s) j = (if open_state (j_state (jobh s j)) then 1 else 0)"
  using reach_good[OF assms(1)] assms(2,3)
  by (auto simp: ws_good_def ws_inv_unfold count_mset_set' open_jobs_def)

theorem every_job_in_one_place_witness: "count (live None [] demo_done) 1 = 0 \<and> count (live None [] demo_run) 2 = 1"
proof -
  have "nextJob demo_done = 2 \<and> j_state (jobh demo_done 1) = JDone" by code_simp
  moreover have "nextJob demo_run = 4 \<and> j_state (jobh demo_run 2) = JQueued" by code_simp
  ultimately show ?thesis
    using every_job_in_one_place[of demo_done 1] every_job_in_one_place[of demo_run 2] demo_reach demo_done_reach
    by (simp add: open_state_def)
qed

text \<open>
  C9: the worker leaves no job in the queue while it may start one. When it is active and fewer goroutines are busy than
  the limit allows, the queue and the park are empty, and every job that has not begun is one of those a busy
  goroutine took into its batch behind the job it runs. Such jobs do wait: when \<open>TunePool\<close> raises the limit they
  stay in the batch (what the message of \<open>concurrency.ts\<close> says of them), as in the witness, where job 2 waits
  behind job 1 although a second goroutine may start.
\<close>

theorem active_worker_is_work_conserving:
  assumes "ws_reach s" "isActive s" "int (busy s) < limit s"
  shows "queue s = [] \<and> parked s = []
    \<and> unbegun s = (\<Union>g\<in>{g \<in> set (gors s). g_busy (gorh s g)}. set (drop (g_i (gorh s g) + 1) (g_batch (gorh s g))))"
proof -
  have q: "queue s = []" "parked s = []" using reach_good[OF assms(1)] assms(2,3) by (simp_all add: ws_good_def ws_ready_def)
  have "set_mset (mset_set (unbegun s)) = (\<Union>g\<in>set (gors s). set (unstarted (gorh s g)))"
    unfolding unbegun_mset[OF ws_goodD(1)[OF reach_good[OF assms(1)]]] q by (simp add: set_mset_sum)
  moreover have "finite (unbegun s)" by (simp add: unbegun_def)
  ultimately have "unbegun s = (\<Union>g\<in>set (gors s). set (unstarted (gorh s g)))" by simp
  with q show ?thesis by (auto simp: unstarted_def split: if_splits)
qed

theorem active_worker_is_work_conserving_witness:
  "limit held_run = 2 \<and> busy held_run = 1 \<and> queue held_run = [] \<and> parked held_run = [] \<and> unbegun held_run = {2}"
proof -
  have "list_all (\<lambda>s. isActive s \<and> limit s = 2 \<and> busy s = 1 \<and> gors s = [1] \<and> g_busy (gorh s 1) \<and> g_i (gorh s 1) = 0 \<and> g_batch (gorh s 1) = [1, 2])
      [held_run]" by code_simp
  then have s: "isActive held_run" "limit held_run = 2" "busy held_run = 1" "gors held_run = [1]" "g_busy (gorh held_run 1)"
    "g_i (gorh held_run 1) = 0" "g_batch (gorh held_run 1) = [1, 2]" by simp_all
  have "{g \<in> set (gors held_run). g_busy (gorh held_run g)} = {1}" using s(4,5) by auto
  then have "unbegun held_run = set (drop (g_i (gorh held_run 1) + 1) (g_batch (gorh held_run 1)))" "queue held_run = []" "parked held_run = []"
    using active_worker_is_work_conserving[OF held_reach s(1)] s(2,3) by simp_all
  then show ?thesis using s by simp
qed

text \<open>
  C10: the status tells what runs. A worker shows \<open>Running\<close> or \<open>Pausing\<close> only with a busy goroutine, \<open>Idle\<close>,
  \<open>Paused\<close>, \<open>Stopped\<close> and \<open>Initiated\<close> only with none, and in the last two it has no goroutine at all.
\<close>

theorem status_tells_what_runs:
  assumes "ws_reach s"
  shows "(status s \<in> {Running, Pausing} \<longrightarrow> 0 < busy s) \<and> (status s \<in> {Idle, Paused, Stopped, Initiated} \<longrightarrow> busy s = 0)
    \<and> (status s \<in> {Stopped, Initiated} \<longrightarrow> gors s = [] \<and> pool s = [])"
proof -
  note g = ws_goodD[OF reach_good[OF assms]]
  have "gors s = [] \<Longrightarrow> pool s = []" using g(1) by (simp add: ws_inv_unfold)
  moreover have "0 < busy s \<longleftrightarrow> 0 < curProcessing s" by (rule busy_pos[OF g(1)])
  moreover have "status s \<in> {Running, Pausing} \<longrightarrow> 0 < curProcessing s" "status s \<in> {Idle, Paused, Stopped, Initiated} \<longrightarrow> curProcessing s = 0"
    "status s \<in> {Stopped, Initiated} \<longrightarrow> gors s = []" using g(2) by (auto simp: st_inv_def)
  ultimately show ?thesis by (metis less_irrefl neq0_conv)
qed

theorem status_tells_what_runs_witness: "status demo_run = Running \<and> 0 < busy demo_run"
proof -
  have "status demo_run = Running" by code_simp
  thus ?thesis using status_tells_what_runs[OF demo_reach] by simp
qed

text \<open>
  What \<open>numPending\<close> counts (worker.go's \<open>NumPending\<close>): the jobs that have not begun, plus the jobs of a
  running batch that are behind its goroutine already. So it is exact when no goroutine is busy.
\<close>

theorem numPending_counts:
  assumes "ws_reach s"
  shows "numPending s = int (card (unbegun s)) + int (\<Sum>g\<in>set (gors s). g_i (gorh s g))
    \<and> (busy s = 0 \<longrightarrow> numPending s = int (card (unbegun s)))"
proof -
  note i = ws_goodD(1)[OF reach_good[OF assms]]
  have "g_i (gorh s g) = 0" if "busy s = 0" "g \<in> set (gors s)" for g
  proof -
    have "\<not> g_busy (gorh s g)" using that by (auto simp: busy_def filter_empty_conv)
    moreover have "gor_ok s g" using i that by (simp add: ws_inv_unfold)
    ultimately show ?thesis using gor_ok_idle by blast
  qed
  thus ?thesis using pending_split[OF i] by simp
qed

theorem numPending_counts_witness:
  "numPending (ws_call CPause demo_run) = int (card (unbegun (ws_call CPause demo_run)))
     + int (\<Sum>g\<in>set (gors (ws_call CPause demo_run)). g_i (gorh (ws_call CPause demo_run) g))"
  using numPending_counts[OF ws_reach_call[OF demo_reach]] by blast

text \<open>
  \<open>Purge\<close> reaches every job that has not begun, once: the number it returns is the number of such jobs,
  and after it every one of them is closed, or still in a batch and marked to be closed; none waits in the
  queue or the park, and a running job is left alone.
\<close>

theorem purge_reaches_every_unbegun_job:
  assumes "ws_reach s"
  shows "snd (ws_purge s) = card (unbegun s) \<and> queue (fst (ws_purge s)) = [] \<and> parked (fst (ws_purge s)) = []
    \<and> (\<forall>j\<in>unbegun s. j_state (jobh (fst (ws_purge s)) j) = JClosed \<or> j_stale (jobh (fst (ws_purge s)) j))
    \<and> (\<forall>j. j_state (jobh s j) = JRunning \<longrightarrow> jobh (fst (ws_purge s)) j = jobh s j)"
proof -
  note i = ws_goodD(1)[OF reach_good[OF assms]]
  let ?t = "fst (ws_purge s)" and ?c = "queue s @ parked s" and ?l = "concat (map (\<lambda>g. unstarted (gorh s g)) (gors s))"
  have u: "mset_set (unbegun s) = mset (?c @ ?l)"
  proof -
    have "distinct (gors s)" using i by (simp add: ws_inv_unfold)
    hence "(\<Sum>g\<in>set (gors s). mset (unstarted (gorh s g))) = mset ?l"
      by (simp add: mset_concat comp_def sum_list_distinct_conv_sum_set)
    thus ?thesis using unbegun_mset[OF i] by simp
  qed
  have fin: "finite (unbegun s)" by (simp add: unbegun_def)
  have su: "unbegun s = set ?c \<union> set ?l"
    using arg_cong[OF u, of set_mset] fin by (simp add: Un_assoc)
  have "card (unbegun s) = length (?c @ ?l)"
    using arg_cong[OF u, of size] by simp
  moreover have "snd (ws_purge s) = length (?c @ ?l)" by (simp add: ws_purge_def Let_def)
  moreover have q: "queue ?t = []" "parked ?t = []" by (simp_all add: ws_purge_def Let_def emit_def)
  moreover have h: "jobh ?t j = (let x = (if j \<in> set ?c then (jobh s j)\<lparr>j_state := JClosed\<rparr> else jobh s j) in
      if j \<in> set ?l then x\<lparr>j_stale := True\<rparr> else x)" for j
    by (simp add: ws_purge_def Let_def emit_def jobh_upd_jobs)
  moreover have "\<forall>j. j_state (jobh s j) = JRunning \<longrightarrow> jobh ?t j = jobh s j"
  proof (intro allI impI)
    fix j assume "j_state (jobh s j) = JRunning"
    hence "j \<notin> unbegun s" by (simp add: unbegun_def)
    thus "jobh ?t j = jobh s j" unfolding su h by simp
  qed
  moreover have "\<forall>j\<in>unbegun s. j_state (jobh ?t j) = JClosed \<or> j_stale (jobh ?t j)" unfolding su h by (auto simp: Let_def)
  ultimately show ?thesis by simp
qed

theorem purge_reaches_every_unbegun_job_witness: "snd (ws_purge demo_run) = 2 \<and> card (unbegun demo_run) = 2"
proof -
  have "snd (ws_purge demo_run) = 2" by code_simp
  thus ?thesis using purge_reaches_every_unbegun_job[OF demo_reach] by simp
qed

text \<open>
  \<open>Wait\<close> has returned when the model stops moving: if nothing in it changes without a call (\<open>moving\<close> is
  false), \<open>waitDone\<close> holds.
\<close>

theorem not_moving_means_wait_done:
  assumes "ws_reach s" "\<not> moving s"
  shows "waitDone s"
proof -
  note g = ws_goodD[OF reach_good[OF assms(1)]]
  have b: "busy s = 0" "status s \<noteq> Stopping" "isActive s \<Longrightarrow> queue s = [] \<and> parked s = []"
    using assms(2) by (auto simp: moving_def)
  have "\<not> 0 < curProcessing s" using busy_pos[OF g(1)] b(1) by simp
  hence c: "curProcessing s = 0" using cur_nonneg[OF g(1)] by simp
  show ?thesis using b c by (cases "status s") (auto simp: waitDone_def numPending_def isActive_def)
qed

theorem not_moving_means_wait_done_witness: "waitDone demo_done"
proof -
  have "\<not> moving demo_done" by code_simp
  thus ?thesis using not_moving_means_wait_done[OF demo_done_reach] by blast
qed

text \<open>
  \<open>dispatch\<close> respects the limit and the batch size. It never takes the number of busy goroutines above the
  larger of the limit and what was busy already, and no goroutine ever holds more than 32 jobs.
\<close>

theorem dispatch_respects_limits:
  assumes "ws_reach s"
  shows "int (busy (ws_dispatch s)) \<le> max (int (busy s)) (limit s)
    \<and> (\<forall>g\<in>set (gors (ws_dispatch s)). length (g_batch (gorh (ws_dispatch s) g)) \<le> 32)"
proof -
  note g = ws_goodD[OF reach_good[OF assms]]
  note d = dispatch_inv[OF g(1,2)]
  have "gor_ok (ws_dispatch s) x" if "x \<in> set (gors (ws_dispatch s))" for x using d that by (simp add: ws_inv_unfold)
  hence "length (g_batch (gorh (ws_dispatch s) x)) \<le> 32" if "x \<in> set (gors (ws_dispatch s))" for x
    using that by (fastforce simp: gor_ok_def Let_def MAX_BATCH_SIM_def split: if_splits)
  thus ?thesis using d by blast
qed

theorem dispatch_respects_limits_witness: "int (busy (ws_dispatch demo_run)) \<le> max (int (busy demo_run)) (limit demo_run)"
  using dispatch_respects_limits[OF demo_reach] by blast

end
