(* ===== verification/Worker_Sim_Live.thy ===== *)
theory Worker_Sim_Live
  imports Worker_Sim_Runs
begin

text \<open>
  Progress of \<open>WorkerSim\<close>: the work left (\<open>pot\<close>, the number of clock steps the open jobs still need) goes
  down with every step of the clock while a goroutine is busy. So an active worker finishes every job, and a
  stop comes to its end.
\<close>

section \<open>Work left\<close>

lemma STEP_pos: "0 < STEP"
  by (simp add: STEP_def)

definition job_work :: "rat \<Rightarrow> nat" where
  "job_work left = max 1 (nat \<lceil>left / STEP\<rceil>)"

definition pot :: "WorkerSim \<Rightarrow> nat" where
  "pot s = (\<Sum>j\<in>open_jobs s. job_work (j_left (jobh s j)))"

text \<open>No job is opened again, and no clock runs backwards.\<close>

definition calms :: "WorkerSim \<Rightarrow> WorkerSim \<Rightarrow> bool" where
  "calms s t \<longleftrightarrow> open_jobs t \<subseteq> open_jobs s \<and> (\<forall>j\<in>open_jobs t. j_left (jobh t j) \<le> j_left (jobh s j))"

text \<open>Job \<open>j\<close> ended, or came one step nearer to its end.\<close>

definition nears :: "nat \<Rightarrow> WorkerSim \<Rightarrow> WorkerSim \<Rightarrow> bool" where
  "nears j s t \<longleftrightarrow> j \<in> open_jobs s \<and>
     (j \<notin> open_jobs t \<or> (STEP < j_left (jobh s j) \<and> j_left (jobh t j) \<le> j_left (jobh s j) - STEP))"

lemma calms_refl [simp]: "calms s s" by (simp add: calms_def)

lemma calms_trans: "calms s t \<Longrightarrow> calms t u \<Longrightarrow> calms s u"
  unfolding calms_def by (meson order_trans subsetD subset_trans)

lemma calms_jobh: "jobh t = jobh s \<Longrightarrow> nextJob t = nextJob s \<Longrightarrow> calms s t"
  by (simp add: calms_def open_jobs_def)

lemma nears_calms: "nears j s t \<Longrightarrow> calms t u \<Longrightarrow> nears j s u"
  unfolding nears_def calms_def by (meson order_trans subsetD)

lemma calms_nears: "calms s t \<Longrightarrow> j_left (jobh t j) = j_left (jobh s j) \<Longrightarrow> nears j t u \<Longrightarrow> nears j s u"
  unfolding nears_def calms_def by auto

lemma job_work_mono: "a \<le> b \<Longrightarrow> job_work a \<le> job_work b"
  unfolding job_work_def STEP_def by (intro max.mono nat_mono ceiling_mono divide_right_mono) simp_all

lemma job_work_step: "STEP < a \<Longrightarrow> b \<le> a - STEP \<Longrightarrow> job_work b < job_work a"
proof -
  assume a: "STEP < a" and b: "b \<le> a - STEP"
  have "(a - STEP) / STEP = a / STEP - 1" by (simp add: STEP_def field_simps)
  hence "\<lceil>(a - STEP) / STEP\<rceil> = \<lceil>a / STEP\<rceil> - 1" by simp
  moreover have "1 < a / STEP" using a by (simp add: STEP_def)
  hence "1 < \<lceil>a / STEP\<rceil>" by (simp add: less_ceiling_iff)
  ultimately have "job_work (a - STEP) < job_work a" by (simp add: job_work_def)
  thus ?thesis using job_work_mono[OF b] by linarith
qed

lemma pot_calms: "calms s t \<Longrightarrow> pot t \<le> pot s"
  unfolding pot_def calms_def
  by (rule order_trans[OF sum_mono sum_mono2]) (auto intro: job_work_mono)

lemma job_work_pos: "0 < job_work a"
  by (simp add: job_work_def)

lemma pot_nears:
  assumes "calms s t" "nears j s t"
  shows "pot t < pot s"
proof -
  have o: "open_jobs t \<subseteq> open_jobs s" "j \<in> open_jobs s" using assms by (auto simp: calms_def nears_def)
  have r: "pot s = job_work (j_left (jobh s j)) + (\<Sum>x\<in>open_jobs s - {j}. job_work (j_left (jobh s x)))"
    using o by (simp add: pot_def sum.remove)
  have le: "(\<Sum>x\<in>open_jobs t - {j}. job_work (j_left (jobh t x))) \<le> (\<Sum>x\<in>open_jobs s - {j}. job_work (j_left (jobh s x)))"
    using assms(1) o unfolding calms_def by (intro order_trans[OF sum_mono sum_mono2]) (auto intro: job_work_mono)
  show ?thesis
  proof (cases "j \<in> open_jobs t")
    case True
    have "pot t = job_work (j_left (jobh t j)) + (\<Sum>x\<in>open_jobs t - {j}. job_work (j_left (jobh t x)))"
      using True by (simp add: pot_def sum.remove)
    moreover have "job_work (j_left (jobh t j)) < job_work (j_left (jobh s j))"
      using assms(2) True by (intro job_work_step) (auto simp: nears_def)
    ultimately show ?thesis using r le by linarith
  next
    case False
    hence "pot t = (\<Sum>x\<in>open_jobs t - {j}. job_work (j_left (jobh t x)))" by (simp add: pot_def)
    thus ?thesis using r le job_work_pos[of "j_left (jobh s j)"] by linarith
  qed
qed

section \<open>Operations\<close>

lemma endBatch_jobs [simp]: "jobh (endBatch g s) = jobh s" "nextJob (endBatch g s) = nextJob s"
  by (simp_all add: endBatch_def Let_def ws_prims exit_gor_def)

lemma calms_upd:
  "(open_state (j_state (f (jobh s j))) \<Longrightarrow> open_state (j_state (jobh s j))) \<Longrightarrow> j_left (f (jobh s j)) \<le> j_left (jobh s j)
    \<Longrightarrow> calms s (upd_job j f s)"
  by (auto simp: calms_def open_jobs_def upd_job_def)

lemma calms_emit [simp]: "calms s (emit e t) = calms s t" "calms (emit e s) t = calms s t"
  by (simp_all add: calms_def open_jobs_def emit_def)

lemma calms_begin:
  assumes "open_state (j_state (jobh s (g_batch (gorh s g) ! i)))"
  shows "calms s (begin_job g i s)"
proof -
  have "calms s (upd_gor g f s)" for f by (rule calms_jobh) (simp_all add: upd_gor_def)
  moreover have "calms (upd_gor g f s) (upd_job (g_batch (gorh s g) ! i) h (upd_gor g f s))" if "\<And>x. j_left (h x) = j_left x" for f h
    by (rule calms_upd) (use assms that in \<open>simp_all add: upd_gor_def\<close>)
  ultimately show ?thesis unfolding begin_job_def Let_def calms_emit by (rule calms_trans) simp
qed

lemma calms_finish_next:
  assumes "ws_inv (Some g) (drop nxt (g_batch (gorh s g))) (int (length (g_batch (gorh s g)))) s"
  shows "calms s (finish_next g nxt s)"
  using assms
proof (induction g nxt s rule: finish_next.induct)
  case (1 g nxt s)
  let ?b = "g_batch (gorh s g)"
  let ?nj = "?b ! nxt"
  show ?case
  proof (cases "nxt < length ?b")
    case n: True
    have d: "drop nxt ?b = ?nj # drop (Suc nxt) ?b" using n by (simp add: Cons_nth_drop_Suc)
    have ro: "rest_ok (jobh s) (drop nxt ?b)" using 1(2) by (simp add: ws_inv_unfold)
    hence q: "j_state (jobh s ?nj) = JQueued" using d by (simp add: rest_ok_def)
    show ?thesis
    proof (cases "j_stale (jobh s ?nj)")
      case True
      let ?u = "upd_job ?nj (\<lambda>x. x\<lparr>j_state := JClosed, j_at := Out\<rparr>) s"
      let ?t = "emit (EClose [?nj]) ?u"
      have t: "gorh ?t = gorh s" by (simp add: emit_def upd_job_def)
      have "ws_inv (Some g) (drop (Suc nxt) ?b) (int (length ?b)) ?t"
        using drop_hand[OF 1(2)[unfolded d]] by (simp add: open_state_def)
      hence "calms ?t (finish_next g (nxt + 1) ?t)" using 1(1)[OF n refl True] t by simp
      moreover have "calms s ?t" unfolding calms_emit by (rule calms_upd) (simp_all add: open_state_def)
      ultimately have "calms s (finish_next g (nxt + 1) ?t)" using calms_trans by blast
      thus ?thesis using n True by (simp add: finish_next.simps[of g nxt s] Let_def)
    next
      case ns: False
      show ?thesis
      proof (cases "halting s")
        case True
        let ?r = "filter (\<lambda>x. j_state (jobh s x) \<noteq> JClosed) (drop nxt ?b)"
        let ?t = "endBatch g (emit (EPark ?r) ((upd_jobs ?r (\<lambda>x. x\<lparr>j_at := InPark\<rparr>) s)\<lparr>parked := parked s @ ?r\<rparr>))"
        have "jobh ?t x = (if x \<in> set ?r then (jobh s x)\<lparr>j_at := InPark\<rparr> else jobh s x)" for x
          by (simp add: emit_def jobh_upd_jobs)
        moreover have "nextJob ?t = nextJob s" by (simp add: emit_def)
        ultimately have "calms s ?t" unfolding calms_def open_jobs_def by (auto split: if_splits)
        thus ?thesis using n ns True by (simp add: finish_next.simps[of g nxt s] Let_def)
      next
        case False
        have "calms s (begin_job g nxt s)" by (rule calms_begin) (simp add: q open_state_def)
        thus ?thesis using n ns False by (simp add: finish_next.simps[of g nxt s] Let_def)
      qed
    qed
  qed (simp add: finish_next.simps[of g nxt s] calms_jobh)
qed

lemma tick_calms:
  assumes dt: "0 < dt" and inv: "ws_inv None [] 0 s" and g: "g \<in> set (gors s) \<or> \<not> g_busy (gorh s g)"
  shows "calms s (tick_gor dt g s) \<and> (dt = STEP \<and> g_busy (gorh s g) \<longrightarrow> nears (g_batch (gorh s g) ! g_i (gorh s g)) s (tick_gor dt g s))"
proof (cases "g_busy (gorh s g)")
  case b: True
  let ?b = "g_batch (gorh s g)" and ?i = "g_i (gorh s g)"
  let ?j = "?b ! ?i"
  have gg: "g \<in> set (gors s)" using b g by simp
  define s1 where "s1 = (if j_watch (jobh s ?j) \<and> ctx s \<noteq> None \<and> \<not> j_early (jobh s ?j)
    then upd_job ?j (\<lambda>x. x\<lparr>j_early := True, j_left := 0\<rparr>) s else s)"
  define s2 where "s2 = upd_job ?j (\<lambda>x. x\<lparr>j_left := j_left x - dt\<rparr>) s1"
  have t: "tick_gor dt g s = (if j_left (jobh s2 ?j) \<le> 0 then finishJob g ?j s2 else s2)"
    unfolding tick_gor_def Let_def using b by (simp only: s2_def s1_def) simp
  have "ws_inv None [] 0 s1" unfolding s1_def using inv by (auto intro: run_update)
  hence i2: "ws_inv None [] 0 s2" unfolding s2_def by (rule run_update) simp
  have e: "gorh s2 = gorh s" "gors s2 = gors s" "nextJob s2 = nextJob s" by (simp_all add: s2_def s1_def upd_job_def)
  have o2: "open_jobs s2 = open_jobs s" by (auto simp: open_jobs_def e) (auto simp: s2_def s1_def upd_job_def split: if_splits)
  have jo: "?j \<in> open_jobs s"
  proof -
    have ji: "job_inv None [] s" using inv by (simp add: ws_inv_def)
    have "drop ?i ?b = ?j # drop (Suc ?i) ?b" using running_job(1)[OF inv gg b] by (simp add: Cons_nth_drop_Suc)
    thus ?thesis using live_open[OF ji, of ?j] live_transit[OF gg, of "[]"] by simp
  qed
  have lf: "j_left (jobh s2 x) = (if x = ?j then (if j_watch (jobh s ?j) \<and> ctx s \<noteq> None \<and> \<not> j_early (jobh s ?j) then 0 else j_left (jobh s ?j)) - dt
      else j_left (jobh s x))" for x by (auto simp: s2_def s1_def upd_job_def)
  show ?thesis
  proof (cases "j_left (jobh s2 ?j) \<le> 0")
    case True
    define fl where "fl \<longleftrightarrow> j_fail (jobh s2 ?j) \<noteq> None"
    let ?f = "\<lambda>x. x\<lparr>j_state := (if fl then JFailed else JDone), j_at := Out, j_ended := Some (now s2)\<rparr>"
    define u where "u = emit (EEnd ?j) ((upd_job ?j ?f s2)\<lparr>metrics := count_end fl (metrics (upd_job ?j ?f s2))\<rparr>)"
    have fe: "finishJob g ?j s2 = finish_next g (Suc ?i) u"
      by (simp add: finishJob_def Let_def u_def fl_def emit_def upd_job_def e)
    have gu: "gorh u = gorh s" by (simp add: u_def emit_def upd_job_def e)
    have iu: "ws_inv (Some g) (drop (Suc ?i) ?b) (int (length ?b)) u"
    proof -
      have "ws_inv (Some g) (drop (Suc ?i) ?b) (int (length ?b)) (upd_job ?j ?f s2)"
        using end_inv[OF i2, of g ?f] gg b by (simp add: e open_state_def)
      hence "ws_inv (Some g) (drop (Suc ?i) ?b) (int (length ?b)) ((upd_job ?j ?f s2)\<lparr>metrics := count_end fl (metrics (upd_job ?j ?f s2))\<rparr>)"
        by (rule metrics_inv) (simp add: count_end_def)
      thus ?thesis by (simp add: u_def)
    qed
    have "calms u (finish_next g (Suc ?i) u)" by (rule calms_finish_next) (use iu gu in simp)
    moreover have ou: "open_jobs u = open_jobs s - {?j}" and lu: "\<And>x. j_left (jobh u x) = j_left (jobh s2 x)"
      using o2 by (auto simp: u_def open_jobs_def emit_def upd_job_def open_state_def)
    moreover have "calms s u" unfolding calms_def ou using lu lf by auto
    ultimately have c: "calms s (finish_next g (Suc ?i) u)" "?j \<notin> open_jobs (finish_next g (Suc ?i) u)"
      using calms_trans[of s u] by (blast, auto simp: calms_def)
    hence "nears ?j s (finish_next g (Suc ?i) u)" using jo by (simp add: nears_def)
    thus ?thesis using True t fe c(1) by auto
  next
    case False
    have nw: "\<not> (j_watch (jobh s ?j) \<and> ctx s \<noteq> None \<and> \<not> j_early (jobh s ?j))" using False lf[of ?j] dt by (auto split: if_splits)
    have "calms s s2" unfolding calms_def o2 using lf nw dt by auto
    moreover have "dt = STEP \<longrightarrow> nears ?j s s2" using jo lf[of ?j] nw False by (auto simp: nears_def)
    ultimately show ?thesis using t False b by auto
  qed
qed (simp add: tick_gor_def)

text \<open>How the status may move while goroutines finish their jobs.\<close>

definition st_step :: "WorkerSim \<Rightarrow> WorkerSim \<Rightarrow> bool" where
  "st_step s t \<longleftrightarrow> status t = status s \<or> (status s = Running \<and> status t = Idle) \<or> (status s = Pausing \<and> status t = Paused)"

lemma st_step_trans: "st_step s t \<Longrightarrow> st_step t u \<Longrightarrow> st_step s u"
  by (auto simp: st_step_def)

lemma st_step_endBatch: "st_step s (endBatch g s)"
  by (simp add: st_step_def endBatch_def Let_def ws_prims exit_gor_def)

lemma st_step_cong: "status t = status s \<Longrightarrow> st_step t u = st_step s u"
  by (simp add: st_step_def)

lemma st_step_finish_next: "st_step s (finish_next g nxt s)"
proof (induction g nxt s rule: finish_next.induct)
  case (1 g nxt s)
  let ?nj = "g_batch (gorh s g) ! nxt"
  let ?t = "emit (EClose [?nj]) (upd_job ?nj (\<lambda>x. x\<lparr>j_state := JClosed, j_at := Out\<rparr>) s)"
  let ?r = "filter (\<lambda>x. j_state (jobh s x) \<noteq> JClosed) (drop nxt (g_batch (gorh s g)))"
  let ?u = "emit (EPark ?r) ((upd_jobs ?r (\<lambda>x. x\<lparr>j_at := InPark\<rparr>) s)\<lparr>parked := parked s @ ?r\<rparr>)"
  have st: "status ?t = status s" "status ?u = status s" by (simp_all add: ws_prims)
  have "st_step s (endBatch g ?u)" using st_step_endBatch[of ?u g] st_step_cong[OF st(2)] by simp
  moreover have "st_step s (begin_job g nxt s)" by (simp add: st_step_def begin_job_def Let_def ws_prims)
  moreover have "st_step s (finish_next g (nxt + 1) ?t)" if "nxt < length (g_batch (gorh s g))" "j_stale (jobh s ?nj)"
    using 1[OF that(1) refl that(2)] st_step_cong[OF st(1)] by simp
  ultimately show ?case using st_step_endBatch[of s g] by (simp add: finish_next.simps[of g nxt s] Let_def)
qed

lemma st_step_tick: "st_step s (tick_gor dt g s)"
proof -
  have f: "st_step s (finishJob g j t)" if "status t = status s" for j t
  proof -
    have "st_step t (finishJob g j t)"
      unfolding finishJob_def Let_def by (rule st_step_cong[THEN iffD1, OF _ st_step_finish_next]) (simp add: ws_prims)
    thus ?thesis unfolding st_step_cong[OF that] .
  qed
  have r: "st_step s t" if "status t = status s" for t using that by (simp add: st_step_def)
  have u: "status (upd_job j h (if P then upd_job j' h' s else s)) = status s" for j h P j' h' by (simp add: upd_job_def)
  show ?thesis
  proof (cases "g_busy (gorh s g)")
    case True
    define j s2 where "j = g_batch (gorh s g) ! g_i (gorh s g)" and
      "s2 = upd_job j (\<lambda>x. x\<lparr>j_left := j_left x - dt\<rparr>) (if j_watch (jobh s j) \<and> ctx s \<noteq> None \<and> \<not> j_early (jobh s j)
        then upd_job j (\<lambda>x. x\<lparr>j_early := True, j_left := 0\<rparr>) s else s)"
    have "tick_gor dt g s = (if j_left (jobh s2 j) \<le> 0 then finishJob g j s2 else s2)"
      by (simp only: tick_gor_def Let_def True not_True_eq_False if_False s2_def j_def)
    moreover have "status s2 = status s" unfolding s2_def by (rule u)
    ultimately show ?thesis using f r by (cases "j_left (jobh s2 j) \<le> 0") metis+
  qed (simp add: tick_gor_def st_step_def)
qed

lemma fold_tick_calms:
  assumes "0 < dt" "ws_inv None [] 0 s" "st_inv s" "distinct gs" "set gs \<subseteq> set (gors s)"
  shows "calms s (fold (tick_gor dt) gs s) \<and> st_step s (fold (tick_gor dt) gs s)
    \<and> (dt = STEP \<and> (\<exists>g\<in>set gs. g_busy (gorh s g)) \<longrightarrow> pot (fold (tick_gor dt) gs s) < pot s)"
  using assms
proof (induction gs arbitrary: s)
  case (Cons g gs)
  let ?t = "tick_gor dt g s" and ?e = "fold (tick_gor dt) gs (tick_gor dt g s)"
  have k: "keeps_others g s ?t" by (rule keeps_tick)
  have g: "g \<in> set (gors s) \<or> \<not> g_busy (gorh s g)" using Cons.prems by simp
  have sub: "set gs \<subseteq> set (gors ?t)" using Cons.prems(4,5) k by (auto simp: keeps_others_def)
  have ih: "calms ?t ?e" "st_step ?t ?e" "dt = STEP \<Longrightarrow> (\<exists>g\<in>set gs. g_busy (gorh ?t g)) \<Longrightarrow> pot ?e < pot ?t"
    using Cons.IH[OF Cons.prems(1) tick_inv[OF Cons.prems(2) g] st_inv_tick[OF Cons.prems(2,3) g] _ sub] Cons.prems(4) by auto
  note tc = tick_calms[OF Cons.prems(1,2) g]
  have c: "calms s ?e" using tc ih(1) calms_trans by blast
  have s: "st_step s ?e" using st_step_tick ih(2) st_step_trans by blast
  have "pot ?e < pot s" if "dt = STEP" "g_busy (gorh s g)"
    using pot_nears[OF c nears_calms[OF _ ih(1)]] tc that by blast
  moreover have "pot ?e < pot s" if d: "dt = STEP" and h: "h \<in> set gs" "g_busy (gorh s h)" for h
  proof -
    have "h \<noteq> g" using h(1) Cons.prems(4) by auto
    hence "g_busy (gorh ?t h)" using k h(2) by (simp add: keeps_others_def)
    thus ?thesis using ih(3) d h(1) pot_calms[of s ?t] tc by fastforce
  qed
  ultimately show ?case using c s by auto
qed (simp add: st_step_def)

lemma calms_hand_off:
  assumes inv: "ws_inv None [] 0 s" and r: "ws_ready s"
  shows "calms s (fst (hand_off s))"
proof -
  obtain g s1 where tg: "take_gor s = (g, s1)" by (metis prod.exhaust)
  note a = take_gor_inv[OF inv tg]
  obtain buf s2 where tj: "take_jobs (hand_k s) s1 = (buf, s2)" by (metis prod.exhaust)
  note b = take_jobs_inv[OF a(1) tj]
  have n2: "nextJob s2 = nextJob s1" using tj take_jobs_eq[OF a(1), of "hand_k s"] by auto
  have c2: "calms s s2" by (rule calms_jobh) (simp_all add: b(3) a(11,13) n2)
  have "calms s2 (give_batch g buf s2)" if ne: "buf \<noteq> []"
  proof -
    let ?h = "jobh (give_batch g buf s2)"
    have q: "\<forall>j\<in>set buf. j_state (jobh s2 j) = JQueued" using b(1) by (simp add: ws_inv_unfold rest_ok_def)
    have "j_left (?h x) = j_left (jobh s2 x)" for x
      by (auto simp: give_batch_def begin_job_def ws_prims Let_def jobh_upd_jobs)
    moreover have "open_state (j_state (?h x)) \<Longrightarrow> open_state (j_state (jobh s2 x))" for x
      using q ne by (auto simp: give_batch_def begin_job_def ws_prims Let_def jobh_upd_jobs open_state_def split: if_splits)
    ultimately show ?thesis by (auto simp: calms_def open_jobs_def give_batch_fields)
  qed
  moreover have "calms s2 (s2\<lparr>pool := p\<rparr>)" for p by (rule calms_jobh) simp_all
  ultimately show ?thesis using c2 calms_trans by (auto simp: hand_off_def tg tj)
qed

lemma calms_dispatch: "ws_inv None [] 0 s \<Longrightarrow> calms s (ws_dispatch s)"
proof (induction s rule: ws_dispatch.induct)
  case (1 s)
  show ?case
  proof (cases "ws_ready s")
    case True
    obtain s' where h: "hand_off s = (s', True)" "ws_inv None [] 0 s'" using hand_off_inv[OF 1(2) True] by metis
    have "calms s s'" using calms_hand_off[OF 1(2) True] h(1) by simp
    moreover have "calms s' (ws_dispatch s')" using 1(1)[OF True h(1)[symmetric] refl] h(2) by simp
    ultimately have "calms s (ws_dispatch s')" by (rule calms_trans)
    thus ?thesis using True h(1) by (simp add: ws_dispatch.simps[of s])
  qed (simp add: ws_dispatch.simps[of s])
qed

lemma status_dispatch: "ws_inv None [] 0 s \<Longrightarrow> st_inv s \<Longrightarrow>
  (isActive s \<longrightarrow> isActive (ws_dispatch s)) \<and> (\<not> isActive s \<longrightarrow> ws_dispatch s = s)"
proof (induction s rule: ws_dispatch.induct)
  case (1 s)
  show ?case
  proof (cases "ws_ready s")
    case True
    obtain s' where h: "hand_off s = (s', True)" "ws_inv None [] 0 s'" "status s' = Running"
      "curProcessing s' = curProcessing s + int (hand_k s)" "restartPending s' = restartPending s"
      using hand_off_inv[OF 1(2) True] by metis
    have "\<not> restartPending s" by (rule ready_not_pending[OF 1(3) True])
    hence "st_inv s'"
      using hand_k_bounds[OF True] cur_nonneg[OF 1(2)] h by (simp add: st_inv_def)
    hence "isActive (ws_dispatch s')" using 1(1)[OF True h(1)[symmetric] refl] h(2,3) by (simp add: isActive_def)
    thus ?thesis using True h(1) by (auto simp: ws_dispatch.simps[of s] ws_ready_def)
  qed (simp add: ws_dispatch.simps[of s])
qed

section \<open>A step of the clock\<close>

lemma calms_spawn: "calms s (snd (spawn s))"
  by (rule calms_jobh) (simp_all add: spawn_def Let_def emit_def)

lemma calms_start:
  assumes "ws_inv None [] 0 s"
  shows "calms s (fst (ws_start s))"
proof -
  obtain g s2 where sp: "spawn (s\<lparr>ctx := userCtx s\<rparr>) = (g, s2)" by (metis prod.exhaust)
  have i: "ws_inv None [] 0 (s\<lparr>ctx := userCtx s\<rparr>)" using assms by simp
  note t = spawn_transit[OF i sp]
  have "ws_inv None [] 0 (setStatus Idle (s2\<lparr>pool := pool s2 @ [g]\<rparr>))" using join_pool[OF t(1-4)] by simp
  moreover have "calms s (setStatus Idle (s2\<lparr>pool := pool s2 @ [g]\<rparr>))"
    by (rule calms_jobh) (simp_all add: setStatus_eq t)
  ultimately have "calms s (ws_dispatch (setStatus Idle (s2\<lparr>pool := pool s2 @ [g]\<rparr>)))"
    using calms_dispatch calms_trans by blast
  thus ?thesis by (simp add: ws_start_def Let_def sp)
qed

text \<open>The end of a stop: the worker is \<open>Stopped\<close>, or active again when a restart waits.\<close>

lemma finish_stop_cases:
  assumes "ws_inv None [] 0 s" "st_inv s" "status s = Stopping" "curProcessing s = 0"
  shows "calms s (finish_stop s)"
    "if restartPending s then isActive (finish_stop s) else status (finish_stop s) = Stopped"
proof -
  let ?s1 = "fold exit_gor (pool s) s"
  let ?s2 = "setStatus Stopped (?s1\<lparr>pool := []\<rparr>)"
  have d: "distinct (pool s)" using assms(1) by (simp add: ws_inv_unfold)
  have f: "ws_inv None [] 0 ?s1" "only_exits s ?s1" "pool ?s1 = []"
    using fold_exit[OF assms(1) d subset_refl] by (auto simp: filter_empty_conv)
  have "?s1\<lparr>pool := []\<rparr> = ?s1" using f(3) by (metis WorkerSim.surjective WorkerSim.update_convs(9))
  hence i: "ws_inv None [] 0 (?s1\<lparr>pool := []\<rparr>)" using f(1) by metis
  have e: "finish_stop s = (if restartPending s then fst (ws_start (?s2\<lparr>restartPending := False\<rparr>)) else ?s2)"
    using assms(3,4) f(2) by (simp add: finish_stop_def Let_def setStatus_eq only_exits_def)
  have j: "jobh ?s1 = jobh s" "nextJob ?s1 = nextJob s" using f(2) by (simp_all add: only_exits_def)
  let ?t = "?s2\<lparr>restartPending := False\<rparr>"
  have c: "calms s ?s2" "calms s ?t"
    by (rule calms_jobh; simp add: setStatus_eq j)+
  have it: "ws_inv None [] 0 ?t" using i by simp
  have "calms s (fst (ws_start ?t))" using calms_trans[OF c(2) calms_start[OF it]] .
  thus "calms s (finish_stop s)" unfolding e using c(1) by simp
  have "isActive (fst (ws_start ?t))"
  proof -
    have st: "status ?t = Stopped" by (simp add: setStatus_eq)
    have sti: "st_inv ?t"
      using all_leave[OF assms(1,4)] f(2) assms(4) by (simp add: st_inv_def setStatus_eq only_exits_def)
    obtain g u where sp: "spawn (?t\<lparr>ctx := userCtx ?t\<rparr>) = (g, u)" by (metis prod.exhaust)
    have ic: "ws_inv None [] 0 (?t\<lparr>ctx := userCtx ?t\<rparr>)" using it by simp
    note t = spawn_transit[OF ic sp]
    let ?v = "setStatus Idle (u\<lparr>pool := pool u @ [g]\<rparr>)"
    have iv: "ws_inv None [] 0 ?v" using join_pool[OF t(1-4)] by simp
    have sv: "st_inv ?v" using sti st t(14,15) by (simp add: st_inv_def setStatus_eq)
    have "isActive ?v" by (simp add: isActive_def setStatus_eq)
    hence "isActive (ws_dispatch ?v)" using status_dispatch[OF iv sv] by blast
    moreover have "fst (ws_start ?t) = ws_dispatch ?v" using st sp by (simp add: ws_start_def isActive_def Let_def)
    ultimately show ?thesis by simp
  qed
  thus "if restartPending s then isActive (finish_stop s) else status (finish_stop s) = Stopped"
    unfolding e by (simp add: setStatus_eq)
qed

lemma finish_stop_skip: "\<not> (status s = Stopping \<and> curProcessing s = 0) \<Longrightarrow> finish_stop s = s"
  by (simp only: finish_stop_def if_False)

text \<open>The four parts of \<open>step\<close>, named.\<close>

definition after_ticks :: "rat \<Rightarrow> WorkerSim \<Rightarrow> WorkerSim" where
  "after_ticks dt s = (let s1 = notice_done (s\<lparr>now := now s + dt\<rparr>) in fold (tick_gor dt) (gors s1) s1)"

definition after_expiry :: "rat \<Rightarrow> WorkerSim \<Rightarrow> WorkerSim" where
  "after_expiry dt s = (if 0 < expiry s \<and> isActive s then ws_expire dt s else s)"

lemma step_parts: "ws_step dt s = ws_dispatch (after_expiry dt (finish_stop (after_ticks dt s)))"
  by (simp add: ws_step_def after_ticks_def after_expiry_def Let_def)

lemma after_ticks_facts:
  assumes "ws_good s" "0 < dt"
  defines "t \<equiv> after_ticks dt s"
  shows "ws_inv None [] 0 t" "st_inv t" "calms s t" "dt = STEP \<Longrightarrow> 0 < busy s \<Longrightarrow> pot t < pot s" "limit t = limit s" "ctx t = ctx s"
    "restartPending t = restartPending s"
    "ctx s = None \<Longrightarrow> isActive s \<Longrightarrow> isActive t" "status s = Stopping \<Longrightarrow> status t = Stopping"
    "busy s = 0 \<Longrightarrow> curProcessing t = 0"
proof -
  note i = ws_goodD[OF assms(1)]
  define s1 where "s1 = notice_done (s\<lparr>now := now s + dt\<rparr>)"
  have st0: "st_inv (s\<lparr>now := now s + dt\<rparr>)" using i(2) by (simp add: st_inv_def)
  have 1: "ws_inv None [] 0 s1" "st_inv s1"
    using i(1) st0 st_stopping unfolding s1_def notice_done_def by simp_all
  have f: "jobh s1 = jobh s" "nextJob s1 = nextJob s" "gors s1 = gors s" "gorh s1 = gorh s" "limit s1 = limit s" "ctx s1 = ctx s"
    "restartPending s1 = restartPending s" "curProcessing s1 = curProcessing s"
    by (simp_all add: s1_def notice_done_def setStatus_eq)
  have st1: "ctx s = None \<Longrightarrow> status s1 = status s" "status s = Stopping \<Longrightarrow> status s1 = Stopping"
    by (simp_all add: s1_def notice_done_def setStatus_eq isActive_def)
  have d: "distinct (gors s1)" using 1(1) by (simp add: ws_inv_unfold)
  have t: "t = fold (tick_gor dt) (gors s1) s1" by (simp add: t_def after_ticks_def s1_def Let_def)
  note ft = fold_tick[OF 1 d subset_refl, of dt, folded t]
  note fc = fold_tick_calms[OF assms(2) 1 d subset_refl, folded t]
  show "ws_inv None [] 0 t" "st_inv t" using ft by blast+
  have c: "calms s s1" "calms s1 s" by (rule calms_jobh; simp add: f)+
  show "calms s t" using calms_trans[OF c(1)] fc by blast
  have p: "pot s1 = pot s" using pot_calms[OF c(1)] pot_calms[OF c(2)] by simp
  show "pot t < pot s" if step: "dt = STEP" and "0 < busy s"
  proof -
    have "\<exists>g\<in>set (gors s1). g_busy (gorh s1 g)" using that(2) by (simp add: busy_def f) (metis length_greater_0_conv filter_empty_conv)
    thus ?thesis using fc p step by simp
  qed
  show "limit t = limit s" "ctx t = ctx s" "restartPending t = restartPending s" using ft f by (simp_all add: same_cfg_def)
  show "isActive t" if "ctx s = None" "isActive s" using fc st1(1) that by (auto simp: st_step_def isActive_def)
  show "status t = Stopping" if "status s = Stopping" using fc st1(2) that by (auto simp: st_step_def)
  show "curProcessing t = 0" if b: "busy s = 0"
  proof -
    have nb: "\<not> g_busy (gorh s1 g)" if "g \<in> set (gors s1)" for g using b that by (auto simp: busy_def f filter_empty_conv)
    have "fold (tick_gor dt) gs s1 = s1" if "set gs \<subseteq> set (gors s1)" for gs
      using that nb by (induction gs) (auto simp: tick_gor_def)
    hence "t = s1" using t by simp
    thus ?thesis using busy_pos[OF i(1)] b cur_nonneg[OF i(1)] f(8) by simp
  qed
qed

lemma after_expiry_facts:
  assumes "ws_inv None [] 0 s" "st_inv s"
  shows "ws_inv None [] 0 (after_expiry dt s)" "st_inv (after_expiry dt s)" "only_exits s (after_expiry dt s)" "calms s (after_expiry dt s)"
proof -
  have e: "ws_inv None [] 0 (ws_expire dt s)" "only_exits s (ws_expire dt s)" using expire_inv[OF assms(1)] by blast+
  show a: "ws_inv None [] 0 (after_expiry dt s)" "only_exits s (after_expiry dt s)" using e assms(1) by (simp_all add: after_expiry_def)
  show "st_inv (after_expiry dt s)" by (rule only_exits_st[OF a(2) assms(2)])
  show "calms s (after_expiry dt s)" using a(2) by (intro calms_jobh) (simp_all add: only_exits_def)
qed

lemma step_calms:
  assumes "ws_good s" "0 < dt"
  shows "calms s (ws_step dt s)" "dt = STEP \<Longrightarrow> 0 < busy s \<Longrightarrow> pot (ws_step dt s) < pot s"
proof -
  let ?t = "after_ticks dt s" and ?u = "finish_stop (after_ticks dt s)"
  note a = after_ticks_facts[OF assms]
  have fu: "ws_inv None [] 0 ?u" "st_inv ?u" using finish_stop_inv[OF a(1,2)] by blast+
  have cu: "calms ?t ?u" using finish_stop_cases(1)[OF a(1,2)] finish_stop_skip[of ?t] by (cases "status ?t = Stopping \<and> curProcessing ?t = 0") auto
  note e = after_expiry_facts[OF fu, of dt]
  have c: "calms ?t (ws_step dt s)"
    unfolding step_parts by (rule calms_trans[OF cu calms_trans[OF e(4) calms_dispatch[OF e(1)]]])
  show "calms s (ws_step dt s)" by (rule calms_trans[OF a(3) c])
  show "pot (ws_step dt s) < pot s" if "dt = STEP" "0 < busy s" using a(4)[OF that] pot_calms[OF c] by linarith
qed

lemma step_active:
  assumes "ws_good s" "isActive s" "ctx s = None" "0 < dt"
  shows "isActive (ws_step dt s)" "ctx (ws_step dt s) = None" "limit (ws_step dt s) = limit s"
proof -
  let ?t = "after_ticks dt s"
  note a = after_ticks_facts[OF assms(1) assms(4)]
  have act: "isActive ?t" by (rule a(8)[OF assms(3,2)])
  have u: "finish_stop ?t = ?t" by (rule finish_stop_skip) (use act in \<open>auto simp: isActive_def\<close>)
  note e = after_expiry_facts[OF a(1,2), of dt]
  have ae: "isActive (after_expiry dt ?t)" "ctx (after_expiry dt ?t) = None" "limit (after_expiry dt ?t) = limit s"
    using e(3) act a(5,6) assms(3) by (simp_all add: only_exits_def isActive_def)
  show "isActive (ws_step dt s)" "ctx (ws_step dt s) = None" "limit (ws_step dt s) = limit s"
    unfolding step_parts u using status_dispatch[OF e(1,2)] dispatch_inv[OF e(1,2)] ae by auto
qed

lemma step_stopping:
  assumes "ws_good s" "status s = Stopping" "0 < dt"
  shows "(status (ws_step dt s) = Stopping \<and> restartPending (ws_step dt s) = restartPending s \<and> 0 < busy s)
    \<or> (if restartPending s then isActive (ws_step dt s) else status (ws_step dt s) = Stopped)"
proof -
  let ?t = "after_ticks dt s"
  note a = after_ticks_facts[OF assms(1) assms(3)]
  have st: "status ?t = Stopping" by (rule a(9)[OF assms(2)])
  show ?thesis
  proof (cases "curProcessing ?t = 0")
    case True
    have fu: "ws_inv None [] 0 (finish_stop ?t)" "st_inv (finish_stop ?t)" using finish_stop_inv[OF a(1,2)] by blast+
    note c = finish_stop_cases(2)[OF a(1,2) st True]
    note e = after_expiry_facts[OF fu, of dt]
    have "status (after_expiry dt (finish_stop ?t)) = status (finish_stop ?t)" using e(3) by (simp add: only_exits_def)
    hence "if restartPending s then isActive (after_expiry dt (finish_stop ?t)) else status (after_expiry dt (finish_stop ?t)) = Stopped"
      using c a(7) unfolding isActive_def by simp
    thus ?thesis unfolding step_parts using status_dispatch[OF e(1,2)] by (auto simp: isActive_def split: if_splits)
  next
    case False
    have u: "finish_stop ?t = ?t" by (rule finish_stop_skip) (use False in simp)
    have na: "\<not> isActive ?t" using st by (simp add: isActive_def)
    have "ws_step dt s = ?t" unfolding step_parts u using na status_dispatch[OF a(1,2)] by (simp add: after_expiry_def)
    moreover have "0 < busy s" using a(10) False by blast
    ultimately show ?thesis using st a(7) by simp
  qed
qed

lemma hand_off_now: "now (fst (hand_off s)) = now s"
proof -
  obtain g s1 where g: "take_gor s = (g, s1)" by (metis prod.exhaust)
  obtain buf s2 where b: "take_jobs (hand_k s) s1 = (buf, s2)" by (metis prod.exhaust)
  have "now s1 = now s" using g by (auto simp: take_gor_def spawn_def Let_def ws_prims split: if_splits)
  moreover have "now s2 = now s1" using b by (auto simp: take_jobs_def Let_def split: prod.splits)
  moreover have "now (give_batch g buf s2) = now s2" by (simp add: give_batch_def begin_job_def Let_def ws_prims)
  ultimately show ?thesis by (simp add: hand_off_def g b)
qed

lemma dispatch_now [simp]: "now (ws_dispatch s) = now s"
proof (induction s rule: ws_dispatch.induct)
  case (1 s)
  obtain s' go where h: "hand_off s = (s', go)" by (metis prod.exhaust)
  then have "now s' = now s" using hand_off_now [of s] by simp
  with 1 h show ?case by (subst ws_dispatch.simps) auto
qed

lemma advance_one: "0 < dt \<Longrightarrow> dt \<le> STEP \<Longrightarrow> ws_advance dt s = ws_step dt s"
  by (subst ws_advance.simps) (simp add: Let_def, subst ws_advance.simps, simp)

section \<open>Properties\<close>

lemma open_when_idle:
  assumes "ws_good s" "isActive s" "1 \<le> limit s" "busy s = 0"
  shows "open_jobs s = {} \<and> status s = Idle"
proof -
  note g = ws_goodD[OF assms(1)]
  have q: "queue s = []" "parked s = []" using g(3) assms(2-4) by (simp_all add: ws_ready_def)
  have c: "curProcessing s = 0" using busy_pos[OF g(1)] assms(4) cur_nonneg[OF g(1)] by simp
  have "taken_of None s x = []" if x: "x \<in> set (gors s)" for x
  proof -
    have "(\<Sum>x\<in>set (gors s). held_of None s x) = 0" using g(1) c by (simp add: ws_inv_unfold flip: of_nat_sum)
    thus ?thesis using x by (simp add: held_of_def taken_of_def)
  qed
  hence "live None [] s = {#}" using q by (simp add: live_def)
  moreover have "live None [] s = mset_set (open_jobs s)" using g(1) by (simp add: ws_inv_unfold)
  ultimately have "open_jobs s = {}" by (simp add: mset_set_empty_iff)
  moreover have "status s = Idle" using g(2) assms(2) c by (auto simp: isActive_def st_inv_def)
  ultimately show ?thesis by blast
qed

lemma drains_from:
  "ws_good s \<Longrightarrow> isActive s \<Longrightarrow> ctx s = None \<Longrightarrow> 1 \<le> limit s \<Longrightarrow>
    \<exists>n\<le>pot s. open_jobs ((ws_step STEP ^^ n) s) = {} \<and> status ((ws_step STEP ^^ n) s) = Idle"
proof (induction "pot s" arbitrary: s rule: less_induct)
  case less
  show ?case
  proof (cases "busy s = 0")
    case True
    thus ?thesis using open_when_idle[OF less.prems(1,2,4) True] by (intro exI[of _ 0]) simp
  next
    case False
    let ?t = "ws_step STEP s"
    have p: "pot ?t < pot s" using step_calms(2)[OF less.prems(1) STEP_pos refl] False by simp
    note a = step_active[OF less.prems(1-3) STEP_pos]
    obtain n where "n \<le> pot ?t" "open_jobs ((ws_step STEP ^^ n) ?t) = {}" "status ((ws_step STEP ^^ n) ?t) = Idle"
      using less.hyps[OF p step_good[OF less.prems(1)] a(1,2)] a(3) less.prems(4) by auto
    thus ?thesis using p by (intro exI[of _ "Suc n"]) (simp add: funpow_Suc_right del: funpow.simps)
  qed
qed

lemma stops_from:
  "ws_good s \<Longrightarrow> status s = Stopping \<Longrightarrow>
    \<exists>n\<le>Suc (pot s). if restartPending s then isActive ((ws_step STEP ^^ n) s) else status ((ws_step STEP ^^ n) s) = Stopped"
proof (induction "pot s" arbitrary: s rule: less_induct)
  case less
  let ?t = "ws_step STEP s"
  from step_stopping[OF less.prems STEP_pos] show ?case
  proof
    assume a: "status ?t = Stopping \<and> restartPending ?t = restartPending s \<and> 0 < busy s"
    have p: "pot ?t < pot s" by (rule step_calms(2)[OF less.prems(1) STEP_pos refl]) (use a in simp)
    obtain n where "n \<le> Suc (pot ?t)" "if restartPending s then isActive ((ws_step STEP ^^ n) ?t) else status ((ws_step STEP ^^ n) ?t) = Stopped"
      using less.hyps[OF p step_good[OF less.prems(1)]] a by auto
    thus ?thesis using p by (intro exI[of _ "Suc n"]) (simp add: funpow_Suc_right del: funpow.simps)
  next
    assume "if restartPending s then isActive ?t else status ?t = Stopped"
    thus ?thesis by (intro exI[of _ "Suc 0"]) simp
  qed
qed

text \<open>
  C11: an active worker finishes what it has. From any reachable state in which the worker is active with a limit
  of at least one and its context is not done, the clock alone brings it to \<open>Idle\<close> with no job queued or
  running, within as many steps of 40 ms as the open jobs still need.
\<close>

theorem active_worker_drains:
  assumes "ws_reach s" "isActive s" "ctx s = None" "1 \<le> limit s"
  shows "\<exists>n\<le>pot s. open_jobs ((ws_step STEP ^^ n) s) = {} \<and> status ((ws_step STEP ^^ n) s) = Idle"
  using drains_from[OF reach_good[OF assms(1)] assms(2-4)] .

theorem active_worker_drains_witness:
  "\<exists>n\<le>pot demo_run. open_jobs ((ws_step STEP ^^ n) demo_run) = {} \<and> status ((ws_step STEP ^^ n) demo_run) = Idle"
proof -
  have "isActive demo_run \<and> ctx demo_run = None \<and> 1 \<le> limit demo_run" by code_simp
  thus ?thesis using active_worker_drains[OF demo_reach] by blast
qed

text \<open>
  C12: a stop ends. In any reachable state but \<open>Initiated\<close> (where \<open>Stop\<close> returns an error) \<open>stop\<close> returns \<open>nil\<close>, and from
  there the clock alone brings the worker to \<open>Stopped\<close> with no goroutine left, within one step of 40 ms more than the open
  jobs need. The exception is a stop while a restart waits, which changes nothing: the worker then comes back to an
  active status.
\<close>

theorem stop_completes:
  assumes "ws_reach s" "status s \<noteq> Initiated"
  shows "snd (ws_stop s) = None
    \<and> (\<exists>n\<le>Suc (pot s). let t = (ws_step STEP ^^ n) (fst (ws_stop s)) in
        if restartPending s then isActive t else status t = Stopped \<and> gors t = [] \<and> pool t = [])"
proof -
  let ?s = "fst (ws_stop s)"
  have g: "ws_good ?s" using stop_good reach_good[OF assms(1)] by blast
  have n: "snd (ws_stop s) = None" "restartPending ?s = restartPending s" "pot ?s = pot s" "status ?s \<in> {Stopping, Stopped}"
    using assms(2) by (simp_all add: ws_stop_def setStatus_eq pot_def open_jobs_def)
  have "\<exists>n\<le>Suc (pot s). if restartPending s then isActive ((ws_step STEP ^^ n) ?s) else status ((ws_step STEP ^^ n) ?s) = Stopped"
  proof (cases "status ?s = Stopping")
    case True
    then show ?thesis using stops_from[OF g True] n(2,3) by simp
  next
    case False
    then have "status ?s = Stopped" "\<not> restartPending s" using n(2,4) ws_goodD(2)[OF g] by (auto simp: st_inv_def)
    then show ?thesis by (intro exI[of _ 0]) simp
  qed
  moreover have "gors ((ws_step STEP ^^ n) ?s) = [] \<and> pool ((ws_step STEP ^^ n) ?s) = []" if "status ((ws_step STEP ^^ n) ?s) = Stopped" for n
  proof -
    have "ws_good ((ws_step STEP ^^ n) ?s)" using g by (induction n) (simp_all add: step_good)
    then have "ws_inv None [] 0 ((ws_step STEP ^^ n) ?s)" "st_inv ((ws_step STEP ^^ n) ?s)" by (blast dest: ws_goodD)+
    then show ?thesis using that by (simp add: ws_inv_unfold st_inv_def)
  qed
  ultimately show ?thesis using n(1) unfolding Let_def by metis
qed

theorem stop_completes_witness:
  "status demo_run = Running \<and> (\<exists>n. status ((ws_step STEP ^^ n) (fst (ws_stop demo_run))) = Stopped \<and> gors ((ws_step STEP ^^ n) (fst (ws_stop demo_run))) = [])
    \<and> (\<exists>n. isActive ((ws_step STEP ^^ n) (fst (ws_stop (ws_call CRestart demo_run)))))"
proof -
  have "status demo_run = Running \<and> \<not> restartPending demo_run" by code_simp
  moreover have "status (ws_call CRestart demo_run) = Stopping \<and> restartPending (ws_call CRestart demo_run)" by code_simp
  ultimately show ?thesis
    using stop_completes[OF demo_reach] stop_completes[OF ws_reach_call[OF demo_reach], of CRestart] by (auto simp: Let_def)
qed

end
