(* ===== verification/Agenda.thy ===== *)
theory Agenda
  imports Prelude "HOL-Library.Multiset"
begin

text \<open>
  The kernel of the discrete-event simulations (\<open>lib/heromap/pool.ts\<close> and \<open>stores.ts\<close>): a list of timers kept in
  the order of their times, and of their setting when the times are equal; the loop that takes the first and
  fires it until none is left; and the log of events through which a state is rebuilt. What a timer does when it
  fires is data (the closures of the source, one constructor each). Two locales state what a simulation gives
  (a weight that every firing lowers; a state that only events change) and prove what follows.
\<close>

section \<open>Results\<close>

fun bindE :: "'e + 'a \<Rightarrow> ('a \<Rightarrow> 'e + 'b) \<Rightarrow> 'e + 'b" where
  "bindE (Inl e) f = Inl e"
| "bindE (Inr a) f = f a"

lemma bindE_Inr: "bindE m f = Inr b \<longleftrightarrow> (\<exists>a. m = Inr a \<and> f a = Inr b)"
  by (cases m) auto

section \<open>Timers\<close>

record 'f Timer =
  t_at :: int
  t_seq :: nat
  t_fire :: 'f

record 'f Agenda =
  timers :: "'f Timer list"
  seq :: nat

abbreviation timer_key :: "'f Timer \<Rightarrow> int \<times> nat" where
  "timer_key t \<equiv> (t_at t, t_seq t)"

definition no_timers :: "'f Agenda" where
  "no_timers = \<lparr>timers = [], seq = 0\<rparr>"

text \<open>\<open>timers.push(\<dots>)\<close>, then \<open>timers.sort((a, b) => a.at - b.at || a.seq - b.seq)\<close>.\<close>

definition set_timer :: "int \<Rightarrow> 'f \<Rightarrow> 'f Agenda \<Rightarrow> 'f Agenda" where
  "set_timer at f ag =
    ag\<lparr>timers := sort_key timer_key (timers ag @ [\<lparr>t_at = at, t_seq = seq ag, t_fire = f\<rparr>]), seq := seq ag + 1\<rparr>"

text \<open>To evaluate it: on timers already in order, the sort only puts the new one in its place.\<close>

fun in_order :: "'f Timer list \<Rightarrow> bool" where
  "in_order (t # u # ts) \<longleftrightarrow> (t_at t < t_at u \<or> t_at t = t_at u \<and> t_seq t \<le> t_seq u) \<and> in_order (u # ts)"
| "in_order _ \<longleftrightarrow> True"

fun put_in :: "'f Timer \<Rightarrow> 'f Timer list \<Rightarrow> 'f Timer list" where
  "put_in t [] = [t]"
| "put_in t (u # us) = (if t_at t < t_at u \<or> t_at t = t_at u \<and> t_seq t < t_seq u then t # u # us else u # put_in t us)"

lemma in_order_sorted: "in_order ts \<longleftrightarrow> sorted (map timer_key ts)"
proof (induction ts rule: in_order.induct)
  case (1 t u ts)
  have "timer_key t \<le> timer_key u \<longleftrightarrow> t_at t < t_at u \<or> t_at t = t_at u \<and> t_seq t \<le> t_seq u" by auto
  thus ?case unfolding in_order.simps list.map sorted2 1[unfolded list.map] by blast
qed auto

lemma put_in_set: "set (put_in t us) = insert t (set us)"
  by (induction us) auto

lemma sort_put_in: "sorted (map timer_key ts) \<Longrightarrow> sort_key timer_key (ts @ [t]) = put_in t ts"
proof (induction ts)
  case (Cons u us)
  hence le: "\<forall>x\<in>set us. timer_key u \<le> timer_key x" and IH: "sort_key timer_key (us @ [t]) = put_in t us" by auto
  have "insort_key timer_key u (put_in t us) = put_in t (u # us)"
  proof (cases "timer_key t < timer_key u")
    case True
    moreover have "put_in t us = t # us" using True le by (cases us) (auto simp: less_prod_def less_eq_prod_def)
    moreover have "insort_key timer_key u us = u # us" using le by (cases us) auto
    ultimately show ?thesis by (auto simp: less_prod_def less_eq_prod_def)
  next
    case False
    hence "\<forall>x\<in>set (put_in t us). timer_key u \<le> timer_key x" using le by (auto simp: put_in_set)
    hence "insort_key timer_key u (put_in t us) = u # put_in t us" by (cases "put_in t us") auto
    thus ?thesis using False by (auto simp: less_prod_def)
  qed
  thus ?case using IH by simp
qed simp

lemma set_timer_code [code]:
  "set_timer at f ag =
    (let t = \<lparr>t_at = at, t_seq = seq ag, t_fire = f\<rparr>; ts = timers ag
     in ag\<lparr>timers := (if in_order ts then put_in t ts else sort_key timer_key (ts @ [t])), seq := seq ag + 1\<rparr>)"
  by (simp add: set_timer_def Let_def in_order_sorted sort_put_in)

text \<open>
  \<open>for (let t = timers.shift(); t; t = timers.shift()) t.fire(t.at)\<close>: None when it never ends, an error when a
  timer throws.
\<close>

partial_function (option) des_run ::
  "('s \<Rightarrow> 'f Agenda) \<Rightarrow> ('f Agenda \<Rightarrow> 's \<Rightarrow> 's) \<Rightarrow> ('f \<Rightarrow> int \<Rightarrow> 's \<Rightarrow> 'e + 's) \<Rightarrow> 's \<Rightarrow> ('e + 's) option" where
  "des_run get put fire s =
    (case timers (get s) of
       [] \<Rightarrow> Some (Inr s)
     | t # ts \<Rightarrow>
        (case fire (t_fire t) (t_at t) (put ((get s)\<lparr>timers := ts\<rparr>) s) of
           Inl e \<Rightarrow> Some (Inl e)
         | Inr s' \<Rightarrow> des_run get put fire s'))"

declare des_run.simps [code]

lemma set_timer_mset: "mset (timers (set_timer at f ag)) = add_mset \<lparr>t_at = at, t_seq = seq ag, t_fire = f\<rparr> (mset (timers ag))"
  by (simp add: set_timer_def)

lemma set_timer_set: "set (timers (set_timer at f ag)) = insert \<lparr>t_at = at, t_seq = seq ag, t_fire = f\<rparr> (set (timers ag))"
  by (auto simp: set_timer_def)

text \<open>A sum over what is timed; the weight of an agenda.\<close>

definition timer_sum :: "('f \<Rightarrow> nat) \<Rightarrow> 'f Agenda \<Rightarrow> nat" where
  "timer_sum w ag = sum_list (map (w \<circ> t_fire) (timers ag))"

lemma timer_sum_set [simp]: "timer_sum w (set_timer at f ag) = w f + timer_sum w ag"
proof -
  have "timer_sum w ag' = sum_mset (image_mset (w \<circ> t_fire) (mset (timers ag')))" for ag' :: "'a Agenda"
    by (simp add: timer_sum_def sum_mset_sum_list flip: mset_map)
  thus ?thesis by (simp add: set_timer_mset)
qed

lemma timer_sum_Cons: "timers ag = t # ts \<Longrightarrow> timer_sum w ag = w (t_fire t) + timer_sum w (ag\<lparr>timers := ts\<rparr>)"
  by (simp add: timer_sum_def)

text \<open>The firings waiting, as a multiset.\<close>

definition fires :: "'f Agenda \<Rightarrow> 'f multiset" where
  "fires ag = image_mset t_fire (mset (timers ag))"

lemma fires_set [simp]: "fires (set_timer at f ag) = add_mset f (fires ag)"
  by (simp add: fires_def set_timer_mset)

lemma fires_Cons: "timers ag = t # ts \<Longrightarrow> fires ag = add_mset (t_fire t) (fires (ag\<lparr>timers := ts\<rparr>))"
  by (simp add: fires_def)

lemma fires_empty: "timers ag = [] \<longleftrightarrow> fires ag = {#}"
  by (simp add: fires_def)

lemma fires_no_timers [simp]: "fires no_timers = {#}"
  by (simp add: fires_def no_timers_def)

text \<open>What a selector picks out of the firings that wait.\<close>

definition fire_jobs :: "('f \<Rightarrow> 'a option) \<Rightarrow> 'f multiset \<Rightarrow> 'a multiset" where
  "fire_jobs g M = image_mset the (filter_mset (\<lambda>x. x \<noteq> None) (image_mset g M))"

lemma fire_jobs_add [simp]: "fire_jobs g (add_mset f M) = (case g f of Some x \<Rightarrow> add_mset x (fire_jobs g M) | None \<Rightarrow> fire_jobs g M)"
  by (auto simp: fire_jobs_def split: option.splits)

text \<open>The agenda stays in order, so the timer that fires is due first.\<close>

definition agenda_ok :: "int \<Rightarrow> 'f Agenda \<Rightarrow> bool" where
  "agenda_ok now ag \<longleftrightarrow> sorted (map timer_key (timers ag)) \<and> (\<forall>t\<in>set (timers ag). now \<le> t_at t)"

lemma agenda_ok_set: "agenda_ok now ag \<Longrightarrow> now \<le> at \<Longrightarrow> agenda_ok now (set_timer at f ag)"
  by (simp add: agenda_ok_def set_timer_set) (simp add: set_timer_def)

lemma agenda_ok_shift:
  assumes "agenda_ok now ag" "timers ag = t # ts"
  shows "now \<le> t_at t \<and> agenda_ok (t_at t) (ag\<lparr>timers := ts\<rparr>)"
  using assms by (auto simp: agenda_ok_def)

section \<open>A simulation that ends\<close>

locale des =
  fixes get :: "'s \<Rightarrow> 'f Agenda"
    and put :: "'f Agenda \<Rightarrow> 's \<Rightarrow> 's"
    and fire :: "'f \<Rightarrow> int \<Rightarrow> 's \<Rightarrow> 'e + 's"
    and weight :: "'s \<Rightarrow> nat"
  assumes fire_lowers:
    "timers (get s) = t # ts \<Longrightarrow> fire (t_fire t) (t_at t) (put ((get s)\<lparr>timers := ts\<rparr>) s) = Inr s' \<Longrightarrow> weight s' < weight s"
begin

lemma run_returns: "\<exists>r. des_run get put fire s = Some r"
proof (induction "weight s" arbitrary: s rule: less_induct)
  case less
  show ?case
  proof (cases "timers (get s)")
    case Nil
    thus ?thesis by (subst des_run.simps) simp
  next
    case (Cons t ts)
    let ?r = "fire (t_fire t) (t_at t) (put ((get s)\<lparr>timers := ts\<rparr>) s)"
    show ?thesis
    proof (cases ?r)
      case (Inr s')
      thus ?thesis using less[OF fire_lowers[OF Cons Inr]] Cons by (subst des_run.simps) simp
    qed (use Cons in \<open>subst des_run.simps, simp\<close>)
  qed
qed

text \<open>What every firing keeps holds at the end, with no timer left.\<close>

lemma run_invariant:
  assumes "des_run get put fire s = Some (Inr e)" "I s"
    and "\<And>s t ts s'. I s \<Longrightarrow> timers (get s) = t # ts \<Longrightarrow> fire (t_fire t) (t_at t) (put ((get s)\<lparr>timers := ts\<rparr>) s) = Inr s' \<Longrightarrow> I s'"
  shows "I e \<and> timers (get e) = []"
  using assms(1,2)
proof (induction "weight s" arbitrary: s rule: less_induct)
  case less
  show ?case
  proof (cases "timers (get s)")
    case Nil
    thus ?thesis using less.prems by (subst (asm) des_run.simps) simp
  next
    case (Cons t ts)
    let ?r = "fire (t_fire t) (t_at t) (put ((get s)\<lparr>timers := ts\<rparr>) s)"
    obtain s' where s': "?r = Inr s'" "des_run get put fire s' = Some (Inr e)"
      using less.prems(1) Cons by (subst (asm) des_run.simps) (auto split: sum.splits)
    show ?thesis using less.hyps[OF fire_lowers[OF Cons s'(1)] s'(2)] assms(3)[OF less.prems(2) Cons s'(1)] by blast
  qed
qed

text \<open>A run that throws does so at a firing from a state the invariant covers.\<close>

lemma run_error:
  assumes "des_run get put fire s = Some (Inl err)" "I s"
    and "\<And>s t ts s'. I s \<Longrightarrow> timers (get s) = t # ts \<Longrightarrow> fire (t_fire t) (t_at t) (put ((get s)\<lparr>timers := ts\<rparr>) s) = Inr s' \<Longrightarrow> I s'"
  obtains s' t ts where "I s'" "timers (get s') = t # ts" "fire (t_fire t) (t_at t) (put ((get s')\<lparr>timers := ts\<rparr>) s') = Inl err"
proof -
  have "\<exists>s' t ts. I s' \<and> timers (get s') = t # ts \<and> fire (t_fire t) (t_at t) (put ((get s')\<lparr>timers := ts\<rparr>) s') = Inl err"
    using assms(1,2)
  proof (induction "weight s" arbitrary: s rule: less_induct)
    case less
    show ?case
    proof (cases "timers (get s)")
      case Nil
      thus ?thesis using less.prems by (subst (asm) des_run.simps) simp
    next
      case (Cons t ts)
      let ?r = "fire (t_fire t) (t_at t) (put ((get s)\<lparr>timers := ts\<rparr>) s)"
      show ?thesis
      proof (cases ?r)
        case (Inl e)
        thus ?thesis using less.prems Cons by (subst (asm) des_run.simps) auto
      next
        case (Inr s')
        hence "des_run get put fire s' = Some (Inl err)" using less.prems(1) Cons by (subst (asm) des_run.simps) simp
        thus ?thesis using less.hyps[OF fire_lowers[OF Cons Inr]] assms(3)[OF less.prems(2) Cons Inr] by blast
      qed
    qed
  qed
  thus thesis using that by blast
qed

end

section \<open>A state that only events change\<close>

fun replay :: "('e \<Rightarrow> 's \<Rightarrow> 'x + 's) \<Rightarrow> 'e list \<Rightarrow> 's \<Rightarrow> 'x + 's" where
  "replay ap [] s = Inr s"
| "replay ap (e # es) s = bindE (ap e s) (replay ap es)"

text \<open>The states after each event: \<open>events.map((e) => { apply(e); return \<dots> })\<close>.\<close>

fun replay_states :: "('e \<Rightarrow> 's \<Rightarrow> 'x + 's) \<Rightarrow> 'e list \<Rightarrow> 's \<Rightarrow> 'x + 's list" where
  "replay_states ap [] s = Inr []"
| "replay_states ap (e # es) s = bindE (ap e s) (\<lambda>s'. bindE (replay_states ap es s') (\<lambda>ss. Inr (s' # ss)))"

lemma replay_append: "replay ap (es @ fs) s = bindE (replay ap es s) (replay ap fs)"
proof (induction es arbitrary: s)
  case (Cons e es)
  thus ?case by (cases "ap e s") auto
qed simp

lemma replay_states_append:
  "replay ap es s = Inr s' \<Longrightarrow> replay_states ap (es @ fs) s =
    bindE (replay_states ap es s) (\<lambda>a. bindE (replay_states ap fs s') (\<lambda>b. Inr (a @ b)))"
proof (induction es arbitrary: s)
  case Nil
  thus ?case by (cases "replay_states ap fs s'") auto
next
  case (Cons e es)
  then obtain u where u: "ap e s = Inr u" "replay ap es u = Inr s'" by (auto simp: bindE_Inr)
  show ?case using Cons.IH[OF u(2)] u(1)
    by (cases "replay_states ap es u"; cases "replay_states ap fs s'") auto
qed

lemma replay_states_last: "replay ap es s = Inr s' \<longleftrightarrow> (\<exists>ss. replay_states ap es s = Inr ss \<and> s' = last (s # ss))"
proof (induction es arbitrary: s)
  case (Cons e es)
  show ?case
  proof (cases "ap e s")
    case (Inr u)
    thus ?thesis using Cons[of u] by (cases "replay_states ap es u") auto
  qed simp
qed auto

text \<open>
  The law: \<open>emit\<close> logs the event and changes the state as \<open>apply\<close> does. Then the state of the simulation is
  always what a replay of its log gives, and a condition that every emit leaves holding holds in every state the
  replay shows.
\<close>

locale event_sourced =
  fixes ap :: "'e \<Rightarrow> 'v \<Rightarrow> 'x + 'v"
    and view :: "'s \<Rightarrow> 'v"
    and logged :: "'s \<Rightarrow> 'e list"
    and emit :: "'e \<Rightarrow> 's \<Rightarrow> 'x + 's"
  assumes emit_applies: "emit e s = Inr s' \<Longrightarrow> ap e (view s) = Inr (view s') \<and> logged s' = logged s @ [e]"
begin

definition faithful :: "'v \<Rightarrow> 's \<Rightarrow> bool" where
  "faithful v0 s \<longleftrightarrow> replay ap (logged s) v0 = Inr (view s)"

lemma faithful_emit: "faithful v0 s \<Longrightarrow> emit e s = Inr s' \<Longrightarrow> faithful v0 s'"
  using emit_applies[of e s s'] by (simp add: faithful_def replay_append)

lemma faithful_start: "logged s = [] \<Longrightarrow> view s = v0 \<Longrightarrow> faithful v0 s"
  by (simp add: faithful_def)

definition always :: "('v \<Rightarrow> bool) \<Rightarrow> 'v \<Rightarrow> 's \<Rightarrow> bool" where
  "always P v0 s \<longleftrightarrow> (\<exists>ss. replay_states ap (logged s) v0 = Inr ss \<and> (\<forall>v\<in>set ss. P v))"

lemma always_emit:
  assumes "faithful v0 s" "always P v0 s" "emit e s = Inr s'" "P (view s')"
  shows "always P v0 s'"
proof -
  obtain ss where ss: "replay_states ap (logged s) v0 = Inr ss" "\<forall>v\<in>set ss. P v" using assms(2) by (auto simp: always_def)
  have "replay_states ap (logged s') v0 = Inr (ss @ [view s'])"
    using replay_states_append[of ap "logged s" v0 "view s" "[e]"] assms(1) emit_applies[OF assms(3)] ss(1)
    by (simp add: faithful_def)
  thus ?thesis using ss(2) assms(4) by (auto simp: always_def)
qed

lemma always_start: "logged s = [] \<Longrightarrow> always P v0 s"
  by (simp add: always_def)

end

end
