(* ===== verification/Hero_Pool.thy ===== *)
theory Hero_Pool
  imports Agenda Strategy
begin

text \<open>
  \<open>docs/src/lib/heromap/pool.ts\<close>: one worker as a discrete-event simulation, the event loop that hands jobs out
  and the pool of goroutines that runs them. Plans in, events out. Times are whole milliseconds. \<open>waiting\<close>, a
  record of queues by source id, is an association list; the timers' closures are the constructors of \<open>Fire\<close>.
  Every \<open>throw\<close> of the source is a constructor of \<open>PoolErr\<close>, and \<open>PoolTypeErr\<close> is the TypeError that reading a
  field of \<open>undefined\<close> raises.
\<close>

section \<open>Plans and events\<close>

record SourceSpec =
  ss_id :: string
  ss_priority :: bool

text \<open>The four strategies are those of \<open>StrategyName\<close>: \<open>priority\<close>, \<open>roundrobin\<close>, \<open>maxlen\<close>, \<open>minlen\<close>.\<close>

record JobSpec =
  js_id :: string
  js_source :: string
  js_at :: int
  js_work :: int
  js_priority :: "int option"

datatype PoolOp = OpPause | OpResume | OpStop | OpRestart

datatype ControlSpec = CtlOp int PoolOp | CtlTune int int

datatype StrategySpec = OneStrategy StrategyName | StrategyTimes "(int \<times> StrategyName) list"

record PoolPlan =
  pp_limit :: int
  pp_idle :: "nat list"
  pp_turn :: nat
  pp_sources :: "SourceSpec list"
  pp_strategy :: "StrategySpec option"
  pp_jobs :: "JobSpec list"
  pp_controls :: "ControlSpec list"
  pp_wake :: int
  pp_gap :: int
  pp_after :: int

datatype PoolEvent =
    PLand int string string
  | PDispatch int string string nat bool int "StrategyName option"
  | PDone int string nat
  | PIdle int nat
  | PExit int nat
  | PControl int PoolOp
  | PTune int "int option"

fun pe_at :: "PoolEvent \<Rightarrow> int" where
  "pe_at (PLand at job source) = at"
| "pe_at (PDispatch at job source ring spawned waiting strategy) = at"
| "pe_at (PDone at job ring) = at"
| "pe_at (PIdle at ring) = at"
| "pe_at (PExit at ring) = at"
| "pe_at (PControl at op) = at"
| "pe_at (PTune at to) = at"

datatype PoolErr = PoolTypeErr | BatchErr int int | ResumeErr nat int | RestartErr int | TuneInactive int | TuneNotHigher int int

record HPool =
  hp_limit :: int
  hp_busy :: "nat list"
  hp_idle :: "nat list"
  hp_turn :: nat
  hp_waiting :: "(string \<times> string list) list"

record PoolState =
  ps_at :: int
  ps_busy :: "nat list"
  ps_idle :: "nat list"
  ps_waiting :: "(string \<times> string list) list"

section \<open>Tracking: the pool and what an event does to it\<close>

definition lowestFree :: "nat list \<Rightarrow> nat" where
  "lowestFree taken = lowest_from taken 0"

text \<open>\<open>new Map(plan.jobs.map((j) => [j.id, j]))\<close>: of two jobs with one id, the later.\<close>

definition job_of :: "PoolPlan \<Rightarrow> string \<Rightarrow> JobSpec option" where
  "job_of plan jid = map_of (rev (map (\<lambda>j. (js_id j, j)) (pp_jobs plan))) jid"

definition by_priority :: "PoolPlan \<Rightarrow> string \<Rightarrow> bool" where
  "by_priority plan source \<longleftrightarrow> source \<in> ss_id ` set (filter ss_priority (pp_sources plan))"

definition rank :: "PoolPlan \<Rightarrow> string \<Rightarrow> int" where
  "rank plan jid = (case job_of plan jid of Some j \<Rightarrow> (case js_priority j of Some p \<Rightarrow> p | None \<Rightarrow> 0) | None \<Rightarrow> 0)"

definition no_waiting :: "PoolPlan \<Rightarrow> (string \<times> string list) list" where
  "no_waiting plan = fold (\<lambda>s. AList.update (ss_id s) []) (pp_sources plan) []"

definition fresh_pool :: "PoolPlan \<Rightarrow> HPool" where
  "fresh_pool plan = \<lparr>hp_limit = pp_limit plan, hp_busy = [], hp_idle = pp_idle plan, hp_turn = pp_turn plan,
     hp_waiting = no_waiting plan\<rparr>"

text \<open>\<open>while (i > 0 && rank(queue[i - 1]) > rank(e.job)) i--\<close>\<close>

fun land_index :: "(string \<Rightarrow> int) \<Rightarrow> string list \<Rightarrow> string \<Rightarrow> nat \<Rightarrow> nat" where
  "land_index rk q job 0 = 0"
| "land_index rk q job (Suc i) = (if rk (q ! i) > rk job then land_index rk q job i else Suc i)"

definition land_in :: "(string \<Rightarrow> int) \<Rightarrow> bool \<Rightarrow> string \<Rightarrow> string list \<Rightarrow> string list" where
  "land_in rk prio job q = splice_in (if prio then land_index rk q job (length q) else length q) job q"

fun pool_apply :: "PoolPlan \<Rightarrow> PoolEvent \<Rightarrow> HPool \<Rightarrow> PoolErr + HPool" where
  "pool_apply plan (PLand at job source) p =
    (case map_of (hp_waiting p) source of
       None \<Rightarrow> Inl PoolTypeErr
     | Some q \<Rightarrow> Inr (p\<lparr>hp_waiting := AList.update source (land_in (rank plan) (by_priority plan source) job q) (hp_waiting p)\<rparr>))"
| "pool_apply plan (PDispatch at job source ring spawned waiting strategy) p =
    (case map_of (hp_waiting p) source of
       None \<Rightarrow> Inl PoolTypeErr
     | Some q \<Rightarrow> Inr (p\<lparr>hp_waiting := AList.update source (filter (\<lambda>id. id \<noteq> job) q) (hp_waiting p),
         hp_idle := filter (\<lambda>r. r \<noteq> ring) (hp_idle p),
         hp_busy := sort (hp_busy p @ [ring]),
         hp_turn := (if strategy = Some RoundRobin
           then (case find_index (\<lambda>s. ss_id s = source) (pp_sources plan) of Some i \<Rightarrow> Suc i | None \<Rightarrow> 0) mod length (pp_sources plan)
           else hp_turn p)\<rparr>))"
| "pool_apply plan (PDone at job ring) p = Inr (p\<lparr>hp_busy := filter (\<lambda>r. r \<noteq> ring) (hp_busy p)\<rparr>)"
| "pool_apply plan (PIdle at ring) p = Inr (p\<lparr>hp_idle := hp_idle p @ [ring]\<rparr>)"
| "pool_apply plan (PExit at ring) p = Inr (p\<lparr>hp_idle := filter (\<lambda>r. r \<noteq> ring) (hp_idle p)\<rparr>)"
| "pool_apply plan (PControl at op) p = Inr (if op = OpRestart then p\<lparr>hp_idle := hp_idle p @ [0]\<rparr> else p)"
| "pool_apply plan (PTune at to) p = Inr (case to of Some n \<Rightarrow> p\<lparr>hp_limit := n\<rparr> | None \<Rightarrow> p)"

section \<open>The simulation\<close>

datatype Fire = FControl ControlSpec | FLand JobSpec | FWake | FStep | FFinish string nat

record PoolSim =
  sm_pool :: HPool
  sm_events :: "PoolEvent list"
  sm_agenda :: "Fire Agenda"
  sm_paused :: bool
  sm_stopped :: bool
  sm_stepping :: bool

definition emit_pool :: "PoolPlan \<Rightarrow> PoolEvent \<Rightarrow> PoolSim \<Rightarrow> PoolErr + PoolSim" where
  "emit_pool plan e s =
    bindE (pool_apply plan e (sm_pool s)) (\<lambda>p. Inr (s\<lparr>sm_events := sm_events s @ [e], sm_pool := p\<rparr>))"

definition pool_timer :: "int \<Rightarrow> Fire \<Rightarrow> PoolSim \<Rightarrow> PoolSim" where
  "pool_timer at f s = s\<lparr>sm_agenda := set_timer at f (sm_agenda s)\<rparr>"

text \<open>\<open>timeline.findLast(([at]) => at <= now) ?? timeline[0]\<close>\<close>

definition timeline :: "PoolPlan \<Rightarrow> (int \<times> StrategyName) list" where
  "timeline plan = (case pp_strategy plan of
     Some (StrategyTimes ts) \<Rightarrow> ts | Some (OneStrategy st) \<Rightarrow> [(0, st)] | None \<Rightarrow> [(0, Priority)])"

definition strategy_at :: "PoolPlan \<Rightarrow> int \<Rightarrow> PoolErr + StrategyName" where
  "strategy_at plan now =
    (case List.find (\<lambda>(at, st). at \<le> now) (rev (timeline plan)) of
       Some (at, st) \<Rightarrow> Inr st
     | None \<Rightarrow> (case timeline plan of [] \<Rightarrow> Inl PoolTypeErr | (at, st) # ts \<Rightarrow> Inr st))"

definition pool_pending :: "HPool \<Rightarrow> nat" where
  "pool_pending p = sum_list (map (\<lambda>(id, q). length q) (hp_waiting p))"

definition pool_ready :: "PoolSim \<Rightarrow> bool" where
  "pool_ready s \<longleftrightarrow> \<not> sm_paused s \<and> \<not> sm_stopped s \<and> int (length (hp_busy (sm_pool s))) < hp_limit (sm_pool s)
     \<and> 0 < pool_pending (sm_pool s)"

definition wait_len :: "HPool \<Rightarrow> SourceSpec \<Rightarrow> nat" where
  "wait_len p s = (case map_of (hp_waiting p) (ss_id s) of Some q \<Rightarrow> length q | None \<Rightarrow> 0)"

text \<open>\<open>full.reduce((best, s) => (len(s) > len(best) ? s : best))\<close>, which throws on an empty array.\<close>

fun reduce_by :: "('a \<Rightarrow> 'a \<Rightarrow> bool) \<Rightarrow> 'a list \<Rightarrow> 'a option" where
  "reduce_by better [] = None"
| "reduce_by better (x # xs) = Some (fold (\<lambda>s best. if better s best then s else best) xs x)"

fun pool_pick :: "PoolPlan \<Rightarrow> HPool \<Rightarrow> StrategyName \<Rightarrow> SourceSpec option" where
  "pool_pick plan p MaxLen = reduce_by (\<lambda>s best. wait_len p best < wait_len p s) (filter (\<lambda>s. 0 < wait_len p s) (pp_sources plan))"
| "pool_pick plan p MinLen = reduce_by (\<lambda>s best. wait_len p s < wait_len p best) (filter (\<lambda>s. 0 < wait_len p s) (pp_sources plan))"
| "pool_pick plan p RoundRobin = List.find (\<lambda>s. 0 < wait_len p s) (rotated (hp_turn p) (pp_sources plan))"
| "pool_pick plan p Priority = (case filter (\<lambda>s. 0 < wait_len p s) (pp_sources plan) of [] \<Rightarrow> None | s # ss \<Rightarrow> Some s)"

definition choose_source :: "PoolPlan \<Rightarrow> HPool \<Rightarrow> int \<Rightarrow> PoolErr + SourceSpec \<times> StrategyName option" where
  "choose_source plan p now =
    (if 1 < length (pp_sources plan)
     then bindE (strategy_at plan now)
       (\<lambda>st. case pool_pick plan p st of Some s \<Rightarrow> Inr (s, Some st) | None \<Rightarrow> Inl PoolTypeErr)
     else (case pp_sources plan of [] \<Rightarrow> Inl PoolTypeErr | s # ss \<Rightarrow> Inr (s, None)))"

definition pool_dispatch :: "PoolPlan \<Rightarrow> int \<Rightarrow> PoolSim \<Rightarrow> PoolErr + PoolSim" where
  "pool_dispatch plan now s =
    bindE (choose_source plan (sm_pool s) now) (\<lambda>(source, strategy).
      case map_of (hp_waiting (sm_pool s)) (ss_id source) of
        Some (job # rest) \<Rightarrow>
          (let p = sm_pool s; waiting = int (pool_pending p) - 1 in
           if hp_limit p = 1 \<and> 0 < waiting then Inl (BatchErr (waiting + 1) now)
           else let spawned = (hp_idle p = []);
                    ring = (if spawned then lowestFree (hp_busy p) else last (hp_idle p))
                in bindE (emit_pool plan (PDispatch now job (ss_id source) ring spawned waiting strategy) s)
                  (\<lambda>s1. case job_of plan job of
                    None \<Rightarrow> Inl PoolTypeErr
                  | Some j \<Rightarrow> Inr (pool_timer (now + js_work j) (FFinish job ring) s1)))
      | _ \<Rightarrow> Inl PoolTypeErr)"

fun pool_retire :: "PoolPlan \<Rightarrow> int \<Rightarrow> nat list \<Rightarrow> PoolSim \<Rightarrow> PoolErr + PoolSim" where
  "pool_retire plan now [] s = Inr s"
| "pool_retire plan now (ring # rings) s = bindE (emit_pool plan (PExit now ring) s) (pool_retire plan now rings)"

definition pool_finish :: "PoolPlan \<Rightarrow> int \<Rightarrow> string \<Rightarrow> nat \<Rightarrow> PoolSim \<Rightarrow> PoolErr + PoolSim" where
  "pool_finish plan now job ring s =
    bindE (emit_pool plan (PDone now job ring) s) (\<lambda>s1.
    bindE (if sm_stopped s1 \<and> hp_busy (sm_pool s1) = []
           then pool_retire plan now (ring # rev (hp_idle (sm_pool s1))) s1
           else let stays = (length (hp_idle (sm_pool s1)) < pool_pending (sm_pool s1) \<or> hp_idle (sm_pool s1) = [])
                in emit_pool plan (if stays then PIdle now ring else PExit now ring) s1) (\<lambda>s2.
    Inr (pool_timer (now + pp_after plan) FWake s2)))"

definition pool_step :: "PoolPlan \<Rightarrow> int \<Rightarrow> PoolSim \<Rightarrow> PoolErr + PoolSim" where
  "pool_step plan now s0 =
    (let s = s0\<lparr>sm_stepping := False\<rparr> in
     if \<not> pool_ready s then Inr s
     else bindE (pool_dispatch plan now s) (\<lambda>s1.
       Inr (if pool_ready s1 then pool_timer (now + pp_gap plan) FStep (s1\<lparr>sm_stepping := True\<rparr>) else s1)))"

definition pool_wake :: "PoolPlan \<Rightarrow> int \<Rightarrow> PoolSim \<Rightarrow> PoolErr + PoolSim" where
  "pool_wake plan now s = (if \<not> sm_stepping s then pool_step plan now s else Inr s)"

text \<open>The four refusals of \<open>control\<close>, in their order.\<close>

fun control_refused :: "ControlSpec \<Rightarrow> int \<Rightarrow> PoolSim \<Rightarrow> PoolErr option" where
  "control_refused (CtlOp at OpResume) now s =
    (if sm_paused s \<and> hp_busy (sm_pool s) \<noteq> [] then Some (ResumeErr (length (hp_busy (sm_pool s))) now) else None)"
| "control_refused (CtlOp at OpRestart) now s =
    (if \<not> sm_stopped s \<or> hp_busy (sm_pool s) \<noteq> [] then Some (RestartErr now) else None)"
| "control_refused (CtlTune at to) now s =
    (if sm_paused s \<or> sm_stopped s then Some (TuneInactive now)
     else if to \<le> hp_limit (sm_pool s) then Some (TuneNotHigher to (hp_limit (sm_pool s))) else None)"
| "control_refused (CtlOp at OpPause) now s = None"
| "control_refused (CtlOp at OpStop) now s = None"

fun control_event :: "ControlSpec \<Rightarrow> int \<Rightarrow> PoolEvent" where
  "control_event (CtlTune at to) now = PTune now (Some to)"
| "control_event (CtlOp at op) now = PControl now op"

fun control_done :: "PoolPlan \<Rightarrow> ControlSpec \<Rightarrow> int \<Rightarrow> PoolSim \<Rightarrow> PoolErr + PoolSim" where
  "control_done plan (CtlOp at OpPause) now s = Inr (s\<lparr>sm_paused := True\<rparr>)"
| "control_done plan (CtlOp at OpResume) now s = Inr (pool_timer (now + pp_wake plan) FWake (s\<lparr>sm_paused := False\<rparr>))"
| "control_done plan (CtlOp at OpRestart) now s =
    Inr (pool_timer (now + pp_wake plan) FWake (s\<lparr>sm_stopped := False, sm_paused := False\<rparr>))"
| "control_done plan (CtlTune at to) now s = Inr (pool_timer (now + pp_wake plan) FWake s)"
| "control_done plan (CtlOp at OpStop) now s =
    (let s1 = s\<lparr>sm_stopped := True\<rparr> in
     if hp_busy (sm_pool s1) = [] then pool_retire plan now (rev (hp_idle (sm_pool s1))) s1 else Inr s1)"

definition pool_control :: "PoolPlan \<Rightarrow> ControlSpec \<Rightarrow> int \<Rightarrow> PoolSim \<Rightarrow> PoolErr + PoolSim" where
  "pool_control plan c now s =
    (case control_refused c now s of
       Some err \<Rightarrow> Inl err
     | None \<Rightarrow> bindE (emit_pool plan (control_event c now) s) (control_done plan c now))"

fun pool_fire :: "PoolPlan \<Rightarrow> Fire \<Rightarrow> int \<Rightarrow> PoolSim \<Rightarrow> PoolErr + PoolSim" where
  "pool_fire plan (FControl c) now s = pool_control plan c now s"
| "pool_fire plan (FLand j) now s =
    bindE (emit_pool plan (PLand now (js_id j) (js_source j)) s) (\<lambda>s1. Inr (pool_timer (now + pp_wake plan) FWake s1))"
| "pool_fire plan FWake now s = pool_wake plan now s"
| "pool_fire plan FStep now s = pool_step plan now s"
| "pool_fire plan (FFinish job ring) now s = pool_finish plan now job ring s"

fun control_at :: "ControlSpec \<Rightarrow> int" where
  "control_at (CtlOp at op) = at"
| "control_at (CtlTune at to) = at"

definition pool_start :: "PoolPlan \<Rightarrow> PoolSim" where
  "pool_start plan =
    (let s0 = \<lparr>sm_pool = fresh_pool plan, sm_events = [], sm_agenda = no_timers, sm_paused = False,
               sm_stopped = False, sm_stepping = False\<rparr>;
         s1 = fold (\<lambda>c. pool_timer (control_at c) (FControl c)) (pp_controls plan) s0
     in fold (\<lambda>j. pool_timer (js_at j) (FLand j)) (pp_jobs plan) s1)"

abbreviation put_agenda :: "Fire Agenda \<Rightarrow> PoolSim \<Rightarrow> PoolSim" where
  "put_agenda ag s \<equiv> s\<lparr>sm_agenda := ag\<rparr>"

definition pool_run :: "PoolPlan \<Rightarrow> (PoolErr + PoolSim) option" where
  "pool_run plan = des_run sm_agenda put_agenda (pool_fire plan) (pool_start plan)"

definition simulatePool :: "PoolPlan \<Rightarrow> (PoolErr + PoolEvent list) option" where
  "simulatePool plan = map_option (\<lambda>r. bindE r (\<lambda>s. Inr (sm_events s))) (pool_run plan)"

text \<open>Replays: \<open>poolStates\<close> and \<open>endState\<close>.\<close>

definition poolStates :: "PoolPlan \<Rightarrow> PoolEvent list \<Rightarrow> PoolErr + PoolState list" where
  "poolStates plan events =
    bindE (replay_states (pool_apply plan) events (fresh_pool plan))
      (\<lambda>ps. Inr (map (\<lambda>(e, p). \<lparr>ps_at = pe_at e, ps_busy = hp_busy p, ps_idle = hp_idle p, ps_waiting = hp_waiting p\<rparr>) (zip events ps)))"

definition endState :: "PoolPlan \<Rightarrow> PoolEvent list \<Rightarrow> PoolErr + int \<times> nat list \<times> nat" where
  "endState plan events =
    bindE (replay (pool_apply plan) events (fresh_pool plan)) (\<lambda>p. Inr (hp_limit p, hp_idle p, hp_turn p))"

end
