(* ===== verification/Hero_Pool_Runs.thy ===== *)
theory Hero_Pool_Runs
  imports Hero_Pool
begin

text \<open>
  What \<open>simulatePool\<close> (\<open>Hero_Pool\<close>) promises: it returns for every plan; its log, replayed through \<open>apply\<close>, gives
  the state it decided on; the rings are never shared and the limit is kept; every job that lands runs once; the
  events come in time order; and a plan that names its sources right never runs into a TypeError.
\<close>

section \<open>Waiting jobs\<close>

definition waiting_mset :: "HPool \<Rightarrow> string multiset" where
  "waiting_mset p = sum_list (map (\<lambda>(k, q). mset q) (hp_waiting p))"

lemma pending_size: "pool_pending p = size (waiting_mset p)"
proof -
  have "sum_list (map (\<lambda>(k, q). length q) al) = size (sum_list (map (\<lambda>(k, q). mset q) al))" for al :: "(string \<times> string list) list"
    by (induction al) auto
  thus ?thesis by (simp add: pool_pending_def waiting_mset_def)
qed

lemma update_mset:
  "map_of al k = Some q \<Longrightarrow> sum_list (map (\<lambda>(k, q). mset q) (AList.update k q' al)) + mset q = sum_list (map (\<lambda>(k, q). mset q) al) + mset q'"
  by (induction al) (auto simp: ac_simps split: if_splits)

lemma update_dom: "map_of al k = Some q \<Longrightarrow> dom (map_of (AList.update k q' al)) = dom (map_of al)"
  by (auto simp: update_conv')

lemma land_index_le: "land_index rk q job n \<le> n"
  by (induction n) (simp_all add: le_SucI)

lemma land_in_mset: "mset (land_in rk prio job q) = add_mset job (mset q)"
proof -
  have "mset (splice_in i job q) = add_mset job (mset q)" for i
  proof -
    have "mset (take i q) + mset (drop i q) = mset q" by (metis append_take_drop_id mset_append)
    thus ?thesis by (simp add: splice_in_def)
  qed
  thus ?thesis by (simp add: land_in_def)
qed

lemma waiting_subset: "map_of (hp_waiting p) k = Some q \<Longrightarrow> mset q \<subseteq># waiting_mset p"
proof -
  have "map_of al k = Some q \<Longrightarrow> mset q \<subseteq># sum_list (map (\<lambda>(k, q). mset q) al)" for al
    by (induction al) (auto split: if_splits intro: subset_mset.add_increasing)
  thus "map_of (hp_waiting p) k = Some q \<Longrightarrow> mset q \<subseteq># waiting_mset p" by (simp add: waiting_mset_def)
qed

text \<open>What each event does to the jobs that wait.\<close>

lemma apply_land:
  assumes "pool_apply plan (PLand at job source) p = Inr p'"
  shows "waiting_mset p' = add_mset job (waiting_mset p)" "hp_busy p' = hp_busy p" "hp_idle p' = hp_idle p" "hp_limit p' = hp_limit p"
    "dom (map_of (hp_waiting p')) = dom (map_of (hp_waiting p))"
proof -
  obtain q where q: "map_of (hp_waiting p) source = Some q"
    and p': "p' = p\<lparr>hp_waiting := AList.update source (land_in (rank plan) (by_priority plan source) job q) (hp_waiting p)\<rparr>"
    using assms by (auto split: option.splits)
  show "waiting_mset p' = add_mset job (waiting_mset p)"
    using update_mset[OF q, of "land_in (rank plan) (by_priority plan source) job q"]
    by (simp add: p' waiting_mset_def land_in_mset)
  show "hp_busy p' = hp_busy p" "hp_idle p' = hp_idle p" "hp_limit p' = hp_limit p" by (simp_all add: p')
  show "dom (map_of (hp_waiting p')) = dom (map_of (hp_waiting p))" by (simp add: p' update_dom[OF q])
qed

lemma apply_dispatch:
  assumes "pool_apply plan (PDispatch at job source ring spawned w st) p = Inr p'" "map_of (hp_waiting p) source = Some q"
  shows "waiting_mset p' + mset q = waiting_mset p + mset (filter (\<lambda>x. x \<noteq> job) q)" "hp_busy p' = sort (hp_busy p @ [ring])"
    "hp_idle p' = filter (\<lambda>r. r \<noteq> ring) (hp_idle p)" "hp_limit p' = hp_limit p"
    "dom (map_of (hp_waiting p')) = dom (map_of (hp_waiting p))"
proof -
  have w: "hp_waiting p' = AList.update source (filter (\<lambda>id. id \<noteq> job) q) (hp_waiting p)"
    using assms by auto
  show "waiting_mset p' + mset q = waiting_mset p + mset (filter (\<lambda>x. x \<noteq> job) q)"
    using update_mset[OF assms(2)] by (simp only: w waiting_mset_def)
  show "hp_busy p' = sort (hp_busy p @ [ring])" "hp_idle p' = filter (\<lambda>r. r \<noteq> ring) (hp_idle p)" "hp_limit p' = hp_limit p"
    using assms by auto
  show "dom (map_of (hp_waiting p')) = dom (map_of (hp_waiting p))" by (simp add: w update_dom[OF assms(2)])
qed

section \<open>Firings\<close>

lemma emitD:
  assumes "emit_pool plan e s = Inr s'"
  obtains p where "pool_apply plan e (sm_pool s) = Inr p" "s' = s\<lparr>sm_events := sm_events s @ [e], sm_pool := p\<rparr>"
  using assms by (auto simp: emit_pool_def bindE_Inr)

lemma pool_timer_simps [simp]:
  "sm_pool (pool_timer at f s) = sm_pool s" "sm_events (pool_timer at f s) = sm_events s" "sm_paused (pool_timer at f s) = sm_paused s"
  "sm_stopped (pool_timer at f s) = sm_stopped s" "sm_stepping (pool_timer at f s) = sm_stepping s"
  "sm_agenda (pool_timer at f s) = set_timer at f (sm_agenda s)"
  by (simp_all add: pool_timer_def)

lemma emit_fields:
  assumes "emit_pool plan e s = Inr s'"
  shows "sm_agenda s' = sm_agenda s" "sm_paused s' = sm_paused s" "sm_stopped s' = sm_stopped s" "sm_stepping s' = sm_stepping s"
    "sm_events s' = sm_events s @ [e]" "pool_apply plan e (sm_pool s) = Inr (sm_pool s')"
  using assms by (auto elim: emitD)

text \<open>Retiring the rings: one exit each.\<close>

lemma retire_effect:
  "pool_retire plan now rs s = Inr (s\<lparr>sm_events := sm_events s @ map (PExit now) rs,
     sm_pool := (sm_pool s)\<lparr>hp_idle := filter (\<lambda>r. r \<notin> set rs) (hp_idle (sm_pool s))\<rparr>\<rparr>)"
proof (induction rs arbitrary: s)
  case (Cons r rs)
  have "emit_pool plan (PExit now r) s = Inr (s\<lparr>sm_events := sm_events s @ [PExit now r],
    sm_pool := (sm_pool s)\<lparr>hp_idle := filter (\<lambda>x. x \<noteq> r) (hp_idle (sm_pool s))\<rparr>\<rparr>)" by (simp add: emit_pool_def)
  thus ?case using Cons by (simp add: conj_commute)
qed simp

text \<open>The dispatch, taken apart.\<close>

lemma dispatchD:
  assumes "pool_dispatch plan now s = Inr s'"
  obtains source strategy job rest ring j s1 sp w where
    "choose_source plan (sm_pool s) now = Inr (source, strategy)"
    "map_of (hp_waiting (sm_pool s)) (ss_id source) = Some (job # rest)"
    "ring = (if hp_idle (sm_pool s) = [] then lowestFree (hp_busy (sm_pool s)) else last (hp_idle (sm_pool s)))"
    "emit_pool plan (PDispatch now job (ss_id source) ring sp w strategy) s = Inr s1"
    "job_of plan job = Some j" "s' = pool_timer (now + js_work j) (FFinish job ring) s1"
proof -
  obtain source strategy where c: "choose_source plan (sm_pool s) now = Inr (source, strategy)"
    using assms by (auto simp: pool_dispatch_def bindE_Inr)
  obtain job rest where q: "map_of (hp_waiting (sm_pool s)) (ss_id source) = Some (job # rest)"
    using assms c by (auto simp: pool_dispatch_def split: option.splits list.splits)
  define ring where "ring = (if hp_idle (sm_pool s) = [] then lowestFree (hp_busy (sm_pool s)) else last (hp_idle (sm_pool s)))"
  define w where "w = int (pool_pending (sm_pool s)) - 1"
  have "\<not> (hp_limit (sm_pool s) = 1 \<and> 0 < w)"
    using assms c q by (auto simp: pool_dispatch_def Let_def w_def)
  then obtain s1 j where e: "emit_pool plan (PDispatch now job (ss_id source) ring (hp_idle (sm_pool s) = []) w strategy) s = Inr s1"
    "job_of plan job = Some j" "s' = pool_timer (now + js_work j) (FFinish job ring) s1"
    using assms c q unfolding ring_def w_def pool_dispatch_def Let_def
    by (auto simp: bindE_Inr split: option.splits simp del: One_nat_def)
  show thesis by (rule that[OF c q ring_def e])
qed

section \<open>It returns\<close>

fun fire_weight :: "Fire \<Rightarrow> nat" where
  "fire_weight (FControl c) = 2"
| "fire_weight (FLand j) = 5"
| "fire_weight FWake = 1"
| "fire_weight FStep = 1"
| "fire_weight (FFinish job ring) = 2"

definition pool_weight :: "PoolSim \<Rightarrow> nat" where
  "pool_weight s = timer_sum fire_weight (sm_agenda s) + 3 * pool_pending (sm_pool s)"

lemma dispatch_weight:
  assumes "pool_dispatch plan now s = Inr s'"
  shows "pool_weight s' < pool_weight s" "sm_paused s' = sm_paused s" "sm_stopped s' = sm_stopped s"
proof -
  from assms obtain source :: SourceSpec and strategy job rest ring and j :: JobSpec and s1 sp w where
    q: "map_of (hp_waiting (sm_pool s)) (ss_id source) = Some (job # rest)" and
    e: "emit_pool plan (PDispatch now job (ss_id source) ring sp w strategy) s = Inr s1"
    and s': "s' = pool_timer (now + js_work j) (FFinish job ring) s1"
    by (rule dispatchD) blast
  note f = emit_fields[OF e]
  have "size (waiting_mset (sm_pool s1)) + size (mset (job # rest)) = size (waiting_mset (sm_pool s)) + size (mset (filter (\<lambda>x. x \<noteq> job) (job # rest)))"
    using apply_dispatch(1)[OF f(6) q] by (metis size_union)
  moreover have "size (mset (filter (\<lambda>x. x \<noteq> job) (job # rest))) \<le> length rest" using length_filter_le[of "\<lambda>x. x \<noteq> job" rest] by (simp flip: size_mset del: length_filter_le)
  ultimately have "pool_pending (sm_pool s1) < pool_pending (sm_pool s)" by (simp add: pending_size)
  thus "pool_weight s' < pool_weight s" using f by (simp add: pool_weight_def s')
  show "sm_paused s' = sm_paused s" "sm_stopped s' = sm_stopped s" using f by (simp_all add: s')
qed

lemma step_weight:
  assumes "pool_step plan now s = Inr s'"
  shows "pool_weight s' \<le> pool_weight s"
proof -
  let ?s = "s\<lparr>sm_stepping := False\<rparr>"
  show ?thesis
  proof (cases "pool_ready ?s")
    case True
    obtain s1 where d: "pool_dispatch plan now ?s = Inr s1"
      and s': "s' = (if pool_ready s1 then pool_timer (now + pp_gap plan) FStep (s1\<lparr>sm_stepping := True\<rparr>) else s1)"
      using assms True by (auto simp: pool_step_def Let_def bindE_Inr)
    have "pool_weight s1 < pool_weight s" using dispatch_weight(1)[OF d] by (simp add: pool_weight_def)
    thus ?thesis by (simp add: s' pool_weight_def)
  next
    case False
    thus ?thesis using assms by (auto simp: pool_step_def Let_def pool_weight_def)
  qed
qed

fun moves_job :: "PoolEvent \<Rightarrow> bool" where
  "moves_job (PLand at job source) = True"
| "moves_job (PDispatch at job source ring sp w st) = True"
| "moves_job _ = False"

lemma emit_pending:
  assumes "emit_pool plan e s = Inr s'" "\<not> moves_job e"
  shows "hp_waiting (sm_pool s') = hp_waiting (sm_pool s)"
proof -
  have "hp_waiting p' = hp_waiting p" if "pool_apply plan e p = Inr p'" for p p'
    using that assms(2) by (cases e) (auto split: option.splits if_splits)
  thus ?thesis using emit_fields(6)[OF assms(1)] by blast
qed

lemma finish_weight:
  assumes "pool_finish plan now job ring s = Inr s'"
  shows "pool_weight s' = Suc (pool_weight s)"
proof -
  obtain s1 s2 where 1: "emit_pool plan (PDone now job ring) s = Inr s1" and
    2: "(if sm_stopped s1 \<and> hp_busy (sm_pool s1) = []
           then pool_retire plan now (ring # rev (hp_idle (sm_pool s1))) s1
           else let stays = (length (hp_idle (sm_pool s1)) < pool_pending (sm_pool s1) \<or> hp_idle (sm_pool s1) = [])
                in emit_pool plan (if stays then PIdle now ring else PExit now ring) s1) = Inr s2"
    and s': "s' = pool_timer (now + pp_after plan) FWake s2"
    using assms by (auto simp: pool_finish_def bindE_Inr)
  have a: "hp_waiting (sm_pool s1) = hp_waiting (sm_pool s)" "sm_agenda s1 = sm_agenda s"
    using emit_pending[OF 1] emit_fields[OF 1] by auto
  have b: "hp_waiting (sm_pool s2) = hp_waiting (sm_pool s1) \<and> sm_agenda s2 = sm_agenda s1"
  proof (cases "sm_stopped s1 \<and> hp_busy (sm_pool s1) = []")
    case True thus ?thesis using 2 by (auto simp: retire_effect simp del: pool_retire.simps)
  next
    case False
    then obtain e where e: "emit_pool plan e s1 = Inr s2" "e = PIdle now ring \<or> e = PExit now ring" using 2 by (auto simp: Let_def split: if_splits)
    thus ?thesis using emit_pending[OF e(1)] emit_fields[OF e(1)] by auto
  qed
  show ?thesis using a b by (simp add: s' pool_weight_def pool_pending_def)
qed

lemma control_weight:
  assumes "pool_control plan c now s = Inr s'"
  shows "pool_weight s' \<le> Suc (pool_weight s)"
proof -
  obtain s1 where 1: "emit_pool plan (control_event c now) s = Inr s1" "control_done plan c now s1 = Inr s'"
    using assms by (auto simp: pool_control_def bindE_Inr split: option.splits)
  have "hp_waiting (sm_pool s1) = hp_waiting (sm_pool s)" "sm_agenda s1 = sm_agenda s"
    using emit_pending[OF 1(1)] emit_fields[OF 1(1)] by (cases c; auto)+
  moreover have "pool_weight s' \<le> Suc (pool_weight s1)"
    using 1(2) by (cases "(plan, c, now, s1)" rule: control_done.cases)
      (auto simp: pool_weight_def pool_pending_def Let_def retire_effect split: if_splits simp del: pool_retire.simps)
  ultimately show ?thesis by (simp add: pool_weight_def pool_pending_def)
qed

lemma land_weight:
  assumes "pool_fire plan (FLand j) now s = Inr s'"
  shows "pool_weight s' = 4 + pool_weight s"
proof -
  obtain s1 where 1: "emit_pool plan (PLand now (js_id j) (js_source j)) s = Inr s1" "s' = pool_timer (now + pp_wake plan) FWake s1"
    using assms by (auto simp: bindE_Inr)
  note f = emit_fields[OF 1(1)]
  have "pool_pending (sm_pool s1) = Suc (pool_pending (sm_pool s))" using apply_land(1)[OF f(6)] by (simp add: pending_size)
  thus ?thesis using f 1(2) by (simp add: pool_weight_def)
qed

lemma fire_lowers_weight:
  assumes "timers (sm_agenda s) = t # ts" "pool_fire plan (t_fire t) (t_at t) (s\<lparr>sm_agenda := (sm_agenda s)\<lparr>timers := ts\<rparr>\<rparr>) = Inr s'"
  shows "pool_weight s' < pool_weight s"
proof -
  let ?s = "s\<lparr>sm_agenda := (sm_agenda s)\<lparr>timers := ts\<rparr>\<rparr>"
  have w: "pool_weight s = fire_weight (t_fire t) + pool_weight ?s"
    using timer_sum_Cons[OF assms(1), of fire_weight] by (simp add: pool_weight_def)
  show ?thesis
  proof (cases "t_fire t")
    case (FControl c) thus ?thesis using control_weight[of plan c "t_at t" ?s s'] assms(2) w by simp
  next
    case (FLand j) thus ?thesis using land_weight[of plan j "t_at t" ?s s'] assms(2) w by simp
  next
    case FWake
    thus ?thesis using step_weight[of plan "t_at t" ?s s'] assms(2) w by (auto simp: pool_wake_def split: if_splits)
  next
    case FStep thus ?thesis using step_weight[of plan "t_at t" ?s s'] assms(2) w by simp
  next
    case (FFinish job ring) thus ?thesis using finish_weight[of plan "t_at t" job ring ?s s'] assms(2) w by simp
  qed
qed

interpretation hero: des sm_agenda put_agenda "pool_fire plan" pool_weight for plan
  by unfold_locales (rule fire_lowers_weight)

interpretation hero_log: event_sourced "pool_apply plan" sm_pool sm_events "emit_pool plan" for plan
  by unfold_locales (auto elim: emitD)

section \<open>Rings\<close>

definition rings_ok :: "HPool \<Rightarrow> bool" where
  "rings_ok p \<longleftrightarrow> sorted (hp_busy p) \<and> distinct (hp_busy p @ hp_idle p) \<and> int (length (hp_busy p)) \<le> hp_limit p"

fun is_finish :: "Fire \<Rightarrow> bool" where
  "is_finish (FFinish job ring) = True"
| "is_finish _ = False"

fun finish_ring :: "Fire \<Rightarrow> nat" where
  "finish_ring (FFinish job ring) = ring"
| "finish_ring _ = 0"

definition finish_rings :: "Fire multiset \<Rightarrow> nat multiset" where
  "finish_rings M = image_mset finish_ring (filter_mset is_finish M)"

text \<open>
  Over the firings \<open>M\<close> still to come: each busy ring has its finish timed; a stopped worker with nothing running
  has no goroutine; a run of hand-outs under way has its next one timed; and a pool that could hand out a job has a
  wake-up on its way.
\<close>

definition pool_inv :: "PoolPlan \<Rightarrow> Fire multiset \<Rightarrow> PoolSim \<Rightarrow> bool" where
  "pool_inv plan M s \<longleftrightarrow> hero_log.faithful plan (fresh_pool plan) s \<and> hero_log.always plan rings_ok (fresh_pool plan) s
     \<and> rings_ok (sm_pool s) \<and> finish_rings M = mset (hp_busy (sm_pool s))
     \<and> (sm_stopped s \<and> hp_busy (sm_pool s) = [] \<longrightarrow> hp_idle (sm_pool s) = [])
     \<and> (sm_stepping s \<longrightarrow> FStep \<in># M) \<and> (pool_ready s \<longrightarrow> FWake \<in># M \<or> FStep \<in># M)
     \<and> pp_limit plan \<le> hp_limit (sm_pool s)"

lemma log_cong:
  assumes "sm_pool s' = sm_pool s" "sm_events s' = sm_events s"
  shows "hero_log.faithful plan v s' = hero_log.faithful plan v s" "hero_log.always plan P v s' = hero_log.always plan P v s"
  unfolding hero_log.faithful_def hero_log.always_def assms by simp_all

definition logged_ok :: "PoolPlan \<Rightarrow> PoolSim \<Rightarrow> bool" where
  "logged_ok plan s \<longleftrightarrow> hero_log.faithful plan (fresh_pool plan) s \<and> hero_log.always plan rings_ok (fresh_pool plan) s \<and> rings_ok (sm_pool s)"

lemma logged_emit: "logged_ok plan s \<Longrightarrow> emit_pool plan e s = Inr s' \<Longrightarrow> rings_ok (sm_pool s') \<Longrightarrow> logged_ok plan s'"
  unfolding logged_ok_def using hero_log.faithful_emit hero_log.always_emit by blast

lemma logged_cong: "sm_pool s' = sm_pool s \<Longrightarrow> sm_events s' = sm_events s \<Longrightarrow> logged_ok plan s' = logged_ok plan s"
  unfolding logged_ok_def hero_log.faithful_def hero_log.always_def by simp

lemma finish_rings_add [simp]: "finish_rings (add_mset f M) = (if is_finish f then add_mset (finish_ring f) (finish_rings M) else finish_rings M)"
  by (simp add: finish_rings_def)

lemma pool_inv_logged: "pool_inv plan M s \<longleftrightarrow> logged_ok plan s \<and> finish_rings M = mset (hp_busy (sm_pool s))
     \<and> (sm_stopped s \<and> hp_busy (sm_pool s) = [] \<longrightarrow> hp_idle (sm_pool s) = [])
     \<and> (sm_stepping s \<longrightarrow> FStep \<in># M) \<and> (pool_ready s \<longrightarrow> FWake \<in># M \<or> FStep \<in># M) \<and> pp_limit plan \<le> hp_limit (sm_pool s)"
  by (auto simp: pool_inv_def logged_ok_def)

lemma ready_cong: "sm_pool s' = sm_pool s \<Longrightarrow> sm_paused s' = sm_paused s \<Longrightarrow> sm_stopped s' = sm_stopped s \<Longrightarrow> pool_ready s' = pool_ready s"
  by (simp add: pool_ready_def)

lemma retire_logged:
  "logged_ok plan s \<Longrightarrow> pool_retire plan now rs s = Inr s' \<Longrightarrow> logged_ok plan s'"
proof (induction rs arbitrary: s)
  case (Cons r rs)
  then obtain s1 where 1: "emit_pool plan (PExit now r) s = Inr s1" "pool_retire plan now rs s1 = Inr s'" by (auto simp: bindE_Inr)
  have p: "sm_pool s1 = (sm_pool s)\<lparr>hp_idle := filter (\<lambda>x. x \<noteq> r) (hp_idle (sm_pool s))\<rparr>" using emit_fields(6)[OF 1(1)] by simp
  have "rings_ok (sm_pool s)" using Cons.prems(1) by (simp add: logged_ok_def)
  hence "rings_ok (sm_pool s1)" by (auto simp: rings_ok_def p)
  thus ?case using logged_emit[OF Cons.prems(1) 1(1)] Cons.IH 1(2) by blast
qed simp

lemma pool_dispatch_inv:
  assumes inv: "pool_inv plan M s" and r: "pool_ready s" and d: "pool_dispatch plan now s = Inr s'"
  shows "logged_ok plan s'" "\<exists>job ring. finish_rings M + {#ring#} = mset (hp_busy (sm_pool s')) \<and> fires (sm_agenda s') = add_mset (FFinish job ring) (fires (sm_agenda s))"
    "sm_stopped s' = sm_stopped s" "sm_stepping s' = sm_stepping s" "hp_limit (sm_pool s') = hp_limit (sm_pool s)"
    "hp_busy (sm_pool s') \<noteq> []" "sm_paused s' = sm_paused s"
proof -
  from d obtain source :: SourceSpec and strategy job rest ring and j :: JobSpec and s1 sp w where
    q: "map_of (hp_waiting (sm_pool s)) (ss_id source) = Some (job # rest)" and
    rg: "ring = (if hp_idle (sm_pool s) = [] then lowestFree (hp_busy (sm_pool s)) else last (hp_idle (sm_pool s)))" and
    e: "emit_pool plan (PDispatch now job (ss_id source) ring sp w strategy) s = Inr s1"
    and s': "s' = pool_timer (now + js_work j) (FFinish job ring) s1"
    by (rule dispatchD) blast
  note f = emit_fields[OF e]
  note a = apply_dispatch[OF f(6) q]
  have ok: "rings_ok (sm_pool s)" using inv by (simp add: pool_inv_def)
  have nb: "ring \<notin> set (hp_busy (sm_pool s))"
  proof (cases "hp_idle (sm_pool s) = []")
    case True thus ?thesis by (simp add: rg lowestFree_def)
  next
    case False
    hence "ring \<in> set (hp_idle (sm_pool s))" by (simp add: rg)
    thus ?thesis using ok by (auto simp: rings_ok_def)
  qed
  have "rings_ok (sm_pool s1)"
    using ok nb r unfolding rings_ok_def a(2-4) pool_ready_def by auto
  hence "logged_ok plan s1" using logged_emit[OF _ e] inv by (simp add: pool_inv_logged)
  thus "logged_ok plan s'" using logged_cong[of s' s1] by (simp add: s')
  show "\<exists>job ring. finish_rings M + {#ring#} = mset (hp_busy (sm_pool s')) \<and> fires (sm_agenda s') = add_mset (FFinish job ring) (fires (sm_agenda s))"
    using inv by (intro exI[of _ job] exI[of _ ring]) (simp add: s' a(2) pool_inv_def f(1))
  show "sm_stopped s' = sm_stopped s" "sm_stepping s' = sm_stepping s" "hp_limit (sm_pool s') = hp_limit (sm_pool s)"
    "hp_busy (sm_pool s') \<noteq> []" "sm_paused s' = sm_paused s"
    using f a(2,4) by (auto simp: s' simp flip: set_empty2)
qed

lemma step_inv:
  assumes inv: "pool_inv plan (add_mset f (fires (sm_agenda s))) s" and f: "\<not> is_finish f" and st: "pool_step plan now s = Inr s'"
  shows "pool_inv plan (fires (sm_agenda s')) s'"
proof -
  let ?s = "s\<lparr>sm_stepping := False\<rparr>" and ?M = "fires (sm_agenda s)"
  have inv0: "logged_ok plan ?s" "finish_rings ?M = mset (hp_busy (sm_pool s))" "sm_stopped s \<and> hp_busy (sm_pool s) = [] \<longrightarrow> hp_idle (sm_pool s) = []"
    "pp_limit plan \<le> hp_limit (sm_pool s)"
    using inv f logged_cong[of ?s s] by (simp_all add: pool_inv_logged)
  show ?thesis
  proof (cases "pool_ready ?s")
    case False
    hence "s' = ?s" using st by (simp add: pool_step_def Let_def)
    thus ?thesis using inv0 False by (simp add: pool_inv_logged)
  next
    case True
    obtain s1 where d: "pool_dispatch plan now ?s = Inr s1"
      and s': "s' = (if pool_ready s1 then pool_timer (now + pp_gap plan) FStep (s1\<lparr>sm_stepping := True\<rparr>) else s1)"
      using st True by (auto simp: pool_step_def Let_def bindE_Inr)
    have "pool_inv plan (add_mset FWake ?M) ?s" using inv0 by (simp add: pool_inv_logged)
    note di = pool_dispatch_inv[OF this True d]
    obtain job ring where fr: "finish_rings ?M + {#ring#} = mset (hp_busy (sm_pool s1))" "fires (sm_agenda s1) = add_mset (FFinish job ring) ?M"
      using di(2) by auto
    have "logged_ok plan s'" using di(1) logged_cong[of s' s1] by (simp add: s')
    moreover have "finish_rings (fires (sm_agenda s')) = mset (hp_busy (sm_pool s'))" using fr by (simp add: s')
    moreover have "sm_stepping s' \<longrightarrow> FStep \<in># fires (sm_agenda s')" using di(4) by (simp add: s')
    moreover have "pool_ready s' \<longrightarrow> FStep \<in># fires (sm_agenda s')"
      using ready_cong[of s' s1] by (auto simp: s')
    moreover have "hp_busy (sm_pool s') \<noteq> []" "pp_limit plan \<le> hp_limit (sm_pool s')" using di(5,6) inv0(4) by (simp_all add: s')
    ultimately show ?thesis by (auto simp: pool_inv_logged)
  qed
qed

lemma finish_inv:
  assumes inv: "pool_inv plan (add_mset (FFinish job ring) (fires (sm_agenda s))) s" and fi: "pool_finish plan now job ring s = Inr s'"
  shows "pool_inv plan (fires (sm_agenda s')) s'"
proof -
  let ?M = "fires (sm_agenda s)"
  obtain s1 s2 where 1: "emit_pool plan (PDone now job ring) s = Inr s1" and
    2: "(if sm_stopped s1 \<and> hp_busy (sm_pool s1) = []
           then pool_retire plan now (ring # rev (hp_idle (sm_pool s1))) s1
           else let stays = (length (hp_idle (sm_pool s1)) < pool_pending (sm_pool s1) \<or> hp_idle (sm_pool s1) = [])
                in emit_pool plan (if stays then PIdle now ring else PExit now ring) s1) = Inr s2"
    and s': "s' = pool_timer (now + pp_after plan) FWake s2"
    using fi by (auto simp: pool_finish_def bindE_Inr)
  note f1 = emit_fields[OF 1]
  have p1: "sm_pool s1 = (sm_pool s)\<lparr>hp_busy := filter (\<lambda>r. r \<noteq> ring) (hp_busy (sm_pool s))\<rparr>" using f1(6) by simp
  have ok: "rings_ok (sm_pool s)" and fr: "add_mset ring (finish_rings ?M) = mset (hp_busy (sm_pool s))" using inv by (simp_all add: pool_inv_def)
  have rb: "ring \<in> set (hp_busy (sm_pool s))" using arg_cong[OF fr, of set_mset] by auto
  have d: "distinct (hp_busy (sm_pool s))" "ring \<notin> set (hp_idle (sm_pool s))" using ok rb by (auto simp: rings_ok_def)
  have fr1: "finish_rings ?M = mset (hp_busy (sm_pool s1))"
  proof -
    have "hp_busy (sm_pool s1) = remove1 ring (hp_busy (sm_pool s))"
      unfolding distinct_remove1_removeAll[OF d(1)] removeAll_filter_not_eq by (simp add: p1) (rule filter_cong, auto)
    hence "mset (hp_busy (sm_pool s1)) = mset (hp_busy (sm_pool s)) - {#ring#}" by simp
    also have "\<dots> = finish_rings ?M" unfolding fr[symmetric] by simp
    finally show ?thesis by simp
  qed
  have ok1: "rings_ok (sm_pool s1)"
  proof -
    have "int (length (filter (\<lambda>r. r \<noteq> ring) (hp_busy (sm_pool s)))) \<le> hp_limit (sm_pool s)"
      using ok length_filter_le[of "\<lambda>r. r \<noteq> ring" "hp_busy (sm_pool s)"] unfolding rings_ok_def by linarith
    moreover have "sorted (filter (\<lambda>r. r \<noteq> ring) (hp_busy (sm_pool s)))" using ok by (simp add: rings_ok_def sorted_wrt_filter)
    ultimately show ?thesis using ok by (auto simp: rings_ok_def p1)
  qed
  have l1: "logged_ok plan s1" using logged_emit[OF _ 1 ok1] inv by (simp add: pool_inv_logged)
  have "logged_ok plan s2 \<and> hp_busy (sm_pool s2) = hp_busy (sm_pool s1) \<and> hp_limit (sm_pool s2) = hp_limit (sm_pool s1) \<and> sm_agenda s2 = sm_agenda s1
    \<and> sm_stopped s2 = sm_stopped s1 \<and> sm_stepping s2 = sm_stepping s1 \<and> (sm_stopped s2 \<and> hp_busy (sm_pool s2) = [] \<longrightarrow> hp_idle (sm_pool s2) = [])"
  proof (cases "sm_stopped s1 \<and> hp_busy (sm_pool s1) = []")
    case True
    hence rt: "pool_retire plan now (ring # rev (hp_idle (sm_pool s1))) s1 = Inr s2" using 2 by simp
    have s2: "s2 = s1\<lparr>sm_events := sm_events s1 @ map (PExit now) (ring # rev (hp_idle (sm_pool s1))),
      sm_pool := (sm_pool s1)\<lparr>hp_idle := filter (\<lambda>r. r \<notin> set (ring # rev (hp_idle (sm_pool s1)))) (hp_idle (sm_pool s1))\<rparr>\<rparr>"
      using rt unfolding retire_effect by simp
    have "hp_idle (sm_pool s2) = []" by (simp add: s2 filter_empty_conv)
    thus ?thesis using retire_logged[OF l1 rt] True by (simp add: s2)
  next
    case False
    then obtain e where e: "emit_pool plan e s1 = Inr s2" "e = PIdle now ring \<or> e = PExit now ring" using 2 by (auto simp: Let_def split: if_splits)
    note f2 = emit_fields[OF e(1)]
    have p2: "sm_pool s2 = (sm_pool s1)\<lparr>hp_idle := hp_idle (sm_pool s1) @ [ring]\<rparr>
      \<or> sm_pool s2 = (sm_pool s1)\<lparr>hp_idle := filter (\<lambda>r. r \<noteq> ring) (hp_idle (sm_pool s1))\<rparr>" using e(2) f2(6) by auto
    have "ring \<notin> set (hp_busy (sm_pool s1)) \<and> ring \<notin> set (hp_idle (sm_pool s1))" using d(2) by (simp add: p1)
    hence "rings_ok (sm_pool s2)" using p2 ok1 by (auto simp: rings_ok_def)
    moreover have "hp_busy (sm_pool s2) = hp_busy (sm_pool s1) \<and> hp_limit (sm_pool s2) = hp_limit (sm_pool s1)" using p2 by auto
    ultimately show ?thesis using logged_emit[OF l1 e(1)] f2(1-4) False by auto
  qed
  thus ?thesis using inv fr1 f1 logged_cong[of s' s2] p1 by (auto simp: pool_inv_logged s')
qed

lemma land_fire_inv:
  assumes inv: "pool_inv plan (add_mset (FLand j) (fires (sm_agenda s))) s" and la: "pool_fire plan (FLand j) now s = Inr s'"
  shows "pool_inv plan (fires (sm_agenda s')) s'"
proof -
  obtain s1 where 1: "emit_pool plan (PLand now (js_id j) (js_source j)) s = Inr s1" and s': "s' = pool_timer (now + pp_wake plan) FWake s1"
    using la by (auto simp: bindE_Inr)
  note f = emit_fields[OF 1]
  note a = apply_land[OF f(6)]
  have "rings_ok (sm_pool s1)" using inv a(2-4) by (simp add: pool_inv_def rings_ok_def)
  hence "logged_ok plan s1" using logged_emit[OF _ 1] inv by (simp add: pool_inv_logged)
  hence "logged_ok plan s'" using logged_cong[of s' s1] by (simp add: s')
  thus ?thesis using inv f a(2-4) by (simp add: pool_inv_logged s')
qed

lemma control_inv:
  assumes inv: "pool_inv plan (add_mset (FControl c) (fires (sm_agenda s))) s" and co: "pool_control plan c now s = Inr s'"
  shows "pool_inv plan (fires (sm_agenda s')) s'"
proof -
  let ?M = "fires (sm_agenda s)"
  have nr: "control_refused c now s = None" using co by (auto simp: pool_control_def split: option.splits)
  obtain s1 where 1: "emit_pool plan (control_event c now) s = Inr s1" "control_done plan c now s1 = Inr s'"
    using co by (auto simp: pool_control_def bindE_Inr split: option.splits)
  note f = emit_fields[OF 1(1)]
  have ok: "rings_ok (sm_pool s)" "logged_ok plan s" "finish_rings ?M = mset (hp_busy (sm_pool s))" "sm_stepping s \<longrightarrow> FStep \<in># ?M"
    "sm_stopped s \<and> hp_busy (sm_pool s) = [] \<longrightarrow> hp_idle (sm_pool s) = []" "pool_ready s \<longrightarrow> FWake \<in># ?M \<or> FStep \<in># ?M"
    "pp_limit plan \<le> hp_limit (sm_pool s)"
    using inv by (auto simp: pool_inv_logged logged_ok_def)
  show ?thesis
  proof (cases c)
    case (CtlTune at to)
    have p1: "sm_pool s1 = (sm_pool s)\<lparr>hp_limit := to\<rparr>" "hp_limit (sm_pool s) < to" using f(6) nr CtlTune by (auto split: if_splits)
    have "rings_ok (sm_pool s1)" using ok(1) p1 by (auto simp: rings_ok_def)
    hence "logged_ok plan s1" using logged_emit[OF ok(2) 1(1)] by blast
    moreover have s': "s' = pool_timer (now + pp_wake plan) FWake s1" using 1(2) CtlTune by simp
    ultimately show ?thesis using ok f p1 logged_cong[of s' s1] by (simp add: pool_inv_logged)
  next
    case (CtlOp at op)
    show ?thesis
    proof (cases op)
      case OpPause
      have p1: "sm_pool s1 = sm_pool s" using f(6) CtlOp OpPause by simp
      hence "logged_ok plan s1" using logged_emit[OF ok(2) 1(1)] ok(1) by simp
      moreover have "s' = s1\<lparr>sm_paused := True\<rparr>" using 1(2) CtlOp OpPause by simp
      ultimately show ?thesis using ok f p1 logged_cong[of s' s1] by (simp add: pool_inv_logged pool_ready_def)
    next
      case OpResume
      have p1: "sm_pool s1 = sm_pool s" using f(6) CtlOp OpResume by simp
      hence "logged_ok plan s1" using logged_emit[OF ok(2) 1(1)] ok(1) by simp
      moreover have "s' = pool_timer (now + pp_wake plan) FWake (s1\<lparr>sm_paused := False\<rparr>)" using 1(2) CtlOp OpResume by simp
      ultimately show ?thesis using ok f p1 logged_cong[of s' s1] by (simp add: pool_inv_logged)
    next
      case OpStop
      have p1: "sm_pool s1 = sm_pool s" using f(6) CtlOp OpStop by simp
      hence l1: "logged_ok plan s1" using logged_emit[OF ok(2) 1(1)] ok(1) by simp
      let ?t = "s1\<lparr>sm_stopped := True\<rparr>"
      have lt: "logged_ok plan ?t" using l1 logged_cong[of ?t s1] by simp
      show ?thesis
      proof (cases "hp_busy (sm_pool s1) = []")
        case True
        hence rt: "pool_retire plan now (rev (hp_idle (sm_pool s1))) ?t = Inr s'" using 1(2) CtlOp OpStop by (simp add: Let_def)
        have s': "s' = ?t\<lparr>sm_events := sm_events s1 @ map (PExit now) (rev (hp_idle (sm_pool s1))),
           sm_pool := (sm_pool s1)\<lparr>hp_idle := filter (\<lambda>r. r \<notin> set (rev (hp_idle (sm_pool s1)))) (hp_idle (sm_pool s1))\<rparr>\<rparr>"
          using rt unfolding retire_effect by simp
        have "hp_idle (sm_pool s') = []" by (simp add: s' filter_empty_conv)
        thus ?thesis using retire_logged[OF lt rt] ok f p1 True by (simp add: pool_inv_logged pool_ready_def s')
      next
        case False
        hence "s' = ?t" using 1(2) CtlOp OpStop by (simp add: Let_def)
        thus ?thesis using lt ok f p1 False by (simp add: pool_inv_logged pool_ready_def)
      qed
    next
      case OpRestart
      have p1: "sm_pool s1 = (sm_pool s)\<lparr>hp_idle := hp_idle (sm_pool s) @ [0]\<rparr>" using f(6) CtlOp OpRestart by simp
      have "sm_stopped s \<and> hp_busy (sm_pool s) = []" using nr CtlOp OpRestart by (auto split: if_splits)
      hence "rings_ok (sm_pool s1)" using ok(1,5) p1 by (simp add: rings_ok_def)
      hence "logged_ok plan s1" using logged_emit[OF ok(2) 1(1)] by blast
      moreover have "s' = pool_timer (now + pp_wake plan) FWake (s1\<lparr>sm_stopped := False, sm_paused := False\<rparr>)" using 1(2) CtlOp OpRestart by simp
      ultimately show ?thesis using ok f p1 logged_cong[of s' s1] by (simp add: pool_inv_logged)
    qed
  qed
qed

lemma fire_inv:
  assumes "pool_inv plan (add_mset f (fires (sm_agenda s))) s" "pool_fire plan f now s = Inr s'"
  shows "pool_inv plan (fires (sm_agenda s')) s'"
proof (cases f)
  case (FControl c) thus ?thesis using control_inv assms by simp
next
  case (FLand j) thus ?thesis using land_fire_inv assms by blast
next
  case FWake
  show ?thesis
  proof (cases "sm_stepping s")
    case True
    thus ?thesis using assms FWake by (auto simp: pool_wake_def pool_inv_logged)
  next
    case False
    thus ?thesis using step_inv[of plan FWake s now s'] assms FWake by (simp add: pool_wake_def)
  qed
next
  case FStep thus ?thesis using step_inv[of plan FStep s now s'] assms by simp
next
  case (FFinish job ring) thus ?thesis using finish_inv assms by simp
qed

section \<open>The start\<close>

lemma fold_timer:
  "sm_pool (fold (\<lambda>x. pool_timer (at x) (f x)) xs s) = sm_pool s" "sm_events (fold (\<lambda>x. pool_timer (at x) (f x)) xs s) = sm_events s"
  "sm_paused (fold (\<lambda>x. pool_timer (at x) (f x)) xs s) = sm_paused s" "sm_stopped (fold (\<lambda>x. pool_timer (at x) (f x)) xs s) = sm_stopped s"
  "sm_stepping (fold (\<lambda>x. pool_timer (at x) (f x)) xs s) = sm_stepping s"
  "fires (sm_agenda (fold (\<lambda>x. pool_timer (at x) (f x)) xs s)) = image_mset f (mset xs) + fires (sm_agenda s)"
  by (induction xs arbitrary: s) auto

lemma start_fields:
  "sm_pool (pool_start plan) = fresh_pool plan" "sm_events (pool_start plan) = []" "\<not> sm_paused (pool_start plan)"
  "\<not> sm_stopped (pool_start plan)" "\<not> sm_stepping (pool_start plan)"
  "fires (sm_agenda (pool_start plan)) = image_mset FLand (mset (pp_jobs plan)) + image_mset FControl (mset (pp_controls plan))"
  by (simp_all add: pool_start_def Let_def fold_timer)

lemma no_waiting_empty: "\<forall>x\<in>set (no_waiting plan). snd x = []"
proof -
  have "\<forall>x\<in>set al. snd x = [] \<Longrightarrow> \<forall>x\<in>set (fold (\<lambda>s. AList.update (ss_id s) []) ss al). snd x = []" for ss :: "SourceSpec list" and al :: "(string \<times> string list) list"
  proof (induction ss arbitrary: al)
    case (Cons a ss)
    have "\<forall>x\<in>set (AList.update (ss_id a) [] al). snd x = []" using Cons.prems by (induction al) (auto split: if_splits)
    thus ?case using Cons.IH by simp
  qed simp
  from this[of "[]" "pp_sources plan"] show ?thesis by (simp add: no_waiting_def)
qed

lemma fresh_waiting [simp]: "waiting_mset (fresh_pool plan) = {#}"
proof -
  have "\<forall>x\<in>set al. snd x = [] \<Longrightarrow> sum_list (map (\<lambda>(k, q). mset q) al) = {#}" for al :: "(string \<times> string list) list"
    by (induction al) auto
  thus ?thesis using no_waiting_empty by (simp add: waiting_mset_def fresh_pool_def)
qed

text \<open>A plan to start from: the rings idle at the start are different ones.\<close>

definition rings_plan :: "PoolPlan \<Rightarrow> bool" where
  "rings_plan plan \<longleftrightarrow> distinct (pp_idle plan) \<and> 0 \<le> pp_limit plan"

lemma start_inv:
  assumes "rings_plan plan"
  shows "pool_inv plan (fires (sm_agenda (pool_start plan))) (pool_start plan)"
proof -
  have "rings_ok (fresh_pool plan)" using assms by (simp add: rings_plan_def rings_ok_def fresh_pool_def)
  moreover have "finish_rings (image_mset FLand A + image_mset FControl B) = {#}" for A B
    by (auto simp: finish_rings_def filter_mset_eq_conv multiset_eq_iff count_eq_zero_iff)
  moreover have "\<not> pool_ready (pool_start plan)" by (simp add: pool_ready_def start_fields pending_size)
  ultimately show ?thesis
    using hero_log.faithful_start[OF start_fields(2,1)] hero_log.always_start[OF start_fields(2)]
    by (simp add: pool_inv_def start_fields) (simp add: fresh_pool_def)
qed

lemma run_inv:
  assumes "rings_plan plan" "pool_run plan = Some (Inr s)"
  shows "pool_inv plan {#} s" "timers (sm_agenda s) = []"
proof -
  have "pool_inv plan (fires (sm_agenda s)) s \<and> timers (sm_agenda s) = []"
  proof (rule hero.run_invariant[OF assms(2)[unfolded pool_run_def], where I = "\<lambda>s. pool_inv plan (fires (sm_agenda s)) s"])
    show "pool_inv plan (fires (sm_agenda (pool_start plan))) (pool_start plan)" by (rule start_inv[OF assms(1)])
  next
    fix s t ts s'
    assume i: "pool_inv plan (fires (sm_agenda s)) s" and t: "timers (sm_agenda s) = t # ts"
      and f: "pool_fire plan (t_fire t) (t_at t) (s\<lparr>sm_agenda := (sm_agenda s)\<lparr>timers := ts\<rparr>\<rparr>) = Inr s'"
    let ?s = "s\<lparr>sm_agenda := (sm_agenda s)\<lparr>timers := ts\<rparr>\<rparr>"
    have "pool_inv plan (add_mset (t_fire t) (fires (sm_agenda ?s))) ?s"
      using i fires_Cons[OF t] logged_cong[of ?s s] ready_cong[of ?s s] by (simp add: pool_inv_logged)
    thus "pool_inv plan (fires (sm_agenda s')) s'" by (rule fire_inv) (rule f)
  qed
  thus "pool_inv plan {#} s" "timers (sm_agenda s) = []" using fires_empty[of "sm_agenda s"] by auto
qed

section \<open>Every job runs once\<close>

fun landed_job :: "PoolEvent \<Rightarrow> string option" where
  "landed_job (PLand at job source) = Some job"
| "landed_job _ = None"

fun dispatched_job :: "PoolEvent \<Rightarrow> string option" where
  "dispatched_job (PDispatch at job source ring sp w st) = Some job"
| "dispatched_job _ = None"

fun done_job :: "PoolEvent \<Rightarrow> string option" where
  "done_job (PDone at job ring) = Some job"
| "done_job _ = None"

definition landed :: "PoolEvent list \<Rightarrow> string multiset" where
  "landed evs = mset (List.map_filter landed_job evs)"

definition dispatched :: "PoolEvent list \<Rightarrow> string multiset" where
  "dispatched evs = mset (List.map_filter dispatched_job evs)"

definition finished :: "PoolEvent list \<Rightarrow> string multiset" where
  "finished evs = mset (List.map_filter done_job evs)"

fun to_land :: "Fire \<Rightarrow> JobSpec option" where
  "to_land (FLand j) = Some j"
| "to_land _ = None"

fun to_finish :: "Fire \<Rightarrow> string option" where
  "to_finish (FFinish job ring) = Some job"
| "to_finish _ = None"

lemma map_filter_snoc: "mset (List.map_filter g (xs @ [x])) = (case g x of Some y \<Rightarrow> add_mset y (mset (List.map_filter g xs)) | None \<Rightarrow> mset (List.map_filter g xs))"
  by (induction xs) (auto simp: map_filter_simps split: option.splits)

lemmas log_counts = landed_def dispatched_def finished_def map_filter_snoc

text \<open>Each job is still to land, waits, runs, or is done.\<close>

definition job_flow :: "PoolPlan \<Rightarrow> Fire multiset \<Rightarrow> PoolSim \<Rightarrow> bool" where
  "job_flow plan M s \<longleftrightarrow>
     landed (sm_events s) + image_mset js_id (fire_jobs to_land M) = mset (map js_id (pp_jobs plan))
   \<and> fire_jobs to_land M \<subseteq># mset (pp_jobs plan)
   \<and> landed (sm_events s) = dispatched (sm_events s) + waiting_mset (sm_pool s)
   \<and> dispatched (sm_events s) = finished (sm_events s) + fire_jobs to_finish M"

lemma exits_uncounted:
  assumes "\<And>r. g (PExit now r) = None"
  shows "List.map_filter g (evs @ map (PExit now) rs) = List.map_filter g evs"
proof (induction evs)
  case Nil show ?case by (induction rs) (simp_all add: map_filter_simps assms)
qed (simp add: map_filter_simps split: option.splits)

lemma flow_move:
  assumes "job_flow plan M s" "landed (sm_events s') = landed (sm_events s) + image_mset js_id L" "dispatched (sm_events s') = dispatched (sm_events s) + D"
    "finished (sm_events s') = finished (sm_events s) + F" "fire_jobs to_land M = fire_jobs to_land N + L"
    "waiting_mset (sm_pool s) + image_mset js_id L = waiting_mset (sm_pool s') + D" "D + fire_jobs to_finish M = F + fire_jobs to_finish N"
  shows "job_flow plan N s'"
proof -
  have a: "landed (sm_events s) + image_mset js_id (fire_jobs to_land M) = mset (map js_id (pp_jobs plan))" "fire_jobs to_land M \<subseteq># mset (pp_jobs plan)"
    "landed (sm_events s) = dispatched (sm_events s) + waiting_mset (sm_pool s)"
    "dispatched (sm_events s) = finished (sm_events s) + fire_jobs to_finish M" using assms(1) unfolding job_flow_def by blast+
  have "landed (sm_events s') + image_mset js_id (fire_jobs to_land N) = mset (map js_id (pp_jobs plan))"
    unfolding a(1)[symmetric] assms(2,5) image_mset_union by (simp only: ac_simps)
  moreover have "fire_jobs to_land N \<subseteq># mset (pp_jobs plan)"
    using a(2) unfolding assms(5) by (rule subset_mset.order_trans[rotated]) simp
  moreover have "landed (sm_events s') = dispatched (sm_events s) + (waiting_mset (sm_pool s) + image_mset js_id L)"
    unfolding assms(2) a(3) by (simp only: ac_simps)
  hence "landed (sm_events s') = dispatched (sm_events s') + waiting_mset (sm_pool s')"
    unfolding assms(3,6) by (simp only: ac_simps)
  moreover have "dispatched (sm_events s') = finished (sm_events s) + (D + fire_jobs to_finish M)"
    unfolding assms(3) a(4) by (simp only: ac_simps)
  hence "dispatched (sm_events s') = finished (sm_events s') + fire_jobs to_finish N"
    unfolding assms(4,7) by (simp only: ac_simps)
  ultimately show ?thesis unfolding job_flow_def by blast
qed

lemmas flow_same = flow_move[where L = "{#}" and D = "{#}" and F = "{#}", simplified]

lemma filter_one:
  assumes "count (mset (x # xs)) x \<le> 1"
  shows "filter (\<lambda>y. y \<noteq> x) (x # xs) = xs"
proof -
  have "count (mset xs) x = 0" using assms by simp
  hence "x \<notin> set xs" by (simp add: count_mset_0_iff)
  hence "filter (\<lambda>y. y \<noteq> x) xs = xs" by (intro filter_True) auto
  thus ?thesis by simp
qed

lemma dispatch_flow:
  assumes fl: "job_flow plan M s" and d: "distinct (map js_id (pp_jobs plan))" and di: "pool_dispatch plan now s = Inr s'"
    and M: "\<And>job ring. fires (sm_agenda s') = add_mset (FFinish job ring) (fires (sm_agenda s)) \<Longrightarrow>
      fire_jobs to_land N = fire_jobs to_land M \<and> fire_jobs to_finish N = add_mset job (fire_jobs to_finish M)"
  shows "job_flow plan N s'"
proof -
  from di obtain source :: SourceSpec and strategy job rest ring and j :: JobSpec and s1 sp w where
    q: "map_of (hp_waiting (sm_pool s)) (ss_id source) = Some (job # rest)" and
    e: "emit_pool plan (PDispatch now job (ss_id source) ring sp w strategy) s = Inr s1"
    and s': "s' = pool_timer (now + js_work j) (FFinish job ring) s1"
    by (rule dispatchD) blast
  note f = emit_fields[OF e]
  have sub: "mset (job # rest) \<subseteq># mset (map js_id (pp_jobs plan))"
  proof -
    have "waiting_mset (sm_pool s) \<subseteq># landed (sm_events s)" using fl by (simp add: job_flow_def)
    moreover have "landed (sm_events s) \<subseteq># mset (map js_id (pp_jobs plan))" using fl unfolding job_flow_def by (metis mset_subset_eq_add_left)
    ultimately show ?thesis using waiting_subset[OF q] by (meson subset_mset.order_trans)
  qed
  have "count (mset (job # rest)) job \<le> 1"
    using mset_subset_eq_count[OF sub, of job] d by (metis distinct_count_atmost_1 le_trans less_imp_le_nat zero_less_one order_refl)
  hence "mset (filter (\<lambda>y. y \<noteq> job) (job # rest)) = mset rest" by (simp only: filter_one)
  hence "waiting_mset (sm_pool s1) + mset (job # rest) = waiting_mset (sm_pool s) + mset rest"
    using apply_dispatch(1)[OF f(6) q] by simp
  hence w: "waiting_mset (sm_pool s) = add_mset job (waiting_mset (sm_pool s1))" by simp
  have m: "fire_jobs to_land N = fire_jobs to_land M \<and> fire_jobs to_finish N = add_mset job (fire_jobs to_finish M)"
    by (rule M[of job ring]) (simp add: s' f(1))
  show ?thesis
    by (rule flow_move[OF fl, where L = "{#}" and D = "{#job#}" and F = "{#}"]) (use m w in \<open>simp_all add: s' f(5) log_counts\<close>)
qed

lemma step_flow:
  assumes fl: "job_flow plan (fires (sm_agenda s)) s" and d: "distinct (map js_id (pp_jobs plan))" and st: "pool_step plan now s = Inr s'"
  shows "job_flow plan (fires (sm_agenda s')) s'"
proof -
  let ?s = "s\<lparr>sm_stepping := False\<rparr>"
  have fl0: "job_flow plan (fires (sm_agenda ?s)) ?s" using fl by (rule flow_same) simp_all
  show ?thesis
  proof (cases "pool_ready ?s")
    case False
    hence "s' = ?s" using st by (simp add: pool_step_def Let_def)
    thus ?thesis using fl0 by simp
  next
    case True
    obtain s1 where d1: "pool_dispatch plan now ?s = Inr s1"
      and s': "s' = (if pool_ready s1 then pool_timer (now + pp_gap plan) FStep (s1\<lparr>sm_stepping := True\<rparr>) else s1)"
      using st True by (auto simp: pool_step_def Let_def bindE_Inr)
    have "job_flow plan (fires (sm_agenda s')) s1"
      by (rule dispatch_flow[OF fl0 d d1]) (simp add: s')
    thus ?thesis by (rule flow_same) (simp_all add: s')
  qed
qed

lemma finish_flow:
  assumes fl: "job_flow plan (add_mset (FFinish job ring) (fires (sm_agenda s))) s" and fi: "pool_finish plan now job ring s = Inr s'"
  shows "job_flow plan (fires (sm_agenda s')) s'"
proof -
  obtain s1 s2 where 1: "emit_pool plan (PDone now job ring) s = Inr s1" and
    2: "(if sm_stopped s1 \<and> hp_busy (sm_pool s1) = []
           then pool_retire plan now (ring # rev (hp_idle (sm_pool s1))) s1
           else let stays = (length (hp_idle (sm_pool s1)) < pool_pending (sm_pool s1) \<or> hp_idle (sm_pool s1) = [])
                in emit_pool plan (if stays then PIdle now ring else PExit now ring) s1) = Inr s2"
    and s': "s' = pool_timer (now + pp_after plan) FWake s2"
    using fi by (auto simp: pool_finish_def bindE_Inr)
  note f1 = emit_fields[OF 1]
  have w1: "waiting_mset (sm_pool s1) = waiting_mset (sm_pool s)" using emit_pending[OF 1] by (simp add: waiting_mset_def)
  have fl1: "job_flow plan (fires (sm_agenda s)) s1" 
    by (rule flow_move[OF fl, where L = "{#}" and D = "{#}" and F = "{#job#}"]) (simp_all add: w1 f1(5) log_counts)
  have "landed (sm_events s2) = landed (sm_events s1) \<and> dispatched (sm_events s2) = dispatched (sm_events s1)
    \<and> finished (sm_events s2) = finished (sm_events s1) \<and> waiting_mset (sm_pool s2) = waiting_mset (sm_pool s1) \<and> sm_agenda s2 = sm_agenda s1"
  proof (cases "sm_stopped s1 \<and> hp_busy (sm_pool s1) = []")
    case True
    hence rt: "pool_retire plan now (ring # rev (hp_idle (sm_pool s1))) s1 = Inr s2" using 2 by simp
    have "sm_events s2 = sm_events s1 @ map (PExit now) (ring # rev (hp_idle (sm_pool s1)))" "hp_waiting (sm_pool s2) = hp_waiting (sm_pool s1)"
      "sm_agenda s2 = sm_agenda s1" using rt unfolding retire_effect by auto
    thus ?thesis by (simp add: exits_uncounted landed_def dispatched_def finished_def waiting_mset_def del: list.map)
  next
    case False
    then obtain e where e: "emit_pool plan e s1 = Inr s2" "e = PIdle now ring \<or> e = PExit now ring" using 2 by (auto simp: Let_def split: if_splits)
    have "waiting_mset (sm_pool s2) = waiting_mset (sm_pool s1)" using emit_pending[OF e(1)] e(2) by (auto simp: waiting_mset_def)
    thus ?thesis using emit_fields(1,5)[OF e(1)] e(2) by (auto simp: log_counts)
  qed
  thus ?thesis by (intro flow_same[OF fl1]) (simp_all add: s' f1(1))
qed

lemma control_flow:
  assumes fl: "job_flow plan (add_mset (FControl c) (fires (sm_agenda s))) s" and co: "pool_control plan c now s = Inr s'"
  shows "job_flow plan (fires (sm_agenda s')) s'"
proof -
  obtain s1 where 1: "emit_pool plan (control_event c now) s = Inr s1" "control_done plan c now s1 = Inr s'"
    using co by (auto simp: pool_control_def bindE_Inr split: option.splits)
  note f = emit_fields[OF 1(1)]
  have w: "waiting_mset (sm_pool s1) = waiting_mset (sm_pool s)" using emit_pending[OF 1(1)] by (cases c) (auto simp: waiting_mset_def)
  have fl1: "job_flow plan (fires (sm_agenda s1)) s1"
    by (rule flow_same[OF fl]) (cases c; simp add: w f(1,5) log_counts)+
  have "landed (sm_events s') = landed (sm_events s1) \<and> dispatched (sm_events s') = dispatched (sm_events s1)
    \<and> finished (sm_events s') = finished (sm_events s1) \<and> waiting_mset (sm_pool s') = waiting_mset (sm_pool s1)
    \<and> fire_jobs to_land (fires (sm_agenda s')) = fire_jobs to_land (fires (sm_agenda s1))
    \<and> fire_jobs to_finish (fires (sm_agenda s')) = fire_jobs to_finish (fires (sm_agenda s1))"
    using 1(2) by (cases "(plan, c, now, s1)" rule: control_done.cases)
      (auto simp: Let_def retire_effect exits_uncounted landed_def dispatched_def finished_def waiting_mset_def split: if_splits simp del: pool_retire.simps)
  thus ?thesis by (intro flow_same[OF fl1]) simp_all
qed

lemma fire_flow:
  assumes fl: "job_flow plan (add_mset f (fires (sm_agenda s))) s" and d: "distinct (map js_id (pp_jobs plan))" and fi: "pool_fire plan f now s = Inr s'"
  shows "job_flow plan (fires (sm_agenda s')) s'"
proof (cases f)
  case (FControl c) thus ?thesis using control_flow fl fi by simp
next
  case (FLand j)
  obtain s1 where 1: "emit_pool plan (PLand now (js_id j) (js_source j)) s = Inr s1" and s': "s' = pool_timer (now + pp_wake plan) FWake s1"
    using fi FLand by (auto simp: bindE_Inr)
  note f = emit_fields[OF 1]
  show ?thesis
    by (rule flow_move[OF fl, where L = "{#j#}" and D = "{#}" and F = "{#}"])
      (simp_all add: s' f(1,5) log_counts FLand apply_land(1)[OF f(6)])
next
  case FWake
  have fl': "job_flow plan (fires (sm_agenda s)) s" using fl by (rule flow_same) (simp_all add: FWake)
  show ?thesis using step_flow[OF fl' d] fl' fi FWake by (auto simp: pool_wake_def split: if_splits)
next
  case FStep
  have fl': "job_flow plan (fires (sm_agenda s)) s" using fl by (rule flow_same) (simp_all add: FStep)
  show ?thesis using step_flow[OF fl' d] fi FStep by simp
next
  case (FFinish job ring) thus ?thesis using finish_flow fl fi by simp
qed

lemma start_flow: "job_flow plan (fires (sm_agenda (pool_start plan))) (pool_start plan)"
proof -
  have a: "fire_jobs to_land (image_mset FLand (mset js) + image_mset FControl (mset cs)) = mset js" for js cs
  proof -
    have "fire_jobs to_land (image_mset FControl (mset cs)) = {#}" by (induction cs) (simp_all add: fire_jobs_def)
    moreover have "fire_jobs to_land (image_mset FLand (mset js)) = mset js" by (induction js) (simp_all add: fire_jobs_def)
    ultimately show ?thesis by (simp add: fire_jobs_def)
  qed
  have b: "fire_jobs to_finish (image_mset FLand (mset js) + image_mset FControl (mset cs)) = {#}" for js cs
  proof -
    have "fire_jobs to_finish (image_mset FControl (mset cs)) = {#}" by (induction cs) (simp_all add: fire_jobs_def)
    moreover have "fire_jobs to_finish (image_mset FLand (mset js)) = {#}" by (induction js) (simp_all add: fire_jobs_def)
    ultimately show ?thesis by (simp add: fire_jobs_def)
  qed
  show ?thesis using a b by (simp add: job_flow_def start_fields landed_def dispatched_def finished_def map_filter_simps)
qed

lemma run_flow:
  assumes "distinct (map js_id (pp_jobs plan))" "pool_run plan = Some (Inr s)"
  shows "job_flow plan {#} s"
proof -
  have "job_flow plan (fires (sm_agenda s)) s \<and> timers (sm_agenda s) = []"
  proof (rule hero.run_invariant[OF assms(2)[unfolded pool_run_def], where I = "\<lambda>s. job_flow plan (fires (sm_agenda s)) s"])
    show "job_flow plan (fires (sm_agenda (pool_start plan))) (pool_start plan)" by (rule start_flow)
  next
    fix s t ts s'
    assume i: "job_flow plan (fires (sm_agenda s)) s" and t: "timers (sm_agenda s) = t # ts"
      and f: "pool_fire plan (t_fire t) (t_at t) (s\<lparr>sm_agenda := (sm_agenda s)\<lparr>timers := ts\<rparr>\<rparr>) = Inr s'"
    let ?s = "s\<lparr>sm_agenda := (sm_agenda s)\<lparr>timers := ts\<rparr>\<rparr>"
    have "job_flow plan (add_mset (t_fire t) (fires (sm_agenda ?s))) ?s"
      by (rule flow_same[OF i]) (simp_all add: fires_Cons[OF t])
    thus "job_flow plan (fires (sm_agenda s')) s'" by (rule fire_flow[OF _ assms(1)]) (rule f)
  qed
  thus ?thesis using fires_empty[of "sm_agenda s"] by auto
qed

section \<open>Time\<close>

definition plan_times_ok :: "PoolPlan \<Rightarrow> bool" where
  "plan_times_ok plan \<longleftrightarrow> 0 \<le> pp_wake plan \<and> 0 \<le> pp_gap plan \<and> 0 \<le> pp_after plan \<and> (\<forall>j\<in>set (pp_jobs plan). 0 \<le> js_work j)"

text \<open>What one firing adds: events of its own instant, and timers for that instant or later.\<close>

definition adds_now :: "int \<Rightarrow> PoolSim \<Rightarrow> PoolSim \<Rightarrow> bool" where
  "adds_now now s s' \<longleftrightarrow> (\<exists>es. sm_events s' = sm_events s @ es \<and> (\<forall>e\<in>set es. pe_at e = now))
     \<and> (agenda_ok now (sm_agenda s) \<longrightarrow> agenda_ok now (sm_agenda s'))"

lemma adds_now_trans: "adds_now now s s' \<Longrightarrow> adds_now now s' s'' \<Longrightarrow> adds_now now s s''"
  unfolding adds_now_def by (metis Un_iff append_assoc set_append)

lemma adds_now_same: "sm_events s' = sm_events s \<Longrightarrow> sm_agenda s' = sm_agenda s \<Longrightarrow> adds_now now s s'"
  by (simp add: adds_now_def)

lemma adds_now_emit: "emit_pool plan e s = Inr s' \<Longrightarrow> pe_at e = now \<Longrightarrow> adds_now now s s'"
  using emit_fields[of plan e s s'] by (auto simp: adds_now_def)

lemma adds_now_timer: "now \<le> at \<Longrightarrow> adds_now now s (pool_timer at f s)"
  by (simp add: adds_now_def agenda_ok_set)

lemma job_of_in: "job_of plan job = Some j \<Longrightarrow> j \<in> set (pp_jobs plan)"
  by (auto simp: job_of_def dest!: map_of_SomeD)

lemma step_adds:
  assumes "plan_times_ok plan" "pool_step plan now s = Inr s'"
  shows "adds_now now s s'"
proof (cases "pool_ready (s\<lparr>sm_stepping := False\<rparr>)")
  case False
  thus ?thesis using assms(2) by (auto simp: pool_step_def Let_def intro: adds_now_same)
next
  case True
  let ?s = "s\<lparr>sm_stepping := False\<rparr>"
  obtain s1 where d: "pool_dispatch plan now ?s = Inr s1"
    and s': "s' = (if pool_ready s1 then pool_timer (now + pp_gap plan) FStep (s1\<lparr>sm_stepping := True\<rparr>) else s1)"
    using assms(2) True by (auto simp: pool_step_def Let_def bindE_Inr)
  from d obtain source :: SourceSpec and strategy job rest ring and j :: JobSpec and s2 sp w where
    e: "emit_pool plan (PDispatch now job (ss_id source) ring sp w strategy) ?s = Inr s2" "job_of plan job = Some j"
    and s1: "s1 = pool_timer (now + js_work j) (FFinish job ring) s2"
    by (rule dispatchD) blast
  have "adds_now now s ?s" by (rule adds_now_same) simp_all
  moreover have "adds_now now ?s s2" by (rule adds_now_emit[OF e(1)]) simp
  moreover have "adds_now now s2 s1" unfolding s1
    by (rule adds_now_timer) (use assms(1) job_of_in[OF e(2)] in \<open>simp add: plan_times_ok_def\<close>)
  moreover have "adds_now now s1 s'"
  proof -
    have "adds_now now s1 (s1\<lparr>sm_stepping := True\<rparr>)" by (rule adds_now_same) simp_all
    moreover have "adds_now now (s1\<lparr>sm_stepping := True\<rparr>) (pool_timer (now + pp_gap plan) FStep (s1\<lparr>sm_stepping := True\<rparr>))"
      by (rule adds_now_timer) (use assms(1) in \<open>simp add: plan_times_ok_def\<close>)
    ultimately show ?thesis using adds_now_trans adds_now_same[of s1 s1] by (auto simp: s')
  qed
  ultimately show ?thesis using adds_now_trans by meson
qed

lemma retire_adds: "pool_retire plan now rs s = Inr s' \<Longrightarrow> adds_now now s s'"
  unfolding retire_effect adds_now_def by auto

lemma finish_adds:
  assumes "plan_times_ok plan" "pool_finish plan now job ring s = Inr s'"
  shows "adds_now now s s'"
proof -
  obtain s1 s2 where 1: "emit_pool plan (PDone now job ring) s = Inr s1" and
    2: "(if sm_stopped s1 \<and> hp_busy (sm_pool s1) = []
           then pool_retire plan now (ring # rev (hp_idle (sm_pool s1))) s1
           else let stays = (length (hp_idle (sm_pool s1)) < pool_pending (sm_pool s1) \<or> hp_idle (sm_pool s1) = [])
                in emit_pool plan (if stays then PIdle now ring else PExit now ring) s1) = Inr s2"
    and s': "s' = pool_timer (now + pp_after plan) FWake s2"
    using assms(2) by (auto simp: pool_finish_def bindE_Inr)
  have "adds_now now s1 s2"
  proof (cases "sm_stopped s1 \<and> hp_busy (sm_pool s1) = []")
    case True thus ?thesis using 2 retire_adds by (auto simp del: pool_retire.simps)
  next
    case False
    then obtain e where "emit_pool plan e s1 = Inr s2" "e = PIdle now ring \<or> e = PExit now ring" using 2 by (auto simp: Let_def split: if_splits)
    thus ?thesis using adds_now_emit by fastforce
  qed
  moreover have "adds_now now s s1" by (rule adds_now_emit[OF 1]) simp
  moreover have "adds_now now s2 s'" unfolding s' by (rule adds_now_timer) (use assms(1) in \<open>simp add: plan_times_ok_def\<close>)
  ultimately show ?thesis using adds_now_trans by blast
qed

lemma control_adds:
  assumes "plan_times_ok plan" "pool_control plan c now s = Inr s'"
  shows "adds_now now s s'"
proof -
  obtain s1 where 1: "emit_pool plan (control_event c now) s = Inr s1" "control_done plan c now s1 = Inr s'"
    using assms(2) by (auto simp: pool_control_def bindE_Inr split: option.splits)
  have "pe_at (control_event c now) = now" by (cases c) simp_all
  hence "adds_now now s s1" by (rule adds_now_emit[OF 1(1)])
  moreover have w: "adds_now now t (pool_timer (now + pp_wake plan) FWake t)" for t
    by (rule adds_now_timer) (use assms(1) in \<open>simp add: plan_times_ok_def\<close>)
  have "adds_now now s1 s'"
    using 1(2)
  proof (cases "(plan, c, now, s1)" rule: control_done.cases)
    case (5 plan' at now' s'')
    have "adds_now now s1 (s1\<lparr>sm_stopped := True\<rparr>)" by (rule adds_now_same) simp_all
    thus ?thesis using 1(2) 5 retire_adds adds_now_trans by (fastforce simp: Let_def split: if_splits simp del: pool_retire.simps)
  qed (use 1(2) w adds_now_trans[OF adds_now_same w] in \<open>auto intro: adds_now_same\<close>)
  ultimately show ?thesis using adds_now_trans by blast
qed

lemma fire_adds:
  assumes "plan_times_ok plan" "pool_fire plan f now s = Inr s'"
  shows "adds_now now s s'"
proof (cases f)
  case (FControl c) thus ?thesis using control_adds assms by simp
next
  case (FLand j)
  obtain s1 where 1: "emit_pool plan (PLand now (js_id j) (js_source j)) s = Inr s1" and s': "s' = pool_timer (now + pp_wake plan) FWake s1"
    using assms(2) FLand by (auto simp: bindE_Inr)
  have "adds_now now s s1" by (rule adds_now_emit[OF 1]) simp
  moreover have "adds_now now s1 s'" unfolding s' by (rule adds_now_timer) (use assms(1) in \<open>simp add: plan_times_ok_def\<close>)
  ultimately show ?thesis by (rule adds_now_trans)
next
  case FWake
  thus ?thesis using assms step_adds by (auto simp: pool_wake_def adds_now_same split: if_splits)
next
  case FStep thus ?thesis using assms step_adds by simp
next
  case (FFinish job ring) thus ?thesis using assms finish_adds by simp
qed

definition time_ok :: "PoolSim \<Rightarrow> bool" where
  "time_ok s \<longleftrightarrow> (\<exists>now. agenda_ok now (sm_agenda s) \<and> sorted (map pe_at (sm_events s)) \<and> (\<forall>e\<in>set (sm_events s). pe_at e \<le> now))"

lemma fire_time:
  assumes "plan_times_ok plan" "time_ok s" "timers (sm_agenda s) = t # ts"
    "pool_fire plan (t_fire t) (t_at t) (s\<lparr>sm_agenda := (sm_agenda s)\<lparr>timers := ts\<rparr>\<rparr>) = Inr s'"
  shows "time_ok s'"
proof -
  let ?s = "s\<lparr>sm_agenda := (sm_agenda s)\<lparr>timers := ts\<rparr>\<rparr>"
  obtain now where n: "agenda_ok now (sm_agenda s)" "sorted (map pe_at (sm_events s))" "\<forall>e\<in>set (sm_events s). pe_at e \<le> now"
    using assms(2) by (auto simp: time_ok_def)
  have sh: "now \<le> t_at t" "agenda_ok (t_at t) (sm_agenda ?s)" using agenda_ok_shift[OF n(1) assms(3)] by simp_all
  obtain es where es: "sm_events s' = sm_events s @ es" "\<forall>e\<in>set es. pe_at e = t_at t" and ag: "agenda_ok (t_at t) (sm_agenda s')"
    using fire_adds[OF assms(1,4)] sh(2) by (auto simp: adds_now_def)
  have "sorted (map pe_at es)" using es(2) by (induction es) auto
  hence "sorted (map pe_at (sm_events s'))" using es n sh(1) by (fastforce simp: sorted_append)
  thus ?thesis using ag es n(3) sh(1) unfolding time_ok_def by (intro exI[of _ "t_at t"]) fastforce
qed

lemma start_time: "time_ok (pool_start plan)"
proof -
  have f: "sorted (map timer_key (timers (sm_agenda s))) \<Longrightarrow> sorted (map timer_key (timers (sm_agenda (fold (\<lambda>x. pool_timer (at x) (f x)) xs s))))" for at f s
    and xs :: "'a list"
  proof (induction xs arbitrary: s)
    case (Cons x xs)
    show ?case using Cons.IH[of "pool_timer (at x) (f x) s"] by (simp add: set_timer_def)
  qed simp
  have "sorted (map timer_key (timers (sm_agenda (pool_start plan))))"
    unfolding pool_start_def Let_def by (intro f) (simp add: no_timers_def)
  moreover have "\<exists>now. \<forall>x\<in>set (timers ag). now \<le> t_at x" for ag :: "Fire Agenda"
    by (rule exI[of _ "Min (insert 0 (t_at ` set (timers ag)))"]) (simp add: Min_le)
  ultimately show ?thesis unfolding time_ok_def agenda_ok_def by (auto simp: start_fields)
qed

end
