(* ===== verification/Hero_Pool_Props.thy ===== *)
theory Hero_Pool_Props
  imports Hero_Pool_Runs
begin

text \<open>
  The hero map's pool against the other models of the site: its source picks meet the strategies' contract, so they
  are the guides' picks; its priority source holds its jobs as the home page's priority queue does. Then the
  properties of the simulation.
\<close>

section \<open>Picks\<close>

text \<open>\<open>r\<close> is the first of the best: better than all before it, no worse than all after it.\<close>

definition first_best :: "('a \<Rightarrow> int) \<Rightarrow> 'a list \<Rightarrow> 'a \<Rightarrow> bool" where
  "first_best g xs r \<longleftrightarrow> (\<exists>a b. xs = a @ r # b \<and> (\<forall>y\<in>set a. g y < g r) \<and> (\<forall>y\<in>set b. g y \<le> g r))"

lemma first_best_fold: "first_best g (x # xs) (fold (\<lambda>s best. if g best < g s then s else best) xs x)"
proof (induction xs arbitrary: x)
  case Nil
  show ?case unfolding first_best_def by (rule exI[of _ "[]"]) simp
next
  case (Cons s xs)
  let ?f = "\<lambda>s best. if g best < g s then s else best"
  define z where "z = (if g x < g s then s else x)"
  define r where "r = fold ?f xs z"
  obtain a b where ih: "z # xs = a @ r # b" "\<forall>y\<in>set a. g y < g r" "\<forall>y\<in>set b. g y \<le> g r"
    using Cons.IH[of z] unfolding r_def[symmetric] first_best_def by blast
  have zr: "g z \<le> g r" "a \<noteq> [] \<Longrightarrow> g z < g r" using ih by (cases a; auto simp: less_imp_le)+
  have "first_best g (x # s # xs) r"
  proof (cases "g x < g s")
    case True
    hence "x # s # xs = (x # a) @ r # b" using ih(1) by (simp add: z_def)
    moreover have "\<forall>y\<in>set (x # a). g y < g r" using ih(2) zr(1) True by (auto simp: z_def)
    ultimately show ?thesis unfolding first_best_def using ih(3) by blast
  next
    case False
    show ?thesis
    proof (cases a)
      case Nil
      hence "x # s # xs = [] @ r # (s # b)" "g s \<le> g r" using ih(1) False by (simp_all add: z_def)
      thus ?thesis unfolding first_best_def using ih(3) by (metis empty_iff empty_set set_ConsD)
    next
      case (Cons y a')
      hence e: "x # s # xs = (x # s # a') @ r # b" using ih(1) False by (simp add: z_def)
      have "\<forall>y\<in>set (x # s # a'). g y < g r" using ih(1,2) zr(2) Cons False by (auto simp: z_def)
      thus ?thesis unfolding first_best_def using e ih(3) by blast
    qed
  qed
  moreover have "fold ?f (s # xs) x = r" by (simp add: r_def z_def)
  ultimately show ?case by simp
qed

lemma filter_split: "filter P xs = a @ r # b \<Longrightarrow> \<exists>u v. xs = u @ r # v \<and> filter P u = a \<and> filter P v = b \<and> P r"
proof (induction xs arbitrary: a)
  case (Cons y ys)
  show ?case
  proof (cases "P y \<and> a = []")
    case True
    thus ?thesis using Cons.prems by (intro exI[of _ "[]"] exI[of _ ys]) auto
  next
    case False
    obtain a' where a': "filter P ys = a' @ r # b" "a = (if P y then y # a' else a')"
      using Cons.prems False by (cases a) (auto split: if_splits)
    obtain u v where "ys = u @ r # v" "filter P u = a'" "filter P v = b" "P r" using Cons.IH[OF a'(1)] by blast
    thus ?thesis using a'(2) by (intro exI[of _ "y # u"] exI[of _ v]) auto
  qed
qed simp

lemma reduce_first:
  fixes g :: "'a \<Rightarrow> int"
  assumes "filter P xs \<noteq> []"
  shows "\<exists>i < length xs. reduce_by (\<lambda>s best. g best < g s) (filter P xs) = Some (xs ! i) \<and> P (xs ! i)
    \<and> (\<forall>k < length xs. P (xs ! k) \<longrightarrow> g (xs ! k) \<le> g (xs ! i)) \<and> (\<forall>k < i. P (xs ! k) \<longrightarrow> g (xs ! k) < g (xs ! i))"
proof -
  obtain y ys where f: "filter P xs = y # ys" using assms by (cases "filter P xs") auto
  let ?r = "fold (\<lambda>s best. if g best < g s then s else best) ys y"
  obtain a b where ab: "y # ys = a @ ?r # b" "\<forall>y\<in>set a. g y < g ?r" "\<forall>y\<in>set b. g y \<le> g ?r" using first_best_fold[of g y ys] unfolding first_best_def by blast
  obtain u v where uv: "xs = u @ ?r # v" "filter P u = a" "filter P v = b" "P ?r" using filter_split[of P xs a ?r b] f ab(1) by auto
  let ?i = "length u"
  have i: "?i < length xs" "xs ! ?i = ?r"
    using arg_cong[OF uv(1), of length] arg_cong[OF uv(1), of "\<lambda>l. l ! ?i"] by simp_all
  have lt: "g (xs ! k) < g ?r" if "k < ?i" "P (xs ! k)" for k
  proof -
    have e: "xs ! k = u ! k" unfolding uv(1) using that(1) by (simp add: nth_append)
    hence "xs ! k \<in> set (filter P u)" using that by simp
    thus ?thesis using uv(2) ab(2) by blast
  qed
  have le: "g (xs ! k) \<le> g ?r" if "k < length xs" "P (xs ! k)" for k
  proof -
    consider "k < ?i" | "k = ?i" | "?i < k" by linarith
    thus ?thesis
    proof cases
      case 3
      have "length xs = Suc (?i + length v)" using arg_cong[OF uv(1), of length] by simp
      hence kv: "k - Suc ?i < length v" using 3 that(1) by simp
      have "(u @ ?r # v) ! k = v ! (k - Suc ?i)" using 3 by (simp add: nth_append nth_Cons')
      hence "xs ! k = v ! (k - Suc ?i)" using arg_cong[OF uv(1), of "\<lambda>l. l ! k"] by simp
      hence "xs ! k \<in> set (filter P v)" using that(2) kv by simp
      thus ?thesis using uv(3) ab(3) by blast
    qed (use lt that i in \<open>auto simp: less_imp_le\<close>)
  qed
  show ?thesis using i uv(4) lt le f by (intro exI[of _ ?i]) auto
qed

lemma find_find_index: "List.find P xs = map_option (\<lambda>k. xs ! k) (find_index P xs)"
  by (induction xs) (auto simp: option.map_comp comp_def)

lemma find_index_map: "find_index P (map f xs) = find_index (\<lambda>x. P (f x)) xs"
  by (induction xs) auto

lemma rotated_map: "rotated t (map f xs) = map f (rotated t xs)"
  by (simp add: rotated_def take_map drop_map)

lemma pool_pick_spec:
  assumes "\<exists>s\<in>set (pp_sources plan). 0 < wait_len p s" "hp_turn p < length (pp_sources plan)"
  shows "\<exists>i < length (pp_sources plan). pool_pick plan p st = Some (pp_sources plan ! i)
    \<and> strategy_spec st (map (wait_len p) (pp_sources plan)) (hp_turn p) i"
proof -
  let ?ss = "pp_sources plan" and ?P = "\<lambda>s. 0 < wait_len p s"
  have ne: "filter ?P ?ss \<noteq> []" using assms(1) by (simp add: filter_empty_conv)
  show ?thesis
  proof (cases st)
    case MaxLen
    obtain i where i: "i < length ?ss" "reduce_by (\<lambda>s best. int (wait_len p best) < int (wait_len p s)) (filter ?P ?ss) = Some (?ss ! i)"
      "?P (?ss ! i)" "\<forall>k < length ?ss. ?P (?ss ! k) \<longrightarrow> int (wait_len p (?ss ! k)) \<le> int (wait_len p (?ss ! i))"
      "\<forall>k < i. ?P (?ss ! k) \<longrightarrow> int (wait_len p (?ss ! k)) < int (wait_len p (?ss ! i))"
      using reduce_first[OF ne, of "\<lambda>s. int (wait_len p s)"] by blast
    have "wait_len p (?ss ! k) \<le> wait_len p (?ss ! i)" if "k < length ?ss" for k using i(4) that by (cases "?P (?ss ! k)") auto
    moreover have "wait_len p (?ss ! k) < wait_len p (?ss ! i)" if "k < i" for k using i(3,5) that by (cases "?P (?ss ! k)") auto
    ultimately show ?thesis using i(1-3) MaxLen by (intro exI[of _ i]) simp
  next
    case MinLen
    obtain i where i: "i < length ?ss" "reduce_by (\<lambda>s best. - int (wait_len p best) < - int (wait_len p s)) (filter ?P ?ss) = Some (?ss ! i)"
      "?P (?ss ! i)" "\<forall>k < length ?ss. ?P (?ss ! k) \<longrightarrow> - int (wait_len p (?ss ! k)) \<le> - int (wait_len p (?ss ! i))"
      "\<forall>k < i. ?P (?ss ! k) \<longrightarrow> - int (wait_len p (?ss ! k)) < - int (wait_len p (?ss ! i))"
      using reduce_first[OF ne, of "\<lambda>s. - int (wait_len p s)"] by blast
    thus ?thesis using MinLen by (intro exI[of _ i]) auto
  next
    case Priority
    obtain y ys where f: "filter ?P ?ss = y # ys" using ne by (cases "filter ?P ?ss") auto
    obtain u v where uv: "?ss = u @ y # v" "filter ?P u = []" "?P y" using filter_split[of ?P ?ss "[]" y ys] f by auto
    have "\<forall>k < length u. wait_len p (?ss ! k) = 0" using uv(1,2) by (auto simp: nth_append filter_empty_conv)
    moreover have "?ss ! length u = y" "length u < length ?ss" unfolding uv(1) by simp_all
    ultimately show ?thesis using uv(3) f Priority by (intro exI[of _ "length u"]) simp
  next
    case RoundRobin
    let ?ls = "map (wait_len p) ?ss"
    obtain k where k: "find_index ?P (rotated (hp_turn p) ?ss) = Some k" using find_index_ex[of "rotated (hp_turn p) ?ss" ?P] assms(1) by auto
    hence kl: "k < length ?ss" using find_index_SomeD by fastforce
    let ?i = "(hp_turn p + k) mod length ?ss"
    have "rr_first ?ls (hp_turn p) = Some ?i"
      using k by (simp add: rr_first_def rotated_map find_index_map)
    moreover have "pool_pick plan p st = Some (?ss ! ?i)"
      using k kl assms(2) RoundRobin by (simp add: find_find_index rotated_nth)
    moreover have "?i < length ?ss" using assms(2) by (intro mod_less_divisor) linarith
    ultimately show ?thesis using rr_first_SomeD[of "hp_turn p" ?ls ?i] assms(2) RoundRobin by (intro exI[of _ ?i]) auto
  qed
qed

lemma pool_pick_some:
  assumes "\<exists>s\<in>set (pp_sources plan). 0 < wait_len p s"
  shows "\<exists>s\<in>set (pp_sources plan). pool_pick plan p st = Some s \<and> 0 < wait_len p s"
proof -
  have ne: "filter (\<lambda>s. 0 < wait_len p s) (pp_sources plan) \<noteq> []" using assms by (simp add: filter_empty_conv)
  show ?thesis
  proof (cases st)
    case MaxLen
    show ?thesis using reduce_first[OF ne, of "\<lambda>s. int (wait_len p s)"] MaxLen by auto
  next
    case MinLen
    show ?thesis using reduce_first[OF ne, of "\<lambda>s. - int (wait_len p s)"] MinLen by auto
  next
    case Priority
    obtain y ys where f: "filter (\<lambda>s. 0 < wait_len p s) (pp_sources plan) = y # ys" using ne by (cases "filter (\<lambda>s. 0 < wait_len p s) (pp_sources plan)") auto
    hence "y \<in> set (filter (\<lambda>s. 0 < wait_len p s) (pp_sources plan))" by simp
    hence "y \<in> set (pp_sources plan)" "0 < wait_len p y" by (simp_all only: set_filter mem_Collect_eq)
    thus ?thesis using f Priority by simp
  next
    case RoundRobin
    obtain s where "List.find (\<lambda>s. 0 < wait_len p s) (rotated (hp_turn p) (pp_sources plan)) = Some s"
      using assms by (cases "List.find (\<lambda>s. 0 < wait_len p s) (rotated (hp_turn p) (pp_sources plan))") (auto simp: find_None_iff)
    moreover from this have "s \<in> set (pp_sources plan) \<and> 0 < wait_len p s" by (metis find_Some_iff nth_mem set_rotated)
    ultimately show ?thesis using RoundRobin by auto
  qed
qed

section \<open>A priority source\<close>

lemma land_index_spec:
  "n \<le> length q \<Longrightarrow> (\<forall>k. land_index rk q job n \<le> k \<and> k < n \<longrightarrow> rk job < rk (q ! k))
    \<and> (0 < land_index rk q job n \<longrightarrow> rk (q ! (land_index rk q job n - 1)) \<le> rk job)"
  by (induction n) (auto simp: less_Suc_eq)

text \<open>Into a queue in order, a job lands behind the jobs that come no later.\<close>

lemma land_in_sorted:
  assumes "sorted (map rk q)"
  shows "\<exists>a b. q = a @ b \<and> land_in rk True job q = a @ job # b \<and> (\<forall>x\<in>set a. rk x \<le> rk job) \<and> (\<forall>x\<in>set b. rk job < rk x)"
proof -
  let ?i = "land_index rk q job (length q)"
  note sp = land_index_spec[of "length q" q rk job, simplified]
  have il: "?i \<le> length q" by (rule land_index_le)
  have "rk x \<le> rk job" if x: "x \<in> set (take ?i q)" for x
  proof -
    obtain k where k: "k < ?i" "x = q ! k" using x il by (auto simp: in_set_conv_nth)
    have "rk (q ! k) \<le> rk (q ! (?i - 1))" using assms k(1) il sorted_nth_mono[OF assms, of k "?i - 1"] by simp
    thus ?thesis using sp k by simp
  qed
  moreover have "rk job < rk x" if x: "x \<in> set (drop ?i q)" for x
  proof -
    obtain k where "k < length (drop ?i q)" "x = drop ?i q ! k" using x by (metis in_set_conv_nth)
    hence "x = q ! (?i + k)" "?i + k < length q" using il by simp_all
    thus ?thesis using sp by (metis le_add1)
  qed
  moreover have "land_in rk True job q = take ?i q @ job # drop ?i q" by (simp add: land_in_def splice_in_def)
  ultimately show ?thesis by (intro exI[of _ "take ?i q"] exI[of _ "drop ?i q"]) simp
qed

lemma land_all_sorts:
  "sort_key rk js = fold (land_in rk True) js []"
proof (induction js rule: rev_induct)
  case (snoc j js)
  let ?q = "fold (land_in rk True) js []"
  have so: "sorted (map rk ?q)" using snoc by (metis sorted_sort_key)
  obtain a b where ab: "?q = a @ b" "land_in rk True j ?q = a @ j # b" "\<forall>x\<in>set a. rk x \<le> rk j" "\<forall>x\<in>set b. rk j < rk x"
    using land_in_sorted[OF so, of j] by blast
  have "sort_key rk (js @ [j]) = a @ j # b"
  proof (rule properties_for_sort_key)
    have "mset ?q = mset js" unfolding snoc[symmetric] by simp
    hence "mset a + mset b = mset js" using ab(1) by simp
    thus "mset (a @ j # b) = mset (js @ [j])" by simp
    show "sorted (map rk (a @ j # b))" using so ab by (auto simp: sorted_append less_imp_le)
    show "filter (\<lambda>x. rk k = rk x) (a @ j # b) = filter (\<lambda>x. rk k = rk x) (js @ [j])" for k
    proof -
      have st: "filter (\<lambda>x. rk x = rk k) ?q = filter (\<lambda>x. rk x = rk k) js" using sort_key_stable[of rk "rk k" js] snoc by simp
      have "filter (\<lambda>x. rk k = rk x) b = []" if "rk k = rk j" using ab(4) that by (auto simp: filter_empty_conv)
      thus ?thesis using st ab(1) by (auto simp: eq_commute[of "rk k"])
    qed
  qed
  thus ?case using ab(2) by simp
qed simp

lemma map_sort_key: "(\<And>x. x \<in> set xs \<Longrightarrow> f (g x) = h x) \<Longrightarrow> map g (sort_key h xs) = sort_key f (map g xs)"
proof (induction xs)
  case (Cons x xs)
  have "map g (insort_key h x ys) = insort_key f (g x) (map g ys)" if "set ys \<subseteq> set (x # xs)" for ys
    using that Cons.prems by (induction ys) auto
  from this[of "sort_key h xs"] show ?case using Cons by auto
qed simp

section \<open>Names\<close>

text \<open>A plan whose jobs name sources it has, and whose strategy names at least one.\<close>

definition named_plan :: "PoolPlan \<Rightarrow> bool" where
  "named_plan plan \<longleftrightarrow> pp_sources plan \<noteq> [] \<and> (\<forall>j\<in>set (pp_jobs plan). js_source j \<in> ss_id ` set (pp_sources plan)) \<and> timeline plan \<noteq> []"

lemma apply_names:
  assumes "pool_apply plan e p = Inr p'"
  shows "dom (map_of (hp_waiting p')) = dom (map_of (hp_waiting p))" "distinct (map fst (hp_waiting p)) \<Longrightarrow> distinct (map fst (hp_waiting p'))"
    "set_mset (waiting_mset p') \<subseteq> set_mset (waiting_mset p) \<union> set_option (landed_job e)"
proof -
  have "dom (map_of (hp_waiting p')) = dom (map_of (hp_waiting p)) \<and> (distinct (map fst (hp_waiting p)) \<longrightarrow> distinct (map fst (hp_waiting p')))
    \<and> set_mset (waiting_mset p') \<subseteq> set_mset (waiting_mset p) \<union> set_option (landed_job e)"
  proof (cases e)
    case (PLand at job source)
    obtain q' where "hp_waiting p' = AList.update source q' (hp_waiting p)" using assms PLand by (auto split: option.splits)
    thus ?thesis using apply_land(1,5)[of plan at job source p p'] assms PLand by (auto simp: distinct_update)
  next
    case (PDispatch at job source ring sp w st)
    obtain q where q: "map_of (hp_waiting p) source = Some q" using assms PDispatch by (auto split: option.splits)
    have u: "hp_waiting p' = AList.update source (filter (\<lambda>id. id \<noteq> job) q) (hp_waiting p)" using assms PDispatch q by auto
    have "waiting_mset p' \<subseteq># waiting_mset p"
    proof -
      have "waiting_mset p' + mset q = waiting_mset p + mset (filter (\<lambda>x. x \<noteq> job) q)" using apply_dispatch(1)[OF _ q] assms PDispatch by blast
      also have "\<dots> \<subseteq># waiting_mset p + mset q" by simp
      finally show ?thesis by simp
    qed
    thus ?thesis using update_dom[OF q] u PDispatch by (auto simp: distinct_update dest: mset_subset_eqD)
  qed (use assms in \<open>auto split: option.splits if_splits simp: waiting_mset_def\<close>)
  thus "dom (map_of (hp_waiting p')) = dom (map_of (hp_waiting p))" "distinct (map fst (hp_waiting p)) \<Longrightarrow> distinct (map fst (hp_waiting p'))"
    "set_mset (waiting_mset p') \<subseteq> set_mset (waiting_mset p) \<union> set_option (landed_job e)" by blast+
qed

lemma replay_names:
  assumes "replay (pool_apply plan) es p = Inr p'"
  shows "dom (map_of (hp_waiting p')) = dom (map_of (hp_waiting p))" "distinct (map fst (hp_waiting p)) \<Longrightarrow> distinct (map fst (hp_waiting p'))"
    "set_mset (waiting_mset p') \<subseteq> set_mset (waiting_mset p) \<union> (\<Union>e\<in>set es. set_option (landed_job e))"
proof -
  have "dom (map_of (hp_waiting p')) = dom (map_of (hp_waiting p)) \<and> (distinct (map fst (hp_waiting p)) \<longrightarrow> distinct (map fst (hp_waiting p')))
    \<and> set_mset (waiting_mset p') \<subseteq> set_mset (waiting_mset p) \<union> (\<Union>e\<in>set es. set_option (landed_job e))"
    using assms
  proof (induction es arbitrary: p)
    case (Cons e es)
    then obtain u where u: "pool_apply plan e p = Inr u" "replay (pool_apply plan) es u = Inr p'" by (auto simp: bindE_Inr)
    show ?case using apply_names[OF u(1)] Cons.IH[OF u(2)] by auto
  qed simp
  thus "dom (map_of (hp_waiting p')) = dom (map_of (hp_waiting p))" "distinct (map fst (hp_waiting p)) \<Longrightarrow> distinct (map fst (hp_waiting p'))"
    "set_mset (waiting_mset p') \<subseteq> set_mset (waiting_mset p) \<union> (\<Union>e\<in>set es. set_option (landed_job e))" by blast+
qed

lemma fresh_names: "dom (map_of (hp_waiting (fresh_pool plan))) = ss_id ` set (pp_sources plan)" "distinct (map fst (hp_waiting (fresh_pool plan)))"
proof -
  have "dom (map_of (fold (\<lambda>s. AList.update (ss_id s) []) ss al)) = dom (map_of al) \<union> ss_id ` set ss
    \<and> (distinct (map fst al) \<longrightarrow> distinct (map fst (fold (\<lambda>s. AList.update (ss_id s) []) ss al)))" for ss :: "SourceSpec list" and al :: "(string \<times> string list) list"
  proof (induction ss arbitrary: al)
    case (Cons s ss)
    show ?case using Cons.IH[of "AList.update (ss_id s) [] al"] by (auto simp: update_conv' distinct_update dom_if split: if_splits)
  qed simp
  from this[of "pp_sources plan" "[]"] show "dom (map_of (hp_waiting (fresh_pool plan))) = ss_id ` set (pp_sources plan)"
    "distinct (map fst (hp_waiting (fresh_pool plan)))" by (simp_all add: fresh_pool_def no_waiting_def)
qed

lemma sim_names:
  assumes "hero_log.faithful plan (fresh_pool plan) s" "job_flow plan M s"
  shows "dom (map_of (hp_waiting (sm_pool s))) = ss_id ` set (pp_sources plan)" "distinct (map fst (hp_waiting (sm_pool s)))"
    "set_mset (waiting_mset (sm_pool s)) \<subseteq> js_id ` set (pp_jobs plan)" "FLand j \<in># M \<Longrightarrow> j \<in> set (pp_jobs plan)"
proof -
  have r: "replay (pool_apply plan) (sm_events s) (fresh_pool plan) = Inr (sm_pool s)" using assms(1) by (simp add: hero_log.faithful_def)
  show "dom (map_of (hp_waiting (sm_pool s))) = ss_id ` set (pp_sources plan)" "distinct (map fst (hp_waiting (sm_pool s)))"
    using replay_names(1,2)[OF r] fresh_names by simp_all
  have "waiting_mset (sm_pool s) \<subseteq># landed (sm_events s)" using assms(2) by (simp add: job_flow_def)
  moreover have "landed (sm_events s) \<subseteq># mset (map js_id (pp_jobs plan))" using assms(2) unfolding job_flow_def by (metis mset_subset_eq_add_left)
  ultimately have "waiting_mset (sm_pool s) \<subseteq># mset (map js_id (pp_jobs plan))" by (rule subset_mset.order_trans)
  thus "set_mset (waiting_mset (sm_pool s)) \<subseteq> js_id ` set (pp_jobs plan)" using set_mset_mono by fastforce
  show "j \<in> set (pp_jobs plan)" if "FLand j \<in># M"
  proof -
    have "j \<in># fire_jobs to_land M" using that by (force simp: fire_jobs_def)
    thus ?thesis using assms(2) unfolding job_flow_def by (meson mset_subset_eqD set_mset_mset in_multiset_in_set)
  qed
qed

lemma pending_source:
  assumes "0 < pool_pending p" "distinct (map fst (hp_waiting p))" "dom (map_of (hp_waiting p)) = ss_id ` set (pp_sources plan)"
  shows "\<exists>s\<in>set (pp_sources plan). 0 < wait_len p s"
proof -
  have "\<exists>x\<in>set (hp_waiting p). snd x \<noteq> []"
  proof (rule ccontr)
    assume "\<not> ?thesis"
    hence "\<forall>x\<in>set (hp_waiting p). snd x = []" by blast
    hence "pool_pending p = 0" unfolding pool_pending_def by (induction "hp_waiting p" arbitrary: p) auto
    thus False using assms(1) by simp
  qed
  then obtain k q where kq: "(k, q) \<in> set (hp_waiting p)" "q \<noteq> []" by fastforce
  have m: "map_of (hp_waiting p) k = Some q" using kq(1) assms(2) by simp
  hence "k \<in> ss_id ` set (pp_sources plan)" unfolding assms(3)[symmetric] by blast
  then obtain s where "s \<in> set (pp_sources plan)" "ss_id s = k" by blast
  thus ?thesis using m kq(2) by (intro bexI[of _ s]) (auto simp: wait_len_def)
qed

lemma dispatch_typed:
  assumes f: "hero_log.faithful plan (fresh_pool plan) s" and j: "job_flow plan M s" and n: "named_plan plan" and r: "pool_ready s"
    and e: "pool_dispatch plan now s = Inl err"
  shows "hp_limit (sm_pool s) = 1 \<and> err = BatchErr (int (pool_pending (sm_pool s))) now"
proof -
  let ?p = "sm_pool s"
  note nm = sim_names[OF f j]
  have ex: "\<exists>s\<in>set (pp_sources plan). 0 < wait_len ?p s" using pending_source[OF _ nm(2,1)] r by (simp add: pool_ready_def)
  have "\<exists>src st. choose_source plan ?p now = Inr (src, st) \<and> 0 < wait_len ?p src"
  proof (cases "1 < length (pp_sources plan)")
    case True
    have "\<exists>st. strategy_at plan now = Inr st"
      using n by (auto simp: strategy_at_def named_plan_def split: option.splits prod.splits list.splits)
    then obtain st where st: "strategy_at plan now = Inr st" by blast
    obtain src where "pool_pick plan ?p st = Some src" "0 < wait_len ?p src" using pool_pick_some[OF ex, of st] by blast
    thus ?thesis using True st by (simp add: choose_source_def)
  next
    case False
    then obtain src where src: "pp_sources plan = [src]" using n by (cases "pp_sources plan") (auto simp: named_plan_def)
    thus ?thesis using ex by (auto simp: choose_source_def)
  qed
  then obtain src st where c: "choose_source plan ?p now = Inr (src, st)" "0 < wait_len ?p src" by blast
  obtain job rest where q: "map_of (hp_waiting ?p) (ss_id src) = Some (job # rest)"
    using c(2) by (auto simp: wait_len_def neq_Nil_conv split: option.splits)
  have "job \<in> js_id ` set (pp_jobs plan)" using waiting_subset[OF q] nm(3) by (auto dest: mset_subset_eqD)
  then obtain jj where "job_of plan job = Some jj"
    by (cases "job_of plan job") (force simp: job_of_def map_of_eq_None_iff)+
  thus ?thesis using e c(1) q by (auto simp: pool_dispatch_def Let_def emit_pool_def split: if_splits)
qed

lemma fire_typed:
  assumes f: "hero_log.faithful plan (fresh_pool plan) s" and j: "job_flow plan (add_mset f0 (fires (sm_agenda s))) s" and n: "named_plan plan"
    and nc: "\<And>c. f0 \<noteq> FControl c" and e: "pool_fire plan f0 now s = Inl err"
  shows "hp_limit (sm_pool s) = 1"
proof -
  have st: "hp_limit (sm_pool s) = 1" if "pool_step plan now s = Inl err"
  proof -
    let ?s = "s\<lparr>sm_stepping := False\<rparr>"
    have r: "pool_ready ?s" and d: "pool_dispatch plan now ?s = Inl err"
      using that by (cases "pool_ready ?s"; cases "pool_dispatch plan now ?s"; auto simp: pool_step_def Let_def)+
    have "hero_log.faithful plan (fresh_pool plan) ?s" using f log_cong(1)[of ?s s] by simp
    moreover have "job_flow plan (add_mset f0 (fires (sm_agenda s))) ?s" by (rule flow_same[OF j]) simp_all
    ultimately show ?thesis using dispatch_typed[OF _ _ n r d] by force
  qed
  show ?thesis
  proof (cases f0)
    case (FLand jb)
    have "jb \<in> set (pp_jobs plan)" using sim_names(4)[OF f j] FLand by simp
    hence "js_source jb \<in> dom (map_of (hp_waiting (sm_pool s)))" using n sim_names(1)[OF f j] by (simp add: named_plan_def)
    then obtain q where "map_of (hp_waiting (sm_pool s)) (js_source jb) = Some q" by auto
    thus ?thesis using e FLand by (simp add: emit_pool_def)
  next
    case (FFinish job ring)
    have "pool_finish plan now job ring s \<noteq> Inl err"
      by (simp add: pool_finish_def emit_pool_def retire_effect Let_def del: pool_retire.simps)
    thus ?thesis using e FFinish by simp
  qed (use e nc st in \<open>auto simp: pool_wake_def split: if_splits\<close>)
qed

definition sim_ok :: "PoolPlan \<Rightarrow> PoolSim \<Rightarrow> bool" where
  "sim_ok plan s \<longleftrightarrow> pool_inv plan (fires (sm_agenda s)) s \<and> job_flow plan (fires (sm_agenda s)) s
     \<and> (\<forall>c. FControl c \<notin># fires (sm_agenda s)) \<and> \<not> sm_paused s \<and> \<not> sm_stopped s"

lemma step_no_control:
  assumes "pool_step plan now s = Inr s'"
  shows "FControl c \<in># fires (sm_agenda s') \<Longrightarrow> FControl c \<in># fires (sm_agenda s)" "sm_paused s' = sm_paused s" "sm_stopped s' = sm_stopped s"
proof -
  let ?s = "s\<lparr>sm_stepping := False\<rparr>"
  have "(FControl c \<in># fires (sm_agenda s') \<longrightarrow> FControl c \<in># fires (sm_agenda s)) \<and> sm_paused s' = sm_paused s \<and> sm_stopped s' = sm_stopped s"
  proof (cases "pool_ready ?s")
    case True
    obtain s1 where d: "pool_dispatch plan now ?s = Inr s1"
      and s': "s' = (if pool_ready s1 then pool_timer (now + pp_gap plan) FStep (s1\<lparr>sm_stepping := True\<rparr>) else s1)"
      using assms True by (auto simp: pool_step_def Let_def bindE_Inr)
    from d obtain source :: SourceSpec and strategy job rest ring and j :: JobSpec and s2 sp w where
      e: "emit_pool plan (PDispatch now job (ss_id source) ring sp w strategy) ?s = Inr s2"
      and s1: "s1 = pool_timer (now + js_work j) (FFinish job ring) s2"
      by (rule dispatchD) blast
    show ?thesis using emit_fields[OF e] by (simp add: s' s1)
  next
    case False thus ?thesis using assms by (auto simp: pool_step_def Let_def)
  qed
  thus "FControl c \<in># fires (sm_agenda s') \<Longrightarrow> FControl c \<in># fires (sm_agenda s)" "sm_paused s' = sm_paused s" "sm_stopped s' = sm_stopped s" by blast+
qed

lemma fire_no_control:
  assumes "pool_fire plan f now s = Inr s'" "\<And>c. f \<noteq> FControl c"
  shows "FControl c \<in># fires (sm_agenda s') \<Longrightarrow> FControl c \<in># fires (sm_agenda s)" "sm_paused s' = sm_paused s" "sm_stopped s' = sm_stopped s"
proof -
  have "(FControl c \<in># fires (sm_agenda s') \<longrightarrow> FControl c \<in># fires (sm_agenda s)) \<and> sm_paused s' = sm_paused s \<and> sm_stopped s' = sm_stopped s"
  proof (cases f)
    case (FLand j)
    then obtain s1 where 1: "emit_pool plan (PLand now (js_id j) (js_source j)) s = Inr s1" "s' = pool_timer (now + pp_wake plan) FWake s1"
      using assms(1) by (auto simp: bindE_Inr)
    thus ?thesis using emit_fields[OF 1(1)] by simp
  next
    case (FFinish job ring)
    obtain s1 s2 where 1: "emit_pool plan (PDone now job ring) s = Inr s1" and
      2: "(if sm_stopped s1 \<and> hp_busy (sm_pool s1) = []
           then pool_retire plan now (ring # rev (hp_idle (sm_pool s1))) s1
           else let stays = (length (hp_idle (sm_pool s1)) < pool_pending (sm_pool s1) \<or> hp_idle (sm_pool s1) = [])
                in emit_pool plan (if stays then PIdle now ring else PExit now ring) s1) = Inr s2"
      and s': "s' = pool_timer (now + pp_after plan) FWake s2"
      using assms(1) FFinish by (auto simp: pool_finish_def bindE_Inr)
    have "sm_agenda s2 = sm_agenda s1 \<and> sm_paused s2 = sm_paused s1 \<and> sm_stopped s2 = sm_stopped s1"
      using 2 emit_fields[of plan _ s1 s2] by (auto simp: retire_effect Let_def split: if_splits simp del: pool_retire.simps)
    thus ?thesis using emit_fields[OF 1] by (simp add: s')
  qed (use assms step_no_control[of plan now s s'] in \<open>auto simp: pool_wake_def split: if_splits\<close>)
  thus "FControl c \<in># fires (sm_agenda s') \<Longrightarrow> FControl c \<in># fires (sm_agenda s)" "sm_paused s' = sm_paused s" "sm_stopped s' = sm_stopped s" by blast+
qed

lemma sim_ok_fire:
  assumes "distinct (map js_id (pp_jobs plan))" "sim_ok plan s" "timers (sm_agenda s) = t # ts"
    "pool_fire plan (t_fire t) (t_at t) (s\<lparr>sm_agenda := (sm_agenda s)\<lparr>timers := ts\<rparr>\<rparr>) = Inr s'"
  shows "sim_ok plan s'"
proof -
  let ?s = "s\<lparr>sm_agenda := (sm_agenda s)\<lparr>timers := ts\<rparr>\<rparr>"
  note c = fires_Cons[OF assms(3)]
  have i: "pool_inv plan (add_mset (t_fire t) (fires (sm_agenda ?s))) ?s"
    using assms(2) c logged_cong[of ?s s] ready_cong[of ?s s] by (simp add: pool_inv_logged sim_ok_def)
  have "job_flow plan (fires (sm_agenda s)) s" using assms(2) by (simp add: sim_ok_def)
  hence j: "job_flow plan (add_mset (t_fire t) (fires (sm_agenda ?s))) ?s" by (rule flow_same) (simp_all add: c)
  have nc: "t_fire t \<noteq> FControl c" for c using assms(2) c by (auto simp: sim_ok_def)
  show ?thesis unfolding sim_ok_def
    using fire_inv[OF i assms(4)] fire_flow[OF j assms(1,4)] fire_no_control[OF assms(4) nc] assms(2) c
    by (auto simp: sim_ok_def)
qed

lemma sim_ok_start: "rings_plan plan \<Longrightarrow> pp_controls plan = [] \<Longrightarrow> sim_ok plan (pool_start plan)"
  using start_inv[of plan] start_flow[of plan] by (auto simp: sim_ok_def start_fields)

section \<open>Properties\<close>

text \<open>A plan for the examples: a pool of three, a queue and a priority queue, four jobs at once.\<close>

definition demo_job :: "string \<Rightarrow> string \<Rightarrow> int \<Rightarrow> int option \<Rightarrow> JobSpec" where
  "demo_job n src at p = \<lparr>js_id = n, js_source = src, js_at = at, js_work = 1000, js_priority = p\<rparr>"

definition demo_plan :: PoolPlan where
  "demo_plan = \<lparr>pp_limit = 3, pp_idle = [0], pp_turn = 0,
     pp_sources = [\<lparr>ss_id = ''q'', ss_priority = False\<rparr>, \<lparr>ss_id = ''p'', ss_priority = True\<rparr>],
     pp_strategy = Some (OneStrategy RoundRobin),
     pp_jobs = [demo_job ''a'' ''q'' 100 None, demo_job ''b'' ''p'' 100 (Some 5), demo_job ''c'' ''p'' 100 (Some 1), demo_job ''d'' ''q'' 200 None],
     pp_controls = [], pp_wake = 400, pp_gap = 300, pp_after = 250\<rparr>"

definition demo_events :: "PoolEvent list" where
  "demo_events = (case simulatePool demo_plan of Some (Inr es) \<Rightarrow> es | _ \<Rightarrow> [])"

lemma demo_plan_ok: "rings_plan demo_plan" "named_plan demo_plan" "distinct (map js_id (pp_jobs demo_plan))" "plan_times_ok demo_plan"
  by (simp_all add: demo_plan_def rings_plan_def named_plan_def plan_times_ok_def demo_job_def timeline_def)

lemma demo_simulated: "simulatePool demo_plan = Some (Inr demo_events)" "length demo_events = 16"
  by code_simp+

text \<open>
  C13: the simulation returns for every plan, whatever the plan: its timers run out, or one of its rules refuses the
  plan.
\<close>

theorem simulatePool_returns: "\<exists>r. simulatePool plan = Some r"
  using hero.run_returns[of plan "pool_start plan"] by (auto simp: simulatePool_def pool_run_def)

lemma flow_at_end:
  assumes "distinct (map js_id (pp_jobs plan))" "pool_run plan = Some (Inr s)"
  shows "landed (sm_events s) = mset (map js_id (pp_jobs plan))"
    "landed (sm_events s) = dispatched (sm_events s) + waiting_mset (sm_pool s)"
    "dispatched (sm_events s) = finished (sm_events s)"
proof -
  have e: "fire_jobs g {#} = {#}" for g :: "Fire \<Rightarrow> 'a option" by (simp add: fire_jobs_def)
  note f = run_flow[OF assms, unfolded job_flow_def e image_mset_empty add_0_right]
  show "landed (sm_events s) = mset (map js_id (pp_jobs plan))" using f by blast
  show "landed (sm_events s) = dispatched (sm_events s) + waiting_mset (sm_pool s)" using f by blast
  show "dispatched (sm_events s) = finished (sm_events s)" using f e by (metis add_0_right)
qed

lemma simulated_run:
  "simulatePool plan = Some (Inr evs) \<longleftrightarrow> (\<exists>s. pool_run plan = Some (Inr s) \<and> sm_events s = evs)"
  by (cases "pool_run plan") (auto simp: simulatePool_def bindE_Inr)

text \<open>
  C14: no two jobs share a ring. In every state that \<open>poolStates\<close> shows for the events of a
  simulation, the busy rings ascend, no ring is listed twice or both busy and idle.
\<close>

theorem poolStates_rings:
  assumes "rings_plan plan" "simulatePool plan = Some (Inr evs)"
  shows "\<exists>ps. poolStates plan evs = Inr ps \<and> length ps = length evs
    \<and> (\<forall>p\<in>set ps. sorted (ps_busy p) \<and> distinct (ps_busy p @ ps_idle p))"
proof -
  obtain s where s: "pool_run plan = Some (Inr s)" "sm_events s = evs" using assms(2) simulated_run by blast
  obtain ss where ss: "replay_states (pool_apply plan) evs (fresh_pool plan) = Inr ss" "\<forall>p\<in>set ss. rings_ok p"
    using run_inv(1)[OF assms(1) s(1)] s(2) by (auto simp: pool_inv_def hero_log.always_def)
  have len: "length ss' = length es" if "replay_states ap es v = Inr ss'" for ap :: "PoolEvent \<Rightarrow> HPool \<Rightarrow> PoolErr + HPool" and es v ss'
    using that by (induction es arbitrary: v ss') (auto simp: bindE_Inr)
  have "sorted (hp_busy p) \<and> distinct (hp_busy p @ hp_idle p)" if "(e, p) \<in> set (zip evs ss)" for e p
    using ss(2) set_zip_rightD[OF that] unfolding rings_ok_def distinct_append by blast
  thus ?thesis using ss(1) len[OF ss(1)] by (auto simp: poolStates_def simp del: distinct_append)
qed

theorem poolStates_rings_witness:
  "\<exists>ps. poolStates demo_plan demo_events = Inr ps \<and> length ps = 16 \<and> (\<forall>p\<in>set ps. sorted (ps_busy p) \<and> distinct (ps_busy p @ ps_idle p))"
  using poolStates_rings[OF demo_plan_ok(1) demo_simulated(1)] demo_simulated(2) by simp

text \<open>
  C15: at the end of a run, replaying its events gives the limit, the idle rings and the turn the simulation ended
  with: \<open>endState\<close> cannot drift from \<open>simulatePool\<close>. No ring is busy then, and the limit was never lowered.
\<close>

theorem endState_is_where_it_ended:
  assumes "rings_plan plan" "pool_run plan = Some (Inr s)"
  shows "endState plan (sm_events s) = Inr (hp_limit (sm_pool s), hp_idle (sm_pool s), hp_turn (sm_pool s))
    \<and> hp_busy (sm_pool s) = [] \<and> pp_limit plan \<le> hp_limit (sm_pool s)"
  using run_inv(1)[OF assms] by (simp add: pool_inv_def hero_log.faithful_def endState_def finish_rings_def)

theorem endState_is_where_it_ended_witness:
  "\<exists>s :: PoolSim. endState demo_plan (sm_events s) = Inr (hp_limit (sm_pool s), hp_idle (sm_pool s), hp_turn (sm_pool s)) \<and> hp_busy (sm_pool s) = []"
proof -
  obtain s where "pool_run demo_plan = Some (Inr s)" using demo_simulated(1) simulated_run by blast
  from endState_is_where_it_ended[OF demo_plan_ok(1) this] show ?thesis by blast
qed

text \<open>
  C16: every job runs once. When the worker ends a run neither paused nor stopped, and it may run a job at all,
  then the jobs that landed, the jobs that were dispatched and the jobs that are done are each exactly the jobs of the
  plan.
\<close>

theorem every_job_runs_once:
  assumes "rings_plan plan" "distinct (map js_id (pp_jobs plan))" "0 < pp_limit plan"
    "pool_run plan = Some (Inr s)" "\<not> sm_paused s" "\<not> sm_stopped s"
  shows "landed (sm_events s) = mset (map js_id (pp_jobs plan)) \<and> dispatched (sm_events s) = mset (map js_id (pp_jobs plan))
    \<and> finished (sm_events s) = mset (map js_id (pp_jobs plan))"
proof -
  note i = run_inv(1)[OF assms(1,4)]
  note fl = flow_at_end[OF assms(2,4)]
  have "hp_busy (sm_pool s) = []" "pp_limit plan \<le> hp_limit (sm_pool s)" "\<not> pool_ready s" using i by (simp_all add: pool_inv_def finish_rings_def)
  hence "pool_pending (sm_pool s) = 0" using assms(3,5,6) by (auto simp: pool_ready_def)
  hence "waiting_mset (sm_pool s) = {#}" by (simp add: pending_size)
  hence "landed (sm_events s) = dispatched (sm_events s)" using fl(2) by simp
  thus ?thesis using fl(1,3) by simp
qed

theorem every_job_runs_once_witness: "\<exists>s :: PoolSim. pool_run demo_plan = Some (Inr s) \<and> finished (sm_events s) = {#''a'', ''b'', ''c'', ''d''#}"
proof -
  obtain s where s: "pool_run demo_plan = Some (Inr s)" using demo_simulated(1) simulated_run by blast
  have "map_option (\<lambda>r. case r of Inr s \<Rightarrow> \<not> sm_paused s \<and> \<not> sm_stopped s | Inl e \<Rightarrow> False) (pool_run demo_plan) = Some True" by code_simp
  hence "\<not> sm_paused s" "\<not> sm_stopped s" using s by auto
  moreover have "0 < pp_limit demo_plan" by (simp add: demo_plan_def)
  ultimately have "finished (sm_events s) = mset (map js_id (pp_jobs demo_plan))"
    using every_job_runs_once[OF demo_plan_ok(1,3) _ s] by blast
  thus ?thesis using s by (simp add: demo_plan_def demo_job_def)
qed

text \<open>
  C17: a plan without controls, for a pool of at least two, whose jobs name its sources, is never refused: the
  simulation gives its events, and every job of the plan is done in them.
\<close>

theorem plain_plan_succeeds:
  assumes "rings_plan plan" "named_plan plan" "distinct (map js_id (pp_jobs plan))" "pp_controls plan = []" "1 < pp_limit plan"
  shows "\<exists>evs. simulatePool plan = Some (Inr evs) \<and> finished evs = mset (map js_id (pp_jobs plan))"
proof -
  obtain r where r: "des_run sm_agenda put_agenda (pool_fire plan) (pool_start plan) = Some r" using hero.run_returns by blast
  note st = sim_ok_start[OF assms(1,4)] and keep = sim_ok_fire[OF assms(3)]
  show ?thesis
  proof (cases r)
    case (Inl err)
    obtain s t ts where e: "sim_ok plan s" "timers (sm_agenda s) = t # ts"
      "pool_fire plan (t_fire t) (t_at t) (s\<lparr>sm_agenda := (sm_agenda s)\<lparr>timers := ts\<rparr>\<rparr>) = Inl err"
      by (rule hero.run_error[OF r[unfolded Inl], of "sim_ok plan", OF st]) (erule (2) keep, blast)
    let ?s = "s\<lparr>sm_agenda := (sm_agenda s)\<lparr>timers := ts\<rparr>\<rparr>"
    note c = fires_Cons[OF e(2)]
    have "job_flow plan (fires (sm_agenda s)) s" using e(1) by (simp add: sim_ok_def)
    hence "job_flow plan (add_mset (t_fire t) (fires (sm_agenda ?s))) ?s" by (rule flow_same) (simp_all add: c)
    moreover have "hero_log.faithful plan (fresh_pool plan) ?s" using e(1) log_cong(1)[of ?s s] by (simp add: sim_ok_def pool_inv_def)
    moreover have "t_fire t \<noteq> FControl k" for k using e(1) c by (auto simp: sim_ok_def)
    ultimately have "hp_limit (sm_pool s) = 1" using fire_typed[OF _ _ assms(2) _ e(3)] by simp
    thus ?thesis using e(1) assms(5) by (simp add: sim_ok_def pool_inv_def)
  next
    case (Inr s)
    have "sim_ok plan s \<and> timers (sm_agenda s) = []"
      by (rule hero.run_invariant[OF r[unfolded Inr], of "sim_ok plan", OF st]) (erule (2) keep)
    hence "\<not> sm_paused s" "\<not> sm_stopped s" by (simp_all add: sim_ok_def)
    moreover have run: "pool_run plan = Some (Inr s)" using r Inr by (simp add: pool_run_def)
    moreover have "hp_busy (sm_pool s) = []" "\<not> pool_ready s" "pp_limit plan \<le> hp_limit (sm_pool s)" using run_inv(1)[OF assms(1) run] by (simp_all add: pool_inv_def finish_rings_def)
    ultimately have "waiting_mset (sm_pool s) = {#}" using assms(5) by (auto simp: pool_ready_def pending_size)
    moreover note flow_at_end[OF assms(3) run]
    ultimately have "finished (sm_events s) = mset (map js_id (pp_jobs plan))" by (metis add_0_right)
    thus ?thesis using run simulated_run by blast
  qed
qed

theorem plain_plan_succeeds_witness: "\<exists>evs. simulatePool demo_plan = Some (Inr evs) \<and> finished evs = {#''a'', ''b'', ''c'', ''d''#}"
  using plain_plan_succeeds[OF demo_plan_ok(1,2,3)] by (simp add: demo_plan_def demo_job_def)

text \<open>
  The events of a simulation come in time order, when no delay of the plan is negative.
\<close>

theorem events_in_time_order:
  assumes "plan_times_ok plan" "simulatePool plan = Some (Inr evs)"
  shows "sorted (map pe_at evs)"
proof -
  obtain s where s: "pool_run plan = Some (Inr s)" "sm_events s = evs" using assms(2) simulated_run by blast
  have "time_ok s \<and> timers (sm_agenda s) = []"
    by (rule hero.run_invariant[OF s(1)[unfolded pool_run_def], of time_ok, OF start_time]) (erule (2) fire_time[OF assms(1)])
  thus ?thesis using s(2) by (auto simp: time_ok_def)
qed

theorem events_in_time_order_witness: "sorted (map pe_at demo_events)"
  by (rule events_in_time_order[OF demo_plan_ok(4) demo_simulated(1)])

text \<open>
  The hero map's pool and the guides pick alike. For every strategy, with a job waiting somewhere, the source
  \<open>simulatePool\<close>'s \<open>pick\<close> takes is the one the guides' \<open>pick\<close> names for queues of the same lengths and the same turn.
\<close>

theorem pool_pick_agrees_with_guides:
  assumes "\<exists>s\<in>set (pp_sources plan). 0 < wait_len p s" "hp_turn p < length (pp_sources plan)"
    "map src_len guides = map (wait_len p) (pp_sources plan)"
  shows "\<exists>g. map_option (map_sum (\<lambda>e. e) fst) (pick st guides (hp_turn p)) = Some (Inr (Some g))
    \<and> pool_pick plan p st = Some (pp_sources plan ! sp_index g)"
proof -
  let ?ls = "map (wait_len p) (pp_sources plan)"
  have l: "length guides = length (pp_sources plan)" using arg_cong[OF assms(3), of length] by simp
  have "\<exists>s\<in>set guides. 0 < src_len s"
  proof -
    have "\<exists>n\<in>set (map src_len guides). 0 < n" unfolding assms(3) using assms(1) by auto
    thus ?thesis by auto
  qed
  from pick_spec[OF this, of "hp_turn p" st] assms(2) l obtain g rr where
    g: "pick st guides (hp_turn p) = Some (Inr (Some g, rr))" "strategy_spec st ?ls (hp_turn p) (sp_index g)"
    unfolding assms(3) by auto
  obtain i where i: "pool_pick plan p st = Some (pp_sources plan ! i)" "strategy_spec st ?ls (hp_turn p) i"
    using pool_pick_spec[OF assms(1,2), of st] by blast
  have "i = sp_index g" using strategy_spec_unique[OF _ i(2) g(2)] assms(2) by simp
  thus ?thesis using g(1) i(1) by simp
qed

definition demo_pool :: HPool where
  "demo_pool = (fresh_pool demo_plan)\<lparr>hp_waiting := [(''q'', [''a'']), (''p'', [''c'', ''b''])]\<rparr>"

theorem pool_pick_agrees_with_guides_witness:
  "\<exists>g. map_option (map_sum (\<lambda>e. e) fst) (pick MaxLen [\<lparr>src_name = ''q'', src_len = 1\<rparr>, \<lparr>src_name = ''p'', src_len = 2\<rparr>] (hp_turn demo_pool)) = Some (Inr (Some g))
    \<and> pool_pick demo_plan demo_pool MaxLen = Some (pp_sources demo_plan ! sp_index g)"
  by (rule pool_pick_agrees_with_guides) (simp_all add: demo_pool_def demo_plan_def fresh_pool_def wait_len_def)

text \<open>
  A priority source of the hero map holds its jobs as the home page's \<open>priorityQueue\<close> does: after the same
  adds, landing each name in turn by its number gives the same order.
\<close>

theorem priority_source_is_priorityQueue:
  assumes "n < length adds" "\<And>a. a \<in> set adds \<Longrightarrow> rk (add_name a) = add_priority a"
  shows "fold (land_in rk True) (map add_name (take (Suc n) adds)) [] = map add_name (priorityQueue adds ! n)"
proof -
  have "priorityQueue adds ! n = sort_key add_priority (take (Suc n) adds)" using assms(1) by (simp add: priorityQueue_sorts)
  moreover have "map add_name (sort_key add_priority (take (Suc n) adds)) = sort_key rk (map add_name (take (Suc n) adds))"
    by (rule map_sort_key) (metis assms(2) in_set_takeD)
  ultimately show ?thesis by (simp add: land_all_sorts)
qed

theorem priority_source_is_priorityQueue_witness:
  "fold (land_in (\<lambda>n. if n = ''alert'' then 1 else 10) True) (map add_name (take (Suc 2) PRIORITY_ADDS)) [] = map add_name (priorityQueue PRIORITY_ADDS ! 2)"
  by (rule priority_source_is_priorityQueue) (auto simp: PRIORITY_ADDS_def)

end
