(* ===== verification/Hero_Stores.thy ===== *)
theory Hero_Stores
  imports Agenda
begin

text \<open>
  \<open>docs/src/lib/heromap/stores.ts\<close>: the SQLite and the Redis store as discrete-event simulations, a queue and an
  in-flight tray in the store, and the workers that take jobs from it. Times are whole milliseconds. A \<open>Map\<close> is an
  association list in insertion order (\<open>set\<close> is \<open>AList.update\<close>, which keeps the place of a key). A \<open>Worker\<close> object is
  its index in the crew; a timer's closure is a constructor of \<open>EFire\<close>. Every \<open>throw\<close> is a constructor of \<open>StoreErr\<close>;
  \<open>NoWork\<close> is \<open>work.get(job)!\<close> finding nothing.
\<close>

section \<open>Plans and events\<close>

definition SLOTS :: nat where
  "SLOTS = 5"

record StoreJob =
  sj_id :: string
  sj_at :: int
  sj_work :: int

record SqlitePlan =
  sq_limit :: int
  sq_idle :: "nat list"
  sq_jobs :: "StoreJob list"
  sq_firstClaim :: int
  sq_crashAt :: "int option"
  sq_restartAt :: "int option"
  sq_requeueAfter :: "int option"
  sq_rerunAfter :: "int option"
  sq_rework :: "(string \<times> int) list option"
  sq_takeTravel :: int
  sq_ackTravel :: int

record Consumer =
  co_id :: string
  co_limit :: int
  co_idle :: "nat list"

record RedisCrash =
  rc_consumer :: string
  rc_at :: int
  rc_backAfter :: int
  rc_wakeAfter :: "int option"
  rc_restartAt :: int
  rc_rework :: "(string \<times> int) list"

record RedisPlan =
  rp_consumers :: "Consumer list"
  rp_jobs :: "StoreJob list"
  rp_landAfter :: int
  rp_notifyTravel :: int
  rp_takeTravel :: int
  rp_ackTravel :: int
  rp_crash :: "RedisCrash option"

datatype StoreEvent =
    SLand int string
  | SNotify int string
  | SSpawn int string nat
  | STake int string string nat int
  | SDone int string string nat
  | SAck int string int
  | SExit int string nat
  | SCrash int "string option"
  | SRestart int "string option"
  | SRequeue int "string list"

fun se_at :: "StoreEvent \<Rightarrow> int" where
  "se_at (SLand at job) = at"
| "se_at (SNotify at consumer) = at"
| "se_at (SSpawn at consumer ring) = at"
| "se_at (STake at job consumer ring tray) = at"
| "se_at (SDone at job consumer ring) = at"
| "se_at (SAck at job tray) = at"
| "se_at (SExit at consumer ring) = at"
| "se_at (SCrash at consumer) = at"
| "se_at (SRestart at consumer) = at"
| "se_at (SRequeue at jobs) = at"

datatype StoreErr =
    SpawnTaken nat string int
  | TakeNotWaiting string int
  | TakeSlot int string int
  | TakeNotIdle nat string string int
  | AckSlot int string int
  | ExitNone nat string int
  | RequeueNotInFlight string int
  | TooManyRings int
  | CrashPart nat
  | AckOnWay string int
  | LandDown string int
  | NoConsumer string
  | NoWork string

text \<open>A worker's goroutines, and the store.\<close>

record Rings =
  rg_busy :: "(nat \<times> string) list"
  rg_idle :: "nat list"

record Store =
  st_queue :: "string list"
  st_tray :: "string option list"
  st_rings :: "(string \<times> Rings) list option"

datatype StorePlan = SqliteStore SqlitePlan | RedisStore RedisPlan

fun workers :: "StorePlan \<Rightarrow> Consumer list" where
  "workers (RedisStore plan) = rp_consumers plan"
| "workers (SqliteStore plan) = [\<lparr>co_id = ''sqlite'', co_limit = sq_limit plan, co_idle = sq_idle plan\<rparr>]"

definition fresh_rings :: "Consumer list \<Rightarrow> (string \<times> Rings) list" where
  "fresh_rings ws = fold (\<lambda>w. AList.update (co_id w) \<lparr>rg_busy = [], rg_idle = co_idle w\<rparr>) ws []"

definition fresh_store :: "StorePlan option \<Rightarrow> Store" where
  "fresh_store plan =
    \<lparr>st_queue = [], st_tray = replicate SLOTS None, st_rings = map_option (\<lambda>p. fresh_rings (workers p)) plan\<rparr>"

definition lowestFreeRing :: "nat list \<Rightarrow> nat" where
  "lowestFreeRing taken = lowest_from taken 0"

section \<open>What an event does to a store: \<open>apply\<close>\<close>

text \<open>\<open>s.rings?.get(consumer)\<close>, and the store with those rings changed.\<close>

definition rings_of :: "Store \<Rightarrow> string \<Rightarrow> Rings option" where
  "rings_of s c = (case st_rings s of None \<Rightarrow> None | Some rs \<Rightarrow> map_of rs c)"

definition put_rings :: "string \<Rightarrow> Rings \<Rightarrow> Store \<Rightarrow> Store" where
  "put_rings c r s = s\<lparr>st_rings := map_option (AList.update c r) (st_rings s)\<rparr>"

text \<open>\<open>s.tray[i]\<close>: the slot, or \<open>undefined\<close> (None) out of range.\<close>

definition slot_at :: "string option list \<Rightarrow> int \<Rightarrow> string option option" where
  "slot_at tray i = (if 0 \<le> i \<and> nat i < length tray then Some (tray ! nat i) else None)"

text \<open>\<open>indexOf\<close>, -1 when it is not there.\<close>

definition index_or_neg :: "'a \<Rightarrow> 'a list \<Rightarrow> int" where
  "index_or_neg x xs = (case index_of x xs of Some i \<Rightarrow> int i | None \<Rightarrow> -1)"

definition spawn_ring :: "int \<Rightarrow> string \<Rightarrow> nat \<Rightarrow> Store \<Rightarrow> StoreErr + Store" where
  "spawn_ring at c ring s =
    (case rings_of s c of
       None \<Rightarrow> Inr s
     | Some r \<Rightarrow>
        (if ring \<in> fst ` set (rg_busy r) \<or> ring \<in> set (rg_idle r) then Inl (SpawnTaken ring c at)
         else Inr (put_rings c (r\<lparr>rg_idle := rg_idle r @ [ring]\<rparr>) s)))"

definition take_ring :: "int \<Rightarrow> string \<Rightarrow> string \<Rightarrow> nat \<Rightarrow> Store \<Rightarrow> StoreErr + Store" where
  "take_ring at job c ring s =
    (case rings_of s c of
       None \<Rightarrow> Inr s
     | Some r \<Rightarrow>
        (case index_of ring (rg_idle r) of
           None \<Rightarrow> Inl (TakeNotIdle ring c job at)
         | Some k \<Rightarrow> Inr (put_rings c (r\<lparr>rg_idle := splice_out k (rg_idle r), rg_busy := AList.update ring job (rg_busy r)\<rparr>) s)))"

definition take_record :: "int \<Rightarrow> string \<Rightarrow> int \<Rightarrow> Store \<Rightarrow> StoreErr + Store" where
  "take_record at job tray s =
    (case index_of job (st_queue s) of
       None \<Rightarrow> Inl (TakeNotWaiting job at)
     | Some i \<Rightarrow>
        (if slot_at (st_tray s) tray \<noteq> Some None then Inl (TakeSlot tray job at)
         else Inr (s\<lparr>st_queue := splice_out i (st_queue s), st_tray := (st_tray s)[nat tray := Some job]\<rparr>)))"

definition ack_rings :: "string \<Rightarrow> Rings \<Rightarrow> Rings" where
  "ack_rings job r = r\<lparr>rg_busy := filter (\<lambda>(ring, j). j \<noteq> job) (rg_busy r),
     rg_idle := rg_idle r @ map fst (filter (\<lambda>(ring, j). j = job) (rg_busy r))\<rparr>"

definition exit_ring :: "int \<Rightarrow> string \<Rightarrow> nat \<Rightarrow> Store \<Rightarrow> StoreErr + Store" where
  "exit_ring at c ring s =
    (case rings_of s c of
       None \<Rightarrow> Inr s
     | Some r \<Rightarrow>
        (let k = index_of ring (rg_idle r) in
         if ring \<notin> fst ` set (rg_busy r) \<and> k = None then Inl (ExitNone ring c at)
         else Inr (put_rings c (r\<lparr>rg_busy := filter (\<lambda>(g, j). g \<noteq> ring) (rg_busy r),
           rg_idle := (case k of Some i \<Rightarrow> splice_out i (rg_idle r) | None \<Rightarrow> rg_idle r)\<rparr>) s)))"

text \<open>The loop of \<open>requeue\<close>: each job's slot is emptied.\<close>

fun requeue_tray :: "int \<Rightarrow> string list \<Rightarrow> string option list \<Rightarrow> StoreErr + string option list" where
  "requeue_tray at [] tray = Inr tray"
| "requeue_tray at (job # jobs) tray =
    (case index_of (Some job) tray of
       None \<Rightarrow> Inl (RequeueNotInFlight job at)
     | Some i \<Rightarrow> requeue_tray at jobs (tray[i := None]))"

fun store_apply :: "StoreEvent \<Rightarrow> Store \<Rightarrow> StoreErr + Store" where
  "store_apply (SLand at job) s = Inr (s\<lparr>st_queue := st_queue s @ [job]\<rparr>)"
| "store_apply (SSpawn at consumer ring) s = spawn_ring at consumer ring s"
| "store_apply (STake at job consumer ring tray) s =
    bindE (take_record at job tray s) (take_ring at job consumer ring)"
| "store_apply (SAck at job tray) s =
    (if slot_at (st_tray s) tray \<noteq> Some (Some job) then Inl (AckSlot tray job at)
     else Inr (s\<lparr>st_tray := (st_tray s)[nat tray := None],
       st_rings := map_option (map (\<lambda>(c, r). (c, ack_rings job r))) (st_rings s)\<rparr>))"
| "store_apply (SExit at consumer ring) s = exit_ring at consumer ring s"
| "store_apply (SRequeue at jobs) s =
    bindE (requeue_tray at jobs (st_tray s)) (\<lambda>tray. Inr (s\<lparr>st_tray := tray, st_queue := jobs @ st_queue s\<rparr>))"
| "store_apply (SNotify at consumer) s = Inr s"
| "store_apply (SDone at job consumer ring) s = Inr s"
| "store_apply (SCrash at consumer) s = Inr s"
| "store_apply (SRestart at consumer) s = Inr s"

section \<open>The engine both stores run on\<close>

record Worker =
  wk_id :: string
  wk_limit :: int
  wk_deaths :: nat

text \<open>The timers of \<open>take\<close> (worker, deaths at the take, job, ring), and each simulation's own.\<close>

datatype 'f EFire = EDone nat nat string nat | EAck nat string nat | EOwn 'f

record 'f Engine =
  en_store :: Store
  en_events :: "StoreEvent list"
  en_agenda :: "'f EFire Agenda"
  en_crew :: "Worker list"

definition emit_store :: "StoreEvent \<Rightarrow> ('f, 'm) Engine_scheme \<Rightarrow> StoreErr + ('f, 'm) Engine_scheme" where
  "emit_store e s =
    bindE (store_apply e (en_store s)) (\<lambda>st. Inr (s\<lparr>en_events := en_events s @ [e], en_store := st\<rparr>))"

definition store_timer :: "int \<Rightarrow> 'f EFire \<Rightarrow> ('f, 'm) Engine_scheme \<Rightarrow> ('f, 'm) Engine_scheme" where
  "store_timer at f s = s\<lparr>en_agenda := set_timer at f (en_agenda s)\<rparr>"

definition rings_at :: "('f, 'm) Engine_scheme \<Rightarrow> nat \<Rightarrow> Rings" where
  "rings_at s w = the (rings_of (en_store s) (wk_id (en_crew s ! w)))"

definition credit :: "('f, 'm) Engine_scheme \<Rightarrow> nat \<Rightarrow> int" where
  "credit s w = wk_limit (en_crew s ! w) - int (length (rg_busy (rings_at s w)))"

text \<open>\<open>xs.slice(0, n)\<close>: a negative \<open>n\<close> counts from the end.\<close>

definition slice_to :: "int \<Rightarrow> 'a list \<Rightarrow> 'a list" where
  "slice_to n xs = (if n < 0 then take (length xs - nat (- n)) xs else take (nat n) xs)"

definition store_take ::
  "int \<Rightarrow> int \<Rightarrow> nat \<Rightarrow> string \<Rightarrow> int \<Rightarrow> ('f, 'm) Engine_scheme \<Rightarrow> StoreErr + ('f, 'm) Engine_scheme" where
  "store_take takeTravel now w job work s =
    (let c = wk_id (en_crew s ! w) in
     bindE (if rg_idle (rings_at s w) = []
            then emit_store (SSpawn now c (lowestFreeRing (map fst (rg_busy (rings_at s w))))) s
            else Inr s) (\<lambda>s1.
     let ring = last (rg_idle (rings_at s1 w)); deaths = wk_deaths (en_crew s1 ! w) in
     bindE (emit_store (STake now job c ring (index_or_neg None (st_tray (en_store s1)))) s1) (\<lambda>s2.
     Inr (store_timer (now + takeTravel + work) (EDone w deaths job ring) s2))))"

text \<open>The two closures of \<open>take\<close>: the function returns, and its ack lands.\<close>

definition take_done ::
  "int \<Rightarrow> nat \<Rightarrow> nat \<Rightarrow> string \<Rightarrow> nat \<Rightarrow> int \<Rightarrow> ('f, 'm) Engine_scheme \<Rightarrow> StoreErr + ('f, 'm) Engine_scheme" where
  "take_done ackTravel w deaths job ring now s =
    (if wk_deaths (en_crew s ! w) \<noteq> deaths then Inr s
     else bindE (emit_store (SDone now job (wk_id (en_crew s ! w)) ring) s) (\<lambda>s1.
       Inr (store_timer (now + ackTravel) (EAck w job ring) s1)))"

definition take_ack ::
  "(nat \<Rightarrow> int \<Rightarrow> ('f, 'm) Engine_scheme \<Rightarrow> ('f, 'm) Engine_scheme) \<Rightarrow> nat \<Rightarrow> string \<Rightarrow> nat \<Rightarrow> int
    \<Rightarrow> ('f, 'm) Engine_scheme \<Rightarrow> StoreErr + ('f, 'm) Engine_scheme" where
  "take_ack freed w job ring now s =
    bindE (emit_store (SAck now job (index_or_neg (Some job) (st_tray (en_store s)))) s) (\<lambda>s1.
    let others = int (length (rg_idle (rings_at s1 w))) - 1 in
    bindE (if int (length (st_queue (en_store s1))) \<le> others \<and> 0 < others
           then emit_store (SExit now (wk_id (en_crew s1 ! w)) ring) s1 else Inr s1) (\<lambda>s2.
    Inr (freed w now s2)))"

fun exit_all :: "int \<Rightarrow> string \<Rightarrow> nat list \<Rightarrow> ('f, 'm) Engine_scheme \<Rightarrow> StoreErr + ('f, 'm) Engine_scheme" where
  "exit_all now c [] s = Inr s"
| "exit_all now c (ring # rings) s = bindE (emit_store (SExit now c ring) s) (exit_all now c rings)"

text \<open>The \<open>done\<close> event of a job is in the log.\<close>

fun is_done_of :: "string \<Rightarrow> StoreEvent \<Rightarrow> bool" where
  "is_done_of job (SDone at j consumer ring) = (j = job)"
| "is_done_of job _ = False"

abbreviation was_done :: "StoreEvent list \<Rightarrow> string \<Rightarrow> bool" where
  "was_done evs job \<equiv> list_ex (is_done_of job) evs"

definition die :: "nat \<Rightarrow> ('f, 'm) Engine_scheme \<Rightarrow> ('f, 'm) Engine_scheme" where
  "die w s = s\<lparr>en_crew := (en_crew s)[w := (en_crew s ! w)\<lparr>wk_deaths := Suc (wk_deaths (en_crew s ! w))\<rparr>]\<rparr>"

definition work_of :: "StoreJob list \<Rightarrow> string \<Rightarrow> int option" where
  "work_of jobs jid = map_of (rev (map (\<lambda>j. (sj_id j, sj_work j)) jobs)) jid"

section \<open>SQLite\<close>

record CrashSpec =
  cs_crashAt :: int
  cs_restartAt :: int
  cs_requeueAfter :: int
  cs_rework :: "(string \<times> int) list"

definition crashOf :: "SqlitePlan \<Rightarrow> StoreErr + CrashSpec option" where
  "crashOf p =
    (let given = length (filter id [sq_crashAt p \<noteq> None, sq_restartAt p \<noteq> None, sq_requeueAfter p \<noteq> None, sq_rework p \<noteq> None]) in
     if given = 0 then Inr None
     else case (sq_crashAt p, sq_restartAt p, sq_requeueAfter p, sq_rework p) of
         (Some a, Some b, Some c, Some d) \<Rightarrow> Inr (Some \<lparr>cs_crashAt = a, cs_restartAt = b, cs_requeueAfter = c, cs_rework = d\<rparr>)
       | _ \<Rightarrow> Inl (CrashPart given))"

datatype SqFire = QClaim | QCrash | QRestart | QRequeue | QLand StoreJob | QFirst

record SqliteSim = "SqFire Engine" +
  sl_row :: "(string \<times> nat) list"
  sl_open :: bool
  sl_looking :: bool
  sl_restarted :: bool

definition sq_duration :: "SqlitePlan \<Rightarrow> CrashSpec option \<Rightarrow> SqliteSim \<Rightarrow> string \<Rightarrow> StoreErr + int" where
  "sq_duration plan crash s job =
    (case (if sl_restarted s then Option.bind crash (\<lambda>c. map_of (cs_rework c) job) else None) of
       Some d \<Rightarrow> Inr d
     | None \<Rightarrow> (case work_of (sq_jobs plan) job of Some d \<Rightarrow> Inr d | None \<Rightarrow> Inl (NoWork job)))"

fun sq_takes :: "SqlitePlan \<Rightarrow> CrashSpec option \<Rightarrow> int \<Rightarrow> string list \<Rightarrow> SqliteSim \<Rightarrow> StoreErr + SqliteSim" where
  "sq_takes plan crash now [] s = Inr s"
| "sq_takes plan crash now (job # jobs) s =
    bindE (sq_duration plan crash s job) (\<lambda>d.
    bindE (store_take (sq_takeTravel plan) now 0 job d s) (sq_takes plan crash now jobs))"

definition sq_claim :: "SqlitePlan \<Rightarrow> CrashSpec option \<Rightarrow> int \<Rightarrow> SqliteSim \<Rightarrow> StoreErr + SqliteSim" where
  "sq_claim plan crash now s =
    (if \<not> sl_open s then Inr s
     else sq_takes plan crash now (slice_to (credit s 0) (st_queue (en_store s))) s)"

definition sq_wake :: "int \<Rightarrow> SqliteSim \<Rightarrow> SqliteSim" where
  "sq_wake now s = store_timer now (EOwn QClaim) s"

definition sq_crash :: "int \<Rightarrow> SqliteSim \<Rightarrow> StoreErr + SqliteSim" where
  "sq_crash now s =
    (case List.find (\<lambda>j. case j of None \<Rightarrow> False | Some job \<Rightarrow> job \<noteq> '''' \<and> was_done (en_events s) job) (st_tray (en_store s)) of
       Some (Some job) \<Rightarrow> Inl (AckOnWay job now)
     | _ \<Rightarrow>
        (let s1 = (die 0 s)\<lparr>sl_open := False\<rparr> in
         bindE (emit_store (SCrash now None) s1) (\<lambda>s2.
         let r = rings_at s2 0 in
         exit_all now ''sqlite'' (sort (map fst (rg_busy r) @ rg_idle r)) s2)))"

definition sq_restart :: "CrashSpec \<Rightarrow> int \<Rightarrow> SqliteSim \<Rightarrow> StoreErr + SqliteSim" where
  "sq_restart crash now s =
    bindE (emit_store (SRestart now None) s) (\<lambda>s1.
    bindE (emit_store (SSpawn now ''sqlite'' 0) s1) (\<lambda>s2.
    Inr (store_timer (now + cs_requeueAfter crash) (EOwn QRequeue) s2)))"

definition row_of :: "SqliteSim \<Rightarrow> string \<Rightarrow> nat" where
  "row_of s job = the (map_of (sl_row s) job)"

definition sq_requeue :: "SqlitePlan \<Rightarrow> int \<Rightarrow> SqliteSim \<Rightarrow> StoreErr + SqliteSim" where
  "sq_requeue plan now s =
    (let jobs = sort_key (row_of s) (List.map_filter id (st_tray (en_store s))) in
     bindE (emit_store (SRequeue now jobs) s) (\<lambda>s1.
     Inr (sq_wake (now + (case sq_rerunAfter plan of Some d \<Rightarrow> d | None \<Rightarrow> 0)) (s1\<lparr>sl_open := True, sl_restarted := True\<rparr>))))"

definition sq_land :: "StoreJob \<Rightarrow> int \<Rightarrow> SqliteSim \<Rightarrow> StoreErr + SqliteSim" where
  "sq_land j now s =
    (if \<not> sl_open s then Inl (LandDown (sj_id j) now)
     else bindE (emit_store (SLand now (sj_id j)) (s\<lparr>sl_row := AList.update (sj_id j) (length (sl_row s)) (sl_row s)\<rparr>)) (\<lambda>s1.
       Inr (if sl_looking s1 then sq_wake now s1 else s1)))"

fun sq_fire :: "SqlitePlan \<Rightarrow> CrashSpec option \<Rightarrow> SqFire EFire \<Rightarrow> int \<Rightarrow> SqliteSim \<Rightarrow> StoreErr + SqliteSim" where
  "sq_fire plan crash (EDone w deaths job ring) now s = take_done (sq_ackTravel plan) w deaths job ring now s"
| "sq_fire plan crash (EAck w job ring) now s = take_ack (\<lambda>w. sq_wake) w job ring now s"
| "sq_fire plan crash (EOwn QClaim) now s = sq_claim plan crash now s"
| "sq_fire plan crash (EOwn QCrash) now s = sq_crash now s"
| "sq_fire plan crash (EOwn QRestart) now s = (case crash of Some c \<Rightarrow> sq_restart c now s | None \<Rightarrow> Inr s)"
| "sq_fire plan crash (EOwn QRequeue) now s = sq_requeue plan now s"
| "sq_fire plan crash (EOwn (QLand j)) now s = sq_land j now s"
| "sq_fire plan crash (EOwn QFirst) now s = Inr (sq_wake now (s\<lparr>sl_looking := True\<rparr>))"

definition sq_start :: "SqlitePlan \<Rightarrow> CrashSpec option \<Rightarrow> SqliteSim" where
  "sq_start plan crash =
    (let s0 = \<lparr>en_store = fresh_store (Some (SqliteStore plan)), en_events = [], en_agenda = no_timers,
               en_crew = [\<lparr>wk_id = ''sqlite'', wk_limit = sq_limit plan, wk_deaths = 0\<rparr>],
               sl_row = [], sl_open = True, sl_looking = False, sl_restarted = False\<rparr>;
         s1 = (case crash of None \<Rightarrow> s0
               | Some c \<Rightarrow> store_timer (cs_restartAt c) (EOwn QRestart) (store_timer (cs_crashAt c) (EOwn QCrash) s0));
         s2 = fold (\<lambda>j. store_timer (sj_at j) (EOwn (QLand j))) (sq_jobs plan) s1
     in store_timer (sq_firstClaim plan) (EOwn QFirst) s2)"

abbreviation put_engine :: "'f EFire Agenda \<Rightarrow> ('f, 'm) Engine_scheme \<Rightarrow> ('f, 'm) Engine_scheme" where
  "put_engine ag s \<equiv> s\<lparr>en_agenda := ag\<rparr>"

definition sqlite_run :: "SqlitePlan \<Rightarrow> (StoreErr + SqliteSim) option" where
  "sqlite_run plan =
    (if int SLOTS < sq_limit plan then Some (Inl (TooManyRings (sq_limit plan)))
     else case crashOf plan of
         Inl e \<Rightarrow> Some (Inl e)
       | Inr crash \<Rightarrow> des_run en_agenda put_engine (sq_fire plan crash) (sq_start plan crash))"

definition simulateSqlite :: "SqlitePlan \<Rightarrow> (StoreErr + StoreEvent list) option" where
  "simulateSqlite plan = map_option (\<lambda>r. bindE r (\<lambda>s. Inr (en_events s))) (sqlite_run plan)"

section \<open>Redis\<close>

datatype RdFire = RPull nat | RNotify nat | RCrash | RBack | RRestart | RLand StoreJob

record RedisSim = "RdFire Engine" +
  rs_waiting :: "nat list"
  rs_idle :: "nat list"
  rs_taker :: "(string \<times> nat) list"
  rs_waking :: int

text \<open>The sets \<open>waiting\<close> and \<open>idle\<close> of workers.\<close>

definition rd_duration :: "RedisPlan \<Rightarrow> bool \<Rightarrow> string \<Rightarrow> StoreErr + int" where
  "rd_duration plan rerun job =
    (case (if rerun then Option.bind (rp_crash plan) (\<lambda>c. map_of (rc_rework c) job) else None) of
       Some d \<Rightarrow> Inr d
     | None \<Rightarrow> (case work_of (rp_jobs plan) job of Some d \<Rightarrow> Inr d | None \<Rightarrow> Inl (NoWork job)))"

fun rd_takes :: "RedisPlan \<Rightarrow> int \<Rightarrow> nat \<Rightarrow> string list \<Rightarrow> RedisSim \<Rightarrow> StoreErr + RedisSim" where
  "rd_takes plan now w [] s = Inr s"
| "rd_takes plan now w (job # jobs) s =
    (let rerun = job \<in> fst ` set (rs_taker s);
         s1 = s\<lparr>rs_taker := AList.update job w (rs_taker s)\<rparr> in
     bindE (rd_duration plan rerun job) (\<lambda>d.
     bindE (store_take (rp_takeTravel plan) now w job d s1) (rd_takes plan now w jobs)))"

definition rd_pull :: "RedisPlan \<Rightarrow> int \<Rightarrow> nat \<Rightarrow> RedisSim \<Rightarrow> StoreErr + RedisSim" where
  "rd_pull plan now w s =
    (let jobs = slice_to (credit s w) (st_queue (en_store s));
         s1 = (if int (length jobs) < credit s w
               then s\<lparr>rs_waiting := List.insert w (rs_waiting s), rs_idle := List.insert w (rs_idle s)\<rparr> else s)
     in rd_takes plan now w jobs s1)"

definition rd_freed :: "nat \<Rightarrow> int \<Rightarrow> RedisSim \<Rightarrow> RedisSim" where
  "rd_freed w now s = (if w \<notin> set (rs_waiting s) then store_timer now (EOwn (RPull w)) s else s)"

definition rd_wake_one :: "RedisPlan \<Rightarrow> int \<Rightarrow> nat \<Rightarrow> RedisSim \<Rightarrow> RedisSim" where
  "rd_wake_one plan now w s =
    (if w \<notin> set (rs_idle s) \<or> int (length (st_queue (en_store s))) \<le> rs_waking s then s
     else store_timer (now + rp_notifyTravel plan) (EOwn (RNotify w))
       (s\<lparr>rs_idle := removeAll w (rs_idle s), rs_waking := rs_waking s + 1\<rparr>))"

definition rd_wake :: "RedisPlan \<Rightarrow> int \<Rightarrow> RedisSim \<Rightarrow> RedisSim" where
  "rd_wake plan now s = fold (rd_wake_one plan now) [0..<length (en_crew s)] s"

definition rd_notify :: "RedisPlan \<Rightarrow> nat \<Rightarrow> int \<Rightarrow> RedisSim \<Rightarrow> StoreErr + RedisSim" where
  "rd_notify plan w now s =
    bindE (emit_store (SNotify now (wk_id (en_crew s ! w)))
      (s\<lparr>rs_waking := rs_waking s - 1, rs_waiting := removeAll w (rs_waiting s)\<rparr>)) (rd_pull plan now w)"

definition rd_held :: "nat \<Rightarrow> RedisSim \<Rightarrow> string list" where
  "rd_held w s = map fst (filter (\<lambda>(job, by). by = w \<and> Some job \<in> set (st_tray (en_store s))) (rs_taker s))"

definition rd_crash :: "nat \<Rightarrow> int \<Rightarrow> RedisSim \<Rightarrow> StoreErr + RedisSim" where
  "rd_crash w now s =
    (case List.find (was_done (en_events s)) (rd_held w s) of
       Some (c # job) \<Rightarrow> Inl (AckOnWay (c # job) now)
     | _ \<Rightarrow>
        (let s1 = (die w s)\<lparr>rs_waiting := removeAll w (rs_waiting s), rs_idle := removeAll w (rs_idle s)\<rparr> in
         bindE (emit_store (SCrash now (Some (wk_id (en_crew s ! w)))) s1) (\<lambda>s2.
         let r = rings_at s2 w in
         exit_all now (wk_id (en_crew s ! w)) (sort (map fst (rg_busy r) @ rg_idle r)) s2)))"

definition rd_back :: "RedisPlan \<Rightarrow> RedisCrash \<Rightarrow> nat \<Rightarrow> int \<Rightarrow> RedisSim \<Rightarrow> StoreErr + RedisSim" where
  "rd_back plan crash w now s =
    bindE (emit_store (SRequeue now (rd_held w s)) s) (\<lambda>s1.
    Inr (rd_wake plan (now + (case rc_wakeAfter crash of Some d \<Rightarrow> d | None \<Rightarrow> 0)) s1))"

definition rd_restart :: "RedisPlan \<Rightarrow> nat \<Rightarrow> int \<Rightarrow> RedisSim \<Rightarrow> StoreErr + RedisSim" where
  "rd_restart plan w now s =
    bindE (emit_store (SRestart now (Some (wk_id (en_crew s ! w)))) s) (\<lambda>s1.
    bindE (emit_store (SSpawn now (wk_id (en_crew s ! w)) 0) s1) (rd_pull plan now w))"

definition rd_land :: "RedisPlan \<Rightarrow> StoreJob \<Rightarrow> int \<Rightarrow> RedisSim \<Rightarrow> StoreErr + RedisSim" where
  "rd_land plan j now s = bindE (emit_store (SLand now (sj_id j)) s) (\<lambda>s1. Inr (rd_wake plan now s1))"

fun rd_fire :: "RedisPlan \<Rightarrow> (RedisCrash \<times> nat) option \<Rightarrow> RdFire EFire \<Rightarrow> int \<Rightarrow> RedisSim \<Rightarrow> StoreErr + RedisSim" where
  "rd_fire plan crash (EDone w deaths job ring) now s = take_done (rp_ackTravel plan) w deaths job ring now s"
| "rd_fire plan crash (EAck w job ring) now s = take_ack rd_freed w job ring now s"
| "rd_fire plan crash (EOwn (RPull w)) now s = rd_pull plan now w s"
| "rd_fire plan crash (EOwn (RNotify w)) now s = rd_notify plan w now s"
| "rd_fire plan crash (EOwn RCrash) now s = (case crash of Some (c, w) \<Rightarrow> rd_crash w now s | None \<Rightarrow> Inr s)"
| "rd_fire plan crash (EOwn RBack) now s = (case crash of Some (c, w) \<Rightarrow> rd_back plan c w now s | None \<Rightarrow> Inr s)"
| "rd_fire plan crash (EOwn RRestart) now s = (case crash of Some (c, w) \<Rightarrow> rd_restart plan w now s | None \<Rightarrow> Inr s)"
| "rd_fire plan crash (EOwn (RLand j)) now s = rd_land plan j now s"

text \<open>\<open>crew.find((c) => c.id === crash.consumer)\<close>, with the refusal when there is none.\<close>

definition crash_worker :: "RedisPlan \<Rightarrow> StoreErr + (RedisCrash \<times> nat) option" where
  "crash_worker plan =
    (case rp_crash plan of
       None \<Rightarrow> Inr None
     | Some c \<Rightarrow>
        (case find_index (\<lambda>k. co_id k = rc_consumer c) (rp_consumers plan) of
           None \<Rightarrow> Inl (NoConsumer (rc_consumer c))
         | Some w \<Rightarrow> Inr (Some (c, w))))"

definition rd_start :: "RedisPlan \<Rightarrow> (RedisCrash \<times> nat) option \<Rightarrow> RedisSim" where
  "rd_start plan crash =
    (let s0 = \<lparr>en_store = fresh_store (Some (RedisStore plan)), en_events = [], en_agenda = no_timers,
               en_crew = map (\<lambda>c. \<lparr>wk_id = co_id c, wk_limit = co_limit c, wk_deaths = 0\<rparr>) (rp_consumers plan),
               rs_waiting = [0..<length (rp_consumers plan)], rs_idle = [0..<length (rp_consumers plan)],
               rs_taker = [], rs_waking = 0\<rparr>;
         s1 = (case crash of None \<Rightarrow> s0
               | Some (c, w) \<Rightarrow> store_timer (rc_restartAt c) (EOwn RRestart)
                   (store_timer (rc_at c + rc_backAfter c) (EOwn RBack) (store_timer (rc_at c) (EOwn RCrash) s0)))
     in fold (\<lambda>j. store_timer (sj_at j + rp_landAfter plan) (EOwn (RLand j))) (rp_jobs plan) s1)"

definition redis_run :: "RedisPlan \<Rightarrow> (StoreErr + RedisSim) option" where
  "redis_run plan =
    (let rings = sum_list (map co_limit (rp_consumers plan)) in
     if int SLOTS < rings then Some (Inl (TooManyRings rings))
     else case crash_worker plan of
         Inl e \<Rightarrow> Some (Inl e)
       | Inr crash \<Rightarrow> des_run en_agenda put_engine (rd_fire plan crash) (rd_start plan crash))"

definition simulateRedis :: "RedisPlan \<Rightarrow> (StoreErr + StoreEvent list) option" where
  "simulateRedis plan = map_option (\<lambda>r. bindE r (\<lambda>s. Inr (en_events s))) (redis_run plan)"

section \<open>Replays\<close>

definition ringStates :: "StorePlan \<Rightarrow> StoreEvent list \<Rightarrow> StoreErr + (int \<times> (string \<times> nat list \<times> nat list) list) list" where
  "ringStates plan events =
    bindE (replay_states store_apply events (fresh_store (Some plan))) (\<lambda>ss.
    Inr (map (\<lambda>(e, s). (se_at e, map (\<lambda>(c, r). (c, sort (map fst (rg_busy r)), rg_idle r)) (the (st_rings s)))) (zip events ss)))"

definition storeEnd :: "StorePlan \<Rightarrow> StoreEvent list \<Rightarrow> StoreErr + (string \<times> nat list) list" where
  "storeEnd plan events =
    bindE (replay store_apply events (fresh_store (Some plan))) (\<lambda>s.
    Inr (map (\<lambda>(c, r). (c, rg_idle r)) (the (st_rings s))))"

definition trayStates :: "StoreEvent list \<Rightarrow> StoreErr + (int \<times> string option list) list" where
  "trayStates events =
    bindE (replay_states store_apply events (fresh_store None)) (\<lambda>ss. Inr (map (\<lambda>(e, s). (se_at e, st_tray s)) (zip events ss)))"

definition queueStates :: "StoreEvent list \<Rightarrow> StoreErr + (int \<times> string list) list" where
  "queueStates events =
    bindE (replay_states store_apply events (fresh_store None)) (\<lambda>ss. Inr (map (\<lambda>(e, s). (se_at e, st_queue s)) (zip events ss)))"

end
