(* ===== verification/Hero_Stores_Runs.thy ===== *)
theory Hero_Stores_Runs
  imports Hero_Stores
begin

text \<open>
  What holds for every store (\<open>Hero_Stores\<close>): no event that \<open>apply\<close> accepts loses or doubles a record; both
  simulations return for every plan; and the log, replayed, gives the store the simulation decided on.
\<close>

section \<open>Records\<close>

definition in_flight :: "string option list \<Rightarrow> string multiset" where
  "in_flight tray = mset (List.map_filter id tray)"

lemma in_flight_simps [simp]:
  "in_flight [] = {#}" "in_flight (None # tray) = in_flight tray" "in_flight (Some j # tray) = add_mset j (in_flight tray)"
  "in_flight (tray @ tray') = in_flight tray + in_flight tray'"
  by (simp_all add: in_flight_def List.map_filter_def)

lemma in_flight_replicate [simp]: "in_flight (replicate n None) = {#}"
  by (induction n) simp_all

lemma set_in_flight: "set_mset (in_flight tray) = {j. Some j \<in> set tray}"
proof (induction tray)
  case (Cons j tray)
  thus ?case by (cases j) auto
qed simp

lemma in_flight_fill: "i < length tray \<Longrightarrow> tray ! i = None \<Longrightarrow> in_flight (tray[i := Some j]) = add_mset j (in_flight tray)"
  by (simp add: upd_conv_take_nth_drop) (metis id_take_nth_drop in_flight_simps(2,4) add_mset_add_single union_mset_add_mset_right)

lemma in_flight_free: "i < length tray \<Longrightarrow> tray ! i = Some j \<Longrightarrow> in_flight tray = add_mset j (in_flight (tray[i := None]))"
  by (simp add: upd_conv_take_nth_drop) (metis id_take_nth_drop in_flight_simps(3,4) union_mset_add_mset_right)

lemma in_flight_size: "size (in_flight tray) + length (filter (\<lambda>j. j = None) tray) = length tray"
proof (induction tray)
  case (Cons j tray)
  thus ?case by (cases j) auto
qed simp

lemma slot_atD: "slot_at tray i = Some x \<Longrightarrow> nat i < length tray \<and> tray ! nat i = x"
  by (auto simp: slot_at_def split: if_splits)

lemma requeue_tray_spec:
  "requeue_tray at jobs tray = Inr tray' \<Longrightarrow> in_flight tray = mset jobs + in_flight tray' \<and> length tray' = length tray"
proof (induction jobs arbitrary: tray)
  case (Cons j jobs)
  then obtain i where i: "index_of (Some j) tray = Some i" "requeue_tray at jobs (tray[i := None]) = Inr tray'"
    by (auto split: option.splits)
  have "i < length tray" "tray ! i = Some j" using find_index_SomeD[OF i(1)] by auto
  thus ?case using Cons.IH[OF i(2)] in_flight_free[of i tray j] by simp
qed simp

lemma requeue_tray_ok:
  assumes "mset jobs \<subseteq># in_flight tray"
  shows "\<exists>tray'. requeue_tray at jobs tray = Inr tray'"
  using assms
proof (induction jobs arbitrary: tray)
  case (Cons j jobs)
  have "j \<in># in_flight tray" using Cons.prems by (auto intro: mset_subset_eqD)
  then obtain i where i: "index_of (Some j) tray = Some i" using find_index_ex[of tray "\<lambda>y. y = Some j"] by (auto simp: set_in_flight)
  have "i < length tray" "tray ! i = Some j" using find_index_SomeD[OF i] by auto
  hence "mset jobs \<subseteq># in_flight (tray[i := None])" using Cons.prems in_flight_free[of i tray j] by simp
  thus ?case using Cons.IH i by auto
qed simp

fun landed_job :: "StoreEvent \<Rightarrow> string option" where
  "landed_job (SLand at job) = Some job"
| "landed_job _ = None"

fun acked_job :: "StoreEvent \<Rightarrow> string option" where
  "acked_job (SAck at job tray) = Some job"
| "acked_job _ = None"

definition landings :: "StoreEvent list \<Rightarrow> string list" where
  "landings evs = List.map_filter landed_job evs"

definition acks :: "StoreEvent list \<Rightarrow> string list" where
  "acks evs = List.map_filter acked_job evs"

definition records :: "Store \<Rightarrow> string multiset" where
  "records st = mset (st_queue st) + in_flight (st_tray st)"

lemma log_simps [simp]:
  "landings [] = []" "acks [] = []"
  "landings (evs @ evs') = landings evs @ landings evs'" "acks (evs @ evs') = acks evs @ acks evs'"
  "landings (e # evs) = (case landed_job e of Some j \<Rightarrow> j # landings evs | None \<Rightarrow> landings evs)"
  "acks (e # evs) = (case acked_job e of Some j \<Rightarrow> j # acks evs | None \<Rightarrow> acks evs)"
  by (simp_all add: landings_def acks_def List.map_filter_def split: option.splits)

lemma ring_records [simp]: "records (put_rings c r s) = records s"
  by (simp add: records_def put_rings_def)

lemma ring_only:
  "spawn_ring at c ring s = Inr s' \<Longrightarrow> records s' = records s \<and> st_tray s' = st_tray s"
  "take_ring at job c ring s = Inr s' \<Longrightarrow> records s' = records s \<and> st_tray s' = st_tray s"
  "exit_ring at c ring s = Inr s' \<Longrightarrow> records s' = records s \<and> st_tray s' = st_tray s"
  by (auto simp: spawn_ring_def take_ring_def exit_ring_def Let_def records_def put_rings_def split: option.splits if_splits)

lemma take_record_records:
  assumes "take_record at job tray s = Inr s'"
  shows "records s' = records s \<and> length (st_tray s') = length (st_tray s)"
proof -
  obtain i where i: "index_of job (st_queue s) = Some i" "slot_at (st_tray s) tray = Some None"
    and s': "s' = s\<lparr>st_queue := splice_out i (st_queue s), st_tray := (st_tray s)[nat tray := Some job]\<rparr>"
    using assms by (auto simp: take_record_def split: option.splits if_splits)
  have "job \<in> set (st_queue s)" using find_index_SomeD[OF i(1)] by auto
  thus ?thesis using slot_atD[OF i(2)] by (simp add: s' records_def in_flight_fill splice_out_index_of[OF i(1)])
qed

lemma apply_records:
  assumes "store_apply e s = Inr s'"
  shows "records s' + mset (acks [e]) = records s + mset (landings [e])"
proof (cases e)
  case (SAck at job tray)
  hence "slot_at (st_tray s) tray = Some (Some job)" "st_queue s' = st_queue s" "st_tray s' = (st_tray s)[nat tray := None]"
    using assms by (auto split: if_splits)
  thus ?thesis using slot_atD[of "st_tray s" tray "Some job"] in_flight_free[of "nat tray" "st_tray s" job] by (simp add: SAck records_def)
next
  case (SRequeue at jobs)
  then obtain tray where "requeue_tray at jobs (st_tray s) = Inr tray" "s' = s\<lparr>st_tray := tray, st_queue := jobs @ st_queue s\<rparr>"
    using assms by (auto simp: bindE_Inr)
  thus ?thesis using requeue_tray_spec[of at jobs "st_tray s" tray] by (simp add: SRequeue records_def)
next
  case (STake at job consumer ring tray)
  thus ?thesis using assms ring_only(2) take_record_records by (auto simp: bindE_Inr)
qed (use assms in \<open>auto simp: records_def dest!: ring_only\<close>)

lemma replay_records:
  "replay store_apply evs s = Inr s' \<Longrightarrow> records s' + mset (acks evs) = records s + mset (landings evs)"
proof (induction evs arbitrary: s)
  case (Cons e evs)
  then obtain u where u: "store_apply e s = Inr u" "replay store_apply evs u = Inr s'" by (auto simp: bindE_Inr)
  have "mset (acks (e # evs)) = mset (acks [e]) + mset (acks evs)" "mset (landings (e # evs)) = mset (landings [e]) + mset (landings evs)"
    by (auto split: option.splits)
  thus ?case using apply_records[OF u(1)] Cons.IH[OF u(2)] by (simp only: ) (metis (no_types, lifting) union_assoc union_commute)
qed simp

lemma apply_tray_length: "store_apply e s = Inr s' \<Longrightarrow> length (st_tray s') = length (st_tray s)"
proof (cases e)
  case (SRequeue at jobs)
  moreover assume "store_apply e s = Inr s'"
  ultimately show ?thesis using requeue_tray_spec[of at jobs "st_tray s"] by (auto simp: bindE_Inr)
qed (auto simp: bindE_Inr dest!: ring_only take_record_records split: if_splits)

section \<open>The log is the state\<close>

lemma emit_storeD:
  assumes "emit_store e s = Inr s'"
  obtains st where "store_apply e (en_store s) = Inr st" "s' = s\<lparr>en_events := en_events s @ [e], en_store := st\<rparr>"
  using assms by (auto simp: emit_store_def bindE_Inr)

interpretation store_log: event_sourced store_apply en_store en_events "emit_store :: StoreEvent \<Rightarrow> ('f, 'm) Engine_scheme \<Rightarrow> _"
  by unfold_locales (auto elim!: emit_storeD)

lemma store_timer_simps [simp]:
  "en_store (store_timer at f s) = en_store s" "en_events (store_timer at f s) = en_events s" "en_crew (store_timer at f s) = en_crew s"
  "en_agenda (store_timer at f s) = set_timer at f (en_agenda s)"
  by (simp_all add: store_timer_def)

lemma emit_store_fields:
  assumes "emit_store e s = Inr s'"
  shows "en_agenda s' = en_agenda s" "en_crew s' = en_crew s" "en_events s' = en_events s @ [e]" "store_apply e (en_store s) = Inr (en_store s')"
  using assms by (auto elim: emit_storeD)

section \<open>Both simulations return\<close>

fun queue_gain :: "StoreEvent \<Rightarrow> nat" where
  "queue_gain (SLand at job) = 1"
| "queue_gain (SRequeue at jobs) = length jobs"
| "queue_gain _ = 0"

fun queue_loss :: "StoreEvent \<Rightarrow> nat" where
  "queue_loss (STake at job consumer ring tray) = 1"
| "queue_loss _ = 0"

lemma ring_queue:
  "spawn_ring at c ring s = Inr s' \<Longrightarrow> st_queue s' = st_queue s"
  "take_ring at job c ring s = Inr s' \<Longrightarrow> st_queue s' = st_queue s"
  "exit_ring at c ring s = Inr s' \<Longrightarrow> st_queue s' = st_queue s"
  by (auto simp: spawn_ring_def take_ring_def exit_ring_def Let_def put_rings_def split: option.splits if_splits)

lemma take_record_queue:
  assumes "take_record at job tray s = Inr s'"
  shows "Suc (length (st_queue s')) = length (st_queue s)"
proof -
  obtain i where i: "index_of job (st_queue s) = Some i" "st_queue s' = splice_out i (st_queue s)"
    using assms by (auto simp: take_record_def split: option.splits if_splits)
  moreover have "i < length (st_queue s)" "job \<in> set (st_queue s)" using find_index_SomeD[OF i(1)] by auto
  ultimately show ?thesis by (simp add: splice_out_index_of length_remove1)
qed

lemma apply_queue_length:
  assumes "store_apply e s = Inr s'"
  shows "length (st_queue s') + queue_loss e = length (st_queue s) + queue_gain e"
proof (cases e)
  case (STake at job consumer ring tray)
  thus ?thesis using assms ring_queue(2) take_record_queue by (fastforce simp: bindE_Inr)
qed (use assms in \<open>auto simp: bindE_Inr dest!: ring_queue split: if_splits\<close>)

lemma apply_requeue_bound: "store_apply (SRequeue at jobs) s = Inr s' \<Longrightarrow> length jobs \<le> length (st_tray s)"
  using requeue_tray_spec[of at jobs "st_tray s"] in_flight_size[of "st_tray s"]
  by (auto simp: bindE_Inr)

text \<open>The weight of an engine: what waits in the queue, and the timers. A take trades a job that waits for a timer.\<close>

fun fire_weight :: "(nat \<Rightarrow> 'f \<Rightarrow> nat) \<Rightarrow> nat \<Rightarrow> 'f EFire \<Rightarrow> nat" where
  "fire_weight g L (EDone w d job ring) = 3"
| "fire_weight g L (EAck w job ring) = 2"
| "fire_weight g L (EOwn f) = g L f"

definition slots :: "('f, 'm) Engine_scheme \<Rightarrow> nat" where
  "slots s = length (st_tray (en_store s))"

definition weigh :: "(nat \<Rightarrow> 'f \<Rightarrow> nat) \<Rightarrow> ('f, 'm) Engine_scheme \<Rightarrow> nat" where
  "weigh g s = 4 * length (st_queue (en_store s)) + timer_sum (fire_weight g (slots s)) (en_agenda s)"

lemma weigh_cong: "en_store s' = en_store s \<Longrightarrow> en_agenda s' = en_agenda s \<Longrightarrow> weigh g s' = weigh g s \<and> slots s' = slots s"
  by (simp add: weigh_def slots_def)

lemma weigh_timer [simp]: "weigh g (store_timer at f s) = fire_weight g (slots s) f + weigh g s" "slots (store_timer at f s) = slots s"
  by (simp_all add: weigh_def slots_def)

lemma weigh_emit:
  assumes "emit_store e s = Inr s'"
  shows "weigh g s' + 4 * queue_loss e = weigh g s + 4 * queue_gain e" "slots s' = slots s"
proof -
  note f = emit_store_fields[OF assms]
  show sl: "slots s' = slots s" using apply_tray_length[OF f(4)] by (simp add: slots_def)
  show "weigh g s' + 4 * queue_loss e = weigh g s + 4 * queue_gain e"
    using apply_queue_length[OF f(4)] sl by (simp add: weigh_def f(1) algebra_simps)
qed

lemma weigh_take:
  assumes "store_take tt now w job work s = Inr s'"
  shows "weigh g s' < weigh g s" "slots s' = slots s"
proof -
  let ?c = "wk_id (en_crew s ! w)"
  obtain s1 ring tray s2 d where s1: "(if rg_idle (rings_at s w) = [] then emit_store (SSpawn now ?c (lowestFreeRing (map fst (rg_busy (rings_at s w))))) s else Inr s) = Inr s1"
    and s2: "emit_store (STake now job ?c ring tray) s1 = Inr s2"
    and s': "s' = store_timer (now + tt + work) (EDone w d job ring) s2"
    using assms unfolding store_take_def Let_def bindE_Inr by (metis Inr_inject)
  have "weigh g s1 = weigh g s \<and> slots s1 = slots s"
    using s1 weigh_emit(1)[of _ s s1 g] weigh_emit(2)[of _ s s1] by (fastforce split: if_splits)
  thus "weigh g s' < weigh g s" "slots s' = slots s" using weigh_emit(1)[OF s2, of g] weigh_emit(2)[OF s2] by (simp_all add: s')
qed

lemma weigh_done:
  "take_done at w d job ring now s = Inr s' \<Longrightarrow> weigh g s' \<le> weigh g s + 2"
  using weigh_emit(1)[of "SDone now job (wk_id (en_crew s ! w)) ring" s _ g]
  by (fastforce simp: take_done_def bindE_Inr split: if_splits)

lemma weigh_ack:
  assumes "take_ack freed w job ring now s = Inr s'" "\<And>u. weigh g (freed w now u) \<le> weigh g u + 1"
  shows "weigh g s' \<le> weigh g s + 1"
proof -
  obtain s1 s2 where s1: "emit_store (SAck now job (index_or_neg (Some job) (st_tray (en_store s)))) s = Inr s1"
    and s2: "emit_store (SExit now (wk_id (en_crew s1 ! w)) ring) s1 = Inr s2 \<or> s2 = s1" and s': "s' = freed w now s2"
    using assms(1) unfolding take_ack_def Let_def bindE_Inr by (metis Inr_inject)
  have "weigh g s1 = weigh g s" using weigh_emit(1)[OF s1, of g] by simp
  moreover have "weigh g s2 = weigh g s1" using s2 weigh_emit(1)[of "SExit now (wk_id (en_crew s1 ! w)) ring" s1 s2 g] by auto
  ultimately show ?thesis using assms(2)[of s2] s' by simp
qed

lemma weigh_exit_all: "exit_all now c rings s = Inr s' \<Longrightarrow> weigh g s' = weigh g s \<and> slots s' = slots s"
proof (induction rings arbitrary: s)
  case (Cons r rings)
  then obtain s1 where s1: "emit_store (SExit now c r) s = Inr s1" "exit_all now c rings s1 = Inr s'" by (auto simp: bindE_Inr)
  show ?case using Cons.IH[OF s1(2)] weigh_emit(1)[OF s1(1), of g] weigh_emit(2)[OF s1(1)] by simp
qed simp

lemma weigh_die [simp]: "weigh g (die w s) = weigh g s"
  by (simp add: die_def weigh_def slots_def)

text \<open>SQLite: the weights of its timers.\<close>

fun sq_fire_weight :: "nat \<Rightarrow> SqFire \<Rightarrow> nat" where
  "sq_fire_weight L QClaim = 1"
| "sq_fire_weight L QCrash = 1"
| "sq_fire_weight L QRequeue = 4 * L + 2"
| "sq_fire_weight L QRestart = 4 * L + 3"
| "sq_fire_weight L (QLand j) = 6"
| "sq_fire_weight L QFirst = 2"

abbreviation sq_weigh :: "SqliteSim \<Rightarrow> nat" where
  "sq_weigh \<equiv> weigh sq_fire_weight"

lemma sq_wake_weigh: "sq_weigh (sq_wake now s) = sq_weigh s + 1"
  by (simp add: sq_wake_def)

lemma sq_takes_weigh: "sq_takes plan crash now jobs s = Inr s' \<Longrightarrow> sq_weigh s' \<le> sq_weigh s"
proof (induction jobs arbitrary: s)
  case (Cons job jobs)
  then obtain d s1 where s1: "store_take (sq_takeTravel plan) now 0 job d s = Inr s1" "sq_takes plan crash now jobs s1 = Inr s'"
    by (auto simp: bindE_Inr)
  show ?case using Cons.IH[OF s1(2)] weigh_take(1)[OF s1(1), of sq_fire_weight] by simp
qed simp

lemma sq_fire_lowers: 
  assumes "sq_fire plan crash f now s = Inr s'"
  shows "sq_weigh s' < sq_weigh s + fire_weight sq_fire_weight (slots s) f"
  using assms
proof (cases "(plan, crash, f, now, s)" rule: sq_fire.cases)
  case (1 _ _ w d job ring)
  thus ?thesis using assms weigh_done[of "sq_ackTravel plan" w d job ring now s s' sq_fire_weight] by simp
next
  case (2 _ _ w job ring)
  thus ?thesis using assms weigh_ack[of "\<lambda>w. sq_wake" w job ring now s s' sq_fire_weight] sq_wake_weigh by simp
next
  case 3
  thus ?thesis using assms sq_takes_weigh[of plan crash now "slice_to (credit s 0) (st_queue (en_store s))" s s'] by (auto simp: sq_claim_def split: if_splits)
next
  case 4
  then obtain s1 s2 rings where s2: "emit_store (SCrash now None) s1 = Inr s2" "exit_all now ''sqlite'' rings s2 = Inr s'" "s1 = (die 0 s)\<lparr>sl_open := False\<rparr>"
    using assms by (auto simp: sq_crash_def Let_def bindE_Inr split: option.splits)
  have "sq_weigh s1 = sq_weigh s" using weigh_cong[of s1 "die 0 s" sq_fire_weight] by (simp add: s2(3))
  thus ?thesis using 4 weigh_emit(1)[OF s2(1), of sq_fire_weight] weigh_exit_all[OF s2(2), of sq_fire_weight] by simp
next
  case 5
  show ?thesis
  proof (cases crash)
    case (Some c)
    then obtain s1 s2 where s2: "emit_store (SRestart now None) s = Inr s1" "emit_store (SSpawn now ''sqlite'' 0) s1 = Inr s2"
      "s' = store_timer (now + cs_requeueAfter c) (EOwn QRequeue) s2"
      using assms 5 by (auto simp: sq_restart_def bindE_Inr)
    show ?thesis using 5 weigh_emit(1)[OF s2(1), of sq_fire_weight] weigh_emit(1)[OF s2(2), of sq_fire_weight] weigh_emit(2)[OF s2(1)] weigh_emit(2)[OF s2(2)]
      by (simp add: s2(3))
  qed (use assms 5 in simp)
next
  case 6
  then obtain jobs s1 at where s1: "emit_store (SRequeue now jobs) s = Inr s1" "s' = sq_wake at (s1\<lparr>sl_open := True, sl_restarted := True\<rparr>)"
    using assms by (auto simp: sq_requeue_def Let_def bindE_Inr)
  have "length jobs \<le> slots s" using apply_requeue_bound[of now jobs "en_store s" "en_store s1"] emit_store_fields(4)[OF s1(1)] by (simp add: slots_def)
  moreover have "sq_weigh s' = sq_weigh s1 + 1" using weigh_cong[of "s1\<lparr>sl_open := True, sl_restarted := True\<rparr>" s1 sq_fire_weight] by (simp add: s1(2) sq_wake_weigh)
  ultimately show ?thesis using 6 weigh_emit(1)[OF s1(1), of sq_fire_weight] by simp
next
  case (7 _ _ j)
  then obtain s0 s1 where s1: "emit_store (SLand now (sj_id j)) s0 = Inr s1" "s' = (if sl_looking s1 then sq_wake now s1 else s1)"
    "en_store s0 = en_store s" "en_agenda s0 = en_agenda s"
    using assms by (auto simp: sq_land_def bindE_Inr split: if_splits)
  have "sq_weigh s1 = sq_weigh s + 4" using weigh_emit(1)[OF s1(1), of sq_fire_weight] weigh_cong[OF s1(3,4), of sq_fire_weight] by simp
  thus ?thesis using 7 s1(2) by (auto simp: sq_wake_weigh)
next
  case 8
  thus ?thesis using assms weigh_cong[of "s\<lparr>sl_looking := True\<rparr>" s sq_fire_weight] by (auto simp: sq_wake_weigh)
qed

interpretation sqlite: des en_agenda put_engine "sq_fire plan crash" sq_weigh for plan crash
proof unfold_locales
  fix s s' :: SqliteSim and t ts
  assume t: "timers (en_agenda s) = t # ts" and f: "sq_fire plan crash (t_fire t) (t_at t) (put_engine ((en_agenda s)\<lparr>timers := ts\<rparr>) s) = Inr s'"
  show "sq_weigh s' < sq_weigh s" using sq_fire_lowers[OF f] timer_sum_Cons[OF t, of "fire_weight sq_fire_weight (slots s)"]
    by (simp add: weigh_def slots_def)
qed

text \<open>Redis: the same, with a land or a sweep paying for the wakes it may send, one per consumer.\<close>

fun rd_fire_weight :: "nat \<Rightarrow> nat \<Rightarrow> RdFire \<Rightarrow> nat" where
  "rd_fire_weight n L (RPull w) = 1"
| "rd_fire_weight n L (RNotify w) = 1"
| "rd_fire_weight n L RCrash = 1"
| "rd_fire_weight n L RBack = 4 * L + n + 1"
| "rd_fire_weight n L RRestart = 1"
| "rd_fire_weight n L (RLand j) = 5 + n"

definition rd_weigh :: "RedisSim \<Rightarrow> nat" where
  "rd_weigh s = weigh (rd_fire_weight (length (en_crew s))) s"

lemma store_take_crew: "store_take tt now w job work s = Inr s' \<Longrightarrow> en_crew s' = en_crew s"
  unfolding store_take_def Let_def bindE_Inr by (auto split: if_splits dest!: emit_store_fields(2))

lemma rd_takes_weigh:
  "rd_takes plan now w jobs s = Inr s' \<Longrightarrow> weigh g s' \<le> weigh g s \<and> en_crew s' = en_crew s"
proof (induction jobs arbitrary: s)
  case (Cons job jobs)
  then obtain d s0 s1 where s1: "store_take (rp_takeTravel plan) now w job d s0 = Inr s1" "rd_takes plan now w jobs s1 = Inr s'"
    "s0 = s\<lparr>rs_taker := AList.update job w (rs_taker s)\<rparr>"
    by (auto simp: bindE_Inr Let_def)
  have "weigh g s0 = weigh g s" using weigh_cong[of s0 s g] by (simp add: s1(3))
  thus ?case using Cons.IH[OF s1(2)] weigh_take(1)[OF s1(1), of g] store_take_crew[OF s1(1)] s1(3) by simp
qed simp

lemma rd_pull_weigh:
  assumes "rd_pull plan now w s = Inr s'"
  shows "weigh g s' \<le> weigh g s \<and> en_crew s' = en_crew s"
proof -
  obtain jobs s1 where s1: "rd_takes plan now w jobs s1 = Inr s'" "en_store s1 = en_store s" "en_agenda s1 = en_agenda s" "en_crew s1 = en_crew s"
    using assms by (auto simp: rd_pull_def Let_def split: if_splits)
  show ?thesis using rd_takes_weigh[OF s1(1), of g] weigh_cong[OF s1(2,3), of g] s1(4) by simp
qed

lemma rd_freed_weigh: "weigh (rd_fire_weight n) (rd_freed w now s) \<le> weigh (rd_fire_weight n) s + 1"
  by (simp add: rd_freed_def)

lemma rd_wake_weigh:
  "weigh (rd_fire_weight n) (rd_wake plan now s) \<le> weigh (rd_fire_weight n) s + length (en_crew s)" "en_crew (rd_wake plan now s) = en_crew s"
proof -
  have one: "weigh (rd_fire_weight n) (rd_wake_one plan now w s) \<le> weigh (rd_fire_weight n) s + 1 \<and> en_crew (rd_wake_one plan now w s) = en_crew s" for w s
    using weigh_cong[of "s\<lparr>rs_idle := removeAll w (rs_idle s), rs_waking := rs_waking s + 1\<rparr>" s "rd_fire_weight n"]
    by (simp add: rd_wake_one_def)
  have "weigh (rd_fire_weight n) (fold (rd_wake_one plan now) ws s) \<le> weigh (rd_fire_weight n) s + length ws \<and> en_crew (fold (rd_wake_one plan now) ws s) = en_crew s" for ws s
  proof (induction ws arbitrary: s)
    case (Cons w ws)
    show ?case using Cons[of "rd_wake_one plan now w s"] one[of w s] by simp
  qed simp
  from this[of "[0..<length (en_crew s)]" s] show "weigh (rd_fire_weight n) (rd_wake plan now s) \<le> weigh (rd_fire_weight n) s + length (en_crew s)"
    "en_crew (rd_wake plan now s) = en_crew s" by (simp_all add: rd_wake_def)
qed

lemma take_crew:
  "take_done at w d job ring now s = Inr s' \<Longrightarrow> en_crew s' = en_crew s"
  "take_ack freed w job ring now s = Inr s' \<Longrightarrow> (\<And>u. en_crew (freed w now u) = en_crew u) \<Longrightarrow> en_crew s' = en_crew s"
  "exit_all now c rings s = Inr s' \<Longrightarrow> en_crew s' = en_crew s"
proof -
  show "take_done at w d job ring now s = Inr s' \<Longrightarrow> en_crew s' = en_crew s"
    by (auto simp: take_done_def bindE_Inr split: if_splits dest: emit_store_fields(2))
  show "take_ack freed w job ring now s = Inr s' \<Longrightarrow> (\<And>u. en_crew (freed w now u) = en_crew u) \<Longrightarrow> en_crew s' = en_crew s"
    by (auto simp: take_ack_def bindE_Inr Let_def split: if_splits dest!: emit_store_fields(2))
  show "exit_all now c rings s = Inr s' \<Longrightarrow> en_crew s' = en_crew s"
    by (induction rings arbitrary: s) (auto simp: bindE_Inr dest!: emit_store_fields(2))
qed

lemma rd_fire_lowers:
  assumes "rd_fire plan crash f now s = Inr s'"
  defines "g \<equiv> rd_fire_weight (length (en_crew s))"
  shows "weigh g s' < weigh g s + fire_weight g (slots s) f \<and> length (en_crew s') = length (en_crew s)"
  using assms(1)
proof (cases "(plan, crash, f, now, s)" rule: rd_fire.cases)
  case (1 _ _ w d job ring)
  thus ?thesis using assms(1) weigh_done[of "rp_ackTravel plan" w d job ring now s s' g] take_crew(1)[of "rp_ackTravel plan" w d job ring now s s'] by simp
next
  case (2 _ _ w job ring)
  have "weigh g s' \<le> weigh g s + 1" using assms(1) 2 weigh_ack[of rd_freed w job ring now s s' g] rd_freed_weigh unfolding g_def by simp
  moreover have "en_crew s' = en_crew s" using assms(1) 2 take_crew(2)[of rd_freed w job ring now s s'] by (simp add: rd_freed_def)
  ultimately show ?thesis using 2 by simp
next
  case (3 _ _ w)
  thus ?thesis using assms(1) rd_pull_weigh[of plan now w s s' g] by (simp add: g_def)
next
  case (4 _ _ w)
  then obtain s0 s1 where s1: "emit_store (SNotify now (wk_id (en_crew s ! w))) s0 = Inr s1" "rd_pull plan now w s1 = Inr s'"
    "en_store s0 = en_store s" "en_agenda s0 = en_agenda s" "en_crew s0 = en_crew s"
    using assms(1) by (auto simp: rd_notify_def bindE_Inr)
  show ?thesis using 4 rd_pull_weigh[OF s1(2), of g] weigh_emit(1)[OF s1(1), of g] weigh_cong[OF s1(3,4), of g] emit_store_fields(2)[OF s1(1)] s1(5)
    by (simp add: g_def)
next
  case 5
  show ?thesis
  proof (cases crash)
    case (Some cw)
    obtain c w where cw: "cw = (c, w)" by (cases cw)
    hence "rd_crash w now s = Inr s'" using assms(1) 5 Some by auto
    then obtain s1 s2 rings where s2: "emit_store (SCrash now (Some (wk_id (en_crew s ! w)))) s1 = Inr s2" "exit_all now (wk_id (en_crew s ! w)) rings s2 = Inr s'"
      "s1 = (die w s)\<lparr>rs_waiting := removeAll w (rs_waiting s), rs_idle := removeAll w (rs_idle s)\<rparr>"
      by (auto simp: rd_crash_def Let_def bindE_Inr split: option.splits list.splits)
    have "weigh g s1 = weigh g s" using weigh_cong[of s1 "die w s" g] by (simp add: s2(3))
    moreover have "length (en_crew s1) = length (en_crew s)" by (simp add: s2(3) die_def)
    ultimately show ?thesis using 5 weigh_emit(1)[OF s2(1), of g] weigh_exit_all[OF s2(2), of g] take_crew(3)[OF s2(2)] emit_store_fields(2)[OF s2(1)]
      by (simp add: g_def)
  qed (use assms(1) 5 in \<open>simp add: g_def\<close>)
next
  case 6
  show ?thesis
  proof (cases crash)
    case (Some cw)
    with 6 assms(1) obtain jobs at s1 where s1: "emit_store (SRequeue now jobs) s = Inr s1" "s' = rd_wake plan at s1"
      using assms(1) 6 by (cases cw) (auto simp: rd_back_def bindE_Inr)
    have "length jobs \<le> slots s" using apply_requeue_bound[of now jobs "en_store s" "en_store s1"] emit_store_fields(4)[OF s1(1)] by (simp add: slots_def)
    thus ?thesis using 6 weigh_emit(1)[OF s1(1), of g] emit_store_fields(2)[OF s1(1)] rd_wake_weigh(1)[of "length (en_crew s)" plan at s1] rd_wake_weigh(2)[of plan at s1]
      by (simp add: g_def s1(2))
  qed (use assms(1) 6 in \<open>simp add: g_def\<close>)
next
  case 7
  show ?thesis
  proof (cases crash)
    case (Some cw)
    then obtain w s1 s2 where s2: "emit_store (SRestart now (Some (wk_id (en_crew s ! w)))) s = Inr s1" "emit_store (SSpawn now (wk_id (en_crew s ! w)) 0) s1 = Inr s2"
      "rd_pull plan now w s2 = Inr s'"
      using assms(1) 7 by (cases cw) (auto simp: rd_restart_def bindE_Inr)
    show ?thesis using 7 weigh_emit(1)[OF s2(1), of g] weigh_emit(1)[OF s2(2), of g] rd_pull_weigh[OF s2(3), of g]
        emit_store_fields(2)[OF s2(1)] emit_store_fields(2)[OF s2(2)] by (simp add: g_def)
  qed (use assms(1) 7 in \<open>simp add: g_def\<close>)
next
  case (8 _ _ j)
  then obtain s1 where s1: "emit_store (SLand now (sj_id j)) s = Inr s1" "s' = rd_wake plan now s1"
    using assms(1) by (auto simp: rd_land_def bindE_Inr)
  show ?thesis using 8 weigh_emit(1)[OF s1(1), of g] emit_store_fields(2)[OF s1(1)] rd_wake_weigh(1)[of "length (en_crew s)" plan now s1] rd_wake_weigh(2)[of plan now s1]
    by (simp add: g_def s1(2))
qed

interpretation redis: des en_agenda put_engine "rd_fire plan crash" rd_weigh for plan crash
proof unfold_locales
  fix s s' :: RedisSim and t ts
  assume t: "timers (en_agenda s) = t # ts" and f: "rd_fire plan crash (t_fire t) (t_at t) (put_engine ((en_agenda s)\<lparr>timers := ts\<rparr>) s) = Inr s'"
  show "rd_weigh s' < rd_weigh s"
    using rd_fire_lowers[OF f] timer_sum_Cons[OF t, of "fire_weight (rd_fire_weight (length (en_crew s))) (slots s)"]
    by (simp add: rd_weigh_def weigh_def slots_def)
qed

section \<open>A take that succeeds\<close>

lemma rings_put [simp]: "rings_of s c = Some r0 \<Longrightarrow> rings_of (put_rings c r s) d = (if d = c then Some r else rings_of s d)"
  by (auto simp: rings_of_def put_rings_def update_conv' split: option.splits)

lemma put_put [simp]: "put_rings c r (put_rings c r' s) = put_rings c r s"
proof (cases s)
  case (fields q t rs)
  thus ?thesis by (cases rs) (simp_all add: put_rings_def)
qed

lemma rings_frame [simp]:
  "st_queue (put_rings c r s) = st_queue s" "st_tray (put_rings c r s) = st_tray s"
  "rings_of (s\<lparr>st_queue := q\<rparr>) c = rings_of s c" "rings_of (s\<lparr>st_tray := t\<rparr>) c = rings_of s c"
  "put_rings c r (s\<lparr>st_queue := q\<rparr>) = (put_rings c r s)\<lparr>st_queue := q\<rparr>" "put_rings c r (s\<lparr>st_tray := t\<rparr>) = (put_rings c r s)\<lparr>st_tray := t\<rparr>"
  by (simp_all add: put_rings_def rings_of_def)

lemma update_new: "k \<notin> fst ` set al \<Longrightarrow> AList.update k v al = al @ [(k, v)]"
  by (induction al) auto

lemma remove1_last: "distinct xs \<Longrightarrow> xs \<noteq> [] \<Longrightarrow> remove1 (last xs) xs = butlast xs"
  by (induction xs) (auto simp: distinct_butlast)

lemma apply_spawn_ok:
  assumes "rings_of s c = Some r" "ring \<notin> fst ` set (rg_busy r)" "ring \<notin> set (rg_idle r)"
  shows "store_apply (SSpawn at c ring) s = Inr (put_rings c (r\<lparr>rg_idle := rg_idle r @ [ring]\<rparr>) s)"
  using assms by (simp add: spawn_ring_def)

lemma index_ok: "x \<in> set xs \<Longrightarrow> \<exists>k. index_or_neg x xs = int k \<and> k < length xs \<and> xs ! k = x"
  using find_index_ex[of xs "\<lambda>y. y = x"] find_index_SomeD[of "\<lambda>y. y = x" xs] by (auto simp: index_or_neg_def)

lemma apply_take_ok:
  assumes r: "rings_of s c = Some r" "rg_idle r \<noteq> []" "distinct (map fst (rg_busy r) @ rg_idle r)"
    and q: "st_queue s = job # q" and k: "k < length (st_tray s)" "st_tray s ! k = None"
  shows "store_apply (STake at job c (last (rg_idle r)) (int k)) s =
    Inr (put_rings c (r\<lparr>rg_idle := butlast (rg_idle r), rg_busy := rg_busy r @ [(last (rg_idle r), job)]\<rparr>) (s\<lparr>st_queue := q, st_tray := (st_tray s)[k := Some job]\<rparr>))"
proof -
  have "last (rg_idle r) \<in> set (rg_idle r)" using r(2) by simp
  then obtain i where i: "index_of (last (rg_idle r)) (rg_idle r) = Some i" using find_index_ex[of "rg_idle r" "\<lambda>y. y = last (rg_idle r)"] by auto
  have sp: "splice_out i (rg_idle r) = butlast (rg_idle r)" using splice_out_index_of[OF i] r(2,3) by (simp add: remove1_last)
  have up: "AList.update (last (rg_idle r)) job (rg_busy r) = rg_busy r @ [(last (rg_idle r), job)]"
    using r(3) \<open>last (rg_idle r) \<in> set (rg_idle r)\<close> by (intro update_new) auto
  have "take_record at job (int k) s = Inr (s\<lparr>st_queue := q, st_tray := (st_tray s)[k := Some job]\<rparr>)"
    using q k by (simp add: take_record_def slot_at_def splice_out_def)
  thus ?thesis using r(1) i by (simp add: take_ring_def sp up)
qed

lemma store_take_ok:
  assumes c: "c = wk_id (en_crew s ! w)" "rings_of (en_store s) c = Some r" "distinct (map fst (rg_busy r) @ rg_idle r)"
    and q: "st_queue (en_store s) = job # q" "None \<in> set (st_tray (en_store s))"
  obtains ring idle k evs where
    "store_take tt now w job work s = Inr (s\<lparr>en_store := put_rings c (r\<lparr>rg_idle := idle, rg_busy := rg_busy r @ [(ring, job)]\<rparr>)
        ((en_store s)\<lparr>st_queue := q, st_tray := (st_tray (en_store s))[k := Some job]\<rparr>),
      en_events := en_events s @ evs,
      en_agenda := set_timer (now + tt + work) (EDone w (wk_deaths (en_crew s ! w)) job ring) (en_agenda s)\<rparr>)"
    "k < length (st_tray (en_store s))" "st_tray (en_store s) ! k = None" "distinct (map fst (rg_busy r) @ ring # idle)"
    "landings evs = []" "acks evs = []" "\<And>j. \<not> was_done evs j"
proof -
  let ?st = "en_store s"
  obtain k where k: "index_or_neg None (st_tray ?st) = int k" "k < length (st_tray ?st)" "st_tray ?st ! k = None" using index_ok[OF q(2)] by blast
  have ra: "rings_at s w = r" using c by (simp add: rings_at_def)
  show thesis
  proof (cases "rg_idle r = []")
    case False
    have e: "store_apply (STake now job c (last (rg_idle r)) (int k)) ?st = Inr (put_rings c (r\<lparr>rg_idle := butlast (rg_idle r), rg_busy := rg_busy r @ [(last (rg_idle r), job)]\<rparr>)
      (?st\<lparr>st_queue := q, st_tray := (st_tray ?st)[k := Some job]\<rparr>))" by (rule apply_take_ok[OF c(2) False c(3) q(1) k(2,3)])
    obtain i l where "rg_idle r = i @ [l]" using False by (metis append_butlast_last_id)
    hence d: "distinct (map fst (rg_busy r) @ last (rg_idle r) # butlast (rg_idle r))" using c(3) by auto
    show thesis
      by (rule that[where ring = "last (rg_idle r)" and idle = "butlast (rg_idle r)" and k = k and evs = "[STake now job c (last (rg_idle r)) (int k)]"])
        (use False e d k ra c(1) in \<open>simp_all add: store_take_def emit_store_def store_timer_def Let_def\<close>)
  next
    case True
    let ?ring = "lowestFreeRing (map fst (rg_busy r))"
    let ?r1 = "r\<lparr>rg_idle := [?ring]\<rparr>"
    have fr: "?ring \<notin> fst ` set (rg_busy r)" using lowest_from_free[of "map fst (rg_busy r)" 0] by (auto simp: lowestFreeRing_def)
    hence sp: "store_apply (SSpawn now c ?ring) ?st = Inr (put_rings c ?r1 ?st)"
      using apply_spawn_ok[OF c(2), of ?ring now] True by simp
    have r1: "rings_of (put_rings c ?r1 ?st) c = Some ?r1" using c(2) by simp
    have d: "distinct (map fst (rg_busy ?r1) @ rg_idle ?r1)" using c(3) fr True by simp
    have "store_apply (STake now job c (last (rg_idle ?r1)) (int k)) (put_rings c ?r1 ?st) =
      Inr (put_rings c (?r1\<lparr>rg_idle := butlast (rg_idle ?r1), rg_busy := rg_busy ?r1 @ [(last (rg_idle ?r1), job)]\<rparr>)
        ((put_rings c ?r1 ?st)\<lparr>st_queue := q, st_tray := (st_tray (put_rings c ?r1 ?st))[k := Some job]\<rparr>))"
      by (rule apply_take_ok[OF r1 _ d]) (use q(1) k in simp_all)
    hence e: "store_apply (STake now job c ?ring (int k)) (put_rings c ?r1 ?st) = Inr (put_rings c (r\<lparr>rg_idle := [], rg_busy := rg_busy r @ [(?ring, job)]\<rparr>)
        (?st\<lparr>st_queue := q, st_tray := (st_tray ?st)[k := Some job]\<rparr>))" by simp
    have ra1: "rings_at (s\<lparr>en_events := evs, en_store := put_rings c ?r1 ?st\<rparr>) w = ?r1" for evs
      using c(2) by (simp add: rings_at_def c(1)[symmetric])
    show thesis
      by (rule that[where ring = ?ring and idle = "[]" and k = k and evs = "[SSpawn now c ?ring, STake now job c ?ring (int k)]"])
        (use True e sp fr c(3) k ra ra1 c(1) in \<open>simp_all add: store_take_def emit_store_def store_timer_def Let_def\<close>)
  qed
qed

end
