(* ===== verification/Hero_Sqlite.thy ===== *)
theory Hero_Sqlite
  imports Hero_Stores_Runs "HOL-Library.Sublist"
begin

text \<open>
  The SQLite simulation (\<open>simulateSqlite\<close>): on a plan that is well formed it is refused only for the reasons its
  comment gives, and a run that is not refused acknowledges every job, crash or not, with the queue in write order at
  every moment. The invariant accounts for every job in one place and ties each busy ring to the timer that will free it.
\<close>

section \<open>The invariant\<close>

fun sq_lands :: "SqFire EFire \<Rightarrow> string option" where
  "sq_lands (EOwn (QLand j)) = Some (sj_id j)"
| "sq_lands _ = None"

fun live_of :: "nat \<Rightarrow> 'f EFire \<Rightarrow> (nat \<times> string) option" where
  "live_of d (EDone w d' job ring) = (if d' = d then Some (ring, job) else None)"
| "live_of d _ = None"

fun ack_of :: "'f EFire \<Rightarrow> (nat \<times> string) option" where
  "ack_of (EAck w job ring) = Some (ring, job)"
| "ack_of _ = None"

fun own_program :: "nat \<Rightarrow> 'f EFire \<Rightarrow> bool" where
  "own_program d (EDone w d' job ring) \<longleftrightarrow> w = 0 \<and> d' \<le> d"
| "own_program d (EAck w job ring) \<longleftrightarrow> w = 0"
| "own_program d (EOwn f) \<longleftrightarrow> True"

abbreviation sq_ids :: "SqlitePlan \<Rightarrow> string list" where
  "sq_ids plan \<equiv> map sj_id (sq_jobs plan)"

text \<open>The shape: one program with its rings. The books: every job is waiting to land, in the queue, in flight or acked.\<close>

definition sq_shape :: "SqlitePlan \<Rightarrow> SqliteSim \<Rightarrow> string list \<Rightarrow> string option list \<Rightarrow> (nat \<times> string) list \<Rightarrow> nat list \<Rightarrow> nat \<Rightarrow> bool" where
  "sq_shape plan s q tr b i d \<longleftrightarrow>
     en_store s = \<lparr>st_queue = q, st_tray = tr, st_rings = Some [(''sqlite'', \<lparr>rg_busy = b, rg_idle = i\<rparr>)]\<rparr>
   \<and> en_crew s = [\<lparr>wk_id = ''sqlite'', wk_limit = sq_limit plan, wk_deaths = d\<rparr>]
   \<and> distinct (map fst b @ i) \<and> length tr = SLOTS"

definition sq_books :: "SqlitePlan \<Rightarrow> SqFire EFire multiset \<Rightarrow> SqliteSim \<Rightarrow> string list \<Rightarrow> string option list \<Rightarrow> (nat \<times> string) list \<Rightarrow> nat \<Rightarrow> bool" where
  "sq_books plan M s q tr b d \<longleftrightarrow>
     mset q + in_flight tr + mset (acks (en_events s)) + fire_jobs sq_lands M = mset (sq_ids plan)
   \<and> mset (map snd b) = (if sl_open s then in_flight tr else {#})
   \<and> int (length b) \<le> sq_limit plan
   \<and> fire_jobs (live_of d) M + fire_jobs ack_of M = mset b
   \<and> (\<forall>(ring, job)\<in>#fire_jobs ack_of M. was_done (en_events s) job)
   \<and> (\<forall>f\<in>#M. own_program d f)"

text \<open>Where the run is in the crash: before it, down, up again with the queue still closed, or past it.\<close>

definition sq_phase :: "CrashSpec option \<Rightarrow> SqFire EFire multiset \<Rightarrow> bool \<Rightarrow> nat list \<Rightarrow> bool" where
  "sq_phase crash M op i \<longleftrightarrow>
    (let C = count M (EOwn QCrash); R = count M (EOwn QRestart); Q = count M (EOwn QRequeue) in
     if crash = None then C = 0 \<and> R = 0 \<and> Q = 0 \<and> op
     else C = 1 \<and> R = 1 \<and> Q = 0 \<and> op \<or> C = 0 \<and> R = 1 \<and> Q = 0 \<and> \<not> op \<and> i = []
        \<or> C = 0 \<and> R = 0 \<and> Q = 1 \<and> \<not> op \<or> C = 0 \<and> R = 0 \<and> Q = 0 \<and> op)"

definition sq_core :: "SqlitePlan \<Rightarrow> CrashSpec option \<Rightarrow> SqFire EFire multiset \<Rightarrow> SqliteSim \<Rightarrow> string list \<Rightarrow> string option list \<Rightarrow> (nat \<times> string) list \<Rightarrow> nat list \<Rightarrow> nat \<Rightarrow> bool" where
  "sq_core plan crash M s q tr b i d \<longleftrightarrow> sq_shape plan s q tr b i d \<and> sq_books plan M s q tr b d \<and> sq_phase crash M (sl_open s) i"

text \<open>Work is not left lying: once the worker has started, jobs wait only while a claim is due or every ring is busy.\<close>

definition sq_served :: "SqlitePlan \<Rightarrow> SqFire EFire multiset \<Rightarrow> SqliteSim \<Rightarrow> string list \<Rightarrow> (nat \<times> string) list \<Rightarrow> bool" where
  "sq_served plan M s q b \<longleftrightarrow> (sl_looking s \<or> EOwn QFirst \<in># M)
     \<and> (sl_open s \<longrightarrow> sl_looking s \<longrightarrow> q \<noteq> [] \<longrightarrow> EOwn QClaim \<notin># M \<longrightarrow> int (length b) = sq_limit plan)"

definition sq_inv :: "SqlitePlan \<Rightarrow> CrashSpec option \<Rightarrow> SqFire EFire multiset \<Rightarrow> SqliteSim \<Rightarrow> bool" where
  "sq_inv plan crash M s \<longleftrightarrow> (\<exists>q tr b i d. sq_core plan crash M s q tr b i d \<and> sq_served plan M s q b)"

text \<open>The refusals the comment of \<open>simulateSqlite\<close> names.\<close>

fun documented :: "StoreErr \<Rightarrow> bool" where
  "documented (TooManyRings n) \<longleftrightarrow> True"
| "documented (CrashPart n) \<longleftrightarrow> True"
| "documented (AckOnWay job at) \<longleftrightarrow> True"
| "documented (LandDown job at) \<longleftrightarrow> True"
| "documented _ \<longleftrightarrow> False"

definition sq_good :: "SqlitePlan \<Rightarrow> CrashSpec option \<Rightarrow> StoreErr + SqliteSim \<Rightarrow> bool" where
  "sq_good plan crash r \<longleftrightarrow> (case r of Inl e \<Rightarrow> documented e | Inr s \<Rightarrow> sq_inv plan crash (fires (en_agenda s)) s)"

definition sq_plan_ok :: "SqlitePlan \<Rightarrow> bool" where
  "sq_plan_ok plan \<longleftrightarrow> distinct (sq_ids plan) \<and> '''' \<notin> set (sq_ids plan) \<and> distinct (sq_idle plan) \<and> 1 \<le> sq_limit plan
     \<and> (\<forall>c. crashOf plan = Inr (Some c) \<longrightarrow> cs_crashAt c \<le> cs_restartAt c)"

lemma sqlite_timer_simps [simp]:
  "sl_open (store_timer at f s) = sl_open s" "sl_looking (store_timer at f s) = sl_looking s"
  "sl_restarted (store_timer at f s) = sl_restarted s" "sl_row (store_timer at f s) = sl_row s"
  by (simp_all add: store_timer_def)

lemma phase_move:
  assumes "sq_phase crash M op i" "count M' (EOwn QCrash) = count M (EOwn QCrash)" "count M' (EOwn QRestart) = count M (EOwn QRestart)"
    "count M' (EOwn QRequeue) = count M (EOwn QRequeue)" "op \<or> i' = i"
  shows "sq_phase crash M' op i'"
  using assms by (auto simp: sq_phase_def Let_def split: if_splits)

lemma sq_goodI:
  "sq_core plan crash (fires (en_agenda s)) s q tr b i d \<Longrightarrow> sq_served plan (fires (en_agenda s)) s q b \<Longrightarrow> sq_good plan crash (Inr s)"
  by (simp add: sq_good_def) (metis sq_inv_def)

lemma distinct_submset:
  assumes "mset xs \<subseteq># mset ys" "distinct ys"
  shows "distinct xs"
proof -
  obtain zs where "mset zs = mset ys - mset xs" using ex_mset by blast
  hence "mset (xs @ zs) = mset ys" using assms(1) by simp
  thus ?thesis using assms(2) mset_eq_imp_distinct_iff by (metis distinct_append)
qed

section \<open>Claims\<close>

lemma sq_room:
  assumes "sq_core plan crash M s q tr b i d" "sl_open s" "int (length b) < sq_limit plan" "sq_limit plan \<le> int SLOTS"
  shows "None \<in> set tr"
proof -
  have m: "mset (map snd b) = in_flight tr" and l: "length tr = SLOTS" using assms(1,2) by (auto simp: sq_core_def sq_shape_def sq_books_def)
  have "size (in_flight tr) = length b" using arg_cong[OF m, of size] by simp
  hence "0 < length (filter (\<lambda>j. j = None) tr)" using in_flight_size[of tr] assms(3,4) l by linarith
  thus ?thesis by (auto simp: filter_empty_conv)
qed

lemma sq_take_step:
  assumes core: "sq_core plan crash (fires (en_agenda s)) s (job # q) tr b i d" and op: "sl_open s"
    and room: "int (length b) < sq_limit plan" "sq_limit plan \<le> int SLOTS"
  obtains s' tr' ring i' where "store_take tt now 0 job work s = Inr s'"
    "sq_core plan crash (fires (en_agenda s')) s' q tr' (b @ [(ring, job)]) i' d"
    "sl_open s' = sl_open s" "sl_looking s' = sl_looking s" "sl_restarted s' = sl_restarted s"
    "\<forall>f. f \<in># fires (en_agenda s') \<longleftrightarrow> f \<in># fires (en_agenda s) \<or> f = EDone 0 d job ring"
proof -
  have sh: "sq_shape plan s (job # q) tr b i d" and bk: "sq_books plan (fires (en_agenda s)) s (job # q) tr b d"
    and ph: "sq_phase crash (fires (en_agenda s)) (sl_open s) i" using core by (auto simp: sq_core_def)
  have r: "rings_of (en_store s) ''sqlite'' = Some \<lparr>rg_busy = b, rg_idle = i\<rparr>" and c: "''sqlite'' = wk_id (en_crew s ! 0)"
    using sh by (simp_all add: sq_shape_def rings_of_def)
  have n: "None \<in> set (st_tray (en_store s))" using sq_room[OF core op room] sh by (simp add: sq_shape_def)
  obtain ring idle k evs where t: "store_take tt now 0 job work s = Inr (s\<lparr>en_store := put_rings ''sqlite'' \<lparr>rg_busy = b @ [(ring, job)], rg_idle = idle\<rparr>
        ((en_store s)\<lparr>st_queue := q, st_tray := (st_tray (en_store s))[k := Some job]\<rparr>),
      en_events := en_events s @ evs, en_agenda := set_timer (now + tt + work) (EDone 0 d job ring) (en_agenda s)\<rparr>)"
    and k: "k < length tr" "tr ! k = None" and ds: "distinct (map fst b @ ring # idle)" and ev: "landings evs = []" "acks evs = []" "\<And>j. \<not> was_done evs j"
    by (rule store_take_ok[OF c r, where tt = tt and now = now and work = work and job = job and q = q]) (use sh n in \<open>auto simp: sq_shape_def\<close>)
  let ?s = "s\<lparr>en_store := put_rings ''sqlite'' \<lparr>rg_busy = b @ [(ring, job)], rg_idle = idle\<rparr>
        ((en_store s)\<lparr>st_queue := q, st_tray := (st_tray (en_store s))[k := Some job]\<rparr>),
      en_events := en_events s @ evs, en_agenda := set_timer (now + tt + work) (EDone 0 d job ring) (en_agenda s)\<rparr>"
  have "sq_shape plan ?s q (tr[k := Some job]) (b @ [(ring, job)]) idle d"
    using sh ds by (auto simp: sq_shape_def put_rings_def)
  moreover have "sq_books plan (fires (en_agenda ?s)) ?s q (tr[k := Some job]) (b @ [(ring, job)]) d"
    using bk op room(1) ev in_flight_fill[OF k, of job] unfolding sq_books_def by (elim conjE) simp
  moreover have "sq_phase crash (fires (en_agenda ?s)) (sl_open s) idle"
    by (rule phase_move[OF ph]) (use op in simp_all)
  ultimately show thesis using that[OF t, of "tr[k := Some job]" ring idle] by (simp add: sq_core_def disj_commute)
qed

lemma sq_duration_ok:
  assumes "job \<in> set (sq_ids plan)"
  obtains w where "sq_duration plan crash s job = Inr w"
proof -
  have "work_of (sq_jobs plan) job \<noteq> None" using assms by (auto simp: work_of_def map_of_eq_None_iff image_iff)
  then obtain y where y: "work_of (sq_jobs plan) job = Some y" by blast
  show thesis
  proof (cases "if sl_restarted s then Option.bind crash (\<lambda>c. map_of (cs_rework c) job) else None")
    case None
    thus thesis using that[of y] y by (simp add: sq_duration_def)
  next
    case (Some z)
    thus thesis using that[of z] by (simp add: sq_duration_def)
  qed
qed

lemma queue_in_plan: "sq_core plan crash M s q tr b i d \<Longrightarrow> set q \<subseteq> set (sq_ids plan)"
proof -
  assume "sq_core plan crash M s q tr b i d"
  hence "mset q + in_flight tr + mset (acks (en_events s)) + fire_jobs sq_lands M = mset (sq_ids plan)" by (simp add: sq_core_def sq_books_def)
  hence "mset q \<subseteq># mset (sq_ids plan)" by (metis mset_subset_eq_add_left union_assoc)
  thus ?thesis by (metis set_mset_mono set_mset_mset)
qed

lemma sq_takes_ok:
  assumes "sq_core plan crash (fires (en_agenda s)) s (jobs @ q) tr b i d" "sl_open s"
    "int (length b + length jobs) \<le> sq_limit plan" "sq_limit plan \<le> int SLOTS"
  shows "\<exists>s' tr' b' i'. sq_takes plan crash now jobs s = Inr s' \<and> sq_core plan crash (fires (en_agenda s')) s' q tr' b' i' d
    \<and> length b' = length b + length jobs \<and> sl_open s' = sl_open s \<and> sl_looking s' = sl_looking s
    \<and> (EOwn QFirst \<in># fires (en_agenda s') \<longleftrightarrow> EOwn QFirst \<in># fires (en_agenda s))"
  using assms
proof (induction jobs arbitrary: s tr b i)
  case (Cons job jobs)
  have core: "sq_core plan crash (fires (en_agenda s)) s (job # (jobs @ q)) tr b i d" using Cons.prems(1) by simp
  have "job \<in> set (sq_ids plan)" using queue_in_plan[OF core] by auto
  then obtain w where w: "sq_duration plan crash s job = Inr w" by (rule sq_duration_ok)
  have lim: "int (length b) < sq_limit plan" using Cons.prems(3) by simp
  obtain s1 tr1 ring i1 where s1: "store_take (sq_takeTravel plan) now 0 job w s = Inr s1"
    "sq_core plan crash (fires (en_agenda s1)) s1 (jobs @ q) tr1 (b @ [(ring, job)]) i1 d"
    "sl_open s1 = sl_open s" "sl_looking s1 = sl_looking s" "sl_restarted s1 = sl_restarted s"
    "\<forall>f. f \<in># fires (en_agenda s1) \<longleftrightarrow> f \<in># fires (en_agenda s) \<or> f = EDone 0 d job ring"
    by (rule sq_take_step[OF core Cons.prems(2) lim Cons.prems(4), where tt = "sq_takeTravel plan" and now = now and work = w])
  have "\<exists>s' tr' b' i'. sq_takes plan crash now jobs s1 = Inr s' \<and> sq_core plan crash (fires (en_agenda s')) s' q tr' b' i' d
    \<and> length b' = length (b @ [(ring, job)]) + length jobs \<and> sl_open s' = sl_open s1 \<and> sl_looking s' = sl_looking s1
    \<and> (EOwn QFirst \<in># fires (en_agenda s') \<longleftrightarrow> EOwn QFirst \<in># fires (en_agenda s1))"
    by (rule Cons.IH[OF s1(2)]) (use Cons.prems s1(3) in simp_all)
  thus ?case using w s1(1,3,4,6) by auto
qed auto

text \<open>What the firing timer leaves: it was the one on top of the firings that wait.\<close>

lemma core_drop:
  assumes "sq_core plan crash (add_mset f M) s q tr b i d" "sq_lands f = None" "live_of d f = None" "ack_of f = None"
    "f \<noteq> EOwn QCrash" "f \<noteq> EOwn QRestart" "f \<noteq> EOwn QRequeue"
  shows "sq_core plan crash M s q tr b i d"
proof -
  have "sq_phase crash (add_mset f M) (sl_open s) i" using assms(1) by (simp add: sq_core_def)
  hence "sq_phase crash M (sl_open s) i" by (rule phase_move) (use assms(5-7) in auto)
  thus ?thesis using assms(1-4) unfolding sq_core_def sq_books_def by simp
qed

lemma claim_good:
  assumes inv: "sq_inv plan crash (add_mset (EOwn QClaim) (fires (en_agenda s))) s" and lim: "1 \<le> sq_limit plan" "sq_limit plan \<le> int SLOTS"
  shows "sq_good plan crash (sq_claim plan crash now s)"
proof -
  obtain q tr b i d where c0: "sq_core plan crash (add_mset (EOwn QClaim) (fires (en_agenda s))) s q tr b i d"
    and sv: "sq_served plan (add_mset (EOwn QClaim) (fires (en_agenda s))) s q b" using inv by (auto simp: sq_inv_def)
  have core: "sq_core plan crash (fires (en_agenda s)) s q tr b i d" by (rule core_drop[OF c0]) simp_all
  show ?thesis
  proof (cases "sl_open s")
    case False
    hence "sq_served plan (fires (en_agenda s)) s q b" using sv by (simp add: sq_served_def)
    thus ?thesis using False sq_goodI[OF core] by (simp add: sq_claim_def)
  next
    case True
    have le: "int (length b) \<le> sq_limit plan" using core by (simp add: sq_core_def sq_books_def)
    let ?n = "nat (sq_limit plan - int (length b))"
    have "slice_to (credit s 0) (st_queue (en_store s)) = take ?n q"
      using core le by (simp add: slice_to_def credit_def rings_at_def rings_of_def sq_core_def sq_shape_def)
    hence cl: "sq_claim plan crash now s = sq_takes plan crash now (take ?n q) s" using True by (simp add: sq_claim_def)
    have fit: "int (length b + length (take ?n q)) \<le> sq_limit plan" using le by simp
    have "sq_core plan crash (fires (en_agenda s)) s (take ?n q @ drop ?n q) tr b i d" using core by simp
    then obtain s' tr' b' i' where s': "sq_takes plan crash now (take ?n q) s = Inr s'" "sq_core plan crash (fires (en_agenda s')) s' (drop ?n q) tr' b' i' d"
      "length b' = length b + length (take ?n q)" "sl_looking s' = sl_looking s" "EOwn QFirst \<in># fires (en_agenda s') \<longleftrightarrow> EOwn QFirst \<in># fires (en_agenda s)"
      using sq_takes_ok[OF _ True fit lim(2), of crash "drop ?n q" tr i d now] by blast
    have "drop ?n q \<noteq> [] \<Longrightarrow> int (length b') = sq_limit plan" using s'(3) le by simp
    hence "sq_served plan (fires (en_agenda s')) s' (drop ?n q) b'" using sv s'(4,5) by (simp add: sq_served_def)
    thus ?thesis using s'(1) cl sq_goodI[OF s'(2)] by simp
  qed
qed

section \<open>The other firings\<close>

text \<open>A job's function returns: nothing of a program that died since, and otherwise the ack is on its way.\<close>

lemma done_good:
  assumes inv: "sq_inv plan crash (add_mset (EDone w d' job ring) (fires (en_agenda s))) s"
  shows "sq_good plan crash (take_done at w d' job ring now s)"
proof -
  obtain q tr b i d where c0: "sq_core plan crash (add_mset (EDone w d' job ring) (fires (en_agenda s))) s q tr b i d"
    and sv: "sq_served plan (add_mset (EDone w d' job ring) (fires (en_agenda s))) s q b" using inv by (auto simp: sq_inv_def)
  have w: "w = 0" "wk_deaths (en_crew s ! 0) = d" using c0 by (auto simp: sq_core_def sq_books_def sq_shape_def)
  show ?thesis
  proof (cases "d = d'")
    case False
    have "sq_core plan crash (fires (en_agenda s)) s q tr b i d" by (rule core_drop[OF c0]) (use False in simp_all)
    moreover have "sq_served plan (fires (en_agenda s)) s q b" using sv by (simp add: sq_served_def)
    ultimately show ?thesis using False w sq_goodI by (simp add: take_done_def)
  next
    case True
    let ?s = "store_timer (now + at) (EAck 0 job ring) (s\<lparr>en_events := en_events s @ [SDone now job (wk_id (en_crew s ! 0)) ring]\<rparr>)"
    have r: "take_done at w d' job ring now s = Inr ?s" using True w by (simp add: take_done_def emit_store_def)
    have "sq_phase crash (fires (en_agenda ?s)) (sl_open s) i"
      by (rule phase_move[of crash "add_mset (EDone w d' job ring) (fires (en_agenda s))" _ i]) (use c0 in \<open>simp_all add: sq_core_def\<close>)
    moreover have "sq_shape plan ?s q tr b i d" using c0 by (simp add: sq_core_def sq_shape_def)
    moreover have "sq_books plan (fires (en_agenda ?s)) ?s q tr b d"
      using c0 True unfolding sq_core_def sq_books_def by (elim conjE) (auto simp: w)
    ultimately have "sq_core plan crash (fires (en_agenda ?s)) ?s q tr b i d" by (simp add: sq_core_def store_timer_def)
    moreover have "sq_served plan (fires (en_agenda ?s)) ?s q b" using sv by (simp add: sq_served_def store_timer_def)
    ultimately show ?thesis unfolding r by (rule sq_goodI)
  qed
qed

text \<open>Whatever is timed keeps the books, when it is none of the timers they read.\<close>

lemma wake_inv:
  assumes "sq_core plan crash (fires (en_agenda s)) s q tr b i d" "sl_looking s \<or> EOwn QFirst \<in># fires (en_agenda s)"
  shows "sq_inv plan crash (fires (en_agenda (sq_wake now s))) (sq_wake now s)"
proof -
  have "sq_phase crash (fires (en_agenda s)) (sl_open s) i" using assms(1) by (simp add: sq_core_def)
  hence "sq_phase crash (fires (en_agenda (sq_wake now s))) (sl_open s) i" by (rule phase_move) (simp_all add: sq_wake_def)
  hence "sq_core plan crash (fires (en_agenda (sq_wake now s))) (sq_wake now s) q tr b i d"
    using assms(1) unfolding sq_core_def sq_books_def sq_shape_def by (simp add: sq_wake_def store_timer_def)
  moreover have "sq_served plan (fires (en_agenda (sq_wake now s))) (sq_wake now s) q b"
    using assms(2) by (auto simp: sq_served_def sq_wake_def store_timer_def)
  ultimately show ?thesis unfolding sq_inv_def by blast
qed

lemma first_good:
  assumes "sq_inv plan crash (add_mset (EOwn QFirst) (fires (en_agenda s))) s"
  shows "sq_good plan crash (Inr (sq_wake now (s\<lparr>sl_looking := True\<rparr>)))"
proof -
  obtain q tr b i d where c0: "sq_core plan crash (add_mset (EOwn QFirst) (fires (en_agenda s))) s q tr b i d" using assms by (auto simp: sq_inv_def)
  have "sq_core plan crash (fires (en_agenda s)) s q tr b i d" by (rule core_drop[OF c0]) simp_all
  hence "sq_core plan crash (fires (en_agenda s)) (s\<lparr>sl_looking := True\<rparr>) q tr b i d" by (simp add: sq_core_def sq_shape_def sq_books_def)
  thus ?thesis using wake_inv[of plan crash "s\<lparr>sl_looking := True\<rparr>" q tr b i d now] by (simp add: sq_good_def)
qed

text \<open>An ack lands: its slot is free again and its ring idle, or gone.\<close>

lemma busy_split:
  assumes "(ring, job) \<in> set b" "distinct (map fst b)" "distinct (map snd b)"
  obtains b1 b2 where "b = b1 @ (ring, job) # b2" "filter (\<lambda>(r, j). j \<noteq> job) b = b1 @ b2" "filter (\<lambda>(r, j). j = job) b = [(ring, job)]"
proof -
  obtain b1 b2 where b: "b = b1 @ (ring, job) # b2" using assms(1) by (meson split_list)
  have "job \<notin> snd ` set b1" "job \<notin> snd ` set b2" using assms(3) by (auto simp: b)
  hence "filter (\<lambda>(r, j). j \<noteq> job) b1 = b1" "filter (\<lambda>(r, j). j \<noteq> job) b2 = b2" "filter (\<lambda>(r, j). j = job) b1 = []" "filter (\<lambda>(r, j). j = job) b2 = []"
    by (auto simp: filter_id_conv filter_empty_conv image_iff)
  thus thesis using that[of b1 b2] b by simp
qed

lemma busy_jobs:
  assumes "sq_core plan crash M s q tr b i d" "distinct (sq_ids plan)"
  shows "distinct (map snd b)" "distinct q"
proof -
  have m: "mset q + in_flight tr + mset (acks (en_events s)) + fire_jobs sq_lands M = mset (sq_ids plan)"
    and bj: "mset (map snd b) = (if sl_open s then in_flight tr else {#})" using assms(1) by (simp_all add: sq_core_def sq_books_def)
  have "mset q \<subseteq># mset (sq_ids plan)" unfolding m[symmetric] by (metis mset_subset_eq_add_left union_assoc)
  moreover have "in_flight tr \<subseteq># mset (sq_ids plan)" unfolding m[symmetric] by (metis mset_subset_eq_add_left mset_subset_eq_add_right subset_mset.order_trans union_assoc)
  ultimately show "distinct (map snd b)" "distinct q"
    using bj distinct_submset[of "map snd b" "sq_ids plan"] distinct_submset[of q "sq_ids plan"] assms(2) by (auto split: if_splits)
qed

lemma exit_ring_idle:
  assumes "rings_of s c = Some r" "ring \<notin> fst ` set (rg_busy r)" "ring \<in> set (rg_idle r)"
  shows "store_apply (SExit at c ring) s = Inr (put_rings c (r\<lparr>rg_idle := remove1 ring (rg_idle r)\<rparr>) s)"
proof -
  obtain k where k: "index_of ring (rg_idle r) = Some k" using find_index_ex[of "rg_idle r" "\<lambda>y. y = ring"] assms(3) by auto
  have "filter (\<lambda>(g, j). g \<noteq> ring) (rg_busy r) = rg_busy r" using assms(2) by (auto simp: filter_id_conv image_iff)
  thus ?thesis using assms(1) k splice_out_index_of[OF k] by (simp add: exit_ring_def)
qed

lemma sqlite_rings [simp]: "st_rings st = Some [(''sqlite'', r)] \<Longrightarrow> rings_of st ''sqlite'' = Some r"
  by (simp add: rings_of_def)

lemma distinct_mid: "distinct (xs @ r # ys @ zs) \<Longrightarrow> distinct (xs @ ys @ zs @ [r]) \<and> distinct (xs @ ys @ zs)"
  by auto

lemma ack_good:
  assumes inv: "sq_inv plan crash (add_mset (EAck w job ring) (fires (en_agenda s))) s" and ids: "distinct (sq_ids plan)"
  shows "sq_good plan crash (take_ack (\<lambda>w. sq_wake) w job ring now s)"
proof -
  obtain q tr b i d where c0: "sq_core plan crash (add_mset (EAck w job ring) (fires (en_agenda s))) s q tr b i d"
    and sv: "sq_served plan (add_mset (EAck w job ring) (fires (en_agenda s))) s q b" using inv by (auto simp: sq_inv_def)
  have sh: "sq_shape plan s q tr b i d" and bk: "sq_books plan (add_mset (EAck w job ring) (fires (en_agenda s))) s q tr b d"
    and ph: "sq_phase crash (add_mset (EAck w job ring) (fires (en_agenda s))) (sl_open s) i" using c0 by (auto simp: sq_core_def)
  have w: "w = 0" using bk by (simp add: sq_books_def)
  have mb: "mset b = add_mset (ring, job) (fire_jobs (live_of d) (fires (en_agenda s)) + fire_jobs ack_of (fires (en_agenda s)))"
    using bk by (simp add: sq_books_def)
  hence "(ring, job) \<in> set b" by (metis set_mset_mset union_single_eq_member)
  moreover have "distinct (map fst b)" using sh by (simp add: sq_shape_def)
  ultimately obtain b1 b2 where b: "b = b1 @ (ring, job) # b2" and f: "filter (\<lambda>(r, j). j \<noteq> job) b = b1 @ b2" "filter (\<lambda>(r, j). j = job) b = [(ring, job)]"
    using busy_split[OF _ _ busy_jobs(1)[OF c0 ids]] by metis
  have bj: "mset (map snd b) = (if sl_open s then in_flight tr else {#})" using bk by (simp add: sq_books_def)
  have op: "sl_open s" using bj b by (auto split: if_splits)
  have "in_flight tr = mset (map snd b)" using bj op by simp
  hence "job \<in># in_flight tr" by (simp add: b)
  hence "Some job \<in> set tr" by (simp add: set_in_flight)
  then obtain k where k: "index_or_neg (Some job) tr = int k" "k < length tr" "tr ! k = Some job" using index_ok[of "Some job" tr] by blast
  let ?r = "\<lparr>rg_busy = b1 @ b2, rg_idle = i @ [ring]\<rparr>"
  let ?st = "\<lparr>st_queue = q, st_tray = tr[k := None], st_rings = Some [(''sqlite'', ?r)]\<rparr>"
  let ?s1 = "s\<lparr>en_events := en_events s @ [SAck now job (int k)], en_store := ?st\<rparr>"
  have st: "en_store s = \<lparr>st_queue = q, st_tray = tr, st_rings = Some [(''sqlite'', \<lparr>rg_busy = b, rg_idle = i\<rparr>)]\<rparr>"
    and cr: "en_crew s = [\<lparr>wk_id = ''sqlite'', wk_limit = sq_limit plan, wk_deaths = d\<rparr>]" using sh by (simp_all add: sq_shape_def)
  have e1: "emit_store (SAck now job (index_or_neg (Some job) (st_tray (en_store s)))) s = Inr ?s1"
    using k f by (simp add: emit_store_def st slot_at_def ack_rings_def)
  have fr: "ring \<notin> fst ` set (b1 @ b2)" "ring \<notin> set i" using sh by (auto simp: sq_shape_def b)
  have ex: "emit_store (SExit now ''sqlite'' ring) ?s1 = Inr (?s1\<lparr>en_events := en_events ?s1 @ [SExit now ''sqlite'' ring],
      en_store := \<lparr>st_queue = q, st_tray = tr[k := None], st_rings = Some [(''sqlite'', \<lparr>rg_busy = b1 @ b2, rg_idle = i\<rparr>)]\<rparr>\<rparr>)"
    using exit_ring_idle[of ?st "''sqlite''" ?r ring now] fr by (simp add: emit_store_def put_rings_def remove1_append)
  have core: "sq_core plan crash (fires (en_agenda s)) u q (tr[k := None]) (b1 @ b2) i' d"
    if "en_store u = \<lparr>st_queue = q, st_tray = tr[k := None], st_rings = Some [(''sqlite'', \<lparr>rg_busy = b1 @ b2, rg_idle = i'\<rparr>)]\<rparr>"
      "en_crew u = en_crew s" "sl_open u = sl_open s" "i' = i \<or> i' = i @ [ring]" "en_events u = en_events s @ SAck now job (int k) # evs" "acks evs = []" for u i' evs
  proof -
    have "distinct (map fst b1 @ map fst b2 @ i')" using that(4) distinct_mid[of "map fst b1" ring "map fst b2" i] sh by (auto simp only: sq_shape_def b map_append list.map fst_conv append_assoc append_Cons)
    hence "sq_shape plan u q (tr[k := None]) (b1 @ b2) i' d" using sh that(1,2) by (simp add: sq_shape_def)
    moreover have "sq_books plan (fires (en_agenda s)) u q (tr[k := None]) (b1 @ b2) d"
      using bk op that(3,5,6) in_flight_free[OF k(2,3)] unfolding sq_books_def b by (elim conjE) auto
    moreover have "sq_phase crash (fires (en_agenda s)) (sl_open u) i'" by (rule phase_move[OF ph[folded that(3)]]) (use op that(3) in simp_all)
    ultimately show ?thesis by (simp add: sq_core_def)
  qed
  have lk: "sl_looking s \<or> EOwn QFirst \<in># fires (en_agenda s)" using sv by (simp add: sq_served_def)
  show ?thesis
  proof (cases "length q \<le> length i \<and> 0 < length i")
    case True
    let ?s2 = "?s1\<lparr>en_events := en_events ?s1 @ [SExit now ''sqlite'' ring],
      en_store := \<lparr>st_queue = q, st_tray = tr[k := None], st_rings = Some [(''sqlite'', \<lparr>rg_busy = b1 @ b2, rg_idle = i\<rparr>)]\<rparr>\<rparr>"
    have "take_ack (\<lambda>w. sq_wake) w job ring now s = Inr (sq_wake now ?s2)"
      using True e1 ex cr unfolding take_ack_def by (simp add: rings_at_def w Let_def)
    moreover have "sq_core plan crash (fires (en_agenda ?s2)) ?s2 q (tr[k := None]) (b1 @ b2) i d"
      using core[of ?s2 i "[SExit now ''sqlite'' ring]"] by simp
    ultimately show ?thesis using wake_inv[of plan crash ?s2 q "tr[k := None]" "b1 @ b2" i d now] lk by (simp add: sq_good_def)
  next
    case False
    have "take_ack (\<lambda>w. sq_wake) w job ring now s = Inr (sq_wake now ?s1)"
      using False e1 cr unfolding take_ack_def by (auto simp: rings_at_def w Let_def)
    moreover have "sq_core plan crash (fires (en_agenda ?s1)) ?s1 q (tr[k := None]) (b1 @ b2) (i @ [ring]) d"
      using core[of ?s1 "i @ [ring]" "[]"] by simp
    ultimately show ?thesis using wake_inv[of plan crash ?s1 q "tr[k := None]" "b1 @ b2" "i @ [ring]" d now] lk by (simp add: sq_good_def)
  qed
qed

text \<open>The program dies: every ring exits, and no ack is on its way.\<close>

lemma exit_ring_any:
  assumes "rings_of s c = Some r" "distinct (map fst (rg_busy r) @ rg_idle r)" "ring \<in> set (map fst (rg_busy r) @ rg_idle r)"
  shows "store_apply (SExit at c ring) s = Inr (put_rings c (r\<lparr>rg_busy := filter (\<lambda>(g, j). g \<noteq> ring) (rg_busy r), rg_idle := remove1 ring (rg_idle r)\<rparr>) s)"
proof -
  have "(case index_of ring (rg_idle r) of Some i \<Rightarrow> splice_out i (rg_idle r) | None \<Rightarrow> rg_idle r) = remove1 ring (rg_idle r)"
  proof (cases "index_of ring (rg_idle r)")
    case None
    moreover from this have "ring \<notin> set (rg_idle r)" by auto
    ultimately show ?thesis by (simp add: remove1_idem del: find_index_None)
  qed (simp add: splice_out_index_of)
  moreover have "ring \<notin> fst ` set (rg_busy r) \<Longrightarrow> index_of ring (rg_idle r) \<noteq> None" using assms(3) by auto
  ultimately show ?thesis using assms(1) by (auto simp: exit_ring_def Let_def simp del: find_index_None)
qed

lemma exit_all_rings:
  assumes "rings_of (en_store s) c = Some r" "distinct (map fst (rg_busy r) @ rg_idle r)" "distinct rs" "set rs = set (map fst (rg_busy r) @ rg_idle r)"
  shows "exit_all now c rs s = Inr (s\<lparr>en_events := en_events s @ map (SExit now c) rs, en_store := put_rings c \<lparr>rg_busy = [], rg_idle = []\<rparr> (en_store s)\<rparr>)"
  using assms
proof (induction rs arbitrary: s r)
  case Nil
  hence "r = \<lparr>rg_busy = [], rg_idle = []\<rparr>" by (cases r) simp
  moreover have "put_rings c r (en_store s) = en_store s"
    using Nil.prems(1) by (cases "en_store s") (auto simp: put_rings_def rings_of_def update_triv split: option.splits)
  ultimately show ?case by simp
next
  case (Cons x rs)
  let ?r = "r\<lparr>rg_busy := filter (\<lambda>(g, j). g \<noteq> x) (rg_busy r), rg_idle := remove1 x (rg_idle r)\<rparr>"
  let ?s = "s\<lparr>en_events := en_events s @ [SExit now c x], en_store := put_rings c ?r (en_store s)\<rparr>"
  have "x \<in> set (map fst (rg_busy r) @ rg_idle r)" using Cons.prems(4) by (metis list.set_intros(1))
  hence e: "emit_store (SExit now c x) s = Inr ?s" using exit_ring_any[OF Cons.prems(1,2), of x now] by (simp add: emit_store_def)
  have mf: "map fst (filter (\<lambda>(g, j). g \<noteq> x) (rg_busy r)) = filter (\<lambda>g. g \<noteq> x) (map fst (rg_busy r))" by (simp add: filter_map comp_def split_def)
  have "distinct (map fst (rg_busy ?r) @ rg_idle ?r)" using Cons.prems(2) by (auto simp: mf)
  moreover have "set rs = set (map fst (rg_busy ?r) @ rg_idle ?r)"
  proof -
    have "set (map fst (rg_busy ?r)) = set (map fst (rg_busy r)) - {x}" by force
    moreover have "set (rg_idle ?r) = set (rg_idle r) - {x}" using Cons.prems(2) by simp
    moreover have "set rs = set (map fst (rg_busy r) @ rg_idle r) - {x}" using Cons.prems(3,4) by auto
    ultimately show ?thesis unfolding set_append by blast
  qed
  moreover have "rings_of (en_store ?s) c = Some ?r" using Cons.prems(1) by simp
  ultimately have "exit_all now c rs ?s = Inr (?s\<lparr>en_events := en_events ?s @ map (SExit now c) rs, en_store := put_rings c \<lparr>rg_busy = [], rg_idle = []\<rparr> (en_store ?s)\<rparr>)"
    using Cons.IH[of ?s ?r] Cons.prems(3) by simp
  thus ?case using e by simp
qed

lemma no_acking:
  assumes "sq_books plan M s q tr b d" "sl_open s" "'''' \<notin> set (sq_ids plan)" "List.find (\<lambda>j. case j of None \<Rightarrow> False | Some job \<Rightarrow> job \<noteq> '''' \<and> was_done (en_events s) job) tr = None"
  shows "fire_jobs ack_of M = {#}"
proof (rule ccontr)
  assume "fire_jobs ack_of M \<noteq> {#}"
  then obtain ring job where a: "(ring, job) \<in># fire_jobs ack_of M" by (metis multiset_nonemptyE surj_pair)
  have eq: "fire_jobs (live_of d) M + fire_jobs ack_of M = mset b" and wd: "was_done (en_events s) job" and bj: "mset (map snd b) = in_flight tr"
    and m: "mset q + in_flight tr + mset (acks (en_events s)) + fire_jobs sq_lands M = mset (sq_ids plan)"
    using assms(1,2) a by (auto simp: sq_books_def)
  have "(ring, job) \<in># mset b" using a unfolding eq[symmetric] by simp
  hence "job \<in># in_flight tr" unfolding bj[symmetric] by (auto simp: image_iff) (metis snd_conv)
  moreover from this have "job \<in># mset (sq_ids plan)" unfolding m[symmetric] by simp
  hence "job \<noteq> ''''" using assms(3) by (metis set_mset_mset)
  ultimately show False using assms(4) wd by (auto simp: find_None_iff set_in_flight split: option.splits)
qed

lemma stale_all: "\<forall>f\<in>#M. own_program d f \<Longrightarrow> fire_jobs (live_of (Suc d)) M = {#}"
proof (induction M)
  case (add f M)
  thus ?case by (cases f) auto
qed (simp add: fire_jobs_def)

lemma own_program_mono: "\<forall>f\<in>#M. own_program d f \<Longrightarrow> \<forall>f\<in>#M. own_program (Suc d) f"
proof
  fix f assume "\<forall>f\<in>#M. own_program d f" "f \<in># M"
  thus "own_program (Suc d) f" by (cases f) auto
qed

lemma exits_log [simp]: "acks (map (SExit now c) rs) = []" "landings (map (SExit now c) rs) = []"
  by (induction rs) simp_all

lemma crash_good:
  assumes inv: "sq_inv plan crash (add_mset (EOwn QCrash) (fires (en_agenda s))) s" and plan: "'''' \<notin> set (sq_ids plan)" "1 \<le> sq_limit plan"
  shows "sq_good plan crash (sq_crash now s)"
proof -
  obtain q tr b i d where c0: "sq_core plan crash (add_mset (EOwn QCrash) (fires (en_agenda s))) s q tr b i d"
    and sv: "sq_served plan (add_mset (EOwn QCrash) (fires (en_agenda s))) s q b" using inv by (auto simp: sq_inv_def)
  have sh: "sq_shape plan s q tr b i d" and bk: "sq_books plan (add_mset (EOwn QCrash) (fires (en_agenda s))) s q tr b d"
    and ph: "sq_phase crash (add_mset (EOwn QCrash) (fires (en_agenda s))) (sl_open s) i" using c0 by (auto simp: sq_core_def)
  have op: "sl_open s" and cn: "crash \<noteq> None" "count (fires (en_agenda s)) (EOwn QCrash) = 0" "count (fires (en_agenda s)) (EOwn QRestart) = 1"
    "count (fires (en_agenda s)) (EOwn QRequeue) = 0" using ph by (auto simp: sq_phase_def Let_def split: if_splits)
  let ?acking = "List.find (\<lambda>j. case j of None \<Rightarrow> False | Some job \<Rightarrow> job \<noteq> '''' \<and> was_done (en_events s) job) tr"
  have st: "en_store s = \<lparr>st_queue = q, st_tray = tr, st_rings = Some [(''sqlite'', \<lparr>rg_busy = b, rg_idle = i\<rparr>)]\<rparr>"
    and cr: "en_crew s = [\<lparr>wk_id = ''sqlite'', wk_limit = sq_limit plan, wk_deaths = d\<rparr>]" and ds: "distinct (map fst b @ i)" using sh by (simp_all add: sq_shape_def)
  show ?thesis
  proof (cases ?acking)
    case (Some j)
    then obtain job where "j = Some job" by (auto simp: find_Some_iff split: option.splits)
    thus ?thesis using Some by (simp add: sq_crash_def st sq_good_def)
  next
    case None
    let ?rs = "sort (map fst b @ i)"
    let ?s2 = "s\<lparr>en_crew := [\<lparr>wk_id = ''sqlite'', wk_limit = sq_limit plan, wk_deaths = Suc d\<rparr>], sl_open := False, en_events := en_events s @ [SCrash now None]\<rparr>"
    let ?s = "?s2\<lparr>en_events := en_events ?s2 @ map (SExit now ''sqlite'') ?rs,
       en_store := put_rings ''sqlite'' \<lparr>rg_busy = [], rg_idle = []\<rparr> (en_store ?s2)\<rparr>"
    have e: "emit_store (SCrash now None) ((die 0 s)\<lparr>sl_open := False\<rparr>) = Inr ?s2"
      by (simp add: emit_store_def die_def cr)
    have r2: "rings_of (en_store ?s2) ''sqlite'' = Some \<lparr>rg_busy = b, rg_idle = i\<rparr>" by (simp add: st)
    have "rings_at ?s2 0 = \<lparr>rg_busy = b, rg_idle = i\<rparr>" using r2 by (simp add: rings_at_def)
    moreover have "exit_all now ''sqlite'' ?rs ?s2 = Inr ?s" by (rule exit_all_rings[OF r2]) (use ds in simp_all)
    ultimately have "sq_crash now s = Inr ?s" using None e by (simp add: sq_crash_def st Let_def)
    moreover have "sq_shape plan ?s q tr [] [] (Suc d)" using sh st by (simp add: sq_shape_def put_rings_def)
    moreover have "sq_books plan (fires (en_agenda ?s)) ?s q tr [] (Suc d)"
    proof -
      have "fire_jobs ack_of (add_mset (EOwn QCrash) (fires (en_agenda s))) = {#}" by (rule no_acking[OF bk op plan(1) None])
      moreover have "\<forall>f\<in>#fires (en_agenda s). own_program d f" using bk by (simp add: sq_books_def)
      note stale_all[OF this] own_program_mono[OF this]
      ultimately show ?thesis using bk plan(2) by (simp add: sq_books_def)
    qed
    moreover have "sq_phase crash (fires (en_agenda ?s)) (sl_open ?s) []" using cn by (simp add: sq_phase_def)
    moreover have "sq_served plan (fires (en_agenda ?s)) ?s q []" using sv by (simp add: sq_served_def)
    ultimately show ?thesis using sq_goodI[of plan crash ?s q tr "[]" "[]" "Suc d"] by (simp add: sq_core_def)
  qed
qed

lemma sq_restart_good:
  assumes inv: "sq_inv plan (Some c) (add_mset (EOwn QRestart) (fires (en_agenda s))) s" and first: "EOwn QCrash \<notin># fires (en_agenda s)"
  shows "sq_good plan (Some c) (sq_restart c now s)"
proof -
  obtain q tr b i d where c0: "sq_core plan (Some c) (add_mset (EOwn QRestart) (fires (en_agenda s))) s q tr b i d"
    and sv: "sq_served plan (add_mset (EOwn QRestart) (fires (en_agenda s))) s q b" using inv by (auto simp: sq_inv_def)
  have sh: "sq_shape plan s q tr b i d" and bk: "sq_books plan (add_mset (EOwn QRestart) (fires (en_agenda s))) s q tr b d"
    and ph: "sq_phase (Some c) (add_mset (EOwn QRestart) (fires (en_agenda s))) (sl_open s) i" using c0 by (auto simp: sq_core_def)
  have op: "\<not> sl_open s" "i = []" and cn: "count (fires (en_agenda s)) (EOwn QRestart) = 0" "count (fires (en_agenda s)) (EOwn QRequeue) = 0"
    using ph first[unfolded not_in_iff] by (auto simp: sq_phase_def Let_def)
  have b: "b = []" using bk op(1) by (simp add: sq_books_def)
  let ?st = "\<lparr>st_queue = q, st_tray = tr, st_rings = Some [(''sqlite'', \<lparr>rg_busy = [], rg_idle = [0]\<rparr>)]\<rparr>"
  let ?s = "store_timer (now + cs_requeueAfter c) (EOwn QRequeue) (s\<lparr>en_events := en_events s @ [SRestart now None, SSpawn now ''sqlite'' 0], en_store := ?st\<rparr>)"
  have "sq_restart c now s = Inr ?s"
    using sh by (simp add: sq_restart_def emit_store_def sq_shape_def spawn_ring_def put_rings_def b op(2))
  moreover have "sq_shape plan ?s q tr [] [0] d" using sh by (simp add: sq_shape_def)
  moreover have "sq_books plan (fires (en_agenda ?s)) ?s q tr [] d" using bk op(1) unfolding b sq_books_def by simp
  moreover have "sq_phase (Some c) (fires (en_agenda ?s)) (sl_open ?s) [0]" using cn first op(1) by (simp add: sq_phase_def count_eq_zero_iff)
  moreover have "sq_served plan (fires (en_agenda ?s)) ?s q []" using sv op(1) by (simp add: sq_served_def)
  ultimately show ?thesis using sq_goodI[of plan "Some c" ?s q tr "[]" "[0]" d] by (simp add: sq_core_def)
qed

lemma requeue_good:
  assumes inv: "sq_inv plan crash (add_mset (EOwn QRequeue) (fires (en_agenda s))) s"
  shows "sq_good plan crash (sq_requeue plan now s)"
proof -
  obtain q tr b i d where c0: "sq_core plan crash (add_mset (EOwn QRequeue) (fires (en_agenda s))) s q tr b i d"
    and sv: "sq_served plan (add_mset (EOwn QRequeue) (fires (en_agenda s))) s q b" using inv by (auto simp: sq_inv_def)
  have sh: "sq_shape plan s q tr b i d" and bk: "sq_books plan (add_mset (EOwn QRequeue) (fires (en_agenda s))) s q tr b d"
    and ph: "sq_phase crash (add_mset (EOwn QRequeue) (fires (en_agenda s))) (sl_open s) i" using c0 by (auto simp: sq_core_def)
  have op: "\<not> sl_open s" and cn: "count (fires (en_agenda s)) (EOwn QCrash) = 0" "count (fires (en_agenda s)) (EOwn QRestart) = 0" "count (fires (en_agenda s)) (EOwn QRequeue) = 0"
    using ph by (auto simp: sq_phase_def Let_def split: if_splits)
  have b: "b = []" using bk op by (simp add: sq_books_def)
  let ?jobs = "sort_key (row_of s) (List.map_filter id tr)"
  have mj: "mset ?jobs = in_flight tr" by (simp add: in_flight_def)
  then obtain tr' where tr': "requeue_tray now ?jobs tr = Inr tr'" using requeue_tray_ok[of ?jobs tr now] by auto
  have f: "in_flight tr' = {#}" "length tr' = length tr" using requeue_tray_spec[OF tr'] mj by simp_all
  let ?s1 = "s\<lparr>en_events := en_events s @ [SRequeue now ?jobs], en_store := (en_store s)\<lparr>st_tray := tr', st_queue := ?jobs @ q\<rparr>, sl_open := True, sl_restarted := True\<rparr>"
  let ?at = "now + (case sq_rerunAfter plan of Some d \<Rightarrow> d | None \<Rightarrow> 0)"
  have "st_tray (en_store s) = tr" "st_queue (en_store s) = q" using sh by (simp_all add: sq_shape_def)
  hence "sq_requeue plan now s = Inr (sq_wake ?at ?s1)" using tr' by (simp add: sq_requeue_def Let_def emit_store_def)
  moreover have "sq_shape plan ?s1 (?jobs @ q) tr' [] i d" using sh f by (simp add: sq_shape_def b)
  moreover have "sq_books plan (fires (en_agenda ?s1)) ?s1 (?jobs @ q) tr' [] d"
    using bk f mj unfolding sq_books_def b by (simp add: ac_simps)
  moreover have "sq_phase crash (fires (en_agenda ?s1)) True i" using cn by (simp add: sq_phase_def)
  ultimately show ?thesis using wake_inv[of plan crash ?s1 "?jobs @ q" tr' "[]" i d ?at] sv by (simp add: sq_core_def sq_good_def sq_served_def)
qed

lemma land_good:
  assumes inv: "sq_inv plan crash (add_mset (EOwn (QLand j)) (fires (en_agenda s))) s"
  shows "sq_good plan crash (sq_land j now s)"
proof (cases "sl_open s")
  case False
  thus ?thesis by (simp add: sq_land_def sq_good_def)
next
  case True
  obtain q tr b i d where c0: "sq_core plan crash (add_mset (EOwn (QLand j)) (fires (en_agenda s))) s q tr b i d"
    and sv: "sq_served plan (add_mset (EOwn (QLand j)) (fires (en_agenda s))) s q b" using inv by (auto simp: sq_inv_def)
  let ?s1 = "s\<lparr>sl_row := AList.update (sj_id j) (length (sl_row s)) (sl_row s), en_events := en_events s @ [SLand now (sj_id j)],
     en_store := (en_store s)\<lparr>st_queue := q @ [sj_id j]\<rparr>\<rparr>"
  have r: "sq_land j now s = Inr (if sl_looking s then sq_wake now ?s1 else ?s1)"
    using True c0 by (simp add: sq_land_def emit_store_def sq_core_def sq_shape_def)
  have "sq_shape plan ?s1 (q @ [sj_id j]) tr b i d" using c0 by (simp add: sq_core_def sq_shape_def)
  moreover have "sq_books plan (fires (en_agenda ?s1)) ?s1 (q @ [sj_id j]) tr b d"
    using c0 unfolding sq_core_def sq_books_def by simp
  moreover have "sq_phase crash (fires (en_agenda ?s1)) (sl_open s) i"
    by (rule phase_move[of crash "add_mset (EOwn (QLand j)) (fires (en_agenda s))" _ i]) (use c0 in \<open>simp_all add: sq_core_def\<close>)
  ultimately have core: "sq_core plan crash (fires (en_agenda ?s1)) ?s1 (q @ [sj_id j]) tr b i d" by (simp add: sq_core_def)
  have lk: "sl_looking ?s1 \<or> EOwn QFirst \<in># fires (en_agenda ?s1)" using sv by (simp add: sq_served_def)
  show ?thesis
  proof (cases "sl_looking s")
    case True
    thus ?thesis using r wake_inv[OF core lk, of now] by (simp add: sq_good_def)
  next
    case False
    hence "sq_served plan (fires (en_agenda ?s1)) ?s1 (q @ [sj_id j]) b" using lk by (simp add: sq_served_def)
    thus ?thesis using r False sq_goodI[OF core] by simp
  qed
qed

section \<open>The run\<close>

text \<open>The crash is timed before the restart.\<close>

definition crash_first :: "SqFire EFire Agenda \<Rightarrow> bool" where
  "crash_first ag \<longleftrightarrow> sorted (map timer_key (timers ag))
    \<and> (\<forall>t\<in>set (timers ag). \<forall>u\<in>set (timers ag). t_fire t = EOwn QCrash \<longrightarrow> t_fire u = EOwn QRestart \<longrightarrow> timer_key t < timer_key u)"

lemma crash_first_set:
  "crash_first ag \<Longrightarrow> f \<noteq> EOwn QCrash \<Longrightarrow> f \<noteq> EOwn QRestart \<Longrightarrow> crash_first (set_timer at f ag)"
  unfolding crash_first_def set_timer_set by (simp add: set_timer_def)

lemma crash_first_take:
  assumes "store_take tt now w job work s = Inr s'" "crash_first (en_agenda s)"
  shows "crash_first (en_agenda s')"
proof -
  obtain s2 f where "en_agenda s2 = en_agenda s" "s' = store_timer (now + tt + work) f s2" "f \<noteq> EOwn QCrash" "f \<noteq> EOwn QRestart"
    using assms(1) unfolding store_take_def Let_def bindE_Inr by (fastforce split: if_splits dest: emit_store_fields(1))
  thus ?thesis using assms(2) by (simp add: crash_first_set)
qed

lemma crash_first_takes: "sq_takes plan crash now jobs s = Inr s' \<Longrightarrow> crash_first (en_agenda s) \<Longrightarrow> crash_first (en_agenda s')"
  by (induction jobs arbitrary: s) (auto simp: bindE_Inr dest: crash_first_take)

lemma exit_all_agenda: "exit_all now c rs s = Inr s' \<Longrightarrow> en_agenda s' = en_agenda s"
  by (induction rs arbitrary: s) (auto simp: bindE_Inr dest!: emit_store_fields(1))

lemma crash_first_fire:
  assumes f: "sq_fire plan crash f now s = Inr s'" and ag: "crash_first (en_agenda s)"
  shows "crash_first (en_agenda s')"
  using f
proof (cases "(plan, crash, f, now, s)" rule: sq_fire.cases)
  case (1 _ _ w d job ring)
  thus ?thesis using f ag by (auto simp: take_done_def bindE_Inr crash_first_set split: if_splits dest!: emit_store_fields(1))
next
  case (2 _ _ w job ring)
  thus ?thesis using f ag by (auto simp: take_ack_def bindE_Inr Let_def sq_wake_def crash_first_set split: if_splits dest!: emit_store_fields(1))
next
  case 3
  thus ?thesis using f ag by (auto simp: sq_claim_def split: if_splits dest: crash_first_takes)
next
  case 4
  thus ?thesis using f ag by (auto simp: sq_crash_def bindE_Inr Let_def die_def split: option.splits dest!: emit_store_fields(1) exit_all_agenda)
next
  case 5
  thus ?thesis using f ag by (cases crash) (auto simp: sq_restart_def bindE_Inr crash_first_set dest!: emit_store_fields(1))
next
  case 6
  thus ?thesis using f ag by (auto simp: sq_requeue_def bindE_Inr Let_def sq_wake_def crash_first_set dest!: emit_store_fields(1))
next
  case (7 _ _ j)
  thus ?thesis using f ag by (auto simp: sq_land_def bindE_Inr sq_wake_def crash_first_set split: if_splits dest!: emit_store_fields(1))
next
  case 8
  thus ?thesis using f ag by (auto simp: sq_wake_def crash_first_set)
qed

definition sq_run_ok :: "SqlitePlan \<Rightarrow> CrashSpec option \<Rightarrow> SqliteSim \<Rightarrow> bool" where
  "sq_run_ok plan crash s \<longleftrightarrow> sq_inv plan crash (fires (en_agenda s)) s \<and> crash_first (en_agenda s)"

lemma inv_agenda: "sq_inv plan crash M (s\<lparr>en_agenda := ag\<rparr>) \<longleftrightarrow> sq_inv plan crash M s"
  by (simp add: sq_inv_def sq_core_def sq_shape_def sq_books_def sq_served_def)

lemma fire_good:
  assumes ok: "sq_run_ok plan crash s" and t: "timers (en_agenda s) = t # ts"
    and plan: "distinct (sq_ids plan)" "'''' \<notin> set (sq_ids plan)" "1 \<le> sq_limit plan" "sq_limit plan \<le> int SLOTS"
  shows "sq_good plan crash (sq_fire plan crash (t_fire t) (t_at t) (s\<lparr>en_agenda := (en_agenda s)\<lparr>timers := ts\<rparr>\<rparr>))"
proof -
  let ?s = "s\<lparr>en_agenda := (en_agenda s)\<lparr>timers := ts\<rparr>\<rparr>"
  have inv: "sq_inv plan crash (add_mset (t_fire t) (fires (en_agenda ?s))) ?s" using ok fires_Cons[OF t] by (simp add: sq_run_ok_def inv_agenda)
  show ?thesis
  proof (cases "(plan, crash, t_fire t, t_at t, ?s)" rule: sq_fire.cases)
    case (1 _ _ w d job ring)
    thus ?thesis using inv done_good[of plan crash w d job ring ?s "sq_ackTravel plan" "t_at t"] by simp
  next
    case (2 _ _ w job ring)
    thus ?thesis using inv ack_good[of plan crash w job ring ?s "t_at t"] plan(1) by simp
  next
    case 3
    thus ?thesis using inv claim_good[of plan crash ?s "t_at t"] plan(3,4) by simp
  next
    case 4
    thus ?thesis using inv crash_good[of plan crash ?s "t_at t"] plan(2,3) by simp
  next
    case 5
    hence tf: "t_fire t = EOwn QRestart" by simp
    have "EOwn QCrash \<notin># fires (en_agenda ?s)"
    proof
      assume "EOwn QCrash \<in># fires (en_agenda ?s)"
      then obtain u where u: "u \<in> set ts" "t_fire u = EOwn QCrash" by (auto simp: fires_def)
      have "timer_key u < timer_key t" "timer_key t \<le> timer_key u" using ok u tf by (auto simp: sq_run_ok_def crash_first_def t)
      thus False by auto
    qed
    moreover have "crash \<noteq> None" using inv unfolding tf by (auto simp: sq_inv_def sq_core_def sq_phase_def Let_def split: if_splits)
    ultimately show ?thesis using inv tf sq_restart_good[of plan _ ?s "t_at t"] by auto
  next
    case 6
    thus ?thesis using inv requeue_good[of plan crash ?s "t_at t"] by simp
  next
    case (7 _ _ j)
    thus ?thesis using inv land_good[of plan crash j ?s "t_at t"] by simp
  next
    case 8
    thus ?thesis using inv first_good[of plan crash ?s "t_at t"] by simp
  qed
qed

lemma fire_keeps:
  assumes "sq_run_ok plan crash s" "timers (en_agenda s) = t # ts" "sq_plan_ok plan" "sq_limit plan \<le> int SLOTS"
    "sq_fire plan crash (t_fire t) (t_at t) (s\<lparr>en_agenda := (en_agenda s)\<lparr>timers := ts\<rparr>\<rparr>) = Inr s'"
  shows "sq_run_ok plan crash s'"
proof -
  have "sq_good plan crash (Inr s')" using fire_good[OF assms(1,2), of] assms(3-5) by (simp add: sq_plan_ok_def)
  moreover have "crash_first ((en_agenda s)\<lparr>timers := ts\<rparr>)" using assms(1,2) by (auto simp: sq_run_ok_def crash_first_def)
  ultimately show ?thesis using crash_first_fire[OF assms(5)] by (simp add: sq_run_ok_def sq_good_def)
qed

text \<open>The start.\<close>

lemma fold_lands:
  "fires (en_agenda (fold (\<lambda>j. store_timer (sj_at j) (EOwn (QLand j))) js s)) = image_mset (\<lambda>j. EOwn (QLand j)) (mset js) + fires (en_agenda s)"
  "en_store (fold (\<lambda>j. store_timer (sj_at j) (EOwn (QLand j))) js s) = en_store s"
  "en_crew (fold (\<lambda>j. store_timer (sj_at j) (EOwn (QLand j))) js s) = en_crew s"
  "en_events (fold (\<lambda>j. store_timer (sj_at j) (EOwn (QLand j))) js s) = en_events s"
  "sl_open (fold (\<lambda>j. store_timer (sj_at j) (EOwn (QLand j))) js s) = sl_open s"
  "sl_looking (fold (\<lambda>j. store_timer (sj_at j) (EOwn (QLand j))) js s) = sl_looking s"
  "sl_row (fold (\<lambda>j. store_timer (sj_at j) (EOwn (QLand j))) js s) = sl_row s"
  "crash_first (en_agenda s) \<Longrightarrow> crash_first (en_agenda (fold (\<lambda>j. store_timer (sj_at j) (EOwn (QLand j))) js s))"
  by (induction js arbitrary: s) (auto simp: crash_first_set)

lemma lands_books:
  "fire_jobs sq_lands (image_mset (\<lambda>j. EOwn (QLand j)) (mset js) + M) = mset (map sj_id js) + fire_jobs sq_lands M"
  "fire_jobs (live_of d) (image_mset (\<lambda>j. EOwn (QLand j)) (mset js) + M) = fire_jobs (live_of d) M"
  "fire_jobs ack_of (image_mset (\<lambda>j. EOwn (QLand j)) (mset js) + M) = fire_jobs ack_of M"
  "count (image_mset (\<lambda>j. EOwn (QLand j)) (mset js)) (EOwn QCrash) = 0"
  "count (image_mset (\<lambda>j. EOwn (QLand j)) (mset js)) (EOwn QRestart) = 0"
  "count (image_mset (\<lambda>j. EOwn (QLand j)) (mset js)) (EOwn QRequeue) = 0"
  by (induction js) auto

lemma start_ok:
  assumes "distinct (sq_idle plan)" "1 \<le> sq_limit plan" "\<And>c. crash = Some c \<Longrightarrow> cs_crashAt c \<le> cs_restartAt c"
  shows "sq_run_ok plan crash (sq_start plan crash)"
proof -
  let ?s = "sq_start plan crash"
  let ?C = "if crash = None then {#} else {#EOwn QRestart, EOwn QCrash#}"
  have f: "fires (en_agenda ?s) = add_mset (EOwn QFirst) (image_mset (\<lambda>j. EOwn (QLand j)) (mset (sq_jobs plan)) + ?C)"
    by (cases crash) (simp_all add: sq_start_def Let_def fold_lands)
  have e: "fire_jobs g {#} = {#}" for g :: "SqFire EFire \<Rightarrow> 'z option" by (simp add: fire_jobs_def)
  have st: "en_store ?s = \<lparr>st_queue = [], st_tray = replicate SLOTS None, st_rings = Some [(''sqlite'', \<lparr>rg_busy = [], rg_idle = sq_idle plan\<rparr>)]\<rparr>"
    "en_crew ?s = [\<lparr>wk_id = ''sqlite'', wk_limit = sq_limit plan, wk_deaths = 0\<rparr>]" "en_events ?s = []" "sl_open ?s" "\<not> sl_looking ?s"
    by (cases crash; simp add: sq_start_def Let_def fold_lands fresh_store_def fresh_rings_def)+
  have "sq_shape plan ?s [] (replicate SLOTS None) [] (sq_idle plan) 0" using assms(1) by (simp add: sq_shape_def st)
  moreover have "sq_books plan (fires (en_agenda ?s)) ?s [] (replicate SLOTS None) [] 0"
    using assms(2) unfolding sq_books_def f by (auto simp: st lands_books e)
  moreover have "sq_phase crash (fires (en_agenda ?s)) True (sq_idle plan)" by (auto simp: sq_phase_def f lands_books)
  moreover have "sq_served plan (fires (en_agenda ?s)) ?s [] []" by (simp add: sq_served_def st f)
  ultimately have "sq_good plan crash (Inr ?s)" using sq_goodI[of plan crash ?s "[]" "replicate SLOTS None" "[]" "sq_idle plan" 0] st(4) by (simp add: sq_core_def)
  moreover have "crash_first (en_agenda ?s)"
  proof -
    have "crash_first no_timers" by (simp add: crash_first_def no_timers_def)
    moreover have "crash_first (set_timer (cs_restartAt c) (EOwn QRestart) (set_timer (cs_crashAt c) (EOwn QCrash) no_timers))" if "crash = Some c" for c
      using assms(3)[OF that] by (auto simp: crash_first_def set_timer_def no_timers_def)
    ultimately show ?thesis by (cases crash) (auto simp: sq_start_def Let_def fold_lands crash_first_set)
  qed
  ultimately show ?thesis by (simp add: sq_run_ok_def sq_good_def)
qed

text \<open>What a run of a well-formed plan ends in, and what may stop it.\<close>

lemma sqlite_run_cases:
  assumes "sqlite_run plan = Some r"
  obtains "r = Inl (TooManyRings (sq_limit plan))" | e where "crashOf plan = Inl e" "r = Inl e"
  | crash where "sq_limit plan \<le> int SLOTS" "crashOf plan = Inr crash" "des_run en_agenda put_engine (sq_fire plan crash) (sq_start plan crash) = Some r"
  using assms by (fastforce simp: sqlite_run_def split: if_splits sum.splits)

lemma crashOf_part: "crashOf plan = Inl e \<Longrightarrow> documented e"
  by (auto simp: crashOf_def Let_def split: if_splits option.splits)

lemma sqlite_refusals:
  assumes "sq_plan_ok plan" "sqlite_run plan = Some (Inl e)"
  shows "documented e"
  using assms(2)
proof (cases rule: sqlite_run_cases)
  case (3 crash)
  obtain s t ts where s: "sq_run_ok plan crash s" "timers (en_agenda s) = t # ts"
    "sq_fire plan crash (t_fire t) (t_at t) (s\<lparr>en_agenda := (en_agenda s)\<lparr>timers := ts\<rparr>\<rparr>) = Inl e"
  proof (rule sqlite.run_error[OF 3(3), of "sq_run_ok plan crash"])
    show "sq_run_ok plan crash (sq_start plan crash)" by (rule start_ok) (use assms(1) 3(2) in \<open>auto simp: sq_plan_ok_def\<close>)
    show "\<And>s t ts s'. sq_run_ok plan crash s \<Longrightarrow> timers (en_agenda s) = t # ts \<Longrightarrow>
      sq_fire plan crash (t_fire t) (t_at t) (s\<lparr>en_agenda := (en_agenda s)\<lparr>timers := ts\<rparr>\<rparr>) = Inr s' \<Longrightarrow> sq_run_ok plan crash s'"
      using fire_keeps assms(1) 3(1) by blast
  qed
  thus ?thesis using fire_good[OF s(1,2)] assms(1) 3(1) s(3) by (auto simp: sq_plan_ok_def sq_good_def)
qed (auto dest: crashOf_part)

lemma sqlite_end:
  assumes "sq_plan_ok plan" "sqlite_run plan = Some (Inr s)"
  shows "mset (acks (en_events s)) = mset (sq_ids plan)" "st_queue (en_store s) = []" "in_flight (st_tray (en_store s)) = {#}"
proof -
  obtain crash where c: "sq_limit plan \<le> int SLOTS" "crashOf plan = Inr crash"
    "des_run en_agenda put_engine (sq_fire plan crash) (sq_start plan crash) = Some (Inr s)" using assms(2) by (cases rule: sqlite_run_cases) auto
  have "sq_run_ok plan crash s \<and> timers (en_agenda s) = []"
  proof (rule sqlite.run_invariant[OF c(3), of "sq_run_ok plan crash"])
    show "sq_run_ok plan crash (sq_start plan crash)" by (rule start_ok) (use assms(1) c(2) in \<open>auto simp: sq_plan_ok_def\<close>)
  qed (use fire_keeps assms(1) c(1) in blast)
  hence "sq_inv plan crash {#} s" unfolding sq_run_ok_def fires_empty by metis
  then obtain q tr b i d where inv: "sq_core plan crash {#} s q tr b i d" "sq_served plan {#} s q b" by (auto simp: sq_inv_def)
  have e: "fire_jobs g {#} = {#}" for g :: "SqFire EFire \<Rightarrow> 'z option" by (simp add: fire_jobs_def)
  have op: "sl_open s" using inv(1) by (auto simp: sq_core_def sq_phase_def split: if_splits)
  have b: "b = []" using inv(1) by (simp add: sq_core_def sq_books_def e)
  have q: "q = []" using inv(2) op b assms(1) by (auto simp: sq_served_def sq_plan_ok_def)
  have t: "in_flight tr = {#}" using inv(1) op b by (simp add: sq_core_def sq_books_def)
  show "mset (acks (en_events s)) = mset (sq_ids plan)" using inv(1) q t by (simp add: sq_core_def sq_books_def e)
  show "st_queue (en_store s) = []" "in_flight (st_tray (en_store s)) = {#}" using inv(1) q t by (simp_all add: sq_core_def sq_shape_def)
qed

section \<open>The queue is in write order\<close>

text \<open>
  With \<open>L\<close> the jobs in the order they were written: it splits so that every record in flight is in the first part, and
  the queue is a subsequence of the second. In every state so far the queue was a subsequence of \<open>L\<close>.
\<close>

definition write_order :: "Store \<Rightarrow> ('f, 'm) Engine_scheme \<Rightarrow> bool" where
  "write_order v0 s \<longleftrightarrow>
     (\<exists>L1 L2. landings (en_events s) = L1 @ L2 \<and> subseq (st_queue (en_store s)) L2 \<and> {j. Some j \<in> set (st_tray (en_store s))} \<subseteq> set L1)
   \<and> store_log.faithful v0 s \<and> store_log.always (\<lambda>v. subseq (st_queue v) (landings (en_events s))) v0 s"

lemma always_more:
  "store_log.always P v0 s \<Longrightarrow> (\<And>v. P v \<Longrightarrow> Q v) \<Longrightarrow> store_log.always Q v0 s"
  unfolding store_log.always_def by blast

lemma order_emit:
  assumes s: "write_order v0 s" and e: "emit_store e s = Inr s'"
    and new: "\<And>L1 L2. landings (en_events s) = L1 @ L2 \<Longrightarrow> subseq (st_queue (en_store s)) L2 \<Longrightarrow> {j. Some j \<in> set (st_tray (en_store s))} \<subseteq> set L1
      \<Longrightarrow> \<exists>M1 M2. landings (en_events s @ [e]) = M1 @ M2 \<and> subseq (st_queue (en_store s')) M2 \<and> {j. Some j \<in> set (st_tray (en_store s'))} \<subseteq> set M1"
  shows "write_order v0 s'"
proof -
  note f = emit_store_fields[OF e]
  have ex: "\<exists>M1 M2. landings (en_events s') = M1 @ M2 \<and> subseq (st_queue (en_store s')) M2 \<and> {j. Some j \<in> set (st_tray (en_store s'))} \<subseteq> set M1"
    using s new unfolding write_order_def f(3) by blast
  have fa: "store_log.faithful v0 s" and al: "store_log.always (\<lambda>v. subseq (st_queue v) (landings (en_events s))) v0 s" using s by (simp_all add: write_order_def)
  have "store_log.always (\<lambda>v. subseq (st_queue v) (landings (en_events s'))) v0 s"
    by (rule always_more[OF al]) (simp add: f(3) del: log_simps(5), metis list_emb_append2 subseq_append subseq_drop_many subseq_rev_drop_many append.assoc append_Nil2)
  moreover have "subseq (st_queue (en_store s')) (landings (en_events s'))" using ex by (metis subseq_drop_many)
  ultimately have "store_log.always (\<lambda>v. subseq (st_queue v) (landings (en_events s'))) v0 s'" by (intro store_log.always_emit[OF fa _ e])
  thus ?thesis using ex store_log.faithful_emit[OF fa e] by (simp add: write_order_def)
qed

lemma order_frame:
  assumes "write_order v0 s" "en_store s' = en_store s" "en_events s' = en_events s"
  shows "write_order v0 s'"
  using assms by (simp add: write_order_def store_log.faithful_def store_log.always_def)

lemma order_quiet:
  assumes "write_order v0 s" "emit_store e s = Inr s'" "landed_job e = None" "st_queue (en_store s') = st_queue (en_store s)"
    "{j. Some j \<in> set (st_tray (en_store s'))} \<subseteq> {j. Some j \<in> set (st_tray (en_store s))}"
  shows "write_order v0 s'"
  by (rule order_emit[OF assms(1,2)]) (use assms(3-5) in auto)

lemma apply_views:
  "store_apply (SLand at job) v = Inr v' \<Longrightarrow> st_queue v' = st_queue v @ [job] \<and> st_tray v' = st_tray v"
  "store_apply (SAck at job tray) v = Inr v' \<Longrightarrow> st_queue v' = st_queue v \<and> st_tray v' = (st_tray v)[nat tray := None]"
  "store_apply (SRequeue at jobs) v = Inr v' \<Longrightarrow> requeue_tray at jobs (st_tray v) = Inr (st_tray v') \<and> st_queue v' = jobs @ st_queue v"
  "store_apply (SSpawn at c r) v = Inr v' \<Longrightarrow> st_queue v' = st_queue v \<and> st_tray v' = st_tray v"
  "store_apply (SExit at c r) v = Inr v' \<Longrightarrow> st_queue v' = st_queue v \<and> st_tray v' = st_tray v"
  "store_apply (SDone at job c r) v = Inr v' \<Longrightarrow> st_queue v' = st_queue v \<and> st_tray v' = st_tray v"
  "store_apply (SCrash at x) v = Inr v' \<Longrightarrow> st_queue v' = st_queue v \<and> st_tray v' = st_tray v"
  "store_apply (SRestart at x) v = Inr v' \<Longrightarrow> st_queue v' = st_queue v \<and> st_tray v' = st_tray v"
  by (auto simp: bindE_Inr split: if_splits dest: ring_queue ring_only)

lemma order_ring:
  assumes "write_order v0 s" "emit_store e s = Inr s'" "e = SSpawn at c r \<or> e = SExit at c r \<or> e = SDone at j c r \<or> e = SCrash at x \<or> e = SRestart at x"
  shows "write_order v0 s'"
proof -
  have "st_queue (en_store s') = st_queue (en_store s) \<and> st_tray (en_store s') = st_tray (en_store s)"
    using emit_store_fields(4)[OF assms(2)] assms(3) apply_views(4-8) by metis
  moreover have "landed_job e = None" using assms(3) by auto
  ultimately show ?thesis by (intro order_quiet[OF assms(1,2)]) auto
qed

lemma order_ack:
  assumes "write_order v0 s" "emit_store (SAck at job tray) s = Inr s'"
  shows "write_order v0 s'"
  by (rule order_quiet[OF assms]) (use apply_views(2)[OF emit_store_fields(4)[OF assms(2)]] in \<open>auto dest: set_update_subset_insert[THEN subsetD]\<close>)

lemma order_land:
  assumes "write_order v0 s" "emit_store (SLand at job) s = Inr s'"
  shows "write_order v0 s'"
proof (rule order_emit[OF assms])
  fix L1 L2 assume "landings (en_events s) = L1 @ L2" "subseq (st_queue (en_store s)) L2" "{j. Some j \<in> set (st_tray (en_store s))} \<subseteq> set L1"
  moreover have "st_queue (en_store s') = st_queue (en_store s) @ [job]" "st_tray (en_store s') = st_tray (en_store s)" using apply_views(1)[OF emit_store_fields(4)[OF assms(2)]] by auto
  ultimately show "\<exists>M1 M2. landings (en_events s @ [SLand at job]) = M1 @ M2 \<and> subseq (st_queue (en_store s')) M2 \<and> {j. Some j \<in> set (st_tray (en_store s'))} \<subseteq> set M1"
    by (intro exI[of _ L1] exI[of _ "L2 @ [job]"]) auto
qed

lemma order_take:
  assumes "write_order v0 s" "emit_store (STake at job c ring tray) s = Inr s'" "st_queue (en_store s) = job # q"
  shows "write_order v0 s' \<and> st_queue (en_store s') = q"
proof -
  obtain u where u: "take_record at job tray (en_store s) = Inr u" "take_ring at job c ring u = Inr (en_store s')"
    using emit_store_fields(4)[OF assms(2)] by (auto simp: bindE_Inr)
  have uq: "st_queue u = q" "st_tray u = (st_tray (en_store s))[nat tray := Some job]" using u(1) assms(3) by (auto simp: take_record_def splice_out_def split: if_splits)
  have q: "st_queue (en_store s') = q" "st_tray (en_store s') = (st_tray (en_store s))[nat tray := Some job]"
    using ring_queue(2)[OF u(2)] ring_only(2)[OF u(2)] uq by auto
  have "write_order v0 s'"
  proof (rule order_emit[OF assms(1,2)])
    fix L1 L2 assume L: "landings (en_events s) = L1 @ L2" "subseq (st_queue (en_store s)) L2" "{j. Some j \<in> set (st_tray (en_store s))} \<subseteq> set L1"
    then obtain A B where "L2 = A @ job # B" "subseq q B" using list_emb_ConsD[of "(=)" job q L2] assms(3) by auto
    moreover have "{j. Some j \<in> set (st_tray (en_store s'))} \<subseteq> insert job (set L1)" using q(2) L(3) set_update_subset_insert[of "st_tray (en_store s)" "nat tray" "Some job"] by auto
    ultimately show "\<exists>M1 M2. landings (en_events s @ [STake at job c ring tray]) = M1 @ M2 \<and> subseq (st_queue (en_store s')) M2 \<and> {j. Some j \<in> set (st_tray (en_store s'))} \<subseteq> set M1"
      using L(1) q(1) by (intro exI[of _ "L1 @ A @ [job]"] exI[of _ B]) auto
  qed
  thus ?thesis using q(1) by simp
qed

lemma order_requeue:
  assumes "write_order v0 s" "emit_store (SRequeue at jobs) s = Inr s'" "mset jobs = in_flight (st_tray (en_store s))"
    and sub: "\<And>L1 L2. landings (en_events s) = L1 @ L2 \<Longrightarrow> set jobs \<subseteq> set L1 \<Longrightarrow> subseq jobs L1"
  shows "write_order v0 s'"
proof (rule order_emit[OF assms(1,2)])
  fix L1 L2 assume L: "landings (en_events s) = L1 @ L2" "subseq (st_queue (en_store s)) L2" "{j. Some j \<in> set (st_tray (en_store s))} \<subseteq> set L1"
  obtain tray where t: "requeue_tray at jobs (st_tray (en_store s)) = Inr tray" "st_tray (en_store s') = tray" "st_queue (en_store s') = jobs @ st_queue (en_store s)"
    using apply_views(3)[OF emit_store_fields(4)[OF assms(2)]] by auto
  have "in_flight tray = {#}" using requeue_tray_spec[OF t(1)] assms(3) by simp
  hence "{j. Some j \<in> set tray} = {}" by (metis set_in_flight set_mset_empty)
  moreover have "subseq jobs L1" using sub[OF L(1)] L(3) assms(3) by (metis set_in_flight set_mset_mset)
  hence "subseq (jobs @ st_queue (en_store s)) (L1 @ L2)" using L(2) by (rule list_emb_append_mono)
  ultimately show "\<exists>M1 M2. landings (en_events s @ [SRequeue at jobs]) = M1 @ M2 \<and> subseq (st_queue (en_store s')) M2 \<and> {j. Some j \<in> set (st_tray (en_store s'))} \<subseteq> set M1"
    using L(1) t(2,3) by (intro exI[of _ "[]"] exI[of _ "L1 @ L2"]) auto
qed

text \<open>The rows: a job's row id is its place in write order.\<close>

definition rows_ok :: "SqliteSim \<Rightarrow> bool" where
  "rows_ok s \<longleftrightarrow> sl_row s = zip (landings (en_events s)) [0..<length (landings (en_events s))]"

definition in_order_so_far :: "Store \<Rightarrow> SqliteSim \<Rightarrow> bool" where
  "in_order_so_far v0 s \<longleftrightarrow> write_order v0 s \<and> rows_ok s"

lemma rows_emit:
  fixes s :: SqliteSim
  assumes "rows_ok s" "emit_store e s = Inr s'" "landed_job e = None"
  shows "rows_ok s'"
  using assms by (auto simp: rows_ok_def elim!: emit_storeD)

lemma order_ring_rows:
  assumes "in_order_so_far v0 s" "emit_store e s = Inr s'" "e = SSpawn at c r \<or> e = SExit at c r \<or> e = SDone at j c r \<or> e = SCrash at x \<or> e = SRestart at x"
  shows "in_order_so_far v0 s'"
  using assms(1) order_ring[OF _ assms(2,3)] rows_emit[OF _ assms(2)] assms(3) by (auto simp: in_order_so_far_def)

lemma order_frame_rows:
  "in_order_so_far v0 s \<Longrightarrow> en_store s' = en_store s \<Longrightarrow> en_events s' = en_events s \<Longrightarrow> sl_row s' = sl_row s \<Longrightarrow> in_order_so_far v0 s'"
  using order_frame[of v0 s s'] by (simp add: in_order_so_far_def rows_ok_def)

lemma order_timer [simp]: "in_order_so_far v0 (store_timer at f s) \<longleftrightarrow> in_order_so_far v0 s"
  using order_frame_rows[of v0 s "store_timer at f s"] order_frame_rows[of v0 "store_timer at f s" s] by auto

lemma order_store_take:
  fixes s s' :: SqliteSim
  assumes "in_order_so_far v0 s" "store_take tt now w job work s = Inr s'" "st_queue (en_store s) = job # q"
  shows "in_order_so_far v0 s' \<and> st_queue (en_store s') = q"
proof -
  let ?c = "wk_id (en_crew s ! w)"
  obtain s1 ring tray s2 d where s1: "(if rg_idle (rings_at s w) = [] then emit_store (SSpawn now ?c (lowestFreeRing (map fst (rg_busy (rings_at s w))))) s else Inr s) = Inr s1"
    and s2: "emit_store (STake now job ?c ring tray) s1 = Inr s2" and s': "s' = store_timer (now + tt + work) (EDone w d job ring) s2"
    using assms(2) unfolding store_take_def Let_def bindE_Inr by (metis Inr_inject)
  have o1: "in_order_so_far v0 s1 \<and> st_queue (en_store s1) = job # q"
  proof (cases "rg_idle (rings_at s w) = []")
    case True
    hence e: "emit_store (SSpawn now ?c (lowestFreeRing (map fst (rg_busy (rings_at s w))))) s = Inr s1" using s1 by simp
    show ?thesis using order_ring_rows[OF assms(1) e] apply_views(4)[OF emit_store_fields(4)[OF e]] assms(3) by auto
  qed (use s1 assms(1,3) in simp)
  have "write_order v0 s2 \<and> st_queue (en_store s2) = q" using order_take[OF _ s2] o1 by (auto simp: in_order_so_far_def)
  moreover have "rows_ok s2" using rows_emit[OF _ s2] o1 by (simp add: in_order_so_far_def)
  ultimately have "in_order_so_far v0 s2 \<and> st_queue (en_store s2) = q" by (simp add: in_order_so_far_def)
  thus ?thesis unfolding s' by simp
qed

lemma order_takes:
  "in_order_so_far v0 s \<Longrightarrow> sq_takes plan crash now jobs s = Inr s' \<Longrightarrow> st_queue (en_store s) = jobs @ rest \<Longrightarrow> in_order_so_far v0 s'"
proof (induction jobs arbitrary: s)
  case (Cons job jobs)
  then obtain d s1 where s1: "store_take (sq_takeTravel plan) now 0 job d s = Inr s1" "sq_takes plan crash now jobs s1 = Inr s'" by (auto simp: bindE_Inr)
  have "in_order_so_far v0 s1 \<and> st_queue (en_store s1) = jobs @ rest" using order_store_take[OF Cons.prems(1) s1(1)] Cons.prems(3) by simp
  thus ?case using Cons.IH[OF _ s1(2)] by blast
qed simp

lemma order_exits: "in_order_so_far v0 s \<Longrightarrow> exit_all now c rs s = Inr s' \<Longrightarrow> in_order_so_far v0 s'"
proof (induction rs arbitrary: s)
  case (Cons r rs)
  then obtain s1 where s1: "emit_store (SExit now c r) s = Inr s1" "exit_all now c rs s1 = Inr s'" by (auto simp: bindE_Inr)
  show ?case using Cons.IH[OF order_ring_rows[OF Cons.prems(1) s1(1)] s1(2)] by blast
qed simp

lemma slice_prefix: "\<exists>rest. xs = slice_to n xs @ rest"
  unfolding slice_to_def by (metis append_take_drop_id)

lemma sorted_rows_subseq:
  assumes "rows_ok s" "distinct (landings (en_events s))" "landings (en_events s) = L1 @ L2" "distinct xs" "set xs \<subseteq> set L1"
  shows "subseq (sort_key (row_of s) xs) L1"
proof -
  let ?L = "landings (en_events s)"
  have row: "row_of s (?L ! i) = i" if "i < length ?L" for i
    using that assms(1,2) map_of_zip_nth[of ?L "[0..<length ?L]" i] by (simp add: row_of_def rows_ok_def)
  have "map (row_of s) ?L = [0..<length ?L]" by (rule nth_equalityI) (simp_all add: row)
  hence m: "sorted (map (row_of s) L1)" "distinct (map (row_of s) L1)" using assms(3) sorted_upt[of 0 "length ?L"] distinct_upt[of 0 "length ?L"]
    by (metis map_append sorted_append, metis distinct_append map_append)
  let ?ys = "filter (\<lambda>x. x \<in> set xs) L1"
  have "mset ?ys = mset xs" using assms(2-5) by (intro set_eq_iff_mset_eq_distinct[THEN iffD1]) auto
  moreover have "inj_on (row_of s) (set xs)" using m(2) assms(5) by (metis distinct_map inj_on_subset)
  ultimately have "sort_key (row_of s) xs = ?ys" using m(1) by (intro sort_key_inj_key_eq) (auto simp: sorted_filter)
  thus ?thesis by (simp add: subseq_filter_left)
qed

text \<open>Landings are jobs of the plan, each once.\<close>

lemma landings_distinct:
  assumes "sq_inv plan crash M s" "store_log.faithful v0 s" "records v0 = {#}" "distinct (sq_ids plan)"
  shows "distinct (landings (en_events s))"
proof -
  have "records (en_store s) + mset (acks (en_events s)) = mset (landings (en_events s))"
    using replay_records[of "en_events s" v0 "en_store s"] assms(2,3) by (simp add: store_log.faithful_def)
  moreover obtain q tr b i d where "sq_core plan crash M s q tr b i d" using assms(1) by (auto simp: sq_inv_def)
  hence "records (en_store s) + mset (acks (en_events s)) + fire_jobs sq_lands M = mset (sq_ids plan)"
    by (simp add: sq_core_def sq_books_def sq_shape_def records_def)
  ultimately have "mset (landings (en_events s)) \<subseteq># mset (sq_ids plan)" by (metis mset_subset_eq_add_left)
  thus ?thesis using assms(4) by (rule distinct_submset)
qed

end
