(* ===== verification/Hero_Sqlite_Props.thy ===== *)
theory Hero_Sqlite_Props
  imports Hero_Sqlite
begin

text \<open>
  The properties of the stores: what any accepted log keeps, that both simulations return, and what \<open>simulateSqlite\<close>
  promises on a well-formed plan.
\<close>

section \<open>The queue stays in write order through every firing\<close>

lemma fire_order:
  assumes "in_order_so_far v0 s" "sq_fire plan crash f now s = Inr s'" "records v0 = {#}" "distinct (sq_ids plan)"
    and inv: "sq_inv plan crash M s" "sq_inv plan crash M' s'"
  shows "in_order_so_far v0 s'"
  using assms(2)
proof (cases "(plan, crash, f, now, s)" rule: sq_fire.cases)
  case (1 _ _ w d job ring)
  thus ?thesis using assms(1,2) by (auto simp: take_done_def bindE_Inr split: if_splits dest: order_ring_rows)
next
  case (2 _ _ w job ring)
  then obtain s1 s2 t where s1: "emit_store (SAck now job t) s = Inr s1" and s2: "emit_store (SExit now (wk_id (en_crew s1 ! w)) ring) s1 = Inr s2 \<or> s2 = s1"
    and s': "s' = sq_wake now s2"
    using assms(2) by (auto simp: take_ack_def bindE_Inr Let_def split: if_splits)
  have "in_order_so_far v0 s1" using order_ack[OF _ s1] rows_emit[OF _ s1] assms(1) by (simp add: in_order_so_far_def)
  thus ?thesis using s2 order_ring_rows[of v0 s1 _ s2] by (auto simp: s' sq_wake_def)
next
  case 3
  thus ?thesis using assms(1,2) slice_prefix[of "st_queue (en_store s)" "credit s 0"]
    by (auto simp: sq_claim_def split: if_splits dest: order_takes[rotated])
next
  case 4
  then obtain s2 rs where s2: "emit_store (SCrash now None) ((die 0 s)\<lparr>sl_open := False\<rparr>) = Inr s2" "exit_all now ''sqlite'' rs s2 = Inr s'"
    using assms(2) by (auto simp: sq_crash_def Let_def bindE_Inr split: option.splits)
  have "in_order_so_far v0 ((die 0 s)\<lparr>sl_open := False\<rparr>)" by (rule order_frame_rows[OF assms(1)]) (simp_all add: die_def)
  thus ?thesis using order_exits[OF order_ring_rows[OF _ s2(1)] s2(2)] by blast
next
  case 5
  show ?thesis
  proof (cases crash)
    case (Some c)
    with 5 assms(2) obtain s1 s2 where s2: "emit_store (SRestart now None) s = Inr s1" "emit_store (SSpawn now ''sqlite'' 0) s1 = Inr s2"
      "s' = store_timer (now + cs_requeueAfter c) (EOwn QRequeue) s2" by (auto simp: sq_restart_def bindE_Inr)
    have "in_order_so_far v0 s1" using order_ring_rows[OF assms(1) s2(1)] by blast
    hence "in_order_so_far v0 s2" using order_ring_rows[OF _ s2(2)] by blast
    thus ?thesis by (simp add: s2(3))
  qed (use 5 assms(1,2) in simp)
next
  case 6
  let ?jobs = "sort_key (row_of s) (List.map_filter id (st_tray (en_store s)))"
  obtain s1 at where s1: "emit_store (SRequeue now ?jobs) s = Inr s1" "s' = sq_wake at (s1\<lparr>sl_open := True, sl_restarted := True\<rparr>)"
    using 6 assms(2) by (auto simp: sq_requeue_def Let_def bindE_Inr)
  have fa: "store_log.faithful v0 s" and ro: "rows_ok s" and wo: "write_order v0 s" using assms(1) by (simp_all add: in_order_so_far_def write_order_def)
  have dl: "distinct (landings (en_events s))" by (rule landings_distinct[OF inv(1) fa assms(3,4)])
  have mj: "mset ?jobs = in_flight (st_tray (en_store s))" by (simp add: in_flight_def)
  have "records (en_store s) + mset (acks (en_events s)) = mset (landings (en_events s))"
    using replay_records[of "en_events s" v0 "en_store s"] fa assms(3) by (simp add: store_log.faithful_def)
  hence "in_flight (st_tray (en_store s)) \<subseteq># mset (landings (en_events s))"
    unfolding records_def by (metis mset_subset_eq_add_left mset_subset_eq_add_right subset_mset.order_trans union_assoc)
  hence dx: "distinct (List.map_filter id (st_tray (en_store s)))" using dl distinct_submset by (simp add: in_flight_def)
  have "write_order v0 s1"
    by (rule order_requeue[OF wo s1(1) mj]) (use sorted_rows_subseq[OF ro dl _ dx] in auto)
  hence "in_order_so_far v0 s1" using rows_emit[OF ro s1(1)] by (simp add: in_order_so_far_def)
  hence "in_order_so_far v0 (s1\<lparr>sl_open := True, sl_restarted := True\<rparr>)" by (rule order_frame_rows) simp_all
  thus ?thesis by (simp add: s1(2) sq_wake_def)
next
  case (7 _ _ j)
  let ?s0 = "s\<lparr>sl_row := AList.update (sj_id j) (length (sl_row s)) (sl_row s)\<rparr>"
  obtain s1 where s1: "emit_store (SLand now (sj_id j)) ?s0 = Inr s1" "s' = (if sl_looking s1 then sq_wake now s1 else s1)"
    using 7 assms(2) by (cases "sl_open s") (auto simp: sq_land_def bindE_Inr)
  have "write_order v0 ?s0" using assms(1) order_frame[of v0 s ?s0] by (simp add: in_order_so_far_def)
  hence w1: "write_order v0 s1" by (rule order_land[OF _ s1(1)])
  have e: "en_events s' = en_events s @ [SLand now (sj_id j)]" "en_store s' = en_store s1" "sl_row s1 = sl_row ?s0" "en_events s1 = en_events s @ [SLand now (sj_id j)]"
    using s1 by (auto simp: sq_wake_def elim!: emit_storeD)
  hence "store_log.faithful v0 s'" using w1 by (simp add: write_order_def store_log.faithful_def)
  hence "distinct (landings (en_events s'))" by (rule landings_distinct[OF inv(2) _ assms(3,4)])
  hence nw: "sj_id j \<notin> set (landings (en_events s))" by (simp add: e(1))
  have ro: "sl_row s = zip (landings (en_events s)) [0..<length (landings (en_events s))]" using assms(1) by (simp add: in_order_so_far_def rows_ok_def)
  have "fst ` set (sl_row s) = set (landings (en_events s))" unfolding ro by (metis length_map length_upt map_fst_zip minus_nat.diff_0 set_map)
  hence "AList.update (sj_id j) (length (sl_row s)) (sl_row s) = sl_row s @ [(sj_id j, length (sl_row s))]" using nw by (intro update_new) simp
  hence "rows_ok s1" by (simp add: rows_ok_def e ro)
  hence "in_order_so_far v0 s1" using w1 by (simp add: in_order_so_far_def)
  thus ?thesis by (simp add: s1(2) sq_wake_def)
next
  case 8
  have "in_order_so_far v0 (s\<lparr>sl_looking := True\<rparr>)" by (rule order_frame_rows[OF assms(1)]) simp_all
  thus ?thesis using 8 assms(2) by (auto simp: sq_wake_def)
qed

lemma start_order: "in_order_so_far (fresh_store (Some (SqliteStore plan))) (sq_start plan crash)"
  by (cases crash) (simp_all add: in_order_so_far_def write_order_def rows_ok_def sq_start_def Let_def fold_lands
    store_log.faithful_def store_log.always_def fresh_store_def)

lemma fresh_records: "records (fresh_store p) = {#}"
  by (simp add: records_def fresh_store_def)

lemma run_order:
  assumes "sq_plan_ok plan" "sqlite_run plan = Some (Inr s)"
  shows "in_order_so_far (fresh_store (Some (SqliteStore plan))) s"
proof -
  let ?v = "fresh_store (Some (SqliteStore plan))"
  obtain crash where c: "sq_limit plan \<le> int SLOTS" "crashOf plan = Inr crash"
    "des_run en_agenda put_engine (sq_fire plan crash) (sq_start plan crash) = Some (Inr s)" using assms(2) by (cases rule: sqlite_run_cases) auto
  have "(sq_run_ok plan crash s \<and> in_order_so_far ?v s) \<and> timers (en_agenda s) = []"
  proof (rule sqlite.run_invariant[OF c(3), of "\<lambda>s. sq_run_ok plan crash s \<and> in_order_so_far ?v s"])
    show "sq_run_ok plan crash (sq_start plan crash) \<and> in_order_so_far ?v (sq_start plan crash)"
      using start_order start_ok[of plan crash] assms(1) c(2) by (auto simp: sq_plan_ok_def)
    fix s s' :: SqliteSim and t ts
    let ?s = "s\<lparr>en_agenda := (en_agenda s)\<lparr>timers := ts\<rparr>\<rparr>"
    assume s: "sq_run_ok plan crash s \<and> in_order_so_far ?v s" "timers (en_agenda s) = t # ts" "sq_fire plan crash (t_fire t) (t_at t) ?s = Inr s'"
    have k: "sq_run_ok plan crash s'" using fire_keeps[OF _ s(2) assms(1) c(1) s(3)] s(1) by simp
    have o: "in_order_so_far ?v ?s" using s(1) order_frame_rows[of ?v s ?s] by simp
    have i: "sq_inv plan crash (fires (en_agenda s)) ?s" using s(1) by (simp add: sq_run_ok_def inv_agenda)
    have "in_order_so_far ?v s'"
      by (rule fire_order[OF o s(3) fresh_records _ i, where M' = "fires (en_agenda s')"]) (use assms(1) k in \<open>simp_all add: sq_plan_ok_def sq_run_ok_def\<close>)
    thus "sq_run_ok plan crash s' \<and> in_order_so_far ?v s'" using k by simp
  qed
  thus ?thesis by simp
qed

section \<open>Replays without rings\<close>

definition ringless :: "Store \<Rightarrow> Store" where
  "ringless s = s\<lparr>st_rings := None\<rparr>"

lemma ringless_put [simp]: "ringless (put_rings c r s) = ringless s"
  by (simp add: ringless_def put_rings_def)

lemma ringless_rings [simp]: "rings_of (ringless s) c = None" "st_queue (ringless s) = st_queue s" "st_tray (ringless s) = st_tray s" "st_rings (ringless s) = None"
  by (simp_all add: ringless_def rings_of_def)

lemma ring_ringless:
  "spawn_ring at c ring s = Inr s' \<Longrightarrow> ringless s' = ringless s"
  "take_ring at job c ring s = Inr s' \<Longrightarrow> ringless s' = ringless s"
  "exit_ring at c ring s = Inr s' \<Longrightarrow> ringless s' = ringless s"
  by (auto simp: spawn_ring_def take_ring_def exit_ring_def Let_def split: option.splits if_splits)

lemma take_record_ringless: "take_record at job tray s = Inr s' \<Longrightarrow> take_record at job tray (ringless s) = Inr (ringless s')"
  by (auto simp: take_record_def ringless_def split: option.splits if_splits simp del: find_index_None)

lemma apply_ringless:
  assumes "store_apply e s = Inr s'"
  shows "store_apply e (ringless s) = Inr (ringless s')"
proof (cases e)
  case (STake at job c ring tray)
  then obtain u where "take_record at job tray s = Inr u" "take_ring at job c ring u = Inr s'" using assms by (auto simp: bindE_Inr)
  thus ?thesis using take_record_ringless[of at job tray s u] ring_ringless(2)[of at job c ring u s'] by (simp add: STake take_ring_def)
next
  case (SSpawn at c ring)
  thus ?thesis using assms ring_ringless(1)[of at c ring s s'] by (simp add: spawn_ring_def)
next
  case (SExit at c ring)
  thus ?thesis using assms ring_ringless(3)[of at c ring s s'] by (simp add: exit_ring_def)
qed (use assms in \<open>auto simp: ringless_def bindE_Inr split: if_splits\<close>)

lemma replay_ringless:
  "replay_states store_apply evs s = Inr ss \<Longrightarrow> replay_states store_apply evs (ringless s) = Inr (map ringless ss)"
proof (induction evs arbitrary: s ss)
  case (Cons e evs)
  then obtain s1 ss1 where "store_apply e s = Inr s1" "replay_states store_apply evs s1 = Inr ss1" "ss = s1 # ss1" by (auto simp: bindE_Inr)
  thus ?case using Cons.IH[of s1 ss1] apply_ringless[of e s s1] by simp
qed simp

section \<open>Properties\<close>

text \<open>A plan for the examples: two rings, three jobs, and a crash while two of them run.\<close>

definition crash_plan :: SqlitePlan where
  "crash_plan = \<lparr>sq_limit = 2, sq_idle = [0],
     sq_jobs = [\<lparr>sj_id = ''a'', sj_at = 100, sj_work = 500\<rparr>, \<lparr>sj_id = ''b'', sj_at = 200, sj_work = 500\<rparr>, \<lparr>sj_id = ''c'', sj_at = 300, sj_work = 500\<rparr>],
     sq_firstClaim = 400, sq_crashAt = Some 600, sq_restartAt = Some 900, sq_requeueAfter = Some 50, sq_rerunAfter = None, sq_rework = Some [],
     sq_takeTravel = 100, sq_ackTravel = 100\<rparr>"

definition crash_events :: "StoreEvent list" where
  "crash_events = (case simulateSqlite crash_plan of Some (Inr es) \<Rightarrow> es | _ \<Rightarrow> [])"

lemma crash_plan_ok: "sq_plan_ok crash_plan"
  by (auto simp: sq_plan_ok_def crash_plan_def crashOf_def)

lemma crash_simulated: "simulateSqlite crash_plan = Some (Inr crash_events)" "landings crash_events = [''a'', ''b'', ''c'']"
  by code_simp+

text \<open>
  C18: no store loses or doubles a record. Whatever log of events the store accepts, from its start, each job that landed is
  in the queue, in flight, or acknowledged, as often as it landed; and the tray keeps its five slots.
\<close>

theorem store_keeps_every_record:
  assumes "replay store_apply evs (fresh_store plan) = Inr s"
  shows "mset (landings evs) = mset (st_queue s) + in_flight (st_tray s) + mset (acks evs) \<and> length (st_tray s) = SLOTS"
proof -
  have "length (st_tray s') = length (st_tray s)" if "replay store_apply es s = Inr s'" for es s s'
    using that by (induction es arbitrary: s) (auto simp: bindE_Inr dest: apply_tray_length)
  from this[OF assms] show ?thesis using replay_records[OF assms] fresh_records[of plan] by (simp add: records_def fresh_store_def)
qed

theorem store_keeps_every_record_witness:
  "mset (landings [SLand 1 ''a'', SLand 2 ''b'', STake 3 ''a'' ''x'' 0 0, SRequeue 4 [''a'']]) = {#''a'', ''b''#}"
proof -
  have "replay store_apply [SLand 1 ''a'', SLand 2 ''b'', STake 3 ''a'' ''x'' 0 0, SRequeue 4 [''a'']] (fresh_store None)
    = Inr \<lparr>st_queue = [''a'', ''b''], st_tray = replicate 5 None, st_rings = None\<rparr>" by code_simp
  from store_keeps_every_record[OF this] show ?thesis by (simp add: add_mset_commute)
qed

text \<open>
  Both store simulations return for every plan: their timers run out, or one of the rules refuses the plan.
\<close>

theorem store_simulations_return:
  "(\<exists>r. simulateSqlite plan = Some r) \<and> (\<exists>r. simulateRedis rplan = Some r)"
proof
  show "\<exists>r. simulateSqlite plan = Some r" using sqlite.run_returns[of plan]
    by (auto simp: simulateSqlite_def sqlite_run_def split: sum.splits)
  show "\<exists>r. simulateRedis rplan = Some r" using redis.run_returns[of rplan]
    by (auto simp: simulateRedis_def redis_run_def Let_def split: sum.splits)
qed

lemma simulated_sqlite: "simulateSqlite plan = Some (Inr evs) \<longleftrightarrow> (\<exists>s. sqlite_run plan = Some (Inr s) \<and> en_events s = evs)"
  by (cases "sqlite_run plan") (auto simp: simulateSqlite_def bindE_Inr)

lemma refused_sqlite: "simulateSqlite plan = Some (Inl e) \<longleftrightarrow> sqlite_run plan = Some (Inl e)"
proof (cases "sqlite_run plan")
  case (Some r)
  thus ?thesis by (cases r) (auto simp: simulateSqlite_def)
qed (simp add: simulateSqlite_def)

text \<open>
  C19: nothing is lost. On a plan whose jobs have names of their own, with one ring at least, and a restart (if any) after
  the crash, the simulation ends in one of two ways: it is refused for a reason its comment gives (more rings than
  slots, a crash given in part, an ack on its way at the crash, a job that lands while the program is down), or every job
  of the plan has been acknowledged exactly once, whether the program died on the way or not.
\<close>

theorem sqlite_acks_every_job:
  assumes "sq_plan_ok plan"
  shows "\<exists>r. simulateSqlite plan = Some r \<and> (case r of Inl e \<Rightarrow> documented e | Inr evs \<Rightarrow> mset (acks evs) = mset (sq_ids plan))"
proof -
  obtain r where r: "sqlite_run plan = Some r" using sqlite.run_returns[of plan] by (fastforce simp: sqlite_run_def split: sum.splits)
  show ?thesis
  proof (cases r)
    case (Inl e)
    thus ?thesis using sqlite_refusals[OF assms] r refused_sqlite by (intro exI[of _ "Inl e"]) simp
  next
    case (Inr s)
    thus ?thesis using sqlite_end(1)[OF assms] r simulated_sqlite by (intro exI[of _ "Inr (en_events s)"]) auto
  qed
qed

theorem sqlite_acks_every_job_witness: "mset (acks crash_events) = {#''a'', ''b'', ''c''#}"
  using sqlite_acks_every_job[OF crash_plan_ok] crash_simulated(1) by (simp add: crash_plan_def)

text \<open>
  The queue is in write order at every moment. In each state \<open>queueStates\<close> shows for the events of a SQLite run, the
  jobs that wait are in the order their rows were written, also after a crash has put the records in flight back ahead
  of those that waited.
\<close>

theorem sqlite_queue_in_write_order:
  assumes "sq_plan_ok plan" "simulateSqlite plan = Some (Inr evs)"
  shows "\<exists>qs. queueStates evs = Inr qs \<and> length qs = length evs \<and> (\<forall>(at, order)\<in>set qs. subseq order (landings evs))"
proof -
  obtain s where s: "sqlite_run plan = Some (Inr s)" "en_events s = evs" using assms(2) simulated_sqlite by blast
  obtain ss where ss: "replay_states store_apply evs (fresh_store (Some (SqliteStore plan))) = Inr ss" "\<forall>v\<in>set ss. subseq (st_queue v) (landings evs)"
    using run_order[OF assms(1) s(1)] s(2) by (auto simp: in_order_so_far_def write_order_def store_log.always_def)
  have "ringless (fresh_store (Some (SqliteStore plan))) = fresh_store None" by (simp add: ringless_def fresh_store_def)
  hence r: "replay_states store_apply evs (fresh_store None) = Inr (map ringless ss)" using replay_ringless[OF ss(1)] by simp
  have "length ts = length es" if "replay_states store_apply es v = Inr ts" for es v ts
    using that by (induction es arbitrary: v ts) (auto simp: bindE_Inr)
  from this[OF r] have l: "length ss = length evs" by simp
  have "subseq (st_queue v) (landings evs)" if "(e, v) \<in> set (zip evs (map ringless ss))" for e v
    using ss(2) set_zip_rightD[OF that] by auto
  thus ?thesis using r l by (auto simp: queueStates_def)
qed

theorem sqlite_queue_in_write_order_witness:
  "\<exists>qs. queueStates crash_events = Inr qs \<and> (\<forall>(at, order)\<in>set qs. subseq order [''a'', ''b'', ''c''])"
  using sqlite_queue_in_write_order[OF crash_plan_ok crash_simulated(1)] crash_simulated(2) by auto

section \<open>A wake on its way to a program that dies\<close>

text \<open>
  In the Redis simulation a consumer that dies with a wake on its way still answers it: it starts a goroutine and takes
  the job while its program is down (\<open>pull\<close> and the wake's timer do not look at \<open>deaths\<close>). The goroutine it started is
  still there when the program restarts, and the restart's \<open>Start()\<close> is then refused by \<open>apply\<close>.
\<close>

definition wake_plan :: RedisPlan where
  "wake_plan = \<lparr>rp_consumers = [\<lparr>co_id = ''b'', co_limit = 1, co_idle = [0]\<rparr>], rp_jobs = [\<lparr>sj_id = ''r'', sj_at = 100, sj_work = 100\<rparr>],
     rp_landAfter = 0, rp_notifyTravel = 400, rp_takeTravel = 100, rp_ackTravel = 100,
     rp_crash = Some \<lparr>rc_consumer = ''b'', rc_at = 300, rc_backAfter = 1000, rc_wakeAfter = None, rc_restartAt = 2000, rc_rework = []\<rparr>\<rparr>"

theorem dead_consumer_answers_its_wake:
  "simulateRedis wake_plan = Some (Inl (SpawnTaken 0 ''b'' 2000))"
  by code_simp

end
