(* ===== verification/Hero_Chapters.thy ===== *)
theory Hero_Chapters
  imports Hero_Pool Hero_Stores "HOL-Library.While_Combinator"
begin

text \<open>
  \<open>docs/src/lib/heromap/chapters.ts\<close>: the ten chapters of the landing page's story. Each is a function of the carry
  (what each worker's last plan left), which the parts thread through the simulations of \<open>pool.ts\<close> and \<open>stores.ts\<close>.
  A chapter is None when a simulation would not end, and an error when one refuses its plan; \<open>write\<close> names the chapter.
\<close>

section \<open>Data\<close>

datatype WorkerName = Core | ResultWorker | Second

fun worker_name :: "WorkerName \<Rightarrow> string" where
  "worker_name Core = ''core''"
| "worker_name ResultWorker = ''result''"
| "worker_name Second = ''second''"

datatype Outcome = OutValue | OutError

datatype Part =
    PoolPart WorkerName PoolPlan "PoolEvent list" "(string \<times> Outcome) list"
  | SqlitePart SqlitePlan "StoreEvent list"
  | RedisPart RedisPlan "StoreEvent list"

record Caption =
  cap_at :: int
  cap_text :: string
  cap_swap :: "string option"

record Chip =
  chip_id :: string
  chip_label :: string
  chip_at :: int
  chip_until :: int
  chip_fade :: bool

record Chapter =
  ch_n :: nat
  ch_title :: string
  ch_duration :: int
  ch_captions :: "Caption list"
  ch_parts :: "Part list"
  ch_published :: "(string \<times> int) list"
  ch_chips :: "Chip list"

text \<open>A job written as \<open>[id, at, work]\<close>; the pace of the event loop: \<open>wake\<close>, \<open>gap\<close>, \<open>after\<close>.\<close>

type_synonym Spec = "string \<times> int \<times> int"

record Pace =
  pace_wake :: int
  pace_gap :: int
  pace_after :: int

definition PACE :: Pace where
  "PACE = \<lparr>pace_wake = 400, pace_gap = 300, pace_after = 250\<rparr>"

definition LATE :: Pace where
  "LATE = PACE\<lparr>pace_wake := 900\<rparr>"

definition VOLLEY :: Pace where
  "VOLLEY = PACE\<lparr>pace_wake := 400, pace_gap := 200\<rparr>"

definition QUEUE :: SourceSpec where "QUEUE = \<lparr>ss_id = ''queue'', ss_priority = False\<rparr>"
definition PRIO :: SourceSpec where "PRIO = \<lparr>ss_id = ''prio'', ss_priority = True\<rparr>"
definition QUEUE_C :: SourceSpec where "QUEUE_C = \<lparr>ss_id = ''queue-c'', ss_priority = False\<rparr>"
definition TOPIC :: SourceSpec where "TOPIC = \<lparr>ss_id = ''topic'', ss_priority = False\<rparr>"
definition BOUND :: "SourceSpec list" where "BOUND = [QUEUE, PRIO, QUEUE_C, TOPIC]"
definition R_QUEUE :: SourceSpec where "R_QUEUE = \<lparr>ss_id = ''r-queue'', ss_priority = False\<rparr>"

definition queued :: "string \<Rightarrow> Spec list \<Rightarrow> JobSpec list" where
  "queued source specs = map (\<lambda>(id, at, work). \<lparr>js_id = id, js_source = source, js_at = at, js_work = work, js_priority = None\<rparr>) specs"

definition stored :: "Spec list \<Rightarrow> StoreJob list" where
  "stored specs = map (\<lambda>(id, at, work). \<lparr>sj_id = id, sj_at = at, sj_work = work\<rparr>) specs"

definition copies :: "(string \<times> int) list \<Rightarrow> WorkerName \<Rightarrow> int list \<Rightarrow> JobSpec list" where
  "copies values worker work =
    map (\<lambda>(i, (id, at)). \<lparr>js_id = id @ ''-'' @ worker_name worker, js_source = ss_id TOPIC, js_at = at, js_work = work ! i, js_priority = None\<rparr>)
      (enumerate 0 values)"

section \<open>The carry, and the parts that thread it\<close>

type_synonym PoolCarry = "int \<times> nat list \<times> nat"

record Carry =
  ca_pools :: "(WorkerName \<times> PoolCarry) list"
  ca_stores :: "(string \<times> nat list) list"

definition start_carry :: Carry where
  "start_carry = \<lparr>ca_pools = [(Core, 1, [0], 0), (ResultWorker, 1, [0], 0), (Second, 1, [0], 0)],
     ca_stores = [(''sqlite'', [0]), (''b'', [0]), (''c'', [0])]\<rparr>"

datatype StoryErr = PoolRefused PoolErr | StoreRefused StoreErr | NoStoreCarry string

type_synonym 'a sim = "(StoryErr + 'a) option"

fun bind_sim :: "'a sim \<Rightarrow> ('a \<Rightarrow> 'b sim) \<Rightarrow> 'b sim" where
  "bind_sim None f = None"
| "bind_sim (Some (Inl e)) f = Some (Inl e)"
| "bind_sim (Some (Inr a)) f = f a"

definition lift_pool :: "(PoolErr + 'a) option \<Rightarrow> 'a sim" where
  "lift_pool m = map_option (map_sum PoolRefused id) m"

definition lift_store :: "(StoreErr + 'a) option \<Rightarrow> 'a sim" where
  "lift_store m = map_option (map_sum StoreRefused id) m"

record PoolRest =
  pr_pace :: Pace
  pr_sources :: "SourceSpec list"
  pr_strategy :: "StrategySpec option"
  pr_controls :: "ControlSpec list"
  pr_jobs :: "JobSpec list"

definition pool_plan :: "PoolCarry \<Rightarrow> PoolRest \<Rightarrow> PoolPlan" where
  "pool_plan c rest = (case c of (limit, idle, turn) \<Rightarrow>
    \<lparr>pp_limit = limit, pp_idle = idle, pp_turn = turn, pp_sources = pr_sources rest, pp_strategy = pr_strategy rest,
     pp_jobs = pr_jobs rest, pp_controls = pr_controls rest, pp_wake = pace_wake (pr_pace rest),
     pp_gap = pace_gap (pr_pace rest), pp_after = pace_after (pr_pace rest)\<rparr>)"

definition ch_pool :: "Carry \<Rightarrow> WorkerName \<Rightarrow> PoolRest \<Rightarrow> (string \<times> Outcome) list \<Rightarrow> (Part \<times> Carry) sim" where
  "ch_pool carry worker rest outcomes =
    (let plan = pool_plan (the (map_of (ca_pools carry) worker)) rest in
     bind_sim (lift_pool (simulatePool plan)) (\<lambda>events.
     bind_sim (lift_pool (Some (endState plan events))) (\<lambda>end_state.
     Some (Inr (PoolPart worker plan events outcomes, carry\<lparr>ca_pools := AList.update worker end_state (ca_pools carry)\<rparr>)))))"

definition assign_stores :: "(string \<times> nat list) list \<Rightarrow> Carry \<Rightarrow> Carry" where
  "assign_stores ends carry = carry\<lparr>ca_stores := fold (\<lambda>(c, idle). AList.update c idle) ends (ca_stores carry)\<rparr>"

definition idle_of :: "Carry \<Rightarrow> string \<Rightarrow> nat list sim" where
  "idle_of carry c = (case map_of (ca_stores carry) c of Some idle \<Rightarrow> Some (Inr idle) | None \<Rightarrow> Some (Inl (NoStoreCarry c)))"

definition ch_sqlite :: "Carry \<Rightarrow> SqlitePlan \<Rightarrow> (Part \<times> Carry) sim" where
  "ch_sqlite carry rest =
    bind_sim (idle_of carry ''sqlite'') (\<lambda>idle.
    let plan = rest\<lparr>sq_idle := idle\<rparr> in
    bind_sim (lift_store (simulateSqlite plan)) (\<lambda>events.
    bind_sim (lift_store (Some (storeEnd (SqliteStore plan) events))) (\<lambda>ends.
    Some (Inr (SqlitePart plan events, assign_stores ends carry)))))"

fun carry_idle :: "Carry \<Rightarrow> Consumer list \<Rightarrow> Consumer list sim" where
  "carry_idle carry [] = Some (Inr [])"
| "carry_idle carry (c # cs) =
    bind_sim (idle_of carry (co_id c)) (\<lambda>idle. bind_sim (carry_idle carry cs) (\<lambda>cs'. Some (Inr (c\<lparr>co_idle := idle\<rparr> # cs'))))"

definition ch_redis :: "Carry \<Rightarrow> RedisPlan \<Rightarrow> (Part \<times> Carry) sim" where
  "ch_redis carry rest =
    bind_sim (carry_idle carry (rp_consumers rest)) (\<lambda>cs.
    let plan = rest\<lparr>rp_consumers := cs\<rparr> in
    bind_sim (lift_store (simulateRedis plan)) (\<lambda>events.
    bind_sim (lift_store (Some (storeEnd (RedisStore plan) events))) (\<lambda>ends.
    Some (Inr (RedisPart plan events, assign_stores ends carry)))))"

text \<open>The parts of a chapter, in order, each from the carry the one before leaves.\<close>

fun ch_all :: "(Carry \<Rightarrow> (Part \<times> Carry) sim) list \<Rightarrow> Carry \<Rightarrow> (Part list \<times> Carry) sim" where
  "ch_all [] carry = Some (Inr ([], carry))"
| "ch_all (p # ps) carry =
    bind_sim (p carry) (\<lambda>(part, carry1). bind_sim (ch_all ps carry1) (\<lambda>(parts, carry2). Some (Inr (part # parts, carry2))))"

section \<open>The script\<close>

definition caption :: "int \<Rightarrow> string \<Rightarrow> Caption" where
  "caption at text = \<lparr>cap_at = at, cap_text = text, cap_swap = None\<rparr>"

definition chip_of :: "string \<Rightarrow> string \<Rightarrow> int \<Rightarrow> int \<Rightarrow> bool \<Rightarrow> Chip" where
  "chip_of piece label at until fade = \<lparr>chip_id = piece, chip_label = label, chip_at = at, chip_until = until, chip_fade = fade\<rparr>"

text \<open>A chapter without its number: the number is \<open>write\<close>'s.\<close>

definition body :: "string \<Rightarrow> int \<Rightarrow> Caption list \<Rightarrow> (string \<times> int) list \<Rightarrow> Chip list \<Rightarrow> (Carry \<Rightarrow> (Part \<times> Carry) sim) list \<Rightarrow> Carry \<Rightarrow> (Chapter \<times> Carry) sim" where
  "body title duration captions published chips parts carry =
    bind_sim (ch_all parts carry) (\<lambda>(ps, carry').
    Some (Inr (\<lparr>ch_n = 0, ch_title = title, ch_duration = duration, ch_captions = captions, ch_parts = ps,
                ch_published = published, ch_chips = chips\<rparr>, carry')))"

abbreviation round_robin :: "StrategySpec option" where
  "round_robin \<equiv> Some (OneStrategy RoundRobin)"

definition chapter1 :: "Carry \<Rightarrow> (Chapter \<times> Carry) sim" where
  "chapter1 = body ''One worker'' 8300 [caption 300 ''*Add* puts jobs in a queue''] [] []
    [\<lambda>c. ch_pool c Core \<lparr>pr_pace = PACE, pr_sources = [QUEUE], pr_strategy = round_robin, pr_controls = [],
       pr_jobs = queued (ss_id QUEUE) [(''j0'', 1900, 1500), (''j1'', 2800, 1500), (''j2'', 4500, 1500)]\<rparr> []]"

definition chapter2 :: "Carry \<Rightarrow> (Chapter \<times> Carry) sim" where
  "chapter2 = body ''The pool'' 9000
    [caption 300 ''The pool *grows* while jobs wait'', caption 5300 ''and *shrinks* when the queue empties''] []
    [chip_of ''ctl-restart'' ''TunePool(5)'' 1300 2500 False]
    [\<lambda>c. ch_pool c Core \<lparr>pr_pace = PACE, pr_sources = [QUEUE], pr_strategy = round_robin, pr_controls = [CtlTune 1300 5],
       pr_jobs = queued (ss_id QUEUE) [(''b0'', 1900, 3800), (''b1'', 2000, 3300), (''b2'', 2100, 3600), (''b3'', 2200, 3600), (''b4'', 2300, 3700)]\<rparr> []]"

definition chapter3 :: "Carry \<Rightarrow> (Chapter \<times> Carry) sim" where
  "chapter3 = body ''Results and errors'' 6200 [caption 300 ''Jobs return a *value* or an *error*''] [] []
    [\<lambda>c. ch_pool c ResultWorker \<lparr>pr_pace = PACE, pr_sources = [R_QUEUE], pr_strategy = None, pr_controls = [],
       pr_jobs = queued (ss_id R_QUEUE) [(''x0'', 1900, 1300), (''x1'', 2800, 1300)]\<rparr> [(''x0'', OutValue), (''x1'', OutError)]]"

definition chapter4 :: "Carry \<Rightarrow> (Chapter \<times> Carry) sim" where
  "chapter4 = body ''Priority'' 7000 [caption 300 ''The *lowest* number runs first''] [] []
    [\<lambda>c. ch_pool c Core \<lparr>pr_pace = LATE, pr_sources = [QUEUE, PRIO], pr_strategy = round_robin, pr_controls = [],
       pr_jobs = map (\<lambda>(i, priority). \<lparr>js_id = ''p'' @ string_of_int priority, js_source = ss_id PRIO, js_at = 1800 + 150 * int i,
         js_work = [1700, 1400, 1350, 2400, 1450] ! i, js_priority = Some priority\<rparr>) (enumerate 0 [5, 2, 8, 1, 3])\<rparr> []]"

text \<open>Chapter 5: the bursts, and the loop that takes the three lanes in turn (\<open>left[id]-- > 0\<close>).\<close>

definition bursts :: "(StrategyName \<times> int \<times> (string \<times> int) list) list" where
  "bursts =
    [(Priority, 300, [(ss_id QUEUE, 2), (ss_id PRIO, 3), (ss_id QUEUE_C, 1)]),
     (MaxLen, 4650, [(ss_id QUEUE, 1), (ss_id PRIO, 3), (ss_id QUEUE_C, 1)]),
     (MinLen, 9000, [(ss_id QUEUE, 3), (ss_id PRIO, 1), (ss_id QUEUE_C, 2)]),
     (RoundRobin, 13350, [(ss_id QUEUE, 2), (ss_id PRIO, 2), (ss_id QUEUE_C, 2)])]"

fun take_lane :: "string \<Rightarrow> (string \<times> int) list \<times> string list \<Rightarrow> (string \<times> int) list \<times> string list" where
  "take_lane lane (left, order) =
    (case map_of left lane of
       Some n \<Rightarrow> (AList.update lane (n - 1) left, if 0 < n then order @ [lane] else order)
     | None \<Rightarrow> (left, order))"

definition burst_order :: "(string \<times> int) list \<Rightarrow> string list option" where
  "burst_order counts =
    map_option snd (while_option (\<lambda>(left, order). int (length order) < sum_list (map snd counts))
      (fold take_lane [ss_id QUEUE, ss_id PRIO, ss_id QUEUE_C]) (counts, []))"

definition burst_jobs :: "nat \<Rightarrow> int \<Rightarrow> string list \<Rightarrow> JobSpec list" where
  "burst_jobs b at order =
    map (\<lambda>(k, source). \<lparr>js_id = ''st'' @ string_of_nat b @ ''.'' @ string_of_nat k, js_source = source, js_at = at + 1000 + 60 * int k,
      js_work = [650, 750, 700, 800, 650, 750] ! k, js_priority = None\<rparr>) (enumerate 0 order)"

fun all_bursts :: "(nat \<times> StrategyName \<times> int \<times> (string \<times> int) list) list \<Rightarrow> JobSpec list option" where
  "all_bursts [] = Some []"
| "all_bursts ((b, st, at, counts) # bs) =
    (case burst_order counts of
       None \<Rightarrow> None
     | Some order \<Rightarrow> map_option (\<lambda>js. burst_jobs b at order @ js) (all_bursts bs))"

definition chapter5 :: "Carry \<Rightarrow> (Chapter \<times> Carry) sim" where
  "chapter5 carry = (case all_bursts (enumerate 0 bursts) of
     None \<Rightarrow> None
   | Some jobs \<Rightarrow> body ''Many queues, one worker'' 17900
      [caption 300 ''*Priority*, the default, goes in bind order'', caption 4650 ''*MaxLen* takes from the longest queue'',
       caption 9000 ''*MinLen* takes from the shortest queue'', caption 13350 ''*RoundRobin* takes from each queue in turn''] []
      [chip_of ''strategy'' ''Priority'' 300 5250 False, chip_of ''strategy'' ''MaxLen'' 4650 9600 True,
       chip_of ''strategy'' ''MinLen'' 9000 13950 True, chip_of ''strategy'' ''RoundRobin'' 13350 17900 True]
      [\<lambda>c. ch_pool c Core \<lparr>pr_pace = VOLLEY, pr_sources = [QUEUE, PRIO, QUEUE_C],
         pr_strategy = Some (StrategyTimes (map (\<lambda>(st, at, counts). (at, st)) bursts)), pr_controls = [], pr_jobs = jobs\<rparr> []] carry)"

definition published6 :: "(string \<times> int) list" where
  "published6 = [(''t0'', 1900), (''t1'', 2700)]"

definition chapter6 :: "Carry \<Rightarrow> (Chapter \<times> Carry) sim" where
  "chapter6 = body ''Topics'' 6200 [caption 300 ''*Publish* once, every subscriber gets a copy''] published6 []
    [\<lambda>c. ch_pool c Core \<lparr>pr_pace = PACE, pr_sources = BOUND, pr_strategy = round_robin, pr_controls = [],
       pr_jobs = copies published6 Core [2200, 2100]\<rparr> [],
     \<lambda>c. ch_pool c Second \<lparr>pr_pace = PACE, pr_sources = [TOPIC], pr_strategy = None, pr_controls = [],
       pr_jobs = copies published6 Second [1300, 1300]\<rparr> []]"

text \<open>The stores' parts. The idle rings written here are replaced by the carry's.\<close>

definition sqlite_rest :: "StoreJob list \<Rightarrow> int \<Rightarrow> SqlitePlan" where
  "sqlite_rest jobs firstClaim =
    \<lparr>sq_limit = 2, sq_idle = [], sq_jobs = jobs, sq_firstClaim = firstClaim, sq_crashAt = None, sq_restartAt = None,
     sq_requeueAfter = None, sq_rerunAfter = None, sq_rework = None, sq_takeTravel = 720, sq_ackTravel = 780\<rparr>"

definition redis_rest :: "StoreJob list \<Rightarrow> RedisCrash option \<Rightarrow> RedisPlan" where
  "redis_rest jobs crash =
    \<lparr>rp_consumers = [\<lparr>co_id = ''b'', co_limit = 2, co_idle = []\<rparr>, \<lparr>co_id = ''c'', co_limit = 2, co_idle = []\<rparr>],
     rp_jobs = jobs, rp_landAfter = 700, rp_notifyTravel = 420, rp_takeTravel = 720, rp_ackTravel = 730, rp_crash = crash\<rparr>"

definition chapter7 :: "Carry \<Rightarrow> (Chapter \<times> Carry) sim" where
  "chapter7 = body ''SQLite'' 16900
    [caption 300 ''SQLite keeps the *queue* in a file'', caption 1300 ''*Add* writes each job to jobs.db'',
     caption 3300 ''Taken jobs stay *in flight* until confirmed'', caption 6800 ''The program !dies! mid-job'',
     caption 9300 ''On restart they go *back* to the queue'', caption 10900 ''and run again. Nothing is *lost*''] [] []
    [\<lambda>c. ch_sqlite c ((sqlite_rest (stored [(''s0'', 1900, 4200), (''s1'', 2100, 800), (''s2'', 2300, 3000), (''s3'', 2500, 1000)]) 3300)
       \<lparr>sq_crashAt := Some 6800, sq_restartAt := Some 9400, sq_requeueAfter := Some 900, sq_rerunAfter := Some 600,
        sq_rework := Some [(''s0'', 1600), (''s2'', 1000)]\<rparr>)]"

definition chapter8 :: "Carry \<Rightarrow> (Chapter \<times> Carry) sim" where
  "chapter8 = body ''Redis'' 11500
    [caption 300 ''Redis holds *one queue* for many programs'', caption 1300 ''Program A adds. Redis *notifies* workers'',
     caption 3800 ''Program B !dies! mid-job'', caption 5900 ''Its jobs go *back* to the front'',
     caption 6900 ''Redis wakes C, which runs them. Nothing is *lost*''] [] []
    [\<lambda>c. ch_redis c (redis_rest (stored [(''r0'', 1300, 2200), (''r1'', 1400, 1900), (''r2'', 1500, 1400), (''r3'', 1600, 1000)])
       (Some \<lparr>rc_consumer = ''b'', rc_at = 4000, rc_backAfter = 2500, rc_wakeAfter = Some 400, rc_restartAt = 9000,
         rc_rework = [(''r0'', 1600), (''r1'', 1300)]\<rparr>))]"

definition chapter9 :: "Carry \<Rightarrow> (Chapter \<times> Carry) sim" where
  "chapter9 = body ''Control'' 11600
    [caption 2300 ''*Pause* keeps new jobs waiting'', caption 4000 ''*Resume* starts the jobs that waited'',
     caption 6100 ''*Stop* ends the loop once jobs finish'', caption 7900 ''*Restart* runs the jobs that waited''] [] []
    [\<lambda>c. ch_pool c Core \<lparr>pr_pace = PACE, pr_sources = BOUND, pr_strategy = round_robin,
       pr_controls = [CtlOp 2300 OpPause, CtlOp 4000 OpResume, CtlOp 6100 OpStop, CtlOp 7900 OpRestart],
       pr_jobs = queued (ss_id QUEUE) [(''k0'', 1300, 1300), (''k1'', 1500, 1000), (''k2'', 2500, 2400), (''k3'', 2700, 2200),
         (''k4'', 5800, 2000), (''k5'', 6700, 1600), (''k6'', 6900, 1500)]\<rparr> []]"

definition published10 :: "(string \<times> int) list" where
  "published10 = [(''zt0'', 2200)]"

definition chapter10 :: "Carry \<Rightarrow> (Chapter \<times> Carry) sim" where
  "chapter10 = body ''Everything together'' 9000
    [\<lparr>cap_at = 300, cap_text = ''One worker model, from memory to #SQLite#'', cap_swap = Some ''#Redis#''\<rparr>] published10 []
    [\<lambda>c. ch_pool c Core \<lparr>pr_pace = PACE, pr_sources = BOUND, pr_strategy = round_robin, pr_controls = [CtlOp 4400 OpStop],
       pr_jobs = queued (ss_id QUEUE) [(''zj0'', 2000, 2200), (''zj1'', 2400, 2600)] @ copies published10 Core [2400]\<rparr> [],
     \<lambda>c. ch_pool c Second \<lparr>pr_pace = PACE, pr_sources = [TOPIC], pr_strategy = None, pr_controls = [],
       pr_jobs = copies published10 Second [1500]\<rparr> [],
     \<lambda>c. ch_pool c ResultWorker \<lparr>pr_pace = PACE, pr_sources = [R_QUEUE], pr_strategy = None, pr_controls = [],
       pr_jobs = queued (ss_id R_QUEUE) [(''zx0'', 1900, 1400), (''zx1'', 2900, 1400)]\<rparr> [(''zx0'', OutValue), (''zx1'', OutError)],
     \<lambda>c. ch_sqlite c (sqlite_rest (stored [(''zs0'', 2000, 1800), (''zs1'', 2200, 2400)]) 2800),
     \<lambda>c. ch_redis c (redis_rest (stored [(''zr0'', 1600, 1800), (''zr1'', 1800, 1700), (''zr2'', 2000, 1900), (''zr3'', 2200, 1600)]) None)]"

definition SCRIPT :: "(Carry \<Rightarrow> (Chapter \<times> Carry) sim) list" where
  "SCRIPT = [chapter1, chapter2, chapter3, chapter4, chapter5, chapter6, chapter7, chapter8, chapter9, chapter10]"

section \<open>The chapters\<close>

datatype ScriptErr = ChapterErr nat StoryErr

fun write_from :: "nat \<Rightarrow> (Carry \<Rightarrow> (Chapter \<times> Carry) sim) list \<Rightarrow> Carry \<Rightarrow> (ScriptErr + Chapter list) option" where
  "write_from i [] carry = Some (Inr [])"
| "write_from i (chapter # script) carry =
    (case chapter carry of
       None \<Rightarrow> None
     | Some (Inl e) \<Rightarrow> Some (Inl (ChapterErr (i + 1) e))
     | Some (Inr (c, carry')) \<Rightarrow>
        map_option (map_sum id (\<lambda>cs. c\<lparr>ch_n := i + 1\<rparr> # cs)) (write_from (i + 1) script carry'))"

definition write_script :: "(Carry \<Rightarrow> (Chapter \<times> Carry) sim) list \<Rightarrow> (ScriptErr + Chapter list) option" where
  "write_script script = write_from 0 script start_carry"

definition CHAPTERS :: "Chapter list" where
  "CHAPTERS = (case write_script SCRIPT of Some (Inr cs) \<Rightarrow> cs | _ \<Rightarrow> [])"

fun starts_from :: "int \<Rightarrow> Chapter list \<Rightarrow> int list" where
  "starts_from t [] = []"
| "starts_from t (c # cs) = t # starts_from (t + ch_duration c) cs"

definition starts :: "int list" where
  "starts = starts_from 0 CHAPTERS"

definition TOTAL :: int where
  "TOTAL = fold (\<lambda>c t. t + ch_duration c) CHAPTERS 0"

definition CAMERA :: int where
  "CAMERA = 1200"

definition STATIC_AT :: int where
  "STATIC_AT = starts ! (length CHAPTERS - 1) + 1300"

definition chipKey :: "nat \<Rightarrow> nat \<Rightarrow> string \<Rightarrow> string" where
  "chipKey n i piece = piece @ ''@'' @ string_of_nat n @ '':'' @ string_of_nat i"

definition plain :: "string \<Rightarrow> string" where
  "plain text = filter (\<lambda>c. c \<notin> {CHR ''*'', CHR ''!'', CHR ''#''}) text"

end
