(* ===== verification/Hero_Story.thy ===== *)
theory Hero_Story
  imports Hero_Chapters
begin

text \<open>
  What the ten chapters tell. Each chapter is run once, from the carry its predecessors leave, by the simplifier; what
  is read off it (\<open>Telling\<close>) is chained over the script, and the properties of the whole story follow from the chain.
\<close>

section \<open>What is read off a chapter\<close>

fun part_times :: "Part \<Rightarrow> int list" where
  "part_times (PoolPart w plan events outs) = map pe_at events"
| "part_times (SqlitePart plan events) = map se_at events"
| "part_times (RedisPart plan events) = map se_at events"

fun part_jobs :: "Part \<Rightarrow> string list" where
  "part_jobs (PoolPart w plan events outs) = map js_id (pp_jobs plan)"
| "part_jobs (SqlitePart plan events) = map sj_id (sq_jobs plan)"
| "part_jobs (RedisPart plan events) = map sj_id (rp_jobs plan)"

text \<open>The jobs a part ends, a pool's by their \<open>done\<close> and a store's by their \<open>ack\<close>, and those it starts, in order.\<close>

fun pool_done_job :: "PoolEvent \<Rightarrow> string option" where
  "pool_done_job (PDone at job ring) = Some job"
| "pool_done_job _ = None"

fun pool_taken_job :: "PoolEvent \<Rightarrow> string option" where
  "pool_taken_job (PDispatch at job source ring spawned waiting strategy) = Some job"
| "pool_taken_job _ = None"

fun store_acked_job :: "StoreEvent \<Rightarrow> string option" where
  "store_acked_job (SAck at job tray) = Some job"
| "store_acked_job _ = None"

fun store_taken_job :: "StoreEvent \<Rightarrow> string option" where
  "store_taken_job (STake at job consumer ring tray) = Some job"
| "store_taken_job _ = None"

fun part_ended :: "Part \<Rightarrow> string list" where
  "part_ended (PoolPart w plan events outs) = List.map_filter pool_done_job events"
| "part_ended (SqlitePart plan events) = List.map_filter store_acked_job events"
| "part_ended (RedisPart plan events) = List.map_filter store_acked_job events"

fun part_started :: "Part \<Rightarrow> string list" where
  "part_started (PoolPart w plan events outs) = List.map_filter pool_taken_job events"
| "part_started (SqlitePart plan events) = List.map_filter store_taken_job events"
| "part_started (RedisPart plan events) = List.map_filter store_taken_job events"

fun first_land :: "Part \<Rightarrow> int option" where
  "first_land (PoolPart w plan events outs) = map_option pe_at (List.find (\<lambda>e. case e of PLand at job source \<Rightarrow> True | _ \<Rightarrow> False) events)"
| "first_land (SqlitePart plan events) = map_option se_at (List.find (\<lambda>e. case e of SLand at job \<Rightarrow> True | _ \<Rightarrow> False) events)"
| "first_land (RedisPart plan events) = map_option se_at (List.find (\<lambda>e. case e of SLand at job \<Rightarrow> True | _ \<Rightarrow> False) events)"

text \<open>A part is whole when each of its jobs ends exactly once in it, and played out when no event is after the end.\<close>

definition part_whole :: "Part \<Rightarrow> bool" where
  "part_whole p \<longleftrightarrow> distinct (part_jobs p) \<and> distinct (part_ended p) \<and> set (part_ended p) = set (part_jobs p)"

definition played_out :: "int \<Rightarrow> Part \<Rightarrow> bool" where
  "played_out duration p \<longleftrightarrow> (\<forall>t\<in>set (part_times p). 0 \<le> t \<and> t < duration)"

definition captions_ok :: "int \<Rightarrow> Caption list \<Rightarrow> bool" where
  "captions_ok duration cs \<longleftrightarrow> sorted_wrt (<) (map cap_at cs) \<and> (\<forall>c\<in>set cs. 0 < cap_at c \<and> cap_at c < duration)"

definition chips_ok :: "int \<Rightarrow> Chip list \<Rightarrow> bool" where
  "chips_ok duration cs \<longleftrightarrow> (\<forall>c\<in>set cs. 0 < chip_at c \<and> chip_at c < chip_until c \<and> chip_until c \<le> duration)"

definition chapter_ok :: "Chapter \<Rightarrow> bool" where
  "chapter_ok c \<longleftrightarrow> captions_ok (ch_duration c) (ch_captions c) \<and> chips_ok (ch_duration c) (ch_chips c)
     \<and> (\<forall>p\<in>set (ch_parts c). part_whole p \<and> played_out (ch_duration c) p)"

record Telling =
  te_ok :: bool
  te_duration :: int
  te_jobs :: "string list list"
  te_started :: "string list list"
  te_lands :: "int option list"

definition telling :: "Chapter \<Rightarrow> Telling" where
  "telling c = \<lparr>te_ok = chapter_ok c, te_duration = ch_duration c, te_jobs = map part_jobs (ch_parts c),
     te_started = map part_started (ch_parts c), te_lands = map first_land (ch_parts c)\<rparr>"

section \<open>The script, run chapter by chapter\<close>

definition tells :: "(Carry \<Rightarrow> (Chapter \<times> Carry) sim) \<Rightarrow> Carry \<Rightarrow> (Telling \<times> Carry) option" where
  "tells chapter k = (case chapter k of Some (Inr (c, k')) \<Rightarrow> Some (telling c, k') | _ \<Rightarrow> None)"

fun tells_all :: "(Carry \<Rightarrow> (Chapter \<times> Carry) sim) list \<Rightarrow> Carry \<Rightarrow> Telling list option" where
  "tells_all [] k = Some []"
| "tells_all (ch # chs) k = (case tells ch k of None \<Rightarrow> None | Some (t, k') \<Rightarrow> map_option ((#) t) (tells_all chs k'))"

lemma telling_n [simp]: "telling (c\<lparr>ch_n := n\<rparr>) = telling c"
  by (simp add: telling_def chapter_ok_def)

lemma tells_written:
  "tells_all script k = Some ts \<Longrightarrow> \<exists>cs. write_from i script k = Some (Inr cs) \<and> map telling cs = ts"
proof (induction script arbitrary: k ts i)
  case (Cons ch script)
  then obtain t k' us where t: "tells ch k = Some (t, k')" "tells_all script k' = Some us" "ts = t # us"
    by (auto split: option.splits)
  then obtain c where c: "ch k = Some (Inr (c, k'))" "telling c = t"
    by (auto simp: tells_def split: option.splits sum.splits)
  obtain cs where "write_from (i + 1) script k' = Some (Inr cs)" "map telling cs = us" using Cons.IH[OF t(2)] by blast
  thus ?case using c t(3) by (auto simp: id_def)
qed simp

text \<open>The carries the chapters pass on: the core's pool, and the idle rings of the two Redis consumers.\<close>

definition story_carry :: "PoolCarry \<Rightarrow> nat list \<Rightarrow> nat list \<Rightarrow> Carry" where
  "story_carry core b c = \<lparr>ca_pools = [(Core, core), (ResultWorker, 1, [0], 0), (Second, 1, [0], 0)],
     ca_stores = [(''sqlite'', [0]), (''b'', b), (''c'', c)]\<rparr>"

definition told :: "int \<Rightarrow> string list list \<Rightarrow> string list list \<Rightarrow> int list \<Rightarrow> Telling" where
  "told d jobs started lands = \<lparr>te_ok = True, te_duration = d, te_jobs = jobs, te_started = started, te_lands = map Some lands\<rparr>"

definition tellings :: "Telling list" where
  "tellings =
    [told 8300 [[''j0'', ''j1'', ''j2'']] [[''j0'', ''j1'', ''j2'']] [1900],
     told 9000 [[''b0'', ''b1'', ''b2'', ''b3'', ''b4'']] [[''b0'', ''b1'', ''b2'', ''b3'', ''b4'']] [1900],
     told 6200 [[''x0'', ''x1'']] [[''x0'', ''x1'']] [1900],
     told 7000 [[''p5'', ''p2'', ''p8'', ''p1'', ''p3'']] [[''p1'', ''p2'', ''p3'', ''p5'', ''p8'']] [1800],
     told 17900
       [[''st0.0'', ''st0.1'', ''st0.2'', ''st0.3'', ''st0.4'', ''st0.5'', ''st1.0'', ''st1.1'', ''st1.2'', ''st1.3'', ''st1.4'',
         ''st2.0'', ''st2.1'', ''st2.2'', ''st2.3'', ''st2.4'', ''st2.5'', ''st3.0'', ''st3.1'', ''st3.2'', ''st3.3'', ''st3.4'', ''st3.5'']]
       [[''st0.0'', ''st0.3'', ''st0.1'', ''st0.4'', ''st0.5'', ''st0.2'', ''st1.1'', ''st1.3'', ''st1.0'', ''st1.4'', ''st1.2'',
         ''st2.1'', ''st2.2'', ''st2.4'', ''st2.0'', ''st2.3'', ''st2.5'', ''st3.0'', ''st3.1'', ''st3.2'', ''st3.3'', ''st3.4'', ''st3.5'']] [1300],
     told 6200 [[''t0-core'', ''t1-core''], [''t0-second'', ''t1-second'']] [[''t0-core'', ''t1-core''], [''t0-second'', ''t1-second'']] [1900, 1900],
     told 16900 [[''s0'', ''s1'', ''s2'', ''s3'']] [[''s0'', ''s1'', ''s2'', ''s0'', ''s2'', ''s3'']] [1900],
     told 11500 [[''r0'', ''r1'', ''r2'', ''r3'']] [[''r0'', ''r1'', ''r2'', ''r3'', ''r0'', ''r1'']] [2000],
     told 11600 [[''k0'', ''k1'', ''k2'', ''k3'', ''k4'', ''k5'', ''k6'']] [[''k0'', ''k1'', ''k2'', ''k3'', ''k4'', ''k5'', ''k6'']] [1300],
     told 9000 [[''zj0'', ''zj1'', ''zt0-core''], [''zt0-second''], [''zx0'', ''zx1''], [''zs0'', ''zs1''], [''zr0'', ''zr1'', ''zr2'', ''zr3'']]
       [[''zt0-core'', ''zj0'', ''zj1''], [''zt0-second''], [''zx0'', ''zx1''], [''zs0'', ''zs1''], [''zr0'', ''zr1'', ''zr2'', ''zr3'']]
       [2000, 2200, 1900, 2000, 2300]]"

lemma told1: "tells chapter1 start_carry = Some (tellings ! 0, story_carry (1, [0], 0) [0] [0])"
  by code_simp

lemma told2: "tells chapter2 (story_carry (1, [0], 0) [0] [0]) = Some (tellings ! 1, story_carry (5, [1], 0) [0] [0])"
  by code_simp

lemma told3: "tells chapter3 (story_carry (5, [1], 0) [0] [0]) = Some (tellings ! 2, story_carry (5, [1], 0) [0] [0])"
  by code_simp

lemma told4: "tells chapter4 (story_carry (5, [1], 0) [0] [0]) = Some (tellings ! 3, story_carry (5, [0], 0) [0] [0])"
  by code_simp

lemma told5: "tells chapter5 (story_carry (5, [0], 0) [0] [0]) = Some (tellings ! 4, story_carry (5, [1], 0) [0] [0])"
  by code_simp

lemma told6: "tells chapter6 (story_carry (5, [1], 0) [0] [0]) = Some (tellings ! 5, story_carry (5, [1], 0) [0] [0])"
  by code_simp

lemma told7: "tells chapter7 (story_carry (5, [1], 0) [0] [0]) = Some (tellings ! 6, story_carry (5, [1], 0) [0] [0])"
  by code_simp

lemma told8: "tells chapter8 (story_carry (5, [1], 0) [0] [0]) = Some (tellings ! 7, story_carry (5, [1], 0) [0] [0])"
  by code_simp

lemma told9: "tells chapter9 (story_carry (5, [1], 0) [0] [0]) = Some (tellings ! 8, story_carry (5, [1], 1) [0] [0])"
  by code_simp

lemma told10: "tells chapter10 (story_carry (5, [1], 1) [0] [0]) = Some (tellings ! 9, story_carry (5, [], 1) [1] [1])"
  by code_simp

lemma script_tells: "tells_all SCRIPT start_carry = Some tellings"
proof -
  have "tells_all SCRIPT start_carry = Some (map ((!) tellings) [0, 1, 2, 3, 4, 5, 6, 7, 8, 9])"
    unfolding SCRIPT_def tells_all.simps told1 told2 told3 told4 told5 told6 told7 told8 told9 told10 option.case prod.case option.map list.map
    by (rule refl)
  also have "map ((!) tellings) [0, 1, 2, 3, 4, 5, 6, 7, 8, 9] = tellings" by (simp add: tellings_def)
  finally show ?thesis .
qed

lemma story_written: "write_script SCRIPT = Some (Inr CHAPTERS)" and story_told: "map telling CHAPTERS = tellings"
  using tells_written[OF script_tells, of 0] by (auto simp: CHAPTERS_def write_script_def)

lemma story_length: "length CHAPTERS = 10"
  using arg_cong[OF story_told, of length] by (simp add: tellings_def)

lemma told_fields:
  "map chapter_ok CHAPTERS = map te_ok tellings" "map ch_duration CHAPTERS = map te_duration tellings"
  "map (\<lambda>c. map part_jobs (ch_parts c)) CHAPTERS = map te_jobs tellings"
  "map (\<lambda>c. map part_started (ch_parts c)) CHAPTERS = map te_started tellings"
  "map (\<lambda>c. map first_land (ch_parts c)) CHAPTERS = map te_lands tellings"
  unfolding story_told[symmetric] by (simp_all add: telling_def)

section \<open>The timetable of the loop\<close>

lemma starts_from_nth: "i < length cs \<Longrightarrow> starts_from t cs ! i = t + sum_list (map ch_duration (take i cs))"
proof (induction cs arbitrary: t i)
  case (Cons c cs)
  thus ?case by (cases i) auto
qed simp

lemma starts_from_length: "length (starts_from t cs) = length cs"
  by (induction cs arbitrary: t) auto

lemma total_sum: "TOTAL = sum_list (map ch_duration CHAPTERS)"
proof -
  have "fold (\<lambda>c t. t + ch_duration c) cs t = t + sum_list (map ch_duration cs)" for cs :: "Chapter list" and t
    by (induction cs arbitrary: t) auto
  thus ?thesis by (simp add: TOTAL_def)
qed

section \<open>Properties\<close>

text \<open>
  C20: the story is written. No simulation refuses a chapter's plan, there are ten chapters, and in each the captions come
  one after another inside the chapter, every job of every part ends exactly once, and no event comes after the chapter's
  end. Job ids are unique across the loop.
\<close>

theorem story_comes_out_whole:
  "write_script SCRIPT = Some (Inr CHAPTERS) \<and> map ch_n CHAPTERS = [1, 2, 3, 4, 5, 6, 7, 8, 9, 10]
    \<and> list_all chapter_ok CHAPTERS \<and> distinct (concat (concat (map (\<lambda>c. map part_jobs (ch_parts c)) CHAPTERS)))"
proof -
  have n: "write_from i script k = Some (Inr cs) \<Longrightarrow> map ch_n cs = [i + 1..<i + 1 + length cs]" for i script k cs
  proof (induction script arbitrary: i k cs)
    case (Cons ch script)
    then obtain c k' ds where "ch k = Some (Inr (c, k'))" "write_from (i + 1) script k' = Some (Inr ds)" "cs = c\<lparr>ch_n := i + 1\<rparr> # ds"
      by (auto split: option.splits sum.splits simp: map_sum_def)
    moreover from this have "map ch_n ds = [i + 2..<i + 2 + length ds]" using Cons.IH[of "i + 1" k' ds] by simp
    ultimately show ?case by (simp add: upt_conv_Cons del: upt_Suc)
  qed simp
  have "map ch_n CHAPTERS = [1..<11]" using n[OF story_written[unfolded write_script_def]] by (simp add: story_length)
  moreover have "list_all chapter_ok CHAPTERS"
  proof -
    have "set (map chapter_ok CHAPTERS) \<subseteq> {True}" unfolding told_fields(1) by (simp add: tellings_def told_def)
    thus ?thesis by (auto simp: list_all_iff)
  qed
  moreover have "distinct (concat (concat (map te_jobs tellings)))" by code_simp
  ultimately show ?thesis using story_written told_fields(3) by (simp add: upt_rec)
qed

text \<open>
  What each chapter shows. The jobs start in the order the captions announce: chapter 4's lowest number first;
  chapter 5's in bind order, then from the longest, from the shortest and from each queue in turn; in chapter 7 the two
  jobs that ran when the program died run again ahead of the one that waited, and in chapter 8 the dead program's two.
\<close>

theorem story_starts_jobs_in_order:
  "map (\<lambda>c. map part_started (ch_parts c)) CHAPTERS =
    [[[''j0'', ''j1'', ''j2'']],
     [[''b0'', ''b1'', ''b2'', ''b3'', ''b4'']],
     [[''x0'', ''x1'']],
     [[''p1'', ''p2'', ''p3'', ''p5'', ''p8'']],
     [[''st0.0'', ''st0.3'', ''st0.1'', ''st0.4'', ''st0.5'', ''st0.2'', ''st1.1'', ''st1.3'', ''st1.0'', ''st1.4'', ''st1.2'',
       ''st2.1'', ''st2.2'', ''st2.4'', ''st2.0'', ''st2.3'', ''st2.5'', ''st3.0'', ''st3.1'', ''st3.2'', ''st3.3'', ''st3.4'', ''st3.5'']],
     [[''t0-core'', ''t1-core''], [''t0-second'', ''t1-second'']],
     [[''s0'', ''s1'', ''s2'', ''s0'', ''s2'', ''s3'']],
     [[''r0'', ''r1'', ''r2'', ''r3'', ''r0'', ''r1'']],
     [[''k0'', ''k1'', ''k2'', ''k3'', ''k4'', ''k5'', ''k6'']],
     [[''zt0-core'', ''zj0'', ''zj1''], [''zt0-second''], [''zx0'', ''zx1''], [''zs0'', ''zs1''], [''zr0'', ''zr1'', ''zr2'', ''zr3'']]]"
  unfolding told_fields(4) by (simp add: tellings_def told_def)

text \<open>
  The loop has no gap and no overlap. Each chapter starts where the one before it ends, the last ends with the loop,
  and the still frame lies in the last chapter, after its camera move and before its first job lands.
\<close>

theorem loop_timetable:
  "length starts = length CHAPTERS \<and> starts ! 0 = 0
    \<and> list_all (\<lambda>i. starts ! Suc i = starts ! i + ch_duration (CHAPTERS ! i)) [0..<9]
    \<and> starts ! 9 + ch_duration (CHAPTERS ! 9) = TOTAL \<and> TOTAL = 103600
    \<and> starts ! 9 + CAMERA < STATIC_AT \<and> list_all (\<lambda>l. case l of Some t \<Rightarrow> STATIC_AT < starts ! 9 + t | None \<Rightarrow> False) (map first_land (ch_parts (CHAPTERS ! 9)))"
proof -
  let ?d = "map te_duration tellings"
  have s: "starts ! i = sum_list (take i ?d)" if "i < 10" for i
    using that starts_from_nth[of i CHAPTERS 0] by (simp add: starts_def story_length take_map flip: told_fields(2))
  have d: "ch_duration (CHAPTERS ! i) = ?d ! i" if "i < 10" for i
    using that arg_cong[OF told_fields(2), of "\<lambda>l. l ! i"] by (simp add: story_length)
  have l: "map first_land (ch_parts (CHAPTERS ! 9)) = map te_lands tellings ! 9"
    using arg_cong[OF told_fields(5), of "\<lambda>l. l ! 9"] by (simp add: story_length)
  have "?d = [8300, 9000, 6200, 7000, 17900, 6200, 16900, 11500, 11600, 9000]" by (simp add: tellings_def told_def)
  note ds = this
  have t: "TOTAL = 103600" by (simp add: total_sum told_fields(2) ds)
  have "list_all (\<lambda>i. starts ! Suc i = starts ! i + ch_duration (CHAPTERS ! i)) [0..<9]"
    by (simp add: upt_rec s d ds take_Cons' nth_Cons')
  moreover have "starts ! 9 = 94600" "starts ! 0 = 0" by (simp_all add: s ds take_Cons')
  moreover have "STATIC_AT = 95900" using \<open>starts ! 9 = 94600\<close> by (simp add: STATIC_AT_def story_length)
  moreover have "ch_duration (CHAPTERS ! 9) = 9000" by (simp add: d ds nth_Cons')
  moreover have "map te_lands tellings ! 9 = map Some [2000, 2200, 1900, 2000, 2300]" by (simp add: tellings_def told_def)
  ultimately show ?thesis unfolding l by (simp add: t CAMERA_def starts_def starts_from_length)
qed

text \<open>The header says that a chapter's first job lands at 1800 ms or later; in chapters 5 and 9 it lands at 1300 ms.\<close>

theorem first_lands_before_1800:
  "map (\<lambda>c. map first_land (ch_parts c)) CHAPTERS ! 4 = [Some 1300] \<and> map (\<lambda>c. map first_land (ch_parts c)) CHAPTERS ! 8 = [Some 1300]"
  unfolding told_fields(5) by (simp add: tellings_def told_def)

end
