(* ===== verification/Hero_Scene.thy ===== *)
theory Hero_Scene
  imports Complex_Main Prelude Hero_Stores
begin

text \<open>
  \<open>docs/src/lib/heromap/scene.ts\<close>: the world of the landing page's map. Every piece with its box, the lines between
  them, the goroutine rings, what the camera frames in each chapter, and the camera and label functions of the renderer.
  A number of the source is a \<open>real\<close>. Every constant but the zoom 1.1 is exact in binary, and the boxes are integers,
  so only \<open>frame\<close> and \<open>labelOpacity\<close> differ from the page, by the rounding of their divisions.
\<close>

section \<open>Data\<close>

type_synonym number = real

record Box =
  box_x :: number
  box_y :: number
  box_w :: number
  box_h :: number

record Camera =
  cam_x :: number
  cam_y :: number
  cam_s :: number

definition VIEW_w :: number where "VIEW_w = 400"
definition VIEW_mapH :: number where "VIEW_mapH = 344"

definition LANE_w :: number where "LANE_w = 170"
definition LANE_h :: number where "LANE_h = 44"
definition LANE_slot :: number where "LANE_slot = 22"
definition LANE_step :: number where "LANE_step = 32"
definition LANE_pad :: number where "LANE_pad = 10"

definition LABEL_PX :: number where "LABEL_PX = 14"
definition LABEL_GAP :: number where "LABEL_GAP = 6"
definition RING_R :: number where "RING_R = 11"
definition MARGIN :: number where "MARGIN = 20"
definition MAX_ZOOM :: number where "MAX_ZOOM = 11 / 10"
definition LABEL_HIDDEN_PX :: number where "LABEL_HIDDEN_PX = 23 / 4"
definition LABEL_SHOWN_PX :: number where "LABEL_SHOWN_PX = 7"

definition slotX :: "number \<Rightarrow> nat \<Rightarrow> number" where
  "slotX laneX k = laneX + LANE_w - LANE_pad - LANE_slot / 2 - LANE_step * of_nat k"

definition slotY :: "number \<Rightarrow> number" where
  "slotY laneY = laneY + LANE_h / 2"

datatype PieceKind = KProgram | KStore | KLane | KTray | KCard | KLoop | KChip

record Piece =
  p_id :: string
  p_kind :: PieceKind
  p_box :: Box
  p_chapter :: nat
  p_parent :: "string option"
  p_label :: "string option"

datatype ConnKind = KLine | KAck

record Conn =
  c_id :: string
  c_d :: string
  c_chapter :: nat
  c_kind :: ConnKind
  c_label :: "(string \<times> number \<times> number) option"

definition rect :: "number \<Rightarrow> number \<Rightarrow> number \<Rightarrow> number \<Rightarrow> Box" where
  "rect x y w h = \<lparr>box_x = x, box_y = y, box_w = w, box_h = h\<rparr>"

definition lane_box :: "number \<Rightarrow> number \<Rightarrow> Box" where
  "lane_box x y = rect x y LANE_w LANE_h"

definition chip_box :: "number \<Rightarrow> number \<Rightarrow> number \<Rightarrow> Box" where
  "chip_box x c w = rect x (c - 14) w 28"

text \<open>One entry of the two tables, with the fields in the order the tables write them.\<close>

definition piece :: "string \<Rightarrow> PieceKind \<Rightarrow> nat \<Rightarrow> Box \<Rightarrow> string option \<Rightarrow> string option \<Rightarrow> Piece" where
  "piece i k chapter b label parent =
    \<lparr>p_id = i, p_kind = k, p_box = b, p_chapter = chapter, p_parent = parent, p_label = label\<rparr>"

definition conn :: "string \<Rightarrow> ConnKind \<Rightarrow> nat \<Rightarrow> string \<Rightarrow> (string \<times> number \<times> number) option \<Rightarrow> Conn" where
  "conn i k chapter d label = \<lparr>c_id = i, c_d = d, c_chapter = chapter, c_kind = k, c_label = label\<rparr>"

definition PIECES :: "Piece list" where
  "PIECES = [
    piece ''add'' KChip 1 (chip_box 96 390 68) (Some ''Add()'') None,
    piece ''queue'' KLane 1 (lane_box 190 368) (Some ''ALERTS'') None,
    piece ''loop'' KLoop 1 (rect 494 364 52 52) (Some (''EVENT'' @ [CHR 0x0A] @ ''LOOP'')) None,
    piece ''core'' KCard 1 (rect 570 340 200 100) (Some ''WORKER'') None,
    piece ''r-add'' KChip 3 (chip_box 840 390 68) (Some ''Add()'') None,
    piece ''r-queue'' KLane 3 (lane_box 932 368) (Some ''QUEUE'') None,
    piece ''result'' KCard 3 (rect 1126 355 130 70) (Some ''RESULT WORKER'') None,
    piece ''r-value'' KChip 3 (chip_box 1280 354 60) (Some ''value'') None,
    piece ''r-error'' KChip 3 (chip_box 1280 426 60) (Some ''error'') None,
    piece ''p-add'' KChip 4 (chip_box 96 312 68) (Some ''Add()'') None,
    piece ''prio'' KLane 4 (lane_box 190 290) (Some ''REPORTS'') None,
    piece ''c-add'' KChip 5 (chip_box 96 468 68) (Some ''Add()'') None,
    piece ''queue-c'' KLane 5 (lane_box 190 446) (Some ''EMAILS'') None,
    piece ''strategy'' KChip 5 (chip_box 474 478 92) (Some ''RoundRobin'') None,
    piece ''publish'' KChip 6 (chip_box 79 180 85) (Some ''Publish()'') None,
    piece ''topic'' KLane 6 (lane_box 190 158) (Some ''TOPIC'') None,
    piece ''second'' KCard 6 (rect 570 145 130 70) (Some ''ANOTHER WORKER'') None,
    piece ''s-prog'' KProgram 7 (rect 60 580 520 140) (Some ''PROGRAM'') None,
    piece ''s-add'' KChip 7 (chip_box 88 650 68) (Some ''Add()'') (Some ''s-prog''),
    piece ''sqlite'' KCard 7 (rect 360 610 200 80) (Some ''WORKER'') (Some ''s-prog''),
    piece ''s-store'' KStore 7 (rect 220 762 210 162) (Some (''SQLITE '' @ [CHR 0xC2, CHR 0xB7] @ '' JOBS.DB'')) None,
    piece ''s-queue'' KLane 7 (lane_box 240 790) (Some ''QUEUE'') (Some ''s-store''),
    piece ''s-tray'' KTray 7 (lane_box 240 864) (Some ''IN FLIGHT'') (Some ''s-store''),
    piece ''a-prog'' KProgram 8 (rect 650 690 170 80) (Some (''PROGRAM A '' @ [CHR 0xC2, CHR 0xB7] @ '' ADDS'')) None,
    piece ''a-add'' KChip 8 (chip_box 701 730 68) (Some ''Add()'') (Some ''a-prog''),
    piece ''r-store'' KStore 8 (rect 870 652 210 162) (Some ''REDIS'') None,
    piece ''r-queue2'' KLane 8 (lane_box 890 680) (Some ''QUEUE'') (Some ''r-store''),
    piece ''r-tray'' KTray 8 (lane_box 890 754) (Some ''IN FLIGHT'') (Some ''r-store''),
    piece ''b-prog'' KProgram 8 (rect 1115 590 165 120) (Some ''PROGRAM B'') None,
    piece ''redis-b'' KCard 8 (rect 1130 625 135 70) (Some ''WORKER'') (Some ''b-prog''),
    piece ''c-prog'' KProgram 8 (rect 1115 760 165 120) (Some ''PROGRAM C'') None,
    piece ''redis-c'' KCard 8 (rect 1130 795 135 70) (Some ''WORKER'') (Some ''c-prog''),
    piece ''ctl-pause'' KChip 9 (chip_box 570 254 70) (Some ''Pause()'') None,
    piece ''ctl-resume'' KChip 9 (chip_box 648 254 78) (Some ''Resume()'') None,
    piece ''ctl-restart'' KChip 9 (chip_box 570 290 100) (Some ''Restart()'') None,
    piece ''ctl-stop'' KChip 9 (chip_box 678 290 64) (Some ''Stop()'') None]"

definition CONNS :: "Conn list" where
  "CONNS = [
    conn ''add-to-queue'' KLine 1 ''M166 390H188'' None,
    conn ''queue-to-loop'' KLine 1 ''M362 390H492'' None,
    conn ''loop-to-core'' KLine 1 ''M548 390H568'' None,
    conn ''p-add-to-prio'' KLine 4 ''M166 312H188'' None,
    conn ''prio-to-loop'' KLine 4 ''M362 312H430L492 384'' None,
    conn ''c-add-to-queue-c'' KLine 5 ''M166 468H188'' None,
    conn ''queue-c-to-loop'' KLine 5 ''M362 468H430L492 396'' None,
    conn ''publish-to-topic'' KLine 6 ''M166 180H188'' None,
    conn ''topic-to-second'' KLine 6 ''M362 172H568'' None,
    conn ''topic-to-loop'' KLine 6 ''M362 188H520V362'' None,
    conn ''r-add-to-r-queue'' KLine 3 ''M910 390H930'' None,
    conn ''r-queue-to-result'' KLine 3 ''M1104 390H1124'' None,
    conn ''result-to-r-value'' KLine 3 ''M1258 382L1278 354'' None,
    conn ''result-to-r-error'' KLine 3 ''M1258 398L1278 426'' None,
    conn ''s-add-to-s-queue'' KLine 7 ''M122 666V812H238'' None,
    conn ''s-queue-to-sqlite'' KLine 7 ''M412 812H460V692'' None,
    conn ''sqlite-to-s-tray'' KAck 7 ''M540 692V886H412'' (Some (''ACK'', 548, 802)),
    conn ''a-add-to-r-queue2'' KLine 8 ''M771 730H867V702H888'' None,
    conn ''r-queue2-to-redis-b'' KLine 8 ''M1062 702H1095V660H1128'' None,
    conn ''r-queue2-to-redis-c'' KLine 8 ''M1095 702V830H1128'' None,
    conn ''redis-b-to-r-tray'' KAck 8 ''M1128 680H1087V776H1062'' None,
    conn ''redis-c-to-r-tray'' KAck 8 ''M1128 845H1087V776'' None]"

datatype RingWorker = WCore | WResult | WSecond | WSqlite | WRedisB | WRedisC

fun ring_worker_id :: "RingWorker \<Rightarrow> string" where
  "ring_worker_id WCore = ''core''"
| "ring_worker_id WResult = ''result''"
| "ring_worker_id WSecond = ''second''"
| "ring_worker_id WSqlite = ''sqlite''"
| "ring_worker_id WRedisB = ''redis-b''"
| "ring_worker_id WRedisC = ''redis-c''"

record Pt =
  pt_x :: number
  pt_y :: number

definition pt :: "number \<Rightarrow> number \<Rightarrow> Pt" where
  "pt x y = \<lparr>pt_x = x, pt_y = y\<rparr>"

fun RINGS :: "RingWorker \<Rightarrow> Pt list" where
  "RINGS WCore = map (\<lambda>x. pt x 390) [670, 638, 702, 606, 734]"
| "RINGS WResult = [pt 1191 390]"
| "RINGS WSecond = [pt 635 180]"
| "RINGS WSqlite = [pt 435 650, pt 485 650]"
| "RINGS WRedisB = [pt 1172 660, pt 1222 660]"
| "RINGS WRedisC = [pt 1172 830, pt 1222 830]"

section \<open>What the camera frames\<close>

text \<open>A \<open>Map\<close> made from entries keeps the last one of a key.\<close>

definition byId :: "string \<Rightarrow> Piece option" where
  "byId i = find (\<lambda>p. p_id p = i) (rev PIECES)"

text \<open>
  \<open>Math.min\<close> and \<open>Math.max\<close> of at least one number; of none they are infinite, and the union of no boxes is no box of
  numbers. That case is an error value here.
\<close>

definition min_of :: "number \<Rightarrow> number list \<Rightarrow> number" where
  "min_of x xs = fold min xs x"

definition max_of :: "number \<Rightarrow> number list \<Rightarrow> number" where
  "max_of x xs = fold max xs x"

datatype SceneErr = UnknownPiece string | NoBoxes

fun union :: "Box list \<Rightarrow> SceneErr + Box" where
  "union [] = Inl NoBoxes"
| "union (b # bs) =
    (let x = min_of (box_x b) (map box_x bs); y = min_of (box_y b) (map box_y bs) in
     Inr \<lparr>box_x = x, box_y = y, box_w = max_of (box_x b + box_w b) (map (\<lambda>b. box_x b + box_w b) bs) - x,
       box_h = max_of (box_y b + box_h b) (map (\<lambda>b. box_y b + box_h b) bs) - y\<rparr>)"

definition labelled_box :: "Piece \<Rightarrow> Box" where
  "labelled_box p =
    (if p_label p = None \<or> p_label p = Some '''' \<or> p_kind p = KChip \<or> p_kind p = KLoop then p_box p
     else rect (box_x (p_box p)) (box_y (p_box p) - LABEL_PX - LABEL_GAP) (box_w (p_box p)) (box_h (p_box p) + LABEL_PX + LABEL_GAP))"

fun boxes_of :: "string list \<Rightarrow> SceneErr + Box list" where
  "boxes_of [] = Inr []"
| "boxes_of (i # ids) =
    (case byId i of None \<Rightarrow> Inl (UnknownPiece i) | Some p \<Rightarrow> map_sum (\<lambda>e. e) ((#) (labelled_box p)) (boxes_of ids))"

definition around :: "string list \<Rightarrow> SceneErr + Box" where
  "around ids = (case boxes_of ids of Inl e \<Rightarrow> Inl e | Inr bs \<Rightarrow> union bs)"

definition upTo :: "Box \<Rightarrow> number \<Rightarrow> Box" where
  "upTo b y = rect (box_x b) y (box_w b) (box_y b + box_h b - y)"

text \<open>The array literal: its elements are computed in order, and the first that throws ends it.\<close>

fun all_boxes :: "(SceneErr + Box) list \<Rightarrow> SceneErr + Box list" where
  "all_boxes [] = Inr []"
| "all_boxes (r # rs) = (case r of Inl e \<Rightarrow> Inl e | Inr b \<Rightarrow> map_sum (\<lambda>e. e) ((#) b) (all_boxes rs))"

definition REGIONS :: "SceneErr + Box list" where
  "REGIONS = all_boxes [
    around [''add'', ''queue'', ''loop'', ''core''],
    around [''queue'', ''loop'', ''core'', ''ctl-restart''],
    around [''r-add'', ''r-queue'', ''result'', ''r-value'', ''r-error''],
    around [''p-add'', ''prio'', ''loop'', ''core''],
    around [''p-add'', ''c-add'', ''prio'', ''queue-c'', ''strategy'', ''loop'', ''core''],
    around [''publish'', ''topic'', ''second'', ''core''],
    around [''s-prog'', ''s-store''],
    around [''a-prog'', ''b-prog'', ''c-prog'', ''r-store''],
    map_sum (\<lambda>e. e) (\<lambda>b. upTo b 36) (around [''queue'', ''loop'', ''core'', ''ctl-pause'', ''ctl-resume'', ''ctl-restart'', ''ctl-stop'', ''topic'', ''second'']),
    union (map p_box PIECES)]"

definition frame :: "Box \<Rightarrow> Camera" where
  "frame b = \<lparr>cam_x = box_x b + box_w b / 2, cam_y = box_y b + box_h b / 2,
     cam_s = min (min (VIEW_w / (box_w b + 2 * MARGIN)) (VIEW_mapH / (box_h b + 2 * MARGIN))) MAX_ZOOM\<rparr>"

definition labelOpacity :: "number \<Rightarrow> number" where
  "labelOpacity s =
    (let t = (LABEL_PX * s - LABEL_HIDDEN_PX) / (LABEL_SHOWN_PX - LABEL_HIDDEN_PX) in min 1 (max 0 t))"

lemmas scene_consts = VIEW_w_def VIEW_mapH_def LANE_w_def LANE_h_def LANE_slot_def LANE_step_def LANE_pad_def
  LABEL_PX_def LABEL_GAP_def RING_R_def MARGIN_def MAX_ZOOM_def LABEL_HIDDEN_PX_def LABEL_SHOWN_PX_def

section \<open>Boxes and the camera's view\<close>

text \<open>One box inside another, and two that share an inner point; the part of the world a camera shows.\<close>

definition inside :: "Box \<Rightarrow> Box \<Rightarrow> bool" where
  "inside a b \<longleftrightarrow> box_x b \<le> box_x a \<and> box_y b \<le> box_y a
    \<and> box_x a + box_w a \<le> box_x b + box_w b \<and> box_y a + box_h a \<le> box_y b + box_h b"

definition overlap :: "Box \<Rightarrow> Box \<Rightarrow> bool" where
  "overlap a b \<longleftrightarrow> box_x a < box_x b + box_w b \<and> box_x b < box_x a + box_w a
    \<and> box_y a < box_y b + box_h b \<and> box_y b < box_y a + box_h a"

definition view_of :: "Camera \<Rightarrow> Box" where
  "view_of c = rect (cam_x c - VIEW_w / 2 / cam_s c) (cam_y c - VIEW_mapH / 2 / cam_s c) (VIEW_w / cam_s c) (VIEW_mapH / cam_s c)"

definition grown :: "Box \<Rightarrow> Box" where
  "grown b = rect (box_x b - MARGIN) (box_y b - MARGIN) (box_w b + 2 * MARGIN) (box_h b + 2 * MARGIN)"

lemma inside_refl [simp]: "inside b b"
  by (simp add: inside_def)

lemma inside_trans: "inside a b \<Longrightarrow> inside b c \<Longrightarrow> inside a c"
  unfolding inside_def by linarith

text \<open>With the camera on a box's middle, the view holds the grown box exactly when both sides fit.\<close>

lemma inside_view_iff:
  assumes "0 < s"
  shows "inside (grown b) (view_of \<lparr>cam_x = box_x b + box_w b / 2, cam_y = box_y b + box_h b / 2, cam_s = s\<rparr>)
    \<longleftrightarrow> s * (box_w b + 2 * MARGIN) \<le> VIEW_w \<and> s * (box_h b + 2 * MARGIN) \<le> VIEW_mapH"
proof -
  have half: "x + y / 2 - v / 2 / s \<le> x - m \<longleftrightarrow> s * (y + 2 * m) \<le> v"
    "x - m + (y + 2 * m) \<le> x + y / 2 - v / 2 / s + v / s \<longleftrightarrow> s * (y + 2 * m) \<le> v" for x y v m :: real
  proof -
    have "s * (y + 2 * m) \<le> v \<longleftrightarrow> y + 2 * m \<le> v / s" "v / 2 / s = v / s / 2"
      using assms by (simp_all add: pos_le_divide_eq mult.commute)
    then show "x + y / 2 - v / 2 / s \<le> x - m \<longleftrightarrow> s * (y + 2 * m) \<le> v"
      "x - m + (y + 2 * m) \<le> x + y / 2 - v / 2 / s + v / s \<longleftrightarrow> s * (y + 2 * m) \<le> v" by linarith+
  qed
  show ?thesis unfolding inside_def grown_def view_of_def rect_def Box.simps Camera.simps half by blast
qed

lemma min_of_least: "\<forall>y \<in> set (x # xs). min_of x xs \<le> y" and min_of_greatest: "(\<forall>y \<in> set (x # xs). z \<le> y) \<Longrightarrow> z \<le> min_of x xs"
  by (induction xs arbitrary: x) (fastforce simp: min_of_def)+

lemma max_of_greatest: "\<forall>y \<in> set (x # xs). y \<le> max_of x xs" and max_of_least: "(\<forall>y \<in> set (x # xs). y \<le> z) \<Longrightarrow> max_of x xs \<le> z"
  by (induction xs arbitrary: x) (fastforce simp: max_of_def)+

lemma union_least_box:
  assumes "union bs = Inr u"
  shows "\<forall>b \<in> set bs. inside b u" "(\<forall>b \<in> set bs. inside b v) \<Longrightarrow> inside u v"
proof -
  obtain b0 rest where bs: "bs = b0 # rest" using assms by (cases bs) auto
  have u: "u = \<lparr>box_x = min_of (box_x b0) (map box_x rest), box_y = min_of (box_y b0) (map box_y rest),
     box_w = max_of (box_x b0 + box_w b0) (map (\<lambda>b. box_x b + box_w b) rest) - min_of (box_x b0) (map box_x rest),
     box_h = max_of (box_y b0 + box_h b0) (map (\<lambda>b. box_y b + box_h b) rest) - min_of (box_y b0) (map box_y rest)\<rparr>"
    using assms by (simp add: bs Let_def)
  show "\<forall>b \<in> set bs. inside b u"
    using min_of_least[of "box_x b0" "map box_x rest"] min_of_least[of "box_y b0" "map box_y rest"]
      max_of_greatest[of "box_x b0 + box_w b0" "map (\<lambda>b. box_x b + box_w b) rest"]
      max_of_greatest[of "box_y b0 + box_h b0" "map (\<lambda>b. box_y b + box_h b) rest"]
    by (auto simp: inside_def u bs)
  show "inside u v" if "\<forall>b \<in> set bs. inside b v"
    using that min_of_greatest[of "box_x b0" "map box_x rest" "box_x v"] min_of_greatest[of "box_y b0" "map box_y rest" "box_y v"]
      max_of_least[of "box_x b0 + box_w b0" "map (\<lambda>b. box_x b + box_w b) rest" "box_x v + box_w v"]
      max_of_least[of "box_y b0 + box_h b0" "map (\<lambda>b. box_y b + box_h b) rest" "box_y v + box_h v"]
    by (auto simp: inside_def u bs)
qed

section \<open>The camera\<close>

lemma frame_fits:
  assumes "0 \<le> box_w b" "0 \<le> box_h b"
  shows "inside (grown b) (view_of (frame b))" "0 < cam_s (frame b)" "cam_s (frame b) \<le> MAX_ZOOM"
    "\<lbrakk>0 < t; t \<le> MAX_ZOOM; inside (grown b) (view_of ((frame b)\<lparr>cam_s := t\<rparr>))\<rbrakk> \<Longrightarrow> t \<le> cam_s (frame b)"
proof -
  have pos: "0 < box_w b + 2 * MARGIN" "0 < box_h b + 2 * MARGIN" using assms by (simp_all add: MARGIN_def)
  let ?s = "min (min (VIEW_w / (box_w b + 2 * MARGIN)) (VIEW_mapH / (box_h b + 2 * MARGIN))) MAX_ZOOM"
  have f: "frame b = \<lparr>cam_x = box_x b + box_w b / 2, cam_y = box_y b + box_h b / 2, cam_s = ?s\<rparr>"
    by (simp add: frame_def)
  have s: "0 < ?s" using pos by (simp add: scene_consts)
  then show "0 < cam_s (frame b)" "cam_s (frame b) \<le> MAX_ZOOM" by (simp_all add: f)
  have fits: "r \<le> VIEW_w / (box_w b + 2 * MARGIN) \<longleftrightarrow> r * (box_w b + 2 * MARGIN) \<le> VIEW_w"
    "r \<le> VIEW_mapH / (box_h b + 2 * MARGIN) \<longleftrightarrow> r * (box_h b + 2 * MARGIN) \<le> VIEW_mapH" for r
    using pos by (simp_all add: field_simps)
  show "inside (grown b) (view_of (frame b))"
    unfolding f inside_view_iff[OF s] fits[symmetric] by (simp add: min_le_iff_disj)
  show "t \<le> cam_s (frame b)" if "0 < t" "t \<le> MAX_ZOOM" "inside (grown b) (view_of ((frame b)\<lparr>cam_s := t\<rparr>))"
    using that(2) that(3)[unfolded f, simplified, unfolded inside_view_iff[OF that(1)], folded fits] by (simp add: f)
qed

lemma region_in_view: "inside a b \<Longrightarrow> 0 \<le> box_w b \<Longrightarrow> 0 \<le> box_h b \<Longrightarrow> inside a (view_of (frame b))"
  by (rule inside_trans[OF inside_trans[of a b "grown b"] frame_fits(1)]) (simp_all add: inside_def grown_def rect_def MARGIN_def)

text \<open>
  C21: the camera \<open>frame\<close> gives for a box shows the whole box with the margin on every side, is never zoomed in past 1.1, and
  no other zoom up to 1.1, with the camera in the same place, both shows that much and is closer.
\<close>
theorem frame_is_closest_fit:
  assumes "0 \<le> box_w b" "0 \<le> box_h b"
  shows "inside (grown b) (view_of (frame b)) \<and> 0 < cam_s (frame b) \<and> cam_s (frame b) \<le> MAX_ZOOM
    \<and> (\<forall>s. 0 < s \<and> s \<le> MAX_ZOOM \<and> inside (grown b) (view_of ((frame b)\<lparr>cam_s := s\<rparr>)) \<longrightarrow> s \<le> cam_s (frame b))"
  using frame_fits[OF assms] by blast

theorem frame_is_closest_fit_witness:
  "inside (grown (rect 0 0 960 100)) (view_of (frame (rect 0 0 960 100))) \<and> cam_s (frame (rect 0 0 960 100)) = 2 / 5"
  using frame_is_closest_fit[of "rect 0 0 960 100"] by (simp add: rect_def frame_def scene_consts)

text \<open>
  A label's opacity is between 0 and 1 and never falls as the camera closes in; it is 0 exactly up to 5.75 px on screen and
  1 exactly from 7 px on.
\<close>
theorem labelOpacity_fades:
  "0 \<le> labelOpacity s \<and> labelOpacity s \<le> 1 \<and> (labelOpacity s = 0 \<longleftrightarrow> LABEL_PX * s \<le> LABEL_HIDDEN_PX)
    \<and> (labelOpacity s = 1 \<longleftrightarrow> LABEL_SHOWN_PX \<le> LABEL_PX * s) \<and> labelOpacity (min s t) \<le> labelOpacity s"
  unfolding labelOpacity_def Let_def by (auto simp: scene_consts min_def max_def field_simps)

section \<open>The map\<close>

text \<open>
  A piece's place in the table: its chapter is 1 to 9, and when it names a parent, that is a piece before it in the
  table, switched on no later, whose box holds its own.
\<close>

definition well_placed :: "nat \<Rightarrow> bool" where
  "well_placed i = (let p = PIECES ! i in 1 \<le> p_chapter p \<and> p_chapter p \<le> 9
    \<and> (case p_parent p of None \<Rightarrow> True | Some q \<Rightarrow>
        list_ex (\<lambda>b. p_id b = q \<and> p_chapter b \<le> p_chapter p \<and> inside (p_box p) (p_box b)) (take i PIECES)))"

text \<open>
  No two pieces or lines share an id, each switches on in a chapter from 1 to 9, a piece drawn inside another comes after it
  and lies in its box, and pieces that are not one inside the other do not overlap.
\<close>
theorem map_is_consistent:
  "distinct (map p_id PIECES @ map c_id CONNS) \<and> list_all well_placed [0..<length PIECES]
    \<and> list_all (\<lambda>c. 1 \<le> c_chapter c \<and> c_chapter c \<le> 9) CONNS
    \<and> list_all (\<lambda>a. list_all (\<lambda>b. p_id a = p_id b \<or> p_parent a = Some (p_id b) \<or> p_parent b = Some (p_id a)
        \<or> \<not> overlap (p_box a) (p_box b)) PIECES) PIECES"
  by code_simp

definition region_boxes :: "Box list" where
  "region_boxes = [rect 96 320 674 120, rect 190 276 580 164, rect 840 335 500 105, rect 96 270 674 170,
    rect 96 270 674 222, rect 79 125 691 315, rect 60 560 520 364, rect 650 570 630 310, rect 190 36 580 404, rect 60 145 1280 779]"

lemma REGIONS_eq: "REGIONS = Inr region_boxes"
  by code_simp

lemma pieces_in_regions:
  "list_all (\<lambda>p. inside (p_box p) (region_boxes ! (p_chapter p - 1)) \<and> inside (p_box p) (region_boxes ! 9) \<and> p_chapter p - 1 < 10) PIECES"
  by code_simp

lemma region_sides: "i < 10 \<Longrightarrow> 0 \<le> box_w (region_boxes ! i) \<and> 0 \<le> box_h (region_boxes ! i)"
  by (simp add: region_boxes_def less_Suc_eq numeral_eq_Suc rect_def) (elim disjE; simp)

text \<open>
  \<open>REGIONS\<close> is computed without an unknown piece, and the camera it gives each chapter shows every piece that switches on
  there; the last one shows the whole map. At the narrowest square of the page (368 px) the labels of chapters 1 to 9 are fully
  shown, at the widest (524 px) those of the finale are hidden, and in chapter 9 the camera sits at y 238 with the SQLite program
  and its label out of view.
\<close>
theorem chapters_are_in_view:
  "\<exists>rs. REGIONS = Inr rs \<and> length rs = 10
    \<and> list_all (\<lambda>p. inside (p_box p) (view_of (frame (rs ! (p_chapter p - 1)))) \<and> inside (p_box p) (view_of (frame (rs ! 9)))) PIECES
    \<and> list_all (\<lambda>b. labelOpacity (cam_s (frame b) * 368 / VIEW_w) = 1) (take 9 rs)
    \<and> labelOpacity (cam_s (frame (rs ! 9)) * 524 / VIEW_w) = 0
    \<and> cam_y (frame (rs ! 8)) = 238
    \<and> (\<exists>p. byId ''s-prog'' = Some p \<and> \<not> overlap (labelled_box p) (view_of (frame (rs ! 8))))"
proof (intro exI[of _ region_boxes] conjI)
  show "list_all (\<lambda>p. inside (p_box p) (view_of (frame (region_boxes ! (p_chapter p - 1))))
      \<and> inside (p_box p) (view_of (frame (region_boxes ! 9)))) PIECES"
    using pieces_in_regions by (rule list.pred_mono_strong) (simp add: region_in_view region_sides)
  show "list_all (\<lambda>b. labelOpacity (cam_s (frame b) * 368 / VIEW_w) = 1) (take 9 region_boxes)"
    by (simp add: region_boxes_def labelOpacity_def frame_def rect_def scene_consts)
  have "byId ''s-prog'' = Some (piece ''s-prog'' KProgram 7 (rect 60 580 520 140) (Some ''PROGRAM'') None)" by code_simp
  then show "\<exists>p. byId ''s-prog'' = Some p \<and> \<not> overlap (labelled_box p) (view_of (frame (region_boxes ! 8)))"
    by (simp add: region_boxes_def overlap_def labelled_box_def piece_def view_of_def frame_def rect_def scene_consts)
qed (simp_all add: REGIONS_eq, simp_all add: region_boxes_def labelOpacity_def frame_def rect_def scene_consts)

end
