(* ===== verification/Hero_Score.thy ===== *)
theory Hero_Score
  imports Hero_Scene "HOL-Library.AList"
begin

text \<open>
  \<open>docs/src/lib/heromap/score.ts\<close>: the score of the landing page's animation. A track is what one property of one element
  does over the loop, a cue is a tween or a set at a time; the choreographer writes both, and \<open>building\<close> turns the cues into calls
  of an anime.js timeline.

  What the page and anime.js provide is a parameter: the objects that are animated are a type variable, \<open>Stage.path\<close> and
  \<open>Stage.drawable\<close> are arguments of the operations that call them, and the timeline is the list of calls made on it.
  The text \<open>format\<close> writes for \<open>draw\<close> is kept as its two numbers. A tween between value lists of different lengths, where the
  source computes with \<open>undefined\<close> and gets NaN, is the error \<open>NotANumber\<close>.
\<close>

section \<open>Geometry\<close>

type_synonym Ease = "number \<Rightarrow> number"

definition dist_pt :: "Pt \<Rightarrow> Pt \<Rightarrow> number" where
  "dist_pt a b = sqrt ((pt_x b - pt_x a)\<^sup>2 + (pt_y b - pt_y a)\<^sup>2)"

fun lengthOf :: "Pt list \<Rightarrow> number" where
  "lengthOf (p # q # pts) = dist_pt p q + lengthOf (q # pts)"
| "lengthOf pts = 0"

definition clamp01 :: "number \<Rightarrow> number" where
  "clamp01 t = min 1 (max 0 t)"

definition between_pts :: "Pt \<Rightarrow> Pt \<Rightarrow> number \<Rightarrow> Pt" where
  "between_pts a b f = pt (pt_x a + (pt_x b - pt_x a) * f) (pt_y a + (pt_y b - pt_y a) * f)"

text \<open>The loop over the segments; a polyline of one point is that point, and of none \<open>undefined\<close>.\<close>

fun along :: "Pt list \<Rightarrow> number \<Rightarrow> Pt option" where
  "along [] d = None"
| "along [p] d = Some p"
| "along (p # q # pts) d =
    (let seg = dist_pt p q in
     if d \<le> seg \<or> pts = [] then Some (between_pts p q (if seg = 0 then 1 else clamp01 (d / seg)))
     else along (q # pts) (d - seg))"

definition trajectory :: "Pt list \<Rightarrow> number \<Rightarrow> number \<Rightarrow> Ease \<Rightarrow> number \<Rightarrow> Pt option" where
  "trajectory pts start duration ease t = along pts (ease (clamp01 ((t - start) / duration)) * lengthOf pts)"

fun bisect :: "nat \<Rightarrow> Ease \<Rightarrow> number \<Rightarrow> number \<Rightarrow> number \<Rightarrow> number" where
  "bisect 0 ease v lo hi = hi"
| "bisect (Suc n) ease v lo hi =
    (let mid = (lo + hi) / 2 in if ease mid < v then bisect n ease v mid hi else bisect n ease v lo mid)"

definition solve :: "Ease \<Rightarrow> number \<Rightarrow> number" where
  "solve ease v = bisect 30 ease v 0 1"

section \<open>Tracks\<close>

record Seg =
  sg_start :: number
  sg_end :: number
  sg_at :: "number \<Rightarrow> number list"

record Track =
  tk_name :: string
  tk_initial :: "number list"
  tk_segs :: "Seg list"

fun segs_at :: "Seg list \<Rightarrow> number \<Rightarrow> number list \<Rightarrow> number list" where
  "segs_at [] t v = v"
| "segs_at (s # segs) t v = (if t < sg_start s then v else segs_at segs t (sg_at s (min t (sg_end s))))"

definition track_at :: "Track \<Rightarrow> number \<Rightarrow> number list" where
  "track_at tk t = segs_at (tk_segs tk) t (tk_initial tk)"

definition track_end :: "Track \<Rightarrow> number" where
  "track_end tk = (if tk_segs tk = [] then 0 else sg_end (last (tk_segs tk)))"

definition endsInSet :: "Track \<Rightarrow> bool" where
  "endsInSet tk \<longleftrightarrow> tk_segs tk = [] \<or> sg_start (last (tk_segs tk)) = sg_end (last (tk_segs tk))"

datatype ScoreErr =
    TweenedBefore string number number
  | NoStart string
  | StaggeredDiffer string
  | NoRoomAfter string number
  | PastTheEnd number
  | NotANumber string

definition push :: "Seg \<Rightarrow> Track \<Rightarrow> ScoreErr + Track" where
  "push seg tk =
    (if tk_segs tk \<noteq> [] \<and> sg_start seg < sg_start (last (tk_segs tk))
     then Inl (TweenedBefore (tk_name tk) (sg_start seg) (sg_start (last (tk_segs tk))))
     else Inr (tk\<lparr>tk_segs := tk_segs tk @ [seg]\<rparr>))"

section \<open>Values and cues\<close>

datatype Val = VNum number | VArr "number list"

type_synonym Values = "(string \<times> Val) list"

fun asArray :: "Val \<Rightarrow> number list" where
  "asArray (VNum x) = [x]"
| "asArray (VArr xs) = xs"

text \<open>\<open>v[i]\<close>, which is \<open>undefined\<close> past the end, and what \<open>format\<close> makes of a value.\<close>

definition elem_at :: "number list \<Rightarrow> nat \<Rightarrow> number option" where
  "elem_at v i = (if i < length v then Some (v ! i) else None)"

datatype Fmt = FNum "number option" | FDraw "number option" "number option"

definition format :: "string \<Rightarrow> number list \<Rightarrow> Fmt" where
  "format prop v = (if prop = ''draw'' then FDraw (elem_at v 0) (elem_at v 1) else FNum (elem_at v 0))"

definition props :: "Track \<Rightarrow> number list \<Rightarrow> (string \<times> Fmt) list" where
  "props tk v = (if tk_name tk = ''pos'' then [(''translateX'', FNum (elem_at v 0)), (''translateY'', FNum (elem_at v 1))]
     else [(tk_name tk, format (tk_name tk) v)])"

definition lerp :: "number list \<Rightarrow> number list \<Rightarrow> number \<Rightarrow> number list" where
  "lerp a b f = map (\<lambda>i. a ! i + (b ! i - a ! i) * f) [0..<length a]"

datatype 'm PVal = PFromTo Fmt Fmt | PTo Fmt | PMotion 'm

record 'm Params =
  pa_duration :: "number option"
  pa_ease :: "Ease option"
  pa_props :: "(string \<times> 'm PVal) list"

datatype 'o Targets = OneTarget 'o | ManyTargets "'o list"

record ('o, 'm) Cue =
  cu_at :: number
  cu_targets :: "'o Targets"
  cu_params :: "'m Params"
  cu_set :: bool
  cu_stagger :: "number option"

definition SET_EARLY :: number where "SET_EARLY = 1 / 2"
definition PAD_after :: number where "PAD_after = 1"
definition PAD_duration :: number where "PAD_duration = 4"
definition SLICE :: nat where "SLICE = 25"

section \<open>The score\<close>

record ('o, 'm) Score =
  sc_cues :: "('o, 'm) Cue list"
  sc_total :: number
  sc_tracks :: "('o \<times> (string \<times> Track) list) list"
  sc_drawables :: "('o \<times> 'o) list"
  sc_finished :: bool

definition new_score :: "number \<Rightarrow> ('o, 'm) Score" where
  "new_score len = \<lparr>sc_cues = [], sc_total = len, sc_tracks = [], sc_drawables = [], sc_finished = False\<rparr>"

definition drawable :: "('o \<Rightarrow> 'o) \<Rightarrow> 'o \<Rightarrow> ('o, 'm) Score \<Rightarrow> 'o \<times> ('o, 'm) Score" where
  "drawable stage_drawable el s = (case map_of (sc_drawables s) el of
     Some proxy \<Rightarrow> (proxy, s)
   | None \<Rightarrow> (let proxy = stage_drawable el in (proxy, s\<lparr>sc_drawables := sc_drawables s @ [(el, proxy)]\<rparr>)))"

fun start_props :: "Values \<Rightarrow> (string \<times> Track) list \<Rightarrow> (string \<times> Track) list" where
  "start_props [] tks = tks"
| "start_props ((prop, v) # vs) tks = start_props vs
    (if map_of tks prop = None then tks @ [(prop, \<lparr>tk_name = prop, tk_initial = asArray v, tk_segs = []\<rparr>)] else tks)"

definition tracks_of :: "('o, 'm) Score \<Rightarrow> 'o \<Rightarrow> (string \<times> Track) list" where
  "tracks_of s target = (case map_of (sc_tracks s) target of None \<Rightarrow> [] | Some tks \<Rightarrow> tks)"

definition score_start :: "'o \<Rightarrow> Values \<Rightarrow> ('o, 'm) Score \<Rightarrow> ('o, 'm) Score" where
  "score_start target vs s = s\<lparr>sc_tracks := AList.update target (start_props vs (tracks_of s target)) (sc_tracks s)\<rparr>"

definition get_track :: "('o, 'm) Score \<Rightarrow> 'o \<Rightarrow> string \<Rightarrow> ScoreErr + Track" where
  "get_track s target prop = (case map_of (tracks_of s target) prop of None \<Rightarrow> Inl (NoStart prop) | Some tk \<Rightarrow> Inr tk)"

text \<open>A track object changed in place: the score with that track replaced.\<close>

definition put_track :: "'o \<Rightarrow> string \<Rightarrow> Track \<Rightarrow> ('o, 'm) Score \<Rightarrow> ('o, 'm) Score" where
  "put_track target prop tk s =
    s\<lparr>sc_tracks := AList.update target (AList.update prop tk (tracks_of s target)) (sc_tracks s)\<rparr>"

definition push_on :: "'o \<Rightarrow> string \<Rightarrow> Seg \<Rightarrow> ('o, 'm) Score \<Rightarrow> ScoreErr + ('o, 'm) Score" where
  "push_on target prop seg s = (case get_track s target prop of Inl e \<Rightarrow> Inl e
     | Inr tk \<Rightarrow> (case push seg tk of Inl e \<Rightarrow> Inl e | Inr tk' \<Rightarrow> Inr (put_track target prop tk' s)))"

definition all_tracks :: "('o, 'm) Score \<Rightarrow> ('o \<times> Track) list" where
  "all_tracks s = concat (map (\<lambda>(target, tks). map (\<lambda>(_, tk). (target, tk)) tks) (sc_tracks s))"

definition score_at :: "('o, 'm) Score \<Rightarrow> 'o \<Rightarrow> string \<Rightarrow> number \<Rightarrow> ScoreErr + number list" where
  "score_at s target prop t = map_sum (\<lambda>e. e) (\<lambda>tk. track_at tk t) (get_track s target prop)"

definition add_cue :: "('o, 'm) Cue \<Rightarrow> ('o, 'm) Score \<Rightarrow> ('o, 'm) Score" where
  "add_cue c s = s\<lparr>sc_cues := sc_cues s @ [c]\<rparr>"

definition tween_seg :: "number list \<Rightarrow> number list \<Rightarrow> number \<Rightarrow> number \<Rightarrow> Ease \<Rightarrow> Seg" where
  "tween_seg a b start duration ease =
    \<lparr>sg_start = start, sg_end = start + duration, sg_at = \<lambda>t. lerp a b (ease (clamp01 ((t - start) / duration)))\<rparr>"

fun tween_props :: "'o \<Rightarrow> Values \<Rightarrow> number \<Rightarrow> number \<Rightarrow> Ease \<Rightarrow> Values \<Rightarrow> (string \<times> 'm PVal) list \<Rightarrow> ('o, 'm) Score
    \<Rightarrow> ScoreErr + (string \<times> 'm PVal) list \<times> ('o, 'm) Score" where
  "tween_props target [] start duration ease from ps s = Inr (ps, s)"
| "tween_props target ((prop, v) # vs) start duration ease from ps s =
    (case get_track s target prop of Inl e \<Rightarrow> Inl e
     | Inr tk \<Rightarrow>
        (let a = (case map_of from prop of Some f \<Rightarrow> asArray f | None \<Rightarrow> track_at tk start); b = asArray v in
         if length b < length a then Inl (NotANumber prop)
         else (case push_on target prop (tween_seg a b start duration ease) s of Inl e \<Rightarrow> Inl e
               | Inr s' \<Rightarrow> tween_props target vs start duration ease from
                   (AList.update prop (PFromTo (format prop a) (format prop b)) ps) s')))"

definition score_tween :: "'o \<Rightarrow> Values \<Rightarrow> number \<Rightarrow> number \<Rightarrow> Ease \<Rightarrow> Values \<Rightarrow> ('o, 'm) Score \<Rightarrow> ScoreErr + ('o, 'm) Score" where
  "score_tween target vs start duration ease from s =
    (case tween_props target vs start duration ease from [] s of Inl e \<Rightarrow> Inl e
     | Inr (ps, s') \<Rightarrow> Inr (add_cue \<lparr>cu_at = start, cu_targets = OneTarget target,
         cu_params = \<lparr>pa_duration = Some duration, pa_ease = Some ease, pa_props = ps\<rparr>, cu_set = False, cu_stagger = None\<rparr> s'))"

text \<open>The targets of one property in turn, the k-th \<open>gap * k\<close> later: the formatted from-values and the score.\<close>

fun stagger_targets :: "nat \<Rightarrow> 'o list \<Rightarrow> string \<Rightarrow> number list \<Rightarrow> number \<Rightarrow> number \<Rightarrow> number \<Rightarrow> Ease \<Rightarrow> ('o, 'm) Score
    \<Rightarrow> ScoreErr + Fmt list \<times> ('o, 'm) Score" where
  "stagger_targets k [] prop b start gap duration ease s = Inr ([], s)"
| "stagger_targets k (target # targets) prop b start gap duration ease s =
    (case get_track s target prop of Inl e \<Rightarrow> Inl e
     | Inr tk \<Rightarrow>
        (let time = start + gap * of_nat k; a = track_at tk time in
         if length b < length a then Inl (NotANumber prop)
         else (case push_on target prop (tween_seg a b time duration ease) s of Inl e \<Rightarrow> Inl e
               | Inr s' \<Rightarrow> map_sum (\<lambda>e. e) (\<lambda>(fs, s''). (format prop a # fs, s''))
                   (stagger_targets (Suc k) targets prop b start gap duration ease s'))))"

fun stagger_props :: "'o list \<Rightarrow> Values \<Rightarrow> number \<Rightarrow> number \<Rightarrow> number \<Rightarrow> Ease \<Rightarrow> (string \<times> 'm PVal) list \<Rightarrow> ('o, 'm) Score
    \<Rightarrow> ScoreErr + (string \<times> 'm PVal) list \<times> ('o, 'm) Score" where
  "stagger_props targets [] start gap duration ease ps s = Inr (ps, s)"
| "stagger_props targets ((prop, v) # vs) start gap duration ease ps s =
    (case stagger_targets 0 targets prop (asArray v) start gap duration ease s of Inl e \<Rightarrow> Inl e
     | Inr (froms, s') \<Rightarrow>
        if froms \<noteq> [] \<and> list_ex (\<lambda>f. f \<noteq> hd froms) froms then Inl (StaggeredDiffer prop)
        else stagger_props targets vs start gap duration ease
          (AList.update prop (PFromTo (if froms = [] then FNum None else hd froms) (format prop (asArray v))) ps) s')"

definition score_stagger :: "'o list \<Rightarrow> Values \<Rightarrow> number \<Rightarrow> number \<Rightarrow> number \<Rightarrow> Ease \<Rightarrow> ('o, 'm) Score \<Rightarrow> ScoreErr + ('o, 'm) Score" where
  "score_stagger targets vs start gap duration ease s =
    (case stagger_props targets vs start gap duration ease [] s of Inl e \<Rightarrow> Inl e
     | Inr (ps, s') \<Rightarrow> Inr (add_cue \<lparr>cu_at = start, cu_targets = ManyTargets targets,
         cu_params = \<lparr>pa_duration = Some duration, pa_ease = Some ease, pa_props = ps\<rparr>, cu_set = False, cu_stagger = Some gap\<rparr> s'))"

fun set_props :: "'o \<Rightarrow> Values \<Rightarrow> number \<Rightarrow> (string \<times> 'm PVal) list \<Rightarrow> ('o, 'm) Score
    \<Rightarrow> ScoreErr + (string \<times> 'm PVal) list \<times> ('o, 'm) Score" where
  "set_props target [] t ps s = Inr (ps, s)"
| "set_props target ((prop, v) # vs) t ps s =
    (let b = asArray v in
     case push_on target prop \<lparr>sg_start = t, sg_end = t, sg_at = \<lambda>_. b\<rparr> s of Inl e \<Rightarrow> Inl e
     | Inr s' \<Rightarrow> set_props target vs t (AList.update prop (PTo (format prop b)) ps) s')"

definition score_set :: "'o \<Rightarrow> Values \<Rightarrow> number \<Rightarrow> ('o, 'm) Score \<Rightarrow> ScoreErr + ('o, 'm) Score" where
  "score_set target vs time s =
    (let t = time - SET_EARLY in
     case set_props target vs t [] s of Inl e \<Rightarrow> Inl e
     | Inr (ps, s') \<Rightarrow> Inr (add_cue \<lparr>cu_at = t, cu_targets = OneTarget target,
         cu_params = \<lparr>pa_duration = None, pa_ease = None, pa_props = ps\<rparr>, cu_set = True, cu_stagger = None\<rparr> s'))"

text \<open>A \<open>pos\<close> value read as a point, and the route without the points that repeat the one before.\<close>

definition pt_of :: "number list \<Rightarrow> Pt" where
  "pt_of v = pt (v ! 0) (v ! 1)"

definition route_pts :: "Pt list \<Rightarrow> Pt list" where
  "route_pts pts = map (\<lambda>i. pts ! i) (filter (\<lambda>i. i = 0 \<or> 1 / 100 < dist_pt (pts ! (i - 1)) (pts ! i)) [0..<length pts])"

definition pos_of :: "Pt option \<Rightarrow> number list" where
  "pos_of p = (case p of None \<Rightarrow> [] | Some q \<Rightarrow> [pt_x q, pt_y q])"

definition move_seg :: "Pt list \<Rightarrow> number \<Rightarrow> number \<Rightarrow> Ease \<Rightarrow> Seg" where
  "move_seg pts start duration ease =
    \<lparr>sg_start = start, sg_end = start + duration, sg_at = \<lambda>t. pos_of (trajectory pts start duration ease t)\<rparr>"

definition score_move :: "(Pt list \<Rightarrow> 'm \<times> 'm) \<Rightarrow> 'o \<Rightarrow> Pt list \<Rightarrow> number \<Rightarrow> number \<Rightarrow> Ease \<Rightarrow> ('o, 'm) Score
    \<Rightarrow> ScoreErr + ('o, 'm) Score" where
  "score_move stage_path el route start duration ease s =
    (case get_track s el ''pos'' of Inl e \<Rightarrow> Inl e
     | Inr tk \<Rightarrow>
        if length (track_at tk start) < 2 then Inl (NotANumber ''pos'')
        else (let pts = route_pts (pt_of (track_at tk start) # route) in
          if length pts < 2 then Inr s
          else (case push_on el ''pos'' (move_seg pts start duration ease) s of Inl e \<Rightarrow> Inl e
            | Inr s' \<Rightarrow>
               (let a = hd pts; b = last pts;
                    motion = (if length pts = 2
                      then (PFromTo (FNum (Some (pt_x a))) (FNum (Some (pt_x b))), PFromTo (FNum (Some (pt_y a))) (FNum (Some (pt_y b))))
                      else map_prod PMotion PMotion (stage_path pts)) in
                Inr (add_cue \<lparr>cu_at = start, cu_targets = OneTarget el,
                  cu_params = \<lparr>pa_duration = Some duration, pa_ease = Some ease,
                    pa_props = [(''translateX'', fst motion), (''translateY'', snd motion)]\<rparr>,
                  cu_set = False, cu_stagger = None\<rparr> s')))))"

definition score_place :: "'o \<Rightarrow> Pt \<Rightarrow> number \<Rightarrow> ('o, 'm) Score \<Rightarrow> ScoreErr + ('o, 'm) Score" where
  "score_place el p time s =
    (let t = time - SET_EARLY in
     map_sum (\<lambda>e. e) (add_cue \<lparr>cu_at = t, cu_targets = OneTarget el,
        cu_params = \<lparr>pa_duration = None, pa_ease = None,
          pa_props = [(''translateX'', PTo (FNum (Some (pt_x p)))), (''translateY'', PTo (FNum (Some (pt_y p))))]\<rparr>,
        cu_set = True, cu_stagger = None\<rparr>)
      (push_on el ''pos'' \<lparr>sg_start = t, sg_end = t, sg_at = \<lambda>_. [pt_x p, pt_y p]\<rparr> s))"

definition score_pos :: "('o, 'm) Score \<Rightarrow> 'o \<Rightarrow> number \<Rightarrow> ScoreErr + Pt" where
  "score_pos s el t = (case score_at s el ''pos'' t of Inl e \<Rightarrow> Inl e
     | Inr v \<Rightarrow> if length v < 2 then Inl (NotANumber ''pos'') else Inr (pt_of v))"

section \<open>The end of the loop\<close>

record 'o Pad =
  pd_at :: number
  pd_prop :: string
  pd_value :: Fmt
  pd_targets :: "'o list"

text \<open>The pads are a \<open>Map\<close> by \<open>at|prop|value\<close>: the first pad of a key keeps its place, later ones add their target.\<close>

fun add_pad :: "number \<Rightarrow> 'o \<Rightarrow> string \<times> Fmt \<Rightarrow> 'o Pad list \<Rightarrow> 'o Pad list" where
  "add_pad time target (prop, v) [] = [\<lparr>pd_at = time, pd_prop = prop, pd_value = v, pd_targets = [target]\<rparr>]"
| "add_pad time target (prop, v) (p # ps) =
    (if pd_at p = time \<and> pd_prop p = prop \<and> pd_value p = v then p\<lparr>pd_targets := pd_targets p @ [target]\<rparr> # ps
     else p # add_pad time target (prop, v) ps)"

text \<open>One track at the end: whether it needs a pad, and the track with it.\<close>

definition pad_track :: "number \<Rightarrow> Track \<Rightarrow> ScoreErr + (number \<times> number list) option \<times> Track" where
  "pad_track len tk =
    (if \<not> endsInSet tk then Inr (None, tk)
     else (let time = track_end tk + PAD_after; v = track_at tk time in
       if len < time + PAD_duration then Inl (NoRoomAfter (tk_name tk) time)
       else map_sum (\<lambda>e. e) (Pair (Some (time, v)))
         (push \<lparr>sg_start = time, sg_end = time + PAD_duration, sg_at = \<lambda>_. v\<rparr> tk)))"

fun pad_all :: "number \<Rightarrow> 'o \<Rightarrow> (string \<times> Track) list \<Rightarrow> 'o Pad list \<Rightarrow> ScoreErr + (string \<times> Track) list \<times> 'o Pad list" where
  "pad_all len target [] pads = Inr ([], pads)"
| "pad_all len target ((prop, tk) # tks) pads = (case pad_track len tk of Inl e \<Rightarrow> Inl e
     | Inr (need, tk') \<Rightarrow> map_sum (\<lambda>e. e) (map_prod ((#) (prop, tk')) (\<lambda>x. x))
         (pad_all len target tks (case need of None \<Rightarrow> pads | Some (time, v) \<Rightarrow> fold (add_pad time target) (props tk v) pads)))"

fun pad_targets :: "number \<Rightarrow> ('o \<times> (string \<times> Track) list) list \<Rightarrow> 'o Pad list
    \<Rightarrow> ScoreErr + ('o \<times> (string \<times> Track) list) list \<times> 'o Pad list" where
  "pad_targets len [] pads = Inr ([], pads)"
| "pad_targets len ((target, tks) # rest) pads = (case pad_all len target tks pads of Inl e \<Rightarrow> Inl e
     | Inr (tks', pads') \<Rightarrow> map_sum (\<lambda>e. e) (map_prod ((#) (target, tks')) (\<lambda>x. x)) (pad_targets len rest pads'))"

definition pad_cue :: "'o Pad \<Rightarrow> ('o, 'm) Cue" where
  "pad_cue p = \<lparr>cu_at = pd_at p, cu_targets = ManyTargets (pd_targets p),
     cu_params = \<lparr>pa_duration = Some PAD_duration, pa_ease = Some (\<lambda>t. t), pa_props = [(pd_prop p, PFromTo (pd_value p) (pd_value p))]\<rparr>,
     cu_set = False, cu_stagger = None\<rparr>"

text \<open>
  \<open>finish\<close>. A refusal is an exception, which ends the build with it: the value has no score then. (The source marks the score
  finished before its loop, so a second call on the score of a build that has thrown would return; the page makes none.)
\<close>

definition finish :: "('o, 'm) Score \<Rightarrow> ScoreErr + ('o, 'm) Score" where
  "finish s = (if sc_finished s then Inr s
     else (case pad_targets (sc_total s) (sc_tracks s) [] of Inl e \<Rightarrow> Inl e
       | Inr (tracks, pads) \<Rightarrow> Inr (s\<lparr>sc_finished := True, sc_tracks := tracks, sc_cues := sc_cues s @ map pad_cue pads\<rparr>)))"

text \<open>By time, a set before a tween at one instant, and otherwise in the order they were added.\<close>

definition ordered :: "('o, 'm) Cue list \<Rightarrow> ('o, 'm) Cue list" where
  "ordered cues = map fst (sort_key (\<lambda>(c, i). (cu_at c, \<not> cu_set c, i)) (zip cues [0..<length cues]))"

section \<open>The timeline\<close>

text \<open>
  The calls made on the timeline, and where the generator \<open>building\<close> stops; \<open>drain\<close> runs it to its end. A generator that
  throws has made the calls before it.
\<close>

datatype ('o, 'm) Call =
    CallSet "'o Targets" "'m Params" number
  | CallAdd "'o Targets" "'m Params" number
  | CallStagger "'o Targets" "'m Params" number number

datatype ('o, 'm) BuildStep = Yield | Do "('o, 'm) Call"

fun drain :: "('o, 'm) BuildStep list \<Rightarrow> ('o, 'm) Call list" where
  "drain [] = []"
| "drain (Yield # steps) = drain steps"
| "drain (Do c # steps) = c # drain steps"

fun add_reset :: "'o \<Rightarrow> string \<times> Fmt \<Rightarrow> (string \<times> Fmt \<times> 'o list) list \<Rightarrow> (string \<times> Fmt \<times> 'o list) list" where
  "add_reset target (prop, v) [] = [(prop, v, [target])]"
| "add_reset target (prop, v) ((p, w, ts) # rs) =
    (if p = prop \<and> w = v then (p, w, ts @ [target]) # rs else (p, w, ts) # add_reset target (prop, v) rs)"

definition resets :: "('o, 'm) Score \<Rightarrow> (string \<times> Fmt \<times> 'o list) list" where
  "resets s = fold (\<lambda>(target, tk). fold (add_reset target) (props tk (tk_initial tk))) (all_tracks s) []"

definition reset_steps :: "string \<times> Fmt \<times> 'o list \<Rightarrow> ('o, 'm) BuildStep list" where
  "reset_steps r = (case r of (prop, v, targets) \<Rightarrow>
     [Do (CallSet (ManyTargets targets) \<lparr>pa_duration = None, pa_ease = None, pa_props = [(prop, PTo v)]\<rparr> 0), Yield])"

definition lag :: "('o, 'm) Cue \<Rightarrow> number" where
  "lag c = (case cu_stagger c of None \<Rightarrow> 0
     | Some gap \<Rightarrow> gap * ((case cu_targets c of ManyTargets ts \<Rightarrow> of_nat (length ts) | OneTarget _ \<Rightarrow> 1) - 1))"

definition past_end :: "number \<Rightarrow> ('o, 'm) Cue \<Rightarrow> bool" where
  "past_end len c \<longleftrightarrow> len + SET_EARLY < cu_at c + lag c + (case pa_duration (cu_params c) of None \<Rightarrow> 0 | Some d \<Rightarrow> d)"

definition call_of :: "('o, 'm) Cue \<Rightarrow> ('o, 'm) Call" where
  "call_of c = (case cu_stagger c of Some gap \<Rightarrow> CallStagger (cu_targets c) (cu_params c) gap (cu_at c)
     | None \<Rightarrow> if cu_set c then CallSet (cu_targets c) (cu_params c) (cu_at c) else CallAdd (cu_targets c) (cu_params c) (cu_at c))"

fun cue_steps :: "number \<Rightarrow> nat \<Rightarrow> ('o, 'm) Cue list \<Rightarrow> ScoreErr + ('o, 'm) BuildStep list" where
  "cue_steps len added [] = Inr []"
| "cue_steps len added (c # cues) =
    (if past_end len c then Inl (PastTheEnd (cu_at c))
     else map_sum (\<lambda>e. e) (\<lambda>steps. (if Suc added mod SLICE = 0 then [Yield] else []) @ Do (call_of c) # steps)
       (cue_steps len (Suc added) cues))"

definition building :: "('o, 'm) Score \<Rightarrow> ScoreErr + ('o, 'm) BuildStep list" where
  "building s = (case finish s of Inl e \<Rightarrow> Inl e
     | Inr s' \<Rightarrow> map_sum (\<lambda>e. e) (\<lambda>steps. concat (map reset_steps (resets s')) @ steps)
         (cue_steps (sc_total s') 0 (ordered (sc_cues s'))))"

definition build :: "('o, 'm) Score \<Rightarrow> ScoreErr + ('o, 'm) Call list" where
  "build s = map_sum (\<lambda>e. e) drain (building s)"

end
