(* ===== verification/Hero_Score_Props.thy ===== *)
theory Hero_Score_Props
  imports Hero_Score "HOL-Library.Multiset"
begin

text \<open>
  What the score promises: a point moving along a route, the search for a time on an ease, tracks kept in time order by every
  operation, tweens that start where their property is, pads that change no value, and the order of the timeline's calls.
\<close>

section \<open>Along a polyline\<close>

lemma dist_pt_cmod: "dist_pt a b = cmod (Complex (pt_x b) (pt_y b) - Complex (pt_x a) (pt_y a))"
  by (simp add: dist_pt_def cmod_def)

lemma dist_pt_simps [simp]: "dist_pt a a = 0" "0 \<le> dist_pt a b"
  by (simp_all add: dist_pt_def)

lemma dist_pt_triangle: "dist_pt a c \<le> dist_pt a b + dist_pt b c"
  unfolding dist_pt_cmod using norm_triangle_ineq[of "Complex (pt_x b) (pt_y b) - Complex (pt_x a) (pt_y a)"
    "Complex (pt_x c) (pt_y c) - Complex (pt_x b) (pt_y b)"] by simp

lemma dist_pt_eq_0 [simp]: "dist_pt a b = 0 \<longleftrightarrow> a = b"
  unfolding dist_pt_cmod by (cases a; cases b) (auto simp: complex_eq_iff)

lemma dist_pt_commute: "dist_pt a b = dist_pt b a"
  by (simp add: dist_pt_def power2_commute)

lemma between_ends [simp]: "between_pts p q 0 = p" "between_pts p q 1 = q" "between_pts p p f = p"
  by (simp_all add: between_pts_def pt_def)

lemma dist_between: "dist_pt (between_pts p q f) (between_pts p q g) = \<bar>f - g\<bar> * dist_pt p q"
proof -
  have "(pt_x p + (pt_x q - pt_x p) * g - (pt_x p + (pt_x q - pt_x p) * f))\<^sup>2
      + (pt_y p + (pt_y q - pt_y p) * g - (pt_y p + (pt_y q - pt_y p) * f))\<^sup>2
    = (f - g)\<^sup>2 * ((pt_x q - pt_x p)\<^sup>2 + (pt_y q - pt_y p)\<^sup>2)"
    by (simp add: power2_eq_square algebra_simps)
  then show ?thesis unfolding dist_pt_def between_pts_def pt_def by (simp add: real_sqrt_mult)
qed

lemma lengthOf_nonneg [simp]: "0 \<le> lengthOf pts"
  by (induction pts rule: lengthOf.induct) simp_all

lemma along_start: "pts \<noteq> [] \<Longrightarrow> along pts 0 = Some (hd pts)"
  by (cases pts rule: lengthOf.cases) (auto simp: Let_def clamp01_def)

lemma along_end: "pts \<noteq> [] \<Longrightarrow> lengthOf pts \<le> d \<Longrightarrow> along pts d = Some (last pts)"
proof (induction pts d rule: along.induct)
  case (3 p q pts d)
  have d: "dist_pt p q + lengthOf (q # pts) \<le> d" using 3(3) by simp
  show ?case
  proof (cases "d \<le> dist_pt p q \<or> pts = []")
    case True
    then have "dist_pt p q \<le> d" "lengthOf (q # pts) = 0"
      using d lengthOf_nonneg[of "q # pts"] by (auto simp del: lengthOf_nonneg intro: antisym)
    have f: "(if dist_pt p q = 0 then 1 else clamp01 (d / dist_pt p q)) = 1"
      using \<open>dist_pt p q \<le> d\<close> order_trans[OF dist_pt_simps(2) \<open>dist_pt p q \<le> d\<close>] by (auto simp: clamp01_def le_divide_eq min_def max_def order.strict_iff_order)
    have "last (q # pts) = q" using \<open>lengthOf (q # pts) = 0\<close>
    proof (induction pts arbitrary: q)
      case (Cons r rs)
      then have "q = r" "lengthOf (r # rs) = 0" by (simp_all add: add_nonneg_eq_0_iff)
      then show ?case using Cons.IH[of r] by simp
    qed simp
    then show ?thesis using True f by (simp add: Let_def)
  next
    case False
    then show ?thesis using 3(1)[OF refl] d by (simp add: Let_def)
  qed
qed auto

lemma clamp01_diff: "0 < l \<Longrightarrow> \<bar>clamp01 (d / l) - clamp01 (e / l)\<bar> * l \<le> \<bar>d - e\<bar>"
  by (auto simp: clamp01_def min_def max_def field_simps abs_if)

lemma along_first_dist:
  assumes "d \<le> dist_pt p q"
  shows "dist_pt (between_pts p q (if dist_pt p q = 0 then 1 else clamp01 (d / dist_pt p q))) q \<le> dist_pt p q - d"
proof (cases "dist_pt p q = 0")
  case False
  then have pos: "0 < dist_pt p q" using dist_pt_simps(2)[of p q] by linarith
  have "dist_pt (between_pts p q (clamp01 (d / dist_pt p q))) (between_pts p q 1) \<le> \<bar>d - dist_pt p q\<bar>"
    unfolding dist_between using clamp01_diff[OF pos, of d "dist_pt p q"] False by (simp add: clamp01_def)
  then show ?thesis using False assms by simp
qed (use assms in simp)

lemma along_from_start: "\<lbrakk>along pts e = Some b; 0 \<le> e\<rbrakk> \<Longrightarrow> dist_pt (hd pts) b \<le> e"
proof (induction pts e arbitrary: b rule: along.induct)
  case (3 p q pts d)
  show ?case
  proof (cases "d \<le> dist_pt p q \<or> pts = []")
    case True
    show ?thesis
    proof (cases "dist_pt p q = 0")
      case False
      then have pos: "0 < dist_pt p q" using dist_pt_simps(2)[of p q] by linarith
      have "b = between_pts p q (clamp01 (d / dist_pt p q))" using True False 3(2) by (auto simp: Let_def)
      then have "dist_pt (between_pts p q 0) b \<le> \<bar>0 - d\<bar>"
        using clamp01_diff[OF pos, of 0 d] by (simp add: dist_between clamp01_def del: between_ends)
      then show ?thesis using 3(3) by simp
    qed (use True 3(2,3) in \<open>auto simp: Let_def\<close>)
  next
    case False
    then show ?thesis using 3(1)[OF refl, of b] 3(2) dist_pt_triangle[of p b q] by (simp add: Let_def)
  qed
qed auto

lemma along_lipschitz_le:
  "\<lbrakk>along pts d = Some a; along pts e = Some b; d \<le> e\<rbrakk> \<Longrightarrow> dist_pt a b \<le> e - d"
proof (induction pts d arbitrary: e a b rule: along.induct)
  case (3 p q pts d)
  let ?at = "\<lambda>d. between_pts p q (if dist_pt p q = 0 then 1 else clamp01 (d / dist_pt p q))"
  consider (same) "e \<le> dist_pt p q \<or> pts = []" | (over) "d \<le> dist_pt p q" "dist_pt p q < e" "pts \<noteq> []"
    | (later) "dist_pt p q < d" "pts \<noteq> []" by force
  then show ?case
  proof cases
    case same
    then have ab: "a = ?at d" "b = ?at e" using 3(2-4) by (auto simp: Let_def)
    show ?thesis
    proof (cases "dist_pt p q = 0")
      case False
      then have "0 < dist_pt p q" using dist_pt_simps(2)[of p q] by linarith
      then show ?thesis using clamp01_diff[of "dist_pt p q" d e] 3(4) False by (simp add: ab dist_between)
    qed (use 3(4) ab in simp)
  next
    case over
    then have a: "a = ?at d" and b: "along (q # pts) (e - dist_pt p q) = Some b" using 3(2,3) by (auto simp: Let_def)
    have "dist_pt q b \<le> e - dist_pt p q"
      using along_from_start[OF b] over by simp
    then show ?thesis using along_first_dist[OF over(1)] dist_pt_triangle[of a b q] by (simp add: a)
  next
    case later
    then show ?thesis using 3(1)[OF refl, of a "e - dist_pt p q" b] 3(2-4) by (simp add: Let_def)
  qed
qed auto

text \<open>
  A route that has a point has one at every distance along it: at 0 its first point, from its length on its last, and two
  distances give points no further apart than the distances are.
\<close>
theorem along_follows_the_route:
  assumes "pts \<noteq> []"
  shows "along pts 0 = Some (hd pts) \<and> (\<forall>d. lengthOf pts \<le> d \<longrightarrow> along pts d = Some (last pts))
    \<and> (\<forall>d e. \<exists>a b. along pts d = Some a \<and> along pts e = Some b \<and> dist_pt a b \<le> \<bar>d - e\<bar>)"
proof -
  have some: "\<exists>a. along pts d = Some a" for d
    using assms by (induction pts d rule: along.induct) (auto simp: Let_def)
  have "\<exists>a b. along pts d = Some a \<and> along pts e = Some b \<and> dist_pt a b \<le> \<bar>d - e\<bar>" for d e
  proof -
    obtain a b where "along pts d = Some a" "along pts e = Some b" using some by blast
    then show ?thesis using along_lipschitz_le[of pts d a e b] along_lipschitz_le[of pts e b d a]
      by (cases "d \<le> e") (auto simp: dist_pt_commute[of a b])
  qed
  then show ?thesis using along_start along_end assms by blast
qed

theorem along_follows_the_route_witness:
  "along [pt 0 0, pt 3 4, pt 3 10] 0 = Some (pt 0 0) \<and> along [pt 0 0, pt 3 4, pt 3 10] 12 = Some (pt 3 10)"
proof -
  have "lengthOf [pt 0 0, pt 3 4, pt 3 10] = 11" by (simp add: dist_pt_def pt_def)
  then show ?thesis using along_follows_the_route[of "[pt 0 0, pt 3 4, pt 3 10]"] by simp
qed

section \<open>When an ease reaches a value\<close>

lemma bisect_brackets:
  assumes "ease lo < v" "v \<le> ease hi" "lo < hi"
  shows "lo < bisect n ease v lo hi \<and> bisect n ease v lo hi \<le> hi \<and> v \<le> ease (bisect n ease v lo hi)
    \<and> ease (bisect n ease v lo hi - (hi - lo) / 2 ^ n) < v"
  using assms
proof (induction n arbitrary: lo hi)
  case (Suc n)
  let ?mid = "(lo + hi) / 2"
  have mid: "lo < ?mid" "?mid < hi" "hi - ?mid = (hi - lo) / 2" "?mid - lo = (hi - lo) / 2"
    using Suc.prems(3) by (simp_all add: field_simps)
  have half: "(hi - lo) / 2 / 2 ^ n = (hi - lo) / 2 ^ Suc n" by simp
  show ?case
  proof (cases "ease ?mid < v")
    case True
    then have "bisect (Suc n) ease v lo hi = bisect n ease v ?mid hi" by (simp add: Let_def)
    then show ?thesis using Suc.IH[OF True Suc.prems(2) mid(2)] mid(1) unfolding mid(3) half by force
  next
    case False
    then have "bisect (Suc n) ease v lo hi = bisect n ease v lo ?mid" by (simp add: Let_def)
    then show ?thesis using Suc.IH[OF Suc.prems(1) _ mid(1)] False mid(2) unfolding mid(4) half by force
  qed
qed simp

text \<open>
  For a value an ease starts below and ends at or above, \<open>solve\<close> gives a progress in (0, 1] where the ease has reached the
  value, and had not \<open>2\<^sup>-\<^sup>3\<^sup>0\<close> before.
\<close>
theorem solve_finds_the_crossing:
  assumes "ease 0 < v" "v \<le> ease 1"
  shows "0 < solve ease v \<and> solve ease v \<le> 1 \<and> v \<le> ease (solve ease v) \<and> ease (solve ease v - 1 / 2 ^ 30) < v"
  using bisect_brackets[of ease 0 v 1 30] assms by (simp add: solve_def)

theorem solve_finds_the_crossing_witness: "1 / 2 \<le> solve (\<lambda>t. t) (1 / 2) \<and> solve (\<lambda>t. t) (1 / 2) < 1 / 2 + 1 / 2 ^ 30"
  using solve_finds_the_crossing[of "\<lambda>t. t" "1 / 2"] by linarith

section \<open>Tracks\<close>

definition in_time_order :: "Track \<Rightarrow> bool" where
  "in_time_order tk \<longleftrightarrow> sorted (map sg_start (tk_segs tk))"

definition tracks_all :: "(Track \<Rightarrow> bool) \<Rightarrow> ('o, 'm) Score \<Rightarrow> bool" where
  "tracks_all P s \<longleftrightarrow> (\<forall>tks \<in> snd ` set (sc_tracks s). \<forall>tk \<in> snd ` set tks. P tk)"

lemma segs_at_snoc:
  assumes "sorted (map sg_start (segs @ [seg]))"
  shows "segs_at (segs @ [seg]) t v = (if t < sg_start seg then segs_at segs t v else sg_at seg (min t (sg_end seg)))"
  using assms
proof (induction segs arbitrary: v)
  case (Cons s segs)
  then have "sg_start s \<le> sg_start seg" by simp
  then show ?case using Cons by auto
qed simp

lemma map_sum_Inr_iff [simp]: "map_sum (\<lambda>e. e) f r = Inr y \<longleftrightarrow> (\<exists>x. r = Inr x \<and> y = f x)"
  "map_sum (\<lambda>e. e) f r = Inl e \<longleftrightarrow> r = Inl e"
  by (cases r; auto)+

lemma push_appends: "push seg tk = Inr tk' \<Longrightarrow> tk' = tk\<lparr>tk_segs := tk_segs tk @ [seg]\<rparr>
    \<and> (tk_segs tk = [] \<or> sg_start (last (tk_segs tk)) \<le> sg_start seg)"
  by (auto simp: push_def split: if_splits)

lemma push_in_order: "in_time_order tk \<Longrightarrow> push seg tk = Inr tk' \<Longrightarrow> in_time_order tk'"
proof -
  assume o: "in_time_order tk" and "push seg tk = Inr tk'"
  then have tk': "tk' = tk\<lparr>tk_segs := tk_segs tk @ [seg]\<rparr>" "tk_segs tk = [] \<or> sg_start (last (tk_segs tk)) \<le> sg_start seg"
    using push_appends by blast+
  have "\<forall>s \<in> set (tk_segs tk). sg_start s \<le> sg_start (last (tk_segs tk))"
    using o unfolding in_time_order_def by (cases "tk_segs tk" rule: rev_cases) (auto simp: sorted_append)
  then show ?thesis using o tk' by (fastforce simp: in_time_order_def sorted_append)
qed

lemma track_at_push:
  assumes "in_time_order tk" "push seg tk = Inr tk'"
  shows "track_at tk' t = (if t < sg_start seg then track_at tk t else sg_at seg (min t (sg_end seg)))"
  using push_in_order[OF assms] push_appends[OF assms(2)] segs_at_snoc by (simp add: track_at_def in_time_order_def)

lemma set_alist_update: "x \<in> set (AList.update k v al) \<Longrightarrow> x = (k, v) \<or> x \<in> set al"
  by (induction al) (auto split: if_splits)

lemma tracks_of_all: "tracks_all P s \<Longrightarrow> (prop, tk) \<in> set (tracks_of s target) \<Longrightarrow> P tk"
  by (fastforce simp: tracks_of_def tracks_all_def split: option.splits dest!: map_of_SomeD[OF sym])

lemma get_track_all: "tracks_all P s \<Longrightarrow> get_track s target prop = Inr tk \<Longrightarrow> P tk"
  by (auto simp: get_track_def split: option.splits dest!: map_of_SomeD tracks_of_all)

lemma put_track_all:
  assumes "tracks_all P s" "P tk"
  shows "tracks_all P (put_track target prop tk s)"
proof -
  have "P t" if "tks \<in> set (sc_tracks (put_track target prop tk s))" "(k, t) \<in> set (snd tks)" for tks k t
  proof -
    from that(1) have "tks = (target, AList.update prop tk (tracks_of s target)) \<or> tks \<in> set (sc_tracks s)"
      by (auto simp: put_track_def dest: set_alist_update)
    then show ?thesis using that(2) assms tracks_of_all[OF assms(1), of k t target]
      by (fastforce simp: tracks_all_def dest!: set_alist_update)
  qed
  then show ?thesis by (auto simp: tracks_all_def)
qed

lemma add_cue_tracks [simp]: "tracks_all P (add_cue c s) = tracks_all P s" "get_track (add_cue c s) = get_track s"
  "score_at (add_cue c s) = score_at s"
  by (simp_all add: add_cue_def tracks_all_def fun_eq_iff get_track_def tracks_of_def score_at_def)

text \<open>
  A law of tracks that a new one satisfies and that a push keeps. Every operation of the score changes tracks by pushes alone,
  so a score keeps the law for all its tracks.
\<close>

locale track_law =
  fixes ok :: "Track \<Rightarrow> bool"
  assumes fresh: "ok \<lparr>tk_name = p, tk_initial = v, tk_segs = []\<rparr>"
    and pushed: "ok tk \<Longrightarrow> push seg tk = Inr tk' \<Longrightarrow> ok tk'"
begin

lemma push_on_keeps: "tracks_all ok s \<Longrightarrow> push_on target prop seg s = Inr s' \<Longrightarrow> tracks_all ok s'"
proof -
  assume s: "tracks_all ok s" and "push_on target prop seg s = Inr s'"
  then obtain tk tk' where "get_track s target prop = Inr tk" "push seg tk = Inr tk'" "s' = put_track target prop tk' s"
    by (auto simp: push_on_def split: sum.splits)
  then show ?thesis using put_track_all[OF s] pushed[OF get_track_all[OF s]] by blast
qed

lemma start_props_keeps: "\<forall>tk \<in> snd ` set tks. ok tk \<Longrightarrow> \<forall>tk \<in> snd ` set (start_props vs tks). ok tk"
proof (induction vs tks rule: start_props.induct)
  case (2 "prop" v vs tks)
  show ?case unfolding start_props.simps by (rule 2(1)) (use 2(2) fresh in \<open>simp add: Ball_def image_iff\<close>)
qed simp

lemma start_keeps: "tracks_all ok s \<Longrightarrow> tracks_all ok (score_start target vs s)"
proof -
  assume s: "tracks_all ok s"
  then have "\<forall>tk \<in> snd ` set (tracks_of s target). ok tk" by (auto dest: tracks_of_all)
  note new = start_props_keeps[OF this, of vs]
  have "\<forall>tk \<in> snd ` set (snd x). ok tk" if "x \<in> set (sc_tracks (score_start target vs s))" for x
  proof -
    from that have "x = (target, start_props vs (tracks_of s target)) \<or> x \<in> set (sc_tracks s)"
      by (auto simp: score_start_def dest: set_alist_update)
    then show ?thesis using new s by (fastforce simp: tracks_all_def)
  qed
  then show ?thesis unfolding tracks_all_def by blast
qed

lemma tween_props_keeps:
  "tween_props target vs start duration ease from ps s = Inr (ps', s') \<Longrightarrow> tracks_all ok s \<Longrightarrow> tracks_all ok s'"
  by (induction target vs start duration ease "from" ps s rule: tween_props.induct)
    (auto simp: Let_def split: sum.splits if_splits dest: push_on_keeps)

lemma stagger_targets_keeps:
  "stagger_targets k targets prop b start gap duration ease s = Inr (fs, s') \<Longrightarrow> tracks_all ok s \<Longrightarrow> tracks_all ok s'"
  by (induction k targets "prop" b start gap duration ease s arbitrary: fs rule: stagger_targets.induct)
    (fastforce simp: Let_def split: sum.splits if_splits prod.splits dest: push_on_keeps)+

lemma stagger_props_keeps:
  "stagger_props targets vs start gap duration ease ps s = Inr (ps', s') \<Longrightarrow> tracks_all ok s \<Longrightarrow> tracks_all ok s'"
  by (induction targets vs start gap duration ease ps s rule: stagger_props.induct)
    (auto split: sum.splits if_splits dest: stagger_targets_keeps)

lemma set_props_keeps: "set_props target vs t ps s = Inr (ps', s') \<Longrightarrow> tracks_all ok s \<Longrightarrow> tracks_all ok s'"
  by (induction target vs t ps s rule: set_props.induct) (auto simp: Let_def split: sum.splits dest: push_on_keeps)

lemma move_keeps:
  assumes "score_move stage_path el route start duration ease s = Inr s'" "tracks_all ok s"
  shows "tracks_all ok s'"
  using assms by (auto simp: score_move_def Let_def split: sum.splits if_splits dest: push_on_keeps)

lemma pad_track_keeps: "pad_track len tk = Inr (need, tk') \<Longrightarrow> ok tk \<Longrightarrow> ok tk'"
  by (auto simp: pad_track_def Let_def split: if_splits sum.splits dest: pushed)

lemma pad_all_keeps:
  "pad_all len target tks pads = Inr (tks', pads') \<Longrightarrow> \<forall>tk \<in> snd ` set tks. ok tk \<Longrightarrow> \<forall>tk \<in> snd ` set tks'. ok tk"
proof (induction len target tks pads arbitrary: tks' rule: pad_all.induct)
  case (2 len target "prop" tk tks pads)
  from 2(2) obtain need tk' tks'' where "pad_track len tk = Inr (need, tk')" "tks' = (prop, tk') # tks''"
    "pad_all len target tks (case need of None \<Rightarrow> pads | Some (time, v) \<Rightarrow> fold (add_pad time target) (props tk v) pads) = Inr (tks'', pads')"
    by (auto split: sum.splits)
  then show ?case using 2(1)[of "(need, tk')" need tk' tks''] 2(3) pad_track_keeps by auto
qed auto

lemma pad_targets_keeps:
  "pad_targets len tracks pads = Inr (tracks', pads') \<Longrightarrow> \<forall>tks \<in> snd ` set tracks. \<forall>tk \<in> snd ` set tks. ok tk
    \<Longrightarrow> \<forall>tks \<in> snd ` set tracks'. \<forall>tk \<in> snd ` set tks. ok tk"
proof (induction len tracks pads arbitrary: tracks' rule: pad_targets.induct)
  case (2 len target tks rest pads)
  from 2(2) obtain tks' pads1 rest' where p: "pad_all len target tks pads = Inr (tks', pads1)" "tracks' = (target, tks') # rest'"
    "pad_targets len rest pads1 = Inr (rest', pads')"
    by (auto split: sum.splits)
  have "\<forall>tk \<in> snd ` set tks'. ok tk" by (rule pad_all_keeps[OF p(1)]) (use 2(3) in simp)
  moreover have "\<forall>tks \<in> snd ` set rest'. \<forall>tk \<in> snd ` set tks. ok tk"
    by (rule 2(1)[OF p(1) refl p(3)]) (use 2(3) in simp)
  ultimately show ?case by (simp add: p(2))
qed auto

end

section \<open>What the choreographer can write\<close>

text \<open>A call of the score that returns.\<close>

inductive score_step :: "('o \<Rightarrow> 'o) \<Rightarrow> (Pt list \<Rightarrow> 'm \<times> 'm) \<Rightarrow> ('o, 'm) Score \<Rightarrow> ('o, 'm) Score \<Rightarrow> bool"
  for stage_drawable stage_path where
  drawable_step: "score_step stage_drawable stage_path s (snd (drawable stage_drawable el s))"
| start_step: "score_step stage_drawable stage_path s (score_start target vs s)"
| tween_step: "score_tween target vs start duration ease from s = Inr s' \<Longrightarrow> score_step stage_drawable stage_path s s'"
| stagger_step: "score_stagger targets vs start gap duration ease s = Inr s' \<Longrightarrow> score_step stage_drawable stage_path s s'"
| set_step: "score_set target vs time s = Inr s' \<Longrightarrow> score_step stage_drawable stage_path s s'"
| move_step: "score_move stage_path el route start duration ease s = Inr s' \<Longrightarrow> score_step stage_drawable stage_path s s'"
| place_step: "score_place el p time s = Inr s' \<Longrightarrow> score_step stage_drawable stage_path s s'"
| finish_step: "finish s = Inr s' \<Longrightarrow> score_step stage_drawable stage_path s s'"

definition written :: "('o \<Rightarrow> 'o) \<Rightarrow> (Pt list \<Rightarrow> 'm \<times> 'm) \<Rightarrow> number \<Rightarrow> ('o, 'm) Score \<Rightarrow> bool" where
  "written stage_drawable stage_path len s \<longleftrightarrow> (score_step stage_drawable stage_path)\<^sup>*\<^sup>* (new_score len) s"

context track_law
begin

lemma step_keeps: "score_step stage_drawable stage_path s s' \<Longrightarrow> tracks_all ok s \<Longrightarrow> tracks_all ok s'"
proof (induction rule: score_step.induct)
  case (drawable_step s el)
  then show ?case by (auto simp: drawable_def Let_def tracks_all_def split: option.splits)
next
  case (finish_step s s')
  then show ?case
    using pad_targets_keeps[of "sc_total s" "sc_tracks s" "[]"]
    by (fastforce simp: finish_def tracks_all_def split: if_splits sum.splits)
qed (auto simp: score_tween_def score_stagger_def score_set_def score_place_def Let_def split: sum.splits
  intro: start_keeps move_keeps dest: tween_props_keeps stagger_props_keeps set_props_keeps push_on_keeps)

lemma written_law: "written stage_drawable stage_path len s \<Longrightarrow> tracks_all ok s"
  unfolding written_def
proof (induction rule: rtranclp_induct)
  case base
  then show ?case by (simp add: tracks_all_def new_score_def)
qed (rule step_keeps)

end

interpretation time_order: track_law in_time_order
  by unfold_locales (simp add: in_time_order_def, rule push_in_order)

section \<open>Values over time\<close>

lemma tracks_of_put: "tracks_of (put_track target prop tk s) o' =
    (if o' = target then AList.update prop tk (tracks_of s target) else tracks_of s o')"
  by (simp add: tracks_of_def put_track_def update_conv')

lemma score_at_push_on:
  assumes "tracks_all in_time_order s" "push_on target prop seg s = Inr s'"
  shows "score_at s' o' p' t = (if o' = target \<and> p' = prop \<and> sg_start seg \<le> t then Inr (sg_at seg (min t (sg_end seg)))
    else score_at s o' p' t)"
proof -
  from assms(2) obtain tk tk' where g: "get_track s target prop = Inr tk" "push seg tk = Inr tk'" "s' = put_track target prop tk' s"
    by (auto simp: push_on_def split: sum.splits)
  note val = track_at_push[OF get_track_all[OF assms(1) g(1)] g(2)]
  show ?thesis using g(1) by (auto simp: score_at_def g(3) get_track_def tracks_of_put update_conv' val split: option.splits)
qed

lemma clamp01_simps [simp]: "clamp01 0 = 0" "clamp01 1 = 1" "1 \<le> t \<Longrightarrow> clamp01 t = 1"
  by (simp_all add: clamp01_def)

lemma lerp_0 [simp]: "lerp a b 0 = a"
  by (rule nth_equalityI) (simp_all add: lerp_def)

lemma lerp_1 [simp]: "length a = length b \<Longrightarrow> lerp a b 1 = b"
  by (rule nth_equalityI) (simp_all add: lerp_def)

lemma tween_props_ConsE:
  assumes "tween_props target ((prop, v) # vs) start duration ease from ps s = Inr (ps', s')"
  obtains tk a ps1 s1 where "get_track s target prop = Inr tk"
    "a = (case map_of from prop of Some f \<Rightarrow> asArray f | None \<Rightarrow> track_at tk start)"
    "push_on target prop (tween_seg a (asArray v) start duration ease) s = Inr s1"
    "tween_props target vs start duration ease from ps1 s1 = Inr (ps', s')"
  using assms by (auto simp: Let_def split: sum.splits if_splits)

text \<open>Before the tween the values are what they were, at its start too.\<close>

lemma tween_props_before:
  assumes "tween_props target vs start duration ease [] ps s = Inr (ps', s')" "tracks_all in_time_order s"
    and "ease 0 = 0" "0 \<le> duration" "t \<le> start"
  shows "score_at s' o' p' t = score_at s o' p' t"
  using assms(1,2)
proof (induction vs arbitrary: ps s)
  case (Cons pv vs)
  obtain "prop" v where pv: "pv = (prop, v)" by (cases pv)
  obtain tk a ps1 s1 where g: "get_track s target prop = Inr tk" "a = track_at tk start"
    "push_on target prop (tween_seg a (asArray v) start duration ease) s = Inr s1"
    "tween_props target vs start duration ease [] ps1 s1 = Inr (ps', s')"
    by (rule tween_props_ConsE[OF Cons.prems(1)[unfolded pv]]) simp
  have "score_at s1 o' p' t = score_at s o' p' t"
    unfolding score_at_push_on[OF Cons.prems(2) g(3)] using assms(3-5) g(1,2) by (auto simp: tween_seg_def score_at_def)
  then show ?case using Cons.IH[OF g(4) time_order.push_on_keeps[OF Cons.prems(2) g(3)]] by simp
qed simp

lemma tween_props_other:
  assumes "tween_props target vs start duration ease from ps s = Inr (ps', s')" "tracks_all in_time_order s"
    "p' \<notin> fst ` set vs \<or> o' \<noteq> target"
  shows "score_at s' o' p' t = score_at s o' p' t"
  using assms
proof (induction vs arbitrary: ps s)
  case (Cons pv vs)
  obtain "prop" v where pv: "pv = (prop, v)" by (cases pv)
  obtain tk a ps1 s1 where g: "push_on target prop (tween_seg a (asArray v) start duration ease) s = Inr s1"
    "tween_props target vs start duration ease from ps1 s1 = Inr (ps', s')"
    by (rule tween_props_ConsE[OF Cons.prems(1)[unfolded pv]])
  have "score_at s1 o' p' t = score_at s o' p' t"
    unfolding score_at_push_on[OF Cons.prems(2) g(1)] using Cons.prems(3) by (auto simp: pv)
  then show ?case using Cons.IH[OF g(2) time_order.push_on_keeps[OF Cons.prems(2) g(1)]] Cons.prems(3) by auto
qed simp

text \<open>From the tween's end on, each property it names has the value it was given.\<close>

lemma tween_props_after:
  assumes "tween_props target vs start duration ease [] ps s = Inr (ps', s')" "tracks_all in_time_order s"
    "distinct (map fst vs)" "(p', w) \<in> set vs" "score_at s target p' start = Inr a" "length a = length (asArray w)"
    and "ease 0 = 0" "ease 1 = 1" "0 < duration" "start + duration \<le> t"
  shows "score_at s' target p' t = Inr (asArray w)"
  using assms(1-6)
proof (induction vs arbitrary: ps s)
  case (Cons pv vs)
  obtain "prop" v where pv: "pv = (prop, v)" by (cases pv)
  obtain tk b ps1 s1 where g: "get_track s target prop = Inr tk" "b = track_at tk start"
    "push_on target prop (tween_seg b (asArray v) start duration ease) s = Inr s1"
    "tween_props target vs start duration ease [] ps1 s1 = Inr (ps', s')"
    by (rule tween_props_ConsE[OF Cons.prems(1)[unfolded pv]]) simp
  note s1 = score_at_push_on[OF Cons.prems(2) g(3)]
  note o1 = time_order.push_on_keeps[OF Cons.prems(2) g(3)]
  show ?case
  proof (cases "p' = prop")
    case True
    then have w: "w = v" and "p' \<notin> fst ` set vs" using Cons.prems(3,4) by (auto simp: pv image_iff)
    have "b = a" using Cons.prems(5) g(1,2) True by (simp add: score_at_def)
    then have "score_at s1 target p' t = Inr (asArray w)"
      unfolding s1 using assms(8-10) Cons.prems(6) True w by (simp add: tween_seg_def)
    then show ?thesis using tween_props_other[OF g(4) o1] \<open>p' \<notin> fst ` set vs\<close> by simp
  next
    case False
    then have "score_at s1 target p' start = Inr a" unfolding s1 using Cons.prems(5) by simp
    then show ?thesis using Cons.IH[OF g(4) o1] Cons.prems(3,4,6) False by (simp add: pv)
  qed
qed simp

text \<open>
  C23: in every score the choreographer can write, each property's tweens and sets are in the order they start: an operation that
  would break the order is refused by \<open>push\<close>, and no operation changes a track in another way.
\<close>
theorem tracks_in_time_order:
  assumes "written stage_drawable stage_path len s" "get_track s target prop = Inr tk"
  shows "sorted (map sg_start (tk_segs tk))"
  using get_track_all[OF time_order.written_law[OF assms(1)] assms(2)] by (simp add: in_time_order_def)

text \<open>
  A tween with no from-value makes no value jump: up to its start, where an earlier tween may still be running, every property
  of every target has the value it had; the properties it does not name keep theirs for good, and the ones it names have
  their new value from its end on.
\<close>
theorem tween_never_jumps:
  assumes "written stage_drawable stage_path len s" "score_tween target vs start duration ease [] s = Inr s'"
    and ease: "ease 0 = 0" "ease 1 = 1" "0 < duration"
  shows "(\<forall>o' p t. t \<le> start \<or> o' \<noteq> target \<or> p \<notin> fst ` set vs \<longrightarrow> score_at s' o' p t = score_at s o' p t)
    \<and> (distinct (map fst vs) \<longrightarrow> (\<forall>p v a t. (p, v) \<in> set vs \<and> score_at s target p start = Inr a \<and> length a = length (asArray v)
        \<and> start + duration \<le> t \<longrightarrow> score_at s' target p t = Inr (asArray v)))"
proof -
  note o = time_order.written_law[OF assms(1)]
  obtain ps s1 where t: "tween_props target vs start duration ease [] [] s = Inr (ps, s1)" "score_at s' = score_at s1"
    using assms(2) by (auto simp: score_tween_def split: sum.splits)
  show ?thesis
    using tween_props_before[OF t(1) o ease(1) less_imp_le[OF ease(3)]] tween_props_other[OF t(1) o]
      tween_props_after[OF t(1) o _ _ _ _ ease] by (auto simp: t(2))
qed

section \<open>Pads\<close>

lemma track_at_rest:
  assumes "in_time_order tk" "endsInSet tk" "track_end tk \<le> t" "track_end tk \<le> u"
  shows "track_at tk t = track_at tk u"
proof (cases "tk_segs tk" rule: rev_cases)
  case (snoc segs seg)
  then show ?thesis using assms segs_at_snoc[of segs seg]
    by (simp add: track_at_def track_end_def endsInSet_def in_time_order_def)
qed (simp add: track_at_def)

lemma pad_track_quiet:
  assumes "in_time_order tk" "pad_track len tk = Inr (need, tk')"
  shows "\<not> endsInSet tk' \<and> (\<forall>t. track_at tk' t = track_at tk t)"
proof (cases "endsInSet tk")
  case True
  define time where "time = track_end tk + PAD_after"
  define seg where "seg = \<lparr>sg_start = time, sg_end = time + PAD_duration, sg_at = \<lambda>_. track_at tk time\<rparr>"
  have p: "push seg tk = Inr tk'"
    using assms(2) True by (auto simp: pad_track_def Let_def time_def seg_def split: if_splits)
  have "track_at tk' t = track_at tk t" for t
    using track_at_push[OF assms(1) p] track_at_rest[OF assms(1) True, of t time]
    by (auto simp: seg_def time_def PAD_after_def)
  moreover have "\<not> endsInSet tk'" using push_appends[OF p] by (auto simp: endsInSet_def seg_def PAD_duration_def)
  ultimately show ?thesis by blast
qed (use assms in \<open>simp add: pad_track_def\<close>)

text \<open>The only reason to refuse a pad is that the loop ends before it would.\<close>

definition no_room :: "number \<Rightarrow> Track \<Rightarrow> bool" where
  "no_room len tk \<longleftrightarrow> endsInSet tk \<and> len < track_end tk + PAD_after + PAD_duration"

lemma pad_track_refused: "pad_track len tk = Inl e \<longleftrightarrow> no_room len tk \<and> e = NoRoomAfter (tk_name tk) (track_end tk + PAD_after)"
  by (auto simp: pad_track_def Let_def no_room_def push_def endsInSet_def track_end_def PAD_after_def)

definition padded :: "number \<Rightarrow> (string \<times> Track) list \<Rightarrow> (string \<times> Track) list \<Rightarrow> bool" where
  "padded len = list_all2 (\<lambda>(p, tk) (p', tk'). p' = p \<and> (\<exists>need. pad_track len tk = Inr (need, tk')))"

lemma pad_all_cases:
  "case pad_all len target tks pads of Inl e \<Rightarrow> \<exists>(p, tk) \<in> set tks. no_room len tk \<and> e = NoRoomAfter (tk_name tk) (track_end tk + PAD_after)
    | Inr (tks', pads') \<Rightarrow> padded len tks tks'"
proof (induction len target tks pads rule: pad_all.induct)
  case (2 len target "prop" tk tks pads)
  show ?case
  proof (cases "pad_track len tk")
    case (Inl e)
    then show ?thesis using pad_track_refused[of len tk e] by simp
  next
    case (Inr r)
    then show ?thesis using 2[OF Inr prod.collapse]
      by (cases r) (auto simp: padded_def split: sum.splits)
  qed
qed (simp add: padded_def)

lemma pad_targets_cases:
  "case pad_targets len tracks pads of
      Inl e \<Rightarrow> \<exists>(target, tks) \<in> set tracks. \<exists>(p, tk) \<in> set tks. no_room len tk \<and> e = NoRoomAfter (tk_name tk) (track_end tk + PAD_after)
    | Inr (tracks', pads') \<Rightarrow> list_all2 (\<lambda>(o', tks) (o'', tks'). o'' = o' \<and> padded len tks tks') tracks tracks'"
proof (induction len tracks pads rule: pad_targets.induct)
  case (2 len target tks rest pads)
  show ?case
  proof (cases "pad_all len target tks pads")
    case (Inl e)
    then show ?thesis using pad_all_cases[where len = len and target = target and tks = tks and pads = pads] by auto
  next
    case (Inr r)
    then show ?thesis using 2[OF Inr prod.collapse] pad_all_cases[where len = len and target = target and tks = tks and pads = pads]
      by (cases r) (auto split: sum.splits)
  qed
qed simp

lemma map_of_all2:
  assumes "list_all2 (\<lambda>(k, v) (k', v'). k' = k \<and> R v v') xs ys"
  shows "rel_option R (map_of xs k) (map_of ys k)"
  using assms by (induction rule: list_all2_induct) auto

lemma map_of_all_tracks: "map_of (sc_tracks s) target = Some tks \<Longrightarrow> (p, tk) \<in> set tks \<Longrightarrow> (target, tk) \<in> set (all_tracks s)"
  by (force simp: all_tracks_def dest: map_of_SomeD)

lemma finish_result:
  assumes "\<not> sc_finished s" "finish s = Inr s'"
  shows "sc_finished s' \<and> sc_total s' = sc_total s
    \<and> list_all2 (\<lambda>(o', tks) (o'', tks'). o'' = o' \<and> padded (sc_total s) tks tks') (sc_tracks s) (sc_tracks s')"
  using assms pad_targets_cases[where len = "sc_total s" and tracks = "sc_tracks s" and pads = "[]"]
  by (auto simp: finish_def split: sum.splits)

lemma finish_tracks:
  assumes "\<not> sc_finished s" "finish s = Inr s'"
  shows "(\<exists>e. get_track s target prop = Inl e \<and> get_track s' target prop = Inl e)
    \<or> (\<exists>tk tk' need. get_track s target prop = Inr tk \<and> get_track s' target prop = Inr tk' \<and> pad_track (sc_total s) tk = Inr (need, tk'))"
proof -
  have "rel_option (padded (sc_total s)) (map_of (sc_tracks s) target) (map_of (sc_tracks s') target)"
    by (rule map_of_all2) (use finish_result[OF assms] in simp)
  then have "padded (sc_total s) (tracks_of s target) (tracks_of s' target)"
    by (cases rule: option.rel_cases) (simp_all add: tracks_of_def padded_def)
  then have "rel_option (\<lambda>tk tk'. \<exists>need. pad_track (sc_total s) tk = Inr (need, tk'))
      (map_of (tracks_of s target) prop) (map_of (tracks_of s' target) prop)"
    unfolding padded_def by (rule map_of_all2)
  then show ?thesis by (cases rule: option.rel_cases) (auto simp: get_track_def)
qed

text \<open>
  C22: \<open>finish\<close> leaves no track ending in a set, changes no property's value at any time, and changes nothing when called again.
  It refuses only for a track that ends in a set less than \<open>PAD.after + PAD.duration\<close> before the loop's end.
\<close>
theorem finish_pads_quietly:
  assumes "written stage_drawable stage_path len s" "\<not> sc_finished s"
  shows "case finish s of
      Inl e \<Rightarrow> \<exists>(target, tk) \<in> set (all_tracks s). no_room (sc_total s) tk \<and> e = NoRoomAfter (tk_name tk) (track_end tk + PAD_after)
    | Inr s' \<Rightarrow> finish s' = Inr s' \<and> (\<forall>target p t. score_at s' target p t = score_at s target p t)
        \<and> (\<forall>target p tk. get_track s' target p = Inr tk \<longrightarrow> \<not> endsInSet tk)"
proof (cases "finish s")
  case (Inl e)
  then have "\<exists>(target, tks) \<in> set (sc_tracks s). \<exists>(p, tk) \<in> set tks.
      no_room (sc_total s) tk \<and> e = NoRoomAfter (tk_name tk) (track_end tk + PAD_after)"
    using assms(2) pad_targets_cases[where len = "sc_total s" and tracks = "sc_tracks s" and pads = "[]"]
    by (auto simp: finish_def split: sum.splits)
  then show ?thesis using Inl by (force simp: all_tracks_def)
next
  case (Inr s')
  have "score_at s' target p t = score_at s target p t \<and> (\<forall>tk. get_track s' target p = Inr tk \<longrightarrow> \<not> endsInSet tk)" for target p t
    using finish_tracks[OF assms(2) Inr, of target p]
      pad_track_quiet[OF get_track_all[OF time_order.written_law[OF assms(1)]]] by (auto simp: score_at_def)
  then show ?thesis using Inr finish_result[OF assms(2) Inr] by (simp add: finish_def)
qed

section \<open>The order of the cues\<close>

lemma insort_key_cong_le: "(\<And>y. y \<in> set ys \<Longrightarrow> (f x \<le> f y) = (g x \<le> g y)) \<Longrightarrow> insort_key f x ys = insort_key g x ys"
  by (induction ys) auto

lemma insort_key_map: "map h (insort_key (\<lambda>x. f (h x)) x xs) = insort_key f (h x) (map h xs)"
  by (induction xs) auto

lemma sort_key_map: "map h (sort_key (\<lambda>x. f (h x)) xs) = sort_key f (map h xs)"
  by (induction xs) (simp_all add: insort_key_map)

lemma ordered_is_stable_sort: "ordered cues = sort_key (\<lambda>c. (cu_at c, \<not> cu_set c)) cues"
proof -
  have "sort_key (\<lambda>(c, i). (cu_at c, \<not> cu_set c, i)) zs = sort_key (\<lambda>z. (cu_at (fst z), \<not> cu_set (fst z))) zs"
    if "sorted (map snd zs)" for zs :: "(('a, 'b) Cue \<times> nat) list"
    using that
  proof (induction zs)
    case (Cons z zs)
    have "insort_key (\<lambda>(c, i). (cu_at c, \<not> cu_set c, i)) z ys = insort_key (\<lambda>z. (cu_at (fst z), \<not> cu_set (fst z))) z ys"
      if "set ys \<subseteq> set zs" for ys
      by (rule insort_key_cong_le) (use that Cons.prems in \<open>fastforce simp: less_eq_prod_def split: prod.splits\<close>)
    then show ?case using Cons by simp
  qed simp
  from this[of "zip cues [0..<length cues]"] show ?thesis
    using sort_key_map[of fst "\<lambda>c. (cu_at c, \<not> cu_set c)" "zip cues [0..<length cues]"] by (simp add: ordered_def)
qed

lemma cue_steps_calls:
  "cue_steps len added cues = (if list_ex (past_end len) cues then Inl (PastTheEnd (cu_at (the (find (past_end len) cues))))
    else Inr (concat (map (\<lambda>(i, c). (if i mod SLICE = 0 then [Yield] else []) @ [Do (call_of c)]) (enumerate (Suc added) cues))))"
  by (induction len added cues rule: cue_steps.induct) auto

lemma drain_append [simp]: "drain (xs @ ys) = drain xs @ drain ys"
  by (induction xs rule: drain.induct) simp_all

lemma drain_cues: "drain (concat (map (\<lambda>(i, c). (if Q i then [Yield] else []) @ [Do (call_of c)]) ics)) = map (\<lambda>(i, c). call_of c) ics"
  by (induction ics) auto

lemma drain_resets: "drain (concat (map reset_steps rs)) =
    map (\<lambda>(p, v, ts). CallSet (ManyTargets ts) \<lparr>pa_duration = None, pa_ease = None, pa_props = [(p, PTo v)]\<rparr> 0) rs"
  by (induction rs) (auto simp: reset_steps_def)

text \<open>
  The timeline is refused exactly when a cue runs past the loop's end; otherwise it gets every start set at 0, then one call
  per cue of the finished score, by time, a set before a tween at one instant and otherwise in the order they were written.
\<close>
theorem build_calls_in_time_order:
  assumes "finish s = Inr s'"
  shows "\<exists>cues. mset cues = mset (sc_cues s') \<and> sorted (map (\<lambda>c. (cu_at c, \<not> cu_set c)) cues)
    \<and> (\<forall>k. filter (\<lambda>c. (cu_at c, \<not> cu_set c) = k) cues = filter (\<lambda>c. (cu_at c, \<not> cu_set c) = k) (sc_cues s'))
    \<and> (if list_ex (past_end (sc_total s')) cues then \<exists>c. c \<in> set cues \<and> past_end (sc_total s') c \<and> build s = Inl (PastTheEnd (cu_at c))
       else build s = Inr (map (\<lambda>(p, v, ts). CallSet (ManyTargets ts) \<lparr>pa_duration = None, pa_ease = None, pa_props = [(p, PTo v)]\<rparr> 0) (resets s')
         @ map call_of cues))"
proof (intro exI[of _ "ordered (sc_cues s')"] conjI)
  let ?cues = "ordered (sc_cues s')"
  show "if list_ex (past_end (sc_total s')) ?cues then \<exists>c. c \<in> set ?cues \<and> past_end (sc_total s') c \<and> build s = Inl (PastTheEnd (cu_at c))
       else build s = Inr (map (\<lambda>(p, v, ts). CallSet (ManyTargets ts) \<lparr>pa_duration = None, pa_ease = None, pa_props = [(p, PTo v)]\<rparr> 0) (resets s')
         @ map call_of ?cues)"
  proof (cases "list_ex (past_end (sc_total s')) ?cues")
    case True
    then obtain c where c: "find (past_end (sc_total s')) ?cues = Some c"
      by (cases "find (past_end (sc_total s')) ?cues") (auto simp: find_None_iff list_ex_iff)
    then have "c \<in> set ?cues \<and> past_end (sc_total s') c" by (auto simp: find_Some_iff)
    then show ?thesis using True c assms by (auto simp: build_def building_def cue_steps_calls)
  next
    case False
    have "map (\<lambda>(i, c). call_of c) (enumerate (Suc 0) ?cues) = map call_of ?cues"
      by (rule nth_equalityI) (simp_all add: nth_enumerate_eq)
    then show ?thesis using False assms by (simp add: build_def building_def cue_steps_calls drain_cues drain_resets)
  qed
qed (simp_all add: ordered_is_stable_sort sort_key_stable)

section \<open>Moves\<close>

lemma route_pts_hd [simp]: "route_pts (p # route) \<noteq> []" "hd (route_pts (p # route)) = p"
  by (simp_all add: route_pts_def upt_conv_Cons del: upt_Suc)

text \<open>
  A square that moves leaves from where it is: up to the move's start every property of every target has the value it had,
  every other property keeps its value for good, and when the route goes anywhere the square is at its last point from the
  move's end on.
\<close>
theorem move_leaves_from_where_it_is:
  assumes "written stage_drawable stage_path len s" "score_move stage_path el route start duration ease s = Inr s'"
    and ease: "ease 0 = 0" "ease 1 = 1" "0 < duration" and pos: "score_at s el ''pos'' start = Inr [x, y]"
  shows "(\<forall>o' p t. t \<le> start \<or> o' \<noteq> el \<or> p \<noteq> ''pos'' \<longrightarrow> score_at s' o' p t = score_at s o' p t)
    \<and> (2 \<le> length (route_pts (pt x y # route)) \<longrightarrow> (\<forall>t. start + duration \<le> t \<longrightarrow>
        score_at s' el ''pos'' t = Inr [pt_x (last (route_pts (pt x y # route))), pt_y (last (route_pts (pt x y # route)))]))"
proof -
  obtain tk where tk: "get_track s el ''pos'' = Inr tk" "track_at tk start = [x, y]"
    using pos by (cases "get_track s el ''pos''") (auto simp: score_at_def)
  show ?thesis
  proof (cases "length (route_pts (pt x y # route)) < 2")
    case True
    then have "s' = s" using assms(2) tk by (simp add: score_move_def Let_def pt_of_def)
    then show ?thesis using True by simp
  next
    case False
    define pts where "pts = route_pts (pt x y # route)"
    have ne: "pts \<noteq> []" "hd pts = pt x y" by (simp_all add: pts_def)
    obtain s1 where p: "push_on el ''pos'' (move_seg pts start duration ease) s = Inr s1" "score_at s' = score_at s1"
      using assms(2) tk False by (auto simp: score_move_def Let_def pt_of_def pts_def split: sum.splits)
    note val = score_at_push_on[OF time_order.written_law[OF assms(1)] p(1), unfolded move_seg_def Seg.simps]
    have "trajectory pts start duration ease start = Some (pt x y)"
      using along_start[OF ne(1)] ease(1) ne(2) by (simp add: trajectory_def)
    moreover have "trajectory pts start duration ease (start + duration) = Some (last pts)"
      using along_end[OF ne(1)] ease(2,3) by (simp add: trajectory_def)
    ultimately show ?thesis
      using ease(3) pos False unfolding p(2) val pts_def[symmetric] by (auto simp: pos_of_def pt_def)
  qed
qed

section \<open>The theorems at a concrete score\<close>

lemma written_start: "written stage_drawable stage_path len (score_start target vs (new_score len))"
  unfolding written_def by (rule r_into_rtranclp) (rule start_step)

lemma written_then: "written stage_drawable stage_path len s \<Longrightarrow> score_step stage_drawable stage_path s s' \<Longrightarrow> written stage_drawable stage_path len s'"
  unfolding written_def by (rule rtranclp.rtrancl_into_rtrancl)

lemmas score_eval = score_start_def new_score_def tracks_of_def score_tween_def get_track_def push_on_def push_def put_track_def
  add_cue_def Let_def track_at_def score_set_def score_move_def score_at_def

abbreviation dot_score :: "(nat, unit) Score" where
  "dot_score \<equiv> score_start 0 [(''opacity'', VNum 0), (''pos'', VArr [0, 0])] (new_score 100)"

theorem tracks_in_time_order_witness:
  "\<exists>s tk. score_set 0 [(''opacity'', VNum 1)] 10 dot_score = Inr s \<and> get_track s 0 ''opacity'' = Inr tk
    \<and> length (tk_segs tk) = 1 \<and> sorted (map sg_start (tk_segs tk))"
proof -
  obtain s where s: "score_set 0 [(''opacity'', VNum 1)] 10 dot_score = Inr s" by (simp add: score_eval)
  then obtain tk where "get_track s 0 ''opacity'' = Inr tk" "length (tk_segs tk) = 1" by (auto simp: score_eval)
  then show ?thesis using s tracks_in_time_order[OF written_then[OF written_start set_step[OF s], of id "\<lambda>_. ((), ())"]] by blast
qed

theorem tween_never_jumps_witness:
  "\<exists>s. score_tween 0 [(''opacity'', VNum 1)] 10 20 (\<lambda>t. t) [] dot_score = Inr s
    \<and> score_at s 0 ''opacity'' 10 = Inr [0] \<and> score_at s 0 ''opacity'' 30 = Inr [1]"
proof -
  obtain s where s: "score_tween 0 [(''opacity'', VNum 1)] 10 20 (\<lambda>t. t) [] dot_score = Inr s" by (simp add: score_eval)
  have a: "score_at dot_score 0 ''opacity'' 10 = Inr [0]" by (simp add: score_eval)
  note j = tween_never_jumps[OF written_start[of id "\<lambda>_. ((), ())"] s]
  show ?thesis using s j a by fastforce
qed

theorem finish_pads_quietly_witness: "\<exists>s. finish dot_score = Inr s \<and> score_at s 0 ''opacity'' 50 = Inr [0]"
proof -
  obtain s where s: "finish dot_score = Inr s"
    by (simp add: finish_def score_eval pad_track_def endsInSet_def track_end_def PAD_after_def PAD_duration_def props_def)
  have "\<not> sc_finished dot_score" and a: "score_at dot_score 0 ''opacity'' 50 = Inr [0]" by (simp_all add: score_eval)
  note f = finish_pads_quietly[OF written_start[of id "\<lambda>_. ((), ())"] this(1), unfolded s]
  show ?thesis using s f a by simp
qed

theorem build_calls_in_time_order_witness: "\<exists>s calls. finish dot_score = Inr s \<and> build dot_score = Inr calls \<and> length (sc_cues s) \<le> length calls"
proof -
  obtain s where s: "finish dot_score = Inr s" and t: "\<forall>c \<in> set (sc_cues s). \<not> past_end (sc_total s) c"
    by (simp add: finish_def score_eval pad_track_def endsInSet_def track_end_def PAD_after_def PAD_duration_def props_def
      pad_cue_def past_end_def lag_def SET_EARLY_def)
  obtain cues where m: "mset cues = mset (sc_cues s)" and b: "if list_ex (past_end (sc_total s)) cues
      then \<exists>c. c \<in> set cues \<and> past_end (sc_total s) c \<and> build dot_score = Inl (PastTheEnd (cu_at c))
      else build dot_score = Inr (map (\<lambda>(p, v, ts). CallSet (ManyTargets ts) \<lparr>pa_duration = None, pa_ease = None, pa_props = [(p, PTo v)]\<rparr> 0) (resets s)
         @ map call_of cues)"
    using build_calls_in_time_order[OF s] by blast
  then have "set cues = set (sc_cues s)" "length cues = length (sc_cues s)" by (metis mset_eq_setD, metis size_mset)
  then show ?thesis using s t b by (auto simp: list_ex_iff)
qed

theorem move_leaves_from_where_it_is_witness:
  "\<exists>s. score_move (\<lambda>_. ((), ())) 0 [pt 3 4] 10 20 (\<lambda>t. t) dot_score = Inr s \<and> score_at s 0 ''pos'' 30 = Inr [3, 4]"
proof -
  have r: "route_pts [pt 0 0, pt 3 4] = [pt 0 0, pt 3 4]" by (simp add: route_pts_def dist_pt_def pt_def upt_rec)
  obtain s where s: "score_move (\<lambda>_. ((), ())) 0 [pt 3 4] 10 20 (\<lambda>t. t) dot_score = Inr s"
    by (simp add: score_eval pt_of_def r)
  have a: "score_at dot_score 0 ''pos'' 10 = Inr [0, 0]" by (simp add: score_eval)
  show ?thesis using s move_leaves_from_where_it_is[OF written_start[of id] s _ _ _ a] r by (simp add: pt_def)
qed

end
