(* ===== verification/Url_Params.thy ===== *)
theory Url_Params
  imports Prelude
begin

text \<open>
  The part of the URL standard the benchmark explorer uses: \<open>URLSearchParams\<close>, a list of names and values, printed and
  parsed as \<open>application/x-www-form-urlencoded\<close>. A text is its UTF-8 bytes, one \<open>char\<close> each; \<open>params_parse\<close> leaves bytes that
  are not UTF-8 as they are, where the standard puts the replacement character (only a focus typed by hand can hold such). The interface its client needs
  is the locale \<open>param_codec\<close>: what is printed is parsed back.
\<close>

section \<open>Names and values\<close>

type_synonym params = "(string \<times> string) list"

definition params_get :: "params \<Rightarrow> string \<Rightarrow> string option" where
  "params_get ps k = map_of ps k"

fun params_set :: "string \<Rightarrow> string \<Rightarrow> params \<Rightarrow> params" where
  "params_set k v [] = [(k, v)]"
| "params_set k v ((k', w) # ps) = (if k' = k then (k, v) # filter (\<lambda>p. fst p \<noteq> k) ps else (k', w) # params_set k v ps)"

lemma params_get_set: "params_get (params_set k v ps) k' = (if k' = k then Some v else params_get ps k')"
proof (induction ps)
  case (Cons p ps)
  have "map_of (filter (\<lambda>p. fst p \<noteq> k) ps) k' = map_of ps k'" if "k' \<noteq> k"
    using that by (induction ps) auto
  then show ?case using Cons by (cases p) (auto simp: params_get_def)
qed (simp add: params_get_def)

section \<open>Percent-encoding\<close>

definition plain_char :: "char \<Rightarrow> bool" where
  "plain_char c \<longleftrightarrow> (let n = (of_char c :: nat) in
     (48 \<le> n \<and> n \<le> 57) \<or> (65 \<le> n \<and> n \<le> 90) \<or> (97 \<le> n \<and> n \<le> 122) \<or> c \<in> set ''*-._'')"

definition hex_digit :: "nat \<Rightarrow> char" where
  "hex_digit n = (if n < 10 then char_of (48 + n) else char_of (55 + n))"

definition hex_value :: "char \<Rightarrow> nat option" where
  "hex_value c = (let n = (of_char c :: nat) in
     if 48 \<le> n \<and> n \<le> 57 then Some (n - 48) else if 65 \<le> n \<and> n \<le> 70 then Some (n - 55)
     else if 97 \<le> n \<and> n \<le> 102 then Some (n - 87) else None)"

definition encode_char :: "char \<Rightarrow> string" where
  "encode_char c = (if plain_char c then [c] else if c = CHR '' '' then ''+''
     else [CHR ''%'', hex_digit (of_char c div 16), hex_digit (of_char c mod 16)])"

definition encode :: "string \<Rightarrow> string" where
  "encode s = concat (map encode_char s)"

fun decode :: "string \<Rightarrow> string" where
  "decode [] = []"
| "decode (c # s) =
    (if c = CHR ''+'' then CHR '' '' # decode s
     else if c = CHR ''%'' then
       (case s of a # b # s' \<Rightarrow>
          (case (hex_value a, hex_value b) of (Some x, Some y) \<Rightarrow> char_of (16 * x + y) # decode s' | _ \<Rightarrow> c # decode s)
        | _ \<Rightarrow> c # decode s)
     else c # decode s)"

section \<open>Printing and parsing\<close>

fun split_on :: "char \<Rightarrow> string \<Rightarrow> string list" where
  "split_on d [] = [[]]"
| "split_on d (c # s) = (if c = d then [] # split_on d s else (case split_on d s of l # ls \<Rightarrow> (c # l) # ls | [] \<Rightarrow> [[c]]))"

definition params_print :: "params \<Rightarrow> string" where
  "params_print ps = join_with ''&'' (map (\<lambda>(k, v). encode k @ ''='' @ encode v) ps)"

text \<open>The first \<open>=\<close> ends the name; with none, the value is empty.\<close>

definition parse_pair :: "string \<Rightarrow> string \<times> string" where
  "parse_pair s = (decode (takeWhile (\<lambda>c. c \<noteq> CHR ''='') s), decode (drop 1 (dropWhile (\<lambda>c. c \<noteq> CHR ''='') s)))"

definition params_parse :: "string \<Rightarrow> params" where
  "params_parse s = (let q = (case s of c # r \<Rightarrow> if c = CHR ''?'' then r else s | [] \<Rightarrow> []) in
     map parse_pair (filter (\<lambda>t. t \<noteq> []) (split_on CHR ''&'' q)))"

section \<open>The round trip\<close>

lemma hex_value_digit: "n < 16 \<Longrightarrow> hex_value (hex_digit n) = Some n"
  by (auto simp: hex_value_def hex_digit_def Let_def of_char_of)

lemma hex_digit_plain: "n < 16 \<Longrightarrow> plain_char (hex_digit n)"
  by (auto simp: plain_char_def hex_digit_def Let_def of_char_of)

lemma plain_char_not: "plain_char c \<Longrightarrow> c \<notin> set ''+%&=?#''"
  by (auto simp: plain_char_def Let_def)

lemma decode_encode_char: "decode (encode_char c @ s) = c # decode s"
proof -
  have c: "16 * (of_char c div 16) + of_char c mod 16 = (of_char c :: nat)" "(of_char c :: nat) div 16 < 16" "(of_char c :: nat) mod 16 < 16"
    using nat_of_char_less_256[of c] by (simp_all add: less_mult_imp_div_less)
  show ?thesis
    using plain_char_not[of c] by (auto simp: encode_char_def hex_value_digit c)
qed

lemma decode_encode [simp]: "decode (encode s) = s"
  by (induction s) (simp_all add: encode_def decode_encode_char)

lemma encode_char_safe: "c' \<in> set (encode_char c) \<Longrightarrow> c' \<notin> set ''&=?#''"
proof -
  have "(of_char c :: nat) div 16 < 16" "(of_char c :: nat) mod 16 < 16"
    using nat_of_char_less_256[of c] by (simp_all add: less_mult_imp_div_less)
  then show "c' \<in> set (encode_char c) \<Longrightarrow> c' \<notin> set ''&=?#''"
    using plain_char_not[of c] plain_char_not[OF hex_digit_plain, of "of_char c div 16"] plain_char_not[OF hex_digit_plain, of "of_char c mod 16"]
    by (auto simp: encode_char_def split: if_splits)
qed

lemma encode_safe: "c \<in> set (encode s) \<Longrightarrow> c \<notin> set ''&=?#''"
  using encode_char_safe unfolding encode_def by fastforce

lemma split_on_free: "d \<notin> set s \<Longrightarrow> split_on d s = [s]"
  by (induction s) auto

lemma split_on_append: "d \<notin> set s \<Longrightarrow> split_on d (s @ d # t) = s # split_on d t"
  by (induction s) auto

lemma split_join: "xs \<noteq> [] \<Longrightarrow> list_all (\<lambda>x. d \<notin> set x) xs \<Longrightarrow> split_on d (join_with [d] xs) = xs"
  by (induction "[d]" xs rule: join_with.induct) (auto simp: split_on_free split_on_append)

lemma parse_pair_print: "parse_pair (encode k @ ''='' @ encode v) = (k, v)"
proof -
  have "\<forall>c \<in> set (encode k). c \<noteq> CHR ''=''" using encode_safe by fastforce
  then show ?thesis by (simp add: parse_pair_def takeWhile_append2 dropWhile_append2 takeWhile_append dropWhile_append)
qed

lemma encode_head: "encode k @ CHR ''='' # t = c # r \<Longrightarrow> c \<notin> set ''?#''"
  using encode_safe[of c k] by (cases "encode k") auto

lemma params_print_head: "params_print ps = c # r \<Longrightarrow> c \<notin> set ''?#''"
  by (cases ps rule: remdups_adj.cases) (auto simp: params_print_def dest!: encode_head)

lemma params_parse_print: "params_parse (params_print ps) = ps"
proof (cases "ps = []")
  case False
  let ?ts = "map (\<lambda>(k, v). encode k @ ''='' @ encode v) ps"
  have "list_all (\<lambda>x. CHR ''&'' \<notin> set x) ?ts" using encode_safe by (fastforce simp: list_all_iff)
  then have "split_on CHR ''&'' (params_print ps) = ?ts" using False by (simp add: params_print_def split_join)
  moreover have "filter (\<lambda>t. t \<noteq> []) ?ts = ?ts" by (auto simp: filter_id_conv)
  moreover have "map parse_pair ?ts = ps" by (induction ps) (auto simp: parse_pair_print simp del: append.simps)
  moreover have "params_parse (params_print ps) = map parse_pair (filter (\<lambda>t. t \<noteq> []) (split_on CHR ''&'' (params_print ps)))"
    using params_print_head[of ps] by (auto simp: params_parse_def split: list.splits)
  ultimately show ?thesis by simp
qed (simp add: params_parse_def params_print_def)

text \<open>\<open>hash.replace(/^#/, '')\<close>.\<close>

definition strip_mark :: "string \<Rightarrow> string" where
  "strip_mark s = (case s of c # r \<Rightarrow> if c = CHR ''#'' then r else s | [] \<Rightarrow> [])"

text \<open>
  What a client that keeps its state in the address needs of the standard: printed parameters are parsed back, and they begin with
  neither of the marks a reader strips first.
\<close>

locale param_codec =
  fixes print :: "params \<Rightarrow> string" and parse :: "string \<Rightarrow> params"
  assumes parse_print: "parse (print ps) = ps"
    and no_mark: "print ps = c # r \<Longrightarrow> c \<noteq> CHR ''#''"
begin

lemma parse_strip_print: "parse (strip_mark (print ps)) = ps"
proof -
  have "strip_mark (print ps) = print ps" using no_mark[of ps] by (cases "print ps") (auto simp: strip_mark_def)
  then show ?thesis by (simp add: parse_print)
qed

lemma parse_strip_hash: "parse (strip_mark (CHR ''#'' # print ps)) = ps"
  by (simp add: strip_mark_def parse_print)

end

interpretation url: param_codec params_print params_parse
  by unfold_locales (use params_parse_print params_print_head in auto)

end
