(* ===== verification/Bench.thy ===== *)
theory Bench
  imports Complex_Main Prelude Url_Params "HOL-Library.AList" "HOL-Library.Monad_Syntax"
begin

text \<open>
  \<open>docs/src/components/bench/lib.ts\<close>: the benchmark explorer's logic. Views, subjects, filters and metrics, the state of
  the page and the scope it selects, the ranking of a group's rows, lanes, losses and the win map, links and commands, and the
  state written into the URL's hash and read back.

  A string is its UTF-8 text, a number a rational. A result of None is an exception of the source: a dataset a view names that the
  data does not have, an option list with no first option, a group whose column set does not exist. A row too short for its
  column set, and a division by a zero metric value, are None as well: there the source goes on with NaN or Infinity.
  \<open>String.localeCompare\<close> is a parameter. The objects the source uses as tables (\<open>SUBJECTS\<close>, \<open>Filters\<close>, a group's key) are
  association lists in the order of their entries.
\<close>

section \<open>Data\<close>

datatype Suite = SPool | SRedis | SSqlite

fun suite_name :: "Suite \<Rightarrow> string" where
  "suite_name SPool = ''pool''"
| "suite_name SRedis = ''redis''"
| "suite_name SSqlite = ''sqlite''"

datatype Kind = KVarmq | KLib | KBaseline

record Row =
  r_subject :: string
  r_line :: nat
  r_iterations :: nat
  r_values :: "rat list"

record Group =
  g_id :: string
  g_key :: "(string \<times> string) list"
  g_c :: nat
  g_first :: nat
  g_last :: nat
  g_rows :: "Row list"

record Dataset =
  ds_id :: string
  ds_suite :: Suite
  ds_title :: string
  ds_file :: string
  ds_procs :: nat
  ds_cpu :: string
  ds_goos :: string
  ds_goarch :: string
  ds_pkg :: string
  ds_seconds :: rat
  ds_rowCount :: nat
  ds_runDate :: string
  ds_readme :: string
  ds_colsets :: "string list list"
  ds_groups :: "Group list"

record Version =
  ver_name :: string
  ver_label :: string
  ver_url :: "string option"
  ver_version :: string
  ver_suites :: "string list"

record Data =
  d_schema :: nat
  d_repo :: string
  d_commit :: string
  d_commitDate :: string
  d_runDate :: string
  d_machine :: string
  d_pinning :: string
  d_versions :: "Version list"
  d_datasets :: "Dataset list"

record Cell =
  c_ds :: Dataset
  c_g :: Group

record View =
  v_id :: string
  v_tab :: string
  v_title :: string
  v_suite :: Suite
  v_sources :: "string list"
  v_chart :: "string option"
  v_blurb :: string

definition view :: "string \<Rightarrow> string \<Rightarrow> string \<Rightarrow> Suite \<Rightarrow> string list \<Rightarrow> string option \<Rightarrow> string \<Rightarrow> View" where
  "view i tab title suite sources chart blurb = \<lparr>v_id = i, v_tab = tab, v_title = title, v_suite = suite,
     v_sources = sources, v_chart = chart, v_blurb = blurb\<rparr>"

definition VIEWS :: "View list" where
  "VIEWS = [
    view ''pool-all'' ''All pools'' ''Worker pool, GOMAXPROCS 24, 8 and 4'' SPool [''pool-24cpu'', ''pool-8cpu'', ''pool-4cpu'']
      None ''The three pool files read together. A mean here averages the 24, 8 and 4 CPU runs.'',
    view ''pool-24cpu'' ''24 CPUs'' ''Worker pool, GOMAXPROCS 24'' SPool [''pool-24cpu'']
      (Some ''pool-24cpu'') ''Nine pools, 1M tasks per run.'',
    view ''pool-8cpu'' ''8 CPUs'' ''Worker pool, GOMAXPROCS 8'' SPool [''pool-8cpu'']
      (Some ''pool-8cpu'') ''The same matrix with GOMAXPROCS 8.'',
    view ''pool-4cpu'' ''4 CPUs'' ''Worker pool, GOMAXPROCS 4'' SPool [''pool-4cpu'']
      (Some ''pool-4cpu'') ''The same matrix with GOMAXPROCS 4.'',
    view ''redis'' ''Redis'' ''Job queues on Redis'' SRedis [''redis'']
      (Some ''redis'') ''Six subjects from five libraries on Redis 7.2.'',
    view ''sqlite'' ''SQLite'' ''Job queues on SQLite'' SSqlite [''sqlite'']
      (Some ''sqlite'') ''Five subjects from four libraries, WAL checkpoint at 1000 and 10000 pages.'']"

definition viewById :: "string \<Rightarrow> View" where
  "viewById i = (case find (\<lambda>v. v_id v = i) VIEWS of Some v \<Rightarrow> v | None \<Rightarrow> hd VIEWS)"

section \<open>Subjects\<close>

record SubjectInfo =
  si_code :: string
  si_kind :: Kind
  si_note :: string

definition SUBJECTS :: "(string \<times> SubjectInfo) list" where
  "SUBJECTS = [
    (''VarMQ'', \<lparr>si_code = ''VQ'', si_kind = KVarmq, si_note = ''VarMQ. Pool: a worker bound to an in-memory queue. Redis: VarMQ with redisq, one instance. SQLite: VarMQ with sqliteq, one file per queue.''\<rparr>),
    (''VarMQDistributed'', \<lparr>si_code = ''VD'', si_kind = KVarmq, si_note = ''VarMQ with redisq as a distributed queue.''\<rparr>),
    (''VarMQSingleFile'', \<lparr>si_code = ''VS'', si_kind = KVarmq, si_note = ''VarMQ with sqliteq, every queue in one database file. Runs in Mixed10Q only.''\<rparr>),
    (''Ants'', \<lparr>si_code = ''AN'', si_kind = KLib, si_note = ''panjf2000/ants, default options. Submit blocks until a worker is free.''\<rparr>),
    (''WorkerPool'', \<lparr>si_code = ''WP'', si_kind = KLib, si_note = ''gammazero/workerpool. Submit never blocks.''\<rparr>),
    (''Conc'', \<lparr>si_code = ''CO'', si_kind = KLib, si_note = ''sourcegraph/conc pool with a goroutine cap.''\<rparr>),
    (''ErrGroup'', \<lparr>si_code = ''EG'', si_kind = KLib, si_note = ''x/sync errgroup with SetLimit: one goroutine per task, not a pool.''\<rparr>),
    (''Gopool'', \<lparr>si_code = ''GP'', si_kind = KLib, si_note = ''bytedance/gopkg gopool. Soft worker cap, unbounded task list.''\<rparr>),
    (''Pond'', \<lparr>si_code = ''PO'', si_kind = KLib, si_note = ''alitto/pond v2 with an unbounded queue.''\<rparr>),
    (''GoroutinePool'', \<lparr>si_code = ''GR'', si_kind = KBaseline, si_note = ''Baseline, not a library: N goroutines reading one unbuffered channel.''\<rparr>),
    (''BufferedPool'', \<lparr>si_code = ''BP'', si_kind = KBaseline, si_note = ''Baseline, not a library: N goroutines reading a channel that holds all 1M tasks.''\<rparr>),
    (''Asynq'', \<lparr>si_code = ''AS'', si_kind = KLib, si_note = ''hibiken/asynq.''\<rparr>),
    (''GocraftWork'', \<lparr>si_code = ''GW'', si_kind = KLib, si_note = ''gocraft/work.''\<rparr>),
    (''Rmq'', \<lparr>si_code = ''RM'', si_kind = KLib, si_note = ''adjust/rmq.''\<rparr>),
    (''Taskq'', \<lparr>si_code = ''TQ'', si_kind = KLib, si_note = ''vmihailenco/taskq.''\<rparr>),
    (''Goqite'', \<lparr>si_code = ''GQ'', si_kind = KLib, si_note = ''maragudk/goqite.''\<rparr>),
    (''Backlite'', \<lparr>si_code = ''BL'', si_kind = KLib, si_note = ''mikestefanello/backlite.''\<rparr>),
    (''River'', \<lparr>si_code = ''RV'', si_kind = KLib, si_note = ''riverqueue/river with its SQLite driver.''\<rparr>)]"

definition to_upper :: "char \<Rightarrow> char" where
  "to_upper c = (if 97 \<le> (of_char c :: nat) \<and> (of_char c :: nat) \<le> 122 then char_of ((of_char c :: nat) - 32) else c)"

definition info :: "string \<Rightarrow> SubjectInfo" where
  "info s = (case map_of SUBJECTS s of Some i \<Rightarrow> i
     | None \<Rightarrow> \<lparr>si_code = map to_upper (take 2 s), si_kind = KLib, si_note = ''''\<rparr>)"

definition kindOf :: "string \<Rightarrow> Kind" where "kindOf s = si_kind (info s)"
definition isVarmq :: "string \<Rightarrow> bool" where "isVarmq s \<longleftrightarrow> si_kind (info s) = KVarmq"
definition codeOf :: "string \<Rightarrow> string" where "codeOf s = si_code (info s)"
definition noteOf :: "string \<Rightarrow> string" where "noteOf s = si_note (info s)"

definition label :: "string \<Rightarrow> string" where
  "label s = (if si_kind (info s) = KBaseline then s @ '' '' @ [CHR 0xE2, CHR 0x80, CHR 0xA0] else s)"

section \<open>Filters\<close>

type_synonym Filters = "(string \<times> string) list"

record FilterDef =
  fd_id :: string
  fd_label :: string
  fd_all :: bool
  fd_options :: "(string \<times> string) list"
  fd_when :: "(Filters \<Rightarrow> bool) option"

definition is_digit :: "char \<Rightarrow> bool" where
  "is_digit c \<longleftrightarrow> 48 \<le> (of_char c :: nat) \<and> (of_char c :: nat) \<le> 57"

text \<open>The regular expression \<open>(\d+[KM]?)\<close> at the head of a text: what it matches, and the rest.\<close>

definition count_match :: "string \<Rightarrow> (string \<times> string) option" where
  "count_match s =
    (let ds = takeWhile is_digit s; rest = dropWhile is_digit s in
     if ds = [] then None
     else (case rest of c # rest' \<Rightarrow> if c = CHR ''K'' \<or> c = CHR ''M'' then Some (ds @ [c], rest') else Some (ds, rest)
           | [] \<Rightarrow> Some (ds, rest)))"

definition producers_of :: "string \<Rightarrow> string option" where
  "producers_of shape = (case count_match shape of
     Some (u, c1 # c2 # rest) \<Rightarrow> if [c1, c2] = ''u-'' then (case count_match rest of Some (_, r) \<Rightarrow> if r = ''t'' then Some u else None | None \<Rightarrow> None) else None
   | _ \<Rightarrow> None)"

definition producerLabel :: "string \<Rightarrow> string" where
  "producerLabel shape = (case producers_of shape of None \<Rightarrow> shape
     | Some u \<Rightarrow> if u = ''1'' then ''1 producer'' else u @ '' producers'')"

definition workerLabel :: "string \<Rightarrow> string" where
  "workerLabel v = (if v = ''1'' then ''1 worker'' else v @ '' workers'')"

definition TEST_LABEL :: "(string \<times> string) list" where
  "TEST_LABEL = [(''durable'', ''Drain 100K jobs''), (''enqueue'', ''Enqueue only''), (''latency'', ''Latency'')]"

definition sourcesOf :: "Data \<Rightarrow> View \<Rightarrow> Dataset list option" where
  "sourcesOf data v = those (map (\<lambda>i. find (\<lambda>d. ds_id d = i) (d_datasets data)) (v_sources v))"

definition optionsOf :: "Dataset list \<Rightarrow> string \<Rightarrow> (Group \<Rightarrow> bool) \<Rightarrow> string list" where
  "optionsOf datasets i keep = fold (\<lambda>g seen.
      if keep g then (case map_of (g_key g) i of Some v \<Rightarrow> if v \<in> set seen then seen else seen @ [v] | None \<Rightarrow> seen) else seen)
    (concat (map ds_groups datasets)) []"

definition opts :: "Dataset list \<Rightarrow> string \<Rightarrow> (string \<Rightarrow> string) \<Rightarrow> (Group \<Rightarrow> bool) \<Rightarrow> (string \<times> string) list" where
  "opts ds i fmt keep = map (\<lambda>v. (v, fmt v)) (optionsOf ds i keep)"

definition filter_def :: "string \<Rightarrow> string \<Rightarrow> bool \<Rightarrow> (Filters \<Rightarrow> bool) option \<Rightarrow> (string \<times> string) list \<Rightarrow> FilterDef" where
  "filter_def i lab allow_all w os = \<lparr>fd_id = i, fd_label = lab, fd_all = allow_all, fd_options = os, fd_when = w\<rparr>"

definition durable :: "Filters \<Rightarrow> bool" where
  "durable f \<longleftrightarrow> map_of f ''test'' = Some ''durable''"

definition test_label :: "string \<Rightarrow> string" where
  "test_label v = (case map_of TEST_LABEL v of Some l \<Rightarrow> l | None \<Rightarrow> v)"

definition pool_filters :: "Dataset list \<Rightarrow> FilterDef list" where
  "pool_filters ds = [
    filter_def ''task'' ''Task'' True None (opts ds ''task'' id (\<lambda>_. True)),
    filter_def ''workers'' ''Workers'' True None (opts ds ''workers'' workerLabel (\<lambda>_. True)),
    filter_def ''shape'' ''Producers'' True None (opts ds ''shape'' producerLabel (\<lambda>_. True))]"

definition redis_filters :: "Dataset list \<Rightarrow> FilterDef list" where
  "redis_filters ds = [
    filter_def ''test'' ''Test'' False None (opts ds ''test'' test_label (\<lambda>_. True)),
    filter_def ''task'' ''Task'' True (Some durable) (opts ds ''task'' (\<lambda>v. if v = ''Sleep1ms'' then ''Sleep 1 ms'' else v) (\<lambda>_. True)),
    filter_def ''workers'' ''Workers'' True (Some durable) (opts ds ''workers'' id (\<lambda>_. True)),
    filter_def ''instances'' ''Instances'' False (Some durable)
      (opts ds ''instances'' (\<lambda>v. if v = ''1'' then ''1 (C1)'' else v @ '' (C'' @ v @ '')'') (\<lambda>_. True)),
    filter_def ''shape'' ''Producers'' True (Some (\<lambda>f. map_of f ''test'' \<noteq> Some ''latency''))
      (opts ds ''shape'' producerLabel (\<lambda>g. map_of (g_key g) ''test'' \<noteq> Some ''latency''))]"

definition sqlite_filters :: "Dataset list \<Rightarrow> FilterDef list" where
  "sqlite_filters ds = [
    filter_def ''scenario'' ''Scenario'' True None (opts ds ''scenario'' id (\<lambda>_. True)),
    filter_def ''ckpt'' ''WAL checkpoint'' True None (opts ds ''ckpt'' (\<lambda>v. v @ '' pages'') (\<lambda>_. True))]"

definition filterDefs :: "Data \<Rightarrow> View \<Rightarrow> FilterDef list option" where
  "filterDefs data v = map_option (\<lambda>ds. case v_suite v of SPool \<Rightarrow> pool_filters ds | SRedis \<Rightarrow> redis_filters ds | SSqlite \<Rightarrow> sqlite_filters ds)
    (sourcesOf data v)"

section \<open>Metrics\<close>

datatype Better = High | Low
datatype Dec = Digits nat | Sig

record Metric =
  m_id :: string
  m_label :: string
  m_unit :: string
  m_title :: string
  m_better :: Better
  m_col :: string
  m_scale :: rat
  m_dec :: Dec

definition RATE :: "Suite \<Rightarrow> Metric" where
  "RATE suite = \<lparr>m_id = ''rate'', m_label = ''Throughput'', m_unit = (if suite = SPool then ''tasks/s'' else ''jobs/s''),
     m_title = (if suite = SPool then ''Tasks per second'' else ''Jobs per second''), m_better = High,
     m_col = (if suite = SPool then ''ops/s'' else ''jobs/s''), m_scale = 1, m_dec = Digits 0\<rparr>"

definition ms_metric :: "string \<Rightarrow> string \<Rightarrow> string \<Rightarrow> Metric" where
  "ms_metric i lab col = \<lparr>m_id = i, m_label = lab, m_unit = ''ms'', m_title = lab @ '' latency'', m_better = Low,
     m_col = col, m_scale = 1, m_dec = Sig\<rparr>"

definition metricsFor :: "Suite \<Rightarrow> Filters \<Rightarrow> Metric list" where
  "metricsFor suite f =
    (if suite = SRedis \<and> map_of f ''test'' = Some ''latency''
     then [ms_metric ''p50'' ''Median (p50)'' ''p50-ms'', ms_metric ''p99'' ''p99'' ''p99-ms'', ms_metric ''max'' ''Max'' ''max-ms'']
     else if suite = SSqlite
     then [RATE suite, \<lparr>m_id = ''wal'', m_label = ''WAL size'', m_unit = ''MB'', m_title = ''Peak WAL size'', m_better = Low,
       m_col = ''walMB'', m_scale = 1, m_dec = Digits 1\<rparr>]
     else [RATE suite, \<lparr>m_id = ''memory'', m_label = ''Memory'', m_unit = ''MB'',
       m_title = (if suite = SPool then ''MB allocated per 1M tasks'' else ''MB allocated per run''), m_better = Low,
       m_col = ''B/op'', m_scale = 1000000, m_dec = Digits 1\<rparr>])"

text \<open>None: the read throws or is not a number. \<open>Some None\<close>: the group has no such column.\<close>

definition metricValue :: "Dataset \<Rightarrow> Group \<Rightarrow> Row \<Rightarrow> Metric \<Rightarrow> rat option option" where
  "metricValue ds g r m =
    (if g_c g < length (ds_colsets ds) then
      (case index_of (m_col m) (ds_colsets ds ! g_c g) of None \<Rightarrow> Some None
       | Some i \<Rightarrow> if i < length (r_values r) then Some (Some (r_values r ! i / m_scale m)) else None)
     else None)"

section \<open>The state of the page\<close>

datatype Sort = Best | Worst | ByName

record State =
  s_view :: string
  s_f :: Filters
  s_metric :: string
  s_sort :: Sort
  s_baselines :: bool
  s_focus :: "string option"

definition first_value :: "FilterDef \<Rightarrow> string option" where
  "first_value d = (if fd_all d then Some ''all'' else (case fd_options d of [] \<Rightarrow> None | (v, _) # _ \<Rightarrow> Some v))"

fun default_filters :: "FilterDef list \<Rightarrow> Filters \<Rightarrow> Filters option" where
  "default_filters [] f = Some f"
| "default_filters (d # ds) f = (case first_value d of None \<Rightarrow> None | Some v \<Rightarrow> default_filters ds (AList.update (fd_id d) v f))"

definition defaultState :: "Data \<Rightarrow> string \<Rightarrow> State option" where
  "defaultState data viewId = do {
     let v = viewById viewId;
     defs \<leftarrow> filterDefs data v;
     f \<leftarrow> default_filters defs [];
     Some \<lparr>s_view = v_id v, s_f = f, s_metric = ''rate'', s_sort = Best, s_baselines = True, s_focus = None\<rparr> }"

definition activeFilters :: "FilterDef list \<Rightarrow> Filters \<Rightarrow> FilterDef list" where
  "activeFilters defs f = filter (\<lambda>d. case fd_when d of None \<Rightarrow> True | Some w \<Rightarrow> w f) defs"

definition in_scope :: "View \<Rightarrow> FilterDef list \<Rightarrow> Filters \<Rightarrow> Group \<Rightarrow> bool" where
  "in_scope v defs f g \<longleftrightarrow> \<not> (v_suite v = SRedis \<and> map_of (g_key g) ''test'' \<noteq> map_of f ''test'')
    \<and> list_all (\<lambda>d. map_of f (fd_id d) = Some ''all''
        \<or> map_of (g_key g) (fd_id d) = Some (case map_of f (fd_id d) of None \<Rightarrow> ''all'' | Some w \<Rightarrow> w)
        \<or> map_of (g_key g) (fd_id d) = None) defs"

definition scopeOf :: "Data \<Rightarrow> State \<Rightarrow> Cell list option" where
  "scopeOf data s = do {
     let v = viewById (s_view s);
     all_defs \<leftarrow> filterDefs data v;
     let defs = activeFilters all_defs (s_f s);
     sources \<leftarrow> sourcesOf data v;
     Some (concat (map (\<lambda>ds. map (\<lambda>g. \<lparr>c_ds = ds, c_g = g\<rparr>) (filter (in_scope v defs (s_f s)) (ds_groups ds))) sources)) }"

definition cellId :: "Cell \<Rightarrow> bool \<Rightarrow> string" where
  "cellId c multi = (if multi then ds_id (c_ds c) @ ''|'' @ g_id (c_g c) else g_id (c_g c))"

definition filter_valid :: "FilterDef \<Rightarrow> Filters \<Rightarrow> bool" where
  "filter_valid d f \<longleftrightarrow> (fd_all d \<and> map_of f (fd_id d) = Some ''all'') \<or> list_ex (\<lambda>(v, _). map_of f (fd_id d) = Some v) (fd_options d)"

fun normal_filters :: "FilterDef list \<Rightarrow> Filters \<Rightarrow> Filters option" where
  "normal_filters [] f = Some f"
| "normal_filters (d # ds) f =
    (if filter_valid d f then normal_filters ds f
     else (case first_value d of None \<Rightarrow> None | Some v \<Rightarrow> normal_filters ds (AList.update (fd_id d) v f)))"

definition normalize :: "Data \<Rightarrow> State \<Rightarrow> State option" where
  "normalize data s = do {
     let v = viewById (s_view s);
     defs \<leftarrow> filterDefs data v;
     f \<leftarrow> normal_filters defs (s_f s);
     let metrics = metricsFor (v_suite v) f;
     let metric = (if list_ex (\<lambda>m. m_id m = s_metric s) metrics then s_metric s else m_id (hd metrics));
     Some (s\<lparr>s_view := v_id v, s_f := f, s_metric := metric, s_baselines := (if v_suite v = SPool then s_baselines s else True)\<rparr>) }"

definition currentMetric :: "State \<Rightarrow> Metric" where
  "currentMetric s = (let ms = metricsFor (v_suite (viewById (s_view s))) (s_f s) in
     case find (\<lambda>m. m_id m = s_metric s) ms of Some m \<Rightarrow> m | None \<Rightarrow> hd ms)"

fun counts_of :: "Data \<Rightarrow> State \<Rightarrow> FilterDef \<Rightarrow> string list \<Rightarrow> (string \<times> nat) list \<Rightarrow> (string \<times> nat) list option" where
  "counts_of data s d [] out = Some out"
| "counts_of data s d (v # vs) out = (case scopeOf data (s\<lparr>s_f := AList.update (fd_id d) v (s_f s)\<rparr>) of None \<Rightarrow> None
     | Some cells \<Rightarrow> counts_of data s d vs (AList.update v (length cells) out))"

fun all_counts :: "Data \<Rightarrow> State \<Rightarrow> FilterDef list \<Rightarrow> (string \<times> (string \<times> nat) list) list \<Rightarrow> (string \<times> (string \<times> nat) list) list option" where
  "all_counts data s [] out = Some out"
| "all_counts data s (d # ds) out =
    (case counts_of data s d ((if fd_all d then [''all''] else []) @ map fst (fd_options d)) [] of None \<Rightarrow> None
     | Some cs \<Rightarrow> all_counts data s ds (AList.update (fd_id d) cs out))"

definition optionCounts :: "Data \<Rightarrow> State \<Rightarrow> (string \<times> (string \<times> nat) list) list option" where
  "optionCounts data s = do { defs \<leftarrow> filterDefs data (viewById (s_view s)); all_counts data s defs [] }"

section \<open>Rows and winners\<close>

text \<open>\<open>Array.sort\<close> with a comparator: stable, an element before those it does not come after.\<close>

fun put_by :: "('a \<Rightarrow> 'a \<Rightarrow> rat) \<Rightarrow> 'a \<Rightarrow> 'a list \<Rightarrow> 'a list" where
  "put_by cmp x [] = [x]"
| "put_by cmp x (y # ys) = (if cmp x y \<le> 0 then x # y # ys else y # put_by cmp x ys)"

fun sort_by :: "('a \<Rightarrow> 'a \<Rightarrow> rat) \<Rightarrow> 'a list \<Rightarrow> 'a list" where
  "sort_by cmp [] = []"
| "sort_by cmp (x # xs) = put_by cmp x (sort_by cmp xs)"

record RankedRow =
  rk_subject :: string
  rk_value :: rat
  rk_line :: nat

fun ranked_rows :: "Cell \<Rightarrow> Metric \<Rightarrow> State \<Rightarrow> Row list \<Rightarrow> RankedRow list option" where
  "ranked_rows c m s [] = Some []"
| "ranked_rows c m s (r # rs) =
    (if \<not> s_baselines s \<and> kindOf (r_subject r) = KBaseline then ranked_rows c m s rs
     else do {
       value \<leftarrow> metricValue (c_ds c) (c_g c) r m;
       out \<leftarrow> ranked_rows c m s rs;
       Some (case value of None \<Rightarrow> out | Some x \<Rightarrow> \<lparr>rk_subject = r_subject r, rk_value = x, rk_line = r_line r\<rparr> # out) })"

definition better_by :: "Better \<Rightarrow> rat \<Rightarrow> rat \<Rightarrow> rat" where
  "better_by b x y = (case b of High \<Rightarrow> y - x | Low \<Rightarrow> x - y)"

definition ranked :: "Cell \<Rightarrow> Metric \<Rightarrow> State \<Rightarrow> RankedRow list option" where
  "ranked c m s = map_option (sort_by (\<lambda>a b. better_by (m_better m) (rk_value a) (rk_value b))) (ranked_rows c m s (g_rows (c_g c)))"

definition leaders :: "RankedRow list \<Rightarrow> RankedRow list" where
  "leaders p = filter (\<lambda>r. rk_value r = rk_value (hd p)) p"

datatype GroupOutcome = OVarmq | OOther | OTie

definition outcomeOf :: "RankedRow list \<Rightarrow> GroupOutcome" where
  "outcomeOf p =
    (let top = leaders p; vq = length (filter (\<lambda>r. isVarmq (rk_subject r)) top) in
     if vq = length top then OVarmq else if vq = 0 then OOther else OTie)"

section \<open>Lanes\<close>

record Lane =
  ln_subject :: string
  ln_value :: rat
  ln_ratio :: "rat option"
  ln_won :: nat
  ln_of :: nat

record Wins =
  w_varmq :: nat
  w_other :: nat
  w_tied :: nat

record LaneSet =
  ls_lanes :: "Lane list"
  ls_base :: "string option"
  ls_groups :: nat
  ls_partial :: "(string \<times> nat) list"
  ls_wins :: Wins

text \<open>\<open>map.set(k, (map.get(k) ?? 0) + x)\<close>.\<close>

definition add_to :: "string \<Rightarrow> 'n::comm_monoid_add \<Rightarrow> (string \<times> 'n) list \<Rightarrow> (string \<times> 'n) list" where
  "add_to k x m = AList.update k ((case map_of m k of None \<Rightarrow> 0 | Some y \<Rightarrow> y) + x) m"

text \<open>The tallies of the loop over the ranked groups: rows and value sums by subject, groups won alone, and outcomes.\<close>

record Tally =
  t_count :: "(string \<times> nat) list"
  t_sum :: "(string \<times> rat) list"
  t_won :: "(string \<times> nat) list"
  t_wins :: Wins

definition add_outcome :: "GroupOutcome \<Rightarrow> Wins \<Rightarrow> Wins" where
  "add_outcome out w = (case out of OVarmq \<Rightarrow> w\<lparr>w_varmq := w_varmq w + 1\<rparr> | OOther \<Rightarrow> w\<lparr>w_other := w_other w + 1\<rparr>
     | OTie \<Rightarrow> w\<lparr>w_tied := w_tied w + 1\<rparr>)"

definition add_group :: "RankedRow list \<Rightarrow> Tally \<Rightarrow> Tally" where
  "add_group p t = (if p = [] then t
     else (let top = leaders p in
       t\<lparr>t_count := fold (\<lambda>r. add_to (rk_subject r) 1) p (t_count t),
         t_sum := fold (\<lambda>r. add_to (rk_subject r) (rk_value r)) p (t_sum t),
         t_won := (if length top = 1 then add_to (rk_subject (hd top)) 1 (t_won t) else t_won t),
         t_wins := add_outcome (outcomeOf p) (t_wins t)\<rparr>))"

definition tally :: "RankedRow list list \<Rightarrow> Tally" where
  "tally per = fold add_group per \<lparr>t_count = [], t_sum = [], t_won = [], t_wins = \<lparr>w_varmq = 0, w_other = 0, w_tied = 0\<rparr>\<rparr>"

definition lane_base :: "string list \<Rightarrow> string option" where
  "lane_base whole = (if ''VarMQ'' \<in> set whole then Some ''VarMQ'' else find isVarmq whole)"

text \<open>The ratio is None where the source has NaN or Infinity: with no base, or a base of value 0.\<close>

definition lane_of :: "Tally \<Rightarrow> nat \<Rightarrow> string option \<Rightarrow> string \<Rightarrow> Lane" where
  "lane_of t groups base subject =
    (let value = (\<lambda>s. the (map_of (t_sum t) s) / of_nat groups) in
     \<lparr>ln_subject = subject, ln_value = value subject,
      ln_ratio = (case base of None \<Rightarrow> None | Some b \<Rightarrow> if value b = 0 then None else Some (value subject / value b)),
      ln_won = (case map_of (t_won t) subject of None \<Rightarrow> 0 | Some n \<Rightarrow> n), ln_of = groups\<rparr>)"

definition lane_cmp :: "(string \<Rightarrow> string \<Rightarrow> int) \<Rightarrow> Sort \<Rightarrow> Better \<Rightarrow> string list \<Rightarrow> Lane \<Rightarrow> Lane \<Rightarrow> rat" where
  "lane_cmp locale_compare so be order a b =
    (if so = ByName then of_int (locale_compare (ln_subject a) (ln_subject b))
     else (let d = (if so = Best then 1 else - 1) * better_by be (ln_value a) (ln_value b) in
       if d \<noteq> 0 then d
       else (of_nat (the (index_of (ln_subject a) order)) - of_nat (the (index_of (ln_subject b) order)))))"

definition lane_set_of :: "(string \<Rightarrow> string \<Rightarrow> int) \<Rightarrow> RankedRow list list \<Rightarrow> Metric \<Rightarrow> State \<Rightarrow> LaneSet" where
  "lane_set_of locale_compare per m s =
    (let groups = length (filter (\<lambda>p. p \<noteq> []) per);
         t = tally per;
         whole = map fst (filter (\<lambda>(_, n). n = groups) (t_count t));
         base = lane_base whole in
     \<lparr>ls_lanes = sort_by (lane_cmp locale_compare (s_sort s) (m_better m) (map fst (t_count t))) (map (lane_of t groups base) whole),
      ls_base = base, ls_groups = groups, ls_partial = filter (\<lambda>(_, n). n < groups) (t_count t), ls_wins = t_wins t\<rparr>)"

definition laneSet :: "(string \<Rightarrow> string \<Rightarrow> int) \<Rightarrow> Cell list \<Rightarrow> Metric \<Rightarrow> State \<Rightarrow> LaneSet option" where
  "laneSet locale_compare cells m s =
    map_option (\<lambda>per. lane_set_of locale_compare per m s) (those (map (\<lambda>c. ranked c m s) cells))"

section \<open>Losses\<close>

record Loss =
  lo_cell :: Cell
  lo_winner :: RankedRow
  lo_varmq :: RankedRow
  lo_ahead :: rat
  lo_rank :: nat
  lo_of :: nat

definition ahead_of :: "Better \<Rightarrow> rat \<Rightarrow> rat \<Rightarrow> rat option" where
  "ahead_of be w v = (case be of High \<Rightarrow> if v = 0 then None else Some (w / v) | Low \<Rightarrow> if w = 0 then None else Some (v / w))"

text \<open>One group: no loss (\<open>Some None\<close>), or the loss.\<close>

definition loss_of :: "Metric \<Rightarrow> State \<Rightarrow> Cell \<Rightarrow> Loss option option" where
  "loss_of m s cell = do {
     p \<leftarrow> ranked cell m s;
     if p = [] \<or> outcomeOf p \<noteq> OOther then Some None
     else (case find_index (\<lambda>r. isVarmq (rk_subject r)) p of
         None \<Rightarrow> Some None
       | Some i \<Rightarrow> do {
           ahead \<leftarrow> ahead_of (m_better m) (rk_value (hd p)) (rk_value (p ! i));
           Some (Some \<lparr>lo_cell = cell, lo_winner = hd p, lo_varmq = p ! i, lo_ahead = ahead, lo_rank = i + 1, lo_of = length p\<rparr>) }) }"

definition lossesOf :: "Cell list \<Rightarrow> Metric \<Rightarrow> State \<Rightarrow> Loss list option" where
  "lossesOf cells m s = map_option (\<lambda>ls. sort_by (\<lambda>a b. lo_ahead b - lo_ahead a) (List.map_filter id ls))
    (those (map (loss_of m s) cells))"

definition lossCounts :: "(string \<Rightarrow> string \<Rightarrow> int) \<Rightarrow> Loss list \<Rightarrow> (string \<times> nat) list" where
  "lossCounts locale_compare losses =
    sort_by (\<lambda>a b. if snd a \<noteq> snd b then of_nat (snd b) - of_nat (snd a) else of_int (locale_compare (fst a) (fst b)))
      (fold (\<lambda>l. add_to (rk_subject (lo_winner l)) 1) losses [])"

section \<open>The win map\<close>

record MapCell =
  mc_cell :: Cell
  mc_id :: string
  mc_winner :: "RankedRow option"
  mc_leaders :: "RankedRow list"
  mc_varmq :: bool
  mc_tie :: bool

record WinMap =
  wm_corner :: string
  wm_colGroups :: "(Dataset \<times> (string \<times> string) list) list"
  wm_rows :: "((string \<times> string) \<times> MapCell option list list) list"

text \<open>A key's value in a template, which prints \<open>undefined\<close> for none.\<close>

definition key_text :: "(string \<times> string) list \<Rightarrow> string \<Rightarrow> string" where
  "key_text k x = (case map_of k x of None \<Rightarrow> ''undefined'' | Some v \<Rightarrow> v)"

definition middot :: string where "middot = '' '' @ [CHR 0xC2, CHR 0xB7] @ '' ''"

record Axes =
  ax_row :: string
  ax_rowLabel :: string
  ax_col :: string
  ax_colLabel :: string

definition axes :: "Dataset \<Rightarrow> Group \<Rightarrow> Axes" where
  "axes ds g = (let k = key_text (g_key g); shape_axes = (\<lambda>row lab. \<lparr>ax_row = row, ax_rowLabel = lab, ax_col = k ''shape'', ax_colLabel = producerLabel (k ''shape'')\<rparr>) in
    case ds_suite ds of
      SPool \<Rightarrow> shape_axes (k ''task'' @ ''|'' @ k ''workers'')
        (k ''task'' @ middot @ (if k ''workers'' = ''1'' then ''1 worker'' else k ''workers''))
    | SRedis \<Rightarrow>
        (if k ''test'' = ''enqueue'' then shape_axes ''enqueue'' ''Enqueue only''
         else if k ''test'' = ''latency'' then shape_axes ''latency'' (''Latency'' @ middot @ k ''workers'' @ middot @ ''C'' @ k ''instances'')
         else shape_axes (k ''task'' @ ''|'' @ k ''workers'' @ ''|'' @ k ''instances'')
           (k ''task'' @ middot @ k ''workers'' @ middot @ ''C'' @ k ''instances''))
    | SSqlite \<Rightarrow> \<lparr>ax_row = k ''scenario'', ax_rowLabel = k ''scenario'', ax_col = k ''ckpt'', ax_colLabel = k ''ckpt'' @ '' pages''\<rparr>)"

fun CORNER :: "Suite \<Rightarrow> string" where
  "CORNER SPool = ''Task'' @ middot @ ''workers''"
| "CORNER SRedis = ''Task'' @ middot @ ''workers'' @ middot @ ''instances''"
| "CORNER SSqlite = ''Scenario''"

text \<open>A key with its label, added once.\<close>

definition add_key :: "string \<Rightarrow> string \<Rightarrow> (string \<times> string) list \<Rightarrow> (string \<times> string) list" where
  "add_key k l ks = (if list_ex (\<lambda>x. fst x = k) ks then ks else ks @ [(k, l)])"

fun add_col :: "Dataset \<Rightarrow> string \<Rightarrow> string \<Rightarrow> (Dataset \<times> (string \<times> string) list) list \<Rightarrow> (Dataset \<times> (string \<times> string) list) list" where
  "add_col ds k l [] = [(ds, [(k, l)])]"
| "add_col ds k l ((d, cols) # cgs) = (if d = ds then (d, add_key k l cols) # cgs else (d, cols) # add_col ds k l cgs)"

definition map_axes :: "Cell list \<Rightarrow> (Dataset \<times> (string \<times> string) list) list \<times> (string \<times> string) list" where
  "map_axes cells = fold (\<lambda>c (cgs, rks). let a = axes (c_ds c) (c_g c) in
     (add_col (c_ds c) (ax_col a) (ax_colLabel a) cgs, add_key (ax_row a) (ax_rowLabel a) rks)) cells ([], [])"

definition map_cell :: "Cell \<Rightarrow> bool \<Rightarrow> RankedRow list \<Rightarrow> MapCell" where
  "map_cell c multi p = \<lparr>mc_cell = c, mc_id = cellId c multi, mc_winner = (if p = [] then None else Some (hd p)),
     mc_leaders = (if p = [] then [] else leaders p), mc_varmq = (p \<noteq> [] \<and> outcomeOf p = OVarmq), mc_tie = (p \<noteq> [] \<and> outcomeOf p = OTie)\<rparr>"

text \<open>A cell's place: its row, its dataset's column group and its column there.\<close>

definition place_of :: "(Dataset \<times> (string \<times> string) list) list \<Rightarrow> (string \<times> string) list \<Rightarrow> Cell \<Rightarrow> (nat \<times> nat \<times> nat) option" where
  "place_of cgs rks c = (let a = axes (c_ds c) (c_g c) in do {
     gi \<leftarrow> find_index (\<lambda>x. fst x = c_ds c) cgs;
     ci \<leftarrow> find_index (\<lambda>x. fst x = ax_col a) (snd (cgs ! gi));
     ri \<leftarrow> find_index (\<lambda>x. fst x = ax_row a) rks;
     Some (ri, gi, ci) })"

fun fill_map :: "(Dataset \<times> (string \<times> string) list) list \<Rightarrow> (string \<times> string) list \<Rightarrow> bool \<Rightarrow> Metric \<Rightarrow> State \<Rightarrow> Cell list
    \<Rightarrow> MapCell option list list list \<Rightarrow> MapCell option list list list option" where
  "fill_map cgs rks multi m s [] grid = Some grid"
| "fill_map cgs rks multi m s (c # cells) grid = do {
     (ri, gi, ci) \<leftarrow> place_of cgs rks c;
     p \<leftarrow> ranked c m s;
     fill_map cgs rks multi m s cells (grid[ri := (grid ! ri)[gi := (grid ! ri ! gi)[ci := Some (map_cell c multi p)]]]) }"

definition winMap :: "Cell list \<Rightarrow> Metric \<Rightarrow> State \<Rightarrow> WinMap option" where
  "winMap cells m s =
    (let multi = (1 < length (remdups (map (\<lambda>c. ds_id (c_ds c)) cells)));
         (cgs, rks) = map_axes cells;
         empty_row = map (\<lambda>cg. map (\<lambda>_. None) (snd cg)) cgs in
     map_option (\<lambda>grid. \<lparr>wm_corner = CORNER (case cells of [] \<Rightarrow> SPool | c # _ \<Rightarrow> ds_suite (c_ds c)), wm_colGroups = cgs, wm_rows = zip rks grid\<rparr>)
       (fill_map cgs rks multi m s cells (map (\<lambda>_. empty_row) rks)))"

section \<open>Links and commands\<close>

definition BASE :: string where "BASE = ''https://github.com''"

definition line_frag :: "(nat \<times> nat option) option \<Rightarrow> string" where
  "line_frag line = (case line of None \<Rightarrow> ''''
     | Some (a, None) \<Rightarrow> ''#L'' @ string_of_nat a
     | Some (a, Some b) \<Rightarrow> ''#L'' @ string_of_nat a @ (if b \<noteq> 0 \<and> b \<noteq> a then ''-L'' @ string_of_nat b else ''''))"

definition rawTreeUrl :: "Data \<Rightarrow> string \<Rightarrow> string" where
  "rawTreeUrl data path = BASE @ ''/'' @ d_repo data @ ''/blob/'' @ d_commit data @ ''/'' @ path"

definition blobUrl :: "Data \<Rightarrow> Dataset \<Rightarrow> (nat \<times> nat option) option \<Rightarrow> string" where
  "blobUrl data ds line = BASE @ ''/'' @ d_repo data @ ''/blob/'' @ d_commit data @ ''/'' @ ds_file ds @ line_frag line"

definition groupUrl :: "Data \<Rightarrow> Cell \<Rightarrow> string" where
  "groupUrl data c = blobUrl data (c_ds c) (Some (g_first (c_g c), Some (g_last (c_g c))))"

definition chartUrl :: "View \<Rightarrow> string" where
  "chartUrl v = ''https://benchmarks.goptics.org/'' @
     (case v_chart v of Some c \<Rightarrow> if c = '''' then '''' else ''?id='' @ c | None \<Rightarrow> '''')"

definition anchored :: "string \<Rightarrow> string" where
  "anchored x = ''^'' @ x @ ''$''"

text \<open>The pattern's part for a filter that is one value, or all.\<close>

definition only :: "Filters \<Rightarrow> string \<Rightarrow> (string \<Rightarrow> string) \<Rightarrow> string \<Rightarrow> string" where
  "only f k one whole = (if key_text f k \<noteq> ''all'' then one (key_text f k) else whole)"

definition pattern_parts :: "Suite \<Rightarrow> Filters \<Rightarrow> string list" where
  "pattern_parts suite f = (let task = key_text f ''task''; workers = key_text f ''workers''; test = key_text f ''test'' in
    case suite of
      SPool \<Rightarrow> [''Tasks'',
        if task \<noteq> ''all'' \<and> workers \<noteq> ''all'' then anchored (task @ ''W'' @ workers)
        else if task \<noteq> ''all'' then ''^'' @ task @ ''W''
        else if workers \<noteq> ''all'' then ''W'' @ workers @ ''$'' else '''',
        only f ''shape'' anchored '''']
    | SRedis \<Rightarrow>
        if test = ''enqueue'' then [''Enqueue'', '''', only f ''shape'' anchored '''']
        else if test = ''latency'' then [''Latency'']
        else [''Durable'',
          anchored (only f ''task'' id ''(Noop|Sleep1ms)'' @ ''W'' @ only f ''workers'' id (CHR 0x5C # ''d+'') @ ''C'' @ key_text f ''instances''),
          only f ''shape'' anchored '''']
    | SSqlite \<Rightarrow> [''SQLite'', only f ''scenario'' anchored '''', only f ''ckpt'' (\<lambda>c. ''^ckpt'' @ c @ ''$'') ''''])"

text \<open>\<open>while (parts.length > 1 && the last is '') parts.pop()\<close>.\<close>

fun pop_empty :: "string list \<Rightarrow> string list" where
  "pop_empty [] = []"
| "pop_empty (p # ps) = p # rev (dropWhile (\<lambda>x. x = '''') (rev ps))"

definition benchPattern :: "Suite \<Rightarrow> Filters \<Rightarrow> string" where
  "benchPattern suite f = join_with ''/'' (pop_empty (pattern_parts suite f))"

definition groupFilters :: "Group \<Rightarrow> Filters" where
  "groupFilters g = g_key g"

text \<open>\<open>s.replace(/^pool-(\d+)cpu$/, '$1')\<close>.\<close>

definition cpus_of :: "string \<Rightarrow> string" where
  "cpus_of s = (let r = drop 5 s; ds = takeWhile is_digit r in
     if take 5 s = ''pool-'' \<and> ds \<noteq> [] \<and> dropWhile is_digit r = ''cpu'' then ds else s)"

definition benchCommand :: "State \<Rightarrow> Cell option \<Rightarrow> string" where
  "benchCommand s one =
    (let v = viewById (s_view s);
         f = (case one of None \<Rightarrow> s_f s | Some c \<Rightarrow> fold (\<lambda>(k, x). AList.update k x) (groupFilters (c_g c)) (s_f s));
         pattern = benchPattern (v_suite v) f;
         procs = (case one of None \<Rightarrow> v_sources v | Some c \<Rightarrow> [ds_id (c_ds c)]);
         cpus = (if v_suite v = SPool then join_with '','' (map cpus_of procs) else '''');
         run = ''go test -run xxx -bench '' @ [CHR 0x27] @ pattern @ [CHR 0x27] @ (if cpus = '''' then '''' else '' -cpu '' @ cpus)
           @ '' -benchtime=2x -benchmem -timeout 0'' in
     (if v_suite v = SRedis then ''task redis:up'' @ [CHR 0x0A] else '''') @ ''cd '' @ suite_name (v_suite v) @ '' && '' @ run)"

section \<open>The state in the URL\<close>

fun sort_name :: "Sort \<Rightarrow> string" where
  "sort_name Best = ''best''"
| "sort_name Worst = ''worst''"
| "sort_name ByName = ''name''"

fun set_filters :: "Filters \<Rightarrow> Filters \<Rightarrow> params \<Rightarrow> params" where
  "set_filters df [] p = p"
| "set_filters df ((k, v) # f) p = set_filters df f (if map_of df k \<noteq> Some v then params_set k v p else p)"

definition hash_params :: "State \<Rightarrow> State \<Rightarrow> params" where
  "hash_params d s =
    (let p = (if s_view s \<noteq> v_id (hd VIEWS) then params_set ''view'' (s_view s) [] else []);
         p = set_filters (s_f d) (s_f s) p;
         p = (if s_metric s \<noteq> ''rate'' then params_set ''metric'' (s_metric s) p else p);
         p = (if s_sort s \<noteq> Best then params_set ''sort'' (sort_name (s_sort s)) p else p);
         p = (if \<not> s_baselines s then params_set ''baselines'' ''0'' p else p) in
     (case s_focus s of Some x \<Rightarrow> if x \<noteq> '''' then params_set ''focus'' x p else p | None \<Rightarrow> p))"

definition toHash :: "Data \<Rightarrow> State \<Rightarrow> string option" where
  "toHash data s = do { d \<leftarrow> defaultState data (s_view s); Some (params_print (hash_params d s)) }"

definition read_filters :: "FilterDef list \<Rightarrow> params \<Rightarrow> Filters \<Rightarrow> Filters" where
  "read_filters defs p f = fold (\<lambda>d f. case params_get p (fd_id d) of None \<Rightarrow> f | Some v \<Rightarrow> AList.update (fd_id d) v f) defs f"

definition fromHash :: "Data \<Rightarrow> string \<Rightarrow> State option" where
  "fromHash data hash = do {
     let p = params_parse (strip_mark hash);
     let v = viewById (case params_get p ''view'' of None \<Rightarrow> v_id (hd VIEWS) | Some x \<Rightarrow> x);
     s \<leftarrow> defaultState data (v_id v);
     defs \<leftarrow> filterDefs data v;
     normalize data (s\<lparr>s_f := read_filters defs p (s_f s),
       s_metric := (case params_get p ''metric'' of None \<Rightarrow> s_metric s | Some x \<Rightarrow> x),
       s_sort := (case params_get p ''sort'' of Some x \<Rightarrow> if x = ''worst'' then Worst else if x = ''name'' then ByName else s_sort s | None \<Rightarrow> s_sort s),
       s_baselines := (if params_get p ''baselines'' = Some ''0'' then False else s_baselines s),
       s_focus := params_get p ''focus''\<rparr>) }"

end
