(* ===== verification/Bench_Props.thy ===== *)
theory Bench_Props
  imports Bench "HOL-Library.Multiset"
begin

text \<open>
  What the explorer promises: the state read from any hash offers only what the page offers, and is read back from the hash it is
  written to; a group's rows are ranked best first; wins, losses and ties account for every group.
\<close>

section \<open>Association lists\<close>

lemma map_fst_update: "k \<in> set (map fst al) \<Longrightarrow> map fst (AList.update k v al) = map fst al"
  by (induction al) auto

lemma alist_update_new: "k \<notin> set (map fst al) \<Longrightarrow> AList.update k v al = al @ [(k, v)]"
  by (induction al) auto

lemma alist_eqI: "map fst f = map fst g \<Longrightarrow> distinct (map fst f) \<Longrightarrow> (\<And>k. k \<in> set (map fst f) \<Longrightarrow> map_of f k = map_of g k) \<Longrightarrow> f = g"
proof (induction f arbitrary: g)
  case (Cons p f)
  obtain k v where p: "p = (k, v)" by (cases p)
  obtain w g' where g: "g = (k, w) # g'" "map fst f = map fst g'" using Cons.prems(1) by (cases g) (auto simp: p)
  have "v = w" using Cons.prems(3)[of k] by (simp add: p g)
  moreover have "f = g'"
  proof (rule Cons.IH[OF g(2)])
    fix k' assume "k' \<in> set (map fst f)"
    moreover from this have "k' \<noteq> k" using Cons.prems(2) by (auto simp: p)
    ultimately show "map_of f k' = map_of g' k'" using Cons.prems(3)[of k'] by (simp add: p g)
  qed (use Cons.prems(2) in simp)
  ultimately show ?case by (simp add: p g)
qed simp

section \<open>Views and filters\<close>

lemma viewById_in: "viewById i \<in> set VIEWS"
proof (cases "find (\<lambda>v. v_id v = i) VIEWS")
  case (Some v)
  then have "v \<in> set VIEWS" by (auto simp: find_Some_iff)
  then show ?thesis using Some by (simp add: viewById_def)
qed (simp add: viewById_def VIEWS_def)

lemma viewById_v_id: "v \<in> set VIEWS \<Longrightarrow> viewById (v_id v) = v"
proof -
  have "list_all (\<lambda>v. viewById (v_id v) = v) VIEWS" by code_simp
  then show "v \<in> set VIEWS \<Longrightarrow> viewById (v_id v) = v" by (simp add: list_all_iff)
qed

lemmas viewById_idem [simp] = viewById_v_id[OF viewById_in]

definition filter_ids :: "Suite \<Rightarrow> string list" where
  "filter_ids suite = (case suite of SPool \<Rightarrow> [''task'', ''workers'', ''shape'']
     | SRedis \<Rightarrow> [''test'', ''task'', ''workers'', ''instances'', ''shape''] | SSqlite \<Rightarrow> [''scenario'', ''ckpt''])"

lemma filterDefs_ids: "filterDefs data v = Some defs \<Longrightarrow> map fd_id defs = filter_ids (v_suite v)"
  by (auto simp: filterDefs_def filter_ids_def pool_filters_def redis_filters_def sqlite_filters_def filter_def_def split: Suite.splits)

lemma filter_ids_distinct [simp]: "distinct (filter_ids suite)"
  by (cases suite) (simp_all add: filter_ids_def)

lemma filter_ids_free: "k \<in> set (filter_ids suite) \<Longrightarrow> k \<notin> {''view'', ''metric'', ''sort'', ''baselines'', ''focus''}"
  by (cases suite) (auto simp: filter_ids_def)

lemma default_filters_eq:
  "default_filters defs f0 = Some f \<Longrightarrow> distinct (map fst f0 @ map fd_id defs) \<Longrightarrow> map fst f = map fst f0 @ map fd_id defs"
proof (induction defs f0 rule: default_filters.induct)
  case (2 d ds f0)
  obtain v where v: "first_value d = Some v" "default_filters ds (AList.update (fd_id d) v f0) = Some f"
    using 2(2) by (auto split: option.splits)
  then show ?case using 2(1)[OF v] 2(3) by (simp add: alist_update_new)
qed simp

lemma default_filters_returns: "(\<forall>d \<in> set defs. first_value d \<noteq> None) \<Longrightarrow> \<exists>f. default_filters defs f0 = Some f"
  by (induction defs f0 rule: default_filters.induct) auto

lemma default_filters_needs: "default_filters defs f0 = Some f \<Longrightarrow> d \<in> set defs \<Longrightarrow> first_value d \<noteq> None"
  by (induction defs f0 rule: default_filters.induct) (auto split: option.splits)

lemma first_value_valid: "first_value d = Some v \<Longrightarrow> map_of f (fd_id d) = Some v \<Longrightarrow> filter_valid d f"
  by (auto simp: first_value_def filter_valid_def split: if_splits list.splits)

lemma filter_valid_first: "filter_valid d f \<Longrightarrow> first_value d \<noteq> None"
  by (auto simp: first_value_def filter_valid_def split: list.splits)

lemma filter_valid_cong: "map_of f (fd_id d) = map_of g (fd_id d) \<Longrightarrow> filter_valid d f = filter_valid d g"
  by (simp add: filter_valid_def)

text \<open>Normalising keeps the filters' keys, leaves every filter valid, and changes nothing but the filters it is given.\<close>

lemma normal_filters_props:
  assumes "normal_filters defs f = Some f'" "distinct (map fd_id defs)" "set (map fd_id defs) \<subseteq> set (map fst f)"
  shows "map fst f' = map fst f \<and> (\<forall>d \<in> set defs. filter_valid d f') \<and> (\<forall>k. k \<notin> set (map fd_id defs) \<longrightarrow> map_of f' k = map_of f k)"
  using assms
proof (induction defs arbitrary: f)
  case (Cons d ds)
  obtain g where g: "normal_filters ds g = Some f'" "filter_valid d g" "map fst g = map fst f"
    "\<forall>k. k \<noteq> fd_id d \<longrightarrow> map_of g k = map_of f k"
  proof (cases "filter_valid d f")
    case False
    with Cons.prems(1) obtain v where v: "first_value d = Some v" "normal_filters ds (AList.update (fd_id d) v f) = Some f'"
      by (auto split: option.splits)
    show ?thesis
      by (rule that[OF v(2)]) (use Cons.prems(3) in \<open>simp_all add: first_value_valid[OF v(1)] map_fst_update update_conv'\<close>)
  qed (use Cons.prems(1) that in auto)
  have ih: "map fst f' = map fst g" "\<forall>d \<in> set ds. filter_valid d f'" "\<forall>k. k \<notin> set (map fd_id ds) \<longrightarrow> map_of f' k = map_of g k"
    using Cons.IH[OF g(1)] Cons.prems(2,3) g(3) by auto
  have "filter_valid d f'" using filter_valid_cong[of f' d g] ih(3) g(2) Cons.prems(2) by simp
  then show ?case using ih g(3,4) by simp
qed simp

lemma normal_filters_returns: "(\<forall>d \<in> set defs. first_value d \<noteq> None) \<Longrightarrow> \<exists>f'. normal_filters defs f = Some f'"
  by (induction defs f rule: normal_filters.induct) auto

lemma normal_filters_fixed: "(\<forall>d \<in> set defs. filter_valid d f) \<Longrightarrow> normal_filters defs f = Some f"
  by (induction defs) auto

section \<open>States the page can be in\<close>

text \<open>
  A state the page can show: of one of the views, with a value for exactly the view's filters, each all or one of its options,
  a metric the filters offer, and the baselines left out only in a pool view.
\<close>

definition canonical :: "Data \<Rightarrow> State \<Rightarrow> bool" where
  "canonical data s \<longleftrightarrow> s_view s \<in> set (map v_id VIEWS)
    \<and> (case filterDefs data (viewById (s_view s)) of None \<Rightarrow> False
       | Some defs \<Rightarrow> map fst (s_f s) = map fd_id defs \<and> list_all (\<lambda>d. filter_valid d (s_f s)) defs)
    \<and> list_ex (\<lambda>m. m_id m = s_metric s) (metricsFor (v_suite (viewById (s_view s))) (s_f s))
    \<and> (v_suite (viewById (s_view s)) = SPool \<or> s_baselines s)"

lemma metricsFor_nonempty [simp]: "metricsFor suite f \<noteq> []"
  by (simp add: metricsFor_def)

lemma canonical_view: "canonical data s \<Longrightarrow> v_id (viewById (s_view s)) = s_view s"
  by (auto simp: canonical_def viewById_v_id)

lemma canonical_fixed: "canonical data s \<Longrightarrow> normalize data s = Some s"
proof -
  assume c: "canonical data s"
  then obtain defs where "filterDefs data (viewById (s_view s)) = Some defs" "\<forall>d \<in> set defs. filter_valid d (s_f s)"
    by (auto simp: canonical_def list_all_iff split: option.splits)
  then show ?thesis using c canonical_view[OF c] by (cases s) (auto simp: normalize_def canonical_def normal_filters_fixed)
qed

lemma normalize_canonical:
  assumes "normalize data s = Some s'" "filterDefs data (viewById (s_view s)) = Some defs" "map fst (s_f s) = map fd_id defs"
  shows "canonical data s' \<and> s_view s' = v_id (viewById (s_view s))"
proof -
  obtain f where f: "normal_filters defs (s_f s) = Some f" "s_f s' = f" "s_view s' = v_id (viewById (s_view s))"
    "s_metric s' = (if list_ex (\<lambda>m. m_id m = s_metric s) (metricsFor (v_suite (viewById (s_view s))) f) then s_metric s
      else m_id (hd (metricsFor (v_suite (viewById (s_view s))) f)))"
    "s_baselines s' = (if v_suite (viewById (s_view s)) = SPool then s_baselines s else True)"
    using assms(1,2) by (auto simp: normalize_def Let_def bind_eq_Some_conv)
  have "distinct (map fd_id defs)" using filterDefs_ids[OF assms(2)] by simp
  from normal_filters_props[OF f(1) this] have "map fst f = map fd_id defs" "\<forall>d \<in> set defs. filter_valid d f"
    using assms(3) by simp_all
  moreover have "m_id (hd (metricsFor suite f)) \<in> m_id ` set (metricsFor suite f)" for suite by simp
  ultimately show ?thesis
    using f assms(2) viewById_in[of "s_view s"]
    by (auto simp: canonical_def list_all_iff list_ex_iff image_iff split: if_splits)
qed

lemma defaultState_view:
  assumes "defaultState data i = Some d"
  shows "\<exists>defs. filterDefs data (viewById i) = Some defs \<and> default_filters defs [] = Some (s_f d)
    \<and> d = \<lparr>s_view = v_id (viewById i), s_f = s_f d, s_metric = ''rate'', s_sort = Best, s_baselines = True, s_focus = None\<rparr>"
  using assms by (auto simp: defaultState_def Let_def bind_eq_Some_conv)

lemma read_filters_keys: "set (map fd_id defs) \<subseteq> set (map fst f) \<Longrightarrow> map fst (read_filters defs p f) = map fst f"
proof (induction defs arbitrary: f)
  case (Cons d defs)
  let ?f = "case params_get p (fd_id d) of None \<Rightarrow> f | Some v \<Rightarrow> AList.update (fd_id d) v f"
  have "map fst ?f = map fst f" using Cons.prems by (auto simp: map_fst_update split: option.splits)
  then show ?case using Cons.IH[of ?f] Cons.prems by (simp add: read_filters_def)
qed (simp add: read_filters_def)

lemma read_filters_map: "distinct (map fd_id defs) \<Longrightarrow> map_of (read_filters defs p f) k =
    (if k \<in> set (map fd_id defs) \<and> params_get p k \<noteq> None then params_get p k else map_of f k)"
proof (induction defs arbitrary: f)
  case (Cons d defs)
  let ?f = "case params_get p (fd_id d) of None \<Rightarrow> f | Some v \<Rightarrow> AList.update (fd_id d) v f"
  have "map_of ?f k = (if k = fd_id d \<and> params_get p k \<noteq> None then params_get p k else map_of f k)"
    by (auto simp: update_conv' split: option.splits)
  moreover have "read_filters (d # defs) p f = read_filters defs p ?f" by (simp add: read_filters_def)
  ultimately show ?case using Cons.IH[of ?f] Cons.prems by auto
qed (simp add: read_filters_def)

text \<open>
  C25: whatever the hash holds, the state read from it is one the page can be in, as long as each view has its datasets and a first
  option for its filters: unknown views, values, metrics and orders are replaced, never kept.
\<close>
theorem fromHash_gives_a_canonical_state:
  assumes "list_all (\<lambda>v. defaultState data (v_id v) \<noteq> None) VIEWS"
  shows "\<exists>s. fromHash data hash = Some s \<and> canonical data s"
proof -
  define p where "p = params_parse (strip_mark hash)"
  define v where "v = viewById (case params_get p ''view'' of None \<Rightarrow> v_id (hd VIEWS) | Some x \<Rightarrow> x)"
  have v: "v \<in> set VIEWS" unfolding v_def by (rule viewById_in)
  then obtain d where d: "defaultState data (v_id v) = Some d" using assms by (auto simp: list_all_iff)
  then obtain defs where defs: "filterDefs data v = Some defs" "default_filters defs [] = Some (s_f d)" "s_view d = v_id v"
    using defaultState_view[OF d] viewById_v_id[OF v] by (metis State.select_convs(1))
  have ids: "distinct (map fd_id defs)" using filterDefs_ids[OF defs(1)] by simp
  have keys: "map fst (s_f d) = map fd_id defs" using default_filters_eq[OF defs(2)] ids by simp
  define s where "s = d\<lparr>s_f := read_filters defs p (s_f d),
       s_metric := (case params_get p ''metric'' of None \<Rightarrow> s_metric d | Some x \<Rightarrow> x),
       s_sort := (case params_get p ''sort'' of Some x \<Rightarrow> if x = ''worst'' then Worst else if x = ''name'' then ByName else s_sort d | None \<Rightarrow> s_sort d),
       s_baselines := (if params_get p ''baselines'' = Some ''0'' then False else s_baselines d),
       s_focus := params_get p ''focus''\<rparr>"
  have f: "fromHash data hash = normalize data s"
    unfolding fromHash_def p_def[symmetric] Let_def v_def[symmetric] by (simp add: d defs s_def)
  have view: "viewById (s_view s) = v" using viewById_v_id[OF v] by (simp add: s_def defs(3))
  obtain f' where "normal_filters defs (s_f s) = Some f'"
    using normal_filters_returns default_filters_needs[OF defs(2)] by blast
  then obtain s' where s': "normalize data s = Some s'" by (simp add: normalize_def view defs(1) Let_def)
  moreover have "map fst (s_f s) = map fd_id defs" using read_filters_keys[of defs "s_f d" p] keys by (simp add: s_def)
  ultimately show ?thesis using normalize_canonical[OF s', of defs] view defs(1) f by auto
qed

section \<open>The hash, written and read back\<close>

lemma params_get_set_filters: "distinct (map fst f) \<Longrightarrow> params_get (set_filters df f p) k =
    (case map_of f k of None \<Rightarrow> params_get p k | Some v \<Rightarrow> if map_of df k \<noteq> Some v then Some v else params_get p k)"
proof (induction f arbitrary: p)
  case (Cons kv f)
  obtain k' v where kv: "kv = (k', v)" by (cases kv)
  have "map_of f k' = None" using Cons.prems by (auto simp: kv map_of_eq_None_iff)
  then show ?case
    using Cons.IH[of "if map_of df k' \<noteq> Some v then params_set k' v p else p"] Cons.prems by (auto simp: kv params_get_set split: option.splits)
qed simp

lemma hash_params_get:
  assumes "distinct (map fst (s_f s))" "\<forall>k \<in> set (map fst (s_f s)). k \<notin> {''view'', ''metric'', ''sort'', ''baselines'', ''focus''}"
  shows "params_get (hash_params d s) ''view'' = (if s_view s \<noteq> v_id (hd VIEWS) then Some (s_view s) else None)"
    "params_get (hash_params d s) ''metric'' = (if s_metric s \<noteq> ''rate'' then Some (s_metric s) else None)"
    "params_get (hash_params d s) ''sort'' = (if s_sort s \<noteq> Best then Some (sort_name (s_sort s)) else None)"
    "params_get (hash_params d s) ''baselines'' = (if s_baselines s then None else Some ''0'')"
    "params_get (hash_params d s) ''focus'' = (case s_focus s of Some x \<Rightarrow> if x = '''' then None else Some x | None \<Rightarrow> None)"
    "k \<in> set (map fst (s_f s)) \<Longrightarrow> params_get (hash_params d s) k = (if map_of (s_f d) k = map_of (s_f s) k then None else map_of (s_f s) k)"
proof -
  have nf: "map_of (s_f s) k = None" if "k \<in> {''view'', ''metric'', ''sort'', ''baselines'', ''focus''}" for k
    using assms(2) that by (auto simp: map_of_eq_None_iff)
  have empty: "params_get [] k = None" "params_get [(k', v)] k = (if k = k' then Some v else None)" for k k' v
    by (simp_all add: params_get_def)
  show "params_get (hash_params d s) ''view'' = (if s_view s \<noteq> v_id (hd VIEWS) then Some (s_view s) else None)"
    "params_get (hash_params d s) ''metric'' = (if s_metric s \<noteq> ''rate'' then Some (s_metric s) else None)"
    "params_get (hash_params d s) ''sort'' = (if s_sort s \<noteq> Best then Some (sort_name (s_sort s)) else None)"
    "params_get (hash_params d s) ''baselines'' = (if s_baselines s then None else Some ''0'')"
    "params_get (hash_params d s) ''focus'' = (case s_focus s of Some x \<Rightarrow> if x = '''' then None else Some x | None \<Rightarrow> None)"
    by (simp_all add: hash_params_def Let_def params_get_set params_get_set_filters[OF assms(1)] nf empty split: option.splits)
  assume k: "k \<in> set (map fst (s_f s))"
  then have "map_of (s_f s) k \<noteq> None" by (simp add: map_of_eq_None_iff)
  moreover have "k \<noteq> ''view''" "k \<noteq> ''metric''" "k \<noteq> ''sort''" "k \<noteq> ''baselines''" "k \<noteq> ''focus''" using assms(2) k by auto
  ultimately show "params_get (hash_params d s) k = (if map_of (s_f d) k = map_of (s_f s) k then None else map_of (s_f s) k)"
    by (auto simp: hash_params_def Let_def params_get_set params_get_set_filters[OF assms(1)] empty split: option.splits)
qed

lemma canonical_default:
  assumes "canonical data s"
  obtains defs d where "filterDefs data (viewById (s_view s)) = Some defs" "map fst (s_f s) = map fd_id defs"
    "defaultState data (s_view s) = Some d" "map fst (s_f d) = map fd_id defs"
    "s_view d = s_view s" "s_metric d = ''rate''" "s_sort d = Best" "s_baselines d" "s_focus d = None"
proof -
  from assms obtain defs where defs: "filterDefs data (viewById (s_view s)) = Some defs" "map fst (s_f s) = map fd_id defs"
    "\<forall>d \<in> set defs. filter_valid d (s_f s)" by (auto simp: canonical_def list_all_iff split: option.splits)
  obtain f where f: "default_filters defs [] = Some f"
    using default_filters_returns defs(3) filter_valid_first by blast
  have "map fst f = map fd_id defs" using default_filters_eq[OF f] filterDefs_ids[OF defs(1)] by simp
  then show ?thesis using that[OF defs(1,2)] f canonical_view[OF assms] by (simp add: defaultState_def defs(1))
qed

text \<open>What a hash says of the focus: an empty one is not written, so it reads back as none.\<close>

definition focus_read :: "State \<Rightarrow> State" where
  "focus_read s = (if s_focus s = Some '''' then s\<lparr>s_focus := None\<rparr> else s)"

lemma focus_read_fields:
  "s_view (focus_read s) = s_view s" "s_f (focus_read s) = s_f s" "s_metric (focus_read s) = s_metric s" "s_sort (focus_read s) = s_sort s"
  "s_baselines (focus_read s) = s_baselines s" "canonical data (focus_read s) = canonical data s"
  "s_focus (focus_read s) = (case s_focus s of Some x \<Rightarrow> if x = '''' then None else Some x | None \<Rightarrow> None)"
  by (auto simp: focus_read_def canonical_def split: option.splits)

lemma fromHash_of_params:
  assumes c: "canonical data s" and d: "defaultState data (s_view s) = Some d"
    and p: "params_parse (strip_mark hash) = hash_params d s"
  shows "fromHash data hash = Some (focus_read s)"
proof -
  obtain defs where defs: "filterDefs data (viewById (s_view s)) = Some defs" "map fst (s_f s) = map fd_id defs"
    "map fst (s_f d) = map fd_id defs"
    "s_view d = s_view s" "s_metric d = ''rate''" "s_sort d = Best" "s_baselines d" "s_focus d = None"
    by (rule canonical_default[OF c]) (use d in auto)
  have ids: "distinct (map fd_id defs)" "\<forall>k \<in> set (map fd_id defs). k \<notin> {''view'', ''metric'', ''sort'', ''baselines'', ''focus''}"
    using filter_ids_free unfolding filterDefs_ids[OF defs(1)] by auto
  note get = hash_params_get[where s = s and d = d, unfolded defs(2), OF ids]
  have view: "viewById (case params_get (hash_params d s) ''view'' of None \<Rightarrow> v_id (hd VIEWS) | Some x \<Rightarrow> x) = viewById (s_view s)"
    by (simp add: get(1))
  have "read_filters defs (hash_params d s) (s_f d) = s_f s"
  proof (rule alist_eqI)
    fix k assume "k \<in> set (map fst (read_filters defs (hash_params d s) (s_f d)))"
    then have k: "k \<in> set (map fd_id defs)" using read_filters_keys[of defs "s_f d"] defs(3) by simp
    then have "map_of (s_f s) k \<noteq> None" unfolding defs(2)[symmetric] by (simp add: map_of_eq_None_iff)
    then show "map_of (read_filters defs (hash_params d s) (s_f d)) k = map_of (s_f s) k"
      unfolding read_filters_map[OF ids(1)] using get(6)[OF k] k by auto
  qed (use read_filters_keys[of defs "s_f d"] defs ids in simp_all)
  moreover have "(case (if s_sort s \<noteq> Best then Some (sort_name (s_sort s)) else None) of
      Some x \<Rightarrow> if x = ''worst'' then Worst else if x = ''name'' then ByName else Best | None \<Rightarrow> Best) = s_sort s"
    by (cases "s_sort s") simp_all
  ultimately have "d\<lparr>s_f := read_filters defs (hash_params d s) (s_f d),
       s_metric := (case params_get (hash_params d s) ''metric'' of None \<Rightarrow> s_metric d | Some x \<Rightarrow> x),
       s_sort := (case params_get (hash_params d s) ''sort'' of Some x \<Rightarrow> if x = ''worst'' then Worst else if x = ''name'' then ByName else s_sort d | None \<Rightarrow> s_sort d),
       s_baselines := (if params_get (hash_params d s) ''baselines'' = Some ''0'' then False else s_baselines d),
       s_focus := params_get (hash_params d s) ''focus''\<rparr> = focus_read s"
    unfolding get by (cases "s_sort s"; intro State.equality) (simp_all add: defs focus_read_fields)
  then show ?thesis
    using d canonical_fixed[of data "focus_read s"] c canonical_view[OF c] defs(1) by (simp add: fromHash_def Let_def p view focus_read_fields(6))
qed

text \<open>
  C24: a state the page can be in is written to a hash and read back from it unchanged, with or without the leading \<open>#\<close> of an
  address. The one exception is an empty focus (\<open>#focus=\<close> leads to it), which \<open>toHash\<close> leaves out: the state read back then
  has the focus \<open>null\<close> and is the same in everything else. In every case the state read back is written to the same hash again.
\<close>
theorem hash_round_trip:
  assumes "canonical data s"
  shows "\<exists>h. toHash data s = Some h \<and> fromHash data h = Some (if s_focus s = Some '''' then s\<lparr>s_focus := None\<rparr> else s)
    \<and> fromHash data (CHR ''#'' # h) = fromHash data h \<and> Option.bind (fromHash data h) (toHash data) = Some h"
proof -
  obtain d where d: "defaultState data (s_view s) = Some d" by (rule canonical_default[OF assms])
  have h: "toHash data s = Some (params_print (hash_params d s))" using d by (simp add: toHash_def)
  moreover have "hash_params d (focus_read s) = hash_params d s"
    by (simp add: hash_params_def Let_def focus_read_fields split: option.splits)
  then have "toHash data (focus_read s) = toHash data s" using d by (simp add: toHash_def focus_read_fields)
  ultimately show ?thesis
    using fromHash_of_params[OF assms d url.parse_strip_print] fromHash_of_params[OF assms d url.parse_strip_hash]
    unfolding focus_read_def by simp
qed

section \<open>Ranking\<close>

lemma put_by_insort: "(\<And>y. (cmp x y \<le> 0) = (k x \<le> k y)) \<Longrightarrow> put_by cmp x ys = insort_key k x ys"
  by (induction ys) simp_all

lemma sort_by_sort_key: "(\<And>x y. (cmp x y \<le> 0) = (k x \<le> k y)) \<Longrightarrow> sort_by cmp xs = sort_key k xs"
  by (induction xs) (simp_all add: put_by_insort)

lemma mset_sort_by [simp]: "mset (sort_by cmp xs) = mset xs"
proof (induction xs)
  case (Cons x xs)
  have "mset (put_by cmp x ys) = add_mset x (mset ys)" for ys by (induction ys) auto
  then show ?case using Cons by simp
qed simp

lemma set_sort_by [simp]: "set (sort_by cmp xs) = set xs"
  by (metis mset_sort_by set_mset_mset)

lemma length_sort_by [simp]: "length (sort_by cmp xs) = length xs"
  by (metis mset_sort_by size_mset)

definition rank_key :: "Better \<Rightarrow> RankedRow \<Rightarrow> rat" where
  "rank_key be r = (case be of High \<Rightarrow> - rk_value r | Low \<Rightarrow> rk_value r)"

lemma better_by_key: "better_by be (rk_value a) (rk_value b) \<le> 0 \<longleftrightarrow> rank_key be a \<le> rank_key be b"
  by (cases be) (simp_all add: better_by_def rank_key_def)

lemma ranked_sorts: "ranked c m s = Some p \<Longrightarrow> \<exists>rows. ranked_rows c m s (g_rows (c_g c)) = Some rows \<and> p = sort_key (rank_key (m_better m)) rows"
  unfolding ranked_def using sort_by_sort_key[OF better_by_key, of "m_better m"] by auto

lemma ranked_mono: "ranked c m s = Some p \<Longrightarrow> i \<le> j \<Longrightarrow> j < length p \<Longrightarrow> rank_key (m_better m) (p ! i) \<le> rank_key (m_better m) (p ! j)"
  using ranked_sorts sorted_sort_key by (metis (no_types, lifting) length_map nth_map order_le_less_trans sorted_nth_mono)

lemma rank_key_eq: "rank_key be a = rank_key be b \<longleftrightarrow> rk_value a = rk_value b"
  by (cases be) (simp_all add: rank_key_def)

lemma ranked_hd_best: "ranked c m s = Some p \<Longrightarrow> q \<in> set p \<Longrightarrow> rank_key (m_better m) (hd p) \<le> rank_key (m_better m) q"
  using ranked_mono[of c m s p 0] by (metis empty_iff hd_conv_nth in_set_conv_nth le0 list.set(1))

text \<open>
  A ranked group holds exactly its rows that have the metric, best first, equal values in file order, and its leaders are the
  rows no other row is better than.
\<close>
theorem ranked_best_first:
  assumes "ranked c m s = Some p"
  shows "\<exists>rows. ranked_rows c m s (g_rows (c_g c)) = Some rows \<and> mset p = mset rows
    \<and> (\<forall>i j. i \<le> j \<and> j < length p \<longrightarrow> better_by (m_better m) (rk_value (p ! i)) (rk_value (p ! j)) \<le> 0)
    \<and> (\<forall>v. filter (\<lambda>r. rk_value r = v) p = filter (\<lambda>r. rk_value r = v) rows)
    \<and> leaders p = filter (\<lambda>r. \<forall>q \<in> set p. better_by (m_better m) (rk_value r) (rk_value q) \<le> 0) p"
proof -
  obtain rows where rows: "ranked_rows c m s (g_rows (c_g c)) = Some rows" "p = sort_key (rank_key (m_better m)) rows"
    using ranked_sorts[OF assms] by blast
  have "(rk_value r = v) = (rank_key (m_better m) r = (case m_better m of High \<Rightarrow> - v | Low \<Rightarrow> v))" for r v
    by (cases "m_better m") (auto simp: rank_key_def)
  then have stable: "filter (\<lambda>r. rk_value r = v) p = filter (\<lambda>r. rk_value r = v) rows" for v
    unfolding rows(2) by (simp add: sort_key_stable)
  have "leaders p = filter (\<lambda>r. \<forall>q \<in> set p. rank_key (m_better m) r \<le> rank_key (m_better m) q) p"
    unfolding leaders_def
  proof (rule filter_cong[OF refl])
    fix r assume r: "r \<in> set p"
    then have "hd p \<in> set p" by (cases p) auto
    then show "(rk_value r = rk_value (hd p)) = (\<forall>q \<in> set p. rank_key (m_better m) r \<le> rank_key (m_better m) q)"
      using ranked_hd_best[OF assms] r rank_key_eq[of "m_better m" r "hd p"] by (metis order_antisym)
  qed
  then show ?thesis using rows stable ranked_mono[OF assms] by (auto simp: better_by_key)
qed

section \<open>Who leads\<close>

lemma outcome_other: "p \<noteq> [] \<Longrightarrow> outcomeOf p = OOther \<longleftrightarrow> (\<forall>r \<in> set (leaders p). \<not> isVarmq (rk_subject r))"
  by (cases p) (auto simp: outcomeOf_def Let_def leaders_def filter_empty_conv)

lemma sum_add_to: "sum_list (map snd (add_to k x m)) = sum_list (map snd m) + x"
  by (induction m) (auto simp: add_to_def algebra_simps)

lemma keys_add_to: "distinct (map fst m) \<Longrightarrow> distinct (map fst (add_to k x m))"
  unfolding add_to_def by (rule distinct_update)

definition wins_total :: "Wins \<Rightarrow> nat" where
  "wins_total w = w_varmq w + w_other w + w_tied w"

lemma fold_add_to_distinct: "distinct (map fst m) \<Longrightarrow> distinct (map fst (fold (\<lambda>r. add_to (f r) (g r)) p m))"
  by (induction p arbitrary: m) (simp_all add: keys_add_to)

lemma tally_fold:
  "wins_total (t_wins (fold add_group per t)) = wins_total (t_wins t) + length (filter (\<lambda>p. p \<noteq> []) per)"
  "w_other (t_wins (fold add_group per t)) = w_other (t_wins t) + length (filter (\<lambda>p. p \<noteq> [] \<and> outcomeOf p = OOther) per)"
  "sum_list (map snd (t_won (fold add_group per t))) \<le> sum_list (map snd (t_won t)) + length (filter (\<lambda>p. p \<noteq> []) per)"
  "distinct (map fst (t_count t)) \<Longrightarrow> distinct (map fst (t_count (fold add_group per t)))"
  "distinct (map fst (t_won t)) \<Longrightarrow> distinct (map fst (t_won (fold add_group per t)))"
proof -
  have "wins_total (t_wins (add_group p t)) = wins_total (t_wins t) + (if p = [] then 0 else 1)"
    "w_other (t_wins (add_group p t)) = w_other (t_wins t) + (if p \<noteq> [] \<and> outcomeOf p = OOther then 1 else 0)"
    "sum_list (map snd (t_won (add_group p t))) \<le> sum_list (map snd (t_won t)) + (if p = [] then 0 else 1)"
    "distinct (map fst (t_count t)) \<Longrightarrow> distinct (map fst (t_count (add_group p t)))"
    "distinct (map fst (t_won t)) \<Longrightarrow> distinct (map fst (t_won (add_group p t)))" for p t
    by (auto simp: add_group_def Let_def wins_total_def add_outcome_def sum_add_to fold_add_to_distinct keys_add_to split: GroupOutcome.splits)
  note one = this
  show "wins_total (t_wins (fold add_group per t)) = wins_total (t_wins t) + length (filter (\<lambda>p. p \<noteq> []) per)"
    "w_other (t_wins (fold add_group per t)) = w_other (t_wins t) + length (filter (\<lambda>p. p \<noteq> [] \<and> outcomeOf p = OOther) per)"
    by (induction per arbitrary: t) (auto simp: one)
  show "sum_list (map snd (t_won (fold add_group per t))) \<le> sum_list (map snd (t_won t)) + length (filter (\<lambda>p. p \<noteq> []) per)"
  proof (induction per arbitrary: t)
    case (Cons p per)
    have "sum_list (map snd (t_won (fold add_group (p # per) t)))
        \<le> sum_list (map snd (t_won t)) + (if p = [] then 0 else 1) + length (filter (\<lambda>p. p \<noteq> []) per)"
      using order_trans[OF Cons.IH[of "add_group p t"] add_right_mono[OF one(3)[of p t]]] by simp
    then show ?case by (auto split: if_splits)
  qed simp
  show "distinct (map fst (t_count t)) \<Longrightarrow> distinct (map fst (t_count (fold add_group per t)))"
    "distinct (map fst (t_won t)) \<Longrightarrow> distinct (map fst (t_won (fold add_group per t)))"
    by (induction per arbitrary: t) (auto simp: one)
qed

lemma those_SomeD: "those (map f xs) = Some ys \<Longrightarrow> map f xs = map Some ys"
  by (induction xs arbitrary: ys) (auto split: option.splits)

lemma sum_map_of_le:
  fixes m :: "(string \<times> nat) list"
  assumes "distinct ks" "distinct (map fst m)"
  shows "sum_list (map (\<lambda>k. case map_of m k of None \<Rightarrow> 0 | Some n \<Rightarrow> n) ks) \<le> sum_list (map snd m)"
proof -
  have "sum_list (map (\<lambda>k. case map_of m k of None \<Rightarrow> 0 | Some n \<Rightarrow> n) ks) = (\<Sum>k \<in> set ks. case map_of m k of None \<Rightarrow> 0 | Some n \<Rightarrow> n)"
    using assms(1) by (simp add: sum_list_distinct_conv_sum_set)
  also have "\<dots> = (\<Sum>k \<in> set ks \<inter> set (map fst m). case map_of m k of None \<Rightarrow> 0 | Some n \<Rightarrow> n)"
    by (rule sum.mono_neutral_right) (force split: option.splits dest: map_of_SomeD)+
  also have "\<dots> \<le> (\<Sum>k \<in> set (map fst m). case map_of m k of None \<Rightarrow> 0 | Some n \<Rightarrow> n)"
    by (rule sum_mono2) auto
  also have "\<dots> = sum_list (map (\<lambda>k. case map_of m k of None \<Rightarrow> 0 | Some n \<Rightarrow> n) (map fst m))"
    using assms(2) by (simp add: sum_list_distinct_conv_sum_set del: map_map)
  also have "\<dots> = sum_list (map snd m)"
  proof -
    have "map (\<lambda>k. case map_of m k of None \<Rightarrow> 0 | Some n \<Rightarrow> n) (map fst m) = map snd m"
      using assms(2) by (auto simp: map_of_eq_Some_iff[of m, THEN iffD2])
    then show ?thesis by (rule arg_cong[of _ _ sum_list])
  qed
  finally show ?thesis .
qed

lemma sum_list_mset: "sum_list (map f xs) = sum_mset (image_mset f (mset xs))"
  by (induction xs) simp_all

text \<open>
  Every group of a scope that has the metric is counted once: led by VarMQ, led by another subject, or tied. A lane is a
  subject with as many rows as there are groups, each subject has one lane, a lane wins at most all of the groups, and no group
  is won twice.
\<close>
theorem lanes_account_for_every_group:
  assumes "laneSet locale_compare cells m s = Some ls"
  shows "w_varmq (ls_wins ls) + w_other (ls_wins ls) + w_tied (ls_wins ls) = ls_groups ls
    \<and> ls_groups ls = length (filter (\<lambda>c. ranked c m s \<noteq> Some []) cells)
    \<and> list_all (\<lambda>l. ln_of l = ls_groups ls) (ls_lanes ls)
    \<and> distinct (map ln_subject (ls_lanes ls))
    \<and> sum_list (map ln_won (ls_lanes ls)) \<le> ls_groups ls"
proof -
  obtain per where per: "map (\<lambda>c. ranked c m s) cells = map Some per" and ls: "ls = lane_set_of locale_compare per m s"
    using assms those_SomeD unfolding laneSet_def by blast
  define groups where "groups = length (filter (\<lambda>p. p \<noteq> []) per)"
  define t where "t = tally per"
  define subjects where "subjects = map fst (filter (\<lambda>(_, n). n = groups) (t_count t))"
  have lanes: "mset (ls_lanes ls) = image_mset (lane_of t groups (lane_base subjects)) (mset subjects)"
    and rest: "ls_wins ls = t_wins t" "ls_groups ls = groups"
    by (simp_all add: ls lane_set_of_def Let_def groups_def t_def subjects_def image_mset.compositionality)
  have "distinct (map fst (t_count t))" "distinct (map fst (t_won t))" unfolding t_def tally_def by (rule tally_fold; simp)+
  then have d: "distinct subjects" "distinct (map fst (t_won t))" by (simp_all add: subjects_def distinct_map_filter)
  have "length (filter (\<lambda>c. ranked c m s \<noteq> Some []) cells) = length (filter (\<lambda>x. x \<noteq> Some []) (map (\<lambda>c. ranked c m s) cells))"
    by (simp add: filter_map comp_def)
  also have "\<dots> = groups" unfolding per by (simp add: filter_map comp_def groups_def)
  finally have "groups = length (filter (\<lambda>c. ranked c m s \<noteq> Some []) cells)" ..
  moreover have "wins_total (t_wins t) = groups" unfolding t_def tally_def tally_fold(1) by (simp add: wins_total_def groups_def)
  moreover have "set (ls_lanes ls) = lane_of t groups (lane_base subjects) ` set subjects"
    using arg_cong[OF lanes, of set_mset] by simp
  then have "list_all (\<lambda>l. ln_of l = groups) (ls_lanes ls)" by (auto simp: list_all_iff lane_of_def Let_def)
  moreover have "mset (map ln_subject (ls_lanes ls)) = mset subjects"
    by (simp add: lanes image_mset.compositionality comp_def lane_of_def Let_def)
  then have "distinct (map ln_subject (ls_lanes ls))" using d(1) mset_eq_imp_distinct_iff by blast
  moreover have "sum_list (map ln_won (ls_lanes ls)) = sum_list (map (\<lambda>k. case map_of (t_won t) k of None \<Rightarrow> 0 | Some n \<Rightarrow> n) subjects)"
    unfolding sum_list_mset lanes by (simp add: image_mset.compositionality comp_def lane_of_def Let_def)
  moreover have "sum_list (map snd (t_won t)) \<le> groups" 
    using tally_fold(3)[of per "\<lparr>t_count = [], t_sum = [], t_won = [], t_wins = \<lparr>w_varmq = 0, w_other = 0, w_tied = 0\<rparr>\<rparr>"]
    by (simp add: t_def tally_def groups_def)
  ultimately show ?thesis using rest sum_map_of_le[OF d] by (simp add: wins_total_def)
qed

section \<open>Losses\<close>

lemma loss_of_cases:
  assumes "loss_of m s c = Some r"
  obtains p where "ranked c m s = Some p"
    "r = None \<longleftrightarrow> \<not> (p \<noteq> [] \<and> outcomeOf p = OOther \<and> (\<exists>q \<in> set p. isVarmq (rk_subject q)))"
    "\<And>l. r = Some l \<Longrightarrow> \<exists>i. find_index (\<lambda>r. isVarmq (rk_subject r)) p = Some i \<and> ahead_of (m_better m) (rk_value (hd p)) (rk_value (p ! i)) = Some (lo_ahead l)
      \<and> lo_winner l = hd p \<and> lo_varmq l = p ! i \<and> lo_rank l = i + 1 \<and> lo_of l = length p"
proof -
  from assms obtain p where p: "ranked c m s = Some p" by (auto simp: loss_of_def bind_eq_Some_conv)
  show ?thesis
  proof (cases "p = [] \<or> outcomeOf p \<noteq> OOther")
    case True
    then show ?thesis using that[OF p] assms p by (auto simp: loss_of_def)
  next
    case False
    show ?thesis
    proof (cases "find_index (\<lambda>r. isVarmq (rk_subject r)) p")
      case None
      then have "r = None" using assms p False by (simp add: loss_of_def del: find_index_None)
      moreover have "\<not> (\<exists>q \<in> set p. isVarmq (rk_subject q))" using None by simp
      ultimately show ?thesis using that[OF p] by blast
    next
      case (Some i)
      have "\<exists>q \<in> set p. isVarmq (rk_subject q)" using Some find_index_None[of "\<lambda>r. isVarmq (rk_subject r)" p] by fastforce
      then show ?thesis using that[OF p] assms p False Some by (auto simp: loss_of_def bind_eq_Some_conv)
    qed
  qed
qed

lemma length_filter_all2: "list_all2 (\<lambda>x y. P x = Q y) xs ys \<Longrightarrow> length (filter P xs) = length (filter Q ys)"
  by (induction rule: list_all2_induct) auto

lemma length_map_filter: "length (List.map_filter id rs) = length (filter (\<lambda>r. r \<noteq> None) rs)"
  by (induction rs) (auto simp: map_filter_simps split: option.splits)

lemma losses_result:
  assumes "lossesOf cells m s = Some losses"
  obtains rs where "map (loss_of m s) cells = map Some rs" "mset losses = mset (List.map_filter id rs)"
    "losses = sort_key (\<lambda>l. - lo_ahead l) (List.map_filter id rs)"
proof -
  obtain rs where rs: "map (loss_of m s) cells = map Some rs" "losses = sort_by (\<lambda>a b. lo_ahead b - lo_ahead a) (List.map_filter id rs)"
    using assms those_SomeD unfolding lossesOf_def by blast
  have "losses = sort_key (\<lambda>l. - lo_ahead l) (List.map_filter id rs)" unfolding rs(2) by (rule sort_by_sort_key) simp
  then show ?thesis using that[OF rs(1)] rs(2) by simp
qed

text \<open>
  When every group in scope has a VarMQ row, the list of losses has one entry for each group another subject leads: the count
  of the lanes and the list agree.
\<close>
theorem losses_agree_with_the_count:
  assumes "laneSet locale_compare cells m s = Some ls" "lossesOf cells m s = Some losses"
    and "list_all (\<lambda>c. case ranked c m s of None \<Rightarrow> True | Some p \<Rightarrow> list_ex (\<lambda>r. isVarmq (rk_subject r)) p) cells"
  shows "length losses = w_other (ls_wins ls)"
proof -
  obtain per where per: "map (\<lambda>c. ranked c m s) cells = map Some per" and ls: "ls = lane_set_of locale_compare per m s"
    using assms(1) those_SomeD unfolding laneSet_def by blast
  obtain rs where rs: "map (loss_of m s) cells = map Some rs" "mset losses = mset (List.map_filter id rs)"
    by (rule losses_result[OF assms(2)])
  have pc: "length per = length cells" "length rs = length cells" using arg_cong[OF per, of length] arg_cong[OF rs(1), of length] by simp_all
  have "(rs ! i \<noteq> None) = (per ! i \<noteq> [] \<and> outcomeOf (per ! i) = OOther)" if "i < length cells" for i
  proof -
    have a: "ranked (cells ! i) m s = Some (per ! i)" "loss_of m s (cells ! i) = Some (rs ! i)"
      using arg_cong[OF per, of "\<lambda>xs. xs ! i"] arg_cong[OF rs(1), of "\<lambda>xs. xs ! i"] that pc by simp_all
    have "list_ex (\<lambda>r. isVarmq (rk_subject r)) (per ! i)"
      using assms(3) that a(1) unfolding list_all_length by (metis (no_types, lifting) option.simps(5))
    then have v: "\<exists>q \<in> set (per ! i). isVarmq (rk_subject q)" by (simp add: list_ex_iff)
    show ?thesis by (rule loss_of_cases[OF a(2)]) (use a(1) v in auto)
  qed
  then have "length (filter (\<lambda>r. r \<noteq> None) rs) = length (filter (\<lambda>p. p \<noteq> [] \<and> outcomeOf p = OOther) per)"
    using pc by (intro length_filter_all2) (simp add: list_all2_conv_all_nth)
  moreover have "length losses = length (filter (\<lambda>r. r \<noteq> None) rs)"
    using arg_cong[OF rs(2), of size] by (simp add: length_map_filter)
  moreover have "w_other (ls_wins ls) = length (filter (\<lambda>p. p \<noteq> [] \<and> outcomeOf p = OOther) per)"
    by (simp add: ls lane_set_of_def Let_def tally_def tally_fold(2))
  ultimately show ?thesis by simp
qed

text \<open>
  Where every value is positive, each loss is by a factor above 1, the best VarMQ row is at least second of its group, and the
  losses come worst first.
\<close>
theorem losses_are_behind:
  assumes "lossesOf cells m s = Some losses"
    and "list_all (\<lambda>c. case ranked c m s of None \<Rightarrow> True | Some p \<Rightarrow> list_all (\<lambda>r. 0 < rk_value r) p) cells"
  shows "list_all (\<lambda>l. 1 < lo_ahead l \<and> 2 \<le> lo_rank l \<and> lo_rank l \<le> lo_of l) losses
    \<and> sorted_wrt (\<lambda>a b. lo_ahead b \<le> lo_ahead a) losses"
proof -
  obtain rs where rs: "map (loss_of m s) cells = map Some rs" "mset losses = mset (List.map_filter id rs)"
    "losses = sort_key (\<lambda>l. - lo_ahead l) (List.map_filter id rs)"
    by (rule losses_result[OF assms(1)])
  have "1 < lo_ahead l \<and> 2 \<le> lo_rank l \<and> lo_rank l \<le> lo_of l" if "l \<in> set losses" for l
  proof -
    have "Some l \<in> set rs" using that mset_eq_setD[OF rs(2)] by (auto simp: List.map_filter_def)
    then have "Some (Some l) \<in> set (map Some rs)" by simp
    then obtain c where c: "c \<in> set cells" "loss_of m s c = Some (Some l)" unfolding rs(1)[symmetric] by auto
    obtain p i where p: "ranked c m s = Some p" "p \<noteq> []" "outcomeOf p = OOther" "find_index (\<lambda>r. isVarmq (rk_subject r)) p = Some i"
      "ahead_of (m_better m) (rk_value (hd p)) (rk_value (p ! i)) = Some (lo_ahead l)" "lo_rank l = i + 1" "lo_of l = length p"
      by (rule loss_of_cases[OF c(2)]) blast
    have i: "i < length p" "isVarmq (rk_subject (p ! i))" using find_index_SomeD[OF p(4)] by auto
    have pos: "0 < rk_value (hd p)" "0 < rk_value (p ! i)"
      using assms(2) c(1) p(1,2) i(1) by (auto simp: list_all_iff split: option.splits)
    have "p ! i \<notin> set (leaders p)" using outcome_other[OF p(2)] p(3) i(2) by blast
    then have ne: "rk_value (p ! i) \<noteq> rk_value (hd p)" using i(1) by (simp add: leaders_def)
    then have "i \<noteq> 0" using p(2) by (metis hd_conv_nth)
    have above: "x < y \<Longrightarrow> 0 < x \<Longrightarrow> 1 < y / x" for x y :: rat by (simp add: less_divide_eq)
    have "rank_key (m_better m) (hd p) < rank_key (m_better m) (p ! i)"
      using ranked_hd_best[OF p(1)] i(1) ne rank_key_eq by (metis nth_mem order_le_neq_trans)
    then have "1 < lo_ahead l" using p(5) pos above[of "rk_value (p ! i)" "rk_value (hd p)"] above[of "rk_value (hd p)" "rk_value (p ! i)"]
      by (cases "m_better m") (auto simp: ahead_of_def rank_key_def)
    then show ?thesis using p(6,7) i(1) \<open>i \<noteq> 0\<close> by simp
  qed
  moreover have "sorted (map (\<lambda>l. - lo_ahead l) losses)" unfolding rs(3) by simp
  then have "sorted_wrt (\<lambda>a b. lo_ahead b \<le> lo_ahead a) losses" by (simp add: sorted_map)
  ultimately show ?thesis by (simp add: list_all_iff)
qed

section \<open>The theorems on a small data file\<close>

text \<open>One group for each dataset of the page's views, with a VarMQ row, a library that beats it and a baseline.\<close>

definition demo_rows :: "Row list" where
  "demo_rows = [\<lparr>r_subject = ''VarMQ'', r_line = 1, r_iterations = 2, r_values = [100, 8000000]\<rparr>,
    \<lparr>r_subject = ''Ants'', r_line = 2, r_iterations = 2, r_values = [150, 4000000]\<rparr>,
    \<lparr>r_subject = ''BufferedPool'', r_line = 3, r_iterations = 2, r_values = [120, 6000000]\<rparr>]"

definition demo_group :: "(string \<times> string) list \<Rightarrow> Group" where
  "demo_group key = \<lparr>g_id = ''g'', g_key = key, g_c = 0, g_first = 1, g_last = 3, g_rows = demo_rows\<rparr>"

definition demo_dataset :: "string \<Rightarrow> Suite \<Rightarrow> string list \<Rightarrow> (string \<times> string) list \<Rightarrow> Dataset" where
  "demo_dataset i suite cols key = \<lparr>ds_id = i, ds_suite = suite, ds_title = i, ds_file = ''raw.txt'',
     ds_procs = 24, ds_cpu = ''cpu'', ds_goos = ''linux'', ds_goarch = ''amd64'', ds_pkg = ''bench'', ds_seconds = 60, ds_rowCount = 3,
     ds_runDate = ''2025-01-01'', ds_readme = ''README.md'', ds_colsets = [cols], ds_groups = [demo_group key]\<rparr>"

definition demo_pool :: Dataset where
  "demo_pool = demo_dataset ''pool-24cpu'' SPool [''ops/s'', ''B/op''] [(''task'', ''Noop''), (''workers'', ''8''), (''shape'', ''1u-1Mt'')]"

definition demo_data :: Data where
  "demo_data = \<lparr>d_schema = 1, d_repo = ''goptics/bench'', d_commit = ''c0ffee'', d_commitDate = ''2025-01-01'', d_runDate = ''2025-01-01'',
     d_machine = ''machine'', d_pinning = ''none'', d_versions = [], d_datasets = [demo_pool,
     demo_pool\<lparr>ds_id := ''pool-8cpu''\<rparr>, demo_pool\<lparr>ds_id := ''pool-4cpu''\<rparr>,
     demo_dataset ''redis'' SRedis [''jobs/s'', ''B/op''] [(''test'', ''durable''), (''task'', ''Noop''), (''workers'', ''8''), (''instances'', ''1''), (''shape'', ''1u-1Mt'')],
     demo_dataset ''sqlite'' SSqlite [''jobs/s'', ''walMB''] [(''scenario'', ''Drain''), (''ckpt'', ''1000'')]]\<rparr>"

definition demo_state :: State where
  "demo_state = \<lparr>s_view = ''redis'', s_f = [(''test'', ''durable''), (''task'', ''Noop''), (''workers'', ''all''), (''instances'', ''1''), (''shape'', ''1u-1Mt'')],
     s_metric = ''memory'', s_sort = Worst, s_baselines = True, s_focus = Some ''a|b c%''\<rparr>"

definition demo_cells :: "Cell list" where
  "demo_cells = [\<lparr>c_ds = demo_pool, c_g = hd (ds_groups demo_pool)\<rparr>]"

lemma demo_canonical: "canonical demo_data demo_state" "s_focus demo_state \<noteq> Some ''''"
  by code_simp+

lemma demo_default: "list_all (\<lambda>v. defaultState demo_data (v_id v) \<noteq> None) VIEWS"
  by code_simp

theorem fromHash_gives_a_canonical_state_witness: "\<exists>s. fromHash demo_data ''#view=redis&test=nonsense&%zz'' = Some s \<and> canonical demo_data s"
  by (rule fromHash_gives_a_canonical_state[OF demo_default])

theorem hash_round_trip_witness:
  "(\<exists>h. toHash demo_data demo_state = Some h \<and> fromHash demo_data (CHR ''#'' # h) = Some demo_state)
   \<and> (\<exists>h. toHash demo_data (demo_state\<lparr>s_focus := Some ''''\<rparr>) = Some h \<and> fromHash demo_data h = Some (demo_state\<lparr>s_focus := None\<rparr>))"
proof -
  have "canonical demo_data (demo_state\<lparr>s_focus := Some ''''\<rparr>)" using demo_canonical(1) by (auto simp: canonical_def split: option.splits)
  from hash_round_trip[OF this] hash_round_trip[OF demo_canonical(1)] demo_canonical(2) show ?thesis by fastforce
qed

lemma demo_ranked: "ranked (hd demo_cells) (RATE SPool) demo_state = Some [\<lparr>rk_subject = ''Ants'', rk_value = 150, rk_line = 2\<rparr>,
    \<lparr>rk_subject = ''BufferedPool'', rk_value = 120, rk_line = 3\<rparr>, \<lparr>rk_subject = ''VarMQ'', rk_value = 100, rk_line = 1\<rparr>]"
  by code_simp

theorem ranked_best_first_witness: "\<exists>p. ranked (hd demo_cells) (RATE SPool) demo_state = Some p
    \<and> (\<forall>v. length (filter (\<lambda>r. rk_value r = v) p) \<le> length p) \<and> leaders p = [hd p]"
proof -
  have "leaders [\<lparr>rk_subject = ''Ants'', rk_value = 150, rk_line = 2\<rparr>, \<lparr>rk_subject = ''BufferedPool'', rk_value = 120, rk_line = 3\<rparr>,
      \<lparr>rk_subject = ''VarMQ'', rk_value = 100, rk_line = 1\<rparr>] = [\<lparr>rk_subject = ''Ants'', rk_value = 150, rk_line = 2\<rparr>]"
    using ranked_best_first[OF demo_ranked] by (auto simp: RATE_def better_by_def)
  then show ?thesis using demo_ranked by simp
qed

lemma demo_counts: "map_option ls_groups (laneSet (\<lambda>_ _. 0) demo_cells (RATE SPool) demo_state) = Some 1"
  "map_option length (lossesOf demo_cells (RATE SPool) demo_state) = Some 1"
  by code_simp+

theorem lanes_account_for_every_group_witness: "\<exists>ls. laneSet (\<lambda>_ _. 0) demo_cells (RATE SPool) demo_state = Some ls
    \<and> w_varmq (ls_wins ls) + w_other (ls_wins ls) + w_tied (ls_wins ls) = 1"
proof -
  obtain ls where ls: "laneSet (\<lambda>_ _. 0) demo_cells (RATE SPool) demo_state = Some ls" "ls_groups ls = 1" using demo_counts(1) by auto
  show ?thesis using lanes_account_for_every_group[OF ls(1)] ls by simp
qed

theorem losses_agree_with_the_count_witness: "\<exists>ls. laneSet (\<lambda>_ _. 0) demo_cells (RATE SPool) demo_state = Some ls \<and> w_other (ls_wins ls) = 1"
proof -
  obtain ls losses where a: "laneSet (\<lambda>_ _. 0) demo_cells (RATE SPool) demo_state = Some ls"
    "lossesOf demo_cells (RATE SPool) demo_state = Some losses" "length losses = 1" using demo_counts by auto
  have "list_all (\<lambda>c. case ranked c (RATE SPool) demo_state of None \<Rightarrow> True | Some p \<Rightarrow> list_ex (\<lambda>r. isVarmq (rk_subject r)) p) demo_cells"
    by code_simp
  from losses_agree_with_the_count[OF a(1,2) this] show ?thesis using a by simp
qed

theorem losses_are_behind_witness: "\<exists>losses. lossesOf demo_cells (RATE SPool) demo_state = Some losses \<and> losses \<noteq> [] \<and> list_all (\<lambda>l. 1 < lo_ahead l) losses"
proof -
  obtain losses where a: "lossesOf demo_cells (RATE SPool) demo_state = Some losses" "length losses = 1" using demo_counts(2) by auto
  have "list_all (\<lambda>c. case ranked c (RATE SPool) demo_state of None \<Rightarrow> True | Some p \<Rightarrow> list_all (\<lambda>r. 0 < rk_value r) p) demo_cells"
    by code_simp
  from losses_are_behind[OF a(1) this] show ?thesis using a by (auto simp: list_all_iff)
qed

end
