(* ===== verification/Hero_Stations.thy ===== *)
theory Hero_Stations
  imports Hero_Chapters
begin

text \<open>
  \<open>docs/src/lib/story/stations.ts\<close> and \<open>steps.ts\<close>: the home page's story. Each chapter of the map is a step with the code
  behind it: a stretch of the map's loop, the captions' times, the code lines each caption lights, in a wide and a phone cut,
  and the captions and the whole story as HTML. A string is its UTF-8 text.
\<close>

section \<open>Stations\<close>

record Station =
  sn_code :: string
  sn_lines :: "nat list list"
  sn_phone :: "(string \<times> nat list list) option"
  sn_then :: "(string \<times> string option) list"
  sn_label :: string
  sn_href :: string

definition station :: "string \<Rightarrow> nat list list \<Rightarrow> (string \<times> nat list list) option \<Rightarrow> (string \<times> string option) list \<Rightarrow> string \<Rightarrow> string \<Rightarrow> Station" where
  "station code lines phone thens label href =
    \<lparr>sn_code = code, sn_lines = lines, sn_phone = phone, sn_then = thens, sn_label = label, sn_href = href\<rparr>"

definition EXAMPLES :: string where
  "EXAMPLES = ''https://github.com/goptics/varmq/tree/main/docs/examples''"

text \<open>A template literal over several lines.\<close>

definition newline :: string where "newline = [CHR 0x0A]"

definition code_of :: "string list \<Rightarrow> string" where
  "code_of ls = join_with newline ls"

definition strategy_code :: "string \<Rightarrow> bool \<Rightarrow> string" where
  "strategy_code name phone =
    (let ranked = (name = ''Priority'');
         when = (\<lambda>s. if ranked then s else '''') in
     code_of ([''worker := varmq.NewWorker('', [CHR 0x09] @ ''process,'', [CHR 0x09] @ ''varmq.WithStrategy(varmq.'' @ name @ ''),'', '')''] @
       (if phone then [when ''// high, medium, low'', ''alerts := worker.BindQueue()'', ''reports := worker.BindPriorityQueue()'', ''emails := worker.BindQueue()'']
        else [''alerts := worker.BindQueue()'' @ when ''          // high'', ''reports := worker.BindPriorityQueue()'' @ when '' // medium'',
          ''emails := worker.BindQueue()'' @ when ''          // low''])))"

definition STATIONS :: \<open>Station list\<close> where
  \<open>STATIONS = [
    station (code_of [
      ''worker := varmq.NewWorker(func(j varmq.Job[int]) {'',
      [CHR 0x09] @ ''fmt.Println("processing", j.Data())'',
      ''})'',
      ''alerts := worker.BindQueue()'',
      '''',
      ''alerts.Add(1)'',
      ''alerts.Add(2)'',
      ''alerts.Add(3)'']) [[6, 7, 8]]
      (Some (code_of [
      ''worker := varmq.NewWorker('',
      [CHR 0x09] @ ''func(j varmq.Job[int]) {'',
      [CHR 0x09] @ [CHR 0x09] @ ''fmt.Println(j.Data())'',
      [CHR 0x09] @ ''},'',
      '')'',
      ''alerts := worker.BindQueue()'',
      '''',
      ''alerts.Add(1)'',
      ''alerts.Add(2)'',
      ''alerts.Add(3)''], [[8, 9, 10]])) []
      ''quick-start'' (EXAMPLES @ ''/quick-start''),
    station (code_of [
      ''// one goroutine to start'',
      ''worker := varmq.NewWorker(process)'',
      ''alerts := worker.BindQueue()'',
      '''',
      ''worker.TunePool(5)'',
      ''for i := range 5 {'',
      [CHR 0x09] @ ''alerts.Add(i)'',
      ''}'']) [[5, 6, 7, 8], [2, 5]]
      None []
      ''concurrency-tunepool'' (EXAMPLES @ ''/concurrency-tunepool''),
    station (code_of [
      ''// atoi parses the job'' @ [CHR 0x27] @ ''s string'',
      ''worker := varmq.NewResultWorker(atoi)'',
      ''queue := worker.BindQueue()'',
      '''',
      ''job, _ := queue.Add("42")'',
      ''n, err := job.Result() // 42 <nil>'',
      '''',
      ''job, _ = queue.Add("forty-two")'',
      ''n, err = job.Result() // 0, an error'']) [[6, 9]]
      None []
      ''worker-types-result'' (EXAMPLES @ ''/worker-types-result''),
    station (code_of [
      ''reports := worker.BindPriorityQueue()'',
      '''',
      ''reports.Add("five", 5)'',
      ''reports.Add("two", 2)'',
      ''reports.Add("eight", 8)'',
      ''reports.Add("one", 1)'',
      ''reports.Add("three", 3)'',
      ''// they run 1, 2, 3, 5, 8'']) [[6, 8]]
      None []
      ''queues-priority'' (EXAMPLES @ ''/queues-priority''),
    station (strategy_code ''Priority'' False) [[3, 5, 6, 7], [3], [3], [3]]
      (Some (strategy_code ''Priority'' True, [[3, 5, 6, 7, 8], [3], [3], [3]])) (map (\<lambda>name. (strategy_code name False, Some (strategy_code name True))) [''MaxLen'', ''MinLen'', ''RoundRobin''])
      ''the strategies guide'' ''https://varmq.goptics.org/guides/strategies/'',
    station (code_of [
      ''topic := varmq.NewTopic[int]()'',
      '''',
      ''worker.WithTopic(topic)'',
      ''another.WithTopic(topic)'',
      '''',
      ''topic.Publish(1) // a job for each'',
      ''topic.Publish(2)'']) [[6, 7]]
      None []
      ''topic-subscribe'' (EXAMPLES @ ''/topic-subscribe''),
    station (code_of [
      ''sdb, _ := sqliteq.New("data")'',
      ''pq, _ := sdb.NewQueue("jobs")'',
      '''',
      ''worker := varmq.NewWorker(process, 2)'',
      ''queue := worker.WithPersistentQueue(pq)'',
      '''',
      ''queue.Add("job 1")'',
      ''queue.Add("job 2")'']) [[1, 2, 5], [7, 8], [4], [], [1, 2, 5], [4]]
      None []
      ''the SQLite page'' ''https://varmq.goptics.org/persistence/sqlite/'',
    station (code_of [
      ''rdb := redisq.New("redis://localhost:6379")'',
      ''dq := rdb.NewDistributedQueue("jobs")'',
      '''',
      ''// program A adds'',
      ''producer := varmq.NewDistributedQueue[string](dq)'',
      ''producer.Add("job 1")'',
      '''',
      ''// programs B and C run the jobs'',
      ''worker := varmq.NewWorker(process, 2)'',
      ''worker.WithDistributedQueue(dq)'']) [[1, 2], [5, 6], [], [10], [9, 10]]
      (Some (code_of [
      ''rdb := redisq.New('',
      [CHR 0x09] @ ''"redis://localhost:6379",'',
      '')'',
      ''dq := rdb.NewDistributedQueue("jobs")'',
      '''',
      ''// program A adds'',
      ''q := varmq.NewDistributedQueue[string]('',
      [CHR 0x09] @ ''dq,'',
      '')'',
      ''q.Add("job 1")'',
      '''',
      ''// programs B and C run the jobs'',
      ''worker := varmq.NewWorker(process, 2)'',
      ''worker.WithDistributedQueue(dq)''], [[1, 2, 3, 4], [7, 8, 9, 10], [], [14], [13, 14]])) []
      ''the Redis page'' ''https://varmq.goptics.org/persistence/redis/'',
    station (code_of [
      ''worker.Pause()'',
      ''worker.Resume()'',
      '''',
      ''// running jobs finish, then the event'',
      ''// loop and its goroutines exit'',
      ''worker.Stop()'',
      ''// the waiting jobs run'',
      ''worker.Restart()'']) [[1], [2], [4, 5, 6], [7, 8]]
      None []
      ''lifecycle-restart'' (EXAMPLES @ ''/lifecycle-restart''),
    station (code_of [
      ''worker := varmq.NewWorker(process)'',
      '''',
      ''worker.BindQueue()              // memory'',
      ''worker.WithPersistentQueue(pq)  // SQLite'',
      ''worker.WithDistributedQueue(dq) // Redis'']) [[1, 3, 4, 5]]
      (Some (code_of [
      ''worker := varmq.NewWorker(process)'',
      '''',
      ''// memory'',
      ''worker.BindQueue()'',
      ''// SQLite'',
      ''worker.WithPersistentQueue(pq)'',
      ''// Redis'',
      ''worker.WithDistributedQueue(dq)''], [[1, 3, 4, 5, 6, 7, 8]])) []
      ''workers-and-queues'' (EXAMPLES @ ''/workers-and-queues'')]\<close>

section \<open>Text\<close>

definition escape_char :: "char \<Rightarrow> string" where
  "escape_char c = (if c \<in> {CHR ''&'', CHR ''<'', CHR ''>'', CHR 0x22} then ''&#'' @ string_of_nat (of_char c) @ '';'' else [c])"

definition escape :: "string \<Rightarrow> string" where
  "escape s = concat (map escape_char s)"

definition words :: "Caption \<Rightarrow> string" where
  "words c = (case cap_swap c of Some t \<Rightarrow> cap_text c @ '' to '' @ t | None \<Rightarrow> cap_text c)"

definition is_mark :: "char \<Rightarrow> bool" where
  "is_mark c \<longleftrightarrow> c \<in> {CHR ''*'', CHR ''!'', CHR ''#''}"

text \<open>\<open>text.split(/([*!#][^*!#]+[*!#])/)\<close>: the text between the matches, and the matches, in turn.\<close>

function split_marks :: "string \<Rightarrow> string \<Rightarrow> string list" where
  "split_marks acc [] = [acc]"
| "split_marks acc (c # s) =
    (if is_mark c \<and> takeWhile (\<lambda>x. \<not> is_mark x) s \<noteq> [] \<and> dropWhile (\<lambda>x. \<not> is_mark x) s \<noteq> []
     then acc # (c # takeWhile (\<lambda>x. \<not> is_mark x) s @ [hd (dropWhile (\<lambda>x. \<not> is_mark x) s)])
       # split_marks [] (tl (dropWhile (\<lambda>x. \<not> is_mark x) s))
     else split_marks (acc @ [c]) s)"
  by pat_completeness auto

termination
proof (relation "measure (\<lambda>(_, s). length s)")
  fix acc c s
  have "length (dropWhile (\<lambda>x. \<not> is_mark x) s) \<le> length s" by (rule length_dropWhile_le)
  then show "(([], tl (dropWhile (\<lambda>x. \<not> is_mark x) s)), acc, c # s) \<in> measure (\<lambda>(_, s). length s)" by simp
qed auto

definition to_lower :: "char \<Rightarrow> char" where
  "to_lower c = (if 65 \<le> (of_char c :: nat) \<and> (of_char c :: nat) \<le> 90 then char_of ((of_char c :: nat) + 32) else c)"

definition dquote :: string where "dquote = [CHR 0x22]"

definition mark_part :: "string \<Rightarrow> string" where
  "mark_part p =
    (if length p < 3 \<or> last p \<noteq> hd p \<or> \<not> is_mark (hd p) then escape p
     else (let w = escape (butlast (tl p)) in
       if hd p = CHR ''*'' then ''<em>'' @ w @ ''</em>''
       else if hd p = CHR ''!'' then ''<strong class='' @ dquote @ ''fail'' @ dquote @ ''>'' @ w @ ''</strong>''
       else ''<span class='' @ dquote @ ''brand-'' @ map to_lower w @ dquote @ ''>'' @ w @ ''</span>''))"

definition marks :: "string \<Rightarrow> string" where
  "marks text = concat (map mark_part (split_marks [] text))"

section \<open>Steps\<close>

record StoryStep =
  sp_from :: int
  sp_ms :: int
  sp_captions :: "int list"
  sp_code :: "nat list"
  sp_wide :: "nat list list"
  sp_phone :: "nat list list"
  sp_count_wide :: nat
  sp_count_phone :: nat
  sp_title :: string
  sp_notes :: "string list"
  sp_label :: string
  sp_href :: string

definition firsts :: "nat list" where
  "firsts = map (\<lambda>i. sum_list (map (\<lambda>s. 1 + length (sn_then s)) (take i STATIONS))) [0..<length STATIONS]"

definition line_count :: "string \<Rightarrow> nat" where
  "line_count s = Suc (length (filter (\<lambda>c. c = CHR 0x0A) s))"

definition story_step :: "nat \<Rightarrow> Chapter \<Rightarrow> StoryStep" where
  "story_step i chapter =
    (let sn = STATIONS ! i;
         (phone_code, phone_lines) = (case sn_phone sn of Some p \<Rightarrow> p | None \<Rightarrow> (sn_code sn, sn_lines sn));
         lead = (if i = 0 then CAMERA else 0) in
     \<lparr>sp_from = (if i = 0 then TOTAL - CAMERA else starts ! i),
      sp_ms = lead + ch_duration chapter - (if i = length CHAPTERS - 1 then CAMERA else 0),
      sp_captions = map (\<lambda>c. lead + cap_at c) (ch_captions chapter),
      sp_code = map (\<lambda>c. firsts ! i + min c (length (sn_then sn))) [0..<length (ch_captions chapter)],
      sp_wide = sn_lines sn, sp_phone = phone_lines, sp_count_wide = line_count (sn_code sn), sp_count_phone = line_count phone_code,
      sp_title = ch_title chapter, sp_notes = map (\<lambda>c. marks (words c)) (ch_captions chapter),
      sp_label = sn_label sn, sp_href = sn_href sn\<rparr>)"

definition STEPS :: "StoryStep list" where
  "STEPS = map (\<lambda>(i, c). story_step i c) (enumerate 0 CHAPTERS)"

definition until :: "StoryStep \<Rightarrow> nat \<Rightarrow> int" where
  "until s c = (if c + 1 < length (sp_captions s) then sp_captions s ! (c + 1) - 1 else sp_ms s)"

definition STOPS :: "(nat \<times> nat) list" where
  "STOPS = concat (map (\<lambda>(step, s). map (\<lambda>c. (step, c)) [0..<length (sp_captions s)]) (enumerate 0 STEPS))"

definition story_item :: "nat \<Rightarrow> Chapter \<Rightarrow> string" where
  "story_item i chapter = ''<li><h3>'' @ escape (ch_title chapter) @ ''</h3><p>''
     @ escape (join_with ''. '' (map (\<lambda>c. plain (words c)) (ch_captions chapter))) @ ''.</p><pre><code>''
     @ escape (sn_code (STATIONS ! i)) @ ''</code></pre></li>''"

definition STORY_TEXT :: string where
  "STORY_TEXT = ''<ol>'' @ concat (map (\<lambda>(i, c). story_item i c) (enumerate 0 CHAPTERS)) @ ''</ol>''"

section \<open>The chapters' captions\<close>

lemma bind_sim_Inr: "bind_sim m f = Some (Inr r) \<longleftrightarrow> (\<exists>a. m = Some (Inr a) \<and> f a = Some (Inr r))"
  by (cases "(m, f)" rule: bind_sim.cases) auto

lemma body_captions: "body t d caps pub chips parts k = Some (Inr (c, k')) \<Longrightarrow> map cap_at (ch_captions c) = map cap_at caps"
  by (auto simp: body_def bind_sim_Inr)

definition captioned :: "(Carry \<Rightarrow> (Chapter \<times> Carry) sim) \<Rightarrow> int list \<Rightarrow> bool" where
  "captioned ch ts \<longleftrightarrow> (\<forall>k c k'. ch k = Some (Inr (c, k')) \<longrightarrow> map cap_at (ch_captions c) = ts)"

lemma captioned_body: "map cap_at caps = ts \<Longrightarrow> captioned (body t d caps pub chips parts) ts"
  unfolding captioned_def using body_captions by blast

lemma write_from_captions:
  "write_from i script k = Some (Inr cs) \<Longrightarrow> list_all2 captioned script ts \<Longrightarrow> map (\<lambda>c. map cap_at (ch_captions c)) cs = ts"
proof (induction script arbitrary: i k cs ts)
  case (Cons ch script)
  obtain c k' where c: "ch k = Some (Inr (c, k'))" using Cons.prems(1) by (auto split: option.splits sum.splits)
  obtain r where r: "write_from (i + 1) script k' = Some r" using Cons.prems(1) c by (auto split: option.splits)
  obtain cs' where cs: "r = Inr cs'" "cs = c\<lparr>ch_n := i + 1\<rparr> # cs'" using Cons.prems(1) c r by (cases r) (auto simp: id_def)
  obtain t ts' where t: "ts = t # ts'" "captioned ch t" "list_all2 captioned script ts'"
    using Cons.prems(2) by (auto simp: list_all2_Cons1)
  show ?case using Cons.IH[OF r[unfolded cs(1)] t(3)] t(1,2) c cs(2) by (auto simp: captioned_def)
qed auto

text \<open>When each chapter's captions start, in ms from the chapter's start.\<close>

definition caption_times :: "int list list" where
  "caption_times = [[300], [300, 5300], [300], [300], [300, 4650, 9000, 13350], [300], [300, 1300, 3300, 6800, 9300, 10900],
     [300, 1300, 3800, 5900, 6900], [2300, 4000, 6100, 7900], [300]]"

lemma chapter5_captioned: "captioned chapter5 [300, 4650, 9000, 13350]"
  by (auto simp: captioned_def chapter5_def caption_def split: option.splits dest: body_captions)

lemma chapters_captioned:
  "captioned chapter1 [300]" "captioned chapter2 [300, 5300]" "captioned chapter3 [300]" "captioned chapter4 [300]"
  "captioned chapter6 [300]" "captioned chapter7 [300, 1300, 3300, 6800, 9300, 10900]" "captioned chapter8 [300, 1300, 3800, 5900, 6900]"
  "captioned chapter9 [2300, 4000, 6100, 7900]" "captioned chapter10 [300]"
  unfolding chapter1_def chapter2_def chapter3_def chapter4_def chapter6_def chapter7_def chapter8_def chapter9_def chapter10_def
  by (rule captioned_body; simp add: caption_def)+

lemma script_captions: "write_from i SCRIPT k = Some (Inr cs) \<Longrightarrow> map (\<lambda>c. map cap_at (ch_captions c)) cs = caption_times"
  by (erule write_from_captions)
    (simp only: SCRIPT_def caption_times_def list.rel_inject list.rel_intros(1) chapters_captioned chapter5_captioned simp_thms)

section \<open>The code\<close>

text \<open>A line's width with tabs of a given size, and a station's code in both cuts, the code it changes to included.\<close>

definition width :: "nat \<Rightarrow> string \<Rightarrow> nat" where
  "width tab l = sum_list (map (\<lambda>c. if c = CHR 0x09 then tab else 1) l)"

fun code_lines :: "string \<Rightarrow> string list" where
  "code_lines [] = [[]]"
| "code_lines (c # s) = (if c = CHR 0x0A then [] # code_lines s else (case code_lines s of l # ls \<Rightarrow> (c # l) # ls | [] \<Rightarrow> [[c]]))"

definition wide_codes :: "Station \<Rightarrow> string list" where
  "wide_codes sn = sn_code sn # map fst (sn_then sn)"

definition phone_codes :: "Station \<Rightarrow> string list" where
  "phone_codes sn = (case sn_phone sn of Some (c, _) \<Rightarrow> c | None \<Rightarrow> sn_code sn) # map (\<lambda>(c, p). case p of Some x \<Rightarrow> x | None \<Rightarrow> c) (sn_then sn)"

definition fits :: "nat \<Rightarrow> nat \<Rightarrow> string \<Rightarrow> bool" where
  "fits tab w c \<longleftrightarrow> list_all (\<lambda>l. width tab l \<le> w) (code_lines c)"

definition lights :: "nat \<Rightarrow> nat \<Rightarrow> nat list list \<Rightarrow> bool" where
  "lights n m ls \<longleftrightarrow> length ls = n \<and> list_all (list_all (\<lambda>l. 1 \<le> l \<and> l \<le> m)) ls"

lemma stations_fit:
  "length STATIONS = 10 \<and> list_all (\<lambda>sn. list_all (fits 4 56) (wide_codes sn) \<and> list_all (fits 2 40) (phone_codes sn)) STATIONS"
  by code_simp

lemma stations_light:
  "list_all2 (\<lambda>n sn. lights n (line_count (sn_code sn)) (sn_lines sn)
     \<and> (case sn_phone sn of None \<Rightarrow> True | Some (c, ls) \<Rightarrow> lights n (line_count c) ls)
     \<and> list_all (\<lambda>c. line_count c = line_count (sn_code sn)) (wide_codes sn) \<and> list_all (\<lambda>c. line_count c = line_count (hd (phone_codes sn))) (phone_codes sn)
     \<and> length (sn_then sn) < n) (map length caption_times) STATIONS"
  by code_simp

end
