(* ===== verification/Hero_Steps.thy ===== *)
theory Hero_Steps
  imports Hero_Stations Hero_Story
begin

text \<open>
  What the steps of the home page's story promise: they tile the map's loop, each caption has a stretch of its step, and the code
  each caption shows and lights exists in both cuts.
\<close>

lemma chapter_captions: "map (\<lambda>c. map cap_at (ch_captions c)) CHAPTERS = caption_times"
  using script_captions story_written by (simp add: write_script_def)

lemma step_nth: "i < 10 \<Longrightarrow> STEPS ! i = story_step i (CHAPTERS ! i)"
  by (simp add: STEPS_def story_length nth_enumerate_eq)

lemma STEPS_length: "length STEPS = 10"
  by (simp add: STEPS_def story_length)

lemma durations: "map ch_duration CHAPTERS = [8300, 9000, 6200, 7000, 17900, 6200, 16900, 11500, 11600, 9000]"
  by (simp add: told_fields(2)) (simp add: tellings_def told_def)

lemma duration_nth: "i < 10 \<Longrightarrow> ch_duration (CHAPTERS ! i) = [8300, 9000, 6200, 7000, 17900, 6200, 16900, 11500, 11600, 9000] ! i"
  using arg_cong[OF durations, of "\<lambda>l. l ! i"] by (simp add: story_length)

lemma starts_nth: "i < 10 \<Longrightarrow> starts ! i = sum_list (take i [8300, 9000, 6200, 7000, 17900, 6200, 16900, 11500, 11600, 9000])"
  using starts_from_nth[of i CHAPTERS 0] by (simp add: starts_def story_length take_map flip: durations)

lemma total_is: "TOTAL = 103600"
  by (simp add: total_sum durations)

lemma captions_nth: "i < 10 \<Longrightarrow> map cap_at (ch_captions (CHAPTERS ! i)) = caption_times ! i"
  using arg_cong[OF chapter_captions, of "\<lambda>l. l ! i"] by (simp add: story_length)

lemma caption_count: "i < 10 \<Longrightarrow> length (ch_captions (CHAPTERS ! i)) = length (caption_times ! i)"
  using arg_cong[OF captions_nth, of i length] by simp

lemma STEPS_upt: "STEPS = map (\<lambda>i. story_step i (CHAPTERS ! i)) [0, 1, 2, 3, 4, 5, 6, 7, 8, 9]"
proof -
  have "STEPS = map (\<lambda>i. story_step i (CHAPTERS ! i)) [0..<10]"
    by (rule nth_equalityI) (simp_all add: STEPS_length step_nth)
  also have "[0..<10] = [0, 1, 2, 3, 4, 5, 6, 7, 8, 9 :: nat]" by (simp add: upt_rec)
  finally show ?thesis .
qed

lemma story_step_fields:
  "sp_from (story_step i c) = (if i = 0 then TOTAL - CAMERA else starts ! i)"
  "sp_ms (story_step i c) = (if i = 0 then CAMERA else 0) + ch_duration c - (if i = length CHAPTERS - 1 then CAMERA else 0)"
  "sp_captions (story_step i c) = map ((+) (if i = 0 then CAMERA else 0)) (map cap_at (ch_captions c))"
  "sp_code (story_step i c) = map (\<lambda>k. firsts ! i + min k (length (sn_then (STATIONS ! i)))) [0..<length (ch_captions c)]"
  "sp_wide (story_step i c) = sn_lines (STATIONS ! i)" "sp_count_wide (story_step i c) = line_count (sn_code (STATIONS ! i))"
  "sp_phone (story_step i c) = (case sn_phone (STATIONS ! i) of Some (_, ls) \<Rightarrow> ls | None \<Rightarrow> sn_lines (STATIONS ! i))"
  "sp_count_phone (story_step i c) = line_count (case sn_phone (STATIONS ! i) of Some (p, _) \<Rightarrow> p | None \<Rightarrow> sn_code (STATIONS ! i))"
  by (auto simp: story_step_def Let_def split: prod.splits option.splits)

lemma step_times:
  "map sp_from STEPS = [102400, 8300, 17300, 23500, 30500, 48400, 54600, 71500, 83000, 94600]"
  "map sp_ms STEPS = [9500, 9000, 6200, 7000, 17900, 6200, 16900, 11500, 11600, 7800]"
  "map sp_captions STEPS = [1500] # tl caption_times"
  by (simp_all add: STEPS_upt story_step_fields captions_nth duration_nth starts_nth total_is story_length CAMERA_def caption_times_def)

text \<open>Every caption of a step starts within it, and stops after it starts, at the next caption or the step's end.\<close>

definition caption_fits :: "int list \<Rightarrow> int \<Rightarrow> nat \<Rightarrow> bool" where
  "caption_fits cs ms c \<longleftrightarrow> 0 < cs ! c \<and> (let stop = (if c + 1 < length cs then cs ! (c + 1) - 1 else ms) in cs ! c \<le> stop \<and> stop \<le> ms)"

lemma until_fits: "caption_fits (sp_captions s) (sp_ms s) c \<Longrightarrow> 0 < sp_captions s ! c \<and> sp_captions s ! c \<le> until s c \<and> until s c \<le> sp_ms s"
  by (auto simp: caption_fits_def until_def Let_def split: if_splits)

lemma captions_fit: "list_all2 (\<lambda>cs ms. list_all (caption_fits cs ms) [0..<length cs]) (map sp_captions STEPS) (map sp_ms STEPS)"
  unfolding step_times by code_simp

text \<open>
  The ten steps tile the loop: the first opens where the finale's zoom starts, each other where the one before ends, the last
  ends where the first opens, and together they last the loop. Each caption starts within its step and stops, no earlier, at the
  next one or at the step's end.
\<close>
theorem steps_tile_the_loop:
  "length STEPS = 10 \<and> sp_from (STEPS ! 0) = TOTAL - CAMERA
    \<and> list_all (\<lambda>i. (sp_from (STEPS ! i) + sp_ms (STEPS ! i)) mod TOTAL = sp_from (STEPS ! Suc i)) [0..<9]
    \<and> sp_from (STEPS ! 9) + sp_ms (STEPS ! 9) = sp_from (STEPS ! 0) \<and> sum_list (map sp_ms STEPS) = TOTAL
    \<and> list_all (\<lambda>s. list_all (\<lambda>c. 0 < sp_captions s ! c \<and> sp_captions s ! c \<le> until s c \<and> until s c \<le> sp_ms s)
        [0..<length (sp_captions s)]) STEPS"
proof -
  have from_nth: "sp_from (STEPS ! i) = [102400, 8300, 17300, 23500, 30500, 48400, 54600, 71500, 83000, 94600] ! i" if "i < 10" for i
    using that arg_cong[OF step_times(1), of "\<lambda>l. l ! i"] by (simp add: STEPS_length)
  have ms_nth: "sp_ms (STEPS ! i) = [9500, 9000, 6200, 7000, 17900, 6200, 16900, 11500, 11600, 7800] ! i" if "i < 10" for i
    using that arg_cong[OF step_times(2), of "\<lambda>l. l ! i"] by (simp add: STEPS_length)
  have "list_all (\<lambda>s. list_all (\<lambda>c. 0 < sp_captions s ! c \<and> sp_captions s ! c \<le> until s c \<and> until s c \<le> sp_ms s) [0..<length (sp_captions s)]) STEPS"
    using captions_fit until_fits by (fastforce simp: list_all2_map1 list_all2_map2 list_all2_same list_all_iff)
  then show ?thesis
    by (simp add: STEPS_length step_times(2) total_is CAMERA_def from_nth ms_nth upt_rec)
qed

text \<open>
  In both cuts each caption of a step lights lines its code has, and the code it shows is one of the thirteen the stations
  compile to.
\<close>
theorem steps_light_their_code:
  "list_all (\<lambda>s. lights (length (sp_captions s)) (sp_count_wide s) (sp_wide s) \<and> lights (length (sp_captions s)) (sp_count_phone s) (sp_phone s)
    \<and> list_all (\<lambda>k. k < length (concat (map wide_codes STATIONS))) (sp_code s)) STEPS"
proof -
  have "length STATIONS = 10" using stations_fit by simp
  have counts: "map length caption_times ! i = length (caption_times ! i)" if "i < 10" for i
    by (rule nth_map) (use that in \<open>simp add: caption_times_def\<close>)
  have lit: "lights (length (caption_times ! i)) (line_count (sn_code (STATIONS ! i))) (sn_lines (STATIONS ! i))
      \<and> (case sn_phone (STATIONS ! i) of None \<Rightarrow> True | Some (c, ls) \<Rightarrow> lights (length (caption_times ! i)) (line_count c) ls)" if "i < 10" for i
    using list_all2_nthD2[OF stations_light, of i] that \<open>length STATIONS = 10\<close> unfolding counts[OF that] by simp
  have codes: "list_all (\<lambda>i. list_all (\<lambda>k. firsts ! i + min k (length (sn_then (STATIONS ! i))) < length (concat (map wide_codes STATIONS)))
      [0..<length (caption_times ! i)]) [0..<10]" by code_simp
  have "lights (length (sp_captions s)) (sp_count_wide s) (sp_wide s) \<and> lights (length (sp_captions s)) (sp_count_phone s) (sp_phone s)
    \<and> list_all (\<lambda>k. k < length (concat (map wide_codes STATIONS))) (sp_code s)" if i: "i < 10" "s = STEPS ! i" for i s
  proof -
    have "list_all (\<lambda>k. firsts ! i + min k (length (sn_then (STATIONS ! i))) < length (concat (map wide_codes STATIONS)))
        [0..<length (caption_times ! i)]" using codes i(1) by (simp add: list_all_iff)
    then have "list_all (\<lambda>k. k < length (concat (map wide_codes STATIONS))) (sp_code s)"
      unfolding i(2) step_nth[OF i(1)] story_step_fields caption_count[OF i(1)] list.pred_map comp_def .
    moreover have n: "length (sp_captions s) = length (caption_times ! i)"
      by (simp add: i step_nth story_step_fields caption_count)
    moreover have "lights (length (sp_captions s)) (sp_count_wide s) (sp_wide s)"
      unfolding i(2) step_nth[OF i(1)] story_step_fields caption_count[OF i(1)] length_map using lit[OF i(1)] by (rule conjunct1)
    moreover have "lights (length (sp_captions s)) (sp_count_phone s) (sp_phone s)"
      unfolding n unfolding i(2) step_nth[OF i(1)] story_step_fields
      using lit[OF i(1)] by (cases "sn_phone (STATIONS ! i)") (auto simp only: option.case prod.case)
    ultimately show ?thesis by blast
  qed
  from this[OF _ refl] show ?thesis unfolding list_all_length[where xs = STEPS] STEPS_length by blast
qed

end
