(* ===== verification/Ack_Scene.thy ===== *)
theory Ack_Scene
  imports Prelude Scene
begin

text \<open>
  \<open>docs/src/components/ops/ack.ts\<close> and \<open>ack-data.ts\<close>: the crash test of the persistence pages. One job (7) goes through the
  steps of an acknowledgement, and the process can be killed at each. The scene's state, its handlers with the buttons'
  disabled and hidden rules of the last render, and what the render shows of the queue and of the job are modelled; the elements
  it draws are not.
\<close>

section \<open>The steps (\<open>ack-data.ts\<close>)\<close>

datatype AckMode = Ack_memory | Ack_redis | Ack_sqlite | Ack_own

record AckStep =
  as_label :: string
  as_sub :: string
  as_call :: string

definition ack_entry :: "string \<Rightarrow> string \<Rightarrow> string \<Rightarrow> AckStep" where
  "ack_entry l s c = \<lparr>as_label = l, as_sub = s, as_call = c\<rparr>"

definition stepsOf :: \<open>AckMode \<Rightarrow> AckStep list\<close> where
  \<open>stepsOf mode =
    (if mode = Ack_memory
     then [ack_entry ''Waiting'' ''Add'' ''queue.Add(job)  // kept in memory'',
       ack_entry ''Taken'' ''Dequeue'' ''item, ok := q.Dequeue()  // no acknowledgement ID'',
       ack_entry ''Running'' ''fn(job)'' ''process(job)'',
       ack_entry ''Closed'' ''Close'' ''job.Close()  // nothing to acknowledge'']
     else [ack_entry ''Waiting'' ''Add'' ''queue.Add(job)  // stored outside the process'',
       (if mode = Ack_own then ack_entry ''Taken'' ''DequeueWithAckId'' ''item, ok, ackID := q.DequeueWithAckId()''
        else ack_entry ''Taken'' ''DequeueBatchWithAckIds'' ''q.DequeueBatchWithAckIds(items, ackIDs)''),
       ack_entry ''Running'' ''fn(job)'' ''process(job)'',
       ack_entry ''Returned'' ''not acknowledged'' ''job.Close()  // calls q.Acknowledge(ackID) next'',
       ack_entry ''Acknowledged'' ''Acknowledge'' ''q.Acknowledge("ack-7")  // true: the storage drops job 7''])\<close>

section \<open>The scene's state\<close>

record AckState =
  ak_mode :: AckMode
  ak_stage :: nat
  ak_down :: bool
  ak_crashStage :: int
  ak_orphan :: bool
  ak_lost :: bool
  ak_othersLost :: bool
  ak_started :: nat
  ak_msg :: string

definition ack_fresh :: "AckMode \<Rightarrow> AckState" where
  "ack_fresh mode = \<lparr>ak_mode = mode, ak_stage = 0, ak_down = False, ak_crashStage = -1, ak_orphan = False, ak_lost = False,
    ak_othersLost = False, ak_started = 0, ak_msg = ''Press Step to move job 7 along, and Kill the process at any step.''\<rparr>"

definition ack_persistent :: "AckState \<Rightarrow> bool" where
  "ack_persistent s \<longleftrightarrow> ak_mode s \<noteq> Ack_memory"

definition ack_last :: "AckState \<Rightarrow> nat" where
  "ack_last s = length (stepsOf (ak_mode s)) - 1"

definition ack_again :: "AckState \<Rightarrow> string" where
  "ack_again s = (if ak_crashStage s \<ge> 2 then '' Its function will run a second time.'' else '' Its function has not run yet.'')"

section \<open>What the render shows\<close>


definition ack_memory_ids :: "AckState \<Rightarrow> nat list" where
  "ack_memory_ids s = (if ak_othersLost s then []
     else (if ak_stage s = 0 \<and> (\<not> ak_lost s \<or> ak_down s) then [7] else []) @ [8, 9, 10])"



definition ack_dropped :: "AckState \<Rightarrow> bool" where
  "ack_dropped s \<longleftrightarrow> ak_stage s = 4"

definition ack_call :: "AckState \<Rightarrow> string" where
  "ack_call s = (if \<not> ak_down s then as_call (stepsOf (ak_mode s) ! ak_stage s)
     else if \<not> ack_persistent s then ''// the process died, and its memory with it''
     else if ak_stage s = 4 then ''// the process died after Acknowledge''
     else ''// the process died before Acknowledge reached the storage'')"

datatype AckAct = Ack_step | Ack_kill | Ack_restart | Ack_wait | Ack_lose | Ack_reset

text \<open>A button that is disabled or hidden cannot be pressed.\<close>

fun ack_off :: "AckState \<Rightarrow> AckAct \<Rightarrow> bool" where
  "ack_off s Ack_step = (ak_down s \<or> ak_stage s \<ge> ack_last s \<or> ak_orphan s \<or> ak_lost s)"
| "ack_off s Ack_kill = ak_down s"
| "ack_off s Ack_restart = (\<not> ak_down s)"
| "ack_off s Ack_wait = (\<not> (ak_orphan s \<and> \<not> ak_down s \<and> ak_mode s \<noteq> Ack_sqlite))"
| "ack_off s Ack_lose = (\<not> (ak_orphan s \<and> \<not> ak_down s \<and> ak_mode s = Ack_own))"
| "ack_off s Ack_reset = False"

section \<open>Handlers\<close>

definition ack_step :: "AckState \<Rightarrow> AckState" where
  "ack_step s0 =
    (if ack_off s0 Ack_step then s0
     else (let s = s0\<lparr>ak_stage := ak_stage s0 + 1\<rparr> in
       if ak_stage s = 1
       then s\<lparr>ak_msg := (if ack_persistent s then ''The storage hands out job 7 with ack-7 and marks it taken.''
          else ''The worker takes job 7 from memory. Nothing outside the process records it.'')\<rparr>
       else if ak_stage s = 2
       then s\<lparr>ak_started := ak_started s + 1,
          ak_msg := (if ak_started s + 1 \<ge> 2 then ''Job 7 runs a second time.'' else ''Your function runs job 7.'')\<rparr>
       else if ak_stage s = 3
       then s\<lparr>ak_msg := (if ack_persistent s then ''The function returned. Acknowledge has not reached the storage yet.''
          else ''The function returned and the worker closes job 7.'')\<rparr>
       else s\<lparr>ak_msg := ''Acknowledge(ack-7) returned true. The storage drops job 7.''\<rparr>))"

definition ack_kill_msgs :: "string list" where
  "ack_kill_msgs = [''The process died. Jobs 7, 8, 9 and 10 wait in storage.'',
    ''The process died after taking job 7. The storage holds it as taken, not acknowledged.'',
    ''The process died while job 7 ran. It is taken, not acknowledged.'',
    ''The process died after the function returned. Job 7 ran, but it is not acknowledged.'',
    ''The process died after the acknowledgement. Nothing is lost.'']"

definition ack_kill :: "AckState \<Rightarrow> AckState" where
  "ack_kill s0 =
    (if ak_down s0 then s0
     else (let s = s0\<lparr>ak_down := True, ak_crashStage := int (ak_stage s0)\<rparr> in
       if \<not> ack_persistent s
       then s\<lparr>ak_lost := ak_stage s < 3,
          ak_msg := (if ak_stage s < 3 then ''The process died. The queue was in memory: jobs 7, 8, 9 and 10 are lost.''
             else ''The process died. Job 7 had finished, but 8, 9 and 10 were in memory and are lost.'')\<rparr>
       else s\<lparr>ak_orphan := 1 \<le> ak_stage s \<and> ak_stage s \<le> 3, ak_msg := ack_kill_msgs ! ak_stage s\<rparr>))"

definition ack_restart :: "AckState \<Rightarrow> AckState" where
  "ack_restart s0 =
    (if \<not> ak_down s0 then s0
     else (let s = s0\<lparr>ak_down := False\<rparr> in
       if \<not> ack_persistent s
       then s\<lparr>ak_stage := 0, ak_lost := True, ak_othersLost := True,
          ak_msg := ''The process is back with an empty queue. Nothing survived.''\<rparr>
       else if ak_orphan s
       then (if ak_mode s = Ack_sqlite
          then s\<lparr>ak_orphan := False, ak_stage := 0,
            ak_msg := ''sqliteq opens the queue and sets every processing row back to pending. Job 7 is at the front.'' @ ack_again s\<rparr>
          else if ak_mode s = Ack_redis
          then s\<lparr>ak_msg := ''redisq keeps job 7 in jobs:nacked until the program has run 30 s in all, or until the 5-minute deadline.''\<rparr>
          else s\<lparr>ak_msg := ''VarMQ cannot bring job 7 back. Your adapter decides when, or whether, to hand it out again.''\<rparr>)
       else s\<lparr>ak_msg := ''The process is back and starts on the jobs in storage.''\<rparr>))"

definition ack_wait :: "AckState \<Rightarrow> AckState" where
  "ack_wait s =
    (if \<not> ak_orphan s then s
     else s\<lparr>ak_orphan := False, ak_stage := 0,
       ak_msg := (if ak_mode s = Ack_redis then ''redisq puts job 7 back at the front of the queue.''
          else ''Your adapter hands job 7 out again.'') @ ack_again s\<rparr>)"

definition ack_lose :: "AckState \<Rightarrow> AckState" where
  "ack_lose s =
    (if \<not> ak_orphan s then s
     else s\<lparr>ak_orphan := False, ak_lost := True, ak_stage := 0,
       ak_msg := ''Your adapter never hands job 7 out again. It is lost, and VarMQ does not retry it.''\<rparr>)"

text \<open>The click handler: a press of a button that is off does nothing.\<close>

definition ack_click :: "AckAct \<Rightarrow> AckState \<Rightarrow> AckState" where
  "ack_click a s =
    (if ack_off s a then s
     else case a of Ack_step \<Rightarrow> ack_step s | Ack_kill \<Rightarrow> ack_kill s | Ack_restart \<Rightarrow> ack_restart s | Ack_wait \<Rightarrow> ack_wait s
       | Ack_lose \<Rightarrow> ack_lose s | Ack_reset \<Rightarrow> ack_fresh (ak_mode s))"

lemmas ack_defs = ack_step_def ack_kill_def ack_restart_def ack_wait_def ack_lose_def ack_fresh_def ack_persistent_def ack_last_def

section \<open>Reachable scenes\<close>

text \<open>The scene opens on Redis; a click on a button and a change of tab follow in any order.\<close>

inductive ack_reachable :: "AckState \<Rightarrow> bool" where
  ack_open: "ack_reachable (ack_fresh Ack_redis)"
| ack_press: "ack_reachable s \<Longrightarrow> ack_reachable (ack_click a s)"
| ack_tab: "ack_reachable s \<Longrightarrow> ack_reachable (ack_fresh mode)"

inductive_cases ack_reachableE: "ack_reachable s"

text \<open>How far a mode's steps go.\<close>

lemma steps_count [simp]: "length (stepsOf mode) = (if mode = Ack_memory then 4 else 5)"
  by (simp add: stepsOf_def)

text \<open>
  The invariant. The storage's view: job 7 is an orphan exactly from a crash between the take and the acknowledgement until it is
  handed out again or given up, and only an adapter of one's own gives up. The memory's view: nothing is an orphan, and after a
  crash only what had finished is not lost.
\<close>

definition ack_inv :: "AckState \<Rightarrow> bool" where
  "ack_inv s \<longleftrightarrow> ak_stage s \<le> ack_last s \<and> (2 \<le> ak_stage s \<longrightarrow> 1 \<le> ak_started s)
    \<and> (ak_crashStage s = -1 \<longrightarrow> \<not> ak_down s \<and> \<not> ak_orphan s \<and> \<not> ak_lost s \<and> \<not> ak_othersLost s \<and> ak_started s = (if 2 \<le> ak_stage s then 1 else 0))
    \<and> (if ack_persistent s
       then \<not> ak_othersLost s \<and> (ak_orphan s \<longrightarrow> 1 \<le> ak_stage s \<and> ak_stage s \<le> 3) \<and> (ak_down s \<and> 1 \<le> ak_stage s \<and> ak_stage s \<le> 3 \<longrightarrow> ak_orphan s)
         \<and> (ak_orphan s \<and> \<not> ak_down s \<longrightarrow> ak_mode s \<noteq> Ack_sqlite) \<and> (ak_lost s \<longrightarrow> ak_mode s = Ack_own \<and> ak_stage s = 0)
       else \<not> ak_orphan s \<and> (ak_down s \<longrightarrow> ak_lost s = (ak_stage s < 3)) \<and> (\<not> ak_down s \<longrightarrow> ak_lost s = (ak_crashStage s \<noteq> -1) \<and> ak_othersLost s = (ak_crashStage s \<noteq> -1)))"

lemma ack_inv_fresh: "ack_inv (ack_fresh mode)"
  by (auto simp: ack_inv_def ack_defs)

text \<open>What each handler does to the fields, its message apart.\<close>

lemma ack_step_fields:
  "ak_mode (ack_step s) = ak_mode s" "ak_down (ack_step s) = ak_down s" "ak_crashStage (ack_step s) = ak_crashStage s"
  "ak_orphan (ack_step s) = ak_orphan s" "ak_lost (ack_step s) = ak_lost s" "ak_othersLost (ack_step s) = ak_othersLost s"
  "\<not> ack_off s Ack_step \<Longrightarrow> ak_stage (ack_step s) = ak_stage s + 1"
  "\<not> ack_off s Ack_step \<Longrightarrow> ak_started (ack_step s) = (if ak_stage s = 1 then ak_started s + 1 else ak_started s)"
  by (simp_all add: ack_step_def Let_def del: ack_off.simps)

lemma ack_kill_fields:
  "ak_mode (ack_kill s) = ak_mode s" "ak_stage (ack_kill s) = ak_stage s" "ak_othersLost (ack_kill s) = ak_othersLost s"
  "ak_started (ack_kill s) = ak_started s" "ak_down (ack_kill s)"
  "\<not> ak_down s \<Longrightarrow> ak_crashStage (ack_kill s) = int (ak_stage s)"
  "\<not> ak_down s \<Longrightarrow> ak_lost (ack_kill s) = (if ack_persistent s then ak_lost s else ak_stage s < 3)"
  "\<not> ak_down s \<Longrightarrow> ak_orphan (ack_kill s) = (if ack_persistent s then 1 \<le> ak_stage s \<and> ak_stage s \<le> 3 else ak_orphan s)"
  by (simp_all add: ack_kill_def Let_def ack_persistent_def)

lemma ack_restart_fields:
  "ak_mode (ack_restart s) = ak_mode s" "ak_crashStage (ack_restart s) = ak_crashStage s" "ak_started (ack_restart s) = ak_started s"
  "\<not> ak_down (ack_restart s)"
  "ak_down s \<Longrightarrow> ak_stage (ack_restart s) = (if ack_persistent s \<and> \<not> (ak_orphan s \<and> ak_mode s = Ack_sqlite) then ak_stage s else 0)"
  "ak_down s \<Longrightarrow> ak_lost (ack_restart s) = (ack_persistent s \<longrightarrow> ak_lost s)"
  "ak_down s \<Longrightarrow> ak_othersLost (ack_restart s) = (ack_persistent s \<longrightarrow> ak_othersLost s)"
  "ak_down s \<Longrightarrow> ak_orphan (ack_restart s) = (ak_orphan s \<and> \<not> (ack_persistent s \<and> ak_mode s = Ack_sqlite))"
  by (simp_all add: ack_restart_def Let_def ack_persistent_def)

lemma ack_wait_fields:
  assumes "ak_orphan s"
  shows "ak_mode (ack_wait s) = ak_mode s" "ak_stage (ack_wait s) = 0" "ak_down (ack_wait s) = ak_down s" "ak_crashStage (ack_wait s) = ak_crashStage s"
    "\<not> ak_orphan (ack_wait s)" "ak_lost (ack_wait s) = ak_lost s" "ak_othersLost (ack_wait s) = ak_othersLost s" "ak_started (ack_wait s) = ak_started s"
  using assms by (simp_all add: ack_wait_def)

lemma ack_lose_fields:
  assumes "ak_orphan s"
  shows "ak_mode (ack_lose s) = ak_mode s" "ak_stage (ack_lose s) = 0" "ak_down (ack_lose s) = ak_down s" "ak_crashStage (ack_lose s) = ak_crashStage s"
    "\<not> ak_orphan (ack_lose s)" "ak_lost (ack_lose s)" "ak_othersLost (ack_lose s) = ak_othersLost s" "ak_started (ack_lose s) = ak_started s"
  using assms by (simp_all add: ack_lose_def)

lemmas ack_fields = ack_step_fields ack_kill_fields ack_restart_fields ack_wait_fields ack_lose_fields

lemmas ack_inv_simps = ack_inv_def ack_persistent_def ack_last_def

lemma ack_inv_step:
  assumes "ack_inv s" "\<not> ack_off s Ack_step"
  shows "ack_inv (ack_step s)"
proof -
  note f = ack_step_fields(1-6) ack_step_fields(7,8)[OF assms(2)]
  have "ak_stage s < ack_last s" "\<not> ak_down s" "\<not> ak_orphan s" "\<not> ak_lost s" using assms(2) by auto
  moreover have "ak_started s = (if 2 \<le> ak_stage s then 1 else 0)" if "ak_crashStage s = -1" using assms(1) that by (simp add: ack_inv_def)
  ultimately show ?thesis using assms(1) unfolding ack_inv_simps f by (cases "ak_mode s = Ack_memory") auto
qed

lemma ack_inv_kill:
  assumes "ack_inv s" "\<not> ak_down s"
  shows "ack_inv (ack_kill s)"
proof -
  note f = ack_kill_fields(1-5) ack_kill_fields(6-8)[OF assms(2)]
  show ?thesis using assms unfolding ack_inv_simps f by (cases "ak_mode s = Ack_memory") (simp_all add: f)
qed

lemma ack_inv_restart:
  assumes "ack_inv s" "ak_down s"
  shows "ack_inv (ack_restart s)"
proof -
  note f = ack_restart_fields(1-4) ack_restart_fields(5-8)[OF assms(2)]
  show ?thesis using assms unfolding ack_inv_simps f by (cases "ak_mode s"; cases "ak_orphan s") (simp_all add: f)
qed

lemma ack_inv_back:
  assumes "ack_inv s" "ak_orphan s"
  shows "ack_inv (ack_wait s)" "\<not> ak_down s \<Longrightarrow> ak_mode s = Ack_own \<Longrightarrow> ack_inv (ack_lose s)"
  using assms unfolding ack_inv_simps ack_wait_fields[OF assms(2)] ack_lose_fields[OF assms(2)] 
  by (auto simp: ack_wait_fields[OF assms(2)] ack_lose_fields[OF assms(2)] split: if_splits)

lemma ack_inv_click: "ack_inv s \<Longrightarrow> ack_inv (ack_click a s)"
  unfolding ack_click_def
  by (cases a) (simp_all add: ack_inv_fresh ack_inv_kill ack_inv_restart ack_inv_back, use ack_inv_step in auto)

lemma ack_reachable_inv: "ack_reachable s \<Longrightarrow> ack_inv s"
  by (induction rule: ack_reachable.induct) (simp_all add: ack_inv_fresh ack_inv_click)

interpretation ack_scene: scene "\<lambda>s. \<exists>mode. s = ack_fresh mode" "\<lambda>a s. Some (ack_click a s)" ack_inv
  by unfold_locales (auto simp: ack_inv_fresh intro: ack_inv_click)

lemma ack_store:
  assumes "ack_inv s" "ack_persistent s"
  shows "ak_stage s \<le> 4" "\<not> ak_othersLost s" "ak_orphan s \<Longrightarrow> 1 \<le> ak_stage s \<and> ak_stage s \<le> 3" "ak_lost s \<Longrightarrow> ak_stage s = 0"
    "ak_lost s \<Longrightarrow> ak_mode s = Ack_own" "2 \<le> ak_stage s \<Longrightarrow> 1 \<le> ak_started s" "ak_crashStage s = -1 \<Longrightarrow> 2 \<le> ak_stage s \<Longrightarrow> ak_started s = 1"
    "ak_orphan s \<Longrightarrow> \<not> ak_down s \<Longrightarrow> ak_mode s \<noteq> Ack_sqlite"
  using assms by (simp_all add: ack_inv_simps)

section \<open>What the scene shows\<close>


lemma ack_clicks_reachable: "ack_reachable s \<Longrightarrow> ack_reachable (fold ack_click as s)"
  by (induction "as" arbitrary: s) (auto intro: ack_press)


text \<open>The button to press to go on: Restart for a dead process, Run for 30 seconds or Hand it out again for an orphan, Step otherwise.\<close>

definition ack_offer :: "AckState \<Rightarrow> AckAct" where
  "ack_offer s = (if ak_down s then Ack_restart else if ak_orphan s then Ack_wait else Ack_step)"

definition ack_go :: "AckState \<Rightarrow> AckState" where
  "ack_go s = ack_click (ack_offer s) s"

text \<open>How many presses the job is from its acknowledgement.\<close>

definition ack_left :: "AckState \<Rightarrow> nat" where
  "ack_left s = (if ak_down s then 1 else 0) + (if ak_orphan s \<and> \<not> (ak_down s \<and> ak_mode s = Ack_sqlite) then 1 else 0)
     + (if ak_orphan s then 4 else 4 - ak_stage s)"

definition ack_live :: "AckState \<Rightarrow> bool" where
  "ack_live s \<longleftrightarrow> ack_inv s \<and> ack_persistent s \<and> \<not> ak_lost s"

lemma ack_go_cases:
  assumes "ack_live s" "ack_left s \<noteq> 0"
  shows "\<not> ack_off s (ack_offer s)"
proof -
  have "ak_orphan s \<Longrightarrow> \<not> ak_down s \<Longrightarrow> ak_mode s \<noteq> Ack_sqlite" "ack_last s = 4" "\<not> ak_lost s"
    using assms(1) ack_store(8)[of s] by (auto simp: ack_live_def ack_persistent_def ack_last_def)
  with assms(2) show ?thesis by (cases "ak_down s"; cases "ak_orphan s") (simp_all add: ack_offer_def ack_left_def)
qed

lemma ack_go_live:
  assumes "ack_live s"
  shows "ack_live (ack_go s)"
proof -
  have "ack_inv (ack_go s)" using assms unfolding ack_live_def ack_go_def by (blast intro: ack_inv_click)
  moreover have "ak_mode (ack_go s) = ak_mode s" "ak_lost (ack_go s) = ak_lost s"
    using assms unfolding ack_go_def ack_click_def ack_offer_def ack_live_def
    by (auto simp: ack_step_fields ack_restart_fields ack_wait_fields split: if_splits)
  ultimately show ?thesis using assms unfolding ack_live_def ack_persistent_def by simp
qed

lemma ack_go_nearer:
  assumes "ack_live s"
  shows "ack_left (ack_go s) = ack_left s - 1"
proof (cases "ack_left s = 0")
  case True
  then have "\<not> ak_down s" "\<not> ak_orphan s" "ak_stage s \<ge> 4" by (auto simp: ack_left_def split: if_splits)
  then have "ack_go s = s" using assms by (simp add: ack_go_def ack_click_def ack_offer_def ack_live_def ack_inv_simps)
  then show ?thesis using True by simp
next
  case False
  note on = ack_go_cases[OF assms False]
  show ?thesis
  proof (cases "ak_down s \<or> ak_orphan s")
    case True
    then show ?thesis using assms on
      by (cases "ak_down s"; cases "ak_orphan s"; cases "ak_mode s = Ack_sqlite")
        (simp_all add: ack_go_def ack_offer_def ack_click_def ack_left_def ack_restart_fields ack_wait_fields ack_live_def ack_persistent_def)
  next
    case f: False
    then have o: "ack_offer s = Ack_step" by (simp add: ack_offer_def)
    have "ack_go s = ack_step s" using on unfolding o ack_go_def ack_click_def by simp
    then show ?thesis using f ack_step_fields(2,4)[of s] ack_step_fields(7)[OF on[unfolded o]] by (simp add: ack_left_def)
  qed
qed

lemma ack_go_many: "ack_live s \<Longrightarrow> ack_live ((ack_go ^^ n) s) \<and> ack_left ((ack_go ^^ n) s) = ack_left s - n"
  by (induction n) (auto simp: ack_go_live ack_go_nearer)

text \<open>
  The crash test always goes on: from every state it can reach with a store, with job 7 not lost, pressing Restart, Run for
  30 seconds or Hand it out again, or Step, whichever is offered, six times at most, acknowledges the job in a process that is up.
\<close>
theorem ack_job_is_acknowledged:
  assumes "ack_reachable s" "ack_persistent s" "\<not> ak_lost s"
  shows "ack_dropped ((ack_go ^^ 6) s) \<and> \<not> ak_down ((ack_go ^^ 6) s)"
proof -
  have live: "ack_live s" using assms by (simp add: ack_live_def ack_reachable_inv)
  have "ack_left s \<le> 1 + 1 + 4" unfolding ack_left_def by (intro add_mono) auto
  with ack_go_many[OF live, of 6] have "ack_live ((ack_go ^^ 6) s)" "ack_left ((ack_go ^^ 6) s) = 0" by auto
  moreover from this have "ak_stage ((ack_go ^^ 6) s) \<le> 4" unfolding ack_live_def by (intro ack_store(1)) auto
  ultimately show ?thesis by (auto simp: ack_left_def ack_dropped_def split: if_splits)
qed

theorem ack_job_is_acknowledged_witness:
  "ack_dropped ((ack_go ^^ 6) (fold ack_click [Ack_step, Ack_kill] (ack_fresh Ack_redis)))"
proof -
  have "ack_persistent (fold ack_click [Ack_step, Ack_kill] (ack_fresh Ack_redis))" "\<not> ak_lost (fold ack_click [Ack_step, Ack_kill] (ack_fresh Ack_redis))"
    by code_simp+
  from ack_job_is_acknowledged[OF ack_clicks_reachable[OF ack_open] this] show ?thesis by (rule conjunct1)
qed

section \<open>Messages that miss the run\<close>

text \<open>
  The scene's sentence on a job that comes back looks at the last crash only: after a run that a crash cut short, and a second
  crash just after the take, it says that the function has not run yet, and it has.
\<close>

lemma ack_again_forgets_a_run:
  "(let s = fold ack_click [Ack_step, Ack_step, Ack_kill, Ack_restart, Ack_step, Ack_kill, Ack_restart] (ack_fresh Ack_sqlite) in
     ak_started s = 1 \<and> ack_again s = '' Its function has not run yet.'')"
  by code_simp

text \<open>A job an adapter has lost is counted among those that wait in storage when the process dies again.\<close>

lemma ack_kill_counts_lost_job:
  "(let s = fold ack_click [Ack_step, Ack_kill, Ack_restart, Ack_lose, Ack_kill] (ack_fresh Ack_own) in
     ak_lost s \<and> ak_msg s = ''The process died. Jobs 7, 8, 9 and 10 wait in storage.'')"
  by code_simp

end
