(* ===== verification/Sqlite_Scene.thy ===== *)
theory Sqlite_Scene
  imports Prelude Scene
begin

text \<open>
  \<open>docs/src/components/ops/sqliteflow.ts\<close>: the SQLite scene of the persistence pages, four rows of a queue's table and a process
  that takes, acknowledges, dies and restarts, with a second process that opens the same file. The state, the click handler with
  the buttons' disabled and hidden rules of the last render, the call strip and the tally are modelled; the elements drawn are
  not. The multiplication sign of the tally is its two UTF-8 bytes.
\<close>

section \<open>Data\<close>

datatype RowStatus = Pending | Processing | Completed

record SfRow =
  rw_id :: nat
  rw_status :: RowStatus

record SfState =
  sf_rows :: "SfRow list"
  sf_inflight :: "nat option"
  sf_down :: bool
  sf_runs :: "nat \<rightharpoonup> nat"
  sf_msg :: string

fun status_name :: "RowStatus \<Rightarrow> string" where
  "status_name Pending = ''pending''"
| "status_name Processing = ''processing''"
| "status_name Completed = ''completed''"

definition sf_fresh :: SfState where
  "sf_fresh = \<lparr>sf_rows = map (\<lambda>j. \<lparr>rw_id = j, rw_status = Pending\<rparr>) [7, 8, 9, 10], sf_inflight = None, sf_down = False, sf_runs = Map.empty,
     sf_msg = ''Four jobs are pending. Press Take a job to see the one statement that claims a row.''\<rparr>"

section \<open>What the render shows\<close>

definition sf_some :: "RowStatus \<Rightarrow> SfState \<Rightarrow> bool" where
  "sf_some st s \<longleftrightarrow> list_ex (\<lambda>r. rw_status r = st) (sf_rows s)"

datatype SfAct = Sf_take | Sf_ack | Sf_kill | Sf_restart | Sf_second | Sf_reset

fun sf_off :: "SfState \<Rightarrow> SfAct \<Rightarrow> bool" where
  "sf_off s Sf_take = (sf_down s \<or> sf_inflight s \<noteq> None \<or> \<not> sf_some Pending s)"
| "sf_off s Sf_ack = (sf_down s \<or> sf_inflight s = None)"
| "sf_off s Sf_kill = sf_down s"
| "sf_off s Sf_restart = (\<not> sf_down s)"
| "sf_off s Sf_second = (\<not> sf_some Processing s \<and> sf_inflight s = None)"
| "sf_off s Sf_reset = False"

definition sf_call :: \<open>SfState \<Rightarrow> string\<close> where
  \<open>sf_call s = (if sf_down s then ''// the process died: the row is still processing''
     else if sf_inflight s = None then ''pq, err := sdb.NewQueue("jobs")  // resets processing rows, once per queue in this process''
     else ''// one statement turns the row into processing'')\<close>

text \<open>\<open>Object.entries\<close> of an object with integer keys lists them in ascending order; only rows' numbers are keys.\<close>

definition sf_tally :: "SfState \<Rightarrow> string" where
  "sf_tally s = join_with '', '' (map (\<lambda>j. ''job '' @ string_of_nat j @ '' started '' @ string_of_nat (the (sf_runs s j)) @ [CHR 0xC3, CHR 0x97])
     (filter (\<lambda>j. sf_runs s j \<noteq> None) [7, 8, 9, 10]))"

section \<open>The click handler\<close>

definition set_status :: "nat \<Rightarrow> RowStatus \<Rightarrow> SfRow list \<Rightarrow> SfRow list" where
  "set_status j st rows = (case find_index (\<lambda>r. rw_id r = j) rows of None \<Rightarrow> rows | Some i \<Rightarrow> rows[i := (rows ! i)\<lparr>rw_status := st\<rparr>])"

definition rowOf :: "nat \<Rightarrow> SfState \<Rightarrow> SfRow option" where
  "rowOf j s = find (\<lambda>r. rw_id r = j) (sf_rows s)"

text \<open>The first pending row; the source takes it without a test (\<open>find(...)!\<close>), so its absence is an error, \<open>None\<close>.\<close>

definition sf_take :: "SfState \<Rightarrow> SfState option" where
  "sf_take s = (case find_index (\<lambda>r. rw_status r = Pending) (sf_rows s) of None \<Rightarrow> None
    | Some i \<Rightarrow> (let r = sf_rows s ! i; j = rw_id r in
       Some (s\<lparr>sf_rows := (sf_rows s)[i := r\<lparr>rw_status := Processing\<rparr>], sf_inflight := Some j,
         sf_runs := (sf_runs s)(j \<mapsto> (case sf_runs s j of None \<Rightarrow> 0 | Some n \<Rightarrow> n) + 1),
         sf_msg := ''One statement turned the row of job '' @ string_of_nat j @ '' from pending into processing. A worker with only this queue claims as many rows as it has free slots in one statement.''\<rparr>)))"

definition sf_ack_false :: "nat \<Rightarrow> SfRow option \<Rightarrow> string" where
  "sf_ack_false j r = ''Acknowledge returned false: it only matches a row that is processing, and the row of job '' @ string_of_nat j
     @ '' is '' @ (case r of Some x \<Rightarrow> status_name (rw_status x) | None \<Rightarrow> ''gone'')
     @ ''. The worker reports ErrAcknowledgeJob on Errs(). The function had already run.''"

definition sf_ack :: "bool \<Rightarrow> SfState \<Rightarrow> SfState option" where
  "sf_ack keep s = (case sf_inflight s of None \<Rightarrow> None
    | Some j \<Rightarrow> Some (
       if (case rowOf j s of Some r \<Rightarrow> rw_status r = Processing | None \<Rightarrow> False)
       then (if keep
         then s\<lparr>sf_rows := set_status j Completed (sf_rows s), sf_inflight := None,
           sf_msg := ''Acknowledge marked the row of job '' @ string_of_nat j @ '' as completed, because you keep completed rows. The ID of a completed row still blocks a repeat Add with the same ID.''\<rparr>
         else s\<lparr>sf_rows := filter (\<lambda>x. rw_id x \<noteq> j) (sf_rows s), sf_inflight := None,
           sf_msg := ''Acknowledge deleted the row of job '' @ string_of_nat j @ ''. Once the row is gone, the ID can be added again.''\<rparr>)
       else s\<lparr>sf_inflight := None, sf_msg := sf_ack_false j (rowOf j s)\<rparr>))"

definition sf_kill :: "SfState \<Rightarrow> SfState" where
  "sf_kill s = s\<lparr>sf_down := True,
     sf_msg := (case sf_inflight s of None \<Rightarrow> ''The process died while no job was running. The rows are as they were.''
       | Some j \<Rightarrow> ''The process died. The row of job '' @ string_of_nat j @ '' is still processing in the file.'')\<rparr>"

definition sf_reopen :: "SfRow list \<Rightarrow> SfRow list \<times> nat" where
  "sf_reopen rows = (map (\<lambda>r. if rw_status r = Processing then r\<lparr>rw_status := Pending\<rparr> else r) rows, length (filter (\<lambda>r. rw_status r = Processing) rows))"

definition sf_restart :: "SfState \<Rightarrow> SfState" where
  "sf_restart s =
    (let (rows, back) = sf_reopen (sf_rows s) in
     s\<lparr>sf_down := False, sf_inflight := None, sf_rows := rows,
       sf_msg := (if back \<noteq> 0
         then ''The program opened the queue. sqliteq set '' @ (if back = 1 then ''the processing row'' else ''every processing row'')
           @ '' back to pending, once, as the first process that opens this queue. There is no timeout. Job ''
           @ (case find (\<lambda>r. rw_status r = Pending) rows of Some r \<Rightarrow> string_of_nat (rw_id r) | None \<Rightarrow> ''undefined'') @ '' will run again.''
         else ''The program opened the queue. No row was processing.'')\<rparr>)"

definition sf_second :: "SfState \<Rightarrow> SfState" where
  "sf_second s =
    (let (rows, back) = sf_reopen (sf_rows s) in
     s\<lparr>sf_rows := rows,
       sf_msg := (if sf_inflight s \<noteq> None \<and> \<not> sf_down s
         then ''A second process opened the queue on the same file. sqliteq cannot tell which process took a row, so it set job ''
           @ string_of_nat (the (sf_inflight s)) @ '' back to pending while process 1 still runs it. Another worker can take it, and it runs twice. Use one process for each database file.''
         else if back \<noteq> 0 then ''A process opened the queue and set the processing rows back to pending.''
         else ''A process opened the queue. No row was processing.'')\<rparr>)"

text \<open>A click, with the state of the checkbox that keeps completed rows.\<close>

definition sf_click :: "SfAct \<times> bool \<Rightarrow> SfState \<Rightarrow> SfState option" where
  "sf_click a s =
    (if sf_off s (fst a) then Some s
     else case fst a of Sf_take \<Rightarrow> sf_take s | Sf_ack \<Rightarrow> sf_ack (snd a) s | Sf_kill \<Rightarrow> Some (sf_kill s) | Sf_restart \<Rightarrow> Some (sf_restart s)
       | Sf_second \<Rightarrow> Some (sf_second s) | Sf_reset \<Rightarrow> Some sf_fresh)"

section \<open>Reachable scenes\<close>

text \<open>The scenes reached with the buttons of a set.\<close>

inductive sf_reachable :: "SfAct set \<Rightarrow> SfState \<Rightarrow> bool" for acts where
  sf_open: "sf_reachable acts sf_fresh"
| sf_press: "sf_reachable acts s \<Longrightarrow> fst a \<in> acts \<Longrightarrow> sf_click a s = Some s' \<Longrightarrow> sf_reachable acts s'"

definition sf_jobs :: "nat set" where "sf_jobs = set (map rw_id (sf_rows sf_fresh))"

definition started :: "SfState \<Rightarrow> nat \<Rightarrow> bool" where
  "started s j \<longleftrightarrow> (case sf_runs s j of Some n \<Rightarrow> 0 < n | None \<Rightarrow> False)"

text \<open>
  The table: rows in the order of their jobs, a processing row is the running job's, a job that has no pending row and the running
  job have been started, and no row before a processing one is pending.
\<close>

definition sf_inv :: "SfState \<Rightarrow> bool" where
  "sf_inv s \<longleftrightarrow> sorted_wrt (<) (map rw_id (sf_rows s)) \<and> set (map rw_id (sf_rows s)) \<subseteq> sf_jobs
     \<and> (\<forall>r \<in> set (sf_rows s). rw_status r = Processing \<longrightarrow> sf_inflight s = Some (rw_id r))
     \<and> (\<forall>j \<in> sf_jobs. started s j \<or> (\<exists>r \<in> set (sf_rows s). rw_id r = j \<and> rw_status r = Pending))
     \<and> (\<forall>j. sf_inflight s = Some j \<longrightarrow> started s j)
     \<and> (\<forall>a \<in> set (sf_rows s). \<forall>b \<in> set (sf_rows s). rw_id a < rw_id b \<and> rw_status b = Processing \<longrightarrow> rw_status a \<noteq> Pending)"

lemma sf_invD:
  assumes "sf_inv s"
  shows "distinct (map rw_id (sf_rows s))" "sorted_wrt (<) (map rw_id (sf_rows s))" "r \<in> set (sf_rows s) \<Longrightarrow> rw_id r \<in> sf_jobs"
    "r \<in> set (sf_rows s) \<Longrightarrow> rw_status r = Processing \<Longrightarrow> sf_inflight s = Some (rw_id r)"
    "j \<in> sf_jobs \<Longrightarrow> \<not> started s j \<Longrightarrow> \<exists>r \<in> set (sf_rows s). rw_id r = j \<and> rw_status r = Pending"
    "sf_inflight s = Some j \<Longrightarrow> started s j"
    "a \<in> set (sf_rows s) \<Longrightarrow> b \<in> set (sf_rows s) \<Longrightarrow> rw_id a < rw_id b \<Longrightarrow> rw_status b = Processing \<Longrightarrow> rw_status a \<noteq> Pending"
  using assms unfolding sf_inv_def by (simp_all add: strict_sorted_iff) (blast+)?

lemma sf_invI:
  assumes "sorted_wrt (<) (map rw_id (sf_rows s))" "set (map rw_id (sf_rows s)) \<subseteq> sf_jobs"
    and "\<And>r. r \<in> set (sf_rows s) \<Longrightarrow> rw_status r = Processing \<Longrightarrow> sf_inflight s = Some (rw_id r)"
    and "\<And>j. j \<in> sf_jobs \<Longrightarrow> \<not> started s j \<Longrightarrow> \<exists>r \<in> set (sf_rows s). rw_id r = j \<and> rw_status r = Pending"
    and "\<And>j. sf_inflight s = Some j \<Longrightarrow> started s j"
    and "\<And>a b. a \<in> set (sf_rows s) \<Longrightarrow> b \<in> set (sf_rows s) \<Longrightarrow> rw_id a < rw_id b \<Longrightarrow> rw_status b = Processing \<Longrightarrow> rw_status a \<noteq> Pending"
  shows "sf_inv s"
  unfolding sf_inv_def by (intro conjI ballI allI impI) (use assms in blast)+

lemma sf_fresh_inv: "sf_inv sf_fresh"
  by (auto simp: sf_inv_def sf_jobs_def sf_fresh_def)

text \<open>A row's status changes as a map over the rows, whose ids are distinct.\<close>

definition with_status :: "nat \<Rightarrow> RowStatus \<Rightarrow> SfRow \<Rightarrow> SfRow" where
  "with_status j st r = (if rw_id r = j then r\<lparr>rw_status := st\<rparr> else r)"

lemma with_status_simps [simp]: "rw_id (with_status j st r) = rw_id r" "rw_status (with_status j st r) = (if rw_id r = j then st else rw_status r)"
  by (simp_all add: with_status_def)

lemma update_is_map:
  assumes "distinct (map rw_id rows)" "i < length rows" "rw_id (rows ! i) = j"
  shows "rows[i := (rows ! i)\<lparr>rw_status := st\<rparr>] = map (with_status j st) rows"
proof (rule nth_equalityI)
  fix k assume "k < length (rows[i := (rows ! i)\<lparr>rw_status := st\<rparr>])"
  then have "k < length rows" by simp
  then show "rows[i := (rows ! i)\<lparr>rw_status := st\<rparr>] ! k = map (with_status j st) rows ! k"
    using assms nth_eq_iff_index_eq[OF assms(1), of k i] by (auto simp: nth_list_update with_status_def)
qed simp

lemma set_status_is_map:
  assumes "distinct (map rw_id rows)"
  shows "set_status j st rows = map (with_status j st) rows"
proof (cases "find_index (\<lambda>r. rw_id r = j) rows")
  case None
  then have "map (with_status j st) rows = rows" by (intro map_idI) (simp add: with_status_def)
  then show ?thesis unfolding set_status_def None by simp
next
  case (Some i)
  then show ?thesis using find_index_SomeD[OF Some] update_is_map[OF assms, of i j] by (simp add: set_status_def)
qed

lemma rowOf_is:
  assumes "sf_inv s" "r \<in> set (sf_rows s)"
  shows "rowOf (rw_id r) s = Some r"
proof -
  obtain x where x: "rowOf (rw_id r) s = Some x" using assms(2) unfolding rowOf_def by (cases "find (\<lambda>x. rw_id x = rw_id r) (sf_rows s)") (auto simp: find_None_iff)
  then have "x \<in> set (sf_rows s)" "rw_id x = rw_id r" unfolding rowOf_def by (auto simp: find_Some_iff)
  then show ?thesis using x assms(2) sf_invD(1)[OF assms(1)] by (auto simp: distinct_map dest: inj_onD)
qed

lemma rowOf_SomeD: "rowOf j s = Some r \<Longrightarrow> r \<in> set (sf_rows s) \<and> rw_id r = j"
  unfolding rowOf_def by (auto simp: find_Some_iff)

section \<open>The invariant is kept\<close>

lemma map_status_ids: "map rw_id (map (with_status j st) rows) = map rw_id rows"
  by simp

lemma reopen_simps [simp]:
  "map rw_id (fst (sf_reopen rows)) = map rw_id rows" "snd (sf_reopen rows) = length (filter (\<lambda>r. rw_status r = Processing) rows)"
  by (simp_all add: sf_reopen_def)

lemma reopen_row: "r \<in> set (fst (sf_reopen rows)) \<longleftrightarrow>
    (\<exists>q \<in> set rows. rw_id r = rw_id q \<and> rw_status r = (if rw_status q = Processing then Pending else rw_status q))"
proof -
  have "(\<exists>q \<in> set rows. r = (if rw_status q = Processing then q\<lparr>rw_status := Pending\<rparr> else q)) \<longleftrightarrow>
      (\<exists>q \<in> set rows. rw_id r = rw_id q \<and> rw_status r = (if rw_status q = Processing then Pending else rw_status q))"
    by (intro bex_cong refl) (auto intro!: SfRow.equality)
  then show ?thesis by (auto simp: sf_reopen_def)
qed

lemma sf_reopen_inv:
  assumes "sf_inv s" "sf_rows s' = fst (sf_reopen (sf_rows s))" "sf_runs s' = sf_runs s" "sf_inflight s' = None \<or> sf_inflight s' = sf_inflight s"
  shows "sf_inv s'"
proof -
  have st: "started s' = started s" by (simp add: started_def assms(3) fun_eq_iff)
  have "\<exists>r \<in> set (sf_rows s'). rw_id r = j \<and> rw_status r = Pending" if j: "j \<in> sf_jobs" "\<not> started s' j" for j
  proof -
    obtain q where "q \<in> set (sf_rows s)" "rw_id q = j" "rw_status q = Pending" using sf_invD(5)[OF assms(1)] j unfolding st by blast
    then show ?thesis unfolding assms(2) sf_reopen_def by force
  qed
  moreover have "rw_status r \<noteq> Processing" if "r \<in> set (sf_rows s')" for r using that unfolding assms(2) reopen_row by (auto split: if_splits)
  moreover have "map rw_id (sf_rows s') = map rw_id (sf_rows s)" by (simp add: assms(2))
  moreover have "started s j" if "sf_inflight s' = Some j" for j using that assms(4) sf_invD(6)[OF assms(1)] by auto
  moreover have "sorted_wrt (<) (map rw_id (sf_rows s)) \<and> set (map rw_id (sf_rows s)) \<subseteq> sf_jobs" using assms(1) by (simp add: sf_inv_def)
  ultimately show ?thesis by (intro sf_invI) (simp_all add: st)
qed

lemma sf_take_inv:
  assumes "sf_inv s" "sf_take s = Some s'" "sf_inflight s = None"
  shows "sf_inv s'"
proof -
  obtain i where i: "find_index (\<lambda>r. rw_status r = Pending) (sf_rows s) = Some i" using assms(2) by (auto simp: sf_take_def split: option.splits)
  note first = find_index_SomeD[OF i]
  define j where "j = rw_id (sf_rows s ! i)"
  have s': "sf_rows s' = map (with_status j Processing) (sf_rows s)" "sf_inflight s' = Some j"
      "sf_runs s' = (sf_runs s)(j \<mapsto> (case sf_runs s j of None \<Rightarrow> 0 | Some n \<Rightarrow> n) + 1)"
    using assms(2) i update_is_map[OF sf_invD(1)[OF assms(1)], of i j] first by (auto simp: sf_take_def Let_def j_def)
  have st: "started s' k = (k = j \<or> started s k)" for k by (simp add: started_def s'(3) split: option.split)
  have none: "rw_status r \<noteq> Processing" if "r \<in> set (sf_rows s)" for r using sf_invD(4)[OF assms(1) that] assms(3) by auto
  have before: "rw_status r \<noteq> Pending" if r: "r \<in> set (sf_rows s)" "rw_id r < j" for r
  proof -
    obtain k where k: "k < length (sf_rows s)" "r = sf_rows s ! k" using r(1) by (auto simp: in_set_conv_nth)
    have "k < i"
    proof (rule ccontr)
      assume "\<not> k < i"
      then have "rw_id (sf_rows s ! i) \<le> rw_id (sf_rows s ! k)"
        using sorted_wrt_nth_less[OF sf_invD(2)[OF assms(1)], of i k] k(1) first by (cases "i = k") simp_all
      then show False using r(2) k(2) by (simp add: j_def)
    qed
    then show ?thesis using first k(2) by blast
  qed
  have "started s' k \<or> (\<exists>r \<in> set (sf_rows s'). rw_id r = k \<and> rw_status r = Pending)" if "k \<in> sf_jobs" for k
    using sf_invD(5)[OF assms(1) that] unfolding st s'(1) by auto
  moreover have "sorted_wrt (<) (map rw_id (sf_rows s'))" "set (map rw_id (sf_rows s')) \<subseteq> sf_jobs"
    using assms(1) unfolding sf_inv_def s'(1) map_status_ids by auto
  moreover have "rw_id r = j" if "r \<in> set (sf_rows s')" "rw_status r = Processing" for r
    using that none unfolding s'(1) by (auto split: if_splits)
  moreover have "rw_status a \<noteq> Pending" if "a \<in> set (sf_rows s')" "rw_id a < j" for a
    using that before unfolding s'(1) by auto
  ultimately show ?thesis by (intro sf_invI) (auto simp: st s'(2))
qed

lemma sf_ack_inv:
  assumes "sf_inv s" "sf_ack keep s = Some s'"
  shows "sf_inv s'"
proof -
  obtain j where j: "sf_inflight s = Some j" using assms(2) by (auto simp: sf_ack_def split: option.splits)
  note inv = sf_invD[OF assms(1)]
  have runs: "sf_runs s' = sf_runs s" and none: "sf_inflight s' = None" using assms(2) j by (auto simp: sf_ack_def split: if_splits)
  have st: "started s' = started s" by (simp add: started_def runs fun_eq_iff)
  have row: "rowOf j s = Some r" if "r \<in> set (sf_rows s)" "rw_id r = j" for r using rowOf_is[OF assms(1) that(1)] that(2) by simp
  consider "sf_rows s' = map (with_status j Completed) (sf_rows s)" | "sf_rows s' = filter (\<lambda>x. rw_id x \<noteq> j) (sf_rows s)"
    | "sf_rows s' = sf_rows s" "\<forall>r \<in> set (sf_rows s). rw_id r = j \<longrightarrow> rw_status r \<noteq> Processing"
  proof (cases "case rowOf j s of Some r \<Rightarrow> rw_status r = Processing | None \<Rightarrow> False")
    case True
    then show ?thesis using assms(2) j that(1,2) by (auto simp: sf_ack_def set_status_is_map[OF inv(1)] split: if_splits)
  next
    case False
    then have "\<forall>r \<in> set (sf_rows s). rw_id r = j \<longrightarrow> rw_status r \<noteq> Processing" using row by fastforce
    moreover have "sf_rows s' = sf_rows s" using assms(2) j False by (auto simp: sf_ack_def)
    ultimately show ?thesis using that(3) by blast
  qed
  then have rows: "sorted_wrt (<) (map rw_id (sf_rows s')) \<and> set (map rw_id (sf_rows s')) \<subseteq> sf_jobs
      \<and> (\<forall>r \<in> set (sf_rows s'). rw_status r \<noteq> Processing) \<and> (\<forall>r \<in> set (sf_rows s). rw_id r \<noteq> j \<longrightarrow> r \<in> set (sf_rows s'))" (is ?rows)
  proof cases
    case 1
    have ids: "map rw_id (sf_rows s') = map rw_id (sf_rows s)" unfolding 1 by (rule map_status_ids)
    have "sorted_wrt (<) (map rw_id (sf_rows s'))" "set (map rw_id (sf_rows s')) \<subseteq> sf_jobs" unfolding ids using inv(2) inv(3) by auto
    moreover have "\<forall>r \<in> set (sf_rows s'). rw_status r \<noteq> Processing" "\<forall>r \<in> set (sf_rows s). rw_id r \<noteq> j \<longrightarrow> r \<in> set (sf_rows s')"
      using inv(4) j unfolding 1 by (auto simp: with_status_def)
    ultimately show ?rows by blast
  next
    case 2
    then show ?rows using inv(2) inv(3) inv(4) j by (auto simp: sorted_wrt_map sorted_wrt_filter)
  next
    case 3
    then show ?rows using inv(2) inv(3) inv(4) j by auto
  qed
  have "\<exists>r \<in> set (sf_rows s'). rw_id r = k \<and> rw_status r = Pending" if k: "k \<in> sf_jobs" "\<not> started s k" for k
  proof -
    obtain r where "r \<in> set (sf_rows s)" "rw_id r = k" "rw_status r = Pending" using inv(5)[OF k] by blast
    moreover have "k \<noteq> j" using inv(6)[OF j] k(2) by auto
    ultimately show ?thesis using rows by blast
  qed
  with rows show ?thesis by (intro sf_invI) (simp_all add: st none)
qed

lemma sf_click_inv:
  assumes "sf_inv s" "sf_click a s = Some s'"
  shows "sf_inv s'"
proof (cases "sf_off s (fst a)")
  case True
  then show ?thesis using assms by (simp add: sf_click_def)
next
  case on: False
  show ?thesis
  proof (cases "fst a")
    case Sf_take
    then have "sf_take s = Some s'" "sf_inflight s = None" using assms on by (auto simp: sf_click_def)
    then show ?thesis by (rule sf_take_inv[OF assms(1)])
  next
    case Sf_ack
    then have "sf_ack (snd a) s = Some s'" using assms on by (auto simp: sf_click_def)
    then show ?thesis by (rule sf_ack_inv[OF assms(1)])
  next
    case Sf_kill
    then have "sf_rows s' = sf_rows s" "sf_runs s' = sf_runs s" "sf_inflight s' = sf_inflight s" using assms on by (auto simp: sf_click_def sf_kill_def)
    then show ?thesis using assms(1) by (simp add: sf_inv_def started_def)
  next
    case Sf_restart
    then have "s' = sf_restart s" using assms on by (auto simp: sf_click_def)
    then show ?thesis by (intro sf_reopen_inv[OF assms(1)]) (simp_all add: sf_restart_def Let_def split: prod.split)
  next
    case Sf_second
    then have "s' = sf_second s" using assms on by (auto simp: sf_click_def)
    then show ?thesis by (intro sf_reopen_inv[OF assms(1)]) (simp_all add: sf_second_def Let_def split: prod.split)
  next
    case Sf_reset
    then show ?thesis using assms by (simp add: sf_click_def sf_fresh_inv)
  qed
qed

lemma sf_reachable_inv: "sf_reachable acts s \<Longrightarrow> sf_inv s"
  by (induction rule: sf_reachable.induct) (auto simp: sf_fresh_inv intro: sf_click_inv)

lemma sf_click_defined: "\<exists>s'. sf_click a s = Some s'"
proof (cases "fst a")
  case Sf_take
  have "\<exists>i. find_index (\<lambda>r. rw_status r = Pending) (sf_rows s) = Some i" if "sf_some Pending s"
    using that find_index_ex[of "sf_rows s" "\<lambda>r. rw_status r = Pending"] by (auto simp: sf_some_def list_ex_iff)
  then show ?thesis using Sf_take by (auto simp: sf_click_def sf_take_def Let_def)
next
  case Sf_ack
  then show ?thesis by (auto simp: sf_click_def sf_ack_def)
qed (auto simp: sf_click_def)

interpretation sqlite_scene: scene "\<lambda>s. s = sf_fresh" sf_click sf_inv
  by unfold_locales (auto simp: sf_fresh_inv sf_click_defined intro: sf_click_inv)

text \<open>Clicks in turn.\<close>

fun sf_clicks :: "(SfAct \<times> bool) list \<Rightarrow> SfState \<Rightarrow> SfState" where
  "sf_clicks [] s = s"
| "sf_clicks (a # as) s = sf_clicks as (the (sf_click a s))"

lemma sf_clicks_reachable: "sf_reachable acts s \<Longrightarrow> fst ` set cs \<subseteq> acts \<Longrightarrow> sf_reachable acts (sf_clicks cs s)"
proof (induction cs arbitrary: s)
  case (Cons a cs)
  obtain s' where "sf_click a s = Some s'" using sf_click_defined by blast
  with Cons show ?case by (auto intro: sf_press)
qed simp

text \<open>
  C27: whatever buttons of the SQLite scene are pressed, every press is answered, each of the four jobs has a pending row or has
  been started, so no row goes unrun, at most the running job's row is processing, and after a restart that set rows back the
  first pending row, the one the message names, is the row that was processing.
\<close>
theorem sqlite_scene_loses_no_row:
  assumes "sf_reachable acts s"
  shows "(\<forall>a. \<exists>s'. sf_click a s = Some s')
    \<and> (\<forall>j \<in> {7, 8, 9, 10}. started s j \<or> (\<exists>r \<in> set (sf_rows s). rw_id r = j \<and> rw_status r = Pending))
    \<and> (\<forall>r \<in> set (sf_rows s). rw_status r = Processing \<longrightarrow> sf_inflight s = Some (rw_id r)
        \<and> (case find (\<lambda>q. rw_status q = Pending) (sf_rows (sf_restart s)) of Some q \<Rightarrow> rw_id q = rw_id r | None \<Rightarrow> False))"
proof (intro conjI allI ballI impI)
  note inv = sf_reachable_inv[OF assms]
  show "\<exists>s'. sf_click a s = Some s'" for a by (rule sf_click_defined)
  show "started s j \<or> (\<exists>r \<in> set (sf_rows s). rw_id r = j \<and> rw_status r = Pending)" if "j \<in> {7, 8, 9, 10}" for j
    using sf_invD(5)[OF inv, of j] that by (auto simp: sf_jobs_def sf_fresh_def)
  fix r assume r: "r \<in> set (sf_rows s)" "rw_status r = Processing"
  show "sf_inflight s = Some (rw_id r)" using sf_invD(4)[OF inv r] .
  have rows: "sf_rows (sf_restart s) = fst (sf_reopen (sf_rows s))" by (simp add: sf_restart_def Let_def split: prod.split)
  have "\<exists>q \<in> set (fst (sf_reopen (sf_rows s))). rw_id q = rw_id r \<and> rw_status q = Pending"
    using r reopen_row[of "r\<lparr>rw_status := Pending\<rparr>" "sf_rows s"] by (intro bexI[of _ "r\<lparr>rw_status := Pending\<rparr>"]) auto
  then obtain q where q: "find (\<lambda>q. rw_status q = Pending) (fst (sf_reopen (sf_rows s))) = Some q"
    by (cases "find (\<lambda>q. rw_status q = Pending) (fst (sf_reopen (sf_rows s)))") (auto simp: find_None_iff)
  then obtain i where i: "i < length (sf_rows s)" "q = fst (sf_reopen (sf_rows s)) ! i" "rw_status q = Pending"
      "\<forall>k<i. rw_status (fst (sf_reopen (sf_rows s)) ! k) \<noteq> Pending"
    by (auto simp: find_Some_iff sf_reopen_def)
  obtain k where k: "k < length (sf_rows s)" "r = sf_rows s ! k" using r(1) by (auto simp: in_set_conv_nth)
  have nth: "rw_id (fst (sf_reopen (sf_rows s)) ! m) = rw_id (sf_rows s ! m)
      \<and> rw_status (fst (sf_reopen (sf_rows s)) ! m) = (if rw_status (sf_rows s ! m) = Processing then Pending else rw_status (sf_rows s ! m))"
    if "m < length (sf_rows s)" for m using that by (simp add: sf_reopen_def)
  have "\<not> k < i" using i(4) nth[OF k(1)] r(2) k(2) by auto
  moreover have "\<not> i < k"
  proof
    assume "i < k"
    then have less: "rw_id (sf_rows s ! i) < rw_id r" using sorted_wrt_nth_less[OF sf_invD(2)[OF inv], of i k] k by simp
    then have "rw_status (sf_rows s ! i) \<noteq> Pending" using sf_invD(7)[OF inv _ r(1) less r(2)] i(1) by simp
    then have "rw_status (sf_rows s ! i) = Processing" using i(3) nth[OF i(1)] i(2) by (auto split: if_splits)
    then show False using sf_invD(4)[OF inv, of "sf_rows s ! i"] sf_invD(4)[OF inv r] i(1) less by simp
  qed
  ultimately show "case find (\<lambda>q. rw_status q = Pending) (sf_rows (sf_restart s)) of Some q \<Rightarrow> rw_id q = rw_id r | None \<Rightarrow> False"
    using q i(2) nth[OF i(1)] k(2) unfolding rows by auto
qed

theorem sqlite_scene_loses_no_row_witness:
  "(let s = sf_clicks [(Sf_take, False), (Sf_ack, False), (Sf_take, False), (Sf_kill, False)] sf_fresh in
     \<forall>j \<in> {7, 8, 9, 10}. started s j \<or> (\<exists>r \<in> set (sf_rows s). rw_id r = j \<and> rw_status r = Pending))"
proof -
  have "sf_reachable UNIV (sf_clicks [(Sf_take, False), (Sf_ack, False), (Sf_take, False), (Sf_kill, False)] sf_fresh)"
    by (rule sf_clicks_reachable) (auto intro: sf_open)
  from sqlite_scene_loses_no_row[OF this] show ?thesis unfolding Let_def by blast
qed

text \<open>
  Without a second process on the file, the running job's row is processing, so Acknowledge never returns false.
\<close>

definition sf_owned :: "SfState \<Rightarrow> bool" where
  "sf_owned s \<longleftrightarrow> (\<forall>j. sf_inflight s = Some j \<longrightarrow> (\<exists>r \<in> set (sf_rows s). rw_id r = j \<and> rw_status r = Processing))"

lemma sf_owned_click:
  assumes "sf_inv s" "sf_owned s" "fst a \<noteq> Sf_second" "sf_click a s = Some s'"
  shows "sf_owned s'"
proof (cases "sf_off s (fst a)")
  case True
  then show ?thesis using assms by (simp add: sf_click_def)
next
  case on: False
  show ?thesis
  proof (cases "fst a")
    case Sf_take
    then obtain i where i: "find_index (\<lambda>r. rw_status r = Pending) (sf_rows s) = Some i"
        "sf_rows s' = (sf_rows s)[i := (sf_rows s ! i)\<lparr>rw_status := Processing\<rparr>]" "sf_inflight s' = Some (rw_id (sf_rows s ! i))"
      using assms(4) on by (auto simp: sf_click_def sf_take_def Let_def split: option.splits)
    then have "(sf_rows s ! i)\<lparr>rw_status := Processing\<rparr> \<in> set (sf_rows s')" using find_index_SomeD[OF i(1)] by (auto intro: set_update_memI)
    then show ?thesis unfolding sf_owned_def i(3) by (auto intro: rev_bexI)
  next
    case Sf_ack
    then have "sf_inflight s' = None" using assms(4) on by (auto simp: sf_click_def sf_ack_def split: if_splits)
    then show ?thesis by (simp add: sf_owned_def)
  next
    case Sf_kill
    then show ?thesis using assms on by (auto simp: sf_click_def sf_kill_def sf_owned_def)
  next
    case Sf_restart
    then show ?thesis using assms on by (auto simp: sf_click_def sf_restart_def sf_owned_def Let_def split: prod.splits)
  next
    case Sf_reset
    then show ?thesis using assms by (auto simp: sf_click_def sf_owned_def sf_fresh_def)
  qed (use assms in simp)
qed

lemma sf_reachable_owned: "sf_reachable acts s \<Longrightarrow> Sf_second \<notin> acts \<Longrightarrow> sf_owned s"
proof (induction rule: sf_reachable.induct)
  case sf_open
  then show ?case by (simp add: sf_owned_def sf_fresh_def)
next
  case (sf_press s a s')
  have "fst a \<noteq> Sf_second" using sf_press(2) sf_press(5) by metis
  then show ?case using sf_owned_click[OF sf_reachable_inv[OF sf_press(1)] _ _ sf_press(3)] sf_press by blast
qed

lemma only_row: "distinct (map rw_id rows) \<Longrightarrow> r \<in> set rows \<Longrightarrow> filter (\<lambda>q. rw_id q = rw_id r) rows = [r]"
  by (induction rows) (auto simp: filter_empty_conv image_iff)

text \<open>
  As long as no second process opens the file, Acknowledge matches: pressing it takes the running job's row out of the table,
  or marks it completed, and changes no other row.
\<close>
theorem acknowledge_matches_without_second_process:
  assumes "sf_reachable acts s" "Sf_second \<notin> acts" "\<not> sf_off s Sf_ack"
  shows "case sf_inflight s of None \<Rightarrow> False
    | Some j \<Rightarrow> (case sf_click (Sf_ack, keep) s of None \<Rightarrow> False
        | Some s' \<Rightarrow> sf_inflight s' = None \<and> filter (\<lambda>r. rw_id r \<noteq> j) (sf_rows s') = filter (\<lambda>r. rw_id r \<noteq> j) (sf_rows s)
           \<and> map rw_status (filter (\<lambda>r. rw_id r = j) (sf_rows s')) = (if keep then [Completed] else []))"
proof -
  note inv = sf_reachable_inv[OF assms(1)]
  obtain j where j: "sf_inflight s = Some j" "\<not> sf_down s" using assms(3) by auto
  then obtain r where r: "r \<in> set (sf_rows s)" "rw_id r = j" "rw_status r = Processing"
    using sf_reachable_owned[OF assms(1,2)] unfolding sf_owned_def by blast
  have one: "filter (\<lambda>q. rw_id q = j) (sf_rows s) = [r]" using only_row[OF sf_invD(1)[OF inv] r(1)] r(2) by simp
  have row: "rowOf j s = Some r" using rowOf_is[OF inv r(1)] r(2) by simp
  have keep: "filter (\<lambda>q. rw_id q \<noteq> j) (map (with_status j Completed) rows) = filter (\<lambda>q. rw_id q \<noteq> j) rows" for rows
    by (induction rows) (simp_all add: with_status_def)
  have marked: "filter (\<lambda>q. rw_id q = j) (map (with_status j Completed) rows) = map (with_status j Completed) (filter (\<lambda>q. rw_id q = j) rows)" for rows
    by (simp add: filter_map comp_def)
  show ?thesis using j row r(2,3) one
    by (simp add: sf_click_def sf_ack_def set_status_is_map[OF sf_invD(1)[OF inv]] keep marked)
qed

theorem acknowledge_matches_without_second_process_witness:
  "case sf_click (Sf_ack, True) (sf_clicks [(Sf_take, False)] sf_fresh) of None \<Rightarrow> False | Some s' \<Rightarrow> sf_inflight s' = None"
proof -
  have "sf_reachable {Sf_take} (sf_clicks [(Sf_take, False)] sf_fresh)" by (rule sf_clicks_reachable) (auto intro: sf_open)
  moreover have "\<not> sf_off (sf_clicks [(Sf_take, False)] sf_fresh) Sf_ack" by code_simp
  ultimately have "case sf_inflight (sf_clicks [(Sf_take, False)] sf_fresh) of None \<Rightarrow> False
    | Some j \<Rightarrow> (case sf_click (Sf_ack, True) (sf_clicks [(Sf_take, False)] sf_fresh) of None \<Rightarrow> False
        | Some s' \<Rightarrow> sf_inflight s' = None \<and> filter (\<lambda>r. rw_id r \<noteq> j) (sf_rows s') = filter (\<lambda>r. rw_id r \<noteq> j) (sf_rows (sf_clicks [(Sf_take, False)] sf_fresh))
           \<and> map rw_status (filter (\<lambda>r. rw_id r = j) (sf_rows s')) = (if True then [Completed] else []))"
    by (intro acknowledge_matches_without_second_process[of "{Sf_take}"]) auto
  then show ?thesis by (auto simp del: sf_clicks.simps split: option.splits)
qed

text \<open>With a second process the same job can be started twice and acknowledged after its row is gone.\<close>

lemma second_process_runs_a_job_twice:
  "sf_runs (sf_clicks [(Sf_take, False), (Sf_second, False), (Sf_ack, False), (Sf_take, False)] sf_fresh) 7 = Some 2"
  by code_simp

text \<open>
  The scene's sentence on a death says that the running job's row is still processing; once a second process has opened the file
  the row is pending.
\<close>

lemma kill_message_after_second_process:
  "(let s = sf_clicks [(Sf_take, False), (Sf_second, False), (Sf_kill, False)] sf_fresh in
     map_option rw_status (rowOf 7 s) = Some Pending
     \<and> sf_msg s = ''The process died. The row of job 7 is still processing in the file.'')"
  by code_simp

end
