(* ===== verification/Store_Demo.thy ===== *)
theory Store_Demo
  imports Prelude "HOL-Library.Multiset"
begin

text \<open>
  \<open>docs/src/components/home/store.ts\<close>, \<open>boot\<close>: the home page's storage demo. A worker takes jobs from a queue in memory, in Redis
  or in SQLite, the reader adds jobs and restarts the process, and the queue is filled again when it is empty. Each event is a
  timeline that plays while the stage is in view; what follows it is a function called at its end.

  The state below holds the demo's variables. A job is its number, whether it was put back after a restart (\<open>again\<close>), and a key
  for the identity of its object, since numbers start over after 99. The timelines under way (\<open>live\<close>) are the calls to make at
  their ends, with the generation they were started in; which of them ends next is left open. Positions, flights and colours are
  drawing and are left out, and with them the timelines that nothing follows.

  Every call the source makes to another of these functions is the last thing the caller does, so a function is its change of the
  state and the calls it makes then, in order, and \<open>dm_exec\<close> runs them.
\<close>

section \<open>State\<close>

datatype StoreMode = Mem | Rds | Sql

fun mode_name :: "StoreMode \<Rightarrow> string" where
  "mode_name Mem = ''In memory''"
| "mode_name Rds = ''Redis''"
| "mode_name Sql = ''SQLite''"

definition SHOW :: nat where "SHOW = 5"
definition START :: nat where "START = 6"

record Item =
  it_key :: nat
  it_id :: nat
  it_again :: bool

datatype DemoCall = Step_c | LaneDone_c | Change_c nat bool | TakeDone_c bool Item | RunJob_c Item | RunDone_c Item | AddDone_c
  | RefillDone_c | RestartDone_c

record Demo =
  dm_reduce :: bool
  dm_mode :: StoreMode
  dm_waiting :: "Item list"
  dm_running :: "Item option"
  dm_inflight :: "Item list"
  dm_up :: bool
  dm_laneBusy :: bool
  dm_adding :: bool
  dm_queued :: "(nat \<times> bool) list"
  dm_refilling :: bool
  dm_gen :: nat
  dm_nextId :: nat
  dm_visible :: bool
  dm_live :: "(nat \<times> DemoCall) list"
  dm_result :: string
  dm_made :: nat

definition dm_init :: "bool \<Rightarrow> Demo" where
  "dm_init reduce = \<lparr>dm_reduce = reduce, dm_mode = Mem, dm_waiting = [], dm_running = None, dm_inflight = [], dm_up = True,
     dm_laneBusy = False, dm_adding = False, dm_queued = [], dm_refilling = False, dm_gen = 0, dm_nextId = 1, dm_visible = False,
     dm_live = [], dm_result = '''', dm_made = 0\<rparr>"

definition persistent :: "Demo \<Rightarrow> bool" where
  "persistent s \<longleftrightarrow> dm_mode s \<noteq> Mem"

definition say :: "string \<Rightarrow> Demo \<Rightarrow> Demo" where
  "say text s = s\<lparr>dm_result := text\<rparr>"

definition jobs_text :: "nat \<Rightarrow> string" where
  "jobs_text n = string_of_nat n @ '' '' @ (if n = 1 then ''job'' else ''jobs'')"

text \<open>\<open>newId\<close>, and the new object it numbers.\<close>

definition newItem :: "Demo \<Rightarrow> Item \<times> Demo" where
  "newItem s = (\<lparr>it_key = dm_made s, it_id = dm_nextId s, it_again = False\<rparr>, s\<lparr>dm_nextId := dm_nextId s mod 99 + 1, dm_made := dm_made s + 1\<rparr>)"

fun newItems :: "nat \<Rightarrow> Demo \<Rightarrow> Demo" where
  "newItems 0 s = s"
| "newItems (Suc n) s = (let (it, s') = newItem s in newItems n (s'\<lparr>dm_waiting := dm_waiting s' @ [it]\<rparr>))"

section \<open>Playing a timeline\<close>

text \<open>Under reduced motion, and for a timeline with nothing on it, what follows comes at once.\<close>

definition play :: "bool \<Rightarrow> DemoCall \<Rightarrow> Demo \<Rightarrow> Demo \<times> DemoCall list" where
  "play bare c s = (if dm_reduce s \<or> bare then (s, [c]) else (s\<lparr>dm_live := dm_live s @ [(dm_gen s, c)]\<rparr>, []))"

section \<open>The lane\<close>

definition addJobs :: "nat \<Rightarrow> bool \<Rightarrow> Demo \<Rightarrow> Demo \<times> DemoCall list" where
  "addJobs n quiet s = (if dm_laneBusy s then (s\<lparr>dm_queued := dm_queued s @ [(n, quiet)]\<rparr>, []) else (s, [Change_c n quiet]))"

text \<open>The change \<open>addJobs\<close> makes to the lane: its timeline is empty when all the jobs wait past the last slot.\<close>

definition added :: "nat \<Rightarrow> bool \<Rightarrow> Demo \<Rightarrow> Demo" where
  "added n quiet s0 =
    (let s = newItems n (s0\<lparr>dm_laneBusy := True, dm_adding := True\<rparr>) in
     if quiet then s else say (jobs_text n @ '' added. '' @ string_of_nat (length (dm_waiting s)) @ '' waiting.'') s)"

definition add_change :: "nat \<Rightarrow> bool \<Rightarrow> Demo \<Rightarrow> Demo \<times> DemoCall list" where
  "add_change n quiet s =
    (let (s', cs) = play (n = 0 \<or> SHOW \<le> length (dm_waiting s)) AddDone_c (added n quiet s) in (s', cs @ [Step_c]))"

definition addDone :: "Demo \<Rightarrow> Demo \<times> DemoCall list" where
  "addDone s = (s\<lparr>dm_adding := False\<rparr>, [LaneDone_c])"

definition laneDone :: "Demo \<Rightarrow> Demo \<times> DemoCall list" where
  "laneDone s0 = (let s = s0\<lparr>dm_laneBusy := False\<rparr> in
    case dm_queued s of [] \<Rightarrow> (s, [Step_c]) | (n, quiet) # rest \<Rightarrow> (s\<lparr>dm_queued := rest\<rparr>, [Change_c n quiet]))"

section \<open>The worker\<close>

text \<open>\<open>take\<close>: the head job leaves the queue for the ring; in a store its record stays, in flight.\<close>

definition taken :: "Item \<Rightarrow> Item list \<Rightarrow> Demo \<Rightarrow> Demo" where
  "taken it rest s0 =
    (let s1 = s0\<lparr>dm_laneBusy := True, dm_waiting := rest, dm_running := Some (it\<lparr>it_again := False\<rparr>)\<rparr>;
         s2 = (if it_again it then say (dm_result s1 @ '' Job '' @ string_of_nat (it_id it) @ '' runs again now.'') s1 else s1) in
     if persistent s2 then s2\<lparr>dm_inflight := dm_inflight s2 @ [it\<lparr>it_again := False\<rparr>]\<rparr> else s2)"

definition take_head :: "Demo \<Rightarrow> Demo \<times> DemoCall list" where
  "take_head s = (case dm_waiting s of [] \<Rightarrow> (s, [])
    | it # rest \<Rightarrow> play False (TakeDone_c (\<not> dm_laneBusy s) (it\<lparr>it_again := False\<rparr>)) (taken it rest s))"

definition takeDone :: "bool \<Rightarrow> Item \<Rightarrow> Demo \<Rightarrow> Demo \<times> DemoCall list" where
  "takeDone own it s = (s, (if own then [LaneDone_c] else []) @ [RunJob_c it])"

text \<open>Under reduced motion no run plays out: the job stays on the ring.\<close>

definition runJob :: "Item \<Rightarrow> Demo \<Rightarrow> Demo \<times> DemoCall list" where
  "runJob it s = (if dm_reduce s then (s, []) else play False (RunDone_c it) s)"

definition runDone :: "Item \<Rightarrow> Demo \<Rightarrow> Demo \<times> DemoCall list" where
  "runDone it s =
    (if persistent s
     then (s\<lparr>dm_inflight := (case find_index (\<lambda>x. it_key x = it_key it) (dm_inflight s) of Some i \<Rightarrow> splice_out i (dm_inflight s) | None \<Rightarrow> butlast (dm_inflight s)),
             dm_running := None\<rparr>, [Step_c])
     else (s\<lparr>dm_running := None\<rparr>, [Step_c]))"

text \<open>What happens next on its own.\<close>

definition dm_step :: "Demo \<Rightarrow> Demo \<times> DemoCall list" where
  "dm_step s =
    (if \<not> dm_up s \<or> dm_running s \<noteq> None \<or> (dm_laneBusy s \<and> \<not> dm_adding s) then (s, [])
     else if dm_reduce s then (if dm_waiting s \<noteq> [] then take_head s else (s, []))
     else if \<not> dm_visible s then (s, [])
     else if dm_waiting s \<noteq> [] then take_head s
     else if dm_laneBusy s \<or> dm_refilling s then (s, [])
     else play False RefillDone_c (s\<lparr>dm_refilling := True\<rparr>))"

definition refillDone :: "Demo \<Rightarrow> Demo \<times> DemoCall list" where
  "refillDone s0 = (let s = s0\<lparr>dm_refilling := False\<rparr> in
    if dm_running s = None \<and> dm_waiting s = [] \<and> \<not> dm_laneBusy s then addJobs 5 True s else (s, []))"

section \<open>Restart and tabs\<close>

definition settleAll :: "Demo \<Rightarrow> Demo" where
  "settleAll s = s\<lparr>dm_gen := dm_gen s + 1, dm_live := [], dm_queued := [], dm_laneBusy := False, dm_adding := False, dm_refilling := False\<rparr>"

definition lost_text :: "nat \<Rightarrow> Item option \<Rightarrow> string" where
  "lost_text w was =
    (let n = w + (case was of Some _ \<Rightarrow> 1 | None \<Rightarrow> 0) in
     if n = 0 then ''Nothing was waiting. A queue in memory ends with the process.''
     else jobs_text n @ '' lost'' @ (case was of None \<Rightarrow> '''' | Some it \<Rightarrow>
         (if w \<noteq> 0 then '': '' @ string_of_nat w @ '' waiting, and job '' @ string_of_nat (it_id it) @ '', which was running''
          else '': job '' @ string_of_nat (it_id it) @ '', which was running''))
       @ ''. A queue in memory ends with the process.'')"

definition kept_text :: "StoreMode \<Rightarrow> nat \<Rightarrow> Item option \<Rightarrow> string" where
  "kept_text mode w was =
    (let kept = (if w \<noteq> 0 then jobs_text w @ '' waiting '' @ (if w = 1 then ''stays'' else ''stay'') @ '' in '' @ mode_name mode @ ''.''
           else ''Nothing was waiting in '' @ mode_name mode @ ''.'');
         back = (if mode = Sql then ''sqliteq puts it back when the restarted program opens the queue, and it runs again.''
           else ''redisq puts it back once it sees the crashed run is gone, and it runs again.'') in
     case was of Some it \<Rightarrow> kept @ '' Job '' @ string_of_nat (it_id it) @ '' was running and not acknowledged: '' @ back | None \<Rightarrow> kept)"

definition requeue :: "Item list \<Rightarrow> Demo \<Rightarrow> Demo" where
  "requeue items s = s\<lparr>dm_waiting := map (\<lambda>it. it\<lparr>it_again := True\<rparr>) items @ dm_waiting s\<rparr>"

text \<open>The crash: in memory the jobs are lost, in a store the job that ran goes back to the front.\<close>

definition demo_crashed :: "Demo \<Rightarrow> Demo" where
  "demo_crashed s0 =
    (let s = (settleAll s0)\<lparr>dm_up := False, dm_running := None\<rparr>; was = dm_running s0; w = length (dm_waiting s) in
     if persistent s then requeue (dm_inflight s) (say (kept_text (dm_mode s) w was) s)\<lparr>dm_inflight := []\<rparr>
     else say (lost_text w was) (s\<lparr>dm_waiting := []\<rparr>))"

definition restart :: "Demo \<Rightarrow> Demo \<times> DemoCall list" where
  "restart s = (if \<not> dm_up s then (s, []) else play False RestartDone_c (demo_crashed s))"

definition restartDone :: "Demo \<Rightarrow> Demo \<times> DemoCall list" where
  "restartDone s = (s\<lparr>dm_up := True\<rparr>, [Step_c])"

text \<open>\<open>open\<close> draws a new stage and fills its queue; the first time there is nothing to settle.\<close>

definition open_stage :: "StoreMode \<Rightarrow> Demo \<Rightarrow> Demo \<times> DemoCall list" where
  "open_stage mode s =
    (newItems START (s\<lparr>dm_mode := mode, dm_waiting := [], dm_running := None, dm_inflight := [], dm_up := True\<rparr>), [Step_c])"

section \<open>Running the calls\<close>

fun dm_call :: "DemoCall \<Rightarrow> Demo \<Rightarrow> Demo \<times> DemoCall list" where
  "dm_call Step_c s = dm_step s"
| "dm_call LaneDone_c s = laneDone s"
| "dm_call (Change_c n quiet) s = add_change n quiet s"
| "dm_call (TakeDone_c own it) s = takeDone own it s"
| "dm_call (RunJob_c it) s = runJob it s"
| "dm_call (RunDone_c it) s = runDone it s"
| "dm_call AddDone_c s = addDone s"
| "dm_call RefillDone_c s = refillDone s"
| "dm_call RestartDone_c s = restartDone s"

text \<open>A bound on the calls still to come: a step can only start a job while none runs, and each change of the lane waits once.\<close>

fun weight :: "DemoCall \<Rightarrow> nat" where
  "weight Step_c = 1"
| "weight LaneDone_c = 2"
| "weight (Change_c n quiet) = 5"
| "weight (TakeDone_c own it) = 4"
| "weight (RunJob_c it) = 1"
| "weight (RunDone_c it) = 6"
| "weight AddDone_c = 3"
| "weight RefillDone_c = 6"
| "weight RestartDone_c = 2"

definition to_come :: "DemoCall list \<Rightarrow> Demo \<Rightarrow> nat" where
  "to_come cs s = sum_list (map weight cs) + 4 * length (dm_queued s) + (if dm_running s = None then 4 else 0)"

lemma newItems_frame [simp]:
  "dm_queued (newItems n s) = dm_queued s" "dm_running (newItems n s) = dm_running s" "dm_inflight (newItems n s) = dm_inflight s"
  "dm_up (newItems n s) = dm_up s" "dm_laneBusy (newItems n s) = dm_laneBusy s" "dm_adding (newItems n s) = dm_adding s"
  "dm_refilling (newItems n s) = dm_refilling s" "dm_gen (newItems n s) = dm_gen s" "dm_visible (newItems n s) = dm_visible s"
  "dm_live (newItems n s) = dm_live s" "dm_reduce (newItems n s) = dm_reduce s" "dm_mode (newItems n s) = dm_mode s"
  by (induction n arbitrary: s) (simp_all add: newItem_def)

lemma taken_fields [simp]:
  "dm_reduce (taken it rest s) = dm_reduce s" "dm_mode (taken it rest s) = dm_mode s" "dm_waiting (taken it rest s) = rest"
  "dm_running (taken it rest s) = Some (it\<lparr>it_again := False\<rparr>)" "dm_up (taken it rest s) = dm_up s" "dm_laneBusy (taken it rest s)"
  "dm_adding (taken it rest s) = dm_adding s" "dm_queued (taken it rest s) = dm_queued s" "dm_refilling (taken it rest s) = dm_refilling s"
  "dm_gen (taken it rest s) = dm_gen s" "dm_visible (taken it rest s) = dm_visible s" "dm_live (taken it rest s) = dm_live s"
  "dm_made (taken it rest s) = dm_made s"
  "dm_inflight (taken it rest s) = (if persistent s then dm_inflight s @ [it\<lparr>it_again := False\<rparr>] else dm_inflight s)"
  by (simp_all add: taken_def say_def Let_def persistent_def)

lemma added_fields [simp]:
  "dm_reduce (added n q s) = dm_reduce s" "dm_mode (added n q s) = dm_mode s" "dm_inflight (added n q s) = dm_inflight s"
  "dm_running (added n q s) = dm_running s" "dm_up (added n q s) = dm_up s" "dm_laneBusy (added n q s)" "dm_adding (added n q s)"
  "dm_queued (added n q s) = dm_queued s" "dm_refilling (added n q s) = dm_refilling s" "dm_gen (added n q s) = dm_gen s"
  "dm_visible (added n q s) = dm_visible s" "dm_live (added n q s) = dm_live s"
  by (simp_all add: added_def say_def Let_def)

lemmas dm_defs = dm_step_def laneDone_def add_change_def takeDone_def runJob_def runDone_def addDone_def refillDone_def restartDone_def
  take_head_def play_def addJobs_def say_def Let_def

lemma call_lighter: "dm_call c s = (s', cs') \<Longrightarrow> to_come (cs' @ cs) s' < to_come (c # cs) s"
  by (cases c) (auto simp: to_come_def dm_defs persistent_def split: if_splits list.splits prod.splits option.splits)

function dm_exec :: "DemoCall list \<Rightarrow> Demo \<Rightarrow> Demo" where
  "dm_exec [] s = s"
| "dm_exec (c # cs) s = (case dm_call c s of (s', cs') \<Rightarrow> dm_exec (cs' @ cs) s')"
  by pat_completeness auto

termination
  by (relation "measure (\<lambda>(cs, s). to_come cs s)") (auto simp: call_lighter)

definition run_calls :: "Demo \<times> DemoCall list \<Rightarrow> Demo" where
  "run_calls r = dm_exec (snd r) (fst r)"

section \<open>Events\<close>

datatype Event = Finish nat | ClickRestart | ClickAdd | OpenTab StoreMode | Resize | InView bool

text \<open>
  The end of a timeline (only one that plays, and none plays out of view), a click, a change of tab, a change of the stage's
  layout, and the stage coming into view or leaving it.
\<close>

fun dm_event :: "Event \<Rightarrow> Demo \<Rightarrow> Demo" where
  "dm_event (Finish i) s =
    (if dm_visible s \<and> i < length (dm_live s)
     then (let (g, c) = dm_live s ! i; s' = s\<lparr>dm_live := splice_out i (dm_live s)\<rparr> in if g = dm_gen s' then dm_exec [c] s' else s')
     else s)"
| "dm_event ClickRestart s = run_calls (restart s)"
| "dm_event ClickAdd s = (if dm_up s then run_calls (addJobs 5 False s) else say ''The process is restarting.'' s)"
| "dm_event (OpenTab mode) s = say '''' (run_calls (open_stage mode (settleAll s)))"
| "dm_event Resize s = say '''' (run_calls (open_stage (dm_mode s) (settleAll s)))"
| "dm_event (InView v) s = (let s' = s\<lparr>dm_visible := v\<rparr> in if v then dm_exec [Step_c] s' else s')"

definition dm_boot :: "bool \<Rightarrow> Demo" where
  "dm_boot reduce = run_calls (open_stage Mem (dm_init reduce))"

inductive dm_reachable :: "Demo \<Rightarrow> bool" where
  dm_booted: "dm_reachable (dm_boot reduce)"
| dm_next: "dm_reachable s \<Longrightarrow> dm_reachable (dm_event e s)"

end
