(* ===== verification/Store_Demo_Props.thy ===== *)
theory Store_Demo_Props
  imports Store_Demo Scene
begin

text \<open>
  What the storage demo promises, for every order of its events: the lane has one holder, the worker one job, in view the demo
  always has something under way and the worker never idles while a job waits, and a restart keeps every job a store holds.
\<close>

section \<open>Duties\<close>

text \<open>
  What is still to come: the calls to make now, and the calls at the end of the timelines under way. A duty holds the lane, or is
  a change of the lane about to be made, or belongs to the job that runs.
\<close>

definition duties :: "DemoCall list \<Rightarrow> Demo \<Rightarrow> DemoCall list" where
  "duties cs s = cs @ map snd (dm_live s)"

fun holder :: "DemoCall \<Rightarrow> bool" where
  "holder LaneDone_c = True"
| "holder AddDone_c = True"
| "holder (TakeDone_c own it) = own"
| "holder _ = False"

fun changer :: "DemoCall \<Rightarrow> bool" where
  "changer (Change_c n quiet) = True"
| "changer _ = False"

fun runner :: "DemoCall \<Rightarrow> Item option" where
  "runner (TakeDone_c own it) = Some it"
| "runner (RunJob_c it) = Some it"
| "runner (RunDone_c it) = Some it"
| "runner _ = None"

text \<open>A call that ends in a step of the demo.\<close>

fun stepper :: "DemoCall \<Rightarrow> bool" where
  "stepper Step_c = True"
| "stepper LaneDone_c = True"
| "stepper (Change_c n quiet) = True"
| "stepper AddDone_c = True"
| "stepper (RunDone_c it) = True"
| "stepper RestartDone_c = True"
| "stepper _ = False"

definition num :: "(DemoCall \<Rightarrow> bool) \<Rightarrow> DemoCall list \<Rightarrow> Demo \<Rightarrow> nat" where
  "num P cs s = length (filter P (duties cs s))"

lemma num_simps [simp]:
  "num P (c # cs) s = (if P c then 1 else 0) + num P cs s" "num P (cs @ cs') s = length (filter P cs) + num P cs' s"
  by (simp_all add: num_def duties_def)

lemma num_frame: "dm_live s' = dm_live s \<Longrightarrow> num P cs s' = num P cs s"
  by (simp add: num_def duties_def)

lemma num_updates [simp]:
  "num P cs (s\<lparr>dm_laneBusy := b\<rparr>) = num P cs s" "num P cs (s\<lparr>dm_adding := b\<rparr>) = num P cs s" "num P cs (s\<lparr>dm_queued := q\<rparr>) = num P cs s"
  "num P cs (s\<lparr>dm_refilling := b\<rparr>) = num P cs s" "num P cs (s\<lparr>dm_running := r\<rparr>) = num P cs s" "num P cs (s\<lparr>dm_inflight := l\<rparr>) = num P cs s"
  "num P cs (s\<lparr>dm_up := b\<rparr>) = num P cs s" "num P cs (s\<lparr>dm_visible := b\<rparr>) = num P cs s" "num P cs (s\<lparr>dm_waiting := l\<rparr>) = num P cs s"
  "num P cs (s\<lparr>dm_result := t\<rparr>) = num P cs s" "num P cs (s\<lparr>dm_mode := m\<rparr>) = num P cs s"
  "num P cs (taken it rest s) = num P cs s" "num P cs (added n quiet s) = num P cs s" "num P cs (newItems n s) = num P cs s"
  by (simp_all add: num_def duties_def)

lemma num_live: "num P cs (s\<lparr>dm_live := dm_live s @ [(g, c)]\<rparr>) = num P cs s + (if P c then 1 else 0)"
  by (simp add: num_def duties_def)

lemma num_play: "play bare c s = (s', cs') \<Longrightarrow> num P (cs' @ cs) s' = num P cs s + (if P c then 1 else 0)"
  by (auto simp: play_def num_live split: if_splits)

lemma num_none: "num P [] s = 0 \<longleftrightarrow> (\<forall>c \<in> snd ` set (dm_live s). \<not> P c)"
  by (auto simp: num_def duties_def filter_empty_conv)

text \<open>A timeline that ends: its call moves from the timelines to the calls.\<close>

lemma num_finish:
  assumes "i < length (dm_live s)" "s' = s\<lparr>dm_live := splice_out i (dm_live s)\<rparr>"
  shows "num P [snd (dm_live s ! i)] s' = num P [] s"
proof -
  have "map snd (dm_live s) = map snd (take i (dm_live s)) @ snd (dm_live s ! i) # map snd (drop (Suc i) (dm_live s))"
    using id_take_nth_drop[OF assms(1)] by (metis list.simps(9) map_append)
  then show ?thesis using assms(2) by (simp add: num_def duties_def splice_out_def)
qed

section \<open>The invariant\<close>

definition lane_inv :: "DemoCall list \<Rightarrow> Demo \<Rightarrow> bool" where
  "lane_inv cs s \<longleftrightarrow> num holder cs s = (if dm_laneBusy s then 1 else 0) \<and> num changer (tl cs) s = 0
     \<and> (cs \<noteq> [] \<and> changer (hd cs) \<longrightarrow> \<not> dm_laneBusy s \<and> dm_up s)
     \<and> (dm_queued s \<noteq> [] \<and> \<not> dm_laneBusy s \<longrightarrow> cs \<noteq> [] \<and> changer (hd cs))
     \<and> num (\<lambda>c. c = AddDone_c) cs s = (if dm_adding s then 1 else 0) \<and> (dm_adding s \<longrightarrow> dm_laneBusy s)
     \<and> num (\<lambda>c. c = RefillDone_c) cs s = (if dm_refilling s then 1 else 0)
     \<and> num (\<lambda>c. c = RestartDone_c) cs s = (if dm_up s then 0 else 1)
     \<and> (\<not> dm_up s \<longrightarrow> dm_running s = None \<and> \<not> dm_laneBusy s \<and> \<not> dm_refilling s)"

lemma lane_invI:
  assumes "num holder cs s = (if dm_laneBusy s then 1 else 0)" "num changer (tl cs) s = 0"
    "cs \<noteq> [] \<and> changer (hd cs) \<longrightarrow> \<not> dm_laneBusy s \<and> dm_up s" "dm_queued s \<noteq> [] \<and> \<not> dm_laneBusy s \<longrightarrow> cs \<noteq> [] \<and> changer (hd cs)"
    "num (\<lambda>c. c = AddDone_c) cs s = (if dm_adding s then 1 else 0)" "dm_adding s \<longrightarrow> dm_laneBusy s"
    "num (\<lambda>c. c = RefillDone_c) cs s = (if dm_refilling s then 1 else 0)" "num (\<lambda>c. c = RestartDone_c) cs s = (if dm_up s then 0 else 1)"
    "\<not> dm_up s \<longrightarrow> dm_running s = None \<and> \<not> dm_laneBusy s \<and> \<not> dm_refilling s"
  shows "lane_inv cs s"
  unfolding lane_inv_def by (intro conjI assms)

lemma lane_invD:
  assumes "lane_inv (c # cs) s"
  shows "(if holder c then 1 else 0) + num holder cs s = (if dm_laneBusy s then 1 else 0)" "num changer cs s = 0"
    "changer c \<Longrightarrow> \<not> dm_laneBusy s" "changer c \<Longrightarrow> dm_up s" "dm_queued s \<noteq> [] \<Longrightarrow> \<not> changer c \<Longrightarrow> dm_laneBusy s"
    "(if c = AddDone_c then 1 else 0) + num (\<lambda>c. c = AddDone_c) cs s = (if dm_adding s then 1 else 0)" "dm_adding s \<Longrightarrow> dm_laneBusy s"
    "(if c = RefillDone_c then 1 else 0) + num (\<lambda>c. c = RefillDone_c) cs s = (if dm_refilling s then 1 else 0)"
    "(if c = RestartDone_c then 1 else 0) + num (\<lambda>c. c = RestartDone_c) cs s = (if dm_up s then 0 else 1)"
    "\<not> dm_up s \<Longrightarrow> dm_running s = None \<and> \<not> dm_laneBusy s \<and> \<not> dm_refilling s"
proof -
  note A = assms[unfolded lane_inv_def num_simps list.sel]
  show "(if holder c then 1 else 0) + num holder cs s = (if dm_laneBusy s then 1 else 0)" "num changer cs s = 0"
    "(if c = AddDone_c then 1 else 0) + num (\<lambda>c. c = AddDone_c) cs s = (if dm_adding s then 1 else 0)"
    "(if c = RefillDone_c then 1 else 0) + num (\<lambda>c. c = RefillDone_c) cs s = (if dm_refilling s then 1 else 0)"
    "(if c = RestartDone_c then 1 else 0) + num (\<lambda>c. c = RestartDone_c) cs s = (if dm_up s then 0 else 1)"
    using A by blast+
  show "changer c \<Longrightarrow> \<not> dm_laneBusy s" "changer c \<Longrightarrow> dm_up s" "dm_queued s \<noteq> [] \<Longrightarrow> \<not> changer c \<Longrightarrow> dm_laneBusy s"
    "dm_adding s \<Longrightarrow> dm_laneBusy s" "\<not> dm_up s \<Longrightarrow> dm_running s = None \<and> \<not> dm_laneBusy s \<and> \<not> dm_refilling s"
    using A by blast+
qed

lemma length_filter_le_if: "(\<And>x. P x \<Longrightarrow> Q x) \<Longrightarrow> length (filter P xs) \<le> length (filter Q xs)"
  by (induction xs) (auto intro: le_SucI)

lemma num_mono: "(\<And>c. P c \<Longrightarrow> Q c) \<Longrightarrow> num P cs s \<le> num Q cs s"
  unfolding num_def by (rule length_filter_le_if) blast

lemma hd_no_changer:
  assumes "num changer cs s = 0"
  shows "\<not> (cs \<noteq> [] \<and> changer (hd cs))" "num changer (tl cs) s = 0"
  using assms by (cases cs; simp split: if_splits)+

text \<open>
  A duty of the running job carries that job, and unless motion is reduced exactly one does. The timelines under way are of the
  present generation, and there are none under reduced motion.
\<close>

fun is_end :: "DemoCall \<Rightarrow> bool" where
  "is_end (TakeDone_c own it) = True"
| "is_end (RunDone_c it) = True"
| "is_end AddDone_c = True"
| "is_end RefillDone_c = True"
| "is_end RestartDone_c = True"
| "is_end _ = False"

definition live_ok :: "Demo \<Rightarrow> bool" where
  "live_ok s \<longleftrightarrow> (dm_reduce s \<longrightarrow> dm_live s = []) \<and> list_all (\<lambda>x. fst x = dm_gen s \<and> is_end (snd x)) (dm_live s)"

definition run_inv :: "DemoCall list \<Rightarrow> Demo \<Rightarrow> bool" where
  "run_inv cs s \<longleftrightarrow> num (\<lambda>c. runner c \<noteq> None \<and> runner c \<noteq> dm_running s) cs s = 0
     \<and> num (\<lambda>c. runner c \<noteq> None) cs s \<le> (if dm_running s = None then 0 else 1)
     \<and> (dm_running s \<noteq> None \<and> \<not> dm_reduce s \<longrightarrow> num (\<lambda>c. runner c \<noteq> None) cs s = 1)"

definition in_hand :: "Demo \<Rightarrow> Item list" where
  "in_hand s = (case dm_running s of Some it \<Rightarrow> [it] | None \<Rightarrow> []) @ dm_waiting s"

definition keys :: "Demo \<Rightarrow> nat list" where
  "keys s = map it_key (in_hand s)"

definition data_inv :: "Demo \<Rightarrow> bool" where
  "data_inv s \<longleftrightarrow> dm_inflight s = (if persistent s then (case dm_running s of Some it \<Rightarrow> [it] | None \<Rightarrow> []) else [])
     \<and> distinct (keys s) \<and> (\<forall>k \<in> set (keys s). k < dm_made s)"

text \<open>A worker that could take a job and has not is about to: no job waits for nothing.\<close>

definition work_inv :: "DemoCall list \<Rightarrow> Demo \<Rightarrow> bool" where
  "work_inv cs s \<longleftrightarrow>
    ((dm_reduce s \<or> dm_visible s) \<and> dm_up s \<and> dm_running s = None \<and> (\<not> dm_laneBusy s \<or> dm_adding s)
       \<and> (dm_waiting s \<noteq> [] \<or> \<not> dm_reduce s \<and> \<not> dm_laneBusy s \<and> \<not> dm_refilling s)
     \<longrightarrow> list_ex stepper cs)"

section \<open>Each call keeps it\<close>

text \<open>A step returns, takes the head job, or starts the pause before a refill.\<close>

lemma step_cases:
  obtains (rest) "dm_step s = (s, [])" "\<not> dm_up s \<or> dm_running s \<noteq> None \<or> dm_laneBusy s \<and> \<not> dm_adding s
      \<or> dm_reduce s \<and> dm_waiting s = [] \<or> \<not> dm_reduce s \<and> \<not> dm_visible s
      \<or> \<not> dm_reduce s \<and> dm_waiting s = [] \<and> (dm_laneBusy s \<or> dm_refilling s)"
  | (taking) it rest where "dm_up s" "dm_running s = None" "\<not> dm_laneBusy s \<or> dm_adding s" "dm_waiting s = it # rest"
      "dm_step s = play False (TakeDone_c (\<not> dm_laneBusy s) (it\<lparr>it_again := False\<rparr>)) (taken it rest s)"
  | (refill) "dm_up s" "dm_running s = None" "\<not> dm_laneBusy s" "\<not> dm_refilling s" "\<not> dm_reduce s" "dm_waiting s = []"
      "dm_step s = play False RefillDone_c (s\<lparr>dm_refilling := True\<rparr>)"
proof -
  note d = dm_step_def[of s]
  show ?thesis
  proof (cases "\<not> dm_up s \<or> dm_running s \<noteq> None \<or> dm_laneBusy s \<and> \<not> dm_adding s")
    case True
    show ?thesis by (rule rest) (use d True in auto)
  next
    case go: False
    show ?thesis
    proof (cases "\<not> dm_reduce s \<and> \<not> dm_visible s")
      case True
      show ?thesis by (rule rest) (use d True in auto)
    next
      case play: False
      show ?thesis
      proof (cases "dm_waiting s")
        case Nil
        show ?thesis
        proof (cases "dm_reduce s \<or> dm_laneBusy s \<or> dm_refilling s")
          case True
          show ?thesis by (rule rest) (use d go play Nil True in auto)
        next
          case False
          show ?thesis by (rule refill) (use d go play Nil False in auto)
        qed
      next
        case (Cons it more)
        have "dm_step s = take_head s" using d go play Cons by auto
        then show ?thesis by (intro taking[of it more]) (use go Cons in \<open>auto simp: take_head_def\<close>)
      qed
    qed
  qed
qed

text \<open>The calls that follow when a call starts a timeline.\<close>

lemma play_fields:
  assumes "play bare c s = (s', cs')"
  shows "dm_reduce s' = dm_reduce s" "dm_mode s' = dm_mode s" "dm_waiting s' = dm_waiting s" "dm_running s' = dm_running s"
    "dm_inflight s' = dm_inflight s" "dm_up s' = dm_up s" "dm_laneBusy s' = dm_laneBusy s" "dm_adding s' = dm_adding s"
    "dm_queued s' = dm_queued s" "dm_refilling s' = dm_refilling s" "dm_gen s' = dm_gen s" "dm_visible s' = dm_visible s" "dm_made s' = dm_made s"
  using assms by (auto simp: play_def split: if_splits)

lemma changer_play:
  assumes "play bare c s = (s', cs')" "\<not> changer c" "num changer cs s = 0"
  shows "num changer (cs' @ cs) s' = 0"
  using assms num_play[OF assms(1)] by simp

lemma lane_inv_step:
  assumes inv: "lane_inv (Step_c # cs) s" and call: "dm_step s = (s', cs')"
  shows "lane_inv (cs' @ cs) s'"
proof -
  note I = lane_invD[OF inv]
  note none = hd_no_changer[OF I(2)]
  show ?thesis
  proof (cases rule: step_cases[of s])
    case rest
    then show ?thesis using call I none by (intro lane_invI) auto
  next
    case (taking it more)
    have r: "play False (TakeDone_c (\<not> dm_laneBusy s) (it\<lparr>it_again := False\<rparr>)) (taken it more s) = (s', cs')" using taking(5) call by simp
    note f = play_fields[OF r] num_play[OF r]
    have "num changer (cs' @ cs) s' = 0" using I(2) by (intro changer_play[OF r]) simp_all
    from hd_no_changer[OF this] show ?thesis
      using I taking(1-3) by (intro lane_invI; (simp only: f)?) auto
  next
    case refill
    have r: "play False RefillDone_c (s\<lparr>dm_refilling := True\<rparr>) = (s', cs')" using refill(7) call by simp
    note f = play_fields[OF r] num_play[OF r]
    have "num changer (cs' @ cs) s' = 0" using I(2) by (intro changer_play[OF r]) simp_all
    from hd_no_changer[OF this] show ?thesis
      using I refill(1-4) by (intro lane_invI; (simp only: f)?) auto
  qed
qed

lemma lane_inv_laneDone:
  assumes inv: "lane_inv (LaneDone_c # cs) s" and call: "laneDone s = (s', cs')"
  shows "lane_inv (cs' @ cs) s'"
proof -
  note I = lane_invD[OF inv]
  have busy: "dm_laneBusy s" "num holder cs s = 0" using I(1) by (auto split: if_splits)
  then have idle: "\<not> dm_adding s" "num (\<lambda>c. c = AddDone_c) cs s = 0" using I(6) num_mono[of "\<lambda>c. c = AddDone_c" holder cs s] by (auto split: if_splits)
  have up: "dm_up s" using I(10) busy by auto
  show ?thesis
  proof (cases "dm_queued s")
    case Nil
    then have "s' = s\<lparr>dm_laneBusy := False\<rparr>" "cs' = [Step_c]" using call by (auto simp: laneDone_def)
    then show ?thesis using I(2,8,9) busy idle up Nil by (intro lane_invI) simp_all
  next
    case (Cons q rest)
    then have "s' = s\<lparr>dm_laneBusy := False, dm_queued := rest\<rparr>" "cs' = [Change_c (fst q) (snd q)]" using call by (auto simp: laneDone_def split: prod.splits)
    then show ?thesis using I(2,8,9) busy idle up by (intro lane_invI) simp_all
  qed
qed

lemma lane_inv_change:
  assumes inv: "lane_inv (Change_c n quiet # cs) s" and call: "add_change n quiet s = (s', cs')"
  shows "lane_inv (cs' @ cs) s'"
proof -
  note I = lane_invD[OF inv]
  obtain cs0 where r: "play (n = 0 \<or> SHOW \<le> length (dm_waiting s)) AddDone_c (added n quiet s) = (s', cs0)" "cs' = cs0 @ [Step_c]"
    using call by (auto simp: add_change_def split: prod.splits)
  note f = play_fields[OF r(1)] num_play[OF r(1), of _ "Step_c # cs"]
  have "num changer (cs0 @ Step_c # cs) s' = 0" using I(2) by (intro changer_play[OF r(1)]) simp_all
  note none = hd_no_changer[OF this]
  have "\<not> dm_laneBusy s" "dm_up s" using I(3,4) by simp_all
  then have "lane_inv (cs0 @ Step_c # cs) s'" using I none by (intro lane_invI; (simp only: f)?) auto
  then show ?thesis using r(2) by simp
qed

lemma lane_inv_takeDone:
  assumes inv: "lane_inv (TakeDone_c own it # cs) s"
  shows "lane_inv ((if own then [LaneDone_c] else []) @ [RunJob_c it] @ cs) s"
  using lane_invD[OF inv] by (intro lane_invI) (auto split: if_splits)

lemma lane_inv_runJob:
  assumes inv: "lane_inv (RunJob_c it # cs) s" and call: "runJob it s = (s', cs')"
  shows "lane_inv (cs' @ cs) s'"
proof -
  note I = lane_invD[OF inv]
  show ?thesis
  proof (cases "dm_reduce s")
    case True
    then show ?thesis using call I hd_no_changer[OF I(2)] by (intro lane_invI) (auto simp: runJob_def)
  next
    case False
    then have r: "play False (RunDone_c it) s = (s', cs')" using call by (simp add: runJob_def)
    note f = play_fields[OF r] num_play[OF r]
    have "num changer (cs' @ cs) s' = 0" using I(2) by (intro changer_play[OF r]) simp_all
    from hd_no_changer[OF this] show ?thesis using I by (intro lane_invI; (simp only: f)?) auto
  qed
qed

lemma lane_inv_runDone:
  assumes inv: "lane_inv (RunDone_c it # cs) s" and call: "runDone it s = (s', cs')"
  shows "lane_inv (cs' @ cs) s'"
proof -
  have "cs' = [Step_c]" "dm_running s' = None" "dm_live s' = dm_live s" "dm_laneBusy s' = dm_laneBusy s" "dm_up s' = dm_up s" "dm_queued s' = dm_queued s"
      "dm_adding s' = dm_adding s" "dm_refilling s' = dm_refilling s"
    using call by (auto simp: runDone_def split: if_splits)
  then show ?thesis using lane_invD[OF inv] num_frame[of s' s] by (intro lane_invI) auto
qed

lemma lane_inv_addDone:
  assumes inv: "lane_inv (AddDone_c # cs) s"
  shows "lane_inv (LaneDone_c # cs) (s\<lparr>dm_adding := False\<rparr>)"
  using lane_invD[OF inv] by (intro lane_invI) (auto split: if_splits)

lemma lane_inv_refillDone:
  assumes inv: "lane_inv (RefillDone_c # cs) s" and call: "refillDone s = (s', cs')"
  shows "lane_inv (cs' @ cs) s'"
proof -
  note I = lane_invD[OF inv]
  have up: "dm_up s" "dm_refilling s" "num (\<lambda>c. c = RefillDone_c) cs s = 0" using I(8,10) by (auto split: if_splits)
  show ?thesis
  proof (cases "dm_running s = None \<and> dm_waiting s = [] \<and> \<not> dm_laneBusy s")
    case True
    then have "s' = s\<lparr>dm_refilling := False\<rparr>" "cs' = [Change_c 5 True]" using call by (auto simp: refillDone_def addJobs_def)
    then show ?thesis using I True up by (intro lane_invI) auto
  next
    case False
    then have "s' = s\<lparr>dm_refilling := False\<rparr>" "cs' = []" using call by (auto simp: refillDone_def Let_def)
    then show ?thesis using I up hd_no_changer[OF I(2)] by (intro lane_invI) auto
  qed
qed

lemma lane_inv_restartDone:
  assumes inv: "lane_inv (RestartDone_c # cs) s"
  shows "lane_inv (Step_c # cs) (s\<lparr>dm_up := True\<rparr>)"
  using lane_invD[OF inv] by (intro lane_invI) (auto split: if_splits)

lemma lane_inv_call:
  assumes "lane_inv (c # cs) s" "dm_call c s = (s', cs')"
  shows "lane_inv (cs' @ cs) s'"
proof (cases c)
  case (TakeDone_c own it)
  then show ?thesis using assms lane_inv_takeDone[of own it cs s] by (auto simp: takeDone_def)
next
  case AddDone_c
  then show ?thesis using assms lane_inv_addDone by (auto simp: addDone_def)
next
  case RestartDone_c
  then show ?thesis using assms lane_inv_restartDone by (auto simp: restartDone_def)
qed (use assms lane_inv_step lane_inv_laneDone lane_inv_change lane_inv_runJob lane_inv_runDone lane_inv_refillDone in auto)

text \<open>The timelines under way.\<close>

lemma live_ok_play: "live_ok s \<Longrightarrow> is_end c \<Longrightarrow> play bare c s = (s', cs') \<Longrightarrow> live_ok s'"
  by (auto simp: live_ok_def play_def split: if_splits)

lemma live_ok_updates:
  "dm_live s' = dm_live s \<Longrightarrow> dm_gen s' = dm_gen s \<Longrightarrow> dm_reduce s' = dm_reduce s \<Longrightarrow> live_ok s' = live_ok s"
  by (simp add: live_ok_def)

lemma live_ok_call:
  assumes "live_ok s" "dm_call c s = (s', cs')"
  shows "live_ok s'"
proof (cases c)
  case Step_c
  show ?thesis
  proof (cases rule: step_cases[of s])
    case (taking it more)
    have "live_ok (taken it more s)" using assms(1) live_ok_updates[of "taken it more s" s] by simp
    then show ?thesis using live_ok_play assms(2) Step_c taking(5) by (metis dm_call.simps(1) is_end.simps(1,4))
  next
    case refill
    have "live_ok (s\<lparr>dm_refilling := True\<rparr>)" using assms(1) live_ok_updates[of "s\<lparr>dm_refilling := True\<rparr>" s] by simp
    then show ?thesis using live_ok_play assms(2) Step_c refill(7) by (metis dm_call.simps(1) is_end.simps(1,4))
  qed (use assms Step_c in simp)
next
  case (Change_c n quiet)
  then obtain cs0 where r: "play (n = 0 \<or> SHOW \<le> length (dm_waiting s)) AddDone_c (added n quiet s) = (s', cs0)"
    using assms(2) by (auto simp: add_change_def split: prod.splits)
  have "live_ok (added n quiet s)" using assms(1) live_ok_updates[of "added n quiet s" s] by simp
  then show ?thesis by (rule live_ok_play[OF _ _ r]) simp
next
  case (RunJob_c it)
  then show ?thesis using assms live_ok_play[of s "RunDone_c it"] by (auto simp: runJob_def split: if_splits)
next
  case LaneDone_c
  then have "dm_live s' = dm_live s" "dm_gen s' = dm_gen s" "dm_reduce s' = dm_reduce s"
    using assms by (auto simp: laneDone_def Let_def split: list.splits)
  then show ?thesis using assms(1) live_ok_updates by blast
next
  case (RunDone_c it)
  then have "dm_live s' = dm_live s" "dm_gen s' = dm_gen s" "dm_reduce s' = dm_reduce s" using assms by (auto simp: runDone_def split: if_splits)
  then show ?thesis using assms(1) live_ok_updates by blast
next
  case RefillDone_c
  then have "dm_live s' = dm_live s" "dm_gen s' = dm_gen s" "dm_reduce s' = dm_reduce s"
    using assms by (auto simp: refillDone_def addJobs_def Let_def split: if_splits)
  then show ?thesis using assms(1) live_ok_updates by blast
qed (use assms in \<open>auto simp: takeDone_def addDone_def restartDone_def live_ok_def\<close>)

text \<open>The running job's duty.\<close>

lemma run_invI:
  assumes "num (\<lambda>c. runner c \<noteq> None \<and> runner c \<noteq> dm_running s) cs s = 0" "num (\<lambda>c. runner c \<noteq> None) cs s \<le> (if dm_running s = None then 0 else 1)"
    "dm_running s \<noteq> None \<Longrightarrow> \<not> dm_reduce s \<Longrightarrow> num (\<lambda>c. runner c \<noteq> None) cs s = 1"
  shows "run_inv cs s"
  using assms unfolding run_inv_def by blast

text \<open>A call that is no duty of the running job, and starts none, leaves the duties of the running job alone.\<close>

lemma run_inv_keep:
  assumes "run_inv (c # cs) s" "runner c = None" "dm_running s' = dm_running s" "dm_reduce s' = dm_reduce s"
    "\<And>P. (\<And>x. P x \<Longrightarrow> runner x \<noteq> None) \<Longrightarrow> num P (cs' @ cs) s' = num P cs s"
  shows "run_inv (cs' @ cs) s'"
proof -
  have "num (\<lambda>c. runner c \<noteq> None \<and> runner c \<noteq> dm_running s) (cs' @ cs) s' = num (\<lambda>c. runner c \<noteq> None \<and> runner c \<noteq> dm_running s) cs s"
    "num (\<lambda>c. runner c \<noteq> None) (cs' @ cs) s' = num (\<lambda>c. runner c \<noteq> None) cs s" by (rule assms(5); blast)+
  then show ?thesis using assms(1-4) unfolding run_inv_def by simp
qed

lemma run_inv_play:
  assumes "run_inv (c # cs) s" "runner c = None" "play bare x s1 = (s', cs')" "runner x = None"
    "dm_running s1 = dm_running s" "dm_reduce s1 = dm_reduce s" "dm_live s1 = dm_live s"
  shows "run_inv (cs' @ cs) s'"
proof (rule run_inv_keep[OF assms(1,2)])
  show "num P (cs' @ cs) s' = num P cs s" if "\<And>x. P x \<Longrightarrow> runner x \<noteq> None" for P
    using num_play[OF assms(3), of P cs] that[of x] assms(4) num_frame[OF assms(7), of P cs] by auto
qed (use play_fields[OF assms(3)] assms(5,6) in auto)

lemma run_inv_call:
  assumes inv: "run_inv (c # cs) s" and call: "dm_call c s = (s', cs')"
  shows "run_inv (cs' @ cs) s'"
proof (cases c)
  case Step_c
  show ?thesis
  proof (cases rule: step_cases[of s])
    case rest
    then show ?thesis using inv call Step_c by (simp add: run_inv_def)
  next
    case (taking it more)
    have r: "play False (TakeDone_c (\<not> dm_laneBusy s) (it\<lparr>it_again := False\<rparr>)) (taken it more s) = (s', cs')" using taking(5) call Step_c by simp
    have none: "num (\<lambda>c. runner c \<noteq> None) cs s = 0" using inv taking(2) Step_c by (simp add: run_inv_def)
    then have "num (\<lambda>c. runner c \<noteq> None \<and> runner c \<noteq> Some (it\<lparr>it_again := False\<rparr>)) cs s = 0"
      using num_mono[of "\<lambda>c. runner c \<noteq> None \<and> runner c \<noteq> Some (it\<lparr>it_again := False\<rparr>)" "\<lambda>c. runner c \<noteq> None" cs s] by simp
    then show ?thesis using none by (intro run_invI; (simp only: play_fields[OF r] num_play[OF r])?) simp_all
  next
    case refill
    have r: "play False RefillDone_c (s\<lparr>dm_refilling := True\<rparr>) = (s', cs')" using refill(7) call Step_c by simp
    show ?thesis by (rule run_inv_play[OF inv _ r]) (use Step_c in auto)
  qed
next
  case (Change_c n quiet)
  then obtain cs0 where r: "play (n = 0 \<or> SHOW \<le> length (dm_waiting s)) AddDone_c (added n quiet s) = (s', cs0)" "cs' = cs0 @ [Step_c]"
    using call by (auto simp: add_change_def split: prod.splits)
  have "run_inv (c # Step_c # cs) s" using inv by (simp add: run_inv_def)
  from run_inv_play[OF this _ r(1)] show ?thesis using Change_c r(2) by simp
next
  case (RunJob_c it)
  then show ?thesis
  proof (cases "dm_reduce s")
    case True
    then show ?thesis using RunJob_c inv call by (auto simp: runJob_def run_inv_def split: if_splits)
  next
    case False
    then have r: "play False (RunDone_c it) s = (s', cs')" using call RunJob_c by (simp add: runJob_def)
    then show ?thesis using inv RunJob_c unfolding run_inv_def num_play[OF r] play_fields[OF r] by (auto split: if_splits)
  qed
next
  case LaneDone_c
  then show ?thesis using inv call by (auto simp: laneDone_def run_inv_def Let_def split: list.splits)
next
  case (RunDone_c it)
  then have "num (\<lambda>c. runner c \<noteq> None) cs s = 0" using inv by (auto simp: run_inv_def split: if_splits)
  moreover have "cs' = [Step_c]" "dm_running s' = None" "dm_live s' = dm_live s" using RunDone_c call by (auto simp: runDone_def split: if_splits)
  ultimately show ?thesis using num_frame[of s' s] by (auto simp: run_inv_def)
next
  case RefillDone_c
  then show ?thesis using inv call by (auto simp: refillDone_def addJobs_def run_inv_def Let_def split: if_splits)
qed (use inv call in \<open>auto simp: takeDone_def addDone_def restartDone_def run_inv_def split: if_splits\<close>)

text \<open>The jobs held.\<close>

lemma newItems_new:
  "map it_key (dm_waiting (newItems n s)) = map it_key (dm_waiting s) @ [dm_made s..<dm_made (newItems n s)]" "dm_made (newItems n s) = dm_made s + n"
proof (induction n arbitrary: s)
  case (Suc n)
  { case 1 show ?case using Suc[of "(snd (newItem s))\<lparr>dm_waiting := dm_waiting s @ [fst (newItem s)]\<rparr>"] by (simp add: newItem_def upt_conv_Cons) }
  { case 2 show ?case using Suc[of "(snd (newItem s))\<lparr>dm_waiting := dm_waiting s @ [fst (newItem s)]\<rparr>"] by (simp add: newItem_def) }
qed simp_all

lemma added_new:
  "map it_key (dm_waiting (added n quiet s)) = map it_key (dm_waiting s) @ [dm_made s..<dm_made s + n]" "dm_made (added n quiet s) = dm_made s + n"
  using newItems_new[of n "s\<lparr>dm_laneBusy := True, dm_adding := True\<rparr>"] by (simp_all add: added_def say_def Let_def)

text \<open>A call serves the jobs in order: it takes out the job whose run ends, and puts new ones behind the others.\<close>

fun ends_run :: "DemoCall \<Rightarrow> bool" where
  "ends_run (RunDone_c it) = True"
| "ends_run _ = False"

lemma keys_call:
  assumes inv: "run_inv (c # cs) s" and call: "dm_call c s = (s', cs')"
  shows "keys s' = (if ends_run c then tl (keys s) else keys s) @ [dm_made s..<dm_made s']" "dm_made s \<le> dm_made s'" "dm_mode s' = dm_mode s"
    "\<not> list_ex ends_run cs'"
proof -
  have "keys s' = (if ends_run c then tl (keys s) else keys s) @ [dm_made s..<dm_made s'] \<and> dm_made s \<le> dm_made s' \<and> dm_mode s' = dm_mode s \<and> \<not> list_ex ends_run cs'"
  proof (cases c)
    case Step_c
    show ?thesis
    proof (cases rule: step_cases[of s])
      case rest
      then show ?thesis using call Step_c by (simp add: keys_def)
    next
      case (taking it more)
      have r: "play False (TakeDone_c (\<not> dm_laneBusy s) (it\<lparr>it_again := False\<rparr>)) (taken it more s) = (s', cs')" using taking(5) call Step_c by simp
      then show ?thesis using play_fields[OF r] taking(2,4) Step_c by (auto simp: keys_def in_hand_def play_def split: if_splits)
    next
      case refill
      then have r: "play False RefillDone_c (s\<lparr>dm_refilling := True\<rparr>) = (s', cs')" using call Step_c by simp
      then show ?thesis using play_fields[OF r] Step_c by (auto simp: keys_def in_hand_def play_def split: if_splits)
    qed
  next
    case (Change_c n quiet)
    then obtain cs0 where r: "play (n = 0 \<or> SHOW \<le> length (dm_waiting s)) AddDone_c (added n quiet s) = (s', cs0)" "cs' = cs0 @ [Step_c]"
      using call by (auto simp: add_change_def split: prod.splits)
    then show ?thesis using play_fields[OF r(1)] Change_c added_new[of n quiet s] by (auto simp: keys_def in_hand_def play_def split: if_splits)
  next
    case (RunDone_c it)
    then have "dm_running s = Some it" using inv by (simp add: run_inv_def split: if_splits)
    moreover have "dm_running s' = None" "dm_waiting s' = dm_waiting s" "dm_made s' = dm_made s" "dm_mode s' = dm_mode s" "cs' = [Step_c]"
      using call RunDone_c by (auto simp: runDone_def split: if_splits)
    ultimately show ?thesis using RunDone_c by (simp add: keys_def in_hand_def)
  next
    case LaneDone_c
    then show ?thesis using call by (auto simp: laneDone_def keys_def in_hand_def Let_def split: list.splits)
  next
    case (RunJob_c it)
    then show ?thesis using call by (auto simp: runJob_def keys_def in_hand_def play_def split: if_splits)
  next
    case RefillDone_c
    then show ?thesis using call by (auto simp: refillDone_def addJobs_def keys_def in_hand_def Let_def split: if_splits)
  qed (use call in \<open>auto simp: takeDone_def addDone_def restartDone_def keys_def in_hand_def split: if_splits\<close>)
  then show "keys s' = (if ends_run c then tl (keys s) else keys s) @ [dm_made s..<dm_made s']" "dm_made s \<le> dm_made s'" "dm_mode s' = dm_mode s"
    "\<not> list_ex ends_run cs'" by blast+
qed

definition run_list :: "Demo \<Rightarrow> Item list" where
  "run_list s = (case dm_running s of Some it \<Rightarrow> [it] | None \<Rightarrow> [])"

lemma inflight_call:
  assumes inv: "run_inv (c # cs) s" and infl: "dm_inflight s = (if persistent s then run_list s else [])" and call: "dm_call c s = (s', cs')"
  shows "dm_inflight s' = (if persistent s' then run_list s' else [])"
proof (cases c)
  case Step_c
  show ?thesis
  proof (cases rule: step_cases[of s])
    case rest
    then show ?thesis using call Step_c infl by simp
  next
    case (taking it more)
    have r: "play False (TakeDone_c (\<not> dm_laneBusy s) (it\<lparr>it_again := False\<rparr>)) (taken it more s) = (s', cs')" using taking(5) call Step_c by simp
    then show ?thesis using play_fields[OF r] infl taking(2) by (auto simp: run_list_def persistent_def)
  next
    case refill
    then have r: "play False RefillDone_c (s\<lparr>dm_refilling := True\<rparr>) = (s', cs')" using call Step_c by simp
    then show ?thesis using play_fields[OF r] infl by (auto simp: run_list_def persistent_def)
  qed
next
  case (Change_c n quiet)
  then obtain cs0 where r: "play (n = 0 \<or> SHOW \<le> length (dm_waiting s)) AddDone_c (added n quiet s) = (s', cs0)"
    using call by (auto simp: add_change_def split: prod.splits)
  then show ?thesis using play_fields[OF r] infl by (auto simp: run_list_def persistent_def)
next
  case (RunDone_c it)
  then have "dm_running s = Some it" using inv by (simp add: run_inv_def split: if_splits)
  then show ?thesis using call RunDone_c infl by (auto simp: runDone_def run_list_def persistent_def splice_out_def split: if_splits)
next
  case LaneDone_c
  then show ?thesis using call infl by (auto simp: laneDone_def run_list_def persistent_def Let_def split: list.splits)
next
  case (RunJob_c it)
  then show ?thesis using call infl by (auto simp: runJob_def run_list_def persistent_def play_def split: if_splits)
next
  case RefillDone_c
  then show ?thesis using call infl by (auto simp: refillDone_def addJobs_def run_list_def persistent_def Let_def split: if_splits)
qed (use call infl in \<open>auto simp: takeDone_def addDone_def restartDone_def run_list_def persistent_def\<close>)

lemma fresh_keys:
  assumes "distinct ks" "\<forall>x \<in> set ks. x < m" "m \<le> m'"
  shows "distinct (ks @ [m..<m'])" "\<forall>x \<in> set (ks @ [m..<m']). x < m'"
  using assms by (force, force)

lemma data_inv_call:
  assumes "run_inv (c # cs) s" "data_inv s" "dm_call c s = (s', cs')"
  shows "data_inv s'"
proof -
  note k = keys_call[OF assms(1,3)]
  have "distinct (keys s)" "\<forall>x \<in> set (keys s). x < dm_made s" using assms(2) by (auto simp: data_inv_def)
  then have "distinct (if ends_run c then tl (keys s) else keys s)" "\<forall>x \<in> set (if ends_run c then tl (keys s) else keys s). x < dm_made s"
    by (cases "keys s"; auto)+
  then have "distinct (keys s')" "\<forall>x \<in> set (keys s'). x < dm_made s'" unfolding k(1) using fresh_keys k(2) by blast+
  then show ?thesis using inflight_call[OF assms(1) _ assms(3)] assms(2) by (simp add: data_inv_def run_list_def)
qed

text \<open>The worker goes on.\<close>

lemma work_inv_call:
  assumes inv: "work_inv (c # cs) s" and call: "dm_call c s = (s', cs')"
  shows "work_inv (cs' @ cs) s'"
proof (cases c)
  case Step_c
  show ?thesis
  proof (cases rule: step_cases[of s])
    case rest
    then show ?thesis using call Step_c by (auto simp: work_inv_def)
  next
    case (taking it more)
    then have r: "play False (TakeDone_c (\<not> dm_laneBusy s) (it\<lparr>it_again := False\<rparr>)) (taken it more s) = (s', cs')" using call Step_c by simp
    show ?thesis using play_fields[OF r] by (simp add: work_inv_def)
  next
    case refill
    then have r: "play False RefillDone_c (s\<lparr>dm_refilling := True\<rparr>) = (s', cs')" using call Step_c by simp
    show ?thesis using play_fields[OF r] refill(6) by (simp add: work_inv_def)
  qed
next
  case (RunJob_c it)
  then show ?thesis using call inv by (auto simp: runJob_def work_inv_def play_def split: if_splits)
next
  case RefillDone_c
  then show ?thesis using call inv by (auto simp: refillDone_def addJobs_def work_inv_def Let_def split: if_splits)
next
  case (TakeDone_c own it)
  then show ?thesis using call inv by (auto simp: takeDone_def work_inv_def)
qed (use call in \<open>auto simp: laneDone_def add_change_def runDone_def addDone_def restartDone_def work_inv_def Let_def split: list.splits prod.splits if_splits\<close>)

section \<open>Reachable demos\<close>

definition dm_inv :: "DemoCall list \<Rightarrow> Demo \<Rightarrow> bool" where
  "dm_inv cs s \<longleftrightarrow> lane_inv cs s \<and> run_inv cs s \<and> live_ok s \<and> data_inv s \<and> work_inv cs s"

lemma dm_inv_exec: "dm_inv cs s \<Longrightarrow> dm_inv [] (dm_exec cs s)"
proof (induction cs s rule: dm_exec.induct)
  case (2 c cs s)
  obtain s' cs' where call: "dm_call c s = (s', cs')" by force
  have L: "lane_inv (c # cs) s" "run_inv (c # cs) s" "live_ok s" "data_inv s" "work_inv (c # cs) s" using 2(2) by (simp_all add: dm_inv_def)
  have "dm_inv (cs' @ cs) s'" unfolding dm_inv_def
    by (intro conjI lane_inv_call[OF L(1) call] run_inv_call[OF L(2) call] live_ok_call[OF L(3) call] data_inv_call[OF L(2,4) call] work_inv_call[OF L(5) call])
  then show ?case using 2(1) call by simp
qed simp

lemma keys_exec:
  "run_inv cs s \<Longrightarrow> \<not> list_ex ends_run cs \<Longrightarrow> keys (dm_exec cs s) = keys s @ [dm_made s..<dm_made (dm_exec cs s)] \<and> dm_made s \<le> dm_made (dm_exec cs s)
     \<and> dm_mode (dm_exec cs s) = dm_mode s"
proof (induction cs s rule: dm_exec.induct)
  case (2 c cs s)
  obtain s' cs' where call: "dm_call c s = (s', cs')" by force
  note k = keys_call[OF 2(2) call]
  have e: "\<not> ends_run c" "\<not> list_ex ends_run (cs' @ cs)" using 2(3) k(4) by auto
  have IH: "keys (dm_exec (cs' @ cs) s') = keys s' @ [dm_made s'..<dm_made (dm_exec (cs' @ cs) s')] \<and> dm_made s' \<le> dm_made (dm_exec (cs' @ cs) s')
     \<and> dm_mode (dm_exec (cs' @ cs) s') = dm_mode s'"
    by (rule 2(1)[OF call[symmetric] run_inv_call[OF 2(2) call] e(2)])
  have "[dm_made s..<dm_made s'] @ [dm_made s'..<dm_made (dm_exec (cs' @ cs) s')] = [dm_made s..<dm_made (dm_exec (cs' @ cs) s')]"
    using k(2) IH upt_add_eq_append[of "dm_made s" "dm_made s'" "dm_made (dm_exec (cs' @ cs) s') - dm_made s'"] by simp
  then show ?case using IH k(1-3) e(1) call by (simp add: le_trans)
qed (simp add: keys_def)

lemma num_empty: "dm_live s = [] \<Longrightarrow> num P [] s = 0"
  by (simp add: num_def duties_def)

lemma finish_event_inv:
  assumes inv: "dm_inv [] s" and i: "i < length (dm_live s)" and s': "s' = s\<lparr>dm_live := splice_out i (dm_live s)\<rparr>"
  shows "dm_inv [snd (dm_live s ! i)] s'" "fst (dm_live s ! i) = dm_gen s"
proof -
  note n = num_finish[OF i s']
  have f: "dm_laneBusy s' = dm_laneBusy s" "dm_up s' = dm_up s" "dm_queued s' = dm_queued s" "dm_adding s' = dm_adding s" "dm_refilling s' = dm_refilling s"
      "dm_running s' = dm_running s" "dm_reduce s' = dm_reduce s" "dm_waiting s' = dm_waiting s" "dm_visible s' = dm_visible s" "dm_gen s' = dm_gen s"
      "dm_made s' = dm_made s" "dm_inflight s' = dm_inflight s" "dm_mode s' = dm_mode s" by (simp_all add: s')
  have L: "lane_inv [] s" "run_inv [] s" "live_ok s" "data_inv s" "work_inv [] s" using inv by (simp_all add: dm_inv_def)
  have c: "num changer [snd (dm_live s ! i)] s' = 0" using n[of changer] L(1) by (simp add: lane_inv_def)
  have "lane_inv [snd (dm_live s ! i)] s'"
    using L(1) hd_no_changer[OF c] by (intro lane_invI; (simp only: n f)?) (auto simp: lane_inv_def)
  moreover have "run_inv [snd (dm_live s ! i)] s'" using L(2) unfolding run_inv_def n f .
  moreover have "live_ok s'" using L(3) i unfolding live_ok_def f
    by (auto simp: s' splice_out_def list_all_iff dest: in_set_takeD in_set_dropD)
  moreover have "data_inv s'" using L(4) by (simp add: data_inv_def keys_def in_hand_def persistent_def f)
  moreover have "work_inv [snd (dm_live s ! i)] s'" using L(5) by (auto simp: work_inv_def f)
  ultimately show "dm_inv [snd (dm_live s ! i)] s'" by (simp add: dm_inv_def)
  show "fst (dm_live s ! i) = dm_gen s" using L(3) i by (simp add: live_ok_def list_all_length)
qed

lemma settled:
  "lane_inv [] s'" "run_inv [] s'" "live_ok s'"
  if "dm_live s' = []" "dm_queued s' = []" "\<not> dm_laneBusy s'" "\<not> dm_adding s'" "\<not> dm_refilling s'" "dm_up s'" "dm_running s' = None" for s'
  using that by (simp_all add: lane_inv_def run_inv_def live_ok_def num_empty)

lemma open_inv:
  assumes "dm_live s = []" "dm_queued s = []" "\<not> dm_laneBusy s" "\<not> dm_adding s" "\<not> dm_refilling s"
  shows "dm_inv (snd (open_stage mode s)) (fst (open_stage mode s))"
proof -
  define s' where "s' = fst (open_stage mode s)"
  have f: "dm_live s' = []" "dm_queued s' = []" "\<not> dm_laneBusy s'" "\<not> dm_adding s'" "\<not> dm_refilling s'" "dm_up s'" "dm_running s' = None"
    "dm_inflight s' = []" using assms by (simp_all add: s'_def open_stage_def)
  have "keys s' = [dm_made s..<dm_made s']" "dm_made s \<le> dm_made s'"
    using newItems_new[of START "s\<lparr>dm_mode := mode, dm_waiting := [], dm_running := None, dm_inflight := [], dm_up := True\<rparr>"] f(7)
    by (simp_all add: s'_def open_stage_def keys_def in_hand_def)
  then have "data_inv s'" using f by (simp add: data_inv_def)
  moreover have "lane_inv [Step_c] s'" "run_inv [Step_c] s'" "live_ok s'" "work_inv [Step_c] s'"
    using settled[OF f(1-7)] f by (simp_all add: lane_inv_def run_inv_def work_inv_def num_empty)
  ultimately show ?thesis by (simp add: dm_inv_def s'_def[symmetric]) (simp add: open_stage_def)
qed

lemma settle_fields: "dm_live (settleAll s) = []" "dm_queued (settleAll s) = []" "\<not> dm_laneBusy (settleAll s)" "\<not> dm_adding (settleAll s)" "\<not> dm_refilling (settleAll s)"
  by (simp_all add: settleAll_def)

lemma demo_crashed_fields:
  "dm_live (demo_crashed s) = []" "dm_queued (demo_crashed s) = []" "\<not> dm_laneBusy (demo_crashed s)" "\<not> dm_adding (demo_crashed s)" "\<not> dm_refilling (demo_crashed s)"
  "\<not> dm_up (demo_crashed s)" "dm_running (demo_crashed s) = None" "dm_inflight (demo_crashed s) = (if persistent s then [] else dm_inflight s)"
  "dm_made (demo_crashed s) = dm_made s" "dm_mode (demo_crashed s) = dm_mode s" "dm_reduce (demo_crashed s) = dm_reduce s"
  "dm_waiting (demo_crashed s) = (if persistent s then map (\<lambda>it. it\<lparr>it_again := True\<rparr>) (dm_inflight s) @ dm_waiting s else [])"
  "dm_result (demo_crashed s) = (if persistent s then kept_text (dm_mode s) (length (dm_waiting s)) (dm_running s) else lost_text (length (dm_waiting s)) (dm_running s))"
  by (simp_all add: demo_crashed_def settleAll_def requeue_def say_def Let_def persistent_def)

lemma demo_crashed_keys:
  assumes "data_inv s"
  shows "keys (demo_crashed s) = (if persistent s then keys s else [])"
  using assms by (auto simp: data_inv_def keys_def in_hand_def demo_crashed_fields comp_def split: option.splits)

lemma restart_inv:
  assumes "dm_inv [] s" "restart s = (s', cs')" "dm_up s"
  shows "dm_inv cs' s'"
proof -
  have r: "play False RestartDone_c (demo_crashed s) = (s', cs')" using assms by (simp add: restart_def)
  have n: "num P cs' s' = (if P RestartDone_c then 1 else 0)" for P using num_play[OF r, of P "[]"] num_empty[OF demo_crashed_fields(1)] by simp
  note f = play_fields[OF r]
  have d: "data_inv s" using assms(1) by (simp add: dm_inv_def)
  have c: "num changer cs' s' = 0" by (simp add: n)
  have "lane_inv cs' s'" using hd_no_changer[OF c] by (intro lane_invI) (simp_all add: n f demo_crashed_fields)
  moreover have "run_inv cs' s'" by (simp add: run_inv_def n f demo_crashed_fields)
  moreover have "live_ok s'" using live_ok_play[OF _ _ r] by (simp add: live_ok_def demo_crashed_fields)
  moreover have "data_inv (demo_crashed s)" using d demo_crashed_keys[OF d]
    by (auto simp: data_inv_def demo_crashed_fields persistent_def)
  then have "data_inv s'" by (simp add: data_inv_def keys_def in_hand_def persistent_def f)
  moreover have "work_inv cs' s'" by (simp add: work_inv_def f demo_crashed_fields)
  ultimately show ?thesis by (simp add: dm_inv_def)
qed

lemma add_inv:
  assumes "dm_inv [] s" "addJobs 5 False s = (s', cs')" "dm_up s"
  shows "dm_inv cs' s'"
proof (cases "dm_laneBusy s")
  case True
  then have s': "s' = s\<lparr>dm_queued := dm_queued s @ [(5, False)]\<rparr>" "cs' = []" using assms(2) by (auto simp: addJobs_def)
  then show ?thesis using assms(1) True
    by (simp add: dm_inv_def lane_inv_def run_inv_def live_ok_def data_inv_def work_inv_def keys_def in_hand_def persistent_def)
next
  case False
  then have s': "s' = s" "cs' = [Change_c 5 False]" using assms(2) by (auto simp: addJobs_def)
  then show ?thesis using assms(1,3) False by (simp add: dm_inv_def lane_inv_def run_inv_def work_inv_def)
qed

lemma say_frames:
  "lane_inv cs (say t s) = lane_inv cs s" "run_inv cs (say t s) = run_inv cs s" "live_ok (say t s) = live_ok s" "data_inv (say t s) = data_inv s"
  "work_inv cs (say t s) = work_inv cs s"
  unfolding lane_inv_def run_inv_def live_ok_def data_inv_def work_inv_def keys_def in_hand_def persistent_def say_def by simp_all

lemma say_inv: "dm_inv cs s \<Longrightarrow> dm_inv cs (say t s)"
  by (simp only: dm_inv_def say_frames)

lemma event_inv:
  assumes inv: "dm_inv [] s"
  shows "dm_inv [] (dm_event e s)"
proof (cases e)
  case (Finish i)
  then show ?thesis using inv finish_event_inv[OF inv, of i] dm_inv_exec by (auto simp: Let_def simp del: dm_exec.simps split: prod.splits)
next
  case ClickRestart
  show ?thesis
  proof (cases "dm_up s")
    case True
    then show ?thesis using ClickRestart restart_inv[OF inv, of "fst (restart s)" "snd (restart s)"] by (simp add: run_calls_def dm_inv_exec)
  next
    case False
    then show ?thesis using ClickRestart inv by (simp add: restart_def run_calls_def)
  qed
next
  case ClickAdd
  then show ?thesis using inv add_inv[OF inv, of "fst (addJobs 5 False s)" "snd (addJobs 5 False s)"] by (simp add: run_calls_def dm_inv_exec say_inv)
next
  case (OpenTab mode)
  then show ?thesis using open_inv[OF settle_fields] by (simp add: run_calls_def dm_inv_exec say_inv)
next
  case Resize
  then show ?thesis using open_inv[OF settle_fields] by (simp add: run_calls_def dm_inv_exec say_inv)
next
  case (InView v)
  have "dm_inv [Step_c] (s\<lparr>dm_visible := True\<rparr>)" "dm_inv [] (s\<lparr>dm_visible := False\<rparr>)"
    using inv by (auto simp: dm_inv_def lane_inv_def run_inv_def live_ok_def data_inv_def work_inv_def keys_def in_hand_def persistent_def)
  then show ?thesis using InView dm_inv_exec by (auto simp: Let_def simp del: dm_exec.simps)
qed

lemma reachable_inv: "dm_reachable s \<Longrightarrow> dm_inv [] s"
proof (induction rule: dm_reachable.induct)
  case (dm_booted reduce)
  have "dm_inv (snd (open_stage Mem (dm_init reduce))) (fst (open_stage Mem (dm_init reduce)))" by (rule open_inv) (simp_all add: dm_init_def)
  then show ?case by (simp add: dm_boot_def run_calls_def dm_inv_exec)
qed (rule event_inv)

lemma boot_inv: "dm_inv [] (dm_boot reduce)"
  by (rule reachable_inv) (rule dm_booted)

interpretation storage_demo: scene "\<lambda>s. \<exists>reduce. s = dm_boot reduce" "\<lambda>e s. Some (dm_event e s)" "dm_inv []"
  by unfold_locales (auto simp: boot_inv intro: event_inv)

text \<open>What no call changes.\<close>

lemma call_frames:
  assumes "dm_call c s = (s', cs')"
  shows "dm_visible s' = dm_visible s \<and> dm_reduce s' = dm_reduce s \<and> dm_mode s' = dm_mode s"
  using assms by (cases c) (auto simp: dm_defs split: if_splits list.splits prod.splits)

lemma exec_frames: "dm_visible (dm_exec cs s) = dm_visible s \<and> dm_reduce (dm_exec cs s) = dm_reduce s \<and> dm_mode (dm_exec cs s) = dm_mode s"
proof (induction cs s rule: dm_exec.induct)
  case (2 c cs s)
  obtain s' cs' where call: "dm_call c s = (s', cs')" by force
  then show ?case using 2[OF call[symmetric]] call_frames[OF call] by simp
qed simp

lemma say_fields: "dm_visible (say t s) = dm_visible s" "dm_reduce (say t s) = dm_reduce s" "dm_mode (say t s) = dm_mode s"
  by (simp_all add: say_def)

lemma event_frames:
  "dm_reduce (dm_event e s) = dm_reduce s" "dm_visible (dm_event e s) = (case e of InView v \<Rightarrow> v | _ \<Rightarrow> dm_visible s)"
  "dm_mode (dm_event e s) = (case e of OpenTab m \<Rightarrow> m | _ \<Rightarrow> dm_mode s)"
  by (cases e; simp add: Let_def run_calls_def restart_def addJobs_def open_stage_def play_def say_fields exec_frames demo_crashed_def settleAll_def requeue_def
      split: prod.split del: dm_exec.simps)+

lemma boot_frames: "dm_reduce (dm_boot reduce) = reduce"
  by (simp add: dm_boot_def run_calls_def exec_frames open_stage_def dm_init_def del: dm_exec.simps)

section \<open>What the demo promises\<close>

text \<open>
  C28: in every state the storage demo can reach, the lane is busy exactly while one timeline under way holds it, changes wait only
  for a busy lane, unless motion is reduced a job runs exactly while one timeline under way is its own, the records in flight are
  those of the running job of a store, and no job is held twice.
\<close>
theorem store_demo_one_holder_one_job:
  assumes "dm_reachable s"
  shows "length (filter holder (map snd (dm_live s))) = (if dm_laneBusy s then 1 else 0) \<and> (dm_queued s \<noteq> [] \<longrightarrow> dm_laneBusy s)
    \<and> (\<not> dm_reduce s \<longrightarrow> map runner (filter (\<lambda>c. runner c \<noteq> None) (map snd (dm_live s))) = (case dm_running s of Some it \<Rightarrow> [Some it] | None \<Rightarrow> []))
    \<and> dm_inflight s = (if persistent s then run_list s else []) \<and> distinct (keys s)"
proof -
  have L: "lane_inv [] s" "run_inv [] s" "data_inv s" using reachable_inv[OF assms] by (simp_all add: dm_inv_def)
  let ?r = "filter (\<lambda>c. runner c \<noteq> None) (map snd (dm_live s))"
  have r: "map runner ?r = (case dm_running s of Some it \<Rightarrow> [Some it] | None \<Rightarrow> [])" if m: "\<not> dm_reduce s"
  proof (cases "dm_running s")
    case None
    then have "length ?r = 0" using L(2) by (simp add: run_inv_def num_def duties_def)
    then show ?thesis using None by (simp only: length_0_conv list.map option.case)
  next
    case (Some it)
    then have "length ?r = 1" using L(2) m by (simp add: run_inv_def num_def duties_def)
    then obtain c where c: "?r = [c]" using length_Suc_conv[of ?r 0] by (metis One_nat_def length_0_conv)
    then have "c \<in> set ?r" by (simp only: list.set_intros)
    then have "runner c \<noteq> None" "c \<in> set (map snd (dm_live s))" by simp_all
    moreover have "\<forall>x \<in> set (map snd (dm_live s)). \<not> (runner x \<noteq> None \<and> runner x \<noteq> dm_running s)"
      using L(2) unfolding run_inv_def num_none by simp
    ultimately have "runner c = Some it" using Some by auto
    then show ?thesis using Some by (simp only: c list.map option.case)
  qed
  show ?thesis using L(1,3) r by (auto simp: lane_inv_def num_def duties_def data_inv_def run_list_def)
qed

lemma events_reachable: "dm_reachable s \<Longrightarrow> dm_reachable (fold dm_event es s)"
  by (induction es arbitrary: s) (auto intro: dm_next)

theorem store_demo_one_holder_one_job_witness:
  "distinct (keys (fold dm_event [InView True, OpenTab Rds, Finish 0, ClickAdd, ClickRestart] (dm_boot False)))"
  using store_demo_one_holder_one_job[OF events_reachable[OF dm_booted], of "[InView True, OpenTab Rds, Finish 0, ClickAdd, ClickRestart]" False]
  by blast

text \<open>
  C29: in view the storage demo never stops and its worker never idles: in every state it can reach with the stage in view and
  motion not reduced, a timeline is under way that something follows, and while the process is up and a job waits, a job runs.
\<close>
theorem store_demo_goes_on:
  assumes "dm_reachable s" "dm_visible s" "\<not> dm_reduce s"
  shows "dm_live s \<noteq> [] \<and> (dm_up s \<and> dm_waiting s \<noteq> [] \<longrightarrow> dm_running s \<noteq> None)"
proof -
  have L: "lane_inv [] s" "run_inv [] s" "work_inv [] s" using reachable_inv[OF assms(1)] by (simp_all add: dm_inv_def)
  have ends: "list_all (\<lambda>x. is_end (snd x)) (dm_live s)" using reachable_inv[OF assms(1)] by (auto simp: dm_inv_def live_ok_def list_all_iff)
  have runs: "dm_running s \<noteq> None" if "dm_up s" "dm_waiting s \<noteq> []"
  proof
    assume idle: "dm_running s = None"
    then have busy: "dm_laneBusy s" "\<not> dm_adding s" using L(3) that assms by (auto simp: work_inv_def)
    then have "num holder [] s = 1" "num (\<lambda>c. c = AddDone_c) [] s = 0" "num (\<lambda>c. runner c \<noteq> None) [] s = 0"
      using L(1,2) idle by (simp_all add: lane_inv_def run_inv_def)
    then have "\<exists>c \<in> snd ` set (dm_live s). holder c" and no: "\<forall>c \<in> snd ` set (dm_live s). c \<noteq> AddDone_c \<and> runner c = None"
      using num_none[of holder s] num_none[of "\<lambda>c. c = AddDone_c" s] num_none[of "\<lambda>c. runner c \<noteq> None" s] by auto
    then obtain c where c: "c \<in> snd ` set (dm_live s)" "holder c" by blast
    then have "is_end c" using ends by (auto simp: list_all_iff)
    moreover have "c \<noteq> AddDone_c" "runner c = None" using bspec[OF no c(1)] by simp_all
    ultimately show False using c(2) by (cases c) auto
  qed
  moreover have "dm_live s \<noteq> []"
  proof
    assume "dm_live s = []"
    then have none: "num P [] s = 0" for P by (rule num_empty)
    then have "\<not> dm_laneBusy s" "\<not> dm_refilling s" "dm_up s" "dm_running s = None"
      using L(1,2) assms(3) by (auto simp: lane_inv_def run_inv_def split: if_splits)
    then show False using L(3) assms(2,3) by (auto simp: work_inv_def)
  qed
  ultimately show ?thesis by blast
qed

theorem store_demo_goes_on_witness:
  "dm_live (fold dm_event [InView True, ClickRestart] (dm_boot False)) \<noteq> []"
proof -
  have "dm_visible (fold dm_event [InView True, ClickRestart] (dm_boot False))" "\<not> dm_reduce (fold dm_event [InView True, ClickRestart] (dm_boot False))"
    by (simp_all add: event_frames boot_frames del: dm_event.simps)
  from store_demo_goes_on[OF events_reachable[OF dm_booted] this] show ?thesis by blast
qed

text \<open>Whether an event is the end of a job's run.\<close>

definition run_ends :: "Event \<Rightarrow> Demo \<Rightarrow> bool" where
  "run_ends e s = (case e of Finish i \<Rightarrow> dm_visible s \<and> i < length (dm_live s) \<and> ends_run (snd (dm_live s ! i)) | _ \<Rightarrow> False)"

definition reopens :: "Event \<Rightarrow> bool" where
  "reopens e = (case e of OpenTab _ \<Rightarrow> True | Resize \<Rightarrow> True | _ \<Rightarrow> False)"

lemma exec1:
  assumes "run_inv [c] s"
  shows "keys (dm_exec [c] s) = (if ends_run c then tl (keys s) else keys s) @ [dm_made s..<dm_made (dm_exec [c] s)]" "dm_made s \<le> dm_made (dm_exec [c] s)"
proof -
  obtain s' cs' where call: "dm_call c s = (s', cs')" by force
  note k = keys_call[OF assms call]
  have e: "dm_exec [c] s = dm_exec cs' s'" by (simp add: call)
  have IH: "keys (dm_exec cs' s') = keys s' @ [dm_made s'..<dm_made (dm_exec cs' s')] \<and> dm_made s' \<le> dm_made (dm_exec cs' s')"
    using keys_exec[OF run_inv_call[OF assms call]] k(4) by simp
  have "[dm_made s..<dm_made s'] @ [dm_made s'..<dm_made (dm_exec cs' s')] = [dm_made s..<dm_made (dm_exec cs' s')]"
    using k(2) IH upt_add_eq_append[of "dm_made s" "dm_made s'" "dm_made (dm_exec cs' s') - dm_made s'"] by simp
  then show "keys (dm_exec [c] s) = (if ends_run c then tl (keys s) else keys s) @ [dm_made s..<dm_made (dm_exec [c] s)]" "dm_made s \<le> dm_made (dm_exec [c] s)"
    unfolding e using IH k(1,2) by auto
qed

lemma keys_say [simp]: "keys (say t s) = keys s" "dm_made (say t s) = dm_made s"
  by (simp_all add: keys_def in_hand_def say_def)

lemma restart_keys:
  assumes "dm_inv [] s" "dm_up s" "persistent s"
  shows "keys (run_calls (restart s)) = keys s @ [dm_made s..<dm_made (run_calls (restart s))]"
proof -
  obtain s' cs' where r: "restart s = (s', cs')" by force
  then have p: "play False RestartDone_c (demo_crashed s) = (s', cs')" using assms(2) by (simp add: restart_def)
  have d: "data_inv s" using assms(1) by (simp add: dm_inv_def)
  have "keys s' = keys s" "dm_made s' = dm_made s"
    using demo_crashed_keys[OF d] assms(3) play_fields[OF p] by (simp_all add: keys_def in_hand_def demo_crashed_fields)
  moreover have "run_inv cs' s'" "\<not> list_ex ends_run cs'" using restart_inv[OF assms(1) r assms(2)] p by (auto simp: dm_inv_def play_def split: if_splits)
  ultimately show ?thesis using keys_exec[of cs' s'] by (simp add: run_calls_def r)
qed

text \<open>
  C30: the storage demo serves its jobs in order and loses none. At every event of a state it can reach, a new stage and a restart
  of a queue in memory apart, the jobs held, the running one first, stay the same in the same order: the end of a run takes out
  the first, and new ones come behind. So a restart of the process with Redis or SQLite keeps every job, the one that ran first.
\<close>
theorem store_demo_keeps_jobs_in_order:
  assumes "dm_reachable s" "\<not> reopens e" "e = ClickRestart \<longrightarrow> persistent s"
  shows "keys (dm_event e s) = (if run_ends e s then tl (keys s) else keys s) @ [dm_made s..<dm_made (dm_event e s)]"
proof -
  note inv = reachable_inv[OF assms(1)]
  show ?thesis
  proof (cases e)
    case (Finish i)
    show ?thesis
    proof (cases "dm_visible s \<and> i < length (dm_live s)")
      case True
      define s' where "s' = s\<lparr>dm_live := splice_out i (dm_live s)\<rparr>"
      have f: "dm_inv [snd (dm_live s ! i)] s'" "fst (dm_live s ! i) = dm_gen s" using finish_event_inv[OF inv _ s'_def] True by auto
      have "dm_event e s = dm_exec [snd (dm_live s ! i)] s'"
        using Finish True f(2) by (auto simp: s'_def Let_def simp del: dm_exec.simps split: prod.splits)
      moreover have "keys s' = keys s" "dm_made s' = dm_made s" by (simp_all add: s'_def keys_def in_hand_def)
      ultimately show ?thesis using exec1(1)[of "snd (dm_live s ! i)" s'] f(1) Finish True by (simp add: dm_inv_def run_ends_def del: dm_exec.simps)
    qed (use Finish in \<open>auto simp: run_ends_def\<close>)
  next
    case ClickRestart
    then show ?thesis using restart_keys[OF inv] assms(3) by (cases "dm_up s") (simp_all add: run_ends_def restart_def run_calls_def)
  next
    case ClickAdd
    show ?thesis
    proof (cases "dm_up s \<and> \<not> dm_laneBusy s")
      case True
      then have "run_inv [Change_c 5 False] s" using inv by (simp add: dm_inv_def run_inv_def)
      from exec1(1)[OF this] show ?thesis using ClickAdd True by (simp add: run_ends_def run_calls_def addJobs_def del: dm_exec.simps)
    next
      case False
      then show ?thesis using ClickAdd by (auto simp: run_ends_def run_calls_def addJobs_def keys_def in_hand_def say_def)
    qed
  next
    case (InView v)
    have "run_inv [Step_c] (s\<lparr>dm_visible := True\<rparr>)" using inv by (simp add: dm_inv_def run_inv_def)
    from exec1(1)[OF this] show ?thesis using InView by (cases v) (simp_all add: run_ends_def keys_def in_hand_def Let_def del: dm_exec.simps)
  qed (use assms(2) in \<open>auto simp: reopens_def\<close>)
qed

theorem store_demo_keeps_jobs_in_order_witness:
  "(let s = fold dm_event [InView True, OpenTab Sql, Finish 0] (dm_boot False) in
     keys (dm_event ClickRestart s) = keys s @ [dm_made s..<dm_made (dm_event ClickRestart s)])"
proof -
  let ?s = "fold dm_event [InView True, OpenTab Sql, Finish 0] (dm_boot False)"
  have "persistent ?s" by (simp add: persistent_def event_frames del: dm_event.simps)
  moreover have "\<not> reopens ClickRestart" "\<not> run_ends ClickRestart ?s" by (simp_all add: reopens_def run_ends_def del: fold_simps)
  ultimately show ?thesis using store_demo_keeps_jobs_in_order[OF events_reachable[OF dm_booted], of ClickRestart "[InView True, OpenTab Sql, Finish 0]" False]
    unfolding Let_def by simp
qed

text \<open>A restart of a queue in memory loses every job, and the message counts them.\<close>

lemma memory_restart_loses_every_job:
  assumes "dm_reachable s" "dm_up s" "\<not> persistent s" "\<not> dm_reduce s"
  shows "keys (dm_event ClickRestart s) = [] \<and> dm_result (dm_event ClickRestart s) = lost_text (length (dm_waiting s)) (dm_running s)"
proof -
  have d: "data_inv s" using reachable_inv[OF assms(1)] by (simp add: dm_inv_def)
  have "dm_event ClickRestart s = (demo_crashed s)\<lparr>dm_live := [(dm_gen (demo_crashed s), RestartDone_c)]\<rparr>"
    using assms(2,4) by (simp add: restart_def play_def run_calls_def demo_crashed_fields)
  then show ?thesis using demo_crashed_keys[OF d] assms(3) by (simp add: keys_def in_hand_def demo_crashed_fields)
qed

end
