(* ===== verification/Guide_Handle.thy ===== *)
theory Guide_Handle
  imports Prelude Scene "HOL-Library.Multiset"
begin

text \<open>
  \<open>docs/src/components/guides-a/queue-handle.ts\<close>: a bounded queue and its handle. \<open>Add\<close> refuses a job when the
  queue is full or closed, a started worker takes the waiting jobs into a batch outside the queue, \<open>Purge\<close> closes every job
  that has not started, and \<open>Close\<close> stops the queue taking jobs. The state is the closure of \<open>init\<close>; each button, the
  stepper of \<open>kit.ts\<close> and the timer are an operation; the reader's motion preference is an argument of the operations that
  ask for it. What \<open>paint\<close> writes is a value, \<open>HandlePanel\<close>, kept beside the state it was painted from.
\<close>

section \<open>Data\<close>

record HandleJob =
  hj_n :: nat
  hj_purged :: bool

record HandlePanel =
  hp_queue :: "nat list"
  hp_free :: nat
  hp_run :: "nat option"
  hp_runHint :: string
  hp_batch :: "nat list"
  hp_closed :: "nat list"
  hp_ran :: "nat list"
  hp_len :: string
  hp_full :: bool
  hp_state :: string
  hp_startText :: string
  hp_startDisabled :: bool
  hp_closeDisabled :: bool

record Handle =
  hs_capacity :: int
  hs_queue :: "HandleJob list"
  hs_batch :: "HandleJob list"
  hs_running :: "HandleJob option"
  hs_closedJobs :: "HandleJob list"
  hs_ran :: "HandleJob list"
  hs_isClosed :: bool
  hs_started :: bool
  hs_n :: nat
  hs_pending :: bool

record HandleScene =
  sc_state :: Handle
  sc_panel :: HandlePanel
  sc_caption :: string
  sc_result :: "string \<times> string"
  sc_why :: string
  sc_said :: string

datatype HandleEvent = AddClick | PurgeClick | CloseClick | StartClick | ResetClick | CapDec | CapInc | TimerFires

section \<open>The queue and the worker\<close>

definition handle_first :: Handle where
  "handle_first = \<lparr>hs_capacity = 2, hs_queue = [], hs_batch = [], hs_running = None, hs_closedJobs = [], hs_ran = [],
     hs_isClosed = False, hs_started = False, hs_n = 0, hs_pending = False\<rparr>"

definition isFull :: "Handle \<Rightarrow> bool" where
  "isFull s \<longleftrightarrow> 0 < hs_capacity s \<and> hs_capacity s \<le> int (length (hs_queue s))"

definition hq_pull :: "Handle \<Rightarrow> Handle" where
  "hq_pull s =
    (if \<not> hs_started s \<or> hs_running s \<noteq> None \<or> hs_batch s \<noteq> [] \<or> hs_queue s = [] then s
     else s\<lparr>hs_batch := take 32 (hs_queue s), hs_queue := drop 32 (hs_queue s)\<rparr>)"

text \<open>\<open>next\<close> calls itself for each purged job at the front of the batch.\<close>

fun next_in :: "HandleJob list \<Rightarrow> HandleJob list \<Rightarrow> HandleJob list \<times> HandleJob list \<times> HandleJob option" where
  "next_in closed [] = (closed, [], None)"
| "next_in closed (j # batch) = (if hj_purged j then next_in (closed @ [j]) batch else (closed, batch, Some j))"

definition hq_next :: "Handle \<Rightarrow> Handle" where
  "hq_next s =
    (if hs_running s \<noteq> None then s
     else case next_in (hs_closedJobs s) (hs_batch s) of
       (closed, batch, running) \<Rightarrow> s\<lparr>hs_closedJobs := closed, hs_batch := batch, hs_running := running\<rparr>)"

definition hq_advance :: "Handle \<Rightarrow> Handle" where
  "hq_advance s = hq_next (hq_pull s)"

definition hq_schedule :: "Handle \<Rightarrow> Handle" where
  "hq_schedule s = (if hs_pending s \<or> hs_running s = None then s else s\<lparr>hs_pending := True\<rparr>)"

definition hq_finish :: "Handle \<Rightarrow> Handle" where
  "hq_finish s = (case hs_running s of None \<Rightarrow> s | Some j \<Rightarrow> s\<lparr>hs_ran := hs_ran s @ [j], hs_running := None\<rparr>)"

definition handle_left :: "Handle \<Rightarrow> nat" where
  "handle_left s = length (hs_queue s) + length (hs_batch s) + (if hs_running s = None then 0 else 1)"

lemma next_in_length:
  "next_in closed batch = (closed', batch', r)
    \<Longrightarrow> length batch' + (if r = None then 0 else 1) \<le> length batch \<and> (r = None \<longrightarrow> batch' = [])"
  by (induction closed batch rule: next_in.induct) (auto split: if_splits)

lemma advance_left:
  assumes "hs_running (hq_advance s) \<noteq> None"
  shows "handle_left (hq_finish (hq_advance s)) < handle_left s"
  using assms next_in_length
  by (fastforce simp: hq_advance_def hq_next_def hq_pull_def hq_finish_def handle_left_def split: prod.splits if_splits)

function hq_drain :: "Handle \<Rightarrow> Handle" where
  "hq_drain s = (let s' = hq_next (hq_pull s) in if hs_running s' = None then s' else hq_drain (hq_finish s'))"
  by pat_completeness auto
termination
  by (relation "measure handle_left") (use advance_left in \<open>simp_all add: hq_advance_def\<close>)

declare hq_drain.simps [simp del]

section \<open>What \<open>paint\<close> writes\<close>

abbreviation job_label :: "nat \<Rightarrow> string" where
  "job_label k \<equiv> ''job '' @ string_of_nat k"

definition handle_paint :: "bool \<Rightarrow> Handle \<Rightarrow> HandlePanel" where
  "handle_paint reduce s =
    \<lparr>hp_queue = map hj_n (hs_queue s),
     hp_free = (if 0 < hs_capacity s then nat (hs_capacity s) - length (hs_queue s) else 0),
     hp_run = map_option hj_n (hs_running s),
     hp_runHint = (if hs_started s then ''idle'' else ''not started''),
     hp_batch = map hj_n (hs_batch s),
     hp_closed = map hj_n (hs_closedJobs s),
     hp_ran = map hj_n (hs_ran s),
     hp_len = string_of_nat (length (hs_queue s)),
     hp_full = isFull s,
     hp_state = (if hs_isClosed s then ''closed'' else if 0 < hs_capacity s then ''capacity '' @ string_of_int (hs_capacity s) else ''no limit''),
     hp_startText = (if reduce then ''Run all'' else if hs_started s then ''Worker started'' else ''Start worker''),
     hp_startDisabled = (hs_started s \<and> \<not> reduce),
     hp_closeDisabled = hs_isClosed s\<rparr>"

definition handle_show :: "bool \<Rightarrow> Handle \<Rightarrow> HandleScene \<Rightarrow> HandleScene" where
  "handle_show reduce s c = c\<lparr>sc_state := s, sc_panel := handle_paint reduce s\<rparr>"

section \<open>The controls\<close>

definition handle_FIRST_CAP :: string where
  "handle_FIRST_CAP = ''queue := worker.BindQueue(varmq.WithQueueCapacity(2))''"

definition cap_caption :: "int \<Rightarrow> string" where
  "cap_caption v = ''queue := worker.BindQueue(varmq.WithQueueCapacity('' @ string_of_int v @ ''))''"

text \<open>The stepper's \<open>set\<close> clamps (here to 0 and 5), then calls \<open>onChange\<close>.\<close>

definition cap_set :: "bool \<Rightarrow> int \<Rightarrow> HandleScene \<Rightarrow> HandleScene" where
  "cap_set reduce v c =
    (let v' = stepper_set 0 5 v; s = sc_state c in
     handle_show reduce (s\<lparr>hs_capacity := v'\<rparr>) (c\<lparr>sc_caption := cap_caption v'\<rparr>))"

definition add_refused_why :: "Handle \<Rightarrow> string" where
  "add_refused_why s =
    (if hs_isClosed s then ''The queue is closed. Add only returns false: it does not say why.''
     else ''The queue is full. Add does not block. It returns false.'')"

definition add_room_why :: "Handle \<Rightarrow> string" where
  "add_room_why s =
    ''There is room: '' @ (if 0 < hs_capacity s
      then string_of_nat (length (hs_queue s)) @ '' of '' @ string_of_int (hs_capacity s) @ '' places are taken.''
      else ''the queue has no limit.'')"

definition hq_push :: "Handle \<Rightarrow> Handle" where
  "hq_push s = s\<lparr>hs_n := Suc (hs_n s), hs_queue := hs_queue s @ [\<lparr>hj_n = Suc (hs_n s), hj_purged = False\<rparr>]\<rparr>"

definition hq_work :: "bool \<Rightarrow> Handle \<Rightarrow> Handle" where
  "hq_work reduce s = (if hs_started s \<and> reduce then hq_drain s else if hs_started s then hq_advance s else s)"

definition hq_add_click :: "bool \<Rightarrow> HandleScene \<Rightarrow> HandleScene" where
  "hq_add_click reduce c =
    (let s = sc_state c; label = job_label (Suc (hs_n s)); c1 = c\<lparr>sc_caption := ''queue.Add('' @ [CHR 0x22] @ label @ [CHR 0x22] @ '')''\<rparr> in
     if hs_isClosed s \<or> isFull s
     then handle_show reduce s (c1\<lparr>sc_result := (''nil, false'', ''bad''), sc_why := add_refused_why s,
            sc_said := ''Add returned nil and false. '' @ (if hs_isClosed s then ''The queue is closed.'' else ''The queue is full.'')\<rparr>)
     else let s1 = hq_push s; s2 = hq_work reduce s1 in
       (handle_show reduce s2 (c1\<lparr>sc_result := (label @ '', true'', ''ok''), sc_why := add_room_why s1,
            sc_said := ''Add returned '' @ label @ '' and true.''\<rparr>))\<lparr>sc_state := hq_schedule s2\<rparr>)"

definition hq_purge :: "Handle \<Rightarrow> Handle" where
  "hq_purge s = s\<lparr>hs_closedJobs := hs_closedJobs s @ hs_queue s, hs_queue := [],
     hs_batch := map (\<lambda>j. j\<lparr>hj_purged := True\<rparr>) (hs_batch s)\<rparr>"

definition hq_purge_click :: "bool \<Rightarrow> HandleScene \<Rightarrow> HandleScene" where
  "hq_purge_click reduce c =
    (let s = sc_state c; gone = length (hs_queue s) in
     handle_show reduce (hq_purge s) (c\<lparr>sc_caption := ''queue.Purge()'',
       sc_why := (if hs_queue s \<noteq> [] \<or> hs_batch s \<noteq> [] then ''Purge closed every job that has not started. A running job is not affected.''
                  else ''The queue was empty.''),
       sc_said := ''Purge closed '' @ string_of_nat gone @ '' waiting '' @ (if gone = 1 then ''job'' else ''jobs'') @ ''.''\<rparr>))"

definition hq_close_click :: "bool \<Rightarrow> HandleScene \<Rightarrow> HandleScene" where
  "hq_close_click reduce c =
    handle_show reduce ((sc_state c)\<lparr>hs_isClosed := True\<rparr>) (c\<lparr>sc_caption := ''queue.Close()'',
      sc_why := ''Every later Add returns false. The jobs in the queue stay and still run.'',
      sc_said := ''The queue is closed. Jobs inside still run.''\<rparr>)"

definition hq_start_click :: "bool \<Rightarrow> HandleScene \<Rightarrow> HandleScene" where
  "hq_start_click reduce c =
    (let s = (sc_state c)\<lparr>hs_started := True\<rparr>; c1 = c\<lparr>sc_caption := ''worker.Start()''\<rparr> in
     if reduce then handle_show reduce (hq_drain s) (c1\<lparr>sc_said := ''The worker ran every job.''\<rparr>)
     else (handle_show reduce (hq_advance s)
             (c1\<lparr>sc_said := ''Worker started. It took the waiting jobs into a batch, so the queue has room again.''\<rparr>))
           \<lparr>sc_state := hq_schedule (hq_advance s)\<rparr>)"

definition hq_reset_click :: "bool \<Rightarrow> HandleScene \<Rightarrow> HandleScene" where
  "hq_reset_click reduce c =
    (cap_set reduce 2 (c\<lparr>sc_state := handle_first\<rparr>))
      \<lparr>sc_result := (''not called'', ''dim''), sc_why := '''', sc_caption := handle_FIRST_CAP, sc_said := ''Reset.''\<rparr>"

text \<open>The timer that \<open>schedule\<close> set. It is only there while \<open>pending\<close>; a reset cancels it.\<close>

definition hq_timer :: "Handle \<Rightarrow> Handle" where
  "hq_timer s = hq_advance (hq_finish (s\<lparr>hs_pending := False\<rparr>))"

definition hq_timer_fires :: "bool \<Rightarrow> HandleScene \<Rightarrow> HandleScene" where
  "hq_timer_fires reduce c =
    (let s = hq_timer (sc_state c); c1 = handle_show reduce s c in
     c1\<lparr>sc_state := hq_schedule s,
        sc_said := (if hs_running s = None \<and> hs_queue s = [] \<and> hs_batch s = [] then ''The worker is idle.'' else sc_said c)\<rparr>)"

text \<open>A disabled button takes no click; the timer fires only when it is set.\<close>

fun handle_event :: "bool \<Rightarrow> HandleEvent \<Rightarrow> HandleScene \<Rightarrow> HandleScene" where
  "handle_event reduce AddClick c = hq_add_click reduce c"
| "handle_event reduce PurgeClick c = hq_purge_click reduce c"
| "handle_event reduce CloseClick c = (if hp_closeDisabled (sc_panel c) then c else hq_close_click reduce c)"
| "handle_event reduce StartClick c = (if hp_startDisabled (sc_panel c) then c else hq_start_click reduce c)"
| "handle_event reduce ResetClick c = hq_reset_click reduce c"
| "handle_event reduce CapDec c = (if hs_capacity (sc_state c) \<le> 0 then c else cap_set reduce (hs_capacity (sc_state c) - 1) c)"
| "handle_event reduce CapInc c = (if 5 \<le> hs_capacity (sc_state c) then c else cap_set reduce (hs_capacity (sc_state c) + 1) c)"
| "handle_event reduce TimerFires c = (if hs_pending (sc_state c) then hq_timer_fires reduce c else c)"

definition handle_opens :: "bool \<Rightarrow> HandleScene \<Rightarrow> bool" where
  "handle_opens reduce c \<longleftrightarrow> sc_state c = handle_first \<and> sc_panel c = handle_paint reduce handle_first"

definition handle_act :: "bool \<times> HandleEvent \<Rightarrow> HandleScene \<Rightarrow> HandleScene option" where
  "handle_act e c = Some (handle_event (fst e) (snd e) c)"

section \<open>Where a job is\<close>

definition handle_path :: "Handle \<Rightarrow> HandleJob list" where
  "handle_path s = hs_ran s @ (case hs_running s of None \<Rightarrow> [] | Some j \<Rightarrow> [j]) @ hs_batch s @ hs_queue s"

text \<open>Each job is closed, or somewhere on the way from the queue to the finished ones, and the way keeps the order of the adds.\<close>

definition handle_placed :: "Handle \<Rightarrow> bool" where
  "handle_placed s \<longleftrightarrow> mset (map hj_n (hs_closedJobs s @ handle_path s)) = mset [1..<Suc (hs_n s)]
     \<and> sorted_wrt (<) (map hj_n (handle_path s))
     \<and> (\<forall>j \<in> set (hs_ran s) \<union> set_option (hs_running s) \<union> set (hs_queue s). \<not> hj_purged j)"

text \<open>The worker holds a batch only while it runs a job, and a running job has its timer.\<close>

definition handle_timed :: "Handle \<Rightarrow> bool" where
  "handle_timed s \<longleftrightarrow> (hs_batch s \<noteq> [] \<longrightarrow> hs_running s \<noteq> None) \<and> (hs_running s \<noteq> None \<longrightarrow> hs_pending s)
     \<and> (hs_pending s \<longrightarrow> hs_started s) \<and> length (hs_batch s) < 32 \<and> 0 \<le> hs_capacity s \<and> hs_capacity s \<le> 5"

definition handle_shown :: "HandleScene \<Rightarrow> bool" where
  "handle_shown c \<longleftrightarrow> (\<exists>reduce. sc_panel c = handle_paint reduce (sc_state c))"

definition handle_inv :: "HandleScene \<Rightarrow> bool" where
  "handle_inv c \<longleftrightarrow> handle_placed (sc_state c) \<and> handle_timed (sc_state c) \<and> handle_shown c"

lemma next_in_split:
  "next_in closed batch = (closed', batch', r)
    \<Longrightarrow> \<exists>gone. closed' = closed @ gone \<and> batch = gone @ (case r of None \<Rightarrow> [] | Some j \<Rightarrow> [j]) @ batch'
      \<and> (\<forall>j \<in> set gone. hj_purged j) \<and> (\<forall>j. r = Some j \<longrightarrow> \<not> hj_purged j) \<and> (r = None \<longrightarrow> batch' = [])"
  by (induction closed batch rule: next_in.induct) (auto split: if_splits)

lemma pull_path [simp]: "handle_path (hq_pull s) = handle_path s"
  by (auto simp: handle_path_def hq_pull_def)

lemma pull_fields [simp]:
  "hs_closedJobs (hq_pull s) = hs_closedJobs s" "hs_ran (hq_pull s) = hs_ran s" "hs_running (hq_pull s) = hs_running s"
  "hs_n (hq_pull s) = hs_n s" "hs_started (hq_pull s) = hs_started s" "hs_pending (hq_pull s) = hs_pending s"
  "hs_capacity (hq_pull s) = hs_capacity s" "hs_isClosed (hq_pull s) = hs_isClosed s"
  by (simp_all add: hq_pull_def)

lemma next_fields [simp]:
  "hs_queue (hq_next s) = hs_queue s" "hs_ran (hq_next s) = hs_ran s" "hs_n (hq_next s) = hs_n s"
  "hs_started (hq_next s) = hs_started s" "hs_pending (hq_next s) = hs_pending s" "hs_capacity (hq_next s) = hs_capacity s"
  "hs_isClosed (hq_next s) = hs_isClosed s"
  by (simp_all add: hq_next_def split: prod.split)

lemma finish_fields [simp]:
  "hs_queue (hq_finish s) = hs_queue s" "hs_batch (hq_finish s) = hs_batch s" "hs_running (hq_finish s) = None"
  "hs_closedJobs (hq_finish s) = hs_closedJobs s" "hs_n (hq_finish s) = hs_n s" "hs_started (hq_finish s) = hs_started s"
  "hs_pending (hq_finish s) = hs_pending s" "hs_capacity (hq_finish s) = hs_capacity s" "hs_isClosed (hq_finish s) = hs_isClosed s"
  by (simp_all add: hq_finish_def split: option.split)

lemma finish_path [simp]: "handle_path (hq_finish s) = handle_path s"
  by (simp add: handle_path_def hq_finish_def split: option.split)

lemma placed_finish: "handle_placed s \<Longrightarrow> handle_placed (hq_finish s)"
  by (auto simp: handle_placed_def hq_finish_def handle_path_def simp del: upt_Suc split: option.splits)

lemma pull_queue_set: "set (hs_queue (hq_pull s)) \<subseteq> set (hs_queue s)"
  by (auto simp: hq_pull_def dest: in_set_dropD)

lemma placed_pull: "handle_placed s \<Longrightarrow> handle_placed (hq_pull s)"
  using pull_queue_set [of s] by (auto simp: handle_placed_def)

lemma next_split:
  obtains gone where "hs_closedJobs (hq_next s) = hs_closedJobs s @ gone" "\<forall>j \<in> set gone. hj_purged j"
    "hs_running s = None \<Longrightarrow> hs_batch s = gone @ (case hs_running (hq_next s) of None \<Rightarrow> [] | Some j \<Rightarrow> [j]) @ hs_batch (hq_next s)"
    "hs_running s = None \<Longrightarrow> \<forall>j. hs_running (hq_next s) = Some j \<longrightarrow> \<not> hj_purged j"
    "hs_running s = None \<Longrightarrow> hs_running (hq_next s) = None \<Longrightarrow> hs_batch (hq_next s) = []"
    "hs_running s \<noteq> None \<Longrightarrow> hq_next s = s"
proof (cases "hs_running s")
  case None
  obtain closed batch r where r: "next_in (hs_closedJobs s) (hs_batch s) = (closed, batch, r)" by (metis prod_cases3)
  with None have s': "hq_next s = s\<lparr>hs_closedJobs := closed, hs_batch := batch, hs_running := r\<rparr>" by (simp add: hq_next_def)
  from next_in_split [OF r] None s' show ?thesis by (auto intro: that)
next
  case (Some j)
  then show ?thesis by (intro that [of "[]"]) (simp_all add: hq_next_def)
qed

lemma placed_next:
  assumes "handle_placed s"
  shows "handle_placed (hq_next s)"
proof (cases "hs_running s")
  case None
  obtain gone where g: "hs_closedJobs (hq_next s) = hs_closedJobs s @ gone"
      "hs_batch s = gone @ (case hs_running (hq_next s) of None \<Rightarrow> [] | Some j \<Rightarrow> [j]) @ hs_batch (hq_next s)"
      "\<forall>j. hs_running (hq_next s) = Some j \<longrightarrow> \<not> hj_purged j"
    using next_split [of s] None by metis
  with None assms show ?thesis
    by (auto simp: handle_placed_def handle_path_def sorted_wrt_append ac_simps)
next
  case (Some j)
  with assms show ?thesis by (simp add: hq_next_def)
qed

lemma placed_advance: "handle_placed s \<Longrightarrow> handle_placed (hq_advance s)"
  by (simp add: hq_advance_def placed_next placed_pull)

lemma placed_drain: "handle_placed s \<Longrightarrow> handle_placed (hq_drain s)"
proof (induction s rule: hq_drain.induct)
  case (1 s)
  have "handle_placed (hq_next (hq_pull s))" using "1.prems" by (intro placed_next placed_pull)
  with "1.IH" placed_finish show ?case by (subst hq_drain.simps) (auto simp: Let_def)
qed

lemma placed_push:
  assumes "handle_placed s"
  shows "handle_placed (hq_push s)"
proof -
  have "set (map hj_n (hs_closedJobs s @ handle_path s)) = set [1..<Suc (hs_n s)]"
    using assms unfolding handle_placed_def by (metis mset_eq_setD)
  then have "hj_n ` set (handle_path s) \<subseteq> {1..<Suc (hs_n s)}" by (auto simp del: upt_Suc)
  then have "\<forall>j \<in> set (handle_path s). hj_n j < Suc (hs_n s)" by force
  with assms show ?thesis
    by (auto simp: handle_placed_def hq_push_def handle_path_def sorted_wrt_append split: option.splits)
qed

lemma placed_purge: "handle_placed s \<Longrightarrow> handle_placed (hq_purge s)"
  by (auto simp: handle_placed_def hq_purge_def handle_path_def sorted_wrt_append comp_def ac_simps split: option.splits)

section \<open>The worker never stops on a batch\<close>

definition handle_ready :: "Handle \<Rightarrow> bool" where
  "handle_ready s \<longleftrightarrow> (hs_batch s \<noteq> [] \<or> hs_running s \<noteq> None \<or> hs_pending s \<longrightarrow> hs_started s)
     \<and> length (hs_batch s) < 32 \<and> 0 \<le> hs_capacity s \<and> hs_capacity s \<le> 5"

abbreviation handle_held :: "Handle \<Rightarrow> bool" where
  "handle_held s \<equiv> handle_ready s \<and> (hs_batch s \<noteq> [] \<longrightarrow> hs_running s \<noteq> None)"

lemma timed_held: "handle_timed s \<Longrightarrow> handle_held s"
  by (auto simp: handle_timed_def handle_ready_def)

lemma timed_schedule: "handle_held s \<Longrightarrow> handle_timed (hq_schedule s)"
  by (auto simp: handle_timed_def handle_ready_def hq_schedule_def)

lemma schedule_fields [simp]:
  "hs_queue (hq_schedule s) = hs_queue s" "hs_batch (hq_schedule s) = hs_batch s" "hs_running (hq_schedule s) = hs_running s"
  "hs_closedJobs (hq_schedule s) = hs_closedJobs s" "hs_ran (hq_schedule s) = hs_ran s" "hs_n (hq_schedule s) = hs_n s"
  "hs_started (hq_schedule s) = hs_started s" "hs_capacity (hq_schedule s) = hs_capacity s" "hs_isClosed (hq_schedule s) = hs_isClosed s"
  by (simp_all add: hq_schedule_def)

lemma placed_schedule [simp]: "handle_placed (hq_schedule s) = handle_placed s"
  by (simp add: handle_placed_def handle_path_def)

lemma placed_frame [simp]:
  "handle_placed (s\<lparr>hs_started := b\<rparr>) = handle_placed s" "handle_placed (s\<lparr>hs_pending := b\<rparr>) = handle_placed s"
  "handle_placed (s\<lparr>hs_isClosed := b\<rparr>) = handle_placed s" "handle_placed (s\<lparr>hs_capacity := v\<rparr>) = handle_placed s"
  by (simp_all add: handle_placed_def handle_path_def)

lemma paint_schedule [simp]: "handle_paint reduce (hq_schedule s) = handle_paint reduce s"
  by (simp add: handle_paint_def isFull_def)

lemma ready_finish: "handle_ready s \<Longrightarrow> handle_ready (hq_finish s)"
  by (auto simp: handle_ready_def)

lemma held_advance:
  assumes "handle_ready s"
  shows "handle_held (hq_advance s)"
proof (cases "hs_running s")
  case None
  let ?p = "hq_pull s"
  have p: "hs_running ?p = None" "length (hs_batch ?p) \<le> 32" "hs_batch ?p \<noteq> [] \<longrightarrow> hs_started s"
    using None assms by (auto simp: hq_pull_def handle_ready_def)
  obtain gone where "hs_batch ?p = gone @ (case hs_running (hq_next ?p) of None \<Rightarrow> [] | Some j \<Rightarrow> [j]) @ hs_batch (hq_next ?p)"
    "hs_running (hq_next ?p) = None \<Longrightarrow> hs_batch (hq_next ?p) = []"
    using next_split [of ?p] p(1) by metis
  with p assms show ?thesis by (auto simp: handle_ready_def hq_advance_def split: option.splits)
next
  case (Some j)
  then have "hq_advance s = s" by (simp add: hq_advance_def hq_pull_def hq_next_def)
  with Some assms show ?thesis by simp
qed

lemma drain_unfold: "hq_drain s = (let s' = hq_advance s in if hs_running s' = None then s' else hq_drain (hq_finish s'))"
  by (subst hq_drain.simps) (simp add: hq_advance_def Let_def)

lemma held_drain: "handle_ready s \<Longrightarrow> handle_ready (hq_drain s) \<and> hs_batch (hq_drain s) = [] \<and> hs_running (hq_drain s) = None"
proof (induction s rule: hq_drain.induct)
  case (1 s)
  show ?case
  proof (cases "hs_running (hq_advance s)")
    case None
    then have "hq_drain s = hq_advance s" by (subst drain_unfold) (simp add: Let_def)
    with None held_advance [OF "1.prems"] show ?thesis by simp
  next
    case (Some j)
    then have "hq_drain s = hq_drain (hq_finish (hq_advance s))" by (subst drain_unfold) (simp add: Let_def)
    with Some "1.IH" held_advance [OF "1.prems"] ready_finish show ?thesis by (auto simp: hq_advance_def)
  qed
qed

lemma held_work: "handle_held s \<Longrightarrow> handle_held (hq_work reduce s)"
  using held_drain [of s] held_advance [of s] by (auto simp: hq_work_def)

lemma placed_work: "handle_placed s \<Longrightarrow> handle_placed (hq_work reduce s)"
  by (simp add: hq_work_def placed_drain placed_advance)

lemma held_push: "handle_held s \<Longrightarrow> handle_held (hq_push s)"
  by (simp add: handle_ready_def hq_push_def)

lemma timed_purge: "handle_timed s \<Longrightarrow> handle_timed (hq_purge s)"
  by (simp add: handle_timed_def hq_purge_def)

lemma handle_inv_shown:
  "handle_placed s \<Longrightarrow> handle_timed s \<Longrightarrow> sc_state c = s \<Longrightarrow> sc_panel c = handle_paint reduce s \<Longrightarrow> handle_inv c"
  by (auto simp: handle_inv_def handle_shown_def)

lemma handle_show_fields [simp]:
  "sc_state (handle_show reduce s c) = s" "sc_panel (handle_show reduce s c) = handle_paint reduce s"
  by (simp_all add: handle_show_def)

subsection \<open>The state after each control\<close>

lemma add_click_state:
  "sc_state (hq_add_click reduce c) =
    (if hs_isClosed (sc_state c) \<or> isFull (sc_state c) then sc_state c else hq_schedule (hq_work reduce (hq_push (sc_state c))))"
  "sc_panel (hq_add_click reduce c) = handle_paint reduce (sc_state (hq_add_click reduce c))"
  by (simp_all add: hq_add_click_def Let_def)

lemma purge_click_state:
  "sc_state (hq_purge_click reduce c) = hq_purge (sc_state c)" "sc_panel (hq_purge_click reduce c) = handle_paint reduce (hq_purge (sc_state c))"
  by (simp_all add: hq_purge_click_def Let_def)

lemma close_click_state:
  "sc_state (hq_close_click reduce c) = (sc_state c)\<lparr>hs_isClosed := True\<rparr>"
  "sc_panel (hq_close_click reduce c) = handle_paint reduce ((sc_state c)\<lparr>hs_isClosed := True\<rparr>)"
  by (simp_all add: hq_close_click_def)

lemma start_click_state:
  "sc_state (hq_start_click reduce c) = (if reduce then hq_drain ((sc_state c)\<lparr>hs_started := True\<rparr>)
     else hq_schedule (hq_advance ((sc_state c)\<lparr>hs_started := True\<rparr>)))"
  "sc_panel (hq_start_click reduce c) = handle_paint reduce (sc_state (hq_start_click reduce c))"
  by (simp_all add: hq_start_click_def Let_def)

lemma cap_set_state:
  "sc_state (cap_set reduce v c) = (sc_state c)\<lparr>hs_capacity := min 5 (max 0 v)\<rparr>"
  "sc_panel (cap_set reduce v c) = handle_paint reduce ((sc_state c)\<lparr>hs_capacity := min 5 (max 0 v)\<rparr>)"
  by (simp_all add: cap_set_def Let_def stepper_set_def)

lemma reset_click_state:
  "sc_state (hq_reset_click reduce c) = handle_first" "sc_panel (hq_reset_click reduce c) = handle_paint reduce handle_first"
  by (simp_all add: hq_reset_click_def cap_set_state) (simp_all add: handle_first_def)

lemma timer_fires_state:
  "sc_state (hq_timer_fires reduce c) = hq_schedule (hq_timer (sc_state c))"
  "sc_panel (hq_timer_fires reduce c) = handle_paint reduce (sc_state (hq_timer_fires reduce c))"
  by (simp_all add: hq_timer_fires_def Let_def)

lemmas click_states = add_click_state purge_click_state close_click_state start_click_state cap_set_state reset_click_state
  timer_fires_state

lemma handle_first_inv: "handle_placed handle_first" "handle_timed handle_first"
  by (simp_all add: handle_placed_def handle_timed_def handle_first_def handle_path_def)

lemma timer_keeps:
  assumes "handle_placed s" "handle_timed s" "hs_pending s"
  shows "handle_placed (hq_schedule (hq_timer s))" "handle_timed (hq_schedule (hq_timer s))"
proof -
  have "handle_ready (s\<lparr>hs_pending := False\<rparr>)" using timed_held [OF assms(2)] assms by (auto simp: handle_ready_def)
  then show "handle_timed (hq_schedule (hq_timer s))"
    unfolding hq_timer_def by (intro timed_schedule held_advance ready_finish)
  show "handle_placed (hq_schedule (hq_timer s))"
    using assms by (simp add: hq_timer_def placed_advance placed_finish)
qed

lemma start_keeps_handle:
  assumes "handle_placed s" "handle_timed s"
  shows "handle_placed (hq_drain (s\<lparr>hs_started := True\<rparr>))" "handle_timed (hq_drain (s\<lparr>hs_started := True\<rparr>))"
    "handle_placed (hq_schedule (hq_advance (s\<lparr>hs_started := True\<rparr>)))" "handle_timed (hq_schedule (hq_advance (s\<lparr>hs_started := True\<rparr>)))"
proof -
  have r: "handle_ready (s\<lparr>hs_started := True\<rparr>)" using timed_held [OF assms(2)] by (auto simp: handle_ready_def)
  show "handle_timed (hq_drain (s\<lparr>hs_started := True\<rparr>))"
    using held_drain [OF r] by (auto simp: handle_timed_def handle_ready_def)
  show "handle_timed (hq_schedule (hq_advance (s\<lparr>hs_started := True\<rparr>)))" by (intro timed_schedule held_advance r)
qed (use assms in \<open>simp_all add: placed_drain placed_advance\<close>)

lemma handle_event_inv:
  assumes "handle_inv c"
  shows "handle_inv (handle_event reduce e c)"
proof -
  note p = assms [unfolded handle_inv_def]
  note i = handle_inv_shown [OF _ _ refl]
  show ?thesis
  proof (cases e)
    case AddClick
    then show ?thesis using p timed_schedule held_work held_push timed_held placed_work placed_push
      by (auto intro!: i simp: click_states)
  next
    case PurgeClick
    then show ?thesis using p by (auto intro!: i simp: click_states placed_purge timed_purge)
  next
    case CloseClick
    then show ?thesis using assms p by (auto intro!: i simp: click_states handle_timed_def)
  next
    case StartClick
    then show ?thesis using assms p start_keeps_handle by (auto intro!: i simp: click_states)
  next
    case ResetClick
    then show ?thesis by (auto intro!: i simp: click_states handle_first_inv)
  next
    case CapDec
    then show ?thesis using assms p by (auto intro!: i simp: click_states handle_timed_def)
  next
    case CapInc
    then show ?thesis using assms p by (auto intro!: i simp: click_states handle_timed_def)
  next
    case TimerFires
    then show ?thesis using assms p timer_keeps by (auto intro!: i simp: click_states)
  qed
qed

interpretation handle_scene: scene "handle_opens reduce" handle_act handle_inv
proof unfold_locales
  show "handle_inv c" if "handle_opens reduce c" for c
    using that handle_first_inv by (auto simp: handle_opens_def intro: handle_inv_shown)
qed (auto simp: handle_act_def handle_event_inv)

section \<open>Without a purge every job runs\<close>

definition handle_unpurged :: "Handle \<Rightarrow> bool" where
  "handle_unpurged s \<longleftrightarrow> hs_closedJobs s = [] \<and> (\<forall>j \<in> set (hs_batch s) \<union> set (hs_queue s). \<not> hj_purged j)"

definition handle_fed :: "Handle \<Rightarrow> bool" where
  "handle_fed s \<longleftrightarrow> (hs_started s \<and> hs_running s = None \<longrightarrow> hs_batch s = [] \<and> hs_queue s = [])"

lemma advance_unpurged:
  assumes "handle_unpurged s" "hs_started s"
  shows "handle_unpurged (hq_advance s)" "handle_path (hq_advance s) = handle_path s" "handle_left (hq_advance s) = handle_left s"
    "handle_fed (hq_advance s)"
proof -
  have all: "handle_unpurged (hq_advance s) \<and> handle_path (hq_advance s) = handle_path s \<and> handle_left (hq_advance s) = handle_left s
      \<and> handle_fed (hq_advance s)"
  proof (cases "hs_running s \<noteq> None \<or> hs_batch s = [] \<and> hs_queue s = []")
    case True
    then have "hq_advance s = s" by (auto simp: hq_advance_def hq_pull_def hq_next_def)
    with True assms show ?thesis by (auto simp: handle_fed_def)
  next
    case False
    then have "hs_batch (hq_pull s) \<noteq> []" and moved: "hs_batch s @ hs_queue s = hs_batch (hq_pull s) @ hs_queue (hq_pull s)"
      using assms(2) by (simp_all add: hq_pull_def)
    then obtain j b where b: "hs_batch (hq_pull s) = j # b" and q: "hs_batch s @ hs_queue s = j # b @ hs_queue (hq_pull s)"
      by (cases "hs_batch (hq_pull s)") auto
    have "set (j # b @ hs_queue (hq_pull s)) = set (hs_batch s @ hs_queue s)" using q by simp
    then have j: "\<not> hj_purged j" "\<forall>i \<in> set b \<union> set (hs_queue (hq_pull s)). \<not> hj_purged i"
      using assms(1) by (auto simp: handle_unpurged_def)
    then have a: "hq_advance s = (hq_pull s)\<lparr>hs_batch := b, hs_running := Some j\<rparr>"
      using False b by (simp add: hq_advance_def hq_next_def)
    have "length (hs_batch s) + length (hs_queue s) = Suc (length b + length (hs_queue (hq_pull s)))"
      using arg_cong [OF q, of length] by simp
    with False j assms q a show ?thesis by (auto simp: handle_unpurged_def handle_path_def handle_left_def handle_fed_def)
  qed
  then show "handle_unpurged (hq_advance s)" "handle_path (hq_advance s) = handle_path s" "handle_left (hq_advance s) = handle_left s"
    "handle_fed (hq_advance s)" by simp_all
qed

lemma unpurged_frame [simp]:
  "handle_unpurged (hq_finish s) = handle_unpurged s" "handle_unpurged (hq_push s) = handle_unpurged s"
  "handle_unpurged (hq_schedule s) = handle_unpurged s" "handle_fed (hq_schedule s) = handle_fed s"
  by (auto simp: handle_unpurged_def handle_fed_def hq_push_def)

lemma unpurged_updates [simp]:
  "handle_unpurged (s\<lparr>hs_pending := b\<rparr>) = handle_unpurged s" "handle_unpurged (s\<lparr>hs_started := b\<rparr>) = handle_unpurged s"
  "handle_unpurged (s\<lparr>hs_isClosed := b\<rparr>) = handle_unpurged s" "handle_unpurged (s\<lparr>hs_capacity := v\<rparr>) = handle_unpurged s"
  by (simp_all add: handle_unpurged_def)

lemma advance_started [simp]: "hs_started (hq_advance s) = hs_started s" "hs_n (hq_advance s) = hs_n s"
  by (simp_all add: hq_advance_def)

lemma drain_unpurged: "handle_unpurged s \<Longrightarrow> hs_started s \<Longrightarrow> handle_unpurged (hq_drain s) \<and> handle_fed (hq_drain s) \<and> hs_started (hq_drain s)"
proof (induction s rule: hq_drain.induct)
  case (1 s)
  then show ?case
    using advance_unpurged [of s] by (subst (1 2 3) drain_unfold) (auto simp: hq_advance_def [symmetric] Let_def)
qed

lemma work_unpurged: "handle_unpurged s \<Longrightarrow> handle_unpurged (hq_work reduce s) \<and> handle_fed (hq_work reduce s)"
  using drain_unpurged [of s] advance_unpurged [of s] by (auto simp: hq_work_def handle_fed_def)

lemma timer_unpurged:
  assumes "handle_unpurged s" "hs_started s"
  shows "handle_unpurged (hq_timer s) \<and> handle_fed (hq_timer s) \<and> hs_started (hq_timer s) \<and> hs_n (hq_timer s) = hs_n s
    \<and> handle_left (hq_timer s) = handle_left s - (if hs_running s = None then 0 else 1)"
proof -
  let ?f = "hq_finish (s\<lparr>hs_pending := False\<rparr>)"
  have "handle_left ?f = handle_left s - (if hs_running s = None then 0 else 1)" by (simp add: handle_left_def)
  with advance_unpurged [of ?f] assms show ?thesis by (simp add: hq_timer_def)
qed

lemma event_unpurged:
  assumes "handle_inv c" "handle_unpurged (sc_state c)" "handle_fed (sc_state c)" "e \<noteq> PurgeClick"
  shows "handle_unpurged (sc_state (handle_event reduce e c)) \<and> handle_fed (sc_state (handle_event reduce e c))"
proof (cases e)
  case AddClick
  then show ?thesis using assms work_unpurged [of "hq_push (sc_state c)"] by (auto simp: click_states)
next
  case StartClick
  then show ?thesis using assms drain_unpurged [of "(sc_state c)\<lparr>hs_started := True\<rparr>"] advance_unpurged [of "(sc_state c)\<lparr>hs_started := True\<rparr>"]
    by (auto simp: click_states)
next
  case TimerFires
  have "hs_pending (sc_state c) \<longrightarrow> hs_started (sc_state c)" using assms(1) by (simp add: handle_inv_def handle_timed_def)
  then show ?thesis using TimerFires assms timer_unpurged [of "sc_state c"] by (auto simp: click_states)
next
  case ResetClick
  then show ?thesis by (auto simp: click_states handle_first_def handle_unpurged_def handle_fed_def)
qed (use assms in \<open>auto simp: click_states handle_fed_def\<close>)

lemma presses_unpurged:
  assumes "handle_inv c" "handle_unpurged (sc_state c)" "handle_fed (sc_state c)" "\<forall>e \<in> set es. snd e \<noteq> PurgeClick"
  shows "\<exists>c'. presses handle_act es c = Some c' \<and> handle_inv c' \<and> handle_unpurged (sc_state c') \<and> handle_fed (sc_state c')"
  using assms
proof (induction es arbitrary: c)
  case (Cons e es)
  let ?c = "handle_event (fst e) (snd e) c"
  have "handle_inv ?c" "handle_unpurged (sc_state ?c) \<and> handle_fed (sc_state ?c)"
    using Cons.prems handle_event_inv event_unpurged by simp_all
  with Cons.IH [of ?c] Cons.prems show ?case by (simp add: handle_act_def)
qed simp

definition timer_rounds :: "bool \<Rightarrow> nat \<Rightarrow> HandleScene \<Rightarrow> HandleScene" where
  "timer_rounds reduce k = (handle_event reduce TimerFires ^^ k)"

lemma timer_rounds_left:
  assumes "handle_inv c" "handle_unpurged (sc_state c)" "handle_fed (sc_state c)" "hs_started (sc_state c)"
  shows "handle_inv (timer_rounds reduce k c) \<and> handle_unpurged (sc_state (timer_rounds reduce k c))
    \<and> handle_fed (sc_state (timer_rounds reduce k c)) \<and> hs_started (sc_state (timer_rounds reduce k c))
    \<and> hs_n (sc_state (timer_rounds reduce k c)) = hs_n (sc_state c)
    \<and> handle_left (sc_state (timer_rounds reduce k c)) = handle_left (sc_state c) - k"
proof (induction k)
  case (Suc k)
  let ?c = "timer_rounds reduce k c" and ?d = "handle_event reduce TimerFires (timer_rounds reduce k c)"
  have d: "timer_rounds reduce (Suc k) c = ?d" by (simp add: timer_rounds_def)
  have t: "hs_running (sc_state ?c) = None \<longrightarrow> handle_left (sc_state ?c) = 0" "hs_running (sc_state ?c) \<noteq> None \<longrightarrow> hs_pending (sc_state ?c)"
    using Suc.IH by (auto simp: handle_fed_def handle_left_def handle_inv_def handle_timed_def)
  have "handle_left (sc_state ?d) = handle_left (sc_state ?c) - 1 \<and> hs_started (sc_state ?d) \<and> hs_n (sc_state ?d) = hs_n (sc_state ?c)"
    using Suc.IH t timer_unpurged [of "sc_state ?c"] by (auto simp: click_states) (simp_all add: handle_left_def)
  with Suc.IH handle_event_inv [of ?c reduce TimerFires] event_unpurged [of ?c TimerFires reduce] show ?case
    by (simp add: d del: handle_event.simps)
qed (simp add: timer_rounds_def assms)

lemma unpurged_done:
  assumes "handle_placed s" "handle_unpurged s" "handle_left s = 0"
  shows "map hj_n (hs_ran s) = [1..<Suc (hs_n s)]"
proof -
  have path: "handle_path s = hs_ran s" using assms(3) by (simp add: handle_path_def handle_left_def split: if_splits option.split)
  have "mset (map hj_n (hs_ran s)) = mset [1..<Suc (hs_n s)]" "sorted_wrt (<) (map hj_n (hs_ran s))"
    using assms(1,2) path by (auto simp: handle_placed_def handle_unpurged_def simp del: upt_Suc)
  then show ?thesis by (metis properties_for_sort sorted_upt strict_sorted_iff)
qed

lemma left_le_n:
  assumes "handle_placed s"
  shows "handle_left s \<le> hs_n s"
proof -
  have "length (hs_closedJobs s @ handle_path s) = length [1..<Suc (hs_n s)]"
    using assms unfolding handle_placed_def by (metis length_map size_mset)
  then show ?thesis by (auto simp: handle_path_def handle_left_def simp del: upt_Suc split: option.splits)
qed

section \<open>A purged job never runs\<close>

definition doomed :: "nat set \<Rightarrow> Handle \<Rightarrow> bool" where
  "doomed P s \<longleftrightarrow> P \<subseteq> hj_n ` (set (hs_closedJobs s) \<union> {j \<in> set (hs_batch s). hj_purged j})"

lemma doomed_pull: "doomed P s \<Longrightarrow> doomed P (hq_pull s)"
  by (auto simp: doomed_def hq_pull_def)

lemma doomed_next:
  assumes "doomed P s"
  shows "doomed P (hq_next s)"
proof (cases "hs_running s")
  case None
  obtain gone where "hs_closedJobs (hq_next s) = hs_closedJobs s @ gone"
      "hs_batch s = gone @ (case hs_running (hq_next s) of None \<Rightarrow> [] | Some j \<Rightarrow> [j]) @ hs_batch (hq_next s)"
      "\<forall>j. hs_running (hq_next s) = Some j \<longrightarrow> \<not> hj_purged j"
    using next_split [of s] None by metis
  then have "set (hs_closedJobs s) \<union> {j \<in> set (hs_batch s). hj_purged j}
      \<subseteq> set (hs_closedJobs (hq_next s)) \<union> {j \<in> set (hs_batch (hq_next s)). hj_purged j}"
    by (auto split: option.splits)
  with assms show ?thesis unfolding doomed_def by blast
qed (use assms in \<open>simp add: hq_next_def\<close>)

lemma doomed_advance: "doomed P s \<Longrightarrow> doomed P (hq_advance s)"
  by (simp add: hq_advance_def doomed_next doomed_pull)

lemma doomed_frame [simp]:
  "doomed P (hq_finish s) = doomed P s" "doomed P (hq_push s) = doomed P s" "doomed P (hq_schedule s) = doomed P s"
  "doomed P (s\<lparr>hs_pending := b\<rparr>) = doomed P s" "doomed P (s\<lparr>hs_started := b\<rparr>) = doomed P s"
  "doomed P (s\<lparr>hs_isClosed := b\<rparr>) = doomed P s" "doomed P (s\<lparr>hs_capacity := v\<rparr>) = doomed P s"
  by (simp_all add: doomed_def hq_push_def)

lemma doomed_drain: "doomed P s \<Longrightarrow> doomed P (hq_drain s)"
proof (induction s rule: hq_drain.induct)
  case (1 s)
  then show ?case using doomed_advance [of P s]
    by (subst drain_unfold) (auto simp: hq_advance_def [symmetric] Let_def)
qed

lemma purged_jobs: "doomed P (hq_purge s) \<longleftrightarrow> P \<subseteq> hj_n ` (set (hs_closedJobs s) \<union> set (hs_queue s) \<union> set (hs_batch s))"
proof -
  have "{j \<in> set (hs_batch (hq_purge s)). hj_purged j} = (\<lambda>j. j\<lparr>hj_purged := True\<rparr>) ` set (hs_batch s)"
    by (auto simp: hq_purge_def)
  then have "hj_n ` {j \<in> set (hs_batch (hq_purge s)). hj_purged j} = hj_n ` set (hs_batch s)" by (simp add: image_image)
  then show ?thesis unfolding doomed_def image_Un by (simp add: hq_purge_def image_Un)
qed

lemma doomed_purge: "doomed P s \<Longrightarrow> doomed P (hq_purge s)"
  unfolding purged_jobs unfolding doomed_def by auto

lemma purge_dooms: "doomed (hj_n ` (set (hs_queue s) \<union> set (hs_batch s))) (hq_purge s)"
  by (auto simp: purged_jobs)

lemma doomed_event: "doomed P (sc_state c) \<Longrightarrow> e \<noteq> ResetClick \<Longrightarrow> doomed P (sc_state (handle_event reduce e c))"
  by (cases e) (simp_all add: click_states doomed_purge doomed_drain doomed_advance hq_work_def hq_timer_def)

lemma doomed_presses:
  "doomed P (sc_state c) \<Longrightarrow> \<forall>e \<in> set es. snd e \<noteq> ResetClick \<Longrightarrow> presses handle_act es c = Some c' \<Longrightarrow> doomed P (sc_state c')"
proof (induction es arbitrary: c)
  case (Cons e es)
  then show ?case using doomed_event [of P c "snd e" "fst e"] by (auto simp: handle_act_def)
qed simp

lemma doomed_not_run:
  assumes "doomed P s" "handle_placed s"
  shows "P \<inter> hj_n ` (set (hs_ran s) \<union> set_option (hs_running s)) = {}"
proof -
  have "distinct (map hj_n (hs_closedJobs s @ handle_path s))"
    using assms(2) unfolding handle_placed_def by (metis distinct_upt mset_eq_imp_distinct_iff)
  then have "hj_n ` (set (hs_closedJobs s) \<union> set (hs_batch s)) \<inter> hj_n ` (set (hs_ran s) \<union> set_option (hs_running s)) = {}"
    by (auto simp: handle_path_def split: option.splits)
  with assms(1) show ?thesis unfolding doomed_def by blast
qed

section \<open>Properties\<close>

text \<open>However the reader uses the page, every event is answered, and each job the queue accepted (they are numbered from 1 to
  \<open>n\<close>) is in exactly one place: closed, finished, running, in the batch or in the queue. The finished, running, taken and waiting
  jobs together are in the order of their adds, no finished or running job was purged, and a running job has its timer set.\<close>

theorem handle_job_in_one_place:
  assumes "handle_opens reduce c"
  shows "\<exists>c'. presses handle_act es c = Some c'
    \<and> mset (map hj_n (hs_closedJobs (sc_state c') @ handle_path (sc_state c'))) = mset [1..<Suc (hs_n (sc_state c'))]
    \<and> sorted_wrt (<) (map hj_n (handle_path (sc_state c')))
    \<and> (\<forall>j \<in> set (hs_ran (sc_state c')) \<union> set_option (hs_running (sc_state c')). \<not> hj_purged j)
    \<and> (hs_running (sc_state c') \<noteq> None \<longrightarrow> hs_pending (sc_state c') \<and> hs_started (sc_state c'))"
  using handle_scene.every_press_answered [OF assms, of es]
  by (auto simp: handle_inv_def handle_placed_def handle_timed_def simp del: upt_Suc)

definition handle_page :: HandleScene where
  "handle_page = \<lparr>sc_state = handle_first, sc_panel = handle_paint False handle_first, sc_caption = handle_FIRST_CAP,
     sc_result = (''not called'', ''dim''), sc_why = '''', sc_said = ''''\<rparr>"

lemma handle_page_opens: "handle_opens False handle_page"
  by (simp add: handle_opens_def handle_page_def)

theorem handle_job_in_one_place_witness:
  "handle_opens False handle_page \<and> (\<exists>c'. presses handle_act [(False, AddClick), (False, StartClick), (True, AddClick)] handle_page = Some c'
    \<and> mset (map hj_n (hs_closedJobs (sc_state c') @ handle_path (sc_state c'))) = mset [1..<Suc (hs_n (sc_state c'))]
    \<and> sorted_wrt (<) (map hj_n (handle_path (sc_state c'))))"
  using handle_job_in_one_place [OF handle_page_opens, of "[(False, AddClick), (False, StartClick), (True, AddClick)]"] handle_page_opens
  by blast

text \<open>C31: As long as the reader does not purge, the worker never forgets a job: after any such clicks and timers that leave the
  worker started, \<open>n\<close> more timer rounds have run every job the queue accepted, in the order of the adds.\<close>

theorem handle_runs_every_job:
  assumes "handle_opens reduce c" "\<forall>e \<in> set es. snd e \<noteq> PurgeClick" "presses handle_act es c = Some c'" "hs_started (sc_state c')"
  shows "map hj_n (hs_ran (sc_state (timer_rounds r (hs_n (sc_state c')) c'))) = [1..<Suc (hs_n (sc_state c'))]"
proof -
  have "handle_inv c" "handle_unpurged (sc_state c) \<and> handle_fed (sc_state c)"
    using assms(1) handle_scene.opens_inv by (auto simp: handle_opens_def handle_first_def handle_unpurged_def handle_fed_def)
  then have c': "handle_inv c'" "handle_unpurged (sc_state c')" "handle_fed (sc_state c')"
    using presses_unpurged [of c es] assms(2,3) by auto
  let ?d = "timer_rounds r (hs_n (sc_state c')) c'"
  have d: "handle_inv ?d" "handle_unpurged (sc_state ?d)" "hs_n (sc_state ?d) = hs_n (sc_state c')"
    "handle_left (sc_state ?d) = handle_left (sc_state c') - hs_n (sc_state c')"
    using timer_rounds_left [OF c' assms(4), of r "hs_n (sc_state c')"] by simp_all
  moreover have "handle_left (sc_state c') \<le> hs_n (sc_state c')" using c'(1) left_le_n by (simp add: handle_inv_def)
  ultimately show ?thesis using unpurged_done [of "sc_state ?d"] by (simp add: handle_inv_def del: upt_Suc)
qed

theorem handle_runs_every_job_witness:
  "map hj_n (hs_ran (sc_state (timer_rounds False 1 (hq_start_click False (hq_add_click False handle_page))))) = [1]"
proof -
  let ?c = "hq_start_click False (hq_add_click False handle_page)"
  have "presses handle_act [(False, AddClick), (False, StartClick)] handle_page = Some ?c" "hs_started (sc_state ?c)" "hs_n (sc_state ?c) = 1"
    by (simp_all add: handle_act_def click_states handle_page_def handle_first_def isFull_def hq_work_def hq_push_def handle_paint_def)
  with handle_runs_every_job [OF handle_page_opens, of "[(False, AddClick), (False, StartClick)]" ?c False] show ?thesis by simp
qed

text \<open>C32: \<open>Purge\<close> is final: a job that waits in the queue or in the batch when the reader purges is never run afterwards, whatever
  the reader does next (short of a reset, which starts the numbers again).\<close>

theorem handle_purged_never_runs:
  assumes "handle_opens reduce c" "presses handle_act es c = Some c1"
    "presses handle_act fs (hq_purge_click r c1) = Some c2" "\<forall>e \<in> set fs. snd e \<noteq> ResetClick"
  shows "hj_n ` (set (hs_queue (sc_state c1)) \<union> set (hs_batch (sc_state c1)))
    \<inter> hj_n ` (set (hs_ran (sc_state c2)) \<union> set_option (hs_running (sc_state c2))) = {}"
proof -
  have "presses handle_act (es @ (r, PurgeClick) # fs) c = Some c2" using assms(2,3) by (simp add: presses_append handle_act_def)
  then have "handle_inv c2" using handle_scene.every_press_answered [OF assms(1), of "es @ (r, PurgeClick) # fs"] by simp
  moreover have "doomed (hj_n ` (set (hs_queue (sc_state c1)) \<union> set (hs_batch (sc_state c1)))) (sc_state c2)"
    using doomed_presses [OF _ assms(4,3)] purge_dooms by (simp add: click_states)
  ultimately show ?thesis by (intro doomed_not_run) (simp_all add: handle_inv_def)
qed

theorem handle_purged_never_runs_witness:
  "hj_n ` (set (hs_queue (sc_state (hq_add_click False handle_page))) \<union> set (hs_batch (sc_state (hq_add_click False handle_page))))
    \<inter> hj_n ` (set (hs_ran (sc_state (hq_start_click False (hq_purge_click False (hq_add_click False handle_page)))))
        \<union> set_option (hs_running (sc_state (hq_start_click False (hq_purge_click False (hq_add_click False handle_page)))))) = {}"
  by (rule handle_purged_never_runs [OF handle_page_opens, of "[(False, AddClick)]" _ "[(False, StartClick)]"])
    (simp_all add: handle_act_def click_states handle_page_def handle_first_def isFull_def hq_push_def hq_purge_def hq_work_def handle_paint_def)

text \<open>\<open>Add\<close> answers \<open>nil, false\<close> exactly when the queue is closed or full, and then changes nothing; otherwise the queue had room
  for the new job.\<close>

lemma handle_add_answers:
  "fst (sc_result (hq_add_click reduce c)) = ''nil, false'' \<longleftrightarrow> hs_isClosed (sc_state c) \<or> isFull (sc_state c)"
  "hs_isClosed (sc_state c) \<or> isFull (sc_state c) \<Longrightarrow> sc_state (hq_add_click reduce c) = sc_state c"
  "\<not> (hs_isClosed (sc_state c) \<or> isFull (sc_state c)) \<Longrightarrow> 0 < hs_capacity (sc_state c)
    \<Longrightarrow> int (length (hs_queue (hq_push (sc_state c)))) \<le> hs_capacity (sc_state c)"
  by (simp_all add: hq_add_click_def Let_def handle_show_def isFull_def hq_push_def)

text \<open>The timer asks for the next batch before it closes the purged jobs of the old one. When the whole batch was purged and a new
  job came since, the worker goes idle with that job in the queue and no timer: it stays there until the reader adds again.\<close>

lemma handle_purge_strands_a_job:
  "\<exists>c. presses handle_act (map (Pair False) [AddClick, AddClick, StartClick, PurgeClick, AddClick, TimerFires]) handle_page = Some c
    \<and> hs_started (sc_state c) \<and> hs_running (sc_state c) = None \<and> \<not> hs_pending (sc_state c) \<and> map hj_n (hs_queue (sc_state c)) = [3]"
  by (simp add: handle_act_def click_states handle_page_def handle_first_def isFull_def hq_work_def hq_push_def hq_purge_def hq_advance_def
      hq_pull_def hq_next_def hq_finish_def hq_schedule_def hq_timer_def handle_paint_def)

end
