(* ===== verification/Guide_Picker.thy ===== *)
theory Guide_Picker
  imports Strategy Scene "HOL-Library.Sublist"
begin

text \<open>
  \<open>docs/src/components/guides-a/strategy-picker.ts\<close>: one worker, three queues and the four strategies. Each step asks
  \<open>pick\<close> (\<open>model.ts\<close>, theory Strategy) for a queue and takes its first job. An operation that would read a job that is not
  there, or that \<open>pick\<close> does not answer, is \<open>None\<close>; no state of the page leads there. The \<open>while (step())\<close> of the reduced
  motion is a recursion over the jobs left. What \<open>paint\<close> writes is a value, \<open>PickerPanel\<close>.
\<close>

section \<open>Data\<close>

record PickerQueue =
  pkq_name :: string
  pkq_short :: string
  pkq_rank :: "int option"
  pkq_tone :: string
  pkq_jobs :: "nat list"
  pkq_count :: nat

record TakenJob =
  tj_key :: string
  tj_label :: string
  tj_tone :: string

record Picker =
  pk_strategy :: StrategyName
  pk_queues :: "PickerQueue list"
  pk_taken :: "TakenJob list"
  pk_rr :: nat
  pk_playing :: bool
  pk_total :: nat
  pk_timer :: bool

record PickerPanel =
  pp_next :: "nat option"
  pp_lens :: "string list"
  pp_turn :: "bool list"
  pp_count :: string
  pp_why :: string
  pp_stepDisabled :: bool
  pp_playDisabled :: bool
  pp_playText :: string

record PickerScene =
  psc_state :: Picker
  psc_panel :: PickerPanel
  psc_caption :: string
  psc_said :: string

datatype PickerButton = AddAlerts | AddReports | AddEmails

datatype PickerEvent = StepClick | PlayClick | PickerReset | AddTo PickerButton | StrategyTab StrategyName | StepTimer

definition PICKER_START :: "(string \<times> string \<times> int option \<times> string \<times> nat) list" where
  "PICKER_START = [(''alerts'', ''alert'', Some 1, ''amber'', 2), (''reports'', ''report'', Some 2, ''cobalt'', 1), (''emails'', ''email'', None, '''', 3)]"

fun CAPTIONS :: "StrategyName \<Rightarrow> string" where
  "CAPTIONS Priority = ''worker := varmq.NewWorker(process, 1)   // Priority, the default''"
| "CAPTIONS RoundRobin = ''worker := varmq.NewWorker(process, 1, varmq.WithStrategy(varmq.RoundRobin))''"
| "CAPTIONS MaxLen = ''worker := varmq.NewWorker(process, 1, varmq.WithStrategy(varmq.MaxLen))''"
| "CAPTIONS MinLen = ''worker := varmq.NewWorker(process, 1, varmq.WithStrategy(varmq.MinLen))''"

fun data_add :: "PickerButton \<Rightarrow> string" where
  "data_add AddAlerts = ''alerts''"
| "data_add AddReports = ''reports''"
| "data_add AddEmails = ''emails''"

section \<open>The worker\<close>

fun picker_queue :: "string \<times> string \<times> int option \<times> string \<times> nat \<Rightarrow> PickerQueue" where
  "picker_queue (name, short, rank, tone, jobs) =
    \<lparr>pkq_name = name, pkq_short = short, pkq_rank = rank, pkq_tone = tone, pkq_jobs = [1..<Suc jobs], pkq_count = jobs\<rparr>"

definition picker_fresh :: "StrategyName \<Rightarrow> Picker" where
  "picker_fresh st = \<lparr>pk_strategy = st, pk_queues = map picker_queue PICKER_START, pk_taken = [], pk_rr = 0, pk_playing = False,
     pk_total = sum_list (map (\<lambda>(_, _, _, _, jobs). jobs) PICKER_START), pk_timer = False\<rparr>"

definition picker_key :: "PickerQueue \<Rightarrow> nat \<Rightarrow> string" where
  "picker_key qu n = pkq_short qu @ ''-'' @ string_of_nat n"

definition picker_label :: "PickerQueue \<Rightarrow> nat \<Rightarrow> string" where
  "picker_label qu n = pkq_short qu @ '' '' @ string_of_nat n"

definition picker_sources :: "Picker \<Rightarrow> Source list" where
  "picker_sources s = map (\<lambda>x. \<lparr>src_name = pkq_name x, src_len = length (pkq_jobs x)\<rparr>) (pk_queues s)"

definition picker_shift :: "nat \<Rightarrow> Picker \<Rightarrow> (nat \<times> Picker) option" where
  "picker_shift i s =
    (if i < length (pk_queues s) then
       (let qu = pk_queues s ! i in
        case pkq_jobs qu of [] \<Rightarrow> None
        | n # rest \<Rightarrow> Some (n, s\<lparr>pk_queues := (pk_queues s)[i := qu\<lparr>pkq_jobs := rest\<rparr>],
            pk_taken := pk_taken s @ [\<lparr>tj_key = picker_key qu n, tj_label = picker_label qu n, tj_tone = pkq_tone qu\<rparr>]\<rparr>))
     else None)"

text \<open>\<open>step\<close>: the new state, and what it says when it took a job.\<close>

definition picker_step :: "Picker \<Rightarrow> (Picker \<times> string option) option" where
  "picker_step s =
    (case pick (pk_strategy s) (picker_sources s) (pk_rr s) of
       Some (Inr (None, rr)) \<Rightarrow> Some (s\<lparr>pk_rr := rr\<rparr>, None)
     | Some (Inr (Some p, rr)) \<Rightarrow>
         (case picker_shift (sp_index p) (s\<lparr>pk_rr := rr\<rparr>) of
            None \<Rightarrow> None
          | Some (n, s') \<Rightarrow>
              (let qu = pk_queues s ! sp_index p in
               Some (s', Some (''Took '' @ picker_label qu n @ '' from '' @ pkq_name qu @ ''. '' @ sp_why p))))
     | _ \<Rightarrow> None)"

definition picker_waiting :: "Picker \<Rightarrow> nat" where
  "picker_waiting s = sum_list (map (\<lambda>q. length (pkq_jobs q)) (pk_queues s))"

lemma sum_list_update_nat: "i < length xs \<Longrightarrow> sum_list ((xs :: nat list)[i := v]) + xs ! i = sum_list xs + v"
  by (induction xs arbitrary: i) (auto simp: nth_Cons split: nat.splits)

lemma picker_shift_SomeD:
  assumes "picker_shift i s = Some (n, s')"
  shows "i < length (pk_queues s)" "pkq_jobs (pk_queues s ! i) = n # tl (pkq_jobs (pk_queues s ! i))"
    "pk_queues s' = (pk_queues s)[i := (pk_queues s ! i)\<lparr>pkq_jobs := tl (pkq_jobs (pk_queues s ! i))\<rparr>]"
    "pk_taken s' = pk_taken s @ [\<lparr>tj_key = picker_key (pk_queues s ! i) n, tj_label = picker_label (pk_queues s ! i) n,
       tj_tone = pkq_tone (pk_queues s ! i)\<rparr>]"
    "pk_strategy s' = pk_strategy s" "pk_rr s' = pk_rr s" "pk_playing s' = pk_playing s" "pk_total s' = pk_total s" "pk_timer s' = pk_timer s"
  using assms by (auto simp: picker_shift_def Let_def split: if_splits list.splits)

lemma picker_shift_waiting:
  assumes "picker_shift i s = Some (n, s')"
  shows "picker_waiting s = Suc (picker_waiting s')"
proof -
  note d = picker_shift_SomeD [OF assms]
  obtain rest where rest: "pkq_jobs (pk_queues s ! i) = n # rest" using d(2) by blast
  with d(1) sum_list_update_nat [of i "map (\<lambda>q. length (pkq_jobs q)) (pk_queues s)" "length rest"]
  show ?thesis by (simp add: picker_waiting_def d(3) map_update)
qed

lemma picker_step_SomeD:
  assumes "picker_step s = Some (s', w)"
  shows "(\<exists>rr. pick (pk_strategy s) (picker_sources s) (pk_rr s) = Some (Inr (None, rr)) \<and> s' = s\<lparr>pk_rr := rr\<rparr> \<and> w = None)
    \<or> (\<exists>p rr n. pick (pk_strategy s) (picker_sources s) (pk_rr s) = Some (Inr (Some p, rr))
        \<and> picker_shift (sp_index p) (s\<lparr>pk_rr := rr\<rparr>) = Some (n, s') \<and> w \<noteq> None)"
  using assms by (auto simp: picker_step_def Let_def split: option.splits sum.splits prod.splits)

lemma picker_waiting_rr [simp]: "picker_waiting (s\<lparr>pk_rr := rr\<rparr>) = picker_waiting s"
  by (simp add: picker_waiting_def)

lemma picker_step_waiting: "picker_step s = Some (s', Some w) \<Longrightarrow> picker_waiting s = Suc (picker_waiting s')"
  using picker_step_SomeD [of s s' "Some w"] picker_shift_waiting by fastforce

text \<open>\<open>while (step());\<close> with the last sentence it said.\<close>

function picker_run_all :: "Picker \<Rightarrow> string \<Rightarrow> (Picker \<times> string) option" where
  "picker_run_all s said =
    (case picker_step s of
       None \<Rightarrow> None
     | Some (s', None) \<Rightarrow> Some (s', said)
     | Some (s', Some w) \<Rightarrow> picker_run_all s' w)"
  by pat_completeness auto
termination
  by (relation "measure (\<lambda>(s, _). picker_waiting s)") (auto dest: picker_step_waiting)

declare picker_run_all.simps [simp del]

section \<open>What \<open>paint\<close> writes\<close>

definition jobs_count :: "nat \<Rightarrow> string" where
  "jobs_count n = string_of_nat n @ '' '' @ (if n = 1 then ''job'' else ''jobs'')"

definition picker_preview :: "Picker \<Rightarrow> SourcePick option option" where
  "picker_preview s = (case pick (pk_strategy s) (picker_sources s) (pk_rr s) of Some (Inr (p, _)) \<Rightarrow> Some p | _ \<Rightarrow> None)"

definition picker_why :: "Picker \<Rightarrow> SourcePick option \<Rightarrow> string" where
  "picker_why s next =
    (case next of
       Some p \<Rightarrow> ''Next: '' @ pkq_short (pk_queues s ! sp_index p) @ '' from '' @ pkq_name (pk_queues s ! sp_index p) @ ''. '' @ sp_why p
     | None \<Rightarrow> ''Every queue is empty. A strategy only chooses among queues that have a job waiting.'')"

definition picker_paint :: "bool \<Rightarrow> Picker \<Rightarrow> PickerPanel option" where
  "picker_paint reduce s =
    map_option (\<lambda>next.
      \<lparr>pp_next = map_option sp_index next,
       pp_lens = map (\<lambda>q. jobs_count (length (pkq_jobs q))) (pk_queues s),
       pp_turn = map (\<lambda>i. pk_strategy s = RoundRobin \<and> pk_rr s = i) [0..<length (pk_queues s)],
       pp_count = string_of_nat (length (pk_taken s)) @ '' of '' @ string_of_nat (pk_total s) @ '' jobs'',
       pp_why = picker_why s next,
       pp_stepDisabled = (next = None),
       pp_playDisabled = (next = None \<and> \<not> pk_playing s),
       pp_playText = (if reduce then ''Run all'' else if pk_playing s then ''Pause'' else ''Play'')\<rparr>)
    (picker_preview s)"

definition picker_show :: "bool \<Rightarrow> Picker \<Rightarrow> PickerScene \<Rightarrow> PickerScene option" where
  "picker_show reduce s c = map_option (\<lambda>p. c\<lparr>psc_state := s, psc_panel := p\<rparr>) (picker_paint reduce s)"

section \<open>The controls\<close>

definition picker_schedule :: "Picker \<Rightarrow> Picker" where
  "picker_schedule s = (if pk_playing s then s\<lparr>pk_timer := True\<rparr> else s)"

text \<open>A step taken by a button or the timer: \<open>say\<close> only speaks when a job was taken.\<close>

definition picker_said :: "string option \<Rightarrow> PickerScene \<Rightarrow> PickerScene" where
  "picker_said w c = (case w of None \<Rightarrow> c | Some x \<Rightarrow> c\<lparr>psc_said := x\<rparr>)"

definition picker_step_click :: "bool \<Rightarrow> PickerScene \<Rightarrow> PickerScene option" where
  "picker_step_click reduce c =
    (case picker_step ((psc_state c)\<lparr>pk_playing := False, pk_timer := False\<rparr>) of
       None \<Rightarrow> None | Some (s, w) \<Rightarrow> picker_show reduce s (picker_said w c))"

definition picker_play_click :: "bool \<Rightarrow> PickerScene \<Rightarrow> PickerScene option" where
  "picker_play_click reduce c =
    (if reduce then
       (case picker_run_all (psc_state c) (psc_said c) of None \<Rightarrow> None | Some (s, w) \<Rightarrow> picker_show reduce s (c\<lparr>psc_said := w\<rparr>))
     else
       (let s = (psc_state c)\<lparr>pk_playing := \<not> pk_playing (psc_state c), pk_timer := False\<rparr> in
        map_option (\<lambda>c'. c'\<lparr>psc_state := picker_schedule s\<rparr>) (picker_show reduce s c)))"

definition picker_timer :: "bool \<Rightarrow> PickerScene \<Rightarrow> PickerScene option" where
  "picker_timer reduce c =
    (case picker_step ((psc_state c)\<lparr>pk_timer := False\<rparr>) of
       None \<Rightarrow> None
     | Some (s, w) \<Rightarrow>
         (let s' = (if w = None then s\<lparr>pk_playing := False\<rparr> else s) in
          map_option (\<lambda>c'. c'\<lparr>psc_state := picker_schedule s'\<rparr>) (picker_show reduce s' (picker_said w c))))"

definition picker_reset :: "bool \<Rightarrow> StrategyName \<Rightarrow> PickerScene \<Rightarrow> PickerScene option" where
  "picker_reset reduce st c = picker_show reduce (picker_fresh st) (c\<lparr>psc_caption := CAPTIONS st\<rparr>)"

definition picker_tab :: "bool \<Rightarrow> StrategyName \<Rightarrow> PickerScene \<Rightarrow> PickerScene option" where
  "picker_tab reduce k c =
    (if k \<noteq> pk_strategy (psc_state c) \<or> pk_queues (psc_state c) = [] then picker_reset reduce k c else Some c)"

definition picker_add :: "bool \<Rightarrow> string \<Rightarrow> PickerScene \<Rightarrow> PickerScene option" where
  "picker_add reduce name c =
    (let s = psc_state c in
     case find_index (\<lambda>x. pkq_name x = name) (pk_queues s) of
       None \<Rightarrow> None
     | Some i \<Rightarrow>
         (let qu = pk_queues s ! i; k = Suc (pkq_count qu); qu' = qu\<lparr>pkq_count := k, pkq_jobs := pkq_jobs qu @ [k]\<rparr> in
          picker_show reduce (s\<lparr>pk_queues := (pk_queues s)[i := qu'], pk_total := Suc (pk_total s)\<rparr>)
            (c\<lparr>psc_caption := name @ ''.Add('' @ [CHR 0x22] @ picker_label qu k @ [CHR 0x22] @ '')'',
               psc_said := ''Added '' @ picker_label qu k @ '' to '' @ name @ ''.''\<rparr>)))"

text \<open>A disabled button takes no click; the timer fires only while it is set.\<close>

fun picker_event :: "bool \<Rightarrow> PickerEvent \<Rightarrow> PickerScene \<Rightarrow> PickerScene option" where
  "picker_event reduce StepClick c = (if pp_stepDisabled (psc_panel c) then Some c else picker_step_click reduce c)"
| "picker_event reduce PlayClick c = (if pp_playDisabled (psc_panel c) then Some c else picker_play_click reduce c)"
| "picker_event reduce PickerReset c = picker_reset reduce (pk_strategy (psc_state c)) c"
| "picker_event reduce (AddTo b) c = picker_add reduce (data_add b) c"
| "picker_event reduce (StrategyTab k) c = picker_tab reduce k c"
| "picker_event reduce StepTimer c = (if pk_timer (psc_state c) then picker_timer reduce c else Some c)"

definition picker_opens :: "bool \<Rightarrow> PickerScene \<Rightarrow> bool" where
  "picker_opens reduce c \<longleftrightarrow> (\<exists>c0. picker_reset reduce Priority c0 = Some c)"

definition picker_act :: "bool \<times> PickerEvent \<Rightarrow> PickerScene \<Rightarrow> PickerScene option" where
  "picker_act e c = picker_event (fst e) (snd e) c"

section \<open>No job is lost, and each queue leaves in order\<close>

text \<open>The keys of the jobs taken from a queue, in the order they were taken.\<close>

definition keys_from :: "PickerQueue \<Rightarrow> Picker \<Rightarrow> string list" where
  "keys_from qu s = filter (prefix (pkq_short qu @ ''-'')) (map tj_key (pk_taken s))"

definition picker_fixed :: "Picker \<Rightarrow> bool" where
  "picker_fixed s \<longleftrightarrow> map (\<lambda>q. (pkq_name q, pkq_short q)) (pk_queues s) = [(''alerts'', ''alert''), (''reports'', ''report''), (''emails'', ''email'')]"

definition picker_ordered :: "Picker \<Rightarrow> bool" where
  "picker_ordered s \<longleftrightarrow> (\<forall>q \<in> set (pk_queues s). keys_from q s @ map (picker_key q) (pkq_jobs q) = map (picker_key q) [1..<Suc (pkq_count q)])"

definition picker_core :: "Picker \<Rightarrow> bool" where
  "picker_core s \<longleftrightarrow> picker_fixed s \<and> picker_ordered s \<and> length (pk_taken s) + picker_waiting s = pk_total s \<and> pk_rr s < 3"

lemma picker_fixedD:
  assumes "picker_fixed s"
  shows "length (pk_queues s) = 3" "map pkq_short (pk_queues s) = [''alert'', ''report'', ''email'']"
    "map pkq_name (pk_queues s) = [''alerts'', ''reports'', ''emails'']"
proof -
  note f = assms [unfolded picker_fixed_def]
  show "length (pk_queues s) = 3" using arg_cong [OF f, of length] by simp
  show "map pkq_short (pk_queues s) = [''alert'', ''report'', ''email'']" using arg_cong [OF f, of "map snd"] by (simp add: comp_def)
  show "map pkq_name (pk_queues s) = [''alerts'', ''reports'', ''emails'']" using arg_cong [OF f, of "map fst"] by (simp add: comp_def)
qed

lemma short_prefix:
  assumes "picker_fixed s" "i < length (pk_queues s)" "k < length (pk_queues s)"
    "prefix (pkq_short (pk_queues s ! i) @ ''-'') (picker_key (pk_queues s ! k) n)"
  shows "i = k"
proof -
  have short: "pkq_short (pk_queues s ! j) = [''alert'', ''report'', ''email''] ! j" if "j < length (pk_queues s)" for j
    using that picker_fixedD(2) [OF assms(1)] by (metis nth_map)
  have "i < 3" "k < 3" using assms(2,3) picker_fixedD(1) [OF assms(1)] by simp_all
  then have "i \<in> {0, 1, 2}" "k \<in> {0, 1, 2}" by auto
  with assms(4) short [OF assms(2)] short [OF assms(3)] show ?thesis by (auto simp: picker_key_def)
qed

lemma key_prefix [simp]: "prefix (pkq_short q @ ''-'') (picker_key q n)"
  by (simp add: picker_key_def)

lemma picker_key_jobs [simp]: "picker_key (q\<lparr>pkq_jobs := js\<rparr>) = picker_key q" "picker_key (q\<lparr>pkq_count := k\<rparr>) = picker_key q"
  by (simp_all add: picker_key_def fun_eq_iff)

lemma shift_ordered:
  assumes "picker_fixed s" "picker_ordered s" "picker_shift i s = Some (n, s')"
  shows "picker_ordered s'"
  unfolding picker_ordered_def
proof
  note d = picker_shift_SomeD [OF assms(3)]
  fix q assume "q \<in> set (pk_queues s')"
  then obtain k where k: "k < length (pk_queues s)" "q = pk_queues s' ! k" by (auto simp: in_set_conv_nth d(3))
  let ?q = "pk_queues s ! k"
  have old: "keys_from ?q s @ map (picker_key ?q) (pkq_jobs ?q) = map (picker_key ?q) [1..<Suc (pkq_count ?q)]"
    using assms(2) k(1) by (simp add: picker_ordered_def del: upt_Suc)
  show "keys_from q s' @ map (picker_key q) (pkq_jobs q) = map (picker_key q) [1..<Suc (pkq_count q)]"
  proof (cases "k = i")
    case True
    obtain rest where "pkq_jobs ?q = n # rest" using d(2) True by blast
    with True k old show ?thesis by (simp add: d(3,4) keys_from_def del: upt_Suc)
  next
    case False
    with k short_prefix [OF assms(1) k(1) d(1)] have "keys_from q s' = keys_from ?q s" by (auto simp: d(3,4) keys_from_def)
    with False k old show ?thesis by (simp add: d(3) del: upt_Suc)
  qed
qed

lemma shift_fixed: "picker_shift i s = Some (n, s') \<Longrightarrow> picker_fixed s' = picker_fixed s"
proof -
  assume a: "picker_shift i s = Some (n, s')"
  note d = picker_shift_SomeD [OF a]
  let ?f = "\<lambda>q. (pkq_name q, pkq_short q)"
  have "map ?f (pk_queues s') = map ?f (pk_queues s)" using d(1) by (simp add: d(3) map_update list_update_same_conv)
  then show ?thesis by (simp only: picker_fixed_def)
qed

lemma core_rr: "picker_core s \<Longrightarrow> rr < 3 \<Longrightarrow> picker_core (s\<lparr>pk_rr := rr\<rparr>)"
  by (simp add: picker_core_def picker_fixed_def picker_ordered_def keys_from_def picker_waiting_def del: upt_Suc)

lemma shift_core:
  assumes "picker_core s" "picker_shift i s = Some (n, s')"
  shows "picker_core s'"
  using assms shift_ordered [OF _ _ assms(2)] shift_fixed [OF assms(2)] picker_shift_waiting [OF assms(2)] picker_shift_SomeD(4,6,8) [OF assms(2)]
  by (simp add: picker_core_def)

lemma waiting_sources: "(\<exists>x \<in> set (picker_sources s). 0 < src_len x) \<longleftrightarrow> 0 < picker_waiting s"
  unfolding picker_sources_def picker_waiting_def
  by (auto simp flip: neq0_conv simp: sum_list_eq_0_iff)

lemma pick_in_core:
  assumes "picker_core s"
  obtains (none) "picker_waiting s = 0" "pick (pk_strategy s) (picker_sources s) (pk_rr s) = Some (Inr (None, pk_rr s))"
    | (some) p rr where "0 < picker_waiting s" "pick (pk_strategy s) (picker_sources s) (pk_rr s) = Some (Inr (Some p, rr))" "rr < 3"
        "strategy_spec (pk_strategy s) (map (\<lambda>q. length (pkq_jobs q)) (pk_queues s)) (pk_rr s) (sp_index p)"
proof (cases "0 < picker_waiting s")
  case True
  have len: "length (picker_sources s) = 3" "pk_rr s < 3" using assms picker_fixedD(1) by (auto simp: picker_sources_def picker_core_def)
  have "\<exists>x \<in> set (picker_sources s). 0 < src_len x" using True waiting_sources by blast
  from pick_spec [OF this, of "pk_rr s" "pk_strategy s"] len obtain p where
    "pick (pk_strategy s) (picker_sources s) (pk_rr s)
      = Some (Inr (Some p, if pk_strategy s = RoundRobin then Suc (sp_index p) mod 3 else pk_rr s))"
    "strategy_spec (pk_strategy s) (map src_len (picker_sources s)) (pk_rr s) (sp_index p)" by auto
  with some True len(2) show thesis by (auto simp: picker_sources_def comp_def)
next
  case False
  then have "\<forall>x \<in> set (picker_sources s). src_len x = 0" using waiting_sources [of s] by auto
  with none False show thesis by (simp add: pick_def)
qed

text \<open>A step of the worker: it takes the first job of the queue the strategy names, and answers false only when no job waits.\<close>

lemma picker_step_core:
  assumes "picker_core s"
  obtains (none) "picker_waiting s = 0" "picker_step s = Some (s, None)"
    | (some) s' w i n rr where "0 < picker_waiting s" "picker_step s = Some (s', Some w)" "picker_core s'" "rr < 3"
        "picker_shift i (s\<lparr>pk_rr := rr\<rparr>) = Some (n, s')"
        "strategy_spec (pk_strategy s) (map (\<lambda>q. length (pkq_jobs q)) (pk_queues s)) (pk_rr s) i"
  using assms
proof (cases rule: pick_in_core)
  case none
  then show thesis using that(1) by (simp add: picker_step_def)
next
  case (some p rr)
  let ?s = "s\<lparr>pk_rr := rr\<rparr>" and ?i = "sp_index p"
  have i: "?i < length (pk_queues s)" "pkq_jobs (pk_queues s ! ?i) \<noteq> []" using strategy_spec_nonempty [OF some(4)] by auto
  then obtain n s' where sh: "picker_shift ?i ?s = Some (n, s')"
    by (cases "pkq_jobs (pk_queues s ! ?i)") (auto simp: picker_shift_def Let_def)
  have "picker_core s'" using shift_core [OF core_rr [OF assms some(3)] sh] .
  moreover obtain w where "picker_step s = Some (s', Some w)" using some(2) sh by (auto simp: picker_step_def Let_def)
  ultimately show thesis using that(2) [OF some(1)] some(3,4) sh by blast
qed

lemma preview_core: "picker_core s \<Longrightarrow> \<exists>p. picker_preview s = Some p \<and> (p = None \<longleftrightarrow> picker_waiting s = 0)"
  by (cases rule: pick_in_core) (auto simp: picker_preview_def)

lemma picker_run_all_core:
  "picker_core s \<Longrightarrow> \<exists>s' w. picker_run_all s said = Some (s', w) \<and> picker_core s' \<and> picker_waiting s' = 0
    \<and> pk_total s' = pk_total s \<and> pk_strategy s' = pk_strategy s \<and> pk_playing s' = pk_playing s \<and> pk_timer s' = pk_timer s"
proof (induction s said rule: picker_run_all.induct)
  case (1 s said)
  from "1.prems" show ?case
  proof (cases rule: picker_step_core)
    case none
    with "1.prems" show ?thesis by (subst picker_run_all.simps) simp
  next
    case (some s' w i n rr)
    have f: "pk_total s' = pk_total s" "pk_strategy s' = pk_strategy s" "pk_playing s' = pk_playing s" "pk_timer s' = pk_timer s"
      using picker_shift_SomeD(5,7,8,9) [OF some(5)] by simp_all
    from "1.IH" [OF some(2) refl refl some(3)] f show ?thesis by (subst picker_run_all.simps) (simp add: some(2))
  qed
qed

section \<open>The page\<close>

definition picker_inv :: "PickerScene \<Rightarrow> bool" where
  "picker_inv c \<longleftrightarrow> picker_core (psc_state c) \<and> pk_timer (psc_state c) = pk_playing (psc_state c)
     \<and> (\<exists>reduce. picker_paint reduce (psc_state c) = Some (psc_panel c))"

lemma picker_show_core:
  assumes "picker_core s"
  obtains c' where "picker_show reduce s c = Some c'" "psc_state c' = s" "picker_paint reduce s = Some (psc_panel c')"
  using preview_core [OF assms] that by (auto simp: picker_show_def picker_paint_def)

lemma core_frame [simp]:
  "picker_core (s\<lparr>pk_playing := b\<rparr>) = picker_core s" "picker_core (s\<lparr>pk_timer := b\<rparr>) = picker_core s"
  by (simp_all add: picker_core_def picker_fixed_def picker_ordered_def keys_from_def picker_waiting_def del: upt_Suc)

lemma waiting_frame [simp]:
  "picker_waiting (s\<lparr>pk_playing := b\<rparr>) = picker_waiting s" "picker_waiting (s\<lparr>pk_timer := b\<rparr>) = picker_waiting s"
  by (simp_all add: picker_waiting_def)

lemma schedule_fields_picker [simp]:
  "pk_playing (picker_schedule s) = pk_playing s" "pk_total (picker_schedule s) = pk_total s"
  "picker_waiting (picker_schedule s) = picker_waiting s" "pk_timer (picker_schedule s) = (pk_playing s \<or> pk_timer s)"
  by (simp_all add: picker_schedule_def)

lemma paint_timer [simp]: "picker_paint reduce (s\<lparr>pk_timer := b\<rparr>) = picker_paint reduce s"
proof -
  have "picker_preview (s\<lparr>pk_timer := b\<rparr>) = picker_preview s" "picker_why (s\<lparr>pk_timer := b\<rparr>) = picker_why s"
    by (simp_all add: picker_preview_def picker_sources_def picker_why_def fun_eq_iff split: option.split)
  then show ?thesis by (simp add: picker_paint_def)
qed

lemma paint_schedule_picker [simp]: "picker_paint reduce (picker_schedule s) = picker_paint reduce s"
  by (simp add: picker_schedule_def)

lemma core_schedule [simp]: "picker_core (picker_schedule s) = picker_core s"
  by (simp add: picker_schedule_def)

lemma fresh_core: "picker_core (picker_fresh st)"
  by (simp add: picker_core_def picker_fresh_def PICKER_START_def picker_fixed_def picker_ordered_def keys_from_def picker_waiting_def
      picker_key_def numeral_eq_Suc)

lemma add_core:
  assumes "picker_core s" "i < length (pk_queues s)"
  shows "picker_core (s\<lparr>pk_queues := (pk_queues s)[i := (pk_queues s ! i)\<lparr>pkq_count := Suc (pkq_count (pk_queues s ! i)),
      pkq_jobs := pkq_jobs (pk_queues s ! i) @ [Suc (pkq_count (pk_queues s ! i))]\<rparr>], pk_total := Suc (pk_total s)\<rparr>)" (is "picker_core ?s")
proof -
  let ?f = "\<lambda>q. (pkq_name q, pkq_short q)" and ?q = "pk_queues s ! i"
  have "map ?f (pk_queues ?s) = map ?f (pk_queues s)" using assms(2) by (simp add: map_update list_update_same_conv)
  then have "picker_fixed ?s" using assms(1) by (simp only: picker_fixed_def picker_core_def)
  moreover have "picker_ordered ?s"
    unfolding picker_ordered_def
  proof
    fix q assume "q \<in> set (pk_queues ?s)"
    then obtain k where k: "k < length (pk_queues s)" "q = pk_queues ?s ! k" by (auto simp: in_set_conv_nth)
    have old: "keys_from (pk_queues s ! k) s @ map (picker_key (pk_queues s ! k)) (pkq_jobs (pk_queues s ! k))
        = map (picker_key (pk_queues s ! k)) [1..<Suc (pkq_count (pk_queues s ! k))]"
      using assms(1) k(1) by (simp add: picker_core_def picker_ordered_def del: upt_Suc)
    have "[1..<Suc (Suc m)] = [1..<Suc m] @ [Suc m]" for m by simp
    with k old show "keys_from q ?s @ map (picker_key q) (pkq_jobs q) = map (picker_key q) [1..<Suc (pkq_count q)]"
      by (cases "k = i") (simp_all add: keys_from_def del: upt_Suc flip: append_assoc)
  qed
  moreover have "picker_waiting ?s = Suc (picker_waiting s)"
    using assms(2) sum_list_update_nat [of i "map (\<lambda>q. length (pkq_jobs q)) (pk_queues s)" "Suc (length (pkq_jobs ?q))"]
    by (simp add: picker_waiting_def map_update)
  ultimately show ?thesis using assms(1) by (simp add: picker_core_def)
qed

lemma picker_step_any:
  assumes "picker_core s"
  obtains s' w where "picker_step s = Some (s', w)" "picker_core s'" "pk_playing s' = pk_playing s" "pk_timer s' = pk_timer s"
    "pk_total s' = pk_total s" "picker_waiting s' = picker_waiting s - 1" "w = None \<longleftrightarrow> picker_waiting s = 0"
  using assms
proof (cases rule: picker_step_core)
  case none
  then show thesis using that [of s None] assms by simp
next
  case (some s' w i n rr)
  then show thesis using that [of s' "Some w"] picker_shift_SomeD(7,8,9) [OF some(5)] picker_step_waiting [OF some(2)] by simp
qed

lemma picker_show_ok:
  "picker_core s \<Longrightarrow> pk_timer s = pk_playing s \<Longrightarrow> \<exists>c'. picker_show reduce s c = Some c' \<and> psc_state c' = s \<and> picker_inv c'"
  using picker_show_core [of s reduce c] by (metis picker_inv_def)

lemma picker_show_later:
  assumes "picker_core s" "pk_timer (picker_schedule s) = pk_playing (picker_schedule s)"
  shows "\<exists>c'. map_option (\<lambda>c'. c'\<lparr>psc_state := picker_schedule s\<rparr>) (picker_show reduce s c) = Some c'
    \<and> psc_state c' = picker_schedule s \<and> picker_inv c'"
proof -
  obtain c' where c': "picker_show reduce s c = Some c'" "psc_state c' = s" "picker_paint reduce s = Some (psc_panel c')"
    by (rule picker_show_core [OF assms(1)])
  with assms have "picker_inv (c'\<lparr>psc_state := picker_schedule s\<rparr>)" by (auto simp: picker_inv_def)
  with c'(1) show ?thesis by simp
qed

lemma picker_play_ok:
  assumes "picker_inv c"
  shows "\<exists>c'. picker_play_click reduce c = Some c' \<and> picker_inv c' \<and> pk_total (psc_state c') = pk_total (psc_state c)
    \<and> (if reduce then picker_waiting (psc_state c') = 0
       else pk_playing (psc_state c') = (\<not> pk_playing (psc_state c)) \<and> picker_waiting (psc_state c') = picker_waiting (psc_state c))"
proof (cases reduce)
  case True
  obtain s' w where "picker_run_all (psc_state c) (psc_said c) = Some (s', w)" "picker_core s'" "picker_waiting s' = 0"
    "pk_total s' = pk_total (psc_state c)" "pk_timer s' = pk_playing s'"
    using picker_run_all_core [of "psc_state c" "psc_said c"] assms by (auto simp: picker_inv_def)
  with picker_show_ok [of s' reduce "c\<lparr>psc_said := w\<rparr>"] True show ?thesis by (auto simp: picker_play_click_def)
next
  case False
  let ?s = "(psc_state c)\<lparr>pk_playing := \<not> pk_playing (psc_state c), pk_timer := False\<rparr>"
  have "picker_core ?s" "pk_timer (picker_schedule ?s) = pk_playing (picker_schedule ?s)"
    using assms by (auto simp: picker_inv_def)
  from picker_show_later [OF this, of reduce c] False show ?thesis
    by (auto simp: picker_play_click_def Let_def)
qed

lemma picker_timer_ok:
  assumes "picker_inv c" "pk_timer (psc_state c)"
  shows "\<exists>c'. picker_timer reduce c = Some c' \<and> picker_inv c' \<and> pk_total (psc_state c') = pk_total (psc_state c)
    \<and> picker_waiting (psc_state c') = picker_waiting (psc_state c) - 1 \<and> pk_playing (psc_state c') = (0 < picker_waiting (psc_state c))"
proof -
  let ?s = "(psc_state c)\<lparr>pk_timer := False\<rparr>"
  have play: "picker_core ?s" "pk_playing (psc_state c)" "picker_waiting ?s = picker_waiting (psc_state c)"
    using assms by (auto simp: picker_inv_def)
  obtain s' w where st: "picker_step ?s = Some (s', w)" "picker_core s'" "pk_playing s' = pk_playing ?s" "pk_timer s' = pk_timer ?s"
    "pk_total s' = pk_total ?s" "picker_waiting s' = picker_waiting ?s - 1" "w = None \<longleftrightarrow> picker_waiting ?s = 0"
    by (rule picker_step_any [OF play(1)])
  let ?t = "if w = None then s'\<lparr>pk_playing := False\<rparr> else s'"
  have "picker_core ?t" "pk_timer (picker_schedule ?t) = pk_playing (picker_schedule ?t)" using st play(2) by auto
  from picker_show_later [OF this, of reduce "picker_said w c"] obtain c' where
    "picker_timer reduce c = Some c'" "psc_state c' = picker_schedule ?t" "picker_inv c'"
    using st(1) by (auto simp: picker_timer_def Let_def)
  with st play(2) show ?thesis by (intro exI [of _ c']) auto
qed

lemma picker_step_click_ok:
  assumes "picker_inv c"
  shows "\<exists>c' w. picker_step_click reduce c = Some c' \<and> picker_inv c'
    \<and> picker_step ((psc_state c)\<lparr>pk_playing := False, pk_timer := False\<rparr>) = Some (psc_state c', w)"
proof -
  let ?s = "(psc_state c)\<lparr>pk_playing := False, pk_timer := False\<rparr>"
  have "picker_core ?s" using assms by (simp add: picker_inv_def)
  then obtain s' w where st: "picker_step ?s = Some (s', w)" "picker_core s'" "pk_playing s' = pk_playing ?s" "pk_timer s' = pk_timer ?s"
    by (rule picker_step_any)
  with picker_show_ok [of s' reduce "picker_said w c"] show ?thesis by (auto simp: picker_step_click_def)
qed

lemma picker_reset_ok: "\<exists>c'. picker_reset reduce st c = Some c' \<and> picker_inv c'"
  using picker_show_ok [OF fresh_core, of st reduce] by (auto simp: picker_reset_def picker_fresh_def)

lemma picker_add_ok:
  assumes "picker_inv c"
  shows "\<exists>c'. picker_add reduce (data_add b) c = Some c' \<and> picker_inv c'"
proof -
  let ?s = "psc_state c"
  have "set (map pkq_name (pk_queues ?s)) = {''alerts'', ''reports'', ''emails''}"
    using assms picker_fixedD(3) [of ?s] by (simp add: picker_inv_def picker_core_def del: set_map)
  then have "data_add b \<in> pkq_name ` set (pk_queues ?s)" by (cases b) auto
  then obtain i where i: "find_index (\<lambda>x. pkq_name x = data_add b) (pk_queues ?s) = Some i"
    using find_index_ex [of "pk_queues ?s" "\<lambda>x. pkq_name x = data_add b"] by (metis imageE)
  have core: "picker_core ?s" "pk_timer ?s = pk_playing ?s" and len: "i < length (pk_queues ?s)"
    using assms find_index_SomeD [OF i] by (simp_all add: picker_inv_def)
  have shown: "\<exists>c'. picker_show reduce s' c0 = Some c' \<and> picker_inv c'" if "picker_core s'" "pk_timer s' = pk_playing s'" for s' c0
    using picker_show_ok [OF that] by blast
  show ?thesis
    unfolding picker_add_def Let_def i option.case by (rule shown [OF add_core [OF core(1) len]]) (simp add: core(2))
qed

lemma picker_event_ok: "picker_inv c \<Longrightarrow> \<exists>c'. picker_event reduce e c = Some c' \<and> picker_inv c'"
proof (cases e)
  case StepClick
  assume "picker_inv c"
  with StepClick picker_step_click_ok [of c reduce] show ?thesis by auto
next
  case PlayClick
  assume "picker_inv c"
  with PlayClick picker_play_ok [of c reduce] show ?thesis by auto
next
  case StepTimer
  assume "picker_inv c"
  with StepTimer picker_timer_ok [of c reduce] show ?thesis by auto
qed (use picker_step_click_ok picker_reset_ok picker_add_ok in \<open>auto simp: picker_tab_def\<close>)

interpretation picker_scene: scene "picker_opens reduce" picker_act picker_inv
proof unfold_locales
  show "picker_inv c" if "picker_opens reduce c" for c
    using that picker_reset_ok [of reduce Priority] by (auto simp: picker_opens_def) (metis option.inject)
  show "\<exists>c'. picker_act e c = Some c'" if "picker_inv c" for e c
    using picker_event_ok [OF that] by (auto simp: picker_act_def)
  show "picker_inv c'" if "picker_inv c" "picker_act e c = Some c'" for e c c'
    using picker_event_ok [OF that(1), of "fst e" "snd e"] that(2) by (auto simp: picker_act_def)
qed

section \<open>Properties\<close>

lemma picker_reached:
  assumes "picker_opens reduce c" "presses picker_act es c = Some c'"
  shows "picker_inv c'"
  using picker_scene.every_press_answered [OF assms(1), of es] assms(2) by simp

lemma picker_paint_off:
  assumes "picker_paint reduce s = Some p"
  shows "pp_stepDisabled p \<longleftrightarrow> picker_preview s = Some None" "pp_playDisabled p \<longleftrightarrow> picker_preview s = Some None \<and> \<not> pk_playing s"
  using assms by (auto simp: picker_paint_def)

lemma picker_panel_off:
  assumes "picker_inv c"
  shows "pp_stepDisabled (psc_panel c) \<longleftrightarrow> picker_waiting (psc_state c) = 0"
    "pp_playDisabled (psc_panel c) \<longleftrightarrow> picker_waiting (psc_state c) = 0 \<and> \<not> pk_playing (psc_state c)"
proof -
  obtain reduce where r: "picker_paint reduce (psc_state c) = Some (psc_panel c)" and core: "picker_core (psc_state c)"
    using assms by (auto simp: picker_inv_def)
  from picker_paint_off [OF r] preview_core [OF core]
  show "pp_stepDisabled (psc_panel c) \<longleftrightarrow> picker_waiting (psc_state c) = 0"
    "pp_playDisabled (psc_panel c) \<longleftrightarrow> picker_waiting (psc_state c) = 0 \<and> \<not> pk_playing (psc_state c)" by auto
qed

definition picker_rounds :: "bool \<Rightarrow> nat \<Rightarrow> PickerScene \<Rightarrow> PickerScene option" where
  "picker_rounds reduce k = presses picker_act (replicate k (reduce, StepTimer))"

lemma picker_rounds_take:
  assumes "picker_inv c" "pk_playing (psc_state c)" "k \<le> picker_waiting (psc_state c)"
  shows "\<exists>c'. picker_rounds reduce k c = Some c' \<and> picker_inv c' \<and> pk_playing (psc_state c')
    \<and> picker_waiting (psc_state c') = picker_waiting (psc_state c) - k \<and> pk_total (psc_state c') = pk_total (psc_state c)"
  using assms
proof (induction k arbitrary: c)
  case (Suc k)
  have "pk_timer (psc_state c)" using Suc.prems by (simp add: picker_inv_def)
  from picker_timer_ok [OF Suc.prems(1) this, of reduce] this obtain c1 where c1: "picker_act (reduce, StepTimer) c = Some c1" "picker_inv c1"
    "pk_playing (psc_state c1)" "picker_waiting (psc_state c1) = picker_waiting (psc_state c) - 1" "pk_total (psc_state c1) = pk_total (psc_state c)"
    using Suc.prems(3) by (auto simp: picker_act_def)
  from Suc.IH [OF c1(2,3)] c1 Suc.prems(3) show ?case by (auto simp: picker_rounds_def)
qed (simp add: picker_rounds_def)

lemma picker_rounds_Suc:
  "picker_rounds reduce (Suc k) c = (case picker_rounds reduce k c of None \<Rightarrow> None | Some c' \<Rightarrow> picker_act (reduce, StepTimer) c')"
proof -
  have "replicate (Suc k) (reduce, StepTimer) = replicate k (reduce, StepTimer) @ [(reduce, StepTimer)]"
    by (simp add: replicate_append_same)
  then show ?thesis unfolding picker_rounds_def by (auto simp: presses_append split: option.splits)
qed

text \<open>However the reader uses the page, every event is answered. Of each queue the jobs taken so far, in the order they were
  taken, and after them the jobs that wait are exactly the jobs added to it, from the first to the last; and the counter's two
  numbers, the jobs taken and the total, differ by the jobs that wait.\<close>

theorem picker_queues_leave_in_order:
  assumes "picker_opens reduce c"
  shows "\<exists>c'. presses picker_act es c = Some c'
    \<and> (\<forall>q \<in> set (pk_queues (psc_state c')).
         keys_from q (psc_state c') @ map (picker_key q) (pkq_jobs q) = map (picker_key q) [1..<Suc (pkq_count q)])
    \<and> length (pk_taken (psc_state c')) + picker_waiting (psc_state c') = pk_total (psc_state c')"
  using picker_scene.every_press_answered [OF assms, of es] by (auto simp: picker_inv_def picker_core_def picker_ordered_def simp del: upt_Suc)

definition picker_blank :: PickerScene where
  "picker_blank = \<lparr>psc_state = picker_fresh Priority, psc_panel = \<lparr>pp_next = None, pp_lens = [], pp_turn = [], pp_count = '''',
     pp_why = '''', pp_stepDisabled = False, pp_playDisabled = False, pp_playText = ''''\<rparr>, psc_caption = '''', psc_said = ''''\<rparr>"

definition picker_page :: PickerScene where
  "picker_page = the (picker_reset False Priority picker_blank)"

lemma picker_page_reset: "picker_reset False Priority picker_blank = Some picker_page"
  using picker_reset_ok [of False Priority picker_blank] by (auto simp: picker_page_def)

lemma picker_page_opens: "picker_opens False picker_page"
  unfolding picker_opens_def using picker_page_reset by blast

lemma picker_page_state: "psc_state picker_page = picker_fresh Priority"
proof -
  obtain c' where "picker_reset False Priority picker_blank = Some c'" "psc_state c' = picker_fresh Priority"
    unfolding picker_reset_def by (rule picker_show_core [OF fresh_core])
  with picker_page_reset show ?thesis by simp
qed

theorem picker_queues_leave_in_order_witness:
  "\<exists>c'. presses picker_act [(False, AddTo AddAlerts), (False, StepClick), (True, PlayClick)] picker_page = Some c'
    \<and> length (pk_taken (psc_state c')) + picker_waiting (psc_state c') = pk_total (psc_state c')"
  using picker_queues_leave_in_order [OF picker_page_opens, of "[(False, AddTo AddAlerts), (False, StepClick), (True, PlayClick)]"] by blast

text \<open>C33: In every state the reader can reach with a job waiting, a click on Step takes the first job of exactly the queue the chosen
  strategy promises, and adds it at the end of the order shown.\<close>

theorem picker_step_follows_strategy:
  assumes "picker_opens reduce c" "presses picker_act es c = Some c'" "0 < picker_waiting (psc_state c')"
  shows "\<exists>c'' i n rest. picker_event r StepClick c' = Some c'' \<and> i < length (pk_queues (psc_state c'))
    \<and> strategy_spec (pk_strategy (psc_state c')) (map (\<lambda>q. length (pkq_jobs q)) (pk_queues (psc_state c'))) (pk_rr (psc_state c')) i
    \<and> pkq_jobs (pk_queues (psc_state c') ! i) = n # rest
    \<and> pk_queues (psc_state c'') = (pk_queues (psc_state c'))[i := (pk_queues (psc_state c') ! i)\<lparr>pkq_jobs := rest\<rparr>]
    \<and> map tj_key (pk_taken (psc_state c'')) = map tj_key (pk_taken (psc_state c')) @ [picker_key (pk_queues (psc_state c') ! i) n]"
proof -
  let ?s = "(psc_state c')\<lparr>pk_playing := False, pk_timer := False\<rparr>"
  have inv: "picker_inv c'" by (rule picker_reached [OF assms(1,2)])
  then obtain c'' w where c'': "picker_step_click r c' = Some c''" "picker_step ?s = Some (psc_state c'', w)"
    using picker_step_click_ok by blast
  have "\<not> pp_stepDisabled (psc_panel c')"
    using assms(3) by (simp add: picker_panel_off [OF inv])
  with c'' have ev: "picker_event r StepClick c' = Some c''" by simp
  have core: "picker_core ?s" "0 < picker_waiting ?s" using inv assms(3) by (simp_all add: picker_inv_def)
  from core(1) show ?thesis
  proof (cases rule: picker_step_core)
    case (some s' w' i n rr)
    with c'' have "psc_state c'' = s'" by simp
    with picker_shift_SomeD(1-4) [OF some(5)] some(6) ev show ?thesis
      by (intro exI [of _ c''] exI [of _ i] exI [of _ n] exI [of _ "tl (pkq_jobs (pk_queues (psc_state c') ! i))"]) simp
  qed (use core in simp)
qed

theorem picker_step_follows_strategy_witness:
  "\<exists>c'' i n rest. picker_event False StepClick picker_page = Some c'' \<and> i < length (pk_queues (psc_state picker_page))
    \<and> pkq_jobs (pk_queues (psc_state picker_page) ! i) = n # rest
    \<and> map tj_key (pk_taken (psc_state c'')) = map tj_key (pk_taken (psc_state picker_page)) @ [picker_key (pk_queues (psc_state picker_page) ! i) n]"
proof -
  have "0 < picker_waiting (psc_state picker_page)" by (simp add: picker_page_state picker_waiting_def picker_fresh_def PICKER_START_def)
  from picker_step_follows_strategy [OF picker_page_opens, of "[]" picker_page False, OF _ this] show ?thesis
    by (simp only: presses.simps) blast
qed

text \<open>C34: Play ends with every job taken, under each strategy and from each state with a job waiting: with reduced motion in the
  click itself, and otherwise after one timer for each job and one more, which also ends the play.\<close>

theorem picker_play_takes_every_job:
  assumes "picker_opens reduce c" "presses picker_act es c = Some c'" "\<not> pk_playing (psc_state c')" "0 < picker_waiting (psc_state c')"
  shows "\<exists>d e f. picker_event True PlayClick c' = Some d \<and> length (pk_taken (psc_state d)) = pk_total (psc_state c')
    \<and> picker_event False PlayClick c' = Some e \<and> picker_rounds False (Suc (picker_waiting (psc_state c'))) e = Some f
    \<and> length (pk_taken (psc_state f)) = pk_total (psc_state c') \<and> \<not> pk_playing (psc_state f)"
proof -
  have inv: "picker_inv c'" by (rule picker_reached [OF assms(1,2)])
  have on: "\<not> pp_playDisabled (psc_panel c')"
    using assms(4) by (simp add: picker_panel_off [OF inv])
  have full: "length (pk_taken (psc_state x)) = pk_total (psc_state x)" if "picker_inv x" "picker_waiting (psc_state x) = 0" for x
    using that by (auto simp: picker_inv_def picker_core_def)
  obtain d where d: "picker_event True PlayClick c' = Some d" "picker_inv d" "picker_waiting (psc_state d) = 0" "pk_total (psc_state d) = pk_total (psc_state c')"
    using picker_play_ok [OF inv, of True] on by auto
  obtain e where e: "picker_event False PlayClick c' = Some e" "picker_inv e" "pk_playing (psc_state e)"
    "picker_waiting (psc_state e) = picker_waiting (psc_state c')" "pk_total (psc_state e) = pk_total (psc_state c')"
    using picker_play_ok [OF inv, of False] on assms(3) by auto
  obtain g where g: "picker_rounds False (picker_waiting (psc_state c')) e = Some g" "picker_inv g" "pk_playing (psc_state g)"
    "picker_waiting (psc_state g) = 0" "pk_total (psc_state g) = pk_total (psc_state c')"
    using picker_rounds_take [OF e(2,3), of "picker_waiting (psc_state c')" False] e(4,5) by auto
  have "pk_timer (psc_state g)" using g by (simp add: picker_inv_def)
  with picker_timer_ok [OF g(2) this, of False] obtain f where f: "picker_act (False, StepTimer) g = Some f" "picker_inv f"
    "picker_waiting (psc_state f) = 0" "\<not> pk_playing (psc_state f)" "pk_total (psc_state f) = pk_total (psc_state c')"
    using g by (auto simp: picker_act_def)
  have "picker_rounds False (Suc (picker_waiting (psc_state c'))) e = Some f" by (simp add: picker_rounds_Suc g(1) f(1))
  with d e(1) f full [OF d(2,3)] full [OF f(2,3)] show ?thesis by auto
qed

theorem picker_play_takes_every_job_witness:
  "\<exists>d. picker_event True PlayClick picker_page = Some d \<and> length (pk_taken (psc_state d)) = 6"
proof -
  have "\<not> pk_playing (psc_state picker_page)" "0 < picker_waiting (psc_state picker_page)" "pk_total (psc_state picker_page) = 6"
    by (simp_all add: picker_page_state picker_waiting_def picker_fresh_def PICKER_START_def)
  from picker_play_takes_every_job [OF picker_page_opens, of "[]" picker_page] this show ?thesis by auto
qed

end
