(* ===== verification/Guide_Order.thy ===== *)
theory Guide_Order
  imports Strategy Scene "HOL-Library.Multiset"
begin

text \<open>
  \<open>docs/src/components/guides-a/queue-order.ts\<close>: a first-in first-out queue next to a priority queue. The same jobs go into
  both, a worker with concurrency 1 takes them one at a time, and each queue shows the order they leave in, which for the priority
  queue is a loop over \<open>nextRanked\<close> (\<open>model.ts\<close>, theory Strategy). The do-while of the reduced motion is a recursion over the
  jobs left.
\<close>

section \<open>Data\<close>

record QoJob = Ranked +
  qj_name :: string

datatype SideKind = Fifo | Pq

record Side =
  sd_kind :: SideKind
  sd_queue :: "QoJob list"
  sd_running :: "QoJob option"
  sd_ran :: "QoJob list"

record QueueOrder =
  qo_sides :: "Side list"
  qo_seq :: nat
  qo_names :: nat
  qo_started :: bool
  qo_paused :: bool
  qo_pending :: bool
  qo_prio :: int

record QoPanel =
  qp_waiting :: "string list list"
  qp_run :: "string option list"
  qp_done :: "string list list"
  qp_len :: "string list"
  qp_hint :: string
  qp_startText :: string
  qp_startDisabled :: bool

record QoScene =
  qc_state :: QueueOrder
  qc_panel :: QoPanel
  qc_caption :: string
  qc_said :: string

datatype QoEvent = QoAdd | QoExample | QoStart | QoReset | QoPrioDec | QoPrioInc | QoTick

definition QO_NAMES :: "string list" where
  "QO_NAMES = [''report'', ''alert'', ''digest'', ''invoice'', ''backup'', ''export'', ''sync'', ''email'']"

section \<open>The order a queue leaves in\<close>

text \<open>\<open>rest.splice(rest.indexOf(j), 1)\<close>, with JavaScript's reading of an index that is not found.\<close>

definition cut_out :: "'a \<Rightarrow> 'a list \<Rightarrow> 'a list" where
  "cut_out j rest = (case index_of j rest of Some i \<Rightarrow> splice_out i rest | None \<Rightarrow> butlast rest)"

lemma nextRanked_mem: "nextRanked rest = Some j \<Longrightarrow> j \<in> set rest"
  using nextRanked_min [of rest] by (cases "rest = []") (auto simp: nextRanked_def)

lemma cut_out_remove1: "j \<in> set rest \<Longrightarrow> cut_out j rest = remove1 j rest"
  using find_index_ex [of rest "\<lambda>y. y = j"] splice_out_index_of by (fastforce simp: cut_out_def)

lemma length_remove1_less: "j \<in> set rest \<Longrightarrow> length (remove1 j rest) < length rest"
  by (induction rest) auto

function ranked_order :: "QoJob list \<Rightarrow> QoJob list" where
  "ranked_order rest = (case nextRanked rest of None \<Rightarrow> [] | Some j \<Rightarrow> j # ranked_order (cut_out j rest))"
  by pat_completeness auto
termination
proof (relation "measure length")
  fix rest :: "QoJob list" and j
  assume "nextRanked rest = Some j"
  then have "j \<in> set rest" by (rule nextRanked_mem)
  then show "(cut_out j rest, rest) \<in> measure length" by (simp add: cut_out_remove1 length_remove1_less)
qed simp

declare ranked_order.simps [simp del]

lemma ranked_order_Nil [simp]: "ranked_order [] = []"
  by (subst ranked_order.simps) (simp add: nextRanked_def)

lemma ranked_order_step:
  assumes "rest \<noteq> []"
  obtains j where "j \<in> set rest" "ranked_order rest = j # ranked_order (remove1 j rest)" "\<forall>y \<in> set rest. ranked_key j \<le> ranked_key y"
proof -
  from nextRanked_min [OF assms] obtain j where j: "j \<in> set rest" "nextRanked rest = Some j" "\<forall>y \<in> set rest. ranked_key j \<le> ranked_key y"
    by blast
  then have "ranked_order rest = j # ranked_order (remove1 j rest)" by (subst ranked_order.simps) (simp add: cut_out_remove1)
  with j that show thesis by blast
qed

text \<open>The loop sorts: the same jobs, lowest priority number first, equal numbers in the order of the adds.\<close>

lemma ranked_order_sorts: "mset (ranked_order rest) = mset rest \<and> sorted (map ranked_key (ranked_order rest))"
proof (induction rest rule: length_induct)
  case (1 rest)
  show ?case
  proof (cases "rest = []")
    case False
    then obtain j where j: "j \<in> set rest" "ranked_order rest = j # ranked_order (remove1 j rest)" "\<forall>y \<in> set rest. ranked_key j \<le> ranked_key y"
      by (rule ranked_order_step)
    have ih: "mset (ranked_order (remove1 j rest)) = mset (remove1 j rest) \<and> sorted (map ranked_key (ranked_order (remove1 j rest)))"
      using "1.IH" length_remove1_less [OF j(1)] by blast
    then have "set (ranked_order (remove1 j rest)) = set (remove1 j rest)" by (metis mset_eq_setD)
    with ih j show ?thesis by (auto dest: notin_set_remove1)
  qed simp
qed

definition side_order :: "Side \<Rightarrow> QoJob list" where
  "side_order s = (case sd_kind s of Fifo \<Rightarrow> sd_queue s | Pq \<Rightarrow> ranked_order (sd_queue s))"

section \<open>The workers\<close>

definition side_take :: "Side \<Rightarrow> Side" where
  "side_take s =
    (case side_order s of
       [] \<Rightarrow> s
     | j # _ \<Rightarrow> (if sd_running s \<noteq> None then s else s\<lparr>sd_queue := cut_out j (sd_queue s), sd_running := Some j\<rparr>))"

definition side_finish :: "Side \<Rightarrow> Side" where
  "side_finish s = (case sd_running s of None \<Rightarrow> s | Some j \<Rightarrow> s\<lparr>sd_ran := sd_ran s @ [j], sd_running := None\<rparr>)"

definition qo_busy :: "QueueOrder \<Rightarrow> bool" where
  "qo_busy q \<longleftrightarrow> (\<exists>s \<in> set (qo_sides q). sd_running s \<noteq> None)"

definition qo_take :: "QueueOrder \<Rightarrow> QueueOrder" where
  "qo_take q = q\<lparr>qo_sides := map side_take (qo_sides q)\<rparr>"

definition qo_finish :: "QueueOrder \<Rightarrow> QueueOrder" where
  "qo_finish q = q\<lparr>qo_sides := map side_finish (qo_sides q)\<rparr>"

definition qo_schedule :: "QueueOrder \<Rightarrow> QueueOrder" where
  "qo_schedule q = (if qo_pending q \<or> \<not> qo_busy q then q else q\<lparr>qo_pending := True\<rparr>)"

definition side_left :: "Side \<Rightarrow> nat" where
  "side_left s = length (sd_queue s) + (if sd_running s = None then 0 else 1)"

lemma side_order_mset [simp]: "mset (side_order s) = mset (sd_queue s)"
  by (simp add: side_order_def ranked_order_sorts split: SideKind.split)

lemma side_order_set: "set (side_order s) = set (sd_queue s)"
  by (rule mset_eq_setD) simp

lemma side_order_Nil: "side_order s = [] \<longleftrightarrow> sd_queue s = []"
  using side_order_set [of s] by auto

lemma side_take_cases:
  obtains (stay) "side_take s = s" "sd_queue s = [] \<or> sd_running s \<noteq> None"
    | (take) j js where "side_take s = s\<lparr>sd_queue := remove1 j (sd_queue s), sd_running := Some j\<rparr>" "sd_running s = None"
        "side_order s = j # js" "j \<in> set (sd_queue s)"
proof (cases "side_order s")
  case Nil
  then have "side_take s = s" "sd_queue s = []" by (simp add: side_take_def) (simp add: Nil flip: side_order_Nil)
  then show thesis using stay by simp
next
  case (Cons j js)
  then have "j \<in> set (sd_queue s)" using side_order_set [of s] by auto
  with Cons show thesis using stay take by (cases "sd_running s") (simp_all add: side_take_def cut_out_remove1)
qed

lemma side_round_left:
  "side_left (side_finish (side_take s)) = side_left s - 1" "sd_running (side_finish (side_take s)) = None"
  by (cases rule: side_take_cases [of s];
      auto simp: side_left_def side_finish_def length_remove1 length_pos_if_in_set split: option.splits)+

lemma sum_side_left:
  "\<exists>s \<in> set sides. sd_queue s \<noteq> []
    \<Longrightarrow> sum_list (map (\<lambda>s. side_left s - 1) sides) < sum_list (map side_left sides)"
proof (induction sides)
  case (Cons a sides)
  have le: "sum_list (map (\<lambda>s. side_left s - 1) sides) \<le> sum_list (map side_left sides)" by (rule sum_list_mono) simp
  show ?case
  proof (cases "sd_queue a = []")
    case True
    with Cons show ?thesis by (simp add: add_le_less_mono)
  next
    case False
    then have "0 < side_left a" by (simp add: side_left_def)
    with le show ?thesis by simp
  qed
qed simp

definition qo_round :: "QueueOrder \<Rightarrow> QueueOrder" where
  "qo_round q = qo_finish (qo_take q)"

lemma qo_round_sides: "qo_sides (qo_round q) = map (\<lambda>s. side_finish (side_take s)) (qo_sides q)"
  by (simp add: qo_round_def qo_finish_def qo_take_def)

text \<open>The do-while of \<open>drain\<close>: one round, and again while a queue has jobs. The measure counts the jobs before the round.\<close>

function qo_drain :: "QueueOrder \<Rightarrow> QueueOrder" where
  "qo_drain q = (let q' = qo_round q in if \<exists>s \<in> set (qo_sides q'). sd_queue s \<noteq> [] then qo_drain q' else q')"
  by pat_completeness auto
termination
proof (relation "measure (\<lambda>q. sum_list (map side_left (qo_sides q)))")
  fix q q' assume q': "q' = qo_round q" "\<exists>s \<in> set (qo_sides q'). sd_queue s \<noteq> []"
  have "\<exists>s \<in> set (qo_sides q). sd_queue s \<noteq> []"
  proof (rule ccontr)
    assume "\<not> ?thesis"
    moreover have "sd_queue (side_finish (side_take s)) = []" if "sd_queue s = []" for s
      using that by (simp add: side_take_def side_order_Nil [THEN iffD2] side_finish_def split: option.split)
    ultimately have "\<forall>s \<in> set (qo_sides q). sd_queue (side_finish (side_take s)) = []" by blast
    with q' show False by (auto simp: qo_round_sides)
  qed
  from sum_side_left [OF this] q'(1) show "(q', q) \<in> measure (\<lambda>q. sum_list (map side_left (qo_sides q)))"
    by (simp add: qo_round_sides comp_def side_round_left)
qed simp

declare qo_drain.simps [simp del]

section \<open>What \<open>paint\<close> writes\<close>

definition chip_label :: "Side \<Rightarrow> QoJob \<Rightarrow> string" where
  "chip_label s j = (case sd_kind s of Pq \<Rightarrow> qj_name j @ '' '' @ string_of_int (rk_priority j) | Fifo \<Rightarrow> qj_name j)"

definition qo_paint :: "bool \<Rightarrow> QueueOrder \<Rightarrow> QoPanel" where
  "qo_paint reduce q =
    \<lparr>qp_waiting = map (\<lambda>s. map (chip_label s) (side_order s)) (qo_sides q),
     qp_run = map (\<lambda>s. map_option (chip_label s) (sd_running s)) (qo_sides q),
     qp_done = map (\<lambda>s. map (chip_label s) (sd_ran s)) (qo_sides q),
     qp_len = map (\<lambda>s. string_of_nat (length (sd_queue s)) @ '' '' @ (if length (sd_queue s) = 1 then ''job'' else ''jobs'')) (qo_sides q),
     qp_hint = (if qo_started q then ''idle'' else ''not started''),
     qp_startText = (if reduce then ''Run all'' else if \<not> qo_started q then ''Start workers''
       else if qo_paused q then ''Resume workers'' else ''Pause workers''),
     qp_startDisabled = (qo_started q \<and> \<not> qo_paused q \<and> \<not> reduce \<and> \<not> qo_busy q \<and> \<not> (\<exists>s \<in> set (qo_sides q). sd_queue s \<noteq> []))\<rparr>"

definition qo_show :: "bool \<Rightarrow> QueueOrder \<Rightarrow> QoScene \<Rightarrow> QoScene" where
  "qo_show reduce q c = c\<lparr>qc_state := q, qc_panel := qo_paint reduce q\<rparr>"

section \<open>The controls\<close>

definition qo_fresh :: "int \<Rightarrow> QueueOrder" where
  "qo_fresh prio = \<lparr>qo_sides = map (\<lambda>k. \<lparr>sd_kind = k, sd_queue = [], sd_running = None, sd_ran = []\<rparr>) [Fifo, Pq], qo_seq = 0, qo_names = 0,
     qo_started = False, qo_paused = False, qo_pending = False, qo_prio = prio\<rparr>"

definition quoted :: "string \<Rightarrow> string" where
  "quoted x = [CHR 0x22] @ x @ [CHR 0x22]"

definition add_call :: "string \<Rightarrow> int \<Rightarrow> string" where
  "add_call name priority = ''queue.Add('' @ quoted name @ '')   pq.Add('' @ quoted name @ '', '' @ string_of_int priority @ '')''"

definition QO_FIRST_CAP :: string where
  "QO_FIRST_CAP = add_call ''report'' 10"

definition order_of :: "Side \<Rightarrow> string" where
  "order_of s = join_with '', '' (map qj_name (side_order s))"

definition qo_push :: "string \<Rightarrow> int \<Rightarrow> QueueOrder \<Rightarrow> QueueOrder" where
  "qo_push name priority q =
    q\<lparr>qo_seq := Suc (qo_seq q),
      qo_sides := map (\<lambda>s. s\<lparr>sd_queue := sd_queue s @ [\<lparr>rk_priority = priority, rk_seq = int (Suc (qo_seq q)), qj_name = name\<rparr>]\<rparr>) (qo_sides q)\<rparr>"

definition qo_work :: "bool \<Rightarrow> QueueOrder \<Rightarrow> QueueOrder" where
  "qo_work reduce q = (if qo_started q \<and> reduce then qo_drain q else if qo_started q \<and> \<not> qo_paused q then qo_take q else q)"

text \<open>\<open>add\<close>: only the branch that lets the workers take schedules the timer, after it has painted.\<close>

definition qo_add :: "bool \<Rightarrow> string \<Rightarrow> int \<Rightarrow> QoScene \<Rightarrow> QoScene" where
  "qo_add reduce name priority c =
    (let q1 = qo_work reduce (qo_push name priority (qc_state c));
         q2 = (if qo_started q1 \<and> \<not> reduce \<and> \<not> qo_paused q1 then qo_schedule q1 else q1) in
     (qo_show reduce q1 (c\<lparr>qc_caption := add_call name priority\<rparr>))
       \<lparr>qc_state := q2,
        qc_said := ''Added '' @ name @ '' with priority '' @ string_of_int priority @ ''. First queue order: '' @ order_of (qo_sides q2 ! 0)
          @ ''. Priority queue order: '' @ order_of (qo_sides q2 ! 1) @ ''.''\<rparr>)"

definition qo_add_click :: "bool \<Rightarrow> QoScene \<Rightarrow> QoScene" where
  "qo_add_click reduce c =
    (let q = qc_state c in
     qo_add reduce (QO_NAMES ! (qo_names q mod length QO_NAMES)) (qo_prio q) (c\<lparr>qc_state := q\<lparr>qo_names := Suc (qo_names q)\<rparr>\<rparr>))"

definition qo_reset :: "bool \<Rightarrow> QoScene \<Rightarrow> QoScene" where
  "qo_reset reduce c =
    (qo_show reduce (qo_fresh (qo_prio (qc_state c))) c)\<lparr>qc_caption := QO_FIRST_CAP, qc_said := ''Reset. Both queues are empty.''\<rparr>"

definition qo_example :: "bool \<Rightarrow> QoScene \<Rightarrow> QoScene" where
  "qo_example reduce c =
    (let c' = qo_add reduce ''digest'' 10 (qo_add reduce ''alert'' 1 (qo_add reduce ''report'' 10 (qo_reset reduce c))) in
     c'\<lparr>qc_state := (qc_state c')\<lparr>qo_names := 3\<rparr>\<rparr>)"

definition qo_start :: "bool \<Rightarrow> QoScene \<Rightarrow> QoScene" where
  "qo_start reduce c =
    (let q = qc_state c in
     if reduce then (qo_show reduce (qo_drain (q\<lparr>qo_started := True\<rparr>)) c)
       \<lparr>qc_said := ''Everything ran. The first queue ran the jobs in add order. The priority queue ran the lowest number first.''\<rparr>
     else if \<not> qo_started q \<or> qo_paused q then
       (let q1 = qo_take (q\<lparr>qo_started := True, qo_paused := False\<rparr>) in
        (qo_show reduce q1 (c\<lparr>qc_caption := if qo_started q then ''worker.Resume()'' else ''worker.Start()''\<rparr>))\<lparr>qc_state := qo_schedule q1\<rparr>)
     else (qo_show reduce (q\<lparr>qo_paused := True\<rparr>) c)
       \<lparr>qc_caption := ''worker.Pause()'', qc_said := ''Both workers paused. Jobs that run now finish. No new job starts.''\<rparr>)"

definition qo_ticked :: "QueueOrder \<Rightarrow> QueueOrder" where
  "qo_ticked q = (let q1 = qo_finish (q\<lparr>qo_pending := False\<rparr>) in if qo_paused q1 then q1 else qo_take q1)"

definition qo_tick :: "bool \<Rightarrow> QoScene \<Rightarrow> QoScene" where
  "qo_tick reduce c =
    (let q = qo_ticked (qc_state c); c1 = qo_show reduce q c;
         c2 = (case sd_running (qo_sides (qc_state c) ! 1) of None \<Rightarrow> c1 | Some j \<Rightarrow> c1\<lparr>qc_said := ''Ran '' @ qj_name j @ ''.''\<rparr>);
         c3 = (if \<not> qo_busy q \<and> \<not> qo_paused q then c2\<lparr>qc_said := ''Both queues are empty.''\<rparr> else c2) in
     c3\<lparr>qc_state := qo_schedule q\<rparr>)"

definition qo_prio_step :: "int \<Rightarrow> QoScene \<Rightarrow> QoScene" where
  "qo_prio_step v c = (let q = qc_state c in c\<lparr>qc_state := q\<lparr>qo_prio := stepper_set (-9) 20 v\<rparr>\<rparr>)"

text \<open>A disabled button takes no click; the timer fires only while it is set.\<close>

fun qo_event :: "bool \<Rightarrow> QoEvent \<Rightarrow> QoScene \<Rightarrow> QoScene" where
  "qo_event reduce QoAdd c = qo_add_click reduce c"
| "qo_event reduce QoExample c = qo_example reduce c"
| "qo_event reduce QoStart c = (if qp_startDisabled (qc_panel c) then c else qo_start reduce c)"
| "qo_event reduce QoReset c = qo_reset reduce c"
| "qo_event reduce QoPrioDec c = (if qo_prio (qc_state c) \<le> -9 then c else qo_prio_step (qo_prio (qc_state c) - 1) c)"
| "qo_event reduce QoPrioInc c = (if 20 \<le> qo_prio (qc_state c) then c else qo_prio_step (qo_prio (qc_state c) + 1) c)"
| "qo_event reduce QoTick c = (if qo_pending (qc_state c) then qo_tick reduce c else c)"

definition qo_opens :: "bool \<Rightarrow> QoScene \<Rightarrow> bool" where
  "qo_opens reduce c \<longleftrightarrow> qc_state c = qo_fresh 10 \<and> qc_panel c = qo_paint reduce (qo_fresh 10)"

definition qo_act :: "bool \<times> QoEvent \<Rightarrow> QoScene \<Rightarrow> QoScene option" where
  "qo_act e c = Some (qo_event (fst e) (snd e) c)"

section \<open>What a round keeps\<close>

text \<open>The jobs of a side in the order they leave: those that ran, the one that runs, and the order shown of those that wait.\<close>

definition side_path :: "Side \<Rightarrow> QoJob list" where
  "side_path s = sd_ran s @ (case sd_running s of None \<Rightarrow> [] | Some j \<Rightarrow> [j]) @ side_order s"

lemma side_order_head:
  assumes "side_order s = j # js"
  shows "side_order (s\<lparr>sd_queue := remove1 j (sd_queue s), sd_running := r\<rparr>) = js"
proof (cases "sd_kind s")
  case Fifo
  with assms show ?thesis by (simp add: side_order_def)
next
  case Pq
  with assms have "sd_queue s \<noteq> []" by (auto simp: side_order_def)
  then show ?thesis using ranked_order_step [of "sd_queue s"] assms Pq by (auto simp: side_order_def)
qed

lemma side_take_path [simp]: "side_path (side_take s) = side_path s"
  by (cases rule: side_take_cases [of s]) (simp_all add: side_path_def side_order_head)

lemma side_finish_path [simp]: "side_path (side_finish s) = side_path s"
  by (simp add: side_path_def side_finish_def side_order_def split: option.split SideKind.split)

lemma side_kind [simp]: "sd_kind (side_take s) = sd_kind s" "sd_kind (side_finish s) = sd_kind s"
  by (simp_all add: side_take_def side_finish_def split: list.split option.split)

lemma side_take_fed: "sd_running (side_take s) = None \<Longrightarrow> sd_queue (side_take s) = []"
  by (cases rule: side_take_cases [of s]) auto

lemma side_take_left: "side_left (side_take s) = side_left s"
  by (cases rule: side_take_cases [of s]) (auto simp: side_left_def length_remove1 dest: length_pos_if_in_set)

lemma side_finish_left [simp]: "sd_running (side_finish s) = None" "sd_queue (side_finish s) = sd_queue s"
  by (simp_all add: side_finish_def split: option.split)

lemma side_done_path: "side_left s = 0 \<Longrightarrow> sd_ran s = side_path s"
  using side_order_Nil [of s] by (simp add: side_left_def side_path_def split: if_splits)

lemma drain_sides:
  "map side_path (qo_sides (qo_drain q)) = map side_path (qo_sides q) \<and> map sd_kind (qo_sides (qo_drain q)) = map sd_kind (qo_sides q)
    \<and> (\<forall>s \<in> set (qo_sides (qo_drain q)). side_left s = 0) \<and> QueueOrder.more (qo_drain q) = QueueOrder.more q
    \<and> qo_seq (qo_drain q) = qo_seq q \<and> qo_started (qo_drain q) = qo_started q \<and> qo_paused (qo_drain q) = qo_paused q
    \<and> qo_pending (qo_drain q) = qo_pending q \<and> qo_prio (qo_drain q) = qo_prio q \<and> qo_names (qo_drain q) = qo_names q"
proof (induction q rule: qo_drain.induct)
  case (1 q)
  let ?q = "qo_round q"
  have r: "map side_path (qo_sides ?q) = map side_path (qo_sides q)" "map sd_kind (qo_sides ?q) = map sd_kind (qo_sides q)"
    "qo_seq ?q = qo_seq q" "qo_started ?q = qo_started q" "qo_paused ?q = qo_paused q" "qo_pending ?q = qo_pending q" "qo_prio ?q = qo_prio q"
    "qo_names ?q = qo_names q"
    by (simp_all add: qo_round_def qo_finish_def qo_take_def)
  show ?case
  proof (cases "\<exists>s \<in> set (qo_sides ?q). sd_queue s \<noteq> []")
    case True
    with "1.IH" [OF refl True] r show ?thesis by (subst (1 2 3 4 5 6 7 8 9 10) qo_drain.simps) (simp add: Let_def)
  next
    case False
    have "\<forall>s \<in> set (qo_sides ?q). sd_running s = None" by (auto simp: qo_round_sides)
    with False have "\<forall>s \<in> set (qo_sides ?q). side_left s = 0" by (auto simp: side_left_def)
    with False r show ?thesis by (subst (1 2 3 4 5 6 7 8 9 10) qo_drain.simps) (simp add: Let_def)
  qed
qed

section \<open>Both queues hold the same jobs\<close>

text \<open>The first queue has the jobs in the order of the adds, and the priority queue the same jobs.\<close>

definition qo_same :: "QueueOrder \<Rightarrow> bool" where
  "qo_same q \<longleftrightarrow> (\<exists>f p. qo_sides q = [f, p] \<and> sd_kind f = Fifo \<and> sd_kind p = Pq
     \<and> map rk_seq (side_path f) = map int [1..<Suc (qo_seq q)] \<and> mset (side_path p) = mset (side_path f))"

definition qo_timed :: "QueueOrder \<Rightarrow> bool" where
  "qo_timed q \<longleftrightarrow> (qo_busy q \<longrightarrow> qo_pending q) \<and> (qo_pending q \<longrightarrow> qo_started q)
     \<and> (qo_started q \<and> \<not> qo_paused q \<longrightarrow> (\<forall>s \<in> set (qo_sides q). sd_running s = None \<longrightarrow> sd_queue s = []))"

text \<open>What the panel shows of the state; a changed priority number is not part of it.\<close>

definition qo_shown :: "QoScene \<Rightarrow> bool" where
  "qo_shown c \<longleftrightarrow> (\<exists>reduce. qc_panel c = qo_paint reduce (qc_state c))"

definition qo_inv :: "QoScene \<Rightarrow> bool" where
  "qo_inv c \<longleftrightarrow> qo_same (qc_state c) \<and> qo_timed (qc_state c) \<and> qo_shown c"

lemma qo_same_cong:
  assumes "qo_same q" "map side_path (qo_sides q') = map side_path (qo_sides q)" "map sd_kind (qo_sides q') = map sd_kind (qo_sides q)"
    "qo_seq q' = qo_seq q"
  shows "qo_same q'"
proof -
  from assms(1) obtain f p where q: "qo_sides q = [f, p]" "sd_kind f = Fifo" "sd_kind p = Pq"
    "map rk_seq (side_path f) = map int [1..<Suc (qo_seq q)]" "mset (side_path p) = mset (side_path f)" by (auto simp: qo_same_def simp del: upt_Suc)
  with assms(2) obtain f' p' where q': "qo_sides q' = [f', p']" "side_path f' = side_path f" "side_path p' = side_path p"
    by (auto simp: map_eq_Cons_conv)
  with q assms(3,4) show ?thesis by (simp add: qo_same_def del: upt_Suc)
qed

lemma same_take [simp]: "qo_same q \<Longrightarrow> qo_same (qo_take q)"
  by (rule qo_same_cong) (simp_all add: qo_take_def)

lemma same_finish [simp]: "qo_same q \<Longrightarrow> qo_same (qo_finish q)"
  by (rule qo_same_cong) (simp_all add: qo_finish_def)

lemma same_drain [simp]: "qo_same q \<Longrightarrow> qo_same (qo_drain q)"
  by (rule qo_same_cong) (simp_all add: drain_sides)

lemma same_frame [simp]:
  "qo_same (q\<lparr>qo_started := b\<rparr>) = qo_same q" "qo_same (q\<lparr>qo_paused := b\<rparr>) = qo_same q" "qo_same (q\<lparr>qo_pending := b\<rparr>) = qo_same q"
  "qo_same (q\<lparr>qo_names := k\<rparr>) = qo_same q" "qo_same (q\<lparr>qo_prio := v\<rparr>) = qo_same q" "qo_same (qo_schedule q) = qo_same q"
  by (simp_all add: qo_same_def qo_schedule_def)

lemma ranked_order_snoc: "mset (ranked_order (q @ [j])) = mset q + {#j#}"
  using ranked_order_sorts [of "q @ [j]"] by simp

lemma same_push [simp]:
  assumes "qo_same q"
  shows "qo_same (qo_push name priority q)"
proof -
  let ?j = "\<lparr>rk_priority = priority, rk_seq = int (Suc (qo_seq q)), qj_name = name\<rparr>"
  from assms obtain f p where q: "qo_sides q = [f, p]" "sd_kind f = Fifo" "sd_kind p = Pq"
    "map rk_seq (side_path f) = map int [1..<Suc (qo_seq q)]" "mset (side_path p) = mset (side_path f)" by (auto simp: qo_same_def simp del: upt_Suc)
  let ?add = "\<lambda>s. s\<lparr>sd_queue := sd_queue s @ [?j]\<rparr>"
  have f: "side_path (?add f) = side_path f @ [?j]" using q(2) by (simp add: side_path_def side_order_def)
  have p: "mset (side_path (?add p)) = add_mset ?j (mset (side_path p))"
    using q(3) by (simp add: side_path_def side_order_def ranked_order_snoc ranked_order_sorts)
  have "[1..<Suc (Suc n)] = [1..<Suc n] @ [Suc n]" for n by simp
  with q f p show ?thesis by (simp add: qo_same_def qo_push_def del: upt_Suc)
qed

lemma same_fresh: "qo_same (qo_fresh prio)"
  by (simp add: qo_same_def qo_fresh_def side_path_def side_order_def)

section \<open>The timers\<close>

lemma timed_take: "qo_pending q \<longrightarrow> qo_started q \<Longrightarrow> qo_started q \<Longrightarrow> qo_timed (qo_schedule (qo_take q))"
  using side_take_fed by (auto simp: qo_timed_def qo_schedule_def qo_take_def qo_busy_def)

lemma timed_drain: "qo_pending q \<longrightarrow> qo_started q \<Longrightarrow> qo_timed (qo_drain q)"
  using drain_sides [of q] by (auto simp: qo_timed_def qo_busy_def side_left_def split: if_splits)

lemma timed_fresh: "qo_timed (qo_fresh prio)"
  by (simp add: qo_timed_def qo_fresh_def qo_busy_def)

lemma timed_frame [simp]:
  "qo_timed (q\<lparr>qo_names := k\<rparr>) = qo_timed q" "qo_timed (q\<lparr>qo_prio := v\<rparr>) = qo_timed q"
  by (simp_all add: qo_timed_def qo_busy_def)

lemma paint_frame_qo [simp]:
  "qo_paint reduce (q\<lparr>qo_names := k\<rparr>) = qo_paint reduce q" "qo_paint reduce (q\<lparr>qo_prio := v\<rparr>) = qo_paint reduce q"
  "qo_paint reduce (qo_schedule q) = qo_paint reduce q"
  by (simp_all add: qo_paint_def qo_busy_def qo_schedule_def)

lemma push_fields [simp]:
  "qo_started (qo_push n p q) = qo_started q" "qo_paused (qo_push n p q) = qo_paused q" "qo_pending (qo_push n p q) = qo_pending q"
  "qo_busy (qo_push n p q) = qo_busy q" "qo_started (qo_take q) = qo_started q" "qo_paused (qo_take q) = qo_paused q"
  "qo_pending (qo_take q) = qo_pending q" "qo_started (qo_finish q) = qo_started q" "qo_paused (qo_finish q) = qo_paused q"
  "qo_pending (qo_finish q) = qo_pending q"
  by (simp_all add: qo_push_def qo_take_def qo_finish_def qo_busy_def)

lemma qo_show_fields [simp]: "qc_state (qo_show reduce q c) = q" "qc_panel (qo_show reduce q c) = qo_paint reduce q"
  by (simp_all add: qo_show_def)

lemma qo_invI: "qo_same q \<Longrightarrow> qo_timed q \<Longrightarrow> qc_state c = q \<Longrightarrow> qc_panel c = qo_paint reduce q \<Longrightarrow> qo_inv c"
  by (auto simp: qo_inv_def qo_shown_def)

subsection \<open>The state after each control\<close>

definition qo_added :: "bool \<Rightarrow> string \<Rightarrow> int \<Rightarrow> QueueOrder \<Rightarrow> QueueOrder" where
  "qo_added reduce name priority q =
    (let q1 = qo_work reduce (qo_push name priority q) in if qo_started q1 \<and> \<not> reduce \<and> \<not> qo_paused q1 then qo_schedule q1 else q1)"

lemma add_state:
  "qc_state (qo_add reduce name priority c) = qo_added reduce name priority (qc_state c)"
  "qc_panel (qo_add reduce name priority c) = qo_paint reduce (qo_added reduce name priority (qc_state c))"
  by (simp_all add: qo_add_def qo_added_def Let_def)

lemma added_keeps:
  assumes "qo_same q" "qo_timed q"
  shows "qo_same (qo_added reduce name priority q)" "qo_timed (qo_added reduce name priority q)"
proof -
  let ?q = "qo_push name priority q"
  have p: "qo_pending ?q \<longrightarrow> qo_started ?q" using assms(2) by (simp add: qo_timed_def)
  show "qo_same (qo_added reduce name priority q)" using assms(1) by (simp add: qo_added_def qo_work_def Let_def)
  show "qo_timed (qo_added reduce name priority q)"
    using timed_drain [OF p] timed_take [OF p] assms(2) drain_sides [of ?q]
    by (auto simp: qo_added_def qo_work_def Let_def) (auto simp: qo_timed_def)
qed

lemma start_state:
  "qc_state (qo_start reduce c) =
    (let q = qc_state c in if reduce then qo_drain (q\<lparr>qo_started := True\<rparr>)
     else if \<not> qo_started q \<or> qo_paused q then qo_schedule (qo_take (q\<lparr>qo_started := True, qo_paused := False\<rparr>)) else q\<lparr>qo_paused := True\<rparr>)"
  "qc_panel (qo_start reduce c) = qo_paint reduce (qc_state (qo_start reduce c))"
  by (simp_all add: qo_start_def Let_def)

lemma tick_state:
  "qc_state (qo_tick reduce c) = qo_schedule (qo_ticked (qc_state c))"
  "qc_panel (qo_tick reduce c) = qo_paint reduce (qc_state (qo_tick reduce c))"
  by (simp_all add: qo_tick_def Let_def split: option.split)

lemma reset_state:
  "qc_state (qo_reset reduce c) = qo_fresh (qo_prio (qc_state c))" "qc_panel (qo_reset reduce c) = qo_paint reduce (qo_fresh (qo_prio (qc_state c)))"
  by (simp_all add: qo_reset_def)

lemma ticked_keeps:
  assumes "qo_same q" "qo_timed q" "qo_pending q"
  shows "qo_same (qo_schedule (qo_ticked q))" "qo_timed (qo_schedule (qo_ticked q))"
proof -
  show "qo_same (qo_schedule (qo_ticked q))" using assms(1) by (simp add: qo_ticked_def Let_def)
  let ?q = "qo_finish (q\<lparr>qo_pending := False\<rparr>)"
  have "qo_started ?q" "\<not> qo_pending ?q" "\<not> qo_busy ?q"
    using assms by (auto simp: qo_timed_def qo_finish_def qo_busy_def)
  with timed_take [of ?q] show "qo_timed (qo_schedule (qo_ticked q))"
    by (auto simp: qo_ticked_def Let_def) (auto simp: qo_timed_def qo_schedule_def qo_finish_def)
qed

lemma start_keeps_qo:
  assumes "qo_same q" "qo_timed q"
  shows "qo_timed (qo_drain (q\<lparr>qo_started := True\<rparr>))" "qo_timed (qo_schedule (qo_take (q\<lparr>qo_started := True, qo_paused := False\<rparr>)))"
    "qo_started q \<Longrightarrow> qo_timed (q\<lparr>qo_paused := True\<rparr>)"
proof -
  show "qo_timed (qo_drain (q\<lparr>qo_started := True\<rparr>))" by (rule timed_drain) simp
  show "qo_timed (qo_schedule (qo_take (q\<lparr>qo_started := True, qo_paused := False\<rparr>)))" by (rule timed_take) simp_all
  show "qo_timed (q\<lparr>qo_paused := True\<rparr>)" if "qo_started q" using assms(2) that by (simp add: qo_timed_def qo_busy_def)
qed

lemma qo_add_inv: "qo_inv c \<Longrightarrow> qo_inv (qo_add reduce name priority c)"
  by (rule qo_invI [OF _ _ refl]) (auto simp: add_state qo_inv_def added_keeps)

lemma qo_reset_inv: "qo_inv (qo_reset reduce c)"
  by (rule qo_invI [OF same_fresh timed_fresh]) (simp_all add: reset_state)

lemma qo_frame_inv:
  "qo_inv c \<Longrightarrow> qo_inv (c\<lparr>qc_state := (qc_state c)\<lparr>qo_names := k\<rparr>\<rparr>)" "qo_inv c \<Longrightarrow> qo_inv (c\<lparr>qc_state := (qc_state c)\<lparr>qo_prio := v\<rparr>\<rparr>)"
  by (auto simp: qo_inv_def qo_shown_def)

lemma qo_event_inv:
  assumes "qo_inv c"
  shows "qo_inv (qo_event reduce e c)"
proof -
  note p = assms [unfolded qo_inv_def]
  note i = qo_invI [OF _ _ refl]
  show ?thesis
  proof (cases e)
    case QoStart
    then show ?thesis using assms p start_keeps_qo [of "qc_state c"] by (auto intro!: i simp: start_state Let_def)
  next
    case QoTick
    then show ?thesis using assms p ticked_keeps [of "qc_state c"] by (auto intro!: i simp: tick_state)
  next
    case QoExample
    then show ?thesis by (simp add: qo_example_def Let_def qo_frame_inv qo_add_inv qo_reset_inv)
  qed (use assms in \<open>simp_all add: qo_add_click_def Let_def qo_prio_step_def qo_frame_inv qo_add_inv qo_reset_inv\<close>)
qed

interpretation order_scene: scene "qo_opens reduce" qo_act qo_inv
proof unfold_locales
  show "qo_inv c" if "qo_opens reduce c" for c
    using that same_fresh timed_fresh by (auto simp: qo_opens_def intro: qo_invI)
qed (auto simp: qo_act_def qo_event_inv)

section \<open>The priority queue's order\<close>

lemma same_sides:
  assumes "qo_same q"
  obtains f p where "qo_sides q = [f, p]" "sd_kind f = Fifo" "sd_kind p = Pq" "map rk_seq (side_path f) = map int [1..<Suc (qo_seq q)]"
    "mset (side_path p) = mset (side_path f)"
  using assms by (auto simp: qo_same_def simp del: upt_Suc)

lemma seqs_inj:
  assumes "map rk_seq js = map int [1..<Suc n]" "set qs \<subseteq> set js"
  shows "inj_on ranked_key (set (qs :: QoJob list))"
proof -
  have "distinct (map rk_seq js)" by (subst assms(1)) (simp add: distinct_map del: upt_Suc)
  then have "inj_on rk_seq (set qs)" using assms(2) by (auto simp: distinct_map intro: inj_on_subset)
  then show ?thesis by (auto simp: inj_on_def ranked_key_def)
qed

text \<open>With distinct places the loop of \<open>nextRanked\<close> is the library's stable sort.\<close>

lemma ranked_order_is_sort: "inj_on ranked_key (set q) \<Longrightarrow> ranked_order q = sort_key ranked_key q"
  using ranked_order_sorts [of q] by (metis sort_key_inj_key_eq)

definition as_add :: "QoJob \<Rightarrow> Add" where
  "as_add j = \<lparr>add_name = qj_name j, add_priority = rk_priority j\<rparr>"

lemma ranked_order_is_priorityQueue:
  assumes js: "map rk_seq js = map int [1..<Suc n]" and mset: "mset q = mset js" and "0 < n"
  shows "map as_add (ranked_order q) = last (priorityQueue (map as_add js))"
proof -
  let ?g = "\<lambda>j. (as_add j, nat (rk_seq j) - 1)" and ?k = "\<lambda>(a, i :: nat). (add_priority a, i)"
  have n: "length js = n" using arg_cong [OF js, of length] by (simp del: upt_Suc)
  have seq: "rk_seq (js ! i) = int (Suc i)" if "i < n" for i
    using that arg_cong [OF js, of "\<lambda>xs. xs ! i"] n by (simp del: upt_Suc)
  have zip: "zip (map as_add js) [0..<length js] = map ?g js"
    by (rule nth_equalityI) (auto simp: n seq)
  have set: "set (ranked_order q) = set js" using ranked_order_sorts [of q] mset by (metis mset_eq_setD)
  have pos: "1 \<le> rk_seq j" if "j \<in> set js" for j using that seq n by (fastforce simp: in_set_conv_nth)
  have key: "?k (?g x) \<le> ?k (?g y)" if "x \<in> set js" "y \<in> set js" "ranked_key x \<le> ranked_key y" for x y
    using that pos [OF that(1)] pos [OF that(2)] by (auto simp: ranked_key_def as_add_def)
  have sorted: "sorted (map ?k (map ?g (ranked_order q)))"
  proof -
    have "sorted_wrt (\<lambda>x y. ranked_key x \<le> ranked_key y) (ranked_order q)"
      using ranked_order_sorts [of q] by (simp add: sorted_map)
    then have "sorted_wrt (\<lambda>x y. ?k (?g x) \<le> ?k (?g y)) (ranked_order q)"
      by (rule sorted_wrt_mono_rel [rotated]) (use key set in blast)
    then show ?thesis by (simp add: sorted_map sorted_wrt_map)
  qed
  have "inj_on rk_seq (set js)" using js by (metis distinct_map distinct_upt inj_of_nat inj_on_subset subset_UNIV)
  moreover have "rk_seq x = rk_seq y" if "x \<in> set js" "y \<in> set js" "nat (rk_seq x) - 1 = nat (rk_seq y) - 1" for x y
    using pos [OF that(1)] pos [OF that(2)] that(3) by linarith
  ultimately have "inj_on (\<lambda>j. nat (rk_seq j) - 1) (set js)" by (simp add: inj_on_def)
  then have inj: "inj_on ?k (set (map ?g js))" by (auto simp: inj_on_def)
  have "mset (map ?g js) = mset (map ?g (ranked_order q))" using ranked_order_sorts [of q] mset by simp
  then have "sort_key ?k (map ?g js) = map ?g (ranked_order q)" by (rule sort_key_inj_key_eq [OF _ inj sorted])
  then have "map fst (sort_key ?k (zip (map as_add js) [0..<length js])) = map as_add (ranked_order q)" by (simp add: zip comp_def)
  moreover have "last (priorityQueue (map as_add js)) = map fst (sort_key ?k (zip (map as_add js) [0..<length js]))"
    using assms(3) n by (simp add: priorityQueue_def last_map)
  ultimately show ?thesis by simp
qed

section \<open>The workers go on\<close>

lemma tick_left:
  assumes "qo_inv c" "qo_started (qc_state c)" "\<not> qo_paused (qc_state c)"
  shows "qo_inv (qo_event r QoTick c) \<and> qo_started (qc_state (qo_event r QoTick c)) \<and> \<not> qo_paused (qc_state (qo_event r QoTick c))
    \<and> qo_seq (qc_state (qo_event r QoTick c)) = qo_seq (qc_state c)
    \<and> map side_path (qo_sides (qc_state (qo_event r QoTick c))) = map side_path (qo_sides (qc_state c))
    \<and> map side_left (qo_sides (qc_state (qo_event r QoTick c))) = map (\<lambda>s. side_left s - 1) (qo_sides (qc_state c))"
proof -
  let ?q = "qc_state c"
  have inv: "qo_inv (qo_event r QoTick c)" by (rule qo_event_inv [OF assms(1)])
  have fed: "\<forall>s \<in> set (qo_sides ?q). sd_running s = None \<longrightarrow> side_left s = 0"
    using assms by (auto simp: qo_inv_def qo_timed_def side_left_def)
  show ?thesis
  proof (cases "qo_pending ?q")
    case True
    have left: "side_left (side_take (side_finish s)) = side_left s - 1" if "s \<in> set (qo_sides ?q)" for s
      using fed that by (auto simp: side_take_left) (auto simp: side_left_def)
    have "qo_sides (qo_schedule (qo_ticked ?q)) = map (\<lambda>s. side_take (side_finish s)) (qo_sides ?q)"
      "qo_seq (qo_schedule (qo_ticked ?q)) = qo_seq ?q" "qo_started (qo_schedule (qo_ticked ?q)) = qo_started ?q"
      "qo_paused (qo_schedule (qo_ticked ?q)) = qo_paused ?q"
      using assms(3) by (simp_all add: qo_ticked_def Let_def qo_schedule_def qo_take_def qo_finish_def)
    with True inv assms left show ?thesis by (simp add: tick_state)
  next
    case False
    then have "\<not> qo_busy ?q" using assms(1) by (auto simp: qo_inv_def qo_timed_def)
    with fed have "\<forall>s \<in> set (qo_sides ?q). side_left s = 0" by (auto simp: qo_busy_def)
    with False assms show ?thesis by simp
  qed
qed

definition qo_rounds :: "bool \<Rightarrow> nat \<Rightarrow> QoScene \<Rightarrow> QoScene" where
  "qo_rounds r k = (qo_event r QoTick ^^ k)"

lemma rounds_left:
  assumes "qo_inv c" "qo_started (qc_state c)" "\<not> qo_paused (qc_state c)"
  shows "qo_inv (qo_rounds r k c) \<and> qo_started (qc_state (qo_rounds r k c)) \<and> \<not> qo_paused (qc_state (qo_rounds r k c))
    \<and> map side_path (qo_sides (qc_state (qo_rounds r k c))) = map side_path (qo_sides (qc_state c))
    \<and> map side_left (qo_sides (qc_state (qo_rounds r k c))) = map (\<lambda>s. side_left s - k) (qo_sides (qc_state c))"
proof (induction k)
  case (Suc k)
  let ?c = "qo_rounds r k c"
  have e: "qo_rounds r (Suc k) c = qo_event r QoTick ?c" by (simp add: qo_rounds_def)
  have "map (\<lambda>s. side_left s - 1) (qo_sides (qc_state ?c)) = map (\<lambda>n. n - 1) (map side_left (qo_sides (qc_state ?c)))" by simp
  also have "\<dots> = map (\<lambda>s. side_left s - Suc k) (qo_sides (qc_state c))" using Suc.IH by (simp add: comp_def)
  finally show ?case using tick_left [of ?c r] Suc.IH unfolding e by (simp del: qo_event.simps)
qed (simp add: qo_rounds_def assms)

lemma side_left_path: "side_left s \<le> length (side_path s)"
proof -
  have "length (side_order s) = length (sd_queue s)" by (metis side_order_mset size_mset)
  then show ?thesis by (auto simp: side_left_def side_path_def split: option.split)
qed

section \<open>Properties\<close>

lemma qo_reached: "qo_opens reduce c \<Longrightarrow> presses qo_act es c = Some c' \<Longrightarrow> qo_inv c'"
  using order_scene.every_press_answered [of reduce c es] by auto

text \<open>C35: However the reader uses the page, every event is answered, both queues hold the same jobs, and the first one runs them in
  the order of the adds. The rail of the priority queue is the stable sort of its waiting jobs by priority. While the workers are
  started and not paused, no job waits beside an idle worker, and a running job has its timer set.\<close>

theorem queue_order_invariant:
  assumes "qo_opens reduce c"
  shows "\<exists>c' f p. presses qo_act es c = Some c' \<and> qo_sides (qc_state c') = [f, p]
    \<and> map rk_seq (side_path f) = map int [1..<Suc (qo_seq (qc_state c'))]
    \<and> mset (side_path p) = mset (side_path f) \<and> side_order p = sort_key ranked_key (sd_queue p)
    \<and> (qo_started (qc_state c') \<and> \<not> qo_paused (qc_state c') \<longrightarrow> (\<forall>s \<in> {f, p}. sd_running s = None \<longrightarrow> sd_queue s = []))
    \<and> (\<forall>s \<in> {f, p}. sd_running s \<noteq> None \<longrightarrow> qo_pending (qc_state c'))"
proof -
  obtain c' where c': "presses qo_act es c = Some c'" "qo_inv c'" using order_scene.every_press_answered [OF assms] by blast
  obtain f p where fp: "qo_sides (qc_state c') = [f, p]" "sd_kind f = Fifo" "sd_kind p = Pq"
    "map rk_seq (side_path f) = map int [1..<Suc (qo_seq (qc_state c'))]" "mset (side_path p) = mset (side_path f)"
    using c'(2) same_sides unfolding qo_inv_def by blast
  have "set (sd_queue p) \<subseteq> set (side_path f)"
    using mset_eq_setD [OF fp(5)] side_order_set [of p] by (auto simp: side_path_def)
  then have "side_order p = sort_key ranked_key (sd_queue p)"
    using seqs_inj [OF fp(4)] fp(3) by (simp add: side_order_def ranked_order_is_sort)
  moreover have "qo_timed (qc_state c')" using c'(2) by (simp add: qo_inv_def)
  ultimately show ?thesis using c'(1) fp by (auto simp: qo_timed_def qo_busy_def simp del: upt_Suc)
qed

definition qo_page :: QoScene where
  "qo_page = \<lparr>qc_state = qo_fresh 10, qc_panel = qo_paint False (qo_fresh 10), qc_caption = QO_FIRST_CAP, qc_said = ''''\<rparr>"

lemma qo_page_opens: "qo_opens False qo_page"
  by (simp add: qo_opens_def qo_page_def)

theorem queue_order_invariant_witness:
  "\<exists>c' f p. presses qo_act [(False, QoAdd), (False, QoStart), (False, QoAdd)] qo_page = Some c' \<and> qo_sides (qc_state c') = [f, p]
    \<and> mset (side_path p) = mset (side_path f)"
  using queue_order_invariant [OF qo_page_opens, of "[(False, QoAdd), (False, QoStart), (False, QoAdd)]"] by blast

text \<open>C36: Three implementations of the priority queue agree. When the reader has added jobs and none has run, \<open>Run all\<close> runs them in
  the first queue in the order of the adds, and in the priority queue in the order that the home page's \<open>priorityQueue\<close> holds the
  same adds in.\<close>

theorem run_all_matches_priorityQueue:
  assumes "qo_opens reduce c" "presses qo_act es c = Some c'" "qo_sides (qc_state c') = [f, p]" "sd_queue p \<noteq> []"
    "sd_ran p = []" "sd_running p = None"
  shows "\<exists>f' p'. qo_sides (qc_state (qo_start True c')) = [f', p'] \<and> map rk_seq (sd_ran f') = map int [1..<Suc (qo_seq (qc_state c'))]
    \<and> map as_add (sd_ran p') = last (priorityQueue (map as_add (sd_ran f')))"
proof -
  let ?q = "(qc_state c')\<lparr>qo_started := True\<rparr>"
  have inv: "qo_same (qc_state c')" using qo_reached [OF assms(1,2)] by (simp add: qo_inv_def)
  then have fp: "sd_kind p = Pq" "map rk_seq (side_path f) = map int [1..<Suc (qo_seq (qc_state c'))]" "mset (side_path p) = mset (side_path f)"
    using same_sides [OF inv] assms(3) by (auto simp del: upt_Suc)
  have d: "map side_path (qo_sides (qo_drain ?q)) = [side_path f, side_path p]" "\<forall>s \<in> set (qo_sides (qo_drain ?q)). side_left s = 0"
    using drain_sides [of ?q] assms(3) by simp_all
  then obtain f' p' where d': "qo_sides (qo_drain ?q) = [f', p']" "side_path f' = side_path f" "side_path p' = side_path p"
    by (auto simp: map_eq_Cons_conv)
  then have ran: "sd_ran f' = side_path f" "sd_ran p' = side_path p" using d(2) side_done_path [of f'] side_done_path [of p'] by simp_all
  have path: "side_path p = ranked_order (sd_queue p)" using assms(5,6) fp(1) by (simp add: side_path_def side_order_def)
  have q: "mset (sd_queue p) = mset (side_path f)" using fp(3) path ranked_order_sorts [of "sd_queue p"] by simp
  with assms(4) have "side_path f \<noteq> []" by auto
  then have "0 < qo_seq (qc_state c')" using arg_cong [OF fp(2), of length] by (cases "side_path f") (auto simp del: upt_Suc)
  from ranked_order_is_priorityQueue [OF fp(2) q this] ran path d'(1) fp(2) show ?thesis
    by (simp add: start_state Let_def del: upt_Suc)
qed

lemma example_state:
  "presses qo_act [(False, QoExample)] qo_page = Some (qo_example False qo_page)"
  "\<exists>f p. qo_sides (qc_state (qo_example False qo_page)) = [f, p] \<and> sd_queue p \<noteq> [] \<and> sd_ran p = [] \<and> sd_running p = None"
  by (simp_all add: qo_act_def qo_example_def Let_def add_state reset_state qo_added_def qo_work_def qo_push_def qo_fresh_def)

theorem run_all_matches_priorityQueue_witness:
  "\<exists>f' p'. qo_sides (qc_state (qo_start True (qo_example False qo_page))) = [f', p']
    \<and> map as_add (sd_ran p') = last (priorityQueue (map as_add (sd_ran f')))"
  using example_state(2) run_all_matches_priorityQueue [OF qo_page_opens example_state(1)] by blast

text \<open>The workers never forget a job: after any clicks and timers that leave them started and not paused, as many timer rounds as
  jobs were added have run every job in both queues, in the order each queue showed.\<close>

theorem queue_order_runs_every_job:
  assumes "qo_opens reduce c" "presses qo_act es c = Some c'" "qo_started (qc_state c')" "\<not> qo_paused (qc_state c')"
    "qo_sides (qc_state c') = [f, p]"
  shows "map sd_ran (qo_sides (qc_state (qo_rounds r (qo_seq (qc_state c')) c'))) = [side_path f, side_path p]"
proof -
  let ?n = "qo_seq (qc_state c')" and ?d = "qo_rounds r (qo_seq (qc_state c')) c'"
  have inv: "qo_inv c'" by (rule qo_reached [OF assms(1,2)])
  have fp: "map rk_seq (side_path f) = map int [1..<Suc ?n]" "mset (side_path p) = mset (side_path f)"
    using same_sides [of "qc_state c'"] inv assms(5) by (auto simp: qo_inv_def simp del: upt_Suc)
  have "length (side_path f) = ?n" "length (side_path p) = ?n"
    using arg_cong [OF fp(1), of length] arg_cong [OF fp(2), of size] by (simp_all del: upt_Suc)
  then have le: "side_left f \<le> ?n" "side_left p \<le> ?n" using side_left_path [of f] side_left_path [of p] by simp_all
  have "map side_path (qo_sides (qc_state ?d)) = [side_path f, side_path p]" "map side_left (qo_sides (qc_state ?d)) = [0, 0]"
    using rounds_left [OF inv assms(3,4), of r ?n] assms(5) le by simp_all
  then obtain f' p' where "qo_sides (qc_state ?d) = [f', p']" "side_path f' = side_path f" "side_path p' = side_path p"
    "side_left f' = 0" "side_left p' = 0" by (auto simp: map_eq_Cons_conv)
  then show ?thesis using side_done_path [of f'] side_done_path [of p'] by simp
qed

theorem queue_order_runs_every_job_witness:
  "\<exists>f p. map sd_ran (qo_sides (qc_state (qo_rounds False 0 (qo_start False qo_page)))) = [side_path f, side_path p]"
proof -
  let ?c = "qo_start False qo_page"
  have "presses qo_act [(False, QoStart)] qo_page = Some ?c"
    by (simp add: qo_act_def qo_page_def qo_paint_def qo_fresh_def)
  moreover have q: "qc_state ?c = (qo_fresh 10)\<lparr>qo_started := True\<rparr>"
    by (simp add: start_state Let_def qo_page_def qo_fresh_def qo_take_def qo_schedule_def qo_busy_def side_take_def side_order_def)
  then have "qo_started (qc_state ?c)" "\<not> qo_paused (qc_state ?c)" "qo_seq (qc_state ?c) = 0" "\<exists>f p. qo_sides (qc_state ?c) = [f, p]"
    by (simp_all add: qo_fresh_def)
  ultimately show ?thesis using queue_order_runs_every_job [OF qo_page_opens, of "[(False, QoStart)]" ?c _ _ False] by metis
qed

end
