(* ===== verification/Guide_Waiting.thy ===== *)
theory Guide_Waiting
  imports Worker_Sim_Live Scene
begin

text \<open>
  \<open>docs/src/components/guides-b/waiting.ts\<close>, with the frame clock of \<open>scene.ts\<close>: the wait calls of a worker on one timeline.
  Each case starts workers (the class \<open>WorkerSim\<close>, theory Worker_Sim) with three jobs and arms calls that block until the model says
  they return. The clock calls \<open>tick\<close> with the time since the last frame; with reduced motion, or while the clock is
  paused, a press runs the model forward (\<open>settle\<close>). The timeline's drawing is not modelled: it is read off the
  segments and calls kept here.
\<close>

section \<open>Data\<close>

datatype WaitKind = Wait | WaitUntilIdle | WaitUntilPaused | WaitUntilStopped | StopAndWait | WaitAndStop | PauseAndWait | WaitAndPause

record WaitCall =
  wc_kind :: WaitKind
  wc_at :: rat
  wc_armed :: bool
  wc_t0 :: rat
  wc_t1 :: "rat option"
  wc_mark :: "rat option"
  wc_phase :: nat
  wc_err :: "SimErr option"

record StatusSeg =
  ss_status :: Status
  ss_from :: rat
  ss_to :: "rat option"

record JobSeg =
  jg_id :: nat
  jg_from :: rat
  jg_to :: "rat option"

record WaitTrack =
  tr_name :: string
  tr_sim :: WorkerSim
  tr_status :: "StatusSeg list"
  tr_jobs :: "JobSeg list"
  tr_calls :: "WaitCall list"
  tr_pauseAt :: "rat option"
  tr_paused :: bool

datatype WaitButton = ResumeButton | StartButton

record WaitCase =
  cs_autoRun :: bool
  cs_tracks :: "(string \<times> (WaitKind \<times> rat) list \<times> rat option) list"
  cs_button :: "WaitButton option"
  cs_code :: "string list"
  cs_hint :: string

text \<open>The code a case shows is kept by its lines.\<close>

datatype CaseKey = PauseCase | StopCase | PauseWaitCase | InitiatedCase

text \<open>A line of the log, and what the scene says of it: the call strip shows the last thing said.\<close>

record LogLine =
  ll_who :: string
  ll_kind :: WaitKind
  ll_at :: rat
  ll_status :: Status
  ll_pending :: int
  ll_processing :: nat

datatype WaitOut = Said string | Returned LogLine

record Waiting =
  wt_key :: CaseKey
  wt_tracks :: "WaitTrack list"
  wt_log :: "WaitOut list"
  wt_reduce :: bool
  wt_clockPaused :: bool

definition WAIT_DUR :: rat where "WAIT_DUR = 2400"

fun WAIT_CASES :: "CaseKey \<Rightarrow> WaitCase" where
  "WAIT_CASES PauseCase =
    \<lparr>cs_autoRun = True, cs_tracks = [(''worker'', [(Wait, 500), (WaitUntilIdle, 500), (WaitUntilPaused, 500)], Some 300)],
     cs_button = Some ResumeButton,
     cs_code = [''worker.Pause()            // job 1 runs, jobs 2 and 3 wait'', ''worker.Wait()             // no job running'',
       ''worker.WaitUntilIdle()    // Idle, nothing pending'', ''worker.WaitUntilPaused()  // Paused''],
     cs_hint = ''// Wait and WaitUntilPaused return when job 1 ends. WaitUntilIdle waits for Resume.''\<rparr>"
| "WAIT_CASES StopCase =
    \<lparr>cs_autoRun = True, cs_tracks = [(''A: StopAndWait()'', [(StopAndWait, 400)], None), (''B: WaitAndStop()'', [(WaitAndStop, 400)], None)],
     cs_button = None,
     cs_code = [''worker.StopAndWait()  // Stop() now, then wait for Stopped'', ''worker.WaitAndStop()  // Wait() for the drain, then Stop()''],
     cs_hint = ''// StopAndWait leaves jobs 2 and 3 pending. WaitAndStop runs all three first.''\<rparr>"
| "WAIT_CASES PauseWaitCase =
    \<lparr>cs_autoRun = True, cs_tracks = [(''A: PauseAndWait()'', [(PauseAndWait, 400)], None), (''B: WaitAndPause()'', [(WaitAndPause, 400)], None)],
     cs_button = None,
     cs_code = [''worker.PauseAndWait()  // Pause() now, then wait for Paused'', ''worker.WaitAndPause()  // Wait() for the drain, then Pause()''],
     cs_hint = ''// PauseAndWait returns at Paused with 2 pending. WaitAndPause lets all three run.''\<rparr>"
| "WAIT_CASES InitiatedCase =
    \<lparr>cs_autoRun = False, cs_tracks = [(''worker'', [(Wait, 400), (WaitUntilIdle, 400)], None)],
     cs_button = Some StartButton,
     cs_code = [''worker := varmq.NewWorker(process, varmq.WithAutoRun(false))'', ''queue := worker.BindQueue()'',
       ''worker.Wait()          // Initiated: returns at once'', ''worker.WaitUntilIdle() // waits for Start and a drain''],
     cs_hint = ''// Wait returns at once with three jobs queued. WaitUntilIdle waits for Start().''\<rparr>"

section \<open>Tracks\<close>

text \<open>\<open>onEvent\<close>: the segments of the timeline. A job is known by its number.\<close>

fun close_seg :: "rat \<Rightarrow> nat \<Rightarrow> JobSeg list \<Rightarrow> JobSeg list" where
  "close_seg t j [] = []"
| "close_seg t j (x # xs) = (if jg_id x = j \<and> jg_to x = None then x\<lparr>jg_to := Some t\<rparr> # xs else x # close_seg t j xs)"

fun record_event :: "rat \<Rightarrow> SimEvent \<Rightarrow> WaitTrack \<Rightarrow> WaitTrack" where
  "record_event t (EStatus from to) tr =
    tr\<lparr>tr_status := butlast (tr_status tr) @ map (\<lambda>x. x\<lparr>ss_to := Some t\<rparr>) (drop (length (tr_status tr) - 1) (tr_status tr))
      @ [\<lparr>ss_status = to, ss_from = t, ss_to = None\<rparr>]\<rparr>"
| "record_event t (EStart j) tr = tr\<lparr>tr_jobs := tr_jobs tr @ [\<lparr>jg_id = j, jg_from = t, jg_to = None\<rparr>]\<rparr>"
| "record_event t (EEnd j) tr = tr\<lparr>tr_jobs := close_seg t j (tr_jobs tr)\<rparr>"
| "record_event t _ tr = tr"

text \<open>A call on a track's worker. What it emits is recorded at the worker's time, which a call moves at most once, at its start.\<close>

definition on_sim :: "(WorkerSim \<Rightarrow> WorkerSim) \<Rightarrow> WaitTrack \<Rightarrow> WaitTrack" where
  "on_sim f tr =
    (let s = tr_sim tr; s' = f s in
     fold (record_event (now s')) (drop (length (log s)) (log s')) (tr\<lparr>tr_sim := s'\<rparr>))"

fun new_track :: "bool \<Rightarrow> string \<times> (WaitKind \<times> rat) list \<times> rat option \<Rightarrow> WaitTrack" where
  "new_track autoRun (name, calls, pauseAt) =
    (let sim = WorkerSim_new (Some 1) autoRun;
         add = on_sim (\<lambda>s. fst (ws_add \<lparr>o_dur = Some WAIT_DUR, o_fail = None, o_watch = False\<rparr> s)) in
     add (add (add
       \<lparr>tr_name = name, tr_sim = sim, tr_status = [\<lparr>ss_status = status sim, ss_from = 0, ss_to = None\<rparr>], tr_jobs = [],
        tr_calls = map (\<lambda>(kind, t). \<lparr>wc_kind = kind, wc_at = t, wc_armed = False, wc_t0 = t, wc_t1 = None, wc_mark = None,
          wc_phase = 1, wc_err = None\<rparr>) calls,
        tr_pauseAt = pauseAt, tr_paused = False\<rparr>)))"

text \<open>\<open>arm\<close>: \<open>StopAndWait\<close> and \<open>PauseAndWait\<close> make their call now.\<close>

definition arm :: "WaitTrack \<Rightarrow> WaitCall \<Rightarrow> WaitTrack \<times> WaitCall" where
  "arm tr c =
    (let s = tr_sim tr; c1 = c\<lparr>wc_armed := True, wc_t0 := now s, wc_phase := 1\<rparr> in
     case wc_kind c of
       StopAndWait \<Rightarrow> (on_sim (\<lambda>s. fst (ws_stop s)) tr, c1\<lparr>wc_err := snd (ws_stop s), wc_mark := Some (now (fst (ws_stop s)))\<rparr>)
     | PauseAndWait \<Rightarrow> (on_sim (\<lambda>s. fst (ws_pause s)) tr, c1\<lparr>wc_err := snd (ws_pause s), wc_mark := Some (now (fst (ws_pause s)))\<rparr>)
     | _ \<Rightarrow> (tr, c1))"

text \<open>\<open>done\<close>: whether the call returns, and what \<open>WaitAndStop\<close> and \<open>WaitAndPause\<close> then do.\<close>

definition call_done :: "WaitTrack \<Rightarrow> WaitCall \<Rightarrow> bool \<times> WaitTrack \<times> WaitCall" where
  "call_done tr c =
    (let s = tr_sim tr in
     case wc_kind c of
       Wait \<Rightarrow> (waitDone s, tr, c)
     | WaitUntilIdle \<Rightarrow> (waitUntilIdleDone s, tr, c)
     | WaitUntilPaused \<Rightarrow> (waitUntilPausedDone s, tr, c)
     | WaitUntilStopped \<Rightarrow> (waitUntilStoppedDone s, tr, c)
     | StopAndWait \<Rightarrow> (wc_err c \<noteq> None \<or> waitUntilStoppedDone s, tr, c)
     | PauseAndWait \<Rightarrow> (wc_err c \<noteq> None \<or> waitUntilPausedDone s, tr, c)
     | WaitAndStop \<Rightarrow>
         (if waitDone s then (True, on_sim (\<lambda>s. fst (ws_stop s)) tr, c\<lparr>wc_mark := Some (now s), wc_err := snd (ws_stop s)\<rparr>) else (False, tr, c))
     | WaitAndPause \<Rightarrow>
         (if waitDone s then (True, on_sim (\<lambda>s. fst (ws_pause s)) tr, c\<lparr>wc_mark := Some (now s), wc_err := snd (ws_pause s)\<rparr>) else (False, tr, c)))"

definition log_line :: "bool \<Rightarrow> WaitTrack \<Rightarrow> WaitCall \<Rightarrow> LogLine" where
  "log_line multi tr c =
    \<lparr>ll_who = (if multi then takeWhile (\<lambda>x. x \<noteq> CHR '':'') (tr_name tr) @ '' '' @ [CHR 0xC2, CHR 0xB7] @ '' '' else ''''),
     ll_kind = wc_kind c, ll_at = (case wc_t1 c of Some t \<Rightarrow> t | None \<Rightarrow> 0), ll_status = status (tr_sim tr),
     ll_pending = numPending (tr_sim tr), ll_processing = numProcessing (tr_sim tr)\<rparr>"

text \<open>The loop of \<open>stepOnce\<close> over a track's calls.\<close>

definition try_arm :: "WaitTrack \<Rightarrow> WaitCall \<Rightarrow> WaitTrack \<times> WaitCall" where
  "try_arm tr c = (if \<not> wc_armed c \<and> wc_at c \<le> now (tr_sim tr) then arm tr c else (tr, c))"

definition try_return :: "bool \<Rightarrow> WaitTrack \<Rightarrow> WaitCall \<Rightarrow> WaitTrack \<times> WaitCall \<times> WaitOut list" where
  "try_return multi tr c =
    (if wc_armed c \<and> wc_t1 c = None
     then (case call_done tr c of
             (True, tr', c') \<Rightarrow> (let c'' = c'\<lparr>wc_t1 := Some (now (tr_sim tr'))\<rparr> in (tr', c'', [Returned (log_line multi tr' c'')]))
           | (False, tr', c') \<Rightarrow> (tr', c', []))
     else (tr, c, []))"

fun step_calls :: "bool \<Rightarrow> WaitTrack \<Rightarrow> WaitCall list \<Rightarrow> WaitTrack \<times> WaitCall list \<times> WaitOut list" where
  "step_calls multi tr [] = (tr, [], [])"
| "step_calls multi tr (c # cs) =
    (let (tr1, c1) = try_arm tr c; (tr2, c2, out) = try_return multi tr1 c1; (tr3, cs', out') = step_calls multi tr2 cs in
     (tr3, c2 # cs', out @ out'))"

definition pause_due :: "WaitTrack \<Rightarrow> bool" where
  "pause_due tr \<longleftrightarrow> \<not> tr_paused tr \<and> (case tr_pauseAt tr of None \<Rightarrow> False | Some t \<Rightarrow> t \<le> now (tr_sim tr))"

definition track_step :: "bool \<Rightarrow> rat \<Rightarrow> WaitTrack \<Rightarrow> WaitTrack \<times> WaitOut list" where
  "track_step multi dt tr =
    (let tr1 = on_sim (ws_advance dt) tr;
         (tr2, said) = (if pause_due tr1
           then (on_sim (\<lambda>s. fst (ws_pause s)) (tr1\<lparr>tr_paused := True\<rparr>), [Said ''worker.Pause() // nil: Pausing while job 1 runs'']) else (tr1, []));
         (tr3, cs, out) = step_calls multi tr2 (tr_calls tr2) in
     (tr3\<lparr>tr_calls := cs\<rparr>, said @ out))"

section \<open>The page\<close>

definition wt_build :: "CaseKey \<Rightarrow> Waiting \<Rightarrow> Waiting" where
  "wt_build k w =
    (let c = WAIT_CASES k in
     w\<lparr>wt_key := k, wt_tracks := map (new_track (cs_autoRun c)) (cs_tracks c), wt_log := [Said (cs_hint c)]\<rparr>)"

definition stepOnce :: "rat \<Rightarrow> Waiting \<Rightarrow> Waiting" where
  "stepOnce dt w =
    (let multi = 1 < length (wt_tracks w); steps = map (track_step multi dt) (wt_tracks w) in
     w\<lparr>wt_tracks := map fst steps, wt_log := wt_log w @ concat (map snd steps)\<rparr>)"

definition canProgress :: "WaitTrack \<Rightarrow> bool" where
  "canProgress tr \<longleftrightarrow> (let s = tr_sim tr in 0 < busy s \<or> (isActive s \<and> queue s \<noteq> []) \<or> status s = Pausing \<or> status s = Stopping)"

definition still_open :: "Waiting \<Rightarrow> bool" where
  "still_open w \<longleftrightarrow> (\<exists>tr \<in> set (wt_tracks w). \<exists>c \<in> set (tr_calls tr). \<not> wc_armed c)"

fun settle_loop :: "nat \<Rightarrow> Waiting \<Rightarrow> Waiting" where
  "settle_loop 0 w = w"
| "settle_loop (Suc n) w =
    (let w' = stepOnce STEP w in
     if \<not> still_open w' \<and> \<not> (\<exists>tr \<in> set (wt_tracks w'). canProgress tr) then w' else settle_loop n w')"

definition wt_settle :: "Waiting \<Rightarrow> Waiting" where
  "wt_settle w = settle_loop 1200 w"

text \<open>The clock's callback: the frame's time in steps of at most 40 ms.\<close>

function wt_tick :: "rat \<Rightarrow> Waiting \<Rightarrow> Waiting" where
  "wt_tick left w = (if 0 < left then wt_tick (left - STEP) (stepOnce (min STEP left) w) else w)"
  by auto
termination
proof (relation "measure (\<lambda>(left, w). nat \<lceil>left / STEP\<rceil>)", goal_cases)
  case (2 left w)
  have "(left - STEP) / STEP = left / STEP - 1" by (simp add: STEP_def field_simps)
  moreover have "0 < left / STEP" using 2 by (simp add: STEP_def)
  ultimately show ?case by (simp add: zero_less_ceiling)
qed simp

declare wt_tick.simps [simp del]

definition wt_load :: "CaseKey \<Rightarrow> Waiting \<Rightarrow> Waiting" where
  "wt_load k w = (let w1 = wt_build k w in if wt_reduce w1 \<or> wt_clockPaused w1 then wt_settle w1 else w1)"

datatype WaitEvent = CaseTab CaseKey | ResumePress | StartPress | ReplayPress | Frame rat | ClockPause | ClockStep

definition first_status :: "Waiting \<Rightarrow> Status option" where
  "first_status w = (case wt_tracks w of [] \<Rightarrow> None | tr # _ \<Rightarrow> Some (status (tr_sim tr)))"

text \<open>The buttons' guards: hidden when the case has another button, disabled by the first worker's status.\<close>

definition resume_on :: "Waiting \<Rightarrow> bool" where
  "resume_on w \<longleftrightarrow> cs_button (WAIT_CASES (wt_key w)) = Some ResumeButton \<and> first_status w \<in> {Some Paused, Some Pausing}"

definition start_on :: "Waiting \<Rightarrow> bool" where
  "start_on w \<longleftrightarrow> cs_button (WAIT_CASES (wt_key w)) = Some StartButton \<and> first_status w = Some Initiated"

definition on_first :: "(WorkerSim \<Rightarrow> WorkerSim \<times> SimErr option) \<Rightarrow> string \<Rightarrow> string \<Rightarrow> Waiting \<Rightarrow> Waiting" where
  "on_first f called what w =
    (case wt_tracks w of
       [] \<Rightarrow> w
     | tr # trs \<Rightarrow> w\<lparr>wt_tracks := on_sim (\<lambda>s. fst (f s)) tr # trs,
         wt_log := wt_log w @ [Said (called @ '' // '' @ err_text (snd (f (tr_sim tr))) @ what)]\<rparr>)"

definition after_press :: "Waiting \<Rightarrow> Waiting" where
  "after_press w = (if wt_clockPaused w then wt_settle w else w)"

text \<open>The frame clock of \<open>scene.ts\<close> at speed 1: a frame ticks at most 100 ms, the step button (shown while paused) one second.\<close>

definition clock_frame :: "rat \<Rightarrow> Waiting \<Rightarrow> Waiting" where
  "clock_frame dt w = (if wt_clockPaused w then w else wt_tick (min dt 100) w)"

definition clock_pause :: "Waiting \<Rightarrow> Waiting" where
  "clock_pause w = w\<lparr>wt_clockPaused := \<not> wt_clockPaused w\<rparr>"

definition clock_step :: "Waiting \<Rightarrow> Waiting" where
  "clock_step w = wt_tick 1000 w"

text \<open>The clock's two buttons are inside the page's root, so the root's click handler runs after the clock's own.\<close>

fun wt_event :: "WaitEvent \<Rightarrow> Waiting \<Rightarrow> Waiting" where
  "wt_event (CaseTab k) w = wt_load k w"
| "wt_event ResumePress w =
    (if resume_on w then after_press (on_first ws_resume ''worker.Resume()'' '': jobs 2 and 3 run, WaitUntilIdle can return'' w) else w)"
| "wt_event StartPress w = (if start_on w then after_press (on_first ws_start ''worker.Start()'' '': the three jobs run'' w) else w)"
| "wt_event ReplayPress w =
    (let w1 = wt_load (wt_key w) w in after_press (w1\<lparr>wt_log := wt_log w1 @ [Said (cs_hint (WAIT_CASES (wt_key w)))]\<rparr>))"
| "wt_event (Frame dt) w = clock_frame dt w"
| "wt_event ClockPause w = after_press (clock_pause w)"
| "wt_event ClockStep w = (if wt_clockPaused w then after_press (clock_step w) else w)"

definition wt_init :: "bool \<Rightarrow> Waiting" where
  "wt_init reduce = wt_load PauseCase \<lparr>wt_key = PauseCase, wt_tracks = [], wt_log = [], wt_reduce = reduce, wt_clockPaused = reduce\<rparr>"

end
