(* ===== verification/Guide_Waiting_Props.thy ===== *)
theory Guide_Waiting_Props
  imports Guide_Waiting
begin

text \<open>
  What the waiting scene promises. Its workers stay in states that \<open>WorkerSim\<close> can reach, so that what is proved of those holds on
  every track; a call returns only in a state that keeps the call's promise; and after a press with the clock paused the page
  is at rest: the loop of \<open>settle\<close> ends by its own test, long before its bound of 1200 rounds.
\<close>

section \<open>A step of the clock, whatever its length\<close>

text \<open>The settings a scene makes once: the worker's own operations leave them alone.\<close>

definition same_setup :: "WorkerSim \<Rightarrow> WorkerSim \<Rightarrow> bool" where
  "same_setup s t \<longleftrightarrow> limit t = limit s \<and> expiry t = expiry s \<and> userCtx t = userCtx s \<and> restartPending t = restartPending s"

lemma same_setup_refl [simp]: "same_setup s s"
  by (simp add: same_setup_def)

lemma same_setup_trans: "same_setup s t \<Longrightarrow> same_setup t u \<Longrightarrow> same_setup s u"
  by (simp add: same_setup_def)

lemma after_ticks_setup:
  assumes "ws_good s"
  shows "same_setup s (after_ticks dt s)" "ctx (after_ticks dt s) = ctx s" "now (after_ticks dt s) = now s + dt"
    "ctx s = None \<or> status s \<in> {Initiated, Stopping, Stopped} \<Longrightarrow> st_step s (after_ticks dt s)"
proof -
  note i = ws_goodD [OF assms]
  define s1 where "s1 = notice_done (s\<lparr>now := now s + dt\<rparr>)"
  have st0: "st_inv (s\<lparr>now := now s + dt\<rparr>)" using i(2) by (simp add: st_inv_def)
  have 1: "ws_inv None [] 0 s1" "st_inv s1"
    using i(1) st0 st_stopping unfolding s1_def notice_done_def by simp_all
  have f: "limit s1 = limit s" "expiry s1 = expiry s" "userCtx s1 = userCtx s" "restartPending s1 = restartPending s" "ctx s1 = ctx s" "now s1 = now s + dt"
    by (simp_all add: s1_def notice_done_def setStatus_eq)
  have d: "distinct (gors s1)" using 1(1) by (simp add: ws_inv_unfold)
  have t: "after_ticks dt s = fold (tick_gor dt) (gors s1) s1" by (simp add: after_ticks_def s1_def Let_def)
  note ft = fold_tick [OF 1 d subset_refl, of dt, folded t]
  show "same_setup s (after_ticks dt s)" "ctx (after_ticks dt s) = ctx s" "now (after_ticks dt s) = now s + dt"
    using ft f by (simp_all add: same_cfg_def same_setup_def)
  have "st_step s1 (fold (tick_gor dt) gs s1)" for gs
    by (induction gs rule: rev_induct) (use st_step_tick st_step_trans in \<open>force simp: st_step_def\<close>)+
  moreover have "status s1 = status s" if "ctx s = None \<or> status s \<in> {Initiated, Stopping, Stopped}"
    using that by (auto simp: s1_def notice_done_def isActive_def setStatus_eq)
  ultimately show "st_step s (after_ticks dt s)" if "ctx s = None \<or> status s \<in> {Initiated, Stopping, Stopped}"
    using that st_step_cong t by metis
qed

lemma finish_stop_stopped:
  assumes "ws_inv None [] 0 s" "status s = Stopping" "curProcessing s = 0" "\<not> restartPending s"
  shows "status (finish_stop s) = Stopped" "same_setup s (finish_stop s)" "ctx (finish_stop s) = ctx s" "now (finish_stop s) = now s"
proof -
  let ?s1 = "fold exit_gor (pool s) s"
  have d: "distinct (pool s)" using assms(1) by (simp add: ws_inv_unfold)
  have f: "only_exits s ?s1" using fold_exit [OF assms(1) d subset_refl] by blast
  have e: "finish_stop s = setStatus Stopped (?s1\<lparr>pool := []\<rparr>)"
    using assms(2-4) f by (simp add: finish_stop_def Let_def setStatus_eq only_exits_def)
  show "status (finish_stop s) = Stopped" "same_setup s (finish_stop s)" "ctx (finish_stop s) = ctx s" "now (finish_stop s) = now s"
    unfolding e using f by (simp_all add: setStatus_eq only_exits_def same_setup_def)
qed

definition status_moves :: "Status \<Rightarrow> Status set" where
  "status_moves st = (case st of
     Initiated \<Rightarrow> {Initiated} | Idle \<Rightarrow> {Idle, Running} | Running \<Rightarrow> {Idle, Running} | Pausing \<Rightarrow> {Pausing, Paused} | Paused \<Rightarrow> {Paused}
   | Stopping \<Rightarrow> {Stopping, Stopped} | Stopped \<Rightarrow> {Stopped})"

lemma step_status:
  assumes "ws_good s" "0 < dt" "expiry s = 0" "\<not> restartPending s" "ctx s = None \<or> status s \<in> {Stopping, Stopped}"
  shows "same_setup s (ws_step dt s)" "ctx (ws_step dt s) = ctx s" "now (ws_step dt s) = now s + dt"
    "status (ws_step dt s) \<in> status_moves (status s)" "status s = Stopping \<Longrightarrow> busy s = 0 \<Longrightarrow> status (ws_step dt s) = Stopped"
proof -
  let ?t = "after_ticks dt s" and ?u = "finish_stop (after_ticks dt s)"
  note a = after_ticks_facts [OF assms(1,2)]
  note b = after_ticks_setup [OF assms(1), of dt]
  have st: "st_step s ?t" using b(4) assms(5) by auto
  have fu: "ws_inv None [] 0 ?u" "st_inv ?u" using finish_stop_inv [OF a(1,2)] by blast+
  have u: "same_setup s ?u" "ctx ?u = ctx s" "now ?u = now s + dt"
    and ust: "status ?u = (if status ?t = Stopping \<and> curProcessing ?t = 0 then Stopped else status ?t)"
    using finish_stop_stopped [of ?t] finish_stop_skip [of ?t] a(1) b(1-3) assms(4)
    by (cases "status ?t = Stopping \<and> curProcessing ?t = 0"; auto simp: same_setup_def)+
  have "expiry ?u = 0" using u(1) assms(3) by (simp add: same_setup_def)
  then have step: "ws_step dt s = ws_dispatch ?u" unfolding step_parts by (simp add: after_expiry_def)
  note d = dispatch_inv [OF fu]
  note sd = status_dispatch [OF fu]
  show "same_setup s (ws_step dt s)" "ctx (ws_step dt s) = ctx s" "now (ws_step dt s) = now s + dt"
    unfolding step using u d by (simp_all add: same_setup_def)
  have moved: "status ?u \<in> status_moves (status s)"
    using ust st by (cases "status s") (auto simp: st_step_def status_moves_def)
  show "status (ws_step dt s) \<in> status_moves (status s)"
    unfolding step using sd moved by (cases "status s") (auto simp: isActive_def status_moves_def split: if_splits)
  show "status (ws_step dt s) = Stopped" if "status s = Stopping" "busy s = 0"
  proof -
    have "status ?t = Stopping" "curProcessing ?t = 0" using a(9,10) that by simp_all
    then have "status ?u = Stopped" using ust by simp
    then show ?thesis unfolding step using sd by (simp add: isActive_def)
  qed
qed

section \<open>The worker of a track\<close>

text \<open>A worker with limit 1, no expiry and no restart under way, whose open jobs are three of 2.4 s; its context is done only by a stop.\<close>

definition ws_fit :: "WorkerSim \<Rightarrow> bool" where
  "ws_fit s \<longleftrightarrow> ws_reach s \<and> limit s = 1 \<and> expiry s = 0 \<and> userCtx s = None \<and> \<not> restartPending s
     \<and> (ctx s = None \<or> status s \<in> {Stopping, Stopped})
     \<and> open_jobs s \<subseteq> {1, 2, 3} \<and> (\<forall>j \<in> open_jobs s. j_left (jobh s j) \<le> WAIT_DUR)"

lemma fit_good: "ws_fit s \<Longrightarrow> ws_good s"
  by (simp add: ws_fit_def reach_good)

lemma pot_fit:
  assumes "ws_fit s"
  shows "pot s \<le> 180"
proof -
  have fin: "finite (open_jobs s)" using assms by (auto simp: ws_fit_def intro: finite_subset)
  have "job_work (j_left (jobh s j)) \<le> 60" if "j \<in> open_jobs s" for j
  proof -
    have "job_work (j_left (jobh s j)) \<le> job_work WAIT_DUR" using assms that by (intro job_work_mono) (simp add: ws_fit_def)
    then show ?thesis by (simp add: job_work_def WAIT_DUR_def STEP_def)
  qed
  then have "pot s \<le> card (open_jobs s) * 60" unfolding pot_def using sum_bounded_above [of "open_jobs s" "\<lambda>j. job_work (j_left (jobh s j))" 60] by simp
  moreover have "card (open_jobs s) \<le> card {1 :: nat, 2, 3}" using assms by (intro card_mono) (simp_all add: ws_fit_def)
  ultimately show ?thesis by simp
qed

lemma fit_calms:
  assumes "ws_fit s" "ws_reach t" "same_setup s t" "calms s t" "ctx t = None \<or> status t \<in> {Stopping, Stopped}"
  shows "ws_fit t"
proof -
  have "open_jobs t \<subseteq> {1, 2, 3}" "j_left (jobh t j) \<le> WAIT_DUR" if "j \<in> open_jobs t" for j
    using assms(1,4) that unfolding ws_fit_def calms_def by (blast, meson order_trans subsetD)
  with assms show ?thesis unfolding ws_fit_def same_setup_def calms_def by (metis empty_subsetI subsetI)
qed

lemma fit_advance:
  assumes "ws_fit s" "0 < dt" "dt \<le> STEP"
  shows "ws_fit (ws_advance dt s)" "now (ws_advance dt s) = now s + dt" "status (ws_advance dt s) \<in> status_moves (status s)"
    "status s = Stopping \<Longrightarrow> busy s = 0 \<Longrightarrow> status (ws_advance dt s) = Stopped" "pot (ws_advance dt s) \<le> pot s"
    "dt = STEP \<Longrightarrow> 0 < busy s \<Longrightarrow> pot (ws_advance dt s) < pot s"
proof -
  have g: "ws_good s" by (rule fit_good [OF assms(1)])
  have s: "expiry s = 0" "\<not> restartPending s" "ctx s = None \<or> status s \<in> {Stopping, Stopped}" using assms(1) by (simp_all add: ws_fit_def)
  note st = step_status [OF g assms(2) s]
  note e = advance_one [OF assms(2,3), of s]
  have "ctx (ws_step dt s) = None \<or> status (ws_step dt s) \<in> {Stopping, Stopped}"
    using s(3) st(2,4) by (auto simp: status_moves_def)
  moreover have "ws_reach (ws_advance dt s)" using assms(1) ws_reach_call [of s "CAdvance dt"] by (simp add: ws_fit_def)
  ultimately show "ws_fit (ws_advance dt s)" using fit_calms [OF assms(1)] st(1) step_calms(1) [OF g assms(2)] e by simp
  show "now (ws_advance dt s) = now s + dt" "status (ws_advance dt s) \<in> status_moves (status s)"
    "status s = Stopping \<Longrightarrow> busy s = 0 \<Longrightarrow> status (ws_advance dt s) = Stopped" using st(3-5) e by simp_all
  show "pot (ws_advance dt s) \<le> pot s" using pot_calms [OF step_calms(1) [OF g assms(2)]] e by simp
  show "pot (ws_advance dt s) < pot s" if "dt = STEP" "0 < busy s" using step_calms(2) [OF g assms(2) that] e by simp
qed

lemma stop_fields [simp]:
  "jobh (fst (ws_stop s)) = jobh s" "nextJob (fst (ws_stop s)) = nextJob s" "now (fst (ws_stop s)) = now s" "same_setup s (fst (ws_stop s))"
  by (simp_all add: ws_stop_def setStatus_eq same_setup_def)

lemma pause_fields [simp]:
  "jobh (fst (ws_pause s)) = jobh s" "nextJob (fst (ws_pause s)) = nextJob s" "now (fst (ws_pause s)) = now s" "same_setup s (fst (ws_pause s))"
  "ctx (fst (ws_pause s)) = ctx s"
  by (simp_all add: ws_pause_def Let_def setStatus_eq same_setup_def)

lemma pot_frame: "jobh t = jobh s \<Longrightarrow> nextJob t = nextJob s \<Longrightarrow> pot t = pot s"
  by (simp add: pot_def open_jobs_def)

lemma fit_stop:
  assumes "ws_fit s"
  shows "ws_fit (fst (ws_stop s))" "snd (ws_stop s) = None \<Longrightarrow> status (fst (ws_stop s)) \<in> {Stopping, Stopped}"
    "status (fst (ws_stop s)) = Stopping \<or> fst (ws_stop s) = s" "pot (fst (ws_stop s)) = pot s"
proof -
  have "ctx (fst (ws_stop s)) = None \<or> status (fst (ws_stop s)) \<in> {Stopping, Stopped}"
    using assms by (auto simp: ws_stop_def setStatus_eq ws_fit_def)
  then show "ws_fit (fst (ws_stop s))"
    using assms ws_reach_call [of s CStop] by (intro fit_calms [OF assms]) (simp_all add: ws_fit_def calms_jobh)
  show "snd (ws_stop s) = None \<Longrightarrow> status (fst (ws_stop s)) \<in> {Stopping, Stopped}" "status (fst (ws_stop s)) = Stopping \<or> fst (ws_stop s) = s"
    by (auto simp: ws_stop_def setStatus_eq split: if_splits)
  show "pot (fst (ws_stop s)) = pot s" by (rule pot_frame) simp_all
qed

lemma fit_pause:
  assumes "ws_fit s"
  shows "ws_fit (fst (ws_pause s))" "snd (ws_pause s) = None \<Longrightarrow> status (fst (ws_pause s)) \<in> {Pausing, Paused}"
    "status (fst (ws_pause s)) = Stopping \<Longrightarrow> fst (ws_pause s) = s" "status (fst (ws_pause s)) \<in> {Pausing, Paused} \<or> fst (ws_pause s) = s"
    "pot (fst (ws_pause s)) = pot s"
proof -
  have "ctx (fst (ws_pause s)) = None \<or> status (fst (ws_pause s)) \<in> {Stopping, Stopped}"
    using assms by (auto simp: ws_pause_def Let_def setStatus_eq ws_fit_def)
  then show "ws_fit (fst (ws_pause s))"
    using assms ws_reach_call [of s CPause] by (intro fit_calms [OF assms]) (simp_all add: ws_fit_def calms_jobh)
  show "snd (ws_pause s) = None \<Longrightarrow> status (fst (ws_pause s)) \<in> {Pausing, Paused}"
    "status (fst (ws_pause s)) = Stopping \<Longrightarrow> fst (ws_pause s) = s" "status (fst (ws_pause s)) \<in> {Pausing, Paused} \<or> fst (ws_pause s) = s"
    by (auto simp: ws_pause_def Let_def setStatus_eq split: if_splits)
  show "pot (fst (ws_pause s)) = pot s" by (rule pot_frame) simp_all
qed

lemma fit_resume:
  assumes "ws_fit s"
  shows "ws_fit (fst (ws_resume s))" "now (fst (ws_resume s)) = now s"
proof -
  note i = ws_goodD [OF fit_good [OF assms]]
  have all: "same_setup s (fst (ws_resume s)) \<and> ctx (fst (ws_resume s)) = ctx s \<and> calms s (fst (ws_resume s)) \<and> now (fst (ws_resume s)) = now s
    \<and> (fst (ws_resume s) = s \<or> status s = Paused)"
  proof (cases "status s = Paused")
    case True
    have v: "ws_inv None [] 0 (setStatus Idle s)" using i(1) by simp
    have vs: "st_inv (setStatus Idle s)" using True i(2) by (auto simp: st_inv_def setStatus_eq)
    have "fst (ws_resume s) = ws_dispatch (setStatus Idle s)" using True by (simp add: ws_resume_def)
    moreover have "calms s (setStatus Idle s)" by (rule calms_jobh) (simp_all add: setStatus_eq)
    ultimately show ?thesis using True dispatch_inv [OF v vs] calms_dispatch [OF v] calms_trans by (auto simp: same_setup_def setStatus_eq)
  qed (simp add: ws_resume_def)
  then have "ctx (fst (ws_resume s)) = None \<or> status (fst (ws_resume s)) \<in> {Stopping, Stopped}" using assms by (auto simp: ws_fit_def)
  with all show "ws_fit (fst (ws_resume s))"
    using assms ws_reach_call [of s CResume] by (intro fit_calms [OF assms]) (simp_all add: ws_fit_def)
  show "now (fst (ws_resume s)) = now s" using all by simp
qed

lemma fit_start:
  assumes "ws_fit s" "status s = Initiated"
  shows "ws_fit (fst (ws_start s))" "now (fst (ws_start s)) = now s"
proof -
  note i = ws_goodD [OF fit_good [OF assms(1)]]
  obtain g s2 where sp: "spawn (s\<lparr>ctx := userCtx s\<rparr>) = (g, s2)" by (metis prod.exhaust)
  have "ws_inv None [] 0 (s\<lparr>ctx := userCtx s\<rparr>)" using i(1) by simp
  note t = spawn_transit [OF this sp]
  let ?v = "setStatus Idle (s2\<lparr>pool := pool s2 @ [g]\<rparr>)"
  have v: "ws_inv None [] 0 ?v" using join_pool [OF t(1-4)] by simp
  have vs: "st_inv ?v" using i(2) assms(2) t by (auto simp: st_inv_def setStatus_eq)
  have e: "fst (ws_start s) = ws_dispatch ?v" using assms(2) sp by (simp add: ws_start_def isActive_def Let_def)
  have n: "now s2 = now s" using sp by (auto simp: spawn_def Let_def emit_def)
  have "same_setup s (fst (ws_start s))" "ctx (fst (ws_start s)) = None" "now (fst (ws_start s)) = now s"
    using dispatch_inv [OF v vs] t assms(1) n by (simp_all add: e same_setup_def setStatus_eq ws_fit_def)
  moreover have "ws_reach (fst (ws_start s))" using assms(1) ws_reach_call [of s CStart] by (simp add: ws_fit_def)
  ultimately show "ws_fit (fst (ws_start s))" "now (fst (ws_start s)) = now s"
    using fit_calms [OF assms(1)] calms_start [OF i(1)] by simp_all
qed

definition built :: "bool \<Rightarrow> WorkerSim" where
  "built auto = (let add = (\<lambda>s. fst (ws_add \<lparr>o_dur = Some WAIT_DUR, o_fail = None, o_watch = False\<rparr> s)) in add (add (add (WorkerSim_new (Some 1) auto))))"

lemma fit_add:
  assumes "ws_reach s" "limit s = 1" "expiry s = 0" "userCtx s = None" "\<not> restartPending s" "ctx s = None"
    "open_jobs s \<subseteq> J" "\<forall>j \<in> open_jobs s. j_left (jobh s j) \<le> WAIT_DUR"
  defines "t \<equiv> fst (ws_add \<lparr>o_dur = Some WAIT_DUR, o_fail = None, o_watch = False\<rparr> s)"
  shows "ws_reach t" "limit t = 1" "expiry t = 0" "userCtx t = None" "\<not> restartPending t" "ctx t = None"
    "open_jobs t \<subseteq> insert (nextJob s) J" "\<forall>j \<in> open_jobs t. j_left (jobh t j) \<le> WAIT_DUR" "nextJob t = Suc (nextJob s)"
    "now t = now s" "status s = Initiated \<Longrightarrow> status t = Initiated"
proof -
  let ?o = "\<lparr>o_dur = Some WAIT_DUR, o_fail = None, o_watch = False\<rparr>"
  let ?job = "\<lparr>j_id = nextJob s, j_dur = WAIT_DUR, j_left = WAIT_DUR, j_state = JQueued, j_at = InQueue, j_fail = None, j_watch = False,
    j_early = False, j_stale = False, j_slot = None, j_added = now s, j_started = None, j_ended = None\<rparr>"
  let ?u = "emit (EAdd (nextJob s)) (s\<lparr>nextJob := nextJob s + 1, jobh := (jobh s)(nextJob s := ?job), queue := queue s @ [nextJob s],
      metrics := (metrics s)\<lparr>submitted := submitted (metrics s) + 1\<rparr>\<rparr>)"
  have t: "t = ws_dispatch ?u" by (simp add: t_def ws_add_def Let_def)
  note g = ws_goodD [OF reach_good [OF assms(1)]]
  have u: "ws_inv None [] 0 ?u" by (rule new_job_inv [OF g(1) refl]) (simp_all add: emit_def)
  have us: "st_inv ?u" using g(2) by (simp add: st_inv_def emit_def)
  note d = dispatch_inv [OF u us]
  show "ws_reach t" using ws_reach_call [OF assms(1), of "CAdd ?o"] by (simp add: t_def)
  show "limit t = 1" "expiry t = 0" "userCtx t = None" "\<not> restartPending t" "ctx t = None" "nextJob t = Suc (nextJob s)" "now t = now s"
    unfolding t using d assms by (simp_all add: emit_def)
  have ou: "open_jobs ?u \<subseteq> insert (nextJob s) (open_jobs s)" "\<forall>j \<in> open_jobs ?u. j_left (jobh ?u j) \<le> WAIT_DUR"
    using assms(8) by (auto simp: open_jobs_def emit_def less_Suc_eq)
  have c: "calms ?u t" unfolding t by (rule calms_dispatch [OF u])
  then show "open_jobs t \<subseteq> insert (nextJob s) J" using ou(1) assms(7) unfolding calms_def by blast
  show "\<forall>j \<in> open_jobs t. j_left (jobh t j) \<le> WAIT_DUR" using c ou(2) unfolding calms_def by (meson order_trans subsetD)
  show "status t = Initiated" if "status s = Initiated"
    unfolding t using status_dispatch [OF u us] that by (simp add: isActive_def emit_def)
qed

lemma new_setup:
  "ws_reach (WorkerSim_new (Some 1) auto)" "limit (WorkerSim_new (Some 1) auto) = 1" "expiry (WorkerSim_new (Some 1) auto) = 0"
  "userCtx (WorkerSim_new (Some 1) auto) = None" "\<not> restartPending (WorkerSim_new (Some 1) auto)" "ctx (WorkerSim_new (Some 1) auto) = None"
  "open_jobs (WorkerSim_new (Some 1) auto) \<subseteq> {}" "\<forall>j \<in> open_jobs (WorkerSim_new (Some 1) auto). j_left (jobh (WorkerSim_new (Some 1) auto) j) \<le> WAIT_DUR"
  "nextJob (WorkerSim_new (Some 1) auto) = 1" "now (WorkerSim_new (Some 1) auto) = 0"
proof -
  let ?s = "WorkerSim_new (Some 1) auto"
  have idle: "ws_dispatch s = s" if "queue s = []" "parked s = []" for s using that by (subst ws_dispatch.simps) (simp add: ws_ready_def)
  have f: "limit ?s = 1 \<and> expiry ?s = 0 \<and> userCtx ?s = None \<and> \<not> restartPending ?s \<and> ctx ?s = None \<and> nextJob ?s = 1 \<and> now ?s = 0"
    by (cases auto) (simp_all add: WorkerSim_new_def Let_def ws_start_def isActive_def spawn_def emit_def setStatus_eq idle)
  then show "limit ?s = 1" "expiry ?s = 0" "userCtx ?s = None" "\<not> restartPending ?s" "ctx ?s = None" "nextJob ?s = 1" "now ?s = 0" by simp_all
  from f have "open_jobs ?s = {}" by (auto simp: open_jobs_def)
  then show "open_jobs ?s \<subseteq> {}" "\<forall>j \<in> open_jobs ?s. j_left (jobh ?s j) \<le> WAIT_DUR" by simp_all
qed (rule ws_reach_new)

lemma built_fit: "ws_fit (built auto)" "now (built auto) = 0"
proof -
  note a1 = fit_add [OF new_setup(1-8), of auto, unfolded new_setup]
  note a2 = fit_add [OF a1(1-8), unfolded a1]
  note a3 = fit_add [OF a2(1-8), unfolded a2]
  show "ws_fit (built auto)" "now (built auto) = 0"
    using a3 by (auto simp: built_def Let_def ws_fit_def numeral_eq_Suc)
qed


section \<open>One call of a track\<close>

lemma record_frame [simp]:
  "tr_sim (record_event t e tr) = tr_sim tr" "tr_calls (record_event t e tr) = tr_calls tr" "tr_name (record_event t e tr) = tr_name tr"
  "tr_pauseAt (record_event t e tr) = tr_pauseAt tr" "tr_paused (record_event t e tr) = tr_paused tr"
  by (cases e; simp)+

lemma fold_record_frame [simp]:
  "tr_sim (fold (record_event t) es tr) = tr_sim tr" "tr_calls (fold (record_event t) es tr) = tr_calls tr"
  "tr_name (fold (record_event t) es tr) = tr_name tr" "tr_pauseAt (fold (record_event t) es tr) = tr_pauseAt tr"
  "tr_paused (fold (record_event t) es tr) = tr_paused tr"
  by (induction es arbitrary: tr) simp_all

lemma on_sim_fields [simp]:
  "tr_sim (on_sim f tr) = f (tr_sim tr)" "tr_calls (on_sim f tr) = tr_calls tr" "tr_name (on_sim f tr) = tr_name tr"
  "tr_pauseAt (on_sim f tr) = tr_pauseAt tr" "tr_paused (on_sim f tr) = tr_paused tr"
  by (simp_all add: on_sim_def Let_def)

definition acting :: "WaitKind \<Rightarrow> bool" where
  "acting k \<longleftrightarrow> k \<in> {StopAndWait, WaitAndStop, PauseAndWait, WaitAndPause}"

text \<open>The condition a call blocks on.\<close>

definition call_cond :: "WorkerSim \<Rightarrow> WaitCall \<Rightarrow> bool" where
  "call_cond s c = (case wc_kind c of
     Wait \<Rightarrow> waitDone s | WaitUntilIdle \<Rightarrow> waitUntilIdleDone s | WaitUntilPaused \<Rightarrow> waitUntilPausedDone s
   | WaitUntilStopped \<Rightarrow> waitUntilStoppedDone s | StopAndWait \<Rightarrow> wc_err c \<noteq> None \<or> waitUntilStoppedDone s
   | PauseAndWait \<Rightarrow> wc_err c \<noteq> None \<or> waitUntilPausedDone s | WaitAndStop \<Rightarrow> waitDone s | WaitAndPause \<Rightarrow> waitDone s)"

definition call_ok :: "WorkerSim \<Rightarrow> WaitCall \<Rightarrow> bool" where
  "call_ok s c \<longleftrightarrow> wc_at c \<le> 500 \<and> (\<not> wc_armed c \<longrightarrow> wc_t1 c = None \<and> wc_err c = None)
     \<and> (wc_armed c \<longrightarrow> wc_at c \<le> wc_t0 c \<and> wc_t0 c \<le> now s) \<and> (\<forall>t. wc_t1 c = Some t \<longrightarrow> wc_t0 c \<le> t \<and> t \<le> now s)
     \<and> (wc_t1 c = None \<longrightarrow> wc_err c = None)
     \<and> (wc_armed c \<and> wc_t1 c = None \<and> wc_kind c = StopAndWait \<longrightarrow> status s \<in> {Stopping, Stopped})
     \<and> (wc_armed c \<and> wc_t1 c = None \<and> wc_kind c = PauseAndWait \<longrightarrow> status s \<in> {Pausing, Paused})"

definition call_weight :: "WaitCall \<Rightarrow> nat" where
  "call_weight c = (if \<not> wc_armed c then 2 else if wc_t1 c = None then 1 else 0)"

definition stopping_weight :: "WorkerSim \<Rightarrow> nat" where
  "stopping_weight s = (if status s = Stopping then 1 else 0)"

text \<open>What each call promises of the worker at the time it returns. An error of \<open>Stop\<close> or \<open>Pause\<close> is a worker not in a state for it:
  \<open>PauseAndWait\<close> then returns at once, and only a worker that is still stopping has jobs running at that time.\<close>

definition promise :: "LogLine \<Rightarrow> bool" where
  "promise l = (case ll_kind l of
     Wait \<Rightarrow> ll_processing l = 0 \<and> (ll_status l \<in> {Idle, Running} \<longrightarrow> ll_pending l = 0)
   | WaitUntilIdle \<Rightarrow> ll_status l = Idle \<and> ll_pending l = 0 \<and> ll_processing l = 0
   | WaitUntilPaused \<Rightarrow> ll_status l = Paused \<and> ll_processing l = 0
   | WaitUntilStopped \<Rightarrow> ll_status l = Stopped \<and> ll_processing l = 0
   | StopAndWait \<Rightarrow> ll_status l \<in> {Stopped, Initiated} \<and> ll_processing l = 0
   | PauseAndWait \<Rightarrow> ll_status l \<in> {Paused, Initiated, Stopping, Stopped} \<and> (ll_status l \<noteq> Stopping \<longrightarrow> ll_processing l = 0)
   | WaitAndStop \<Rightarrow> ll_status l \<in> {Stopping, Stopped, Initiated} \<and> ll_processing l = 0
   | WaitAndPause \<Rightarrow> ll_status l \<in> {Pausing, Paused, Initiated, Stopping, Stopped} \<and> ll_processing l = 0)"

lemma waitDone_busy: "ws_good s \<Longrightarrow> waitDone s \<Longrightarrow> busy s = 0"
proof -
  assume g: "ws_good s" and w: "waitDone s"
  note i = ws_goodD [OF g]
  have "status s = Initiated \<longrightarrow> curProcessing s = 0" using i(2) by (simp add: st_inv_def)
  with w have "curProcessing s = 0" by (auto simp: waitDone_def split: Status.splits)
  with busy_le_cur [OF i(1)] show "busy s = 0" by simp
qed

lemma resting_busy: "ws_good s \<Longrightarrow> status s \<in> {Initiated, Idle, Paused, Stopped} \<Longrightarrow> busy s = 0"
proof -
  assume g: "ws_good s" and st: "status s \<in> {Initiated, Idle, Paused, Stopped}"
  have "curProcessing s = 0" using ws_goodD(2) [OF g] st unfolding st_inv_def by blast
  with busy_le_cur [OF ws_goodD(1) [OF g]] show "busy s = 0" by simp
qed

lemma stop_busy [simp]: "busy (fst (ws_stop s)) = busy s"
  by (simp add: ws_stop_def setStatus_eq busy_def)

lemma pause_busy [simp]: "busy (fst (ws_pause s)) = busy s"
  by (simp add: ws_pause_def Let_def setStatus_eq busy_def)

lemma stop_error: "snd (ws_stop s) \<noteq> None \<Longrightarrow> fst (ws_stop s) = s \<and> status s = Initiated"
  by (auto simp: ws_stop_def split: if_splits)

lemma pause_error: "snd (ws_pause s) \<noteq> None \<Longrightarrow> fst (ws_pause s) = s \<and> status s \<in> {Initiated, Stopping, Stopped}"
  by (cases "status s") (simp_all add: ws_pause_def Let_def)

text \<open>Between arming and the check, an error may stand: the check returns such a call at once.\<close>

definition call_mid :: "WorkerSim \<Rightarrow> WaitCall \<Rightarrow> bool" where
  "call_mid s c \<longleftrightarrow> wc_at c \<le> 500 \<and> (\<not> wc_armed c \<longrightarrow> wc_t1 c = None \<and> wc_err c = None)
     \<and> (wc_armed c \<longrightarrow> wc_at c \<le> wc_t0 c \<and> wc_t0 c \<le> now s) \<and> (\<forall>t. wc_t1 c = Some t \<longrightarrow> wc_t0 c \<le> t \<and> t \<le> now s)
     \<and> (wc_t1 c = None \<and> wc_err c \<noteq> None \<longrightarrow> wc_kind c \<in> {StopAndWait, PauseAndWait})
     \<and> (wc_armed c \<and> wc_t1 c = None \<and> wc_kind c = StopAndWait
        \<longrightarrow> (if wc_err c = None then status s \<in> {Stopping, Stopped} else status s = Initiated))
     \<and> (wc_armed c \<and> wc_t1 c = None \<and> wc_kind c = PauseAndWait
        \<longrightarrow> (if wc_err c = None then status s \<in> {Pausing, Paused} else status s \<in> {Initiated, Stopping, Stopped}))"

definition call_move :: "WorkerSim \<Rightarrow> WaitCall \<Rightarrow> WorkerSim \<Rightarrow> WaitCall \<Rightarrow> bool" where
  "call_move s c s' c' \<longleftrightarrow> ws_fit s' \<and> now s' = now s \<and> pot s' = pot s \<and> wc_kind c' = wc_kind c \<and> wc_at c' = wc_at c
     \<and> (wc_armed c \<longrightarrow> wc_armed c') \<and> stopping_weight s' + call_weight c' \<le> stopping_weight s + call_weight c"

lemma call_ok_mid: "call_ok s c \<Longrightarrow> call_mid s c"
  by (auto simp: call_ok_def call_mid_def)

lemma call_mid_ok: "call_mid s c \<Longrightarrow> \<not> (wc_armed c \<and> wc_t1 c = None) \<or> \<not> call_cond s c \<Longrightarrow> call_ok s c"
  by (cases "wc_kind c") (auto simp: call_ok_def call_mid_def call_cond_def)

lemma call_move_refl: "ws_fit s \<Longrightarrow> call_move s c s c"
  by (simp add: call_move_def)

lemma call_move_trans: "call_move s c s' c' \<Longrightarrow> call_move s' c' s'' c'' \<Longrightarrow> call_move s c s'' c''"
  by (auto simp: call_move_def)

lemma stop_weight: "ws_fit s \<Longrightarrow> stopping_weight (fst (ws_stop s)) \<le> stopping_weight s + 1"
  by (simp add: stopping_weight_def)

lemma pause_weight: "ws_fit s \<Longrightarrow> stopping_weight (fst (ws_pause s)) \<le> stopping_weight s"
  using fit_pause(3) [of s] by (auto simp: stopping_weight_def)

text \<open>Arming a call that is due.\<close>

lemma try_arm_facts:
  assumes fit: "ws_fit (tr_sim tr)" and ok: "call_ok (tr_sim tr) c" and arm: "try_arm tr c = (tr1, c1)"
  shows "call_move (tr_sim tr) c (tr_sim tr1) c1 \<and> call_mid (tr_sim tr1) c1 \<and> (wc_at c \<le> now (tr_sim tr) \<longrightarrow> wc_armed c1)
    \<and> (\<not> acting (wc_kind c) \<longrightarrow> tr1 = tr) \<and> tr_calls tr1 = tr_calls tr"
proof (cases "\<not> wc_armed c \<and> wc_at c \<le> now (tr_sim tr)")
  case False
  with arm fit ok show ?thesis by (auto simp: try_arm_def call_move_refl call_ok_mid)
next
  case True
  let ?s = "tr_sim tr"
  let ?c = "c\<lparr>wc_armed := True, wc_t0 := now ?s, wc_phase := 1\<rparr>"
  have c: "\<not> wc_armed c" "wc_at c \<le> now ?s" "wc_t1 c = None" "wc_err c = None" "wc_at c \<le> 500" using True ok by (auto simp: call_ok_def)
  have a: "arm tr c = (tr1, c1)" using arm True by (simp add: try_arm_def)
  consider (stop) "wc_kind c = StopAndWait" | (pause) "wc_kind c = PauseAndWait" | (none) "wc_kind c \<notin> {StopAndWait, PauseAndWait}" by blast
  then show ?thesis
  proof cases
    case stop
    with a have e: "tr1 = on_sim (\<lambda>s. fst (ws_stop s)) tr" "c1 = ?c\<lparr>wc_err := snd (ws_stop ?s), wc_mark := Some (now (fst (ws_stop ?s)))\<rparr>"
      by (simp_all add: arm_def Let_def)
    have "call_move ?s c (tr_sim tr1) c1"
      using fit_stop [OF fit] stop_weight [OF fit] c by (simp add: e call_move_def call_weight_def)
    moreover have "call_mid (tr_sim tr1) c1"
      using fit_stop(2) [OF fit] stop_error [of ?s] c stop by (auto simp: e call_mid_def)
    ultimately show ?thesis using stop by (simp add: e acting_def)
  next
    case pause
    with a have e: "tr1 = on_sim (\<lambda>s. fst (ws_pause s)) tr" "c1 = ?c\<lparr>wc_err := snd (ws_pause ?s), wc_mark := Some (now (fst (ws_pause ?s)))\<rparr>"
      by (simp_all add: arm_def Let_def)
    have "call_move ?s c (tr_sim tr1) c1"
      using fit_pause [OF fit] pause_weight [OF fit] c by (simp add: e call_move_def call_weight_def)
    moreover have "call_mid (tr_sim tr1) c1"
      using fit_pause(2) [OF fit] pause_error [of ?s] c pause by (auto simp: e call_mid_def)
    ultimately show ?thesis using pause by (simp add: e acting_def)
  next
    case none
    with a have e: "tr1 = tr" "c1 = ?c" by (cases "wc_kind c"; simp add: arm_def Let_def)+
    with c fit none show ?thesis by (simp add: call_move_def call_weight_def call_mid_def)
  qed
qed

text \<open>The check of an armed call.\<close>

lemma call_done_cases:
  obtains (blocked) "\<not> call_cond (tr_sim tr) c" "call_done tr c = (False, tr, c)"
    | (plain) "call_cond (tr_sim tr) c" "call_done tr c = (True, tr, c)" "wc_kind c \<notin> {WaitAndStop, WaitAndPause}"
    | (stop) "waitDone (tr_sim tr)" "wc_kind c = WaitAndStop"
        "call_done tr c = (True, on_sim (\<lambda>s. fst (ws_stop s)) tr, c\<lparr>wc_mark := Some (now (tr_sim tr)), wc_err := snd (ws_stop (tr_sim tr))\<rparr>)"
    | (pause) "waitDone (tr_sim tr)" "wc_kind c = WaitAndPause"
        "call_done tr c = (True, on_sim (\<lambda>s. fst (ws_pause s)) tr, c\<lparr>wc_mark := Some (now (tr_sim tr)), wc_err := snd (ws_pause (tr_sim tr))\<rparr>)"
  by (cases "wc_kind c"; cases "call_cond (tr_sim tr) c") (simp_all add: call_done_def call_cond_def Let_def)

definition return_facts :: "WaitTrack \<Rightarrow> WaitCall \<Rightarrow> WaitTrack \<Rightarrow> WaitCall \<Rightarrow> WaitOut list \<Rightarrow> bool" where
  "return_facts tr c tr' c' out \<longleftrightarrow> call_move (tr_sim tr) c (tr_sim tr') c' \<and> call_ok (tr_sim tr') c' \<and> (\<not> acting (wc_kind c) \<longrightarrow> tr' = tr)
     \<and> tr_calls tr' = tr_calls tr \<and> (wc_armed c' \<and> wc_t1 c' = None \<longrightarrow> \<not> call_cond (tr_sim tr') c') \<and> (\<forall>l. Returned l \<in> set out \<longrightarrow> promise l)"

lemma log_line_fields [simp]:
  "ll_kind (log_line multi tr c) = wc_kind c" "ll_status (log_line multi tr c) = status (tr_sim tr)"
  "ll_pending (log_line multi tr c) = numPending (tr_sim tr)" "ll_processing (log_line multi tr c) = busy (tr_sim tr)"
  by (simp_all add: log_line_def numProcessing_def)

lemma plain_promise:
  assumes fit: "ws_fit (tr_sim tr)" and mid: "call_mid (tr_sim tr) c" and c: "call_cond (tr_sim tr) c" "wc_kind c \<notin> {WaitAndStop, WaitAndPause}"
    and open_call: "wc_armed c" "wc_t1 c = None"
  shows "promise (log_line multi tr (c\<lparr>wc_t1 := t\<rparr>))"
proof -
  let ?s = "tr_sim tr"
  note g = fit_good [OF fit]
  have b: "busy ?s = 0" if "status ?s \<in> {Initiated, Idle, Paused, Stopped}" using resting_busy [OF g that] .
  show ?thesis
  proof (cases "wc_kind c")
    case Wait
    with c have w: "waitDone ?s" by (simp add: call_cond_def)
    then have "status ?s \<in> {Idle, Running} \<longrightarrow> numPending ?s = 0" by (auto simp: waitDone_def)
    with Wait waitDone_busy [OF g w] show ?thesis by (simp add: promise_def)
  next
    case StopAndWait
    with c mid open_call have "status ?s \<in> {Stopped, Initiated}"
      by (auto simp: call_cond_def call_mid_def waitUntilStoppedDone_def split: if_splits)
    with StopAndWait b show ?thesis by (auto simp: promise_def)
  next
    case PauseAndWait
    with c mid open_call have "status ?s \<in> {Paused, Initiated, Stopping, Stopped}"
      by (auto simp: call_cond_def call_mid_def waitUntilPausedDone_def split: if_splits)
    with PauseAndWait b show ?thesis by (auto simp: promise_def)
  qed (use c b in \<open>auto simp: call_cond_def promise_def waitUntilIdleDone_def waitUntilPausedDone_def waitUntilStoppedDone_def\<close>)
qed

lemma returned_ok:
  assumes "call_mid s c" "wc_armed c" "now s' = now s"
  shows "call_ok s' (c\<lparr>wc_mark := m, wc_err := e, wc_t1 := Some (now s')\<rparr>)" "call_ok s' (c\<lparr>wc_t1 := Some (now s')\<rparr>)"
  using assms by (auto simp: call_mid_def call_ok_def)

lemma try_return_facts:
  assumes fit: "ws_fit (tr_sim tr)" and mid: "call_mid (tr_sim tr) c" and ret: "try_return multi tr c = (tr', c', out)"
  shows "return_facts tr c tr' c' out"
proof (cases "wc_armed c \<and> wc_t1 c = None")
  case False
  with ret have "tr' = tr" "c' = c" "out = []" by (auto simp: try_return_def Let_def)
  with False fit mid show ?thesis by (auto simp: return_facts_def call_move_refl intro: call_mid_ok)
next
  case True
  let ?s = "tr_sim tr"
  note g = fit_good [OF fit]
  show ?thesis
  proof (cases rule: call_done_cases [of tr c])
    case blocked
    with ret True have e: "tr' = tr" "c' = c" "out = []" by (auto simp: try_return_def Let_def)
    with blocked fit mid show ?thesis by (auto simp: return_facts_def call_move_refl intro: call_mid_ok)
  next
    case plain
    with ret True have e: "tr' = tr" "c' = c\<lparr>wc_t1 := Some (now ?s)\<rparr>" "out = [Returned (log_line multi tr c')]"
      by (auto simp: try_return_def Let_def)
    have "call_move ?s c ?s c'" using fit True by (simp add: e call_move_def call_weight_def)
    with e plain_promise [OF fit mid plain(1,3)] returned_ok(2) [OF mid] True show ?thesis by (simp add: return_facts_def)
  next
    case stop
    with ret True have e: "tr' = on_sim (\<lambda>s. fst (ws_stop s)) tr" "c' = c\<lparr>wc_mark := Some (now ?s), wc_err := snd (ws_stop ?s), wc_t1 := Some (now ?s)\<rparr>"
        "out = [Returned (log_line multi tr' c')]"
      by (auto simp: try_return_def Let_def)
    have "call_move ?s c (tr_sim tr') c'"
      using fit_stop [OF fit] stop_weight [OF fit] True by (simp add: e call_move_def call_weight_def)
    moreover have "promise (log_line multi tr' c')"
      using fit_stop(2) [OF fit] stop_error [of ?s] waitDone_busy [OF g stop(1)] stop(2) by (cases "snd (ws_stop ?s) = None") (auto simp: e promise_def)
    ultimately show ?thesis using stop(2) True returned_ok(1) [OF mid, of "tr_sim tr'"] by (simp add: return_facts_def e acting_def)
  next
    case pause
    with ret True have e: "tr' = on_sim (\<lambda>s. fst (ws_pause s)) tr" "c' = c\<lparr>wc_mark := Some (now ?s), wc_err := snd (ws_pause ?s), wc_t1 := Some (now ?s)\<rparr>"
        "out = [Returned (log_line multi tr' c')]"
      by (auto simp: try_return_def Let_def)
    have "call_move ?s c (tr_sim tr') c'"
      using fit_pause [OF fit] pause_weight [OF fit] True by (simp add: e call_move_def call_weight_def)
    moreover have "promise (log_line multi tr' c')"
      using fit_pause(2) [OF fit] pause_error [of ?s] waitDone_busy [OF g pause(1)] pause(2) by (cases "snd (ws_pause ?s) = None") (auto simp: e promise_def)
    ultimately show ?thesis using pause(2) True returned_ok(1) [OF mid, of "tr_sim tr'"] by (simp add: return_facts_def e acting_def)
  qed
qed

section \<open>The calls of a track\<close>

lemma one_call:
  assumes fit: "ws_fit (tr_sim tr)" and ok: "call_ok (tr_sim tr) c" and arm: "try_arm tr c = (tr1, c1)" and ret: "try_return multi tr1 c1 = (tr2, c2, out)"
  shows "return_facts tr c tr2 c2 out" "wc_at c \<le> now (tr_sim tr) \<longrightarrow> wc_armed c2"
proof -
  note a = try_arm_facts [OF fit ok arm]
  have r: "return_facts tr1 c1 tr2 c2 out"
    by (rule try_return_facts [OF _ _ ret]) (use a in \<open>auto simp: call_move_def\<close>)
  have k: "wc_kind c1 = wc_kind c" using a by (simp add: call_move_def)
  have "call_move (tr_sim tr) c (tr_sim tr2) c2"
    by (rule call_move_trans [of _ _ "tr_sim tr1" c1]) (use a r in \<open>simp_all add: return_facts_def\<close>)
  then show "return_facts tr c tr2 c2 out" using a r k by (simp add: return_facts_def)
  show "wc_at c \<le> now (tr_sim tr) \<longrightarrow> wc_armed c2" using a r by (simp add: return_facts_def call_move_def)
qed

text \<open>Calls that act on the worker stand alone on their track.\<close>

definition calls_shape :: "WaitKind list \<Rightarrow> bool" where
  "calls_shape ks \<longleftrightarrow> length ks \<le> 3 \<and> ((\<forall>k \<in> set ks. \<not> acting k) \<or> length ks = 1)"

definition calls_weight :: "WaitCall list \<Rightarrow> nat" where
  "calls_weight cs = sum_list (map call_weight cs)"

definition rest_call :: "WorkerSim \<Rightarrow> WaitCall \<Rightarrow> bool" where
  "rest_call s c \<longleftrightarrow> call_ok s c \<and> (wc_at c \<le> now s \<longrightarrow> wc_armed c) \<and> (wc_armed c \<and> wc_t1 c = None \<longrightarrow> \<not> call_cond s c)"

definition calls_facts :: "WaitTrack \<Rightarrow> WaitCall list \<Rightarrow> WaitTrack \<Rightarrow> WaitCall list \<Rightarrow> WaitOut list \<Rightarrow> bool" where
  "calls_facts tr cs tr' cs' out \<longleftrightarrow> ws_fit (tr_sim tr') \<and> now (tr_sim tr') = now (tr_sim tr) \<and> pot (tr_sim tr') = pot (tr_sim tr)
     \<and> tr_calls tr' = tr_calls tr \<and> map wc_kind cs' = map wc_kind cs \<and> (\<forall>c \<in> set cs'. rest_call (tr_sim tr') c)
     \<and> stopping_weight (tr_sim tr') + calls_weight cs' \<le> stopping_weight (tr_sim tr) + calls_weight cs
     \<and> (\<forall>l. Returned l \<in> set out \<longrightarrow> promise l)"

lemma return_rest:
  assumes "return_facts tr c tr' c' out" "wc_at c \<le> now (tr_sim tr) \<longrightarrow> wc_armed c'"
  shows "rest_call (tr_sim tr') c'"
  using assms by (simp add: return_facts_def rest_call_def call_move_def)

lemma pure_calls:
  assumes "ws_fit (tr_sim tr)" "\<forall>c \<in> set cs. call_ok (tr_sim tr) c \<and> \<not> acting (wc_kind c)" "step_calls multi tr cs = (tr', cs', out)"
  shows "calls_facts tr cs tr' cs' out \<and> tr' = tr"
  using assms(2,3)
proof (induction cs arbitrary: tr' cs' out)
  case Nil
  with assms(1) show ?case by (simp add: calls_facts_def)
next
  case (Cons c cs)
  obtain tr1 c1 where a: "try_arm tr c = (tr1, c1)" by (metis prod.exhaust)
  obtain tr2 c2 o2 where r: "try_return multi tr1 c1 = (tr2, c2, o2)" by (metis prod_cases3)
  have ok: "call_ok (tr_sim tr) c" "\<not> acting (wc_kind c)" using Cons.prems(1) by simp_all
  note f = one_call [OF assms(1) ok(1) a r]
  have tr2: "tr2 = tr" using f(1) ok(2) by (simp add: return_facts_def)
  obtain tr3 ds o3 where s: "step_calls multi tr cs = (tr3, ds, o3)" by (metis prod_cases3)
  have ih: "calls_facts tr cs tr3 ds o3 \<and> tr3 = tr" by (rule Cons.IH) (use Cons.prems s in simp_all)
  have e: "tr' = tr3" "cs' = c2 # ds" "out = o2 @ o3" using Cons.prems(2) a r s tr2 by simp_all
  show ?case using ih f return_rest [OF f] tr2
    by (auto simp: e calls_facts_def return_facts_def call_move_def calls_weight_def)
qed

lemma calls_step:
  assumes "ws_fit (tr_sim tr)" "\<forall>c \<in> set cs. call_ok (tr_sim tr) c" "calls_shape (map wc_kind cs)" "step_calls multi tr cs = (tr', cs', out)"
  shows "calls_facts tr cs tr' cs' out"
proof (cases "\<forall>c \<in> set cs. \<not> acting (wc_kind c)")
  case True
  with pure_calls [OF assms(1) _ assms(4)] assms(2) show ?thesis by blast
next
  case False
  with assms(3) obtain c where cs: "cs = [c]" by (auto simp: calls_shape_def length_Suc_conv)
  obtain tr1 c1 where a: "try_arm tr c = (tr1, c1)" by (metis prod.exhaust)
  obtain tr2 c2 o2 where r: "try_return multi tr1 c1 = (tr2, c2, o2)" by (metis prod_cases3)
  note f = one_call [OF assms(1) _ a r]
  have ok: "call_ok (tr_sim tr) c" using assms(2) cs by simp
  have e: "tr' = tr2" "cs' = [c2]" "out = o2" using assms(4) a r cs by simp_all
  show ?thesis using f [OF ok] return_rest [OF f [OF ok]]
    by (auto simp: e cs calls_facts_def return_facts_def call_move_def calls_weight_def)
qed

section \<open>A round of a track\<close>

definition track_ok :: "WaitTrack \<Rightarrow> bool" where
  "track_ok tr \<longleftrightarrow> ws_fit (tr_sim tr) \<and> 0 \<le> now (tr_sim tr) \<and> calls_shape (map wc_kind (tr_calls tr))
     \<and> (\<forall>c \<in> set (tr_calls tr). call_ok (tr_sim tr) c \<and> (wc_at c \<le> now (tr_sim tr) \<longrightarrow> wc_armed c))"

definition track_weight :: "WaitTrack \<Rightarrow> nat" where
  "track_weight tr = pot (tr_sim tr) + stopping_weight (tr_sim tr) + calls_weight (tr_calls tr)"

lemma call_ok_later:
  assumes "call_ok s c" "now s \<le> now t" "status t \<in> status_moves (status s)"
  shows "call_ok t c"
  using assms unfolding call_ok_def status_moves_def by (auto split: Status.splits intro: order_trans)

lemma call_ok_pause:
  assumes "call_ok s c" "ws_fit s"
  shows "call_ok (fst (ws_pause s)) c"
proof -
  have "status (fst (ws_pause s)) \<in> {Stopping, Stopped}" if "status s \<in> {Stopping, Stopped}"
    using that by (auto simp: ws_pause_def)
  moreover have "status (fst (ws_pause s)) \<in> {Pausing, Paused}" if "status s \<in> {Pausing, Paused}"
    using that by (auto simp: ws_pause_def)
  ultimately show ?thesis using assms(1) by (auto simp: call_ok_def)
qed

lemma stopping_moves: "status t \<in> status_moves (status s) \<Longrightarrow> stopping_weight t \<le> stopping_weight s"
  by (auto simp: stopping_weight_def status_moves_def split: Status.splits)

lemma progress_busy:
  assumes "ws_fit (tr_sim tr)" "canProgress tr"
  shows "0 < busy (tr_sim tr) \<or> status (tr_sim tr) = Stopping \<and> busy (tr_sim tr) = 0"
proof -
  let ?s = "tr_sim tr"
  note g = ws_goodD [OF fit_good [OF assms(1)]]
  have "0 < busy ?s" if "isActive ?s" "queue ?s \<noteq> []"
    using g(3) that assms(1) by (auto simp: ws_ready_def ws_fit_def)
  moreover have "0 < busy ?s" if "status ?s = Pausing"
    using g(2) that busy_pos [OF g(1)] by (simp add: st_inv_def)
  ultimately show ?thesis using assms(2) by (auto simp: canProgress_def Let_def)
qed

lemma track_step_facts:
  assumes ok: "track_ok tr" and dt: "0 < dt" "dt \<le> STEP" and step: "track_step multi dt tr = (tr', out)"
  shows "track_ok tr'" "\<forall>c \<in> set (tr_calls tr'). rest_call (tr_sim tr') c" "map wc_kind (tr_calls tr') = map wc_kind (tr_calls tr)"
    "now (tr_sim tr') = now (tr_sim tr) + dt" "track_weight tr' \<le> track_weight tr" "dt = STEP \<Longrightarrow> canProgress tr \<Longrightarrow> track_weight tr' < track_weight tr"
    "\<forall>l. Returned l \<in> set out \<longrightarrow> promise l"
proof -
  let ?s = "tr_sim tr" and ?tr1 = "on_sim (ws_advance dt) tr"
  define tr2 where "tr2 = (if pause_due ?tr1 then on_sim (\<lambda>s. fst (ws_pause s)) (?tr1\<lparr>tr_paused := True\<rparr>) else ?tr1)"
  have fit: "ws_fit ?s" and shape: "calls_shape (map wc_kind (tr_calls tr))" and calls: "\<forall>c \<in> set (tr_calls tr). call_ok ?s c" and pos: "0 \<le> now ?s"
    using ok by (auto simp: track_ok_def)
  note a = fit_advance [OF fit dt]
  let ?s1 = "ws_advance dt ?s"
  have s2: "tr_sim tr2 = ?s1 \<or> tr_sim tr2 = fst (ws_pause ?s1)" "tr_calls tr2 = tr_calls tr" by (auto simp: tr2_def)
  have ok1: "\<forall>c \<in> set (tr_calls tr). call_ok ?s1 c" using calls call_ok_later [of ?s _ ?s1] a(2,3) dt(1) by auto
  have fit2: "ws_fit (tr_sim tr2)" and now2: "now (tr_sim tr2) = now ?s + dt" and pot2: "pot (tr_sim tr2) = pot ?s1"
    and ok2: "\<forall>c \<in> set (tr_calls tr). call_ok (tr_sim tr2) c" and w2: "stopping_weight (tr_sim tr2) \<le> stopping_weight ?s1"
    using s2(1) fit_pause [OF a(1)] a(1,2) ok1 call_ok_pause [OF _ a(1)] pause_weight [OF a(1)] by auto
  obtain tr3 cs o3 where st: "step_calls multi tr2 (tr_calls tr2) = (tr3, cs, o3)" by (metis prod_cases3)
  have f: "calls_facts tr2 (tr_calls tr) tr3 cs o3"
    by (rule calls_step [OF fit2 ok2 shape st [unfolded s2(2)]])
  have e: "tr' = tr3\<lparr>tr_calls := cs\<rparr>" and out: "\<forall>l. Returned l \<in> set out \<longrightarrow> Returned l \<in> set o3"
    using step st by (auto simp: track_step_def Let_def tr2_def split: if_splits)
  show "\<forall>c \<in> set (tr_calls tr'). rest_call (tr_sim tr') c" "map wc_kind (tr_calls tr') = map wc_kind (tr_calls tr)"
    "now (tr_sim tr') = now ?s + dt" "\<forall>l. Returned l \<in> set out \<longrightarrow> promise l"
    using f now2 out by (auto simp: e calls_facts_def)
  with f shape pos dt(1) show "track_ok tr'" by (auto simp: e track_ok_def rest_call_def calls_facts_def)
  have w: "track_weight tr' \<le> pot ?s1 + stopping_weight ?s1 + calls_weight (tr_calls tr)"
    using f pot2 w2 by (simp add: e track_weight_def calls_facts_def)
  then show "track_weight tr' \<le> track_weight tr" using a(5) stopping_moves [OF a(3)] by (simp add: track_weight_def)
  show "track_weight tr' < track_weight tr" if "dt = STEP" "canProgress tr"
    using progress_busy [OF fit that(2)]
  proof
    assume "0 < busy ?s"
    then show ?thesis using w a(6) [OF that(1)] stopping_moves [OF a(3)] by (simp add: track_weight_def)
  next
    assume "status ?s = Stopping \<and> busy ?s = 0"
    then show ?thesis using w a(4,5) by (simp add: track_weight_def stopping_weight_def)
  qed
qed

section \<open>The page\<close>

definition case_kinds :: "CaseKey \<Rightarrow> WaitKind list list" where
  "case_kinds k = map (\<lambda>(_, calls, _). map fst calls) (cs_tracks (WAIT_CASES k))"

definition wt_ok :: "Waiting \<Rightarrow> bool" where
  "wt_ok w \<longleftrightarrow> (\<forall>tr \<in> set (wt_tracks w). track_ok tr) \<and> map (\<lambda>tr. map wc_kind (tr_calls tr)) (wt_tracks w) = case_kinds (wt_key w)
     \<and> (\<forall>l. Returned l \<in> set (wt_log w) \<longrightarrow> promise l)"

text \<open>At rest: every call is armed and checked, and no worker moves by itself.\<close>

definition wt_rest :: "Waiting \<Rightarrow> bool" where
  "wt_rest w \<longleftrightarrow> (\<forall>tr \<in> set (wt_tracks w). \<not> canProgress tr \<and> (\<forall>c \<in> set (tr_calls tr). wc_armed c \<and> rest_call (tr_sim tr) c))"

lemma stepOnce_fields [simp]:
  "wt_key (stepOnce dt w) = wt_key w" "wt_reduce (stepOnce dt w) = wt_reduce w" "wt_clockPaused (stepOnce dt w) = wt_clockPaused w"
  "wt_tracks (stepOnce dt w) = map (\<lambda>tr. fst (track_step (1 < length (wt_tracks w)) dt tr)) (wt_tracks w)"
  by (simp_all add: stepOnce_def Let_def)

lemma stepOnce_ok:
  assumes "wt_ok w" "0 < dt" "dt \<le> STEP"
  shows "wt_ok (stepOnce dt w)" "\<forall>tr \<in> set (wt_tracks (stepOnce dt w)). \<forall>c \<in> set (tr_calls tr). rest_call (tr_sim tr) c"
proof -
  let ?step = "track_step (1 < length (wt_tracks w)) dt"
  have f: "track_ok (fst (?step tr)) \<and> (\<forall>c \<in> set (tr_calls (fst (?step tr))). rest_call (tr_sim (fst (?step tr))) c)
      \<and> map wc_kind (tr_calls (fst (?step tr))) = map wc_kind (tr_calls tr) \<and> (\<forall>l. Returned l \<in> set (snd (?step tr)) \<longrightarrow> promise l)"
    if "tr \<in> set (wt_tracks w)" for tr
  proof -
    have "track_ok tr" using assms(1) that by (simp add: wt_ok_def)
    from track_step_facts [OF this assms(2,3) prod.collapse [symmetric]] show ?thesis by blast
  qed
  show "\<forall>tr \<in> set (wt_tracks (stepOnce dt w)). \<forall>c \<in> set (tr_calls tr). rest_call (tr_sim tr) c" using f by auto
  have k: "map (\<lambda>tr. map wc_kind (tr_calls tr)) (wt_tracks (stepOnce dt w)) = map (\<lambda>tr. map wc_kind (tr_calls tr)) (wt_tracks w)"
    using f by simp
  have t: "\<forall>tr \<in> set (wt_tracks (stepOnce dt w)). track_ok tr" using f by auto
  have l: "wt_log (stepOnce dt w) = wt_log w @ concat (map (\<lambda>tr. snd (?step tr)) (wt_tracks w))"
    by (simp add: stepOnce_def Let_def comp_def)
  have "\<forall>x. Returned x \<in> set (wt_log (stepOnce dt w)) \<longrightarrow> promise x" unfolding l using f assms(1) by (auto simp: wt_ok_def)
  with k t assms(1) show "wt_ok (stepOnce dt w)" unfolding wt_ok_def stepOnce_fields(1) by simp
qed

definition time_left :: "WaitTrack \<Rightarrow> nat" where
  "time_left tr = nat \<lceil>(500 - now (tr_sim tr)) / STEP\<rceil>"

definition wt_rank :: "Waiting \<Rightarrow> nat" where
  "wt_rank w = sum_list (map (\<lambda>tr. track_weight tr + time_left tr) (wt_tracks w))"

lemma time_left_step:
  assumes "now (tr_sim tr') = now (tr_sim tr) + STEP"
  shows "time_left tr' \<le> time_left tr" "now (tr_sim tr) < 500 \<Longrightarrow> time_left tr' < time_left tr"
proof -
  have e: "(500 - now (tr_sim tr')) / STEP = (500 - now (tr_sim tr)) / STEP - 1"
    by (simp add: assms STEP_def field_simps)
  show "time_left tr' \<le> time_left tr" by (simp add: time_left_def e)
  show "time_left tr' < time_left tr" if "now (tr_sim tr) < 500"
  proof -
    have "0 < (500 - now (tr_sim tr)) / STEP" using that by (simp add: STEP_def)
    then show ?thesis by (simp add: time_left_def e zero_less_ceiling)
  qed
qed

lemma sum_list_less:
  assumes "\<forall>x \<in> set xs. f x \<le> (g x :: nat)" "\<exists>x \<in> set xs. f x < g x"
  shows "sum_list (map f xs) < sum_list (map g xs)"
  using assms
proof (induction xs)
  case (Cons x xs)
  have le: "sum_list (map f xs) \<le> sum_list (map g xs)" using Cons.prems(1) by (intro sum_list_mono) simp
  show ?case
  proof (cases "f x < g x")
    case True
    with le show ?thesis by simp
  next
    case False
    with Cons show ?thesis by (simp add: add_le_less_mono)
  qed
qed simp

lemma unarmed_early:
  assumes "track_ok tr" "c \<in> set (tr_calls tr)" "\<not> wc_armed c"
  shows "now (tr_sim tr) < 500"
proof -
  have "wc_at c \<le> 500" "\<not> wc_at c \<le> now (tr_sim tr)" using assms by (auto simp: track_ok_def call_ok_def)
  then show ?thesis by linarith
qed

lemma rank_step:
  assumes "wt_ok w" "still_open w \<or> (\<exists>tr \<in> set (wt_tracks w). canProgress tr)"
  shows "wt_rank (stepOnce STEP w) < wt_rank w"
proof -
  let ?step = "\<lambda>tr. fst (track_step (1 < length (wt_tracks w)) STEP tr)"
  have f: "track_weight (?step tr) \<le> track_weight tr" "canProgress tr \<Longrightarrow> track_weight (?step tr) < track_weight tr"
      "time_left (?step tr) \<le> time_left tr" "now (tr_sim tr) < 500 \<Longrightarrow> time_left (?step tr) < time_left tr"
    if "tr \<in> set (wt_tracks w)" for tr
  proof -
    have ok: "track_ok tr" using assms(1) that by (simp add: wt_ok_def)
    note t = track_step_facts [OF ok STEP_pos order_refl prod.collapse [symmetric]]
    show "track_weight (?step tr) \<le> track_weight tr" "canProgress tr \<Longrightarrow> track_weight (?step tr) < track_weight tr"
      using t(5,6) by blast+
    show "time_left (?step tr) \<le> time_left tr" "now (tr_sim tr) < 500 \<Longrightarrow> time_left (?step tr) < time_left tr"
      using time_left_step [OF t(4)] by blast+
  qed
  have "\<exists>tr \<in> set (wt_tracks w). canProgress tr \<or> now (tr_sim tr) < 500"
    using assms(2) unarmed_early assms(1) unfolding still_open_def wt_ok_def by blast
  then have ex: "\<exists>tr \<in> set (wt_tracks w). track_weight (?step tr) + time_left (?step tr) < track_weight tr + time_left tr"
    using f by (meson add_le_less_mono add_less_le_mono)
  have all: "\<forall>tr \<in> set (wt_tracks w). track_weight (?step tr) + time_left (?step tr) \<le> track_weight tr + time_left tr"
    using f by (simp add: add_mono)
  show ?thesis unfolding wt_rank_def using sum_list_less [OF all ex] by (simp add: comp_def)
qed

text \<open>The loop of \<open>settle\<close> ends by its own test when it may run as many rounds as the rank.\<close>

lemma settle_rests:
  "wt_ok w \<Longrightarrow> wt_rank (stepOnce STEP w) < n \<Longrightarrow> wt_ok (settle_loop n w) \<and> wt_rest (settle_loop n w)"
proof (induction n arbitrary: w)
  case (Suc n)
  let ?w = "stepOnce STEP w"
  note s = stepOnce_ok [OF Suc.prems(1) STEP_pos order_refl]
  show ?case
  proof (cases "\<not> still_open ?w \<and> \<not> (\<exists>tr \<in> set (wt_tracks ?w). canProgress tr)")
    case True
    then have "settle_loop (Suc n) w = ?w" by (simp add: Let_def)
    moreover have "wt_rest ?w" using True s(2) unfolding wt_rest_def still_open_def by blast
    ultimately show ?thesis using s(1) by simp
  next
    case False
    then have e: "settle_loop (Suc n) w = settle_loop n ?w" by (auto simp: Let_def)
    have "wt_rank (stepOnce STEP ?w) < wt_rank ?w" using rank_step [OF s(1)] False by blast
    with Suc.IH [OF s(1)] Suc.prems(2) show ?thesis unfolding e by simp
  qed
qed simp

lemma wt_settle_fields [simp]:
  "wt_key (settle_loop n w) = wt_key w" "wt_clockPaused (settle_loop n w) = wt_clockPaused w" "wt_reduce (settle_loop n w) = wt_reduce w"
  by (induction n arbitrary: w) (simp_all add: Let_def)

lemma case_kinds_length: "length (case_kinds k) \<le> 2"
  by (cases k) (simp_all add: case_kinds_def)

lemma calls_weight_le: "calls_weight cs \<le> 2 * length cs"
  unfolding calls_weight_def by (induction cs) (auto simp: call_weight_def)

lemma rank_bound:
  assumes "wt_ok w"
  shows "wt_rank w \<le> 400"
proof -
  have b: "track_weight tr + time_left tr \<le> 200" if "tr \<in> set (wt_tracks w)" for tr
  proof -
    have ok: "track_ok tr" using assms that by (simp add: wt_ok_def)
    then have "length (tr_calls tr) \<le> 3" by (simp add: track_ok_def calls_shape_def)
    then have "calls_weight (tr_calls tr) \<le> 6" using calls_weight_le [of "tr_calls tr"] by linarith
    moreover have "pot (tr_sim tr) \<le> 180" using ok pot_fit by (simp add: track_ok_def)
    moreover have "stopping_weight (tr_sim tr) \<le> 1" by (simp add: stopping_weight_def)
    moreover have "time_left tr \<le> 13"
    proof -
      have "(500 - now (tr_sim tr)) / STEP \<le> 13" using ok by (simp add: track_ok_def STEP_def)
      then show ?thesis by (simp add: time_left_def nat_le_iff ceiling_le_iff)
    qed
    ultimately show ?thesis by (simp add: track_weight_def)
  qed
  have "wt_rank w \<le> sum_list (map (\<lambda>_. 200) (wt_tracks w))" unfolding wt_rank_def using b by (intro sum_list_mono) simp
  also have "\<dots> \<le> 400"
    using assms case_kinds_length [of "wt_key w"] by (simp add: wt_ok_def sum_list_triv flip: length_map) (metis length_map)
  finally show ?thesis .
qed

lemma wt_settle_rests: "wt_ok w \<Longrightarrow> wt_ok (wt_settle w) \<and> wt_rest (wt_settle w)"
  unfolding wt_settle_def
proof (rule settle_rests)
  assume ok: "wt_ok w"
  show "wt_rank (stepOnce STEP w) < 1200" using rank_bound [OF stepOnce_ok(1) [OF ok STEP_pos order_refl]] by simp
qed

section \<open>Events\<close>

lemma case_kinds_shape: "\<forall>ks \<in> set (case_kinds k). calls_shape ks"
  by (cases k) (simp_all add: case_kinds_def calls_shape_def acting_def)

lemma button_pure: "cs_button (WAIT_CASES k) \<noteq> None \<Longrightarrow> \<forall>ks \<in> set (case_kinds k). \<forall>x \<in> set ks. \<not> acting x"
  by (cases k) (simp_all add: case_kinds_def acting_def)

lemma new_track_fields:
  "tr_sim (new_track auto (name, calls, pauseAt)) = built auto"
  "map wc_kind (tr_calls (new_track auto (name, calls, pauseAt))) = map fst calls"
  "\<forall>c \<in> set (tr_calls (new_track auto (name, calls, pauseAt))). \<not> wc_armed c \<and> wc_t1 c = None \<and> wc_err c = None \<and> wc_at c \<in> snd ` set calls"
  by (auto simp: built_def Let_def comp_def case_prod_beta)

lemma new_track_ok:
  assumes "calls_shape (map fst calls)" "\<forall>t \<in> snd ` set calls. 0 < t \<and> t \<le> 500"
  shows "track_ok (new_track auto (name, calls, pauseAt))"
proof -
  have "call_ok (built auto) c \<and> (wc_at c \<le> now (built auto) \<longrightarrow> wc_armed c)"
    if c: "c \<in> set (tr_calls (new_track auto (name, calls, pauseAt)))" for c
  proof -
    have n: "\<not> wc_armed c" "wc_t1 c = None" "wc_err c = None" "wc_at c \<in> snd ` set calls" using new_track_fields(3) c by blast+
    then have "0 < wc_at c" "wc_at c \<le> 500" using assms(2) by blast+
    with n show ?thesis by (simp add: call_ok_def built_fit)
  qed
  then show ?thesis using assms(1) built_fit by (simp add: track_ok_def new_track_fields del: new_track.simps)
qed

lemma build_ok: "wt_ok (wt_build k w)"
proof -
  have "track_ok (new_track (cs_autoRun (WAIT_CASES k)) x)" if x: "x \<in> set (cs_tracks (WAIT_CASES k))" for x
  proof -
    obtain name calls pauseAt where e: "x = (name, calls, pauseAt)" by (metis prod_cases3)
    have "calls_shape (map fst calls)" using case_kinds_shape [of k] x unfolding case_kinds_def e by force
    moreover have "\<forall>t \<in> snd ` set calls. 0 < t \<and> t \<le> 500" using x e by (cases k) auto
    ultimately show ?thesis unfolding e by (rule new_track_ok)
  qed
  moreover have "map wc_kind (tr_calls (new_track a x)) = (\<lambda>(_, calls, _). map fst calls) x" for a x
    using new_track_fields(2) by (cases x) (simp del: new_track.simps)
  ultimately show ?thesis by (auto simp: wt_ok_def wt_build_def Let_def case_kinds_def comp_def simp del: new_track.simps WAIT_CASES.simps)
qed

lemma wt_ok_frame [simp]:
  "wt_ok (w\<lparr>wt_log := wt_log w @ [Said x]\<rparr>) = wt_ok w" "wt_ok (w\<lparr>wt_clockPaused := b\<rparr>) = wt_ok w"
  by (auto simp: wt_ok_def)

lemma tick_fields [simp]: "wt_clockPaused (wt_tick left w) = wt_clockPaused w"
proof (induction left w rule: wt_tick.induct)
  case (1 left w)
  then show ?case by (subst wt_tick.simps) (simp add: stepOnce_def Let_def)
qed

lemma tick_ok: "wt_ok w \<Longrightarrow> wt_ok (wt_tick left w)"
proof (induction left w rule: wt_tick.induct)
  case (1 left w)
  have "wt_ok (stepOnce (min STEP left) w)" if "0 < left" using stepOnce_ok(1) [OF "1.prems", of "min STEP left"] that STEP_pos by simp
  with 1 show ?case by (subst wt_tick.simps) simp
qed

lemma pure_call_ok: "call_ok s c \<Longrightarrow> \<not> acting (wc_kind c) \<Longrightarrow> now t = now s \<Longrightarrow> call_ok t c"
  by (auto simp: call_ok_def acting_def)

lemma on_first_ok:
  assumes ok: "wt_ok w" and button: "cs_button (WAIT_CASES (wt_key w)) \<noteq> None"
    and f: "\<And>s. ws_fit s \<Longrightarrow> first_status w = Some (status s) \<Longrightarrow> ws_fit (fst (f s)) \<and> now (fst (f s)) = now s"
  shows "wt_ok (on_first f called what w)"
proof (cases "wt_tracks w")
  case Nil
  with ok show ?thesis by (simp add: on_first_def)
next
  case (Cons tr trs)
  have tr: "track_ok tr" "\<forall>t \<in> set trs. track_ok t" and kinds: "map wc_kind (tr_calls tr) \<in> set (case_kinds (wt_key w))"
    using ok Cons unfolding wt_ok_def by (auto, metis list.set_intros(1))
  have s: "ws_fit (fst (f (tr_sim tr)))" "now (fst (f (tr_sim tr))) = now (tr_sim tr)"
    using f [of "tr_sim tr"] tr(1) Cons by (simp_all add: track_ok_def first_status_def)
  have "\<forall>c \<in> set (tr_calls tr). \<not> acting (wc_kind c)" using button_pure [OF button] kinds by auto
  then have "track_ok (on_sim (\<lambda>s. fst (f s)) tr)"
    using tr(1) s pure_call_ok [of "tr_sim tr" _ "fst (f (tr_sim tr))"] by (simp add: track_ok_def)
  with ok Cons tr(2) show ?thesis by (auto simp: wt_ok_def on_first_def)
qed

lemma wt_resume_ok: "wt_ok w \<Longrightarrow> resume_on w \<Longrightarrow> wt_ok (on_first ws_resume called what w)"
  by (rule on_first_ok) (auto simp: resume_on_def fit_resume)

lemma wt_start_ok: "wt_ok w \<Longrightarrow> start_on w \<Longrightarrow> wt_ok (on_first ws_start called what w)"
  by (rule on_first_ok) (auto simp: start_on_def fit_start)

lemma load_ok: "wt_ok (wt_load k w)"
  using wt_settle_rests [OF build_ok] build_ok by (simp add: wt_load_def Let_def)

lemma press_ok: "wt_ok w \<Longrightarrow> wt_ok (after_press w)"
  using wt_settle_rests by (simp add: after_press_def)

lemma wt_event_ok: "wt_ok w \<Longrightarrow> wt_ok (wt_event e w)"
  by (cases e) (simp_all add: load_ok press_ok wt_resume_ok wt_start_ok tick_ok Let_def clock_frame_def clock_pause_def clock_step_def)

interpretation waiting_scene: scene "\<lambda>w. \<exists>reduce. w = wt_init reduce" "\<lambda>e w. Some (wt_event e w)" wt_ok
  by unfold_locales (auto simp: wt_init_def load_ok wt_event_ok)

section \<open>Properties\<close>

lemma rest_returns:
  assumes "wt_ok w" "wt_rest w" "tr \<in> set (wt_tracks w)" "c \<in> set (tr_calls tr)"
    "wc_kind c \<in> {Wait, StopAndWait, WaitAndStop, PauseAndWait, WaitAndPause}"
  shows "wc_t1 c \<noteq> None"
proof
  assume "wc_t1 c = None"
  let ?s = "tr_sim tr"
  have fit: "ws_fit ?s" using assms(1,3) by (simp add: wt_ok_def track_ok_def)
  have stuck: "\<not> canProgress tr" and c: "wc_armed c" "call_ok ?s c" "\<not> call_cond ?s c"
    using assms(2-4) \<open>wc_t1 c = None\<close> by (auto simp: wt_rest_def rest_call_def)
  note g = ws_goodD [OF fit_good [OF fit]]
  have b: "busy ?s = 0" "status ?s \<notin> {Pausing, Stopping}" using stuck by (auto simp: canProgress_def Let_def)
  then have cur: "curProcessing ?s = 0" using busy_pos [OF g(1)] cur_nonneg [OF g(1)] by simp
  have "queue ?s = [] \<and> parked ?s = []" if "isActive ?s" using g(3) that b(1) fit by (simp add: ws_ready_def ws_fit_def)
  then have w: "waitDone ?s" using cur b(1) by (auto simp: waitDone_def numPending_def isActive_def split: Status.split)
  from c b(2) w assms(5) \<open>wc_t1 c = None\<close> show False
    by (auto simp: call_cond_def call_ok_def waitUntilStoppedDone_def waitUntilPausedDone_def)
qed

lemma call_ok_times:
  "call_ok s c \<Longrightarrow> (wc_armed c \<longrightarrow> wc_at c \<le> wc_t0 c) \<and> (\<forall>t. wc_t1 c = Some t \<longrightarrow> wc_armed c \<and> wc_t0 c \<le> t \<and> t \<le> now s)"
  by (cases "wc_armed c") (auto simp: call_ok_def)

text \<open>C37: However the reader uses the page, every event is answered and the timeline is true to the worker: each track's worker is in a
  state that \<open>WorkerSim\<close> can reach, a call is armed no earlier than its time and returns no earlier than it was armed, and each
  return in the log found the worker in the state that call promises.\<close>

theorem waiting_calls_keep_their_promise:
  shows "\<exists>w. presses (\<lambda>e w. Some (wt_event e w)) es (wt_init reduce) = Some w
    \<and> (\<forall>tr \<in> set (wt_tracks w). ws_reach (tr_sim tr)
        \<and> (\<forall>c \<in> set (tr_calls tr). (wc_armed c \<longrightarrow> wc_at c \<le> wc_t0 c) \<and> (\<forall>t. wc_t1 c = Some t \<longrightarrow> wc_armed c \<and> wc_t0 c \<le> t \<and> t \<le> now (tr_sim tr))))
    \<and> (\<forall>l. Returned l \<in> set (wt_log w) \<longrightarrow> promise l)"
proof -
  obtain w where "presses (\<lambda>e w. Some (wt_event e w)) es (wt_init reduce) = Some w" "wt_ok w"
    using waiting_scene.every_press_answered [of "wt_init reduce" es] by blast
  moreover have "\<forall>tr \<in> set (wt_tracks w). ws_reach (tr_sim tr) \<and> (\<forall>c \<in> set (tr_calls tr). (wc_armed c \<longrightarrow> wc_at c \<le> wc_t0 c)
      \<and> (\<forall>t. wc_t1 c = Some t \<longrightarrow> wc_armed c \<and> wc_t0 c \<le> t \<and> t \<le> now (tr_sim tr)))"
    using \<open>wt_ok w\<close> call_ok_times unfolding wt_ok_def track_ok_def ws_fit_def by blast
  moreover have "\<forall>l. Returned l \<in> set (wt_log w) \<longrightarrow> promise l" using \<open>wt_ok w\<close> unfolding wt_ok_def by blast
  ultimately show ?thesis by blast
qed

theorem waiting_calls_keep_their_promise_witness:
  "\<exists>w. presses (\<lambda>e w. Some (wt_event e w)) [CaseTab StopCase, Frame 90, ClockPause] (wt_init False) = Some w
    \<and> (\<forall>tr \<in> set (wt_tracks w). ws_reach (tr_sim tr))"
  using waiting_calls_keep_their_promise [of "[CaseTab StopCase, Frame 90, ClockPause]" False] by blast

text \<open>C38: A press that leaves the clock paused shows the end of what it starts. After a new case, a replay, a resume or a start with the
  clock paused, and after the clock's own Pause and Step 1 s, the page is at rest, whatever came before: every call is armed, no worker can move, and each \<open>Wait\<close>, \<open>StopAndWait\<close>, \<open>WaitAndStop\<close>,
  \<open>PauseAndWait\<close> and \<open>WaitAndPause\<close> has returned. The loop's 1200 rounds are always enough.\<close>

theorem waiting_press_settles:
  assumes "presses (\<lambda>e w. Some (wt_event e w)) es (wt_init reduce) = Some w"
    "wt_clockPaused w \<and> ((\<exists>k. e = CaseTab k) \<or> e = ReplayPress \<or> e = ResumePress \<and> resume_on w \<or> e = StartPress \<and> start_on w \<or> e = ClockStep)
      \<or> \<not> wt_clockPaused w \<and> e = ClockPause"
  shows "\<forall>tr \<in> set (wt_tracks (wt_event e w)). \<not> canProgress tr \<and> (\<forall>c \<in> set (tr_calls tr). wc_armed c
    \<and> (wc_kind c \<in> {Wait, StopAndWait, WaitAndStop, PauseAndWait, WaitAndPause} \<longrightarrow> wc_t1 c \<noteq> None))"
proof -
  have ok: "wt_ok w" using waiting_scene.every_press_answered [of "wt_init reduce" es] assms(1) by auto
  have p: "wt_rest (after_press v)" if "wt_ok v" "wt_clockPaused v" for v
    using wt_settle_rests [OF that(1)] that(2) by (simp add: after_press_def)
  have "wt_rest (wt_event e w)"
  proof (cases "wt_clockPaused w")
    case True
    have l: "wt_rest (wt_load k w)" "wt_clockPaused (wt_load k w)" for k
      using wt_settle_rests [OF build_ok, of k w] True by (simp_all add: wt_load_def Let_def wt_build_def wt_settle_def)
    have paused: "wt_clockPaused (on_first f called what w)" for f called what using True by (simp add: on_first_def split: list.split)
    show ?thesis
      using assms(2) True l p [OF wt_resume_ok [OF ok] paused] p [OF wt_start_ok [OF ok] paused] p [OF tick_ok [OF ok]] p load_ok
      by (auto simp: Let_def clock_step_def)
  next
    case False
    then have "wt_rest (after_press (clock_pause w))" using ok by (intro p) (simp_all add: clock_pause_def)
    with assms(2) False show ?thesis by simp
  qed
  then show ?thesis using rest_returns [OF wt_event_ok [OF ok]] by (auto simp: wt_rest_def)
qed

theorem waiting_press_settles_witness:
  "list_all (\<lambda>tr. \<not> canProgress tr) (wt_tracks (wt_event (CaseTab StopCase) (wt_init True)))"
proof -
  have "wt_clockPaused (wt_init True)" by (simp add: wt_init_def wt_load_def Let_def wt_build_def wt_settle_def)
  then show ?thesis
    using waiting_press_settles [of "[]" True "wt_init True" "CaseTab StopCase"] by (simp add: list_all_iff del: wt_event.simps)
qed

end
