(* ===== verification/Worker_Sim_Active.thy ===== *)
theory Worker_Sim_Active
  imports Worker_Sim_Live
begin

text \<open>
  \<open>WorkerSim\<close> while it is active, for the scenes that never pause or stop it: the park stays empty, the queue is a run of
  consecutive job numbers, and the pool keeps its minimum: no goroutine leaves while that would take the goroutines below
  \<open>minIdle\<close>, and without an expiry timer the pool never grows past it while no job waits.
\<close>

section \<open>One goroutine's tick\<close>

definition same_lanes :: "WorkerSim \<Rightarrow> WorkerSim \<Rightarrow> bool" where
  "same_lanes s t \<longleftrightarrow> queue t = queue s \<and> parked t = parked s \<and> gors t = gors s \<and> pool t = pool s \<and> limit t = limit s
     \<and> minIdlePct t = minIdlePct s \<and> expiry t = expiry s \<and> nextJob t = nextJob s
     \<and> now t = now s \<and> idleSince t = idleSince s \<and> expiryClock t = expiryClock s"

lemma same_lanes_refl [simp]: "same_lanes s s"
  by (simp add: same_lanes_def)

lemma same_lanes_trans: "same_lanes s t \<Longrightarrow> same_lanes t u \<Longrightarrow> same_lanes s u"
  by (simp add: same_lanes_def)

lemma same_lanes_prims [simp]:
  "same_lanes s (upd_job j f s)" "same_lanes s (emit e s)" "same_lanes s (begin_job g i s)" "same_lanes s (s\<lparr>metrics := m\<rparr>)"
  by (simp_all add: same_lanes_def ws_prims begin_job_def Let_def)

text \<open>While the worker is not halting, a finished job ends in the next job of its batch, or in the end of the batch.\<close>

lemma finish_next_ends:
  "\<not> halting s \<Longrightarrow> same_lanes s (finish_next g n s) \<or> (\<exists>u. same_lanes s u \<and> finish_next g n s = endBatch g u)"
proof (induction g n s rule: finish_next.induct)
  case (1 g n s)
  let ?nj = "g_batch (gorh s g) ! n"
  let ?t = "emit (EClose [?nj]) (upd_job ?nj (\<lambda>x. x\<lparr>j_state := JClosed, j_at := Out\<rparr>) s)"
  show ?case
  proof (cases "n < length (g_batch (gorh s g)) \<and> j_stale (jobh s ?nj)")
    case True
    have h: "\<not> halting ?t" using 1(2) by (simp add: halting_def ws_prims)
    have t: "same_lanes s ?t" by (rule same_lanes_trans [OF same_lanes_prims(1,2)])
    have "finish_next g n s = finish_next g (n + 1) ?t" using True by (simp add: finish_next.simps [of g n s] Let_def)
    moreover have "same_lanes ?t (finish_next g (n + 1) ?t) \<or> (\<exists>u. same_lanes ?t u \<and> finish_next g (n + 1) ?t = endBatch g u)"
      using 1(1) [OF _ refl _ h] True by blast
    ultimately show ?thesis using same_lanes_trans [OF t] by auto
  next
    case False
    then have "finish_next g n s = begin_job g n s \<or> finish_next g n s = endBatch g s"
      using 1(2) by (auto simp: finish_next.simps [of g n s] Let_def)
    then show ?thesis using same_lanes_refl [of s] same_lanes_prims(3) [of s g n] by (elim disjE) (simp, blast)
  qed
qed

lemma tick_ends:
  assumes "\<not> halting s"
  shows "same_lanes s (tick_gor dt g s) \<or> (g_busy (gorh s g) \<and> (\<exists>u. same_lanes s u \<and> tick_gor dt g s = endBatch g u))"
proof (cases "g_busy (gorh s g)")
  case True
  let ?j = "g_batch (gorh s g) ! g_i (gorh s g)"
  define s1 where "s1 = (if j_watch (jobh s ?j) \<and> ctx s \<noteq> None \<and> \<not> j_early (jobh s ?j)
    then upd_job ?j (\<lambda>x. x\<lparr>j_early := True, j_left := 0\<rparr>) s else s)"
  define s2 where "s2 = upd_job ?j (\<lambda>x. x\<lparr>j_left := j_left x - dt\<rparr>) s1"
  define fl where "fl \<longleftrightarrow> j_fail (jobh s2 ?j) \<noteq> None"
  define s3 where "s3 = upd_job ?j (\<lambda>x. x\<lparr>j_state := (if fl then JFailed else JDone), j_at := Out, j_ended := Some (now s2)\<rparr>) s2"
  define s4 where "s4 = emit (EEnd ?j) (s3\<lparr>metrics := count_end fl (metrics s3)\<rparr>)"
  have e: "tick_gor dt g s = (if j_left (jobh s2 ?j) \<le> 0 then finish_next g (g_i (gorh s4 g) + 1) s4 else s2)"
    unfolding tick_gor_def finishJob_def Let_def using True by (simp only: s4_def s3_def s2_def s1_def fl_def) simp
  have l: "same_lanes s s2" "same_lanes s s4" by (simp_all add: same_lanes_def s4_def s3_def s2_def s1_def ws_prims)
  have "\<not> halting s4" using assms by (simp add: halting_def s4_def s3_def s2_def s1_def ws_prims)
  from finish_next_ends [OF this, of g "g_i (gorh s4 g) + 1"]
  have "same_lanes s (finish_next g (g_i (gorh s4 g) + 1) s4) \<or> (\<exists>u. same_lanes s u \<and> finish_next g (g_i (gorh s4 g) + 1) s4 = endBatch g u)"
    using same_lanes_trans [OF l(2)] by blast
  with l(1) True show ?thesis unfolding e by (cases "j_left (jobh s2 ?j) \<le> 0") simp_all
qed (simp add: tick_gor_def)

lemma endBatch_lanes:
  "queue (endBatch g s) = queue s" "parked (endBatch g s) = parked s" "nextJob (endBatch g s) = nextJob s"
  "minIdle (endBatch g s) = minIdle s" "expiry (endBatch g s) = expiry s" "now (endBatch g s) = now s"
  "expiryClock (endBatch g s) = expiryClock s" "ran (idleSince (endBatch g s)) \<subseteq> insert (now s) (ran (idleSince s))"
  "(gors (endBatch g s) = gors s \<and> pool (endBatch g s) = pool s @ [g]
      \<and> (length (pool s) < length (queue s) + length (parked s) \<or> 0 < expiry s \<or> int (length (pool s)) < minIdle s))
    \<or> (gors (endBatch g s) = filter (\<lambda>x. x \<noteq> g) (gors s) \<and> pool (endBatch g s) = filter (\<lambda>x. x \<noteq> g) (pool s) \<and> minIdle s \<le> int (length (pool s)))"
proof -
  define s2 where "s2 = (upd_gor g (\<lambda>x. x\<lparr>g_busy := False, g_batch := [], g_i := 0\<rparr>) s)\<lparr>idleSince := (idleSince s)(g \<mapsto> now s)\<rparr>"
  define keep where "keep \<longleftrightarrow> length (pool s) < length (queue s) + length (parked s) \<or> 0 < expiry s \<or> int (length (pool s)) < minIdle s"
  define s3 where "s3 = (if keep then s2\<lparr>pool := pool s2 @ [g]\<rparr> else exit_gor g s2)"
  define s4 where "s4 = s3\<lparr>curProcessing := curProcessing s3 - int (length (g_batch (gorh s g)))\<rparr>"
  have l: "same_lanes s (s2\<lparr>idleSince := idleSince s\<rparr>)" by (simp add: same_lanes_def s2_def upd_gor_def)
  have ra: "ran (m(g := None)) \<subseteq> ran m" "ran (m(g \<mapsto> x)) \<subseteq> insert x (ran m)" for m :: "nat \<Rightarrow> rat option" and x
    by (auto simp: ran_def)
  have k: "(length (pool s2) < length (queue s2) + length (parked s2) \<or> 0 < expiry s2 \<or> int (length (pool s2)) < minIdle s2) = keep"
    using l by (simp add: same_lanes_def minIdle_def keep_def)
  have u: "(upd_gor g f s)\<lparr>idleSince := (idleSince (upd_gor g f s))(g \<mapsto> now (upd_gor g f s))\<rparr> = (upd_gor g f s)\<lparr>idleSince := (idleSince s)(g \<mapsto> now s)\<rparr>" for f
    by (simp add: upd_gor_def)
  have "endBatch g s = (if curProcessing s4 = 0 then (if status s4 = Running then setStatus Idle s4
    else if status s4 = Pausing then setStatus Paused s4 else s4) else s4)"
    unfolding endBatch_def Let_def u s2_def [symmetric] k s3_def [symmetric] s4_def [symmetric] by (rule refl)
  moreover have "same_lanes x (setStatus st x)" for x st by (simp add: same_lanes_def setStatus_eq)
  ultimately have e: "same_lanes s4 (endBatch g s)" by auto
  have f: "queue s4 = queue s" "parked s4 = parked s" "nextJob s4 = nextJob s" "minIdle s4 = minIdle s" "expiry s4 = expiry s" "now s4 = now s"
    "expiryClock s4 = expiryClock s" using l by (simp_all add: s4_def s3_def same_lanes_def minIdle_def)
  have p: "gors s4 = (if keep then gors s else filter (\<lambda>x. x \<noteq> g) (gors s))" "pool s4 = (if keep then pool s @ [g] else filter (\<lambda>x. x \<noteq> g) (pool s))"
    using l by (simp_all add: s4_def s3_def same_lanes_def)
  show "queue (endBatch g s) = queue s" "parked (endBatch g s) = parked s" "nextJob (endBatch g s) = nextJob s"
    "minIdle (endBatch g s) = minIdle s" "expiry (endBatch g s) = expiry s" "now (endBatch g s) = now s"
    "expiryClock (endBatch g s) = expiryClock s" using e f by (simp_all add: same_lanes_def minIdle_def)
  have "idleSince s4 = (idleSince s)(g \<mapsto> now s) \<or> idleSince s4 = ((idleSince s)(g \<mapsto> now s))(g := None)"
    by (simp add: s4_def s3_def s2_def exit_gor_def emit_def)
  then have "ran (idleSince s4) \<subseteq> insert (now s) (ran (idleSince s))"
    using ra(1) [of "(idleSince s)(g \<mapsto> now s)"] ra(2) [of "idleSince s" "now s"] by (metis subset_trans)
  then show "ran (idleSince (endBatch g s)) \<subseteq> insert (now s) (ran (idleSince s))" using e by (simp add: same_lanes_def)
  show "(gors (endBatch g s) = gors s \<and> pool (endBatch g s) = pool s @ [g]
      \<and> (length (pool s) < length (queue s) + length (parked s) \<or> 0 < expiry s \<or> int (length (pool s)) < minIdle s))
    \<or> (gors (endBatch g s) = filter (\<lambda>x. x \<noteq> g) (gors s) \<and> pool (endBatch g s) = filter (\<lambda>x. x \<noteq> g) (pool s) \<and> minIdle s \<le> int (length (pool s)))"
  proof (cases keep)
    case True
    moreover from this have "gors (endBatch g s) = gors s" "pool (endBatch g s) = pool s @ [g]" using e p by (simp_all add: same_lanes_def)
    ultimately show ?thesis unfolding keep_def by blast
  next
    case False
    moreover from this have "gors (endBatch g s) = filter (\<lambda>x. x \<noteq> g) (gors s)" "pool (endBatch g s) = filter (\<lambda>x. x \<noteq> g) (pool s)"
      using e p by (simp_all add: same_lanes_def)
    moreover have "minIdle s \<le> int (length (pool s))" using False unfolding keep_def by linarith
    ultimately show ?thesis by blast
  qed
qed

text \<open>The pool's floor: the goroutines are at least the minimum. Its ceiling: without a timer and with no job waiting, the pool is at most that.\<close>

definition pool_floor :: "WorkerSim \<Rightarrow> bool" where
  "pool_floor s \<longleftrightarrow> minIdle s \<le> int (length (gors s))"

definition pool_ceiling :: "WorkerSim \<Rightarrow> bool" where
  "pool_ceiling s \<longleftrightarrow> (expiry s \<le> 0 \<longrightarrow> int (length (pool s)) \<le> minIdle s)"

lemma pool_within: "ws_inv None B off s \<Longrightarrow> length (gors s) = length (pool s) + busy s"
proof -
  assume i: "ws_inv None B off s"
  let ?P = "\<lambda>g. g_busy (gorh s g)"
  have p: "distinct (pool s)" "set (pool s) = {g \<in> set (gors s). \<not> ?P g}" "distinct (gors s)" using i by (auto simp: ws_inv_unfold)
  then have "length (pool s) = length (filter (\<lambda>g. \<not> ?P g) (gors s))" by (metis distinct_card distinct_filter set_filter)
  then show ?thesis using sum_length_filter_compl [of ?P "gors s"] by (simp add: busy_def)
qed

text \<open>No goroutine is idle since a later time than now, and the timer counts up from zero.\<close>

definition clock_ok :: "WorkerSim \<Rightarrow> bool" where
  "clock_ok s \<longleftrightarrow> 0 \<le> expiryClock s \<and> (\<forall>t \<in> ran (idleSince s). t \<le> now s)"

definition keeps_lanes :: "WorkerSim \<Rightarrow> WorkerSim \<Rightarrow> bool" where
  "keeps_lanes s t \<longleftrightarrow> queue t = queue s \<and> parked t = parked s \<and> nextJob t = nextJob s \<and> minIdle t = minIdle s \<and> expiry t = expiry s
     \<and> (clock_ok s \<longrightarrow> clock_ok t) \<and> (pool_floor s \<longrightarrow> pool_floor t) \<and> (queue s = [] \<longrightarrow> parked s = [] \<longrightarrow> pool_ceiling s \<longrightarrow> pool_ceiling t)"

lemma keeps_lanes_trans: "keeps_lanes s t \<Longrightarrow> keeps_lanes t u \<Longrightarrow> keeps_lanes s u"
  by (simp add: keeps_lanes_def)

lemma same_keeps_lanes: "same_lanes s t \<Longrightarrow> keeps_lanes s t"
  by (simp add: same_lanes_def keeps_lanes_def pool_floor_def pool_ceiling_def minIdle_def clock_ok_def)

lemma tick_lanes:
  assumes "ws_inv None [] 0 s" "g \<in> set (gors s) \<or> \<not> g_busy (gorh s g)" "isActive s"
  shows "keeps_lanes s (tick_gor dt g s)"
proof -
  have "\<not> halting s" using assms(3) by (auto simp: isActive_def halting_def)
  from tick_ends [OF this] consider "same_lanes s (tick_gor dt g s)"
    | u where "g_busy (gorh s g)" "same_lanes s u" "tick_gor dt g s = endBatch g u" by blast
  then show ?thesis
  proof cases
    case 1
    then show ?thesis by (rule same_keeps_lanes)
  next
    case 2
    have g: "g \<notin> set (pool s)" "distinct (pool s)" "set (pool s) \<subseteq> set (gors s)"
      using assms(1) 2(1) by (auto simp: ws_inv_unfold)
    have u: "minIdle u = minIdle s" "queue u = queue s" "parked u = parked s" "nextJob u = nextJob s" "expiry u = expiry s"
      "gors u = gors s" "pool u = pool s" "now u = now s" "idleSince u = idleSince s" "expiryClock u = expiryClock s" using 2(2) by (simp_all add: same_lanes_def minIdle_def)
    have "length (pool s) \<le> length (filter (\<lambda>x. x \<noteq> g) (gors s))"
    proof -
      have "card (set (pool s)) \<le> card (set (filter (\<lambda>x. x \<noteq> g) (gors s)))" using g by (intro card_mono) auto
      also have "\<dots> \<le> length (filter (\<lambda>x. x \<noteq> g) (gors s))" by (rule card_length)
      finally show ?thesis using g(2) by (simp add: distinct_card)
    qed
    moreover have "filter (\<lambda>x. x \<noteq> g) (pool s) = pool s" using g(1) by (rule filter_ne)
    moreover have "clock_ok (endBatch g u)" if "clock_ok s" using that endBatch_lanes(6-8) [of g u] u by (auto simp: clock_ok_def)
    ultimately show ?thesis using endBatch_lanes(1-5,9) [of g u] u by (auto simp: 2(3) keeps_lanes_def pool_floor_def pool_ceiling_def)
  qed
qed

section \<open>A step\<close>

lemma fold_tick_lanes:
  assumes "ws_inv None [] 0 s" "distinct gs" "set gs \<subseteq> set (gors s)" "isActive s"
  shows "keeps_lanes s (fold (tick_gor dt) gs s)"
  using assms
proof (induction gs arbitrary: s)
  case (Cons g gs)
  let ?t = "tick_gor dt g s"
  have k: "keeps_others g s ?t" by (rule keeps_tick)
  have "set gs \<subseteq> set (gors ?t)" using Cons.prems(2,3) k by (auto simp: keeps_others_def)
  moreover have "ws_inv None [] 0 ?t" using Cons.prems by (auto intro!: tick_inv)
  moreover have "isActive ?t" using st_step_tick [of s dt g] Cons.prems(4) by (auto simp: st_step_def isActive_def)
  ultimately have "keeps_lanes ?t (fold (tick_gor dt) gs ?t)" using Cons.IH [of ?t] Cons.prems(2) by simp
  moreover have "keeps_lanes s ?t" using Cons.prems by (intro tick_lanes) auto
  ultimately show ?case using keeps_lanes_trans by simp
qed (simp add: same_keeps_lanes)

lemma after_ticks_lanes:
  assumes "ws_good s" "isActive s" "ctx s = None" "0 < dt"
  shows "keeps_lanes s (after_ticks dt s)"
proof -
  note i = ws_goodD [OF assms(1)]
  let ?s1 = "s\<lparr>now := now s + dt\<rparr>"
  have e: "after_ticks dt s = fold (tick_gor dt) (gors ?s1) ?s1" using assms(3) by (simp add: after_ticks_def notice_done_def)
  have "distinct (gors ?s1)" using i(1) by (simp add: ws_inv_unfold)
  then have "keeps_lanes ?s1 (after_ticks dt s)" unfolding e using i(1) assms(2) by (intro fold_tick_lanes) (simp_all add: isActive_def)
  moreover have "keeps_lanes s ?s1"
    using assms(4) by (auto simp: keeps_lanes_def clock_ok_def pool_floor_def pool_ceiling_def minIdle_def)
  ultimately show ?thesis using keeps_lanes_trans by blast
qed

lemma fold_expire_clock:
  "fold (expire_one target) ps (s, keep, len) = (t, keep', len') \<Longrightarrow> expiryClock t = expiryClock s \<and> now t = now s \<and> ran (idleSince t) \<subseteq> ran (idleSince s)"
proof (induction ps arbitrary: s keep len)
  case (Cons g ps)
  have r: "ran (m(g := None)) \<subseteq> ran m" for m :: "nat \<Rightarrow> rat option" by (auto simp: ran_def)
  obtain s1 keep1 len1 where e: "expire_one target g (s, keep, len) = (s1, keep1, len1)" by (metis prod.exhaust)
  have "s1 = s \<or> s1 = exit_gor g s" using e by (auto simp: expire_one_def Let_def split: if_splits)
  then have "expiryClock s1 = expiryClock s \<and> now s1 = now s \<and> ran (idleSince s1) \<subseteq> ran (idleSince s)"
    using r [of "idleSince s"] by (auto simp: exit_gor_def emit_def)
  moreover have "fold (expire_one target) ps (s1, keep1, len1) = (t, keep', len')" using Cons.prems e by simp
  ultimately show ?case using Cons.IH [of s1 keep1 len1] by auto
qed simp

lemma expire_clock:
  "now (ws_expire dt s) = now s" "ran (idleSince (ws_expire dt s)) \<subseteq> ran (idleSince s)"
  "expiryClock (ws_expire dt s) = (if expiryClock s + dt < expiry s then expiryClock s + dt else 0)"
proof -
  define s2 where "s2 = s\<lparr>expiryClock := 0\<rparr>"
  obtain s3 keep len where f: "fold (expire_one (minIdle s2)) (pool s2) (s2, [], int (length (pool s2))) = (s3, keep, len)" by (metis prod.exhaust)
  have e: "ws_expire dt s = (if expiryClock s + dt < expiry s then s\<lparr>expiryClock := expiryClock s + dt\<rparr>
    else if int (length (pool s2)) \<le> minIdle s2 then s2 else s3\<lparr>pool := keep\<rparr>)"
    using f by (simp add: ws_expire_def Let_def s2_def)
  note c = fold_expire_clock [OF f]
  show "now (ws_expire dt s) = now s" "ran (idleSince (ws_expire dt s)) \<subseteq> ran (idleSince s)"
    "expiryClock (ws_expire dt s) = (if expiryClock s + dt < expiry s then expiryClock s + dt else 0)"
    using c unfolding e by (simp_all add: s2_def)
qed

lemma expire_lanes:
  assumes "ws_inv None [] 0 s" "0 < expiry s" "0 < dt"
  shows "keeps_lanes s (ws_expire dt s)"
proof -
  let ?t = "ws_expire dt s"
  note e = expire_inv [OF assms(1), of dt]
  have o: "only_exits s ?t" "ws_inv None [] 0 ?t" "min (int (length (pool s))) (minIdle s) \<le> int (length (pool ?t))" using e by blast+
  have m: "minIdle ?t = minIdle s" using o(1) by (simp add: only_exits_def minIdle_def)
  have "pool_floor ?t" if "pool_floor s"
    using that pool_within [OF assms(1)] pool_within [OF o(2)] o m by (simp add: pool_floor_def only_exits_def)
  moreover have "clock_ok ?t" if "clock_ok s" using that expire_clock [of dt s] assms(3) by (auto simp: clock_ok_def)
  ultimately show ?thesis using o(1) m assms(2) by (simp add: keeps_lanes_def pool_ceiling_def only_exits_def)
qed

lemma expiry_lanes:
  assumes "ws_inv None [] 0 s" "0 < dt"
  shows "keeps_lanes s (after_expiry dt s)"
  using expire_lanes [OF assms(1) _ assms(2)] same_keeps_lanes [of s s] by (simp add: after_expiry_def)

lemma hand_off_pct: "minIdlePct (fst (hand_off s)) = minIdlePct s"
proof -
  obtain g s1 where g: "take_gor s = (g, s1)" by (metis prod.exhaust)
  obtain buf s2 where b: "take_jobs (hand_k s) s1 = (buf, s2)" by (metis prod.exhaust)
  have "minIdlePct s1 = minIdlePct s" using g by (auto simp: take_gor_def spawn_def Let_def emit_def split: if_splits)
  moreover have "minIdlePct s2 = minIdlePct s1" using b by (auto simp: take_jobs_def Let_def split: prod.splits)
  ultimately show ?thesis by (simp add: hand_off_def g b give_batch_def begin_job_def Let_def ws_prims)
qed

text \<open>\<open>dispatch\<close> takes the queue from its front, and nothing from an empty park.\<close>

lemma dispatch_queue:
  "ws_inv None [] 0 s \<Longrightarrow> minIdlePct (ws_dispatch s) = minIdlePct s
    \<and> (parked s = [] \<longrightarrow> parked (ws_dispatch s) = [] \<and> (\<exists>n. queue (ws_dispatch s) = drop n (queue s)))"
proof (induction s rule: ws_dispatch.induct)
  case (1 s)
  show ?case
  proof (cases "ws_ready s")
    case True
    obtain s' where h: "hand_off s = (s', True)" "ws_inv None [] 0 s'" "parked s' = drop (hand_k s) (parked s)"
      "queue s' = drop (hand_k s - length (parked s)) (queue s)" using hand_off_inv [OF 1(2) True] by metis
    have p: "minIdlePct s' = minIdlePct s" using hand_off_pct [of s] h(1) by simp
    have d: "ws_dispatch s = ws_dispatch s'" using True h(1) by (subst ws_dispatch.simps) simp
    from 1(1) [OF True h(1) [symmetric] refl _ h(2)] h(3,4) p show ?thesis unfolding d by (auto simp: drop_drop)
  next
    case False
    then have "ws_dispatch s = s" by (subst ws_dispatch.simps) simp
    then show ?thesis by (auto intro: exI [of _ 0])
  qed
qed

lemma dispatch_rests: "queue s = [] \<Longrightarrow> parked s = [] \<Longrightarrow> ws_dispatch s = s"
  by (subst ws_dispatch.simps) (simp add: ws_ready_def)

lemma step_lanes:
  assumes "ws_good s" "isActive s" "ctx s = None" "0 < dt"
  shows "nextJob (ws_step dt s) = nextJob s" "minIdle (ws_step dt s) = minIdle s" "expiry (ws_step dt s) = expiry s"
    "parked s = [] \<Longrightarrow> parked (ws_step dt s) = [] \<and> (\<exists>n. queue (ws_step dt s) = drop n (queue s))"
    "queue s = [] \<Longrightarrow> parked s = [] \<Longrightarrow> keeps_lanes s (ws_step dt s)"
proof -
  let ?t = "after_ticks dt s" and ?u = "after_expiry dt (after_ticks dt s)"
  note a = after_ticks_facts [OF assms(1,4)]
  have u: "finish_stop ?t = ?t" by (rule finish_stop_skip) (use a(8) [OF assms(3,2)] in \<open>auto simp: isActive_def\<close>)
  note e = after_expiry_facts [OF a(1,2), of dt]
  have k: "keeps_lanes s ?u" by (rule keeps_lanes_trans [OF after_ticks_lanes [OF assms] expiry_lanes [OF a(1) assms(4)]])
  have st: "ws_step dt s = ws_dispatch ?u" unfolding step_parts u by (rule refl)
  note d = dispatch_inv [OF e(1,2)] dispatch_queue [OF e(1)]
  show "nextJob (ws_step dt s) = nextJob s" "minIdle (ws_step dt s) = minIdle s" "expiry (ws_step dt s) = expiry s"
    unfolding st using d k by (simp_all add: keeps_lanes_def minIdle_def)
  show "parked (ws_step dt s) = [] \<and> (\<exists>n. queue (ws_step dt s) = drop n (queue s))" if "parked s = []"
    unfolding st using d k that by (simp add: keeps_lanes_def)
  show "keeps_lanes s (ws_step dt s)" if "queue s = []" "parked s = []"
    unfolding st using k that dispatch_rests [of ?u] by (simp add: keeps_lanes_def)
qed

lemma step_now:
  assumes "ws_good s" "isActive s" "ctx s = None" "0 < dt"
  shows "now (ws_step dt s) = now s + dt"
proof -
  let ?t = "after_ticks dt s" and ?s1 = "s\<lparr>now := now s + dt\<rparr>"
  note i = ws_goodD [OF assms(1)] and a = after_ticks_facts [OF assms(1,4)]
  have u: "finish_stop ?t = ?t" by (rule finish_stop_skip) (use a(8) [OF assms(3,2)] in \<open>auto simp: isActive_def\<close>)
  have e: "?t = fold (tick_gor dt) (gors ?s1) ?s1" using assms(3) by (simp add: after_ticks_def notice_done_def)
  have "distinct (gors ?s1)" using i(1) by (simp add: ws_inv_unfold)
  moreover have "st_inv ?s1" "ws_inv None [] 0 ?s1" using i by (simp_all add: st_inv_def)
  ultimately have "now ?t = now s + dt" using fold_tick [of ?s1 "gors ?s1" dt] by (simp add: e same_cfg_def)
  then show ?thesis unfolding step_parts u using after_expiry_facts(3) [OF a(1,2), of dt] by (simp add: only_exits_def)
qed

section \<open>Adding a job\<close>

text \<open>\<open>add\<close> is a \<open>dispatch\<close> of the worker with the new job at the end of its queue.\<close>

lemma add_parts:
  assumes "ws_good s"
  obtains u job where "fst (ws_add opts s) = ws_dispatch u" "ws_inv None [] 0 u" "st_inv u" "queue u = queue s @ [nextJob s]"
    "same_lanes s (u\<lparr>queue := queue s, nextJob := nextJob s\<rparr>)" "nextJob u = Suc (nextJob s)" "status u = status s" "ctx u = ctx s"
    "gorh u = gorh s" "now u = now s" "idleSince u = idleSince s" "expiryClock u = expiryClock s"
    "jobh u = (jobh s)(nextJob s := job)" "j_left job = (case o_dur opts of Some d \<Rightarrow> d | None \<Rightarrow> 2400)"
proof -
  note i = ws_goodD [OF assms]
  let ?d = "case o_dur opts of Some d \<Rightarrow> d | None \<Rightarrow> 2400"
  define job where "job = \<lparr>j_id = nextJob s, j_dur = ?d, j_left = ?d, j_state = JQueued, j_at = InQueue, j_fail = o_fail opts,
    j_watch = o_watch opts, j_early = False, j_stale = False, j_slot = None, j_added = now s, j_started = None, j_ended = None\<rparr>"
  define u where "u = emit (EAdd (nextJob s)) (s\<lparr>nextJob := nextJob s + 1, jobh := (jobh s)(nextJob s := job), queue := queue s @ [nextJob s],
    metrics := (metrics s)\<lparr>submitted := submitted (metrics s) + 1\<rparr>\<rparr>)"
  show thesis
  proof (rule that [of u job])
    show "fst (ws_add opts s) = ws_dispatch u" by (simp add: ws_add_def Let_def u_def job_def)
    show "ws_inv None [] 0 u" by (rule new_job_inv [OF i(1) refl, of job]) (simp_all add: u_def job_def emit_def)
    show "st_inv u" using i(2) by (simp add: u_def st_inv_def emit_def)
  qed (simp_all add: u_def job_def emit_def same_lanes_def)
qed

section \<open>The queue is a run of job numbers\<close>

definition queue_run :: "WorkerSim \<Rightarrow> bool" where
  "queue_run s \<longleftrightarrow> (\<exists>k. k \<le> nextJob s \<and> queue s = [k..<nextJob s])"

definition active_ok :: "WorkerSim \<Rightarrow> bool" where
  "active_ok s \<longleftrightarrow> ws_reach s \<and> isActive s \<and> ctx s = None \<and> parked s = [] \<and> queue_run s"

lemma active_good: "active_ok s \<Longrightarrow> ws_good s"
  by (simp add: active_ok_def reach_good)

lemma queue_run_drop:
  assumes "queue_run s" "queue t = drop n (queue s)" "nextJob t = nextJob s"
  shows "queue_run t"
proof -
  obtain k where "k \<le> nextJob s" "queue s = [k..<nextJob s]" using assms(1) by (auto simp: queue_run_def)
  then show ?thesis using assms(2,3) by (cases "k + n \<le> nextJob s") (auto simp: queue_run_def)
qed

lemma active_step:
  assumes "active_ok s" "0 < dt" "dt \<le> STEP"
  shows "active_ok (ws_step dt s)"
proof -
  have a: "ws_good s" "isActive s" "ctx s = None" "parked s = []" "queue_run s" using assms(1) active_good by (simp_all add: active_ok_def)
  note l = step_lanes [OF a(1-3) assms(2)] step_active [OF a(1-3) assms(2)]
  obtain n where "queue (ws_step dt s) = drop n (queue s)" using l(4) a(4) by blast
  then have "queue_run (ws_step dt s)" using queue_run_drop [OF a(5)] l(1) by blast
  moreover have "ws_reach (ws_step dt s)"
    using ws_reach_call [of s "CAdvance dt"] advance_one [OF assms(2,3)] assms(1) by (simp add: active_ok_def)
  ultimately show ?thesis using l a(4) by (simp add: active_ok_def)
qed

lemma active_dispatch:
  assumes "ws_inv None [] 0 u" "st_inv u" "isActive u" "parked u = []" "queue_run u"
  shows "isActive (ws_dispatch u)" "parked (ws_dispatch u) = []" "queue_run (ws_dispatch u)"
proof -
  note d = dispatch_inv [OF assms(1,2)] dispatch_queue [OF assms(1)] status_dispatch [OF assms(1,2)]
  show "isActive (ws_dispatch u)" "parked (ws_dispatch u) = []" using d assms(3,4) by simp_all
  obtain n where "queue (ws_dispatch u) = drop n (queue u)" using d assms(4) by blast
  then show "queue_run (ws_dispatch u)" using queue_run_drop [OF assms(5)] d by blast
qed

lemma active_add:
  assumes "active_ok s"
  shows "active_ok (fst (ws_add opts s))" "now (fst (ws_add opts s)) = now s" "limit (fst (ws_add opts s)) = limit s"
proof -
  obtain u job where u: "fst (ws_add opts s) = ws_dispatch u" "ws_inv None [] 0 u" "st_inv u" "queue u = queue s @ [nextJob s]"
    "same_lanes s (u\<lparr>queue := queue s, nextJob := nextJob s\<rparr>)" "nextJob u = Suc (nextJob s)" "status u = status s" "ctx u = ctx s" "now u = now s"
    using add_parts [OF active_good [OF assms], of opts] by metis
  have f: "isActive u" "parked u = []" "ctx u = None" "limit u = limit s"
    using u(5,7,8) assms by (simp_all add: active_ok_def isActive_def same_lanes_def)
  obtain k where "k \<le> nextJob s" "queue s = [k..<nextJob s]" using assms by (auto simp: active_ok_def queue_run_def)
  then have "queue_run u" using u(4,6) by (auto simp: queue_run_def intro!: exI [of _ k])
  note a = active_dispatch [OF u(2,3) f(1,2) this] and d = dispatch_inv [OF u(2,3)]
  have "ws_reach (ws_dispatch u)" using ws_reach_call [of s "CAdd opts"] assms u(1) by (simp add: active_ok_def)
  then show "active_ok (fst (ws_add opts s))" "now (fst (ws_add opts s)) = now s" "limit (fst (ws_add opts s)) = limit s"
    unfolding u(1) using a d f u(9) by (simp_all add: active_ok_def)
qed

lemma active_add_setup:
  assumes "active_ok s"
  shows "minIdlePct (fst (ws_add opts s)) = minIdlePct s" "expiry (fst (ws_add opts s)) = expiry s"
proof -
  obtain u job where u: "fst (ws_add opts s) = ws_dispatch u" "ws_inv None [] 0 u" "st_inv u" "same_lanes s (u\<lparr>queue := queue s, nextJob := nextJob s\<rparr>)"
    using add_parts [OF active_good [OF assms], of opts] by metis
  then show "minIdlePct (fst (ws_add opts s)) = minIdlePct s" "expiry (fst (ws_add opts s)) = expiry s"
    using dispatch_inv [OF u(2,3)] dispatch_queue [OF u(2)] by (simp_all add: same_lanes_def)
qed

text \<open>What every step keeps, the clock keeps.\<close>

lemma advance_keeps:
  assumes "\<And>s dt. Q s \<Longrightarrow> 0 < dt \<Longrightarrow> dt \<le> STEP \<Longrightarrow> Q (ws_step dt s)" "Q s"
  shows "Q (ws_advance ms s)"
  using assms(2)
proof (induction ms s rule: ws_advance.induct)
  case (1 left s)
  show ?case
  proof (cases "0 < left")
    case True
    have "Q (ws_step (min left STEP) s)" by (rule assms(1) [OF 1(2)]) (use True STEP_pos in simp_all)
    with 1(1) [OF True refl] True show ?thesis by (subst ws_advance.simps) (simp add: Let_def)
  next
    case False
    with 1(2) show ?thesis by (subst ws_advance.simps) simp
  qed
qed

lemma active_tune:
  assumes "active_ok s"
  shows "active_ok (fst (ws_tunePool n s))" "now (fst (ws_tunePool n s)) = now s" "limit (fst (ws_tunePool n s)) = n"
proof -
  note i = ws_goodD [OF active_good [OF assms]]
  let ?s1 = "s\<lparr>limit := n\<rparr>"
  have s1: "ws_inv None [] 0 ?s1" "st_inv ?s1" "isActive ?s1" "parked ?s1 = []" "queue_run ?s1" "ctx ?s1 = None"
    using i assms by (simp_all add: st_inv_def active_ok_def isActive_def queue_run_def)
  have r: "ws_reach (fst (ws_tunePool n s))" using ws_reach_call [of s "CTune n"] assms by (simp add: active_ok_def)
  note d = active_dispatch [OF s1(1-5)] and di = dispatch_inv [OF s1(1,2)]
  have x: "only_exits ?s1 (shrink_pool k mn ?s1)" for k mn using shrink_inv [OF s1(1)] by blast
  have xs: "isActive (shrink_pool k mn ?s1) \<and> parked (shrink_pool k mn ?s1) = [] \<and> queue_run (shrink_pool k mn ?s1) \<and> ctx (shrink_pool k mn ?s1) = None
    \<and> now (shrink_pool k mn ?s1) = now s \<and> limit (shrink_pool k mn ?s1) = n" for k mn
    using x [of k mn] s1 by (simp add: only_exits_def isActive_def queue_run_def)
  have "fst (ws_tunePool n s) = (if limit s = n then s else if limit s < n then ws_dispatch ?s1 else if expiry s \<noteq> 0 then ?s1
    else shrink_pool (nat (limit s - n)) (minIdle ?s1) ?s1)" using assms by (simp add: ws_tunePool_def Let_def active_ok_def)
  then consider "limit s = n" "fst (ws_tunePool n s) = s" | "fst (ws_tunePool n s) = ws_dispatch ?s1" | "fst (ws_tunePool n s) = ?s1"
    | k mn where "fst (ws_tunePool n s) = shrink_pool k mn ?s1" by metis
  then show "active_ok (fst (ws_tunePool n s))" "now (fst (ws_tunePool n s)) = now s" "limit (fst (ws_tunePool n s)) = n"
    using r s1 d di xs assms by (cases; simp add: active_ok_def)+
qed

text \<open>A new worker runs, with one idle goroutine and no job.\<close>

lemma new_active:
  "active_ok (WorkerSim_new (Some n) True)" "limit (WorkerSim_new (Some n) True) = n" "now (WorkerSim_new (Some n) True) = 0"
  "expiry (WorkerSim_new (Some n) True) = 0" "minIdlePct (WorkerSim_new (Some n) True) = 0" "queue (WorkerSim_new (Some n) True) = []"
  "nextJob (WorkerSim_new (Some n) True) = 1" "length (pool (WorkerSim_new (Some n) True)) = 1" "length (gors (WorkerSim_new (Some n) True)) = 1"
  "status (WorkerSim_new (Some n) True) = Idle" "expiryClock (WorkerSim_new (Some n) True) = 0"
proof -
  let ?s = "WorkerSim_new (Some n) True"
  have f: "limit ?s = n \<and> now ?s = 0 \<and> expiry ?s = 0 \<and> minIdlePct ?s = 0 \<and> queue ?s = [] \<and> nextJob ?s = 1 \<and> length (pool ?s) = 1 \<and> length (gors ?s) = 1
    \<and> status ?s = Idle \<and> ctx ?s = None \<and> parked ?s = [] \<and> expiryClock ?s = 0"
    by (simp add: WorkerSim_new_def Let_def ws_start_def isActive_def spawn_def emit_def setStatus_eq dispatch_rests)
  then show "limit ?s = n" "now ?s = 0" "expiry ?s = 0" "minIdlePct ?s = 0" "queue ?s = []" "nextJob ?s = 1" "length (pool ?s) = 1"
    "length (gors ?s) = 1" "status ?s = Idle" "expiryClock ?s = 0" by simp_all
  show "active_ok ?s" using f by (auto simp: active_ok_def ws_reach_new isActive_def queue_run_def)
qed

section \<open>A burst: a job for each free goroutine\<close>

lemma give_batch_lanes: "same_lanes s (give_batch g buf s)"
  by (simp add: same_lanes_def give_batch_def begin_job_def Let_def ws_prims)

lemma hand_off_lanes:
  assumes "ws_inv None [] 0 s" "ws_ready s"
  shows "length (pool (fst (hand_off s))) = length (pool s) - 1" "now (fst (hand_off s)) = now s"
    "clock_ok s \<Longrightarrow> clock_ok (fst (hand_off s))"
proof -
  obtain g s1 where g: "take_gor s = (g, s1)" by (metis prod.exhaust)
  obtain buf s2 where b: "take_jobs (hand_k s) s1 = (buf, s2)" by (metis prod.exhaust)
  have "snd (hand_off s)" using hand_off_inv [OF assms] by (metis snd_conv)
  then have ne: "buf \<noteq> []" by (simp add: hand_off_def g b split: if_splits)
  have e: "fst (hand_off s) = give_batch g buf s2" using ne by (simp add: hand_off_def g b)
  have l: "same_lanes (s2\<lparr>queue := queue s1, parked := parked s1\<rparr>) s1" using b by (auto simp: take_jobs_def Let_def same_lanes_def split: prod.splits)
  have t: "length (pool s1) = length (pool s) - 1 \<and> now s1 = now s \<and> expiryClock s1 = expiryClock s \<and> ran (idleSince s1) \<subseteq> insert (now s) (ran (idleSince s))"
    using g by (auto simp: take_gor_def spawn_def Let_def emit_def ran_def split: if_splits)
  have f: "pool (fst (hand_off s)) = pool s1" "now (fst (hand_off s)) = now s1" "expiryClock (fst (hand_off s)) = expiryClock s1"
    "idleSince (fst (hand_off s)) = idleSince s1"
    using give_batch_lanes [of s2 g buf] l by (simp_all add: e same_lanes_def)
  show "length (pool (fst (hand_off s))) = length (pool s) - 1" "now (fst (hand_off s)) = now s" using t f by simp_all
  show "clock_ok (fst (hand_off s))" if "clock_ok s" using that t f by (auto simp: clock_ok_def)
qed

text \<open>With a goroutine to spare and no job waiting, a new job starts at once.\<close>

lemma add_starts:
  fixes opts :: AddOpts
  assumes "active_ok s" "queue s = []" "int (busy s) < limit s" "limit s \<noteq> 1"
  defines "t \<equiv> fst (ws_add opts s)"
  shows "queue t = []" "busy t = Suc (busy s)" "length (pool t) = length (pool s) - 1" "minIdlePct t = minIdlePct s" "expiry t = expiry s"
    "clock_ok s \<Longrightarrow> clock_ok t" "pot t \<le> pot s + job_work (case o_dur opts of Some d \<Rightarrow> d | None \<Rightarrow> 2400)"
proof -
  let ?d = "case o_dur opts of Some d \<Rightarrow> d | None \<Rightarrow> 2400"
  note good = active_good [OF assms(1)]
  obtain u job where u: "t = ws_dispatch u" "ws_inv None [] 0 u" "st_inv u" "queue u = queue s @ [nextJob s]"
    "same_lanes s (u\<lparr>queue := queue s, nextJob := nextJob s\<rparr>)" "nextJob u = Suc (nextJob s)" "status u = status s"
    "gorh u = gorh s" "jobh u = (jobh s)(nextJob s := job)" "j_left job = ?d"
    unfolding t_def using add_parts [OF good, of opts] by metis
  have f: "parked u = []" "limit u = limit s" "pool u = pool s" "gors u = gors s" "isActive u" "queue u = [nextJob s]"
    "minIdlePct u = minIdlePct s" "expiry u = expiry s" "busy u = busy s" "clock_ok u = clock_ok s"
    using u(4,5,7,8) assms(1,2) by (simp_all add: same_lanes_def active_ok_def isActive_def busy_def clock_ok_def)
  have r: "ws_ready u" using f assms(3) by (simp add: ws_ready_def)
  have k: "hand_k u = 1" using f(2) assms(4) by (simp add: hand_k_def)
  obtain s' where h: "hand_off u = (s', True)" "busy s' = Suc (busy u)" "parked s' = drop (hand_k u) (parked u)" "expiry s' = expiry u"
    "queue s' = drop (hand_k u - length (parked u)) (queue u)" using hand_off_inv [OF u(2) r] by metis
  have q: "queue s' = []" "parked s' = []" using h f k by simp_all
  have t: "t = s'" using r h(1) dispatch_rests [OF q] by (subst u(1), subst ws_dispatch.simps) simp
  note l = hand_off_lanes [OF u(2) r] hand_off_pct [of u]
  show "queue t = []" "busy t = Suc (busy s)" "length (pool t) = length (pool s) - 1" "minIdlePct t = minIdlePct s" "expiry t = expiry s"
    "clock_ok s \<Longrightarrow> clock_ok t" using q h l f by (simp_all add: t)
  have "open_jobs u \<subseteq> insert (nextJob s) (open_jobs s)" using u(6,9) by (auto simp: open_jobs_def less_Suc_eq)
  then have "pot u \<le> (\<Sum>j \<in> insert (nextJob s) (open_jobs s). job_work (j_left (jobh u j)))" unfolding pot_def by (intro sum_mono2) simp_all
  also have "\<dots> = job_work ?d + (\<Sum>j \<in> open_jobs s. job_work (j_left (jobh u j)))"
    using u(9,10) by (subst sum.insert) (simp_all add: open_jobs_def)
  also have "(\<Sum>j \<in> open_jobs s. job_work (j_left (jobh u j))) = pot s" unfolding pot_def using u(9) by (intro sum.cong) (auto simp: open_jobs_def)
  finally show "pot t \<le> pot s + job_work ?d" using pot_calms [OF calms_dispatch [OF u(2)]] u(1) by simp
qed

section \<open>A worker at rest\<close>

definition ws_rest :: "WorkerSim \<Rightarrow> bool" where
  "ws_rest s \<longleftrightarrow> active_ok s \<and> queue s = [] \<and> busy s = 0"

lemma rest_step:
  assumes "ws_rest s" "0 < dt"
  shows "ws_step dt s = after_expiry dt (s\<lparr>now := now s + dt\<rparr>)"
proof -
  let ?s1 = "s\<lparr>now := now s + dt\<rparr>"
  have s: "ctx s = None" "isActive s" "parked s = []" "queue s = []" "ws_good s" "busy s = 0" using assms(1) active_good by (auto simp: ws_rest_def active_ok_def)
  have nb: "\<not> g_busy (gorh s g)" if "g \<in> set (gors s)" for g using s(6) that by (auto simp: busy_def filter_empty_conv)
  have "fold (tick_gor dt) gs ?s1 = ?s1" if "set gs \<subseteq> set (gors s)" for gs using that nb by (induction gs) (auto simp: tick_gor_def)
  then have t: "after_ticks dt s = ?s1" using s(1) by (simp add: after_ticks_def notice_done_def)
  have "finish_stop ?s1 = ?s1" by (rule finish_stop_skip) (use s(2) in \<open>auto simp: isActive_def\<close>)
  moreover have "only_exits ?s1 (after_expiry dt ?s1)"
    using expire_inv [of ?s1 dt] ws_goodD(1) [OF s(5)] by (simp add: after_expiry_def)
  then have "ws_dispatch (after_expiry dt ?s1) = after_expiry dt ?s1" using s(3,4) by (intro dispatch_rests) (simp_all add: only_exits_def)
  ultimately show ?thesis unfolding step_parts t by simp
qed

lemma rest_steps:
  assumes "ws_rest s" "0 < dt" "dt \<le> STEP"
  shows "ws_rest (ws_step dt s)"
proof -
  let ?s1 = "s\<lparr>now := now s + dt\<rparr>"
  have s: "ws_good s" "active_ok s" "isActive s" "ctx s = None" "parked s = []" "queue s = []" "busy s = 0"
    using assms(1) active_good by (auto simp: ws_rest_def active_ok_def)
  have "only_exits ?s1 (after_expiry dt ?s1)" using expire_inv [of ?s1 dt] ws_goodD(1) [OF s(1)] by (simp add: after_expiry_def)
  then have "busy (after_expiry dt ?s1) = busy ?s1" by (simp add: only_exits_def)
  then have "busy (ws_step dt s) = 0" using s(7) by (simp add: rest_step [OF assms(1,2)]) (simp add: busy_def)
  moreover have "queue (ws_step dt s) = []" using step_lanes(4) [OF s(1,3,4) assms(2) s(5)] s(6) by simp
  ultimately show ?thesis using active_step [OF s(2) assms(2,3)] by (simp add: ws_rest_def)
qed

text \<open>A sweep that finds every goroutine of the pool idle for longer than the expiry leaves exactly the minimum.\<close>

definition ripe :: "WorkerSim \<Rightarrow> bool" where
  "ripe s \<longleftrightarrow> (\<forall>t \<in> ran (idleSince s). t + expiry s < now s)"

lemma fold_expire_ripe:
  assumes "\<forall>g \<in> set ps. \<exists>t. idleSince s g = Some t \<and> t + expiry s < now s" "distinct ps" "len = int (length keep + length ps)"
    "target \<le> len" "0 \<le> target" "keep = [] \<or> len = target" "fold (expire_one target) ps (s, keep, len) = (t, keep', len')"
  shows "int (length keep') = target"
  using assms
proof (induction ps arbitrary: s keep len)
  case (Cons g ps)
  obtain t0 where t0: "idleSince s g = Some t0" "t0 + expiry s < now s" using Cons.prems(1) by auto
  show ?case
  proof (cases "target < len")
    case True
    have e: "expire_one target g (s, keep, len) = (exit_gor g s, keep, len - 1)" using True t0 by (simp add: expire_one_def)
    have "\<forall>h \<in> set ps. \<exists>t. idleSince (exit_gor g s) h = Some t \<and> t + expiry (exit_gor g s) < now (exit_gor g s)"
      using Cons.prems(1,2) by (auto simp: exit_gor_def emit_def)
    then show ?thesis by (rule Cons.IH) (use Cons.prems True e in auto)
  next
    case False
    have e: "expire_one target g (s, keep, len) = (s, keep @ [g], len)" using False by (simp add: expire_one_def)
    show ?thesis by (rule Cons.IH [where keep = "keep @ [g]"]) (use Cons.prems False e in auto)
  qed
qed auto

lemma expire_ripe:
  assumes "ws_inv None [] 0 s" "ripe s" "expiry s \<le> expiryClock s + dt" "minIdle s < int (length (pool s))"
  shows "int (length (pool (ws_expire dt s))) = minIdle s"
proof -
  define s2 where "s2 = s\<lparr>expiryClock := 0\<rparr>"
  have m: "minIdle s2 = minIdle s" "pool s2 = pool s" "0 \<le> minIdle s" by (simp_all add: s2_def minIdle_def)
  obtain s3 keep len where f: "fold (expire_one (minIdle s2)) (pool s2) (s2, [], int (length (pool s2))) = (s3, keep, len)" by (metis prod.exhaust)
  have "ws_expire dt s = s3\<lparr>pool := keep\<rparr>" using f assms(3,4) m by (simp add: ws_expire_def Let_def s2_def)
  moreover have "int (length keep) = minIdle s2"
  proof (rule fold_expire_ripe [OF _ _ _ _ _ _ f])
    have d: "dom (idleSince s) = set (gors s)" "set (pool s) \<subseteq> set (gors s)" "distinct (pool s)" using assms(1) by (auto simp: ws_inv_unfold)
    show "\<forall>g \<in> set (pool s2). \<exists>t. idleSince s2 g = Some t \<and> t + expiry s2 < now s2"
    proof
      fix g assume "g \<in> set (pool s2)"
      then have "g \<in> dom (idleSince s)" using d(1,2) m(2) by auto
      then obtain t where "idleSince s g = Some t" by (auto simp: dom_def)
      with assms(2) show "\<exists>t. idleSince s2 g = Some t \<and> t + expiry s2 < now s2" by (auto simp: ripe_def s2_def ran_def)
    qed
    show "distinct (pool s2)" using d(3) m(2) by simp
  qed (use m assms(4) in simp_all)
  ultimately show ?thesis using m by simp
qed

end
