(* ===== verification/Guide_Concurrency.thy ===== *)
theory Guide_Concurrency
  imports Worker_Sim_Active Scene
begin

text \<open>
  \<open>docs/src/components/guides-b/concurrency.ts\<close> with the class \<open>PoolView\<close> of \<open>poolview.ts\<close>: a slider that calls \<open>TunePool\<close> on a running worker
  (\<open>WorkerSim\<close>), a producer that adds a job every 0.7 s, the picture of the worker and its throughput. \<open>PoolView\<close> redraws a part only
  when its signature changed; the model keeps the signatures and what was drawn last, as values. The live region is not modelled.
\<close>

section \<open>The picture of a worker: \<open>PoolView\<close>\<close>

definition DOTS :: nat where "DOTS = 36"

datatype Ended = EndedOk | EndedFail

record Block =
  bk_slot :: nat
  bk_job :: "nat option"
  bk_over :: bool
  bk_held :: nat
  bk_fail :: "Fail option"
  bk_p :: rat

text \<open>
  \<open>blockEls\<close> maps a slot to the element of its block, and \<open>lanes\<close> lists the children of the lanes column. Only \<open>drawBlocks\<close>
  makes such elements, each for a slot that has none, and one that leaves the map is removed from the column: so the column
  holds at most one element per slot, and its slot names it.
\<close>

record PoolView =
  pv_showQueue :: nat
  pv_showDone :: bool
  pv_ended :: "Ended list"
  pv_qSig :: "(nat \<times> nat \<times> nat) option"
  pv_pSig :: "(nat \<times> nat) option"
  pv_dSig :: "(nat \<times> nat) option"
  pv_chips :: "nat list"
  pv_more :: "nat option"
  pv_len :: nat
  pv_parked :: "nat list"
  pv_blockEls :: "nat \<rightharpoonup> Block"
  pv_lanes :: "nat list"
  pv_dots :: "Ended option list"
  pv_tally :: "nat option"

definition PoolView_new :: "bool \<Rightarrow> PoolView" where
  "PoolView_new showDone = \<lparr>pv_showQueue = 16, pv_showDone = showDone, pv_ended = [], pv_qSig = None, pv_pSig = None, pv_dSig = None,
     pv_chips = [], pv_more = None, pv_len = 0, pv_parked = [], pv_blockEls = (\<lambda>_. None), pv_lanes = [], pv_dots = replicate DOTS None, pv_tally = None\<rparr>"

text \<open>What the lanes show, and \<open>reset\<close>, which removes each block that the map knows.\<close>

definition pv_blocks :: "PoolView \<Rightarrow> Block list" where
  "pv_blocks v = map (\<lambda>k. the (pv_blockEls v k)) (pv_lanes v)"

definition pv_reset :: "PoolView \<Rightarrow> PoolView" where
  "pv_reset v = v\<lparr>pv_ended := [], pv_qSig := None, pv_pSig := None, pv_dSig := None, pv_blockEls := (\<lambda>_. None),
     pv_lanes := filter (\<lambda>k. pv_blockEls v k = None) (pv_lanes v)\<rparr>"

definition pv_record :: "WorkerSim \<Rightarrow> SimEvent \<Rightarrow> PoolView \<Rightarrow> PoolView" where
  "pv_record s e v =
    (let ended = (case e of EEnd j \<Rightarrow> pv_ended v @ [if j_fail (jobh s j) \<noteq> None then EndedFail else EndedOk] | _ \<Rightarrow> pv_ended v) in
     v\<lparr>pv_ended := (if 400 < length ended then drop (length ended - DOTS) ended else ended)\<rparr>)"

text \<open>
  \<open>drawBlocks\<close>: the loop over the live goroutines, with the count of busy ones so far and whether an element was added, and
  around it the removal of the blocks whose goroutine has exited and, when one was added, the new order of the column.
\<close>

definition new_block :: "nat \<Rightarrow> Block" where
  "new_block k = \<lparr>bk_slot = k, bk_job = None, bk_over = False, bk_held = 0, bk_fail = None, bk_p = 0\<rparr>"

fun draw_blocks :: "WorkerSim \<Rightarrow> nat \<Rightarrow> bool \<Rightarrow> nat list \<Rightarrow> (nat \<rightharpoonup> Block) \<Rightarrow> (nat \<rightharpoonup> Block) \<times> bool" where
  "draw_blocks s n added [] els = (els, added)"
| "draw_blocks s n added (g # gs) els =
    (let r = gorh s g; old = els (g_slot r); el = (case old of None \<Rightarrow> new_block (g_slot r) | Some b \<Rightarrow> b); added' = (added \<or> old = None) in
     if g_busy r \<and> g_i r < length (g_batch r)
     then (let k = g_batch r ! g_i r; j = jobh s k;
               el' = el\<lparr>bk_job := Some k, bk_over := limit s < int (Suc n), bk_held := length (g_batch r) - g_i r - 1, bk_fail := j_fail j,
                 bk_p := max 0 (min 1 (1 - j_left j / j_dur j))\<rparr>
           in draw_blocks s (Suc n) added' gs (els(g_slot r \<mapsto> el')))
     else draw_blocks s n added' gs (els(g_slot r \<mapsto> el\<lparr>bk_job := None, bk_over := False, bk_held := 0, bk_fail := None, bk_p := 0\<rparr>)))"

definition drawBlocks :: "WorkerSim \<Rightarrow> PoolView \<Rightarrow> PoolView" where
  "drawBlocks s v =
    (let live = sort_key (\<lambda>g. g_slot (gorh s g)) (gors s); slots = map (\<lambda>g. g_slot (gorh s g)) live;
         els = (\<lambda>k. if k \<in> set slots then pv_blockEls v k else None);
         lanes = filter (\<lambda>k. \<not> (pv_blockEls v k \<noteq> None \<and> k \<notin> set slots)) (pv_lanes v);
         drawn = draw_blocks s 0 False live els
     in v\<lparr>pv_blockEls := fst drawn, pv_lanes := (if snd drawn then slots else lanes)\<rparr>)"

definition first_or_0 :: "nat list \<Rightarrow> nat" where
  "first_or_0 q = (case q of [] \<Rightarrow> 0 | j # _ \<Rightarrow> j)"

definition queue_sig :: "nat list \<Rightarrow> nat \<times> nat \<times> nat" where
  "queue_sig q = (length q, first_or_0 q, if q = [] then 0 else last q)"

definition draw_queue :: "nat list \<Rightarrow> PoolView \<Rightarrow> PoolView" where
  "draw_queue q v =
    (if Some (queue_sig q) = pv_qSig v then v
     else v\<lparr>pv_qSig := Some (queue_sig q), pv_chips := take (pv_showQueue v) q,
       pv_more := (if pv_showQueue v < length q then Some (length q - pv_showQueue v) else None)\<rparr>)\<lparr>pv_len := length q\<rparr>"

definition draw_parked :: "nat list \<Rightarrow> PoolView \<Rightarrow> PoolView" where
  "draw_parked p v =
    (if Some (length p, first_or_0 p) = pv_pSig v then v else v\<lparr>pv_pSig := Some (length p, first_or_0 p), pv_parked := take 12 p\<rparr>)"

definition draw_done :: "PoolView \<Rightarrow> PoolView" where
  "draw_done v =
    (let n = length (pv_ended v); tail = drop (n - DOTS) (pv_ended v); sig = (n, length tail) in
     if pv_showDone v \<and> Some sig \<noteq> pv_dSig v
     then v\<lparr>pv_dSig := Some sig, pv_dots := map (\<lambda>i. if i < length tail then Some (tail ! i) else None) [0..<DOTS], pv_tally := Some n\<rparr>
     else v)"

definition pv_update :: "WorkerSim \<Rightarrow> PoolView \<Rightarrow> PoolView" where
  "pv_update s v = draw_done (drawBlocks s (draw_parked (parked s) (draw_queue (queue s) v)))"

section \<open>The scene\<close>

definition CONC_DUR :: rat where "CONC_DUR = 2400"
definition ARRIVE :: rat where "ARRIVE = 700"
definition WINDOW :: rat where "WINDOW = 8000"
definition SCALE :: rat where "SCALE = 11 / 2"

record ConcPanel =
  cp_limit :: int
  cp_processing :: nat
  cp_pending :: int
  cp_idle :: nat
  cp_warn :: bool
  cp_done :: "rat option"
  cp_fill :: rat
  cp_ceiling :: rat
  cp_cap :: rat
  cp_arriving :: "rat option"
  cp_arr :: rat

record Conc =
  cn_sim :: WorkerSim
  cn_view :: PoolView
  cn_producer :: bool
  cn_acc :: rat
  cn_ends :: "rat list"
  cn_limitOut :: int
  cn_said :: "string option"
  cn_paused :: bool
  cn_panel :: "ConcPanel option"

text \<open>\<open>onEvent\<close>: the view and the times of the ends. Within a call of the worker below its time moves at most once, at its start.\<close>

definition job_end :: "SimEvent \<Rightarrow> bool" where
  "job_end e = (case e of EEnd j \<Rightarrow> True | _ \<Rightarrow> False)"

definition on_worker :: "(WorkerSim \<Rightarrow> WorkerSim) \<Rightarrow> Conc \<Rightarrow> Conc" where
  "on_worker f c =
    (let s = cn_sim c; s' = f s; es = drop (length (log s)) (log s') in
     c\<lparr>cn_sim := s', cn_view := fold (pv_record s') es (cn_view c), cn_ends := cn_ends c @ map (\<lambda>_. now s') (filter job_end es)\<rparr>)"

definition conc_add :: "Conc \<Rightarrow> Conc" where
  "conc_add = on_worker (\<lambda>s. fst (ws_add \<lparr>o_dur = Some CONC_DUR, o_fail = None, o_watch = False\<rparr> s))"

text \<open>\<open>sim.advance\<close>, step by step, with the events of each step recorded at its time.\<close>

lemma left_shrinks: "0 < left \<Longrightarrow> nat \<lceil>(left - min left STEP) / STEP\<rceil> < nat \<lceil>left / STEP\<rceil>"
proof -
  assume l: "0 < left"
  then have p: "0 < left / STEP" by (simp add: STEP_def)
  show ?thesis
  proof (cases "left \<le> STEP")
    case True
    with p show ?thesis by (simp add: min_def)
  next
    case False
    then have "(left - min left STEP) / STEP = left / STEP - 1" by (simp add: STEP_def field_simps)
    with p show ?thesis by (simp add: zero_less_ceiling)
  qed
qed

function conc_advance :: "rat \<Rightarrow> Conc \<Rightarrow> Conc" where
  "conc_advance left c = (if 0 < left then conc_advance (left - min left STEP) (on_worker (ws_step (min left STEP)) c) else c)"
  by auto
termination
proof (relation "measure (\<lambda>(left, c). nat \<lceil>left / STEP\<rceil>)", goal_cases)
  case (2 left c)
  then show ?case using left_shrinks [of left] by (simp only: in_measure prod.case)
qed simp

declare conc_advance.simps [simp del]

definition conc_panel :: "Conc \<Rightarrow> ConcPanel" where
  "conc_panel c =
    (let s = cn_sim c; win = min WINDOW (now s); measured = (if 2000 \<le> win then of_nat (length (cn_ends c)) / (win / 1000) else 0);
         ceil = of_int (limit s) / (CONC_DUR / 1000); arriving = (if cn_producer c then 1000 / ARRIVE else 0) in
     \<lparr>cp_limit = numConcurrency s, cp_processing = numProcessing s, cp_pending = numPending s, cp_idle = numIdleWorkers s,
      cp_warn = (numConcurrency s < int (numProcessing s)), cp_done = (if 2000 \<le> win then Some measured else None), cp_fill = min 1 (measured / SCALE),
      cp_ceiling = ceil, cp_cap = min 100 (ceil / SCALE * 100), cp_arriving = (if cn_producer c then Some arriving else None),
      cp_arr = min 100 (arriving / SCALE * 100)\<rparr>)"

definition conc_render :: "Conc \<Rightarrow> Conc" where
  "conc_render c =
    (let c1 = c\<lparr>cn_view := pv_update (cn_sim c) (cn_view c), cn_ends := dropWhile (\<lambda>t. t < now (cn_sim c) - WINDOW) (cn_ends c)\<rparr> in
     c1\<lparr>cn_panel := Some (conc_panel c1)\<rparr>)"

text \<open>The producer's loop: a job for each 700 ms that passed.\<close>

function conc_produce :: "Conc \<Rightarrow> Conc" where
  "conc_produce c = (if ARRIVE \<le> cn_acc c then conc_produce (conc_add (c\<lparr>cn_acc := cn_acc c - ARRIVE\<rparr>)) else c)"
  by auto
termination
proof (relation "measure (\<lambda>c. nat \<lfloor>cn_acc c / ARRIVE\<rfloor>)", goal_cases)
  case (2 c)
  have "cn_acc (conc_add (c\<lparr>cn_acc := cn_acc c - ARRIVE\<rparr>)) = cn_acc c - ARRIVE" by (simp add: conc_add_def on_worker_def Let_def)
  moreover have "(cn_acc c - ARRIVE) / ARRIVE = cn_acc c / ARRIVE - 1" by (simp add: ARRIVE_def field_simps)
  moreover have "1 \<le> cn_acc c / ARRIVE" using 2 by (simp add: ARRIVE_def)
  then have "1 \<le> \<lfloor>cn_acc c / ARRIVE\<rfloor>" by (simp add: le_floor_iff)
  ultimately show ?case by simp
qed simp

declare conc_produce.simps [simp del]

definition conc_tick :: "rat \<Rightarrow> Conc \<Rightarrow> Conc" where
  "conc_tick dt c =
    (let c1 = conc_advance dt c in
     conc_render (if cn_producer c1 \<and> length (queue (cn_sim c1)) < 60 then conc_produce (c1\<lparr>cn_acc := cn_acc c1 + dt\<rparr>) else c1))"

definition held_jobs :: "WorkerSim \<Rightarrow> nat" where
  "held_jobs s = sum_list (map (\<lambda>g. if g_busy (gorh s g) then length (g_batch (gorh s g)) - g_i (gorh s g) - 1 else 0) (gors s))"

definition tune_text :: "int \<Rightarrow> WorkerSim \<Rightarrow> string" where
  "tune_text n s =
    (let held = held_jobs s; err = snd (ws_tunePool n s); s' = fst (ws_tunePool n s) in
     ''worker.TunePool('' @ string_of_int n @ '') // '' @ err_text err
     @ (if err = None \<and> limit s < n \<and> 0 < held
        then '', but '' @ string_of_nat held @ '' held '' @ (if held = 1 then ''job stays'' else ''jobs stay'') @ '' in one goroutine's batch'' else '''')
     @ (if err = None \<and> n < limit s \<and> n < int (numProcessing s')
        then '', NumProcessing stays '' @ string_of_nat (numProcessing s') @ '' until goroutines finish'' else ''''))"

definition conc_tune :: "int \<Rightarrow> Conc \<Rightarrow> Conc" where
  "conc_tune n c = conc_render ((on_worker (\<lambda>s. fst (ws_tunePool n s)) c)\<lparr>cn_said := Some (tune_text n (cn_sim c))\<rparr>)"

datatype ConcEvent = Slide int | AddJobs nat | TuneSame | ProducerPress | ConcFrame rat | ConcPause | ConcStep

text \<open>The handlers. The slider goes from 1 to 12, the buttons add 3 or 12, and the step button is shown while the clock is paused. A click
  on a clock button reaches the root's handler too, which renders.\<close>

fun conc_event :: "ConcEvent \<Rightarrow> Conc \<Rightarrow> Conc" where
  "conc_event (Slide n) c = (if 1 \<le> n \<and> n \<le> 12 then conc_tune n (c\<lparr>cn_limitOut := n\<rparr>) else c)"
| "conc_event (AddJobs n) c =
    (if n = 3 \<or> n = 12
     then conc_render (((conc_add ^^ n) c)\<lparr>cn_said := Some (''queue.Add(...) // '' @ string_of_nat n @ '' times, each returns true'')\<rparr>) else c)"
| "conc_event TuneSame c =
    (let n = limit (cn_sim c); c1 = on_worker (\<lambda>s. fst (ws_tunePool n s)) c in
     conc_render (c1\<lparr>cn_said := Some (''worker.TunePool('' @ string_of_int (limit (cn_sim c1)) @ '') // ''
       @ (case snd (ws_tunePool n (cn_sim c)) of None \<Rightarrow> ''null'' | e \<Rightarrow> err_text e))\<rparr>))"
| "conc_event ProducerPress c = conc_render (c\<lparr>cn_producer := \<not> cn_producer c\<rparr>)"
| "conc_event (ConcFrame dt) c = (if cn_paused c then c else conc_tick (min dt 100) c)"
| "conc_event ConcPause c = conc_render (c\<lparr>cn_paused := \<not> cn_paused c\<rparr>)"
| "conc_event ConcStep c = (if cn_paused c then conc_render (conc_tick 1000 c) else c)"

definition conc_init :: "bool \<Rightarrow> Conc" where
  "conc_init reduce =
    conc_render (conc_advance 80 ((conc_add ^^ 8)
      \<lparr>cn_sim = WorkerSim_new (Some 3) True, cn_view = PoolView_new True, cn_producer = \<not> reduce, cn_acc = 0, cn_ends = [], cn_limitOut = 3,
       cn_said = None, cn_paused = reduce, cn_panel = None\<rparr>))"

section \<open>The blocks\<close>

text \<open>What the lanes are to show: a block for each of these goroutines, made from its record alone.\<close>

definition block_of :: "WorkerSim \<Rightarrow> nat \<Rightarrow> nat \<Rightarrow> Block" where
  "block_of s n g =
    (let r = gorh s g; k = g_batch r ! g_i r in
     if g_busy r \<and> g_i r < length (g_batch r)
     then \<lparr>bk_slot = g_slot r, bk_job = Some k, bk_over = limit s < int (Suc n), bk_held = length (g_batch r) - g_i r - 1,
       bk_fail = j_fail (jobh s k), bk_p = max 0 (min 1 (1 - j_left (jobh s k) / j_dur (jobh s k)))\<rparr>
     else new_block (g_slot r))"

fun blocks_of :: "WorkerSim \<Rightarrow> nat \<Rightarrow> nat list \<Rightarrow> Block list" where
  "blocks_of s n [] = []"
| "blocks_of s n (g # gs) = block_of s n g # blocks_of s (if bk_job (block_of s n g) = None then n else Suc n) gs"

definition by_slot :: "WorkerSim \<Rightarrow> nat list" where
  "by_slot s = sort_key (\<lambda>g. g_slot (gorh s g)) (gors s)"

definition block_list :: "WorkerSim \<Rightarrow> Block list" where
  "block_list s = blocks_of s 0 (by_slot s)"

definition els_slots :: "(nat \<rightharpoonup> Block) \<Rightarrow> bool" where
  "els_slots els \<longleftrightarrow> (\<forall>k b. els k = Some b \<longrightarrow> bk_slot b = k)"

definition els_ok :: "PoolView \<Rightarrow> bool" where
  "els_ok v \<longleftrightarrow> els_slots (pv_blockEls v) \<and> dom (pv_blockEls v) = set (pv_lanes v) \<and> sorted_wrt (<) (pv_lanes v)"

text \<open>An element that is reused shows what a new one would.\<close>

lemma block_fill:
  "b\<lparr>bk_job := j, bk_over := v, bk_held := n, bk_fail := f, bk_p := p\<rparr> =
    \<lparr>bk_slot = bk_slot b, bk_job = j, bk_over = v, bk_held = n, bk_fail = f, bk_p = p\<rparr>"
  by simp

lemma draw_blocks_step:
  assumes "els_slots els"
  obtains a where "draw_blocks s n added (g # gs) els =
      draw_blocks s (if bk_job (block_of s n g) = None then n else Suc n) a gs (els(g_slot (gorh s g) \<mapsto> block_of s n g))"
    "a \<longleftrightarrow> added \<or> els (g_slot (gorh s g)) = None"
proof -
  let ?k = "g_slot (gorh s g)"
  have "bk_slot (case els ?k of None \<Rightarrow> new_block ?k | Some b \<Rightarrow> b) = ?k"
    using assms by (auto simp: els_slots_def new_block_def split: option.splits)
  then show thesis
    by (intro that [of "added \<or> els ?k = None"]) (simp_all add: block_of_def new_block_def Let_def block_fill)
qed

lemma block_of_slot [simp]: "bk_slot (block_of s n g) = g_slot (gorh s g)"
  by (simp add: block_of_def new_block_def Let_def)

lemma draw_blocks_shows:
  "els_slots els \<Longrightarrow> distinct (map (\<lambda>g. g_slot (gorh s g)) gs) \<Longrightarrow> draw_blocks s n added gs els = (els', added') \<Longrightarrow>
    els_slots els' \<and> map (\<lambda>g. els' (g_slot (gorh s g))) gs = map Some (blocks_of s n gs)
    \<and> (\<forall>k. k \<notin> (\<lambda>g. g_slot (gorh s g)) ` set gs \<longrightarrow> els' k = els k) \<and> (added' \<longleftrightarrow> added \<or> (\<exists>g \<in> set gs. els (g_slot (gorh s g)) = None))"
proof (induction gs arbitrary: n added els)
  case (Cons g gs)
  let ?b = "block_of s n g" and ?k = "g_slot (gorh s g)" and ?slots = "(\<lambda>g. g_slot (gorh s g)) ` set gs"
  let ?els = "els(?k \<mapsto> ?b)" and ?n = "if bk_job (block_of s n g) = None then n else Suc n"
  obtain a where a: "draw_blocks s n added (g # gs) els = draw_blocks s ?n a gs ?els" "a \<longleftrightarrow> added \<or> els ?k = None"
    by (rule draw_blocks_step [OF Cons.prems(1)])
  have p: "els_slots ?els" "distinct (map (\<lambda>g. g_slot (gorh s g)) gs)" "?k \<notin> ?slots"
    using Cons.prems(1,2) by (auto simp: els_slots_def)
  have o: "?els (g_slot (gorh s h)) = els (g_slot (gorh s h))" if "h \<in> set gs" for h using that p(3) by (auto simp: image_iff)
  note ih = Cons.IH [OF p(1,2) Cons.prems(3) [unfolded a(1)]]
  then have "els' ?k = Some ?b" using p(3) by (metis fun_upd_same)
  moreover have "\<forall>k. k \<notin> insert ?k ?slots \<longrightarrow> els' k = els k" using ih by auto
  moreover have "(\<exists>h \<in> set gs. ?els (g_slot (gorh s h)) = None) = (\<exists>h \<in> set gs. els (g_slot (gorh s h)) = None)" using o by auto
  ultimately show ?case using ih a(2) by simp
qed simp

lemma drawBlocks_shows:
  assumes "els_ok v" "distinct (map (\<lambda>g. g_slot (gorh s g)) (gors s))"
  shows "els_ok (drawBlocks s v)" "pv_blocks (drawBlocks s v) = block_list s"
proof -
  let ?slots = "map (\<lambda>g. g_slot (gorh s g)) (by_slot s)"
  define els where "els = (\<lambda>k. if k \<in> set ?slots then pv_blockEls v k else None)"
  define lanes where "lanes = filter (\<lambda>k. \<not> (pv_blockEls v k \<noteq> None \<and> k \<notin> set ?slots)) (pv_lanes v)"
  obtain els' added where d: "draw_blocks s 0 False (by_slot s) els = (els', added)" by (metis prod.exhaust)
  have e: "drawBlocks s v = v\<lparr>pv_blockEls := els', pv_lanes := (if added then ?slots else lanes)\<rparr>"
    using d unfolding drawBlocks_def by_slot_def els_def lanes_def Let_def by simp
  have ok: "els_slots els" using assms(1) by (auto simp: els_ok_def els_slots_def els_def)
  have ds: "distinct ?slots" using assms(2) by (simp add: by_slot_def distinct_map)
  have ss: "sorted_wrt (<) ?slots" using ds by (simp add: strict_sorted_iff by_slot_def)
  note r = draw_blocks_shows [OF ok ds d]
  have "k \<in> dom els' \<longleftrightarrow> k \<in> set ?slots" for k
  proof (cases "k \<in> set ?slots")
    case True
    then obtain g where g: "g \<in> set (by_slot s)" "k = g_slot (gorh s g)" by auto
    then have "els' k \<in> set (map (\<lambda>g. els' (g_slot (gorh s g))) (by_slot s))" by simp
    then show ?thesis using r True by auto
  next
    case False
    then have "els' k = els k" "els k = None" using r by (auto simp: els_def)
    then show ?thesis using False by auto
  qed
  then have dom: "dom els' = set ?slots" by blast
  have "lanes = ?slots" if "\<not> added"
  proof (rule strict_sorted_equal)
    have "\<forall>k \<in> set ?slots. els k \<noteq> None" using r that by auto
    then have "\<forall>k \<in> set ?slots. k \<in> dom (pv_blockEls v)" by (auto simp: els_def)
    then show "set lanes = set ?slots" using assms(1) by (auto simp: lanes_def els_ok_def)
    show "sorted_wrt (<) lanes" using assms(1) by (simp add: lanes_def els_ok_def sorted_wrt_filter)
  qed (rule ss)
  then have l: "pv_lanes (drawBlocks s v) = ?slots" by (simp add: e)
  then show "els_ok (drawBlocks s v)" using r dom ss by (simp add: els_ok_def e)
  have "map (\<lambda>k. the (els' k)) ?slots = map the (map (\<lambda>g. els' (g_slot (gorh s g))) (by_slot s))" by simp
  also have "\<dots> = block_list s" using r by (simp add: block_list_def comp_def)
  finally show "pv_blocks (drawBlocks s v) = block_list s" unfolding pv_blocks_def l by (simp add: e)
qed

text \<open>What the blocks show: one for each goroutine in the order of the slots, with the job it runs, the number it holds behind that job
  and the mark of a job that fails; the busy ones amber from the limit on; and with the queue and the park every unfinished job.\<close>

definition running_job :: "WorkerSim \<Rightarrow> nat \<Rightarrow> nat option" where
  "running_job s g = (if g_busy (gorh s g) then Some (g_batch (gorh s g) ! g_i (gorh s g)) else None)"

lemma block_of_facts:
  assumes "gor_ok s g"
  shows "bk_job (block_of s n g) = running_job s g" "bk_held (block_of s n g) = length (unstarted (gorh s g))"
    "bk_fail (block_of s n g) = Option.bind (running_job s g) (\<lambda>j. j_fail (jobh s j))"
    "bk_over (block_of s n g) \<longleftrightarrow> running_job s g \<noteq> None \<and> limit s \<le> int n"
    "mset (taken_of None s g) = mset (case running_job s g of None \<Rightarrow> [] | Some j \<Rightarrow> [j]) + mset (unstarted (gorh s g))"
  using assms Cons_nth_drop_Suc [of "g_i (gorh s g)" "g_batch (gorh s g)", symmetric]
  by (auto simp: block_of_def new_block_def gor_ok_def running_job_def unstarted_def taken_of_def Let_def)

lemma blocks_of_facts:
  "list_all (gor_ok s) gs \<Longrightarrow>
    map (\<lambda>b. (bk_slot b, bk_job b, bk_held b, bk_fail b)) (blocks_of s n gs) =
      map (\<lambda>g. (g_slot (gorh s g), running_job s g, length (unstarted (gorh s g)), Option.bind (running_job s g) (\<lambda>j. j_fail (jobh s j)))) gs
    \<and> map bk_over (filter (\<lambda>b. bk_job b \<noteq> None) (blocks_of s n gs)) = map (\<lambda>i. limit s \<le> int i) [n..<n + length (filter (\<lambda>g. g_busy (gorh s g)) gs)]
    \<and> filter bk_over (filter (\<lambda>b. bk_job b \<noteq> None) (blocks_of s n gs)) = filter bk_over (blocks_of s n gs)
    \<and> (\<Sum>g\<leftarrow>gs. mset (taken_of None s g)) = mset (List.map_filter bk_job (blocks_of s n gs)) + mset (concat (map (\<lambda>g. unstarted (gorh s g)) gs))"
proof (induction gs arbitrary: n)
  case (Cons g gs)
  have ok: "gor_ok s g" "list_all (gor_ok s) gs" using Cons.prems by simp_all
  have r: "(running_job s g = None) = (\<not> g_busy (gorh s g))" by (simp add: running_job_def)
  have u: "[n..<n + Suc m] = n # [Suc n..<Suc n + m]" for m by (simp add: upt_conv_Cons)
  note f = block_of_facts [OF ok(1)]
  show ?case using Cons.IH [OF ok(2)] f r u by (cases "running_job s g") (simp_all add: map_filter_simps)
qed (simp add: map_filter_simps)

lemma slots_distinct: "ws_good s \<Longrightarrow> distinct (map (\<lambda>g. g_slot (gorh s g)) (gors s))"
  using ws_goodD(1) by (auto simp: ws_inv_unfold distinct_map)

lemma blocks_true:
  assumes "ws_good s" "0 \<le> limit s"
  shows "map (\<lambda>b. (bk_slot b, bk_job b, bk_held b, bk_fail b)) (block_list s) =
      map (\<lambda>g. (g_slot (gorh s g), running_job s g, length (unstarted (gorh s g)), Option.bind (running_job s g) (\<lambda>j. j_fail (jobh s j)))) (by_slot s)"
    "length (block_list s) = length (gors s)"
    "map bk_over (filter (\<lambda>b. bk_job b \<noteq> None) (block_list s)) = map (\<lambda>i. limit s \<le> int i) [0..<busy s]"
    "length (filter bk_over (block_list s)) = nat (int (busy s) - limit s)"
    "mset_set (open_jobs s) = mset (queue s) + mset (parked s) + mset (List.map_filter bk_job (block_list s))
       + mset (concat (map (\<lambda>g. unstarted (gorh s g)) (gors s)))"
proof -
  let ?P = "\<lambda>g. g_busy (gorh s g)"
  have i: "ws_inv None [] 0 s" using assms(1) by (rule ws_goodD)
  have g: "distinct (gors s)" "inj_on (\<lambda>g. g_slot (gorh s g)) (set (gors s))" "list_all (gor_ok s) (by_slot s)"
    and o: "live None [] s = mset_set (open_jobs s)" using i by (simp_all add: ws_inv_unfold by_slot_def list_all_iff)
  note f = blocks_of_facts [OF g(3), of 0, folded block_list_def, THEN conjunct1]
    blocks_of_facts [OF g(3), of 0, folded block_list_def, THEN conjunct2, THEN conjunct1]
    blocks_of_facts [OF g(3), of 0, folded block_list_def, THEN conjunct2, THEN conjunct2, THEN conjunct1]
    blocks_of_facts [OF g(3), of 0, folded block_list_def, THEN conjunct2, THEN conjunct2, THEN conjunct2]
  show "map (\<lambda>b. (bk_slot b, bk_job b, bk_held b, bk_fail b)) (block_list s) =
      map (\<lambda>g. (g_slot (gorh s g), running_job s g, length (unstarted (gorh s g)), Option.bind (running_job s g) (\<lambda>j. j_fail (jobh s j)))) (by_slot s)"
    by (rule f(1))
  from arg_cong [OF this, of length] show "length (block_list s) = length (gors s)" by (simp add: by_slot_def)
  have m: "mset (by_slot s) = mset (gors s)" by (simp add: by_slot_def)
  have b: "length (filter ?P (by_slot s)) = busy s" unfolding busy_def by (metis m mset_filter size_mset)
  show over: "map bk_over (filter (\<lambda>b. bk_job b \<noteq> None) (block_list s)) = map (\<lambda>i. limit s \<le> int i) [0..<busy s]" using f(2) b by simp
  have "length (filter bk_over (block_list s)) = length (filter (\<lambda>x. x) (map bk_over (filter (\<lambda>b. bk_job b \<noteq> None) (block_list s))))"
    unfolding f(3) [symmetric] by (simp add: filter_map comp_def)
  also have "\<dots> = card {i. i < busy s \<and> limit s \<le> int i}"
    unfolding over by (simp add: filter_map comp_def length_filter_conv_card cong: conj_cong)
  also have "{i. i < busy s \<and> limit s \<le> int i} = {nat (limit s)..<busy s}" by auto
  finally show "length (filter bk_over (block_list s)) = nat (int (busy s) - limit s)" using assms(2) by simp
  have "(\<Sum>g\<in>set (gors s). mset (taken_of None s g)) = (\<Sum>g\<leftarrow>by_slot s. mset (taken_of None s g))"
    using g(1) by (metis distinct_sort sum_list_distinct_conv_sum_set set_sort by_slot_def)
  moreover have "mset (concat (map (\<lambda>g. unstarted (gorh s g)) (by_slot s))) = mset (concat (map (\<lambda>g. unstarted (gorh s g)) (gors s)))"
    unfolding mset_concat map_map comp_def using m by (metis mset_map sum_mset_sum_list)
  ultimately show "mset_set (open_jobs s) = mset (queue s) + mset (parked s) + mset (List.map_filter bk_job (block_list s))
       + mset (concat (map (\<lambda>g. unstarted (gorh s g)) (gors s)))"
    unfolding o [symmetric] live_def f(4) by (simp add: ac_simps)
qed

section \<open>The cached parts\<close>

lemma queue_sig_run: "a \<le> b \<Longrightarrow> c \<le> d \<Longrightarrow> queue_sig [a..<b] = queue_sig [c..<d] \<Longrightarrow> [a..<b] = [c..<d]"
proof -
  assume r: "a \<le> b" "c \<le> d" and sig: "queue_sig [a..<b] = queue_sig [c..<d]"
  have first: "first_or_0 [x..<y] = x" if "x < y" for x y using that by (simp add: first_or_0_def upt_conv_Cons)
  have len: "b - a = d - c" and "first_or_0 [a..<b] = first_or_0 [c..<d]" using sig by (simp_all add: queue_sig_def)
  then have "a = c" if "a < b" using that first [of a b] first [of c d] r len by simp
  then show ?thesis using r len by (cases "a < b") (metis le_add_diff_inverse, simp)
qed

definition queue_drawn :: "nat list \<Rightarrow> PoolView \<Rightarrow> bool" where
  "queue_drawn q v \<longleftrightarrow> pv_chips v = take 16 q \<and> pv_more v = (if 16 < length q then Some (length q - 16) else None)"

definition view_ok :: "PoolView \<Rightarrow> bool" where
  "view_ok v \<longleftrightarrow> els_ok v \<and> pv_showQueue v = 16 \<and> pv_parked v = [] \<and> pv_pSig v \<in> {None, Some (0, 0)}
     \<and> (pv_qSig v = None \<or> (\<exists>a b. a \<le> b \<and> pv_qSig v = Some (queue_sig [a..<b]) \<and> queue_drawn [a..<b] v))"

definition view_shows :: "WorkerSim \<Rightarrow> PoolView \<Rightarrow> bool" where
  "view_shows s v \<longleftrightarrow> queue_drawn (queue s) v \<and> pv_len v = length (queue s) \<and> pv_parked v = parked s \<and> pv_blocks v = block_list s"

lemma view_record_frame [simp]:
  "pv_showQueue (pv_record s e v) = pv_showQueue v" "pv_parked (pv_record s e v) = pv_parked v" "pv_pSig (pv_record s e v) = pv_pSig v"
  "pv_qSig (pv_record s e v) = pv_qSig v" "queue_drawn q (pv_record s e v) = queue_drawn q v" "els_ok (pv_record s e v) = els_ok v"
  by (simp_all add: pv_record_def Let_def queue_drawn_def els_ok_def)

lemma view_ok_record: "view_ok v \<Longrightarrow> view_ok (fold (pv_record s) es v)"
  by (induction es arbitrary: v) (simp_all add: view_ok_def)

lemma done_frame [simp]:
  "pv_showQueue (draw_done v) = pv_showQueue v" "pv_parked (draw_done v) = pv_parked v" "pv_pSig (draw_done v) = pv_pSig v"
  "pv_qSig (draw_done v) = pv_qSig v" "queue_drawn q (draw_done v) = queue_drawn q v" "pv_len (draw_done v) = pv_len v"
  "pv_blocks (draw_done v) = pv_blocks v" "els_ok (draw_done v) = els_ok v"
  by (simp_all add: draw_done_def Let_def queue_drawn_def pv_blocks_def els_ok_def)

lemma blocks_frame [simp]:
  "pv_showQueue (drawBlocks s v) = pv_showQueue v" "pv_parked (drawBlocks s v) = pv_parked v" "pv_pSig (drawBlocks s v) = pv_pSig v"
  "pv_qSig (drawBlocks s v) = pv_qSig v" "queue_drawn q (drawBlocks s v) = queue_drawn q v" "pv_len (drawBlocks s v) = pv_len v"
  by (simp_all add: drawBlocks_def Let_def queue_drawn_def)

lemma els_frame [simp]: "els_ok (draw_parked p v) = els_ok v" "els_ok (draw_queue q v) = els_ok v"
  by (simp_all add: draw_parked_def draw_queue_def els_ok_def)

lemma els_ok_none: "els_ok (PoolView_new b)" "els_ok v \<Longrightarrow> els_ok (pv_reset v)"
proof -
  show "els_ok (PoolView_new b)" by (simp add: els_ok_def els_slots_def PoolView_new_def)
  assume "els_ok v"
  then have "filter (\<lambda>k. pv_blockEls v k = None) (pv_lanes v) = []" by (auto simp: els_ok_def filter_empty_conv)
  then show "els_ok (pv_reset v)" by (simp add: els_ok_def els_slots_def pv_reset_def)
qed

text \<open>A part whose signature did not change needs no redraw: the queue is a run of job numbers.\<close>

lemma update_shows:
  assumes "view_ok v" "active_ok s"
  shows "view_ok (pv_update s v)" "view_shows s (pv_update s v)"
proof -
  have a: "queue_run s" "parked s = []" "distinct (map (\<lambda>g. g_slot (gorh s g)) (gors s))"
    using assms(2) slots_distinct [OF active_good [OF assms(2)]] by (simp_all add: active_ok_def)
  obtain k where k: "k \<le> nextJob s" "queue s = [k..<nextJob s]" using a(1) by (auto simp: queue_run_def)
  let ?v = "draw_queue (queue s) v"
  have d: "queue_drawn (queue s) ?v" "pv_len ?v = length (queue s)" "pv_qSig ?v = Some (queue_sig (queue s))"
  proof -
    have "queue_drawn (queue s) v" if "Some (queue_sig (queue s)) = pv_qSig v"
      using that assms(1) queue_sig_run [OF k(1)] unfolding view_ok_def k(2) by auto
    then show "queue_drawn (queue s) ?v" "pv_len ?v = length (queue s)" "pv_qSig ?v = Some (queue_sig (queue s))"
      using assms(1) by (auto simp: draw_queue_def queue_drawn_def view_ok_def)
  qed
  have f: "pv_showQueue ?v = 16" "pv_parked ?v = []" "pv_pSig ?v \<in> {None, Some (0, 0)}" using assms(1) by (auto simp: draw_queue_def view_ok_def)
  let ?w = "draw_parked (parked s) ?v"
  have w: "queue_drawn (queue s) ?w" "pv_len ?w = length (queue s)" "pv_qSig ?w = Some (queue_sig (queue s))" "pv_showQueue ?w = 16"
    "pv_parked ?w = []" "pv_pSig ?w = Some (0, 0)"
    using d f a(2) by (auto simp: draw_parked_def queue_drawn_def first_or_0_def)
  have b: "els_ok ?w" using assms(1) by (simp add: view_ok_def)
  note b = drawBlocks_shows [OF b a(3)]
  show "view_shows s (pv_update s v)" using w b a(2) by (simp add: view_shows_def pv_update_def)
  have "\<exists>a b. a \<le> b \<and> Some (queue_sig (queue s)) = Some (queue_sig [a..<b]) \<and> queue_drawn [a..<b] (pv_update s v)"
    using w(1) k by (intro exI [of _ k] exI [of _ "nextJob s"]) (simp add: pv_update_def)
  then show "view_ok (pv_update s v)" using w b by (simp add: view_ok_def pv_update_def)
qed

section \<open>The invariant\<close>

definition conc_base :: "Conc \<Rightarrow> bool" where
  "conc_base c \<longleftrightarrow> active_ok (cn_sim c) \<and> 1 \<le> limit (cn_sim c) \<and> limit (cn_sim c) \<le> 12 \<and> sorted (cn_ends c)
     \<and> (\<forall>t \<in> set (cn_ends c). t \<le> now (cn_sim c)) \<and> view_ok (cn_view c)"

lemma base_frame [simp]:
  "conc_base (c\<lparr>cn_acc := a\<rparr>) = conc_base c" "conc_base (c\<lparr>cn_said := m\<rparr>) = conc_base c" "conc_base (c\<lparr>cn_limitOut := n\<rparr>) = conc_base c"
  "conc_base (c\<lparr>cn_producer := b\<rparr>) = conc_base c" "conc_base (c\<lparr>cn_paused := b\<rparr>) = conc_base c" "conc_base (c\<lparr>cn_panel := p\<rparr>) = conc_base c"
  by (simp_all add: conc_base_def)

lemma worker_frame [simp]:
  "cn_acc (on_worker f c) = cn_acc c" "cn_sim (on_worker f c) = f (cn_sim c)" "cn_paused (on_worker f c) = cn_paused c"
  by (simp_all add: on_worker_def Let_def)

lemma on_worker_base:
  assumes "conc_base c" "active_ok (f (cn_sim c))" "1 \<le> limit (f (cn_sim c))" "limit (f (cn_sim c)) \<le> 12" "now (cn_sim c) \<le> now (f (cn_sim c))"
  shows "conc_base (on_worker f c)"
proof -
  have "sorted (map (\<lambda>_. x) xs)" for x :: rat and xs :: "SimEvent list" by (induction xs) auto
  with assms show ?thesis by (auto simp: conc_base_def on_worker_def Let_def sorted_append view_ok_record intro: order_trans)
qed

lemma add_base: "conc_base c \<Longrightarrow> conc_base (conc_add c)"
  unfolding conc_add_def by (rule on_worker_base) (simp_all add: conc_base_def active_add)

lemma adds_base: "conc_base c \<Longrightarrow> conc_base ((conc_add ^^ n) c) \<and> cn_acc ((conc_add ^^ n) c) = cn_acc c"
proof (induction n)
  case (Suc n)
  moreover have "cn_acc (conc_add d) = cn_acc d" for d by (simp add: conc_add_def)
  ultimately show ?case using add_base by simp
qed simp

lemma tune_base: "conc_base c \<Longrightarrow> 1 \<le> n \<Longrightarrow> n \<le> 12 \<Longrightarrow> conc_base (on_worker (\<lambda>s. fst (ws_tunePool n s)) c)"
  by (rule on_worker_base) (simp_all add: conc_base_def active_tune)

lemma advance_base: "conc_base c \<Longrightarrow> conc_base (conc_advance left c) \<and> cn_acc (conc_advance left c) = cn_acc c"
proof (induction left c rule: conc_advance.induct)
  case (1 left c)
  show ?case
  proof (cases "0 < left")
    case True
    let ?dt = "min left STEP" and ?s = "cn_sim c"
    have dt: "0 < ?dt" "?dt \<le> STEP" using True STEP_pos by simp_all
    have a: "active_ok ?s" "ws_good ?s" "isActive ?s" "ctx ?s = None" using 1(2) active_good by (simp_all add: conc_base_def active_ok_def)
    have "conc_base (on_worker (ws_step ?dt) c)"
      by (rule on_worker_base) (use 1(2) active_step [OF a(1) dt] step_active(3) [OF a(2-4) dt(1)] step_now [OF a(2-4) dt(1)] dt in \<open>simp_all add: conc_base_def\<close>)
    from 1(1) [OF True this] True show ?thesis by (subst (1 2) conc_advance.simps) simp
  next
    case False
    with 1(2) show ?thesis by (subst (1 2) conc_advance.simps) simp
  qed
qed

lemma produce_base: "conc_base c \<Longrightarrow> conc_base (conc_produce c) \<and> cn_acc (conc_produce c) < ARRIVE"
proof (induction c rule: conc_produce.induct)
  case (1 c)
  then show ?case using add_base [of "c\<lparr>cn_acc := cn_acc c - ARRIVE\<rparr>"] by (subst (1 2) conc_produce.simps) auto
qed

definition conc_ok :: "Conc \<Rightarrow> bool" where
  "conc_ok c \<longleftrightarrow> conc_base c \<and> cn_acc c < ARRIVE \<and> view_shows (cn_sim c) (cn_view c) \<and> cn_panel c = Some (conc_panel c)
     \<and> (\<forall>t \<in> set (cn_ends c). now (cn_sim c) - WINDOW \<le> t)"

lemma sorted_dropWhile_ge: "sorted ts \<Longrightarrow> \<forall>t \<in> set (dropWhile (\<lambda>t. t < x) ts). (x :: rat) \<le> t"
  by (induction ts) auto

lemma render_ok:
  assumes "conc_base c" "cn_acc c < ARRIVE"
  shows "conc_ok (conc_render c)"
proof -
  have s: "view_ok (cn_view c)" "sorted (cn_ends c)" "active_ok (cn_sim c)" using assms(1) by (simp_all add: conc_base_def)
  note u = update_shows [OF s(1,3)]
  have "sorted (dropWhile P (cn_ends c))" for P using s(2) by (rule sorted_dropWhile)
  moreover have "\<forall>t \<in> set (dropWhile P (cn_ends c)). t \<le> now (cn_sim c)" for P using assms(1) set_dropWhileD by (fastforce simp: conc_base_def)
  ultimately show ?thesis
    using assms u sorted_dropWhile_ge [OF s(2)] by (simp add: conc_ok_def conc_render_def Let_def conc_base_def conc_panel_def)
qed

lemma render_acc [simp]: "cn_acc (conc_render c) = cn_acc c"
  by (simp add: conc_render_def Let_def)

lemma tick_conc:
  assumes "conc_base c" "cn_acc c < ARRIVE"
  shows "conc_ok (conc_tick dt c)"
proof -
  let ?c = "conc_advance dt c"
  have a: "conc_base ?c" "cn_acc ?c < ARRIVE" using advance_base [OF assms(1), of dt] assms(2) by simp_all
  have p: "conc_base (conc_produce (?c\<lparr>cn_acc := x\<rparr>))" "cn_acc (conc_produce (?c\<lparr>cn_acc := x\<rparr>)) < ARRIVE" for x
    using produce_base [of "?c\<lparr>cn_acc := x\<rparr>"] a(1) by simp_all
  show ?thesis unfolding conc_tick_def Let_def by (rule render_ok) (use a p in simp_all)
qed

lemma conc_event_ok: "conc_ok c \<Longrightarrow> conc_ok (conc_event e c)"
proof -
  assume ok: "conc_ok c"
  then have b: "conc_base c" "cn_acc c < ARRIVE" by (simp_all add: conc_ok_def)
  have l: "1 \<le> limit (cn_sim c)" "limit (cn_sim c) \<le> 12" using b(1) by (simp_all add: conc_base_def)
  have t: "conc_ok (conc_tick dt c)" for dt by (rule tick_conc [OF b])
  then have tb: "conc_base (conc_tick dt c)" "cn_acc (conc_tick dt c) < ARRIVE" for dt by (simp_all add: conc_ok_def)
  show ?thesis
    by (cases e) (use ok b l t tb adds_base [OF b(1)] tune_base [OF b(1)] tune_base [of "c\<lparr>cn_limitOut := n\<rparr>" n for n] in
      \<open>auto simp: conc_tune_def Let_def intro!: render_ok\<close>)
qed

lemma conc_init_ok: "conc_ok (conc_init reduce)"
proof -
  define c where "c = \<lparr>cn_sim = WorkerSim_new (Some 3) True, cn_view = PoolView_new True, cn_producer = \<not> reduce, cn_acc = 0, cn_ends = [], cn_limitOut = 3,
    cn_said = None, cn_paused = reduce, cn_panel = None\<rparr>"
  have "conc_base c" using new_active [of 3] els_ok_none(1) [of True] by (simp add: c_def conc_base_def view_ok_def PoolView_new_def)
  moreover have "cn_acc c < ARRIVE" by (simp add: c_def ARRIVE_def)
  ultimately show ?thesis
    unfolding conc_init_def c_def [symmetric] using adds_base [of c 8] advance_base [of "(conc_add ^^ 8) c" 80] by (intro render_ok) simp_all
qed

interpretation conc_scene: scene "\<lambda>c. \<exists>reduce. c = conc_init reduce" "\<lambda>e c. Some (conc_event e c)" conc_ok
  by unfold_locales (auto simp: conc_init_ok conc_event_ok)

section \<open>Properties\<close>

text \<open>The tally of the picture counts the list it draws from, which \<open>record\<close> cuts back to its last 36 entries: after the 401st job has ended it
  says 36.\<close>

lemma tally_falls_back:
  "length (pv_ended v) = 400 \<Longrightarrow> pv_showDone v \<Longrightarrow> pv_dSig v = Some (400, 36) \<Longrightarrow> pv_tally (draw_done (pv_record s (EEnd j) v)) = Some 36"
  by (simp add: pv_record_def draw_done_def Let_def DOTS_def)

text \<open>C39: However the reader uses the page, every event is answered and the picture tells the truth about the worker. The worker is
  active with a limit from 1 to 12; the queue shown is its first 16 jobs with the count of the others, although it is redrawn only when
  its signature changed. There is a block for each goroutine, in the order of the slots, although the column is put in order only when a
  block is new: it shows the job its goroutine runs, with the mark of a job that fails, and the number of jobs held behind it, or no
  job when the goroutine is idle. The busy ones, as many as \<open>NumProcessing\<close> says, are amber exactly from the limit on. The queue, the jobs
  the blocks show and the jobs held behind them are together the unfinished jobs, each once. The numbers on the panel are those of this
  state, and the throughput counts only jobs that ended in the last 8 seconds.\<close>

theorem concurrency_picture_is_true:
  shows "\<exists>c. presses (\<lambda>e c. Some (conc_event e c)) es (conc_init reduce) = Some c
    \<and> ws_reach (cn_sim c) \<and> isActive (cn_sim c) \<and> 1 \<le> limit (cn_sim c) \<and> limit (cn_sim c) \<le> 12
    \<and> pv_chips (cn_view c) = take 16 (queue (cn_sim c)) \<and> pv_len (cn_view c) = length (queue (cn_sim c))
    \<and> pv_more (cn_view c) = (if 16 < length (queue (cn_sim c)) then Some (length (queue (cn_sim c)) - 16) else None)
    \<and> (let s = cn_sim c; bs = pv_blocks (cn_view c) in
        length bs = length (gors s) \<and> sorted_wrt (<) (map bk_slot bs)
        \<and> map (\<lambda>b. (bk_slot b, bk_job b, bk_held b, bk_fail b)) bs =
            map (\<lambda>g. (g_slot (gorh s g), if g_busy (gorh s g) then Some (g_batch (gorh s g) ! g_i (gorh s g)) else None, length (unstarted (gorh s g)),
                if g_busy (gorh s g) then j_fail (jobh s (g_batch (gorh s g) ! g_i (gorh s g))) else None))
              (sort_key (\<lambda>g. g_slot (gorh s g)) (gors s))
        \<and> map bk_over (filter (\<lambda>b. bk_job b \<noteq> None) bs) = map (\<lambda>i. limit s \<le> int i) [0..<numProcessing s]
        \<and> length (filter bk_over bs) = nat (int (numProcessing s) - limit s)
        \<and> mset_set (open_jobs s) = mset (queue s) + mset (List.map_filter bk_job bs) + mset (concat (map (\<lambda>g. unstarted (gorh s g)) (gors s))))
    \<and> cn_panel c = Some (conc_panel c) \<and> list_all (\<lambda>t. now (cn_sim c) - WINDOW \<le> t \<and> t \<le> now (cn_sim c)) (cn_ends c)"
proof -
  obtain c where c: "presses (\<lambda>e c. Some (conc_event e c)) es (conc_init reduce) = Some c" "conc_ok c"
    using conc_scene.every_press_answered [of "conc_init reduce" es] by blast
  let ?s = "cn_sim c"
  have a: "active_ok ?s" "1 \<le> limit ?s" "limit ?s \<le> 12" using c(2) by (simp_all add: conc_ok_def conc_base_def)
  note b = blocks_true [OF active_good [OF a(1)]]
  have v: "queue_drawn (queue ?s) (cn_view c)" "pv_len (cn_view c) = length (queue ?s)" "pv_blocks (cn_view c) = block_list ?s"
    using c(2) by (simp_all add: conc_ok_def view_shows_def)
  have p: "cn_panel c = Some (conc_panel c)" "list_all (\<lambda>t. now ?s - WINDOW \<le> t \<and> t \<le> now ?s) (cn_ends c)"
    using c(2) by (simp_all add: conc_ok_def conc_base_def list_all_iff)
  have j: "map (\<lambda>b. (bk_slot b, bk_job b, bk_held b, bk_fail b)) (block_list ?s) =
      map (\<lambda>g. (g_slot (gorh ?s g), if g_busy (gorh ?s g) then Some (g_batch (gorh ?s g) ! g_i (gorh ?s g)) else None, length (unstarted (gorh ?s g)),
        if g_busy (gorh ?s g) then j_fail (jobh ?s (g_batch (gorh ?s g) ! g_i (gorh ?s g))) else None)) (by_slot ?s)"
    unfolding b(1) [OF order_trans [OF zero_le_one a(2)]] by (rule map_cong [OF refl]) (simp add: running_job_def)
  have s: "sorted_wrt (<) (map bk_slot (block_list ?s))"
    using slots_distinct [OF active_good [OF a(1)]] arg_cong [OF j, of "map fst"] a(2) by (simp add: comp_def by_slot_def strict_sorted_iff distinct_map)
  show ?thesis
    by (rule exI [of _ c]) (use c(1) a v p s b(2-5) j in \<open>simp add: active_ok_def queue_drawn_def numProcessing_def Let_def by_slot_def\<close>)
qed

end
