(* ===== verification/Guide_Idle.thy ===== *)
theory Guide_Idle
  imports Guide_Concurrency
begin

text \<open>
  \<open>docs/src/components/guides-b/idle.ts\<close> with \<open>settle\<close> of \<open>scene.ts\<close>: how many goroutines stay in the pool after a burst. The limit, the ratio and the
  expiry timer make a new worker (\<open>WorkerSim\<close>); \<open>Add jobs\<close> sends one job for each slot, and with reduced motion runs the model until nothing
  moves and the sweeps are over. The picture is \<open>PoolView\<close> of theory Guide_Concurrency; the live region is not modelled.
\<close>

section \<open>The scene\<close>

definition IDLE_DUR :: rat where "IDLE_DUR = 1600"
definition EXPIRY :: rat where "EXPIRY = 4000"

record IdlePanel =
  ip_limit :: int
  ip_idle :: nat
  ip_min :: int
  ip_sweep :: "rat option"

record IdleScene =
  id_limit :: int
  id_ratio :: int
  id_expiry :: bool
  id_sim :: WorkerSim
  id_view :: PoolView
  id_code :: string
  id_panel :: "IdlePanel option"
  id_lastIdle :: int
  id_since :: rat
  id_limitOut :: int
  id_said :: "string option"
  id_paused :: bool

definition idle_make :: "int \<Rightarrow> int \<Rightarrow> bool \<Rightarrow> WorkerSim" where
  "idle_make n ratio expires = (WorkerSim_new (Some n) True)\<lparr>minIdlePct := ratio, expiry := (if expires then EXPIRY else 0)\<rparr>"

definition idle_code :: "int \<Rightarrow> int \<Rightarrow> bool \<Rightarrow> string" where
  "idle_code n ratio expires =
    (let opts = (if ratio \<noteq> 0 then [''varmq.WithMinIdleWorkerRatio('' @ string_of_int ratio @ ''),''] else [])
           @ (if expires then [''varmq.WithIdleWorkerExpiryDuration(4*time.Second),''] else []);
         brk = [CHR 0x0A, CHR 0x09] in
     if opts \<noteq> [] then ''worker := varmq.NewWorker(process, '' @ string_of_int n @ '','' @ brk @ join_with brk opts @ [CHR 0x0A] @ '')''
     else ''worker := varmq.NewWorker(process, '' @ string_of_int n @ '')'')"

definition idle_panel :: "WorkerSim \<Rightarrow> IdlePanel" where
  "idle_panel s = \<lparr>ip_limit = numConcurrency s, ip_idle = numIdleWorkers s, ip_min = minIdle s,
     ip_sweep = (if expiry s \<noteq> 0 then Some (sweepIn s / 1000) else None)\<rparr>"

definition idle_render :: "IdleScene \<Rightarrow> IdleScene" where
  "idle_render w = w\<lparr>id_view := pv_update (id_sim w) (id_view w), id_panel := Some (idle_panel (id_sim w))\<rparr>"

definition idle_rebuild :: "IdleScene \<Rightarrow> IdleScene" where
  "idle_rebuild w = idle_render (w\<lparr>id_sim := idle_make (id_limit w) (id_ratio w) (id_expiry w), id_view := pv_reset (id_view w),
     id_code := idle_code (id_limit w) (id_ratio w) (id_expiry w)\<rparr>)"

definition announceIdle :: "IdleScene \<Rightarrow> IdleScene" where
  "announceIdle w =
    (if numProcessing (id_sim w) = 0 \<and> int (numIdleWorkers (id_sim w)) \<noteq> id_lastIdle w
     then w\<lparr>id_lastIdle := int (numIdleWorkers (id_sim w))\<rparr> else w)"

definition idle_tick :: "rat \<Rightarrow> IdleScene \<Rightarrow> IdleScene" where
  "idle_tick dt w =
    (let w1 = idle_render (w\<lparr>id_sim := ws_advance dt (id_sim w)\<rparr>); w2 = w1\<lparr>id_since := id_since w1 + dt\<rparr> in
     if 1000 \<le> id_since w2 then announceIdle (w2\<lparr>id_since := 0\<rparr>) else w2)"

text \<open>\<open>settle\<close>: 100 ms at a time, for at most 120 s.\<close>

fun settle_for :: "nat \<Rightarrow> (WorkerSim \<Rightarrow> bool) \<Rightarrow> WorkerSim \<Rightarrow> WorkerSim" where
  "settle_for 0 goes_on s = s"
| "settle_for (Suc n) goes_on s = (if goes_on s then settle_for n goes_on (ws_advance 100 s) else s)"

definition scene_settle :: "(WorkerSim \<Rightarrow> bool) \<Rightarrow> WorkerSim \<Rightarrow> WorkerSim" where
  "scene_settle = settle_for 1200"

definition idle_moving :: "WorkerSim \<Rightarrow> bool" where
  "idle_moving s \<longleftrightarrow> moving s \<or> (0 < expiry s \<and> minIdle s < int (numIdleWorkers s))"

definition idle_add :: "WorkerSim \<Rightarrow> WorkerSim" where
  "idle_add s = fst (ws_add \<lparr>o_dur = Some IDLE_DUR, o_fail = None, o_watch = False\<rparr> s)"

definition idle_burst :: "bool \<Rightarrow> IdleScene \<Rightarrow> IdleScene" where
  "idle_burst reduce w =
    (let w1 = w\<lparr>id_sim := (idle_add ^^ nat (id_limit w)) (id_sim w),
           id_said := Some (''queue.Add(...) // '' @ string_of_int (id_limit w) @ '' jobs, one for each slot'')\<rparr>;
         w2 = (if reduce then (let s = scene_settle idle_moving (id_sim w1) in w1\<lparr>id_sim := s, id_lastIdle := int (numIdleWorkers s)\<rparr>) else w1) in
     idle_render w2)"

datatype IdleEvent = LimitSlide int | RatioTab int | ExpiryPress | BurstPress bool | IdleFrame rat | IdlePause | IdleStep

text \<open>The handlers. The slider goes from 2 to 12, the tabs are 0, 25, 50 and 100, and \<open>BurstPress\<close> says whether the reader prefers reduced
  motion at that moment. A click on a clock button reaches the root's handler too, which has nothing to do for it.\<close>

fun idle_event :: "IdleEvent \<Rightarrow> IdleScene \<Rightarrow> IdleScene" where
  "idle_event (LimitSlide n) w =
    (if 2 \<le> n \<and> n \<le> 12
     then (idle_rebuild (w\<lparr>id_limit := n, id_limitOut := n\<rparr>))
       \<lparr>id_said := Some (''varmq.NewWorker(process, '' @ string_of_int n @ '') // a new worker, 1 idle goroutine'')\<rparr>
     else w)"
| "idle_event (RatioTab r) w =
    (if r \<in> {0, 25, 50, 100}
     then (let w1 = idle_rebuild (w\<lparr>id_ratio := r\<rparr>) in
       w1\<lparr>id_said := Some (if r \<noteq> 0
         then ''varmq.WithMinIdleWorkerRatio('' @ string_of_int r @ '') // keeps max('' @ string_of_int (id_limit w) @ '' * '' @ string_of_int r
           @ '' / 100, 1) = '' @ string_of_int (minIdle (id_sim w1)) @ '' idle''
         else ''// no ratio: the worker keeps 1 idle goroutine'')\<rparr>)
     else w)"
| "idle_event ExpiryPress w =
    (let w1 = idle_rebuild (w\<lparr>id_expiry := \<not> id_expiry w\<rparr>) in
     w1\<lparr>id_said := Some (if id_expiry w1 then ''varmq.WithIdleWorkerExpiryDuration(4*time.Second) // a sweep every 4 s''
       else ''// no timer: the pool shrinks as goroutines finish'')\<rparr>)"
| "idle_event (BurstPress reduce) w = idle_burst reduce w"
| "idle_event (IdleFrame dt) w = (if id_paused w then w else idle_tick (min dt 100) w)"
| "idle_event IdlePause w = w\<lparr>id_paused := \<not> id_paused w\<rparr>"
| "idle_event IdleStep w = (if id_paused w then idle_tick 1000 w else w)"

definition idle_init :: "bool \<Rightarrow> IdleScene" where
  "idle_init reduce = idle_render
    \<lparr>id_limit = 6, id_ratio = 0, id_expiry = False, id_sim = idle_make 6 0 False, id_view = PoolView_new False, id_code = idle_code 6 0 False,
     id_panel = None, id_lastIdle = -1, id_since = 0, id_limitOut = 6, id_said = None, id_paused = reduce\<rparr>"

section \<open>The picture\<close>

definition setup_ok :: "IdleScene \<Rightarrow> bool" where
  "setup_ok w \<longleftrightarrow> 2 \<le> id_limit w \<and> id_limit w \<le> 12 \<and> id_ratio w \<in> {0, 25, 50, 100} \<and> limit (id_sim w) = id_limit w
     \<and> minIdle (id_sim w) = max (id_limit w * id_ratio w div 100) 1 \<and> expiry (id_sim w) = (if id_expiry w then EXPIRY else 0)"

definition idle_base :: "IdleScene \<Rightarrow> bool" where
  "idle_base w \<longleftrightarrow> active_ok (id_sim w) \<and> setup_ok w \<and> view_ok (id_view w)"

definition idle_ok :: "IdleScene \<Rightarrow> bool" where
  "idle_ok w \<longleftrightarrow> idle_base w \<and> view_shows (id_sim w) (id_view w) \<and> id_panel w = Some (idle_panel (id_sim w))"

lemma idle_render_ok: "idle_base w \<Longrightarrow> idle_ok (idle_render w)"
  using update_shows [of "id_view w" "id_sim w"]
  by (auto simp: idle_ok_def idle_base_def idle_render_def setup_ok_def active_ok_def)

lemma make_active:
  "active_ok (idle_make n r e)" "limit (idle_make n r e) = n" "minIdle (idle_make n r e) = max (n * r div 100) 1"
  "expiry (idle_make n r e) = (if e then EXPIRY else 0)" "queue (idle_make n r e) = []" "busy (idle_make n r e) = 0"
  "length (pool (idle_make n r e)) = 1" "clock_ok (idle_make n r e)"
proof -
  let ?s = "WorkerSim_new (Some n) True" and ?t = "idle_make n r e"
  note a = new_active [of n]
  have "?t = ws_call (CExpiry (if e then EXPIRY else 0)) (ws_call (CMinIdle r) ?s)" by (simp add: idle_make_def)
  then have "ws_reach ?t" using ws_reach_call [OF ws_reach_call [OF ws_reach_new]] by metis
  then show "active_ok ?t" using a(1) by (simp add: active_ok_def idle_make_def isActive_def queue_run_def)
  show "limit ?t = n" "minIdle ?t = max (n * r div 100) 1" "expiry ?t = (if e then EXPIRY else 0)" "queue ?t = []" "length (pool ?t) = 1"
    using a by (simp_all add: idle_make_def minIdle_def)
  have "busy ?t = 0" using pool_within [OF ws_goodD(1) [OF active_good [OF a(1)]]] a(8,9) by (simp add: idle_make_def busy_def)
  then show "busy ?t = 0" .
  show "clock_ok ?t"
    by (auto simp: idle_make_def clock_ok_def WorkerSim_new_def Let_def ws_start_def isActive_def spawn_def emit_def setStatus_eq dispatch_rests ran_def split: if_splits)
qed

definition base_sim :: "IdleScene \<Rightarrow> WorkerSim \<Rightarrow> bool" where
  "base_sim w s \<longleftrightarrow> active_ok s \<and> limit s = limit (id_sim w) \<and> minIdle s = minIdle (id_sim w) \<and> expiry s = expiry (id_sim w)"

lemma base_step: "base_sim w s \<Longrightarrow> 0 < dt \<Longrightarrow> dt \<le> STEP \<Longrightarrow> base_sim w (ws_step dt s)"
  using active_step [of s dt] active_good [of s] step_lanes(2,3) [of s dt] step_active(3) [of s dt] by (simp add: base_sim_def active_ok_def)

lemma base_advance: "base_sim w s \<Longrightarrow> base_sim w (ws_advance ms s)"
  by (rule advance_keeps [of "base_sim w"]) (rule base_step)

lemma base_add: "base_sim w s \<Longrightarrow> base_sim w (idle_add s)"
proof -
  assume b: "base_sim w s"
  then have a: "active_ok s" by (simp add: base_sim_def)
  have "minIdle (idle_add s) = minIdle s" using active_add(3) [OF a] active_add_setup(1) [OF a] by (simp add: minIdle_def idle_add_def)
  with b show ?thesis using active_add [OF a] active_add_setup [OF a] by (simp add: base_sim_def idle_add_def)
qed

lemma base_adds: "base_sim w s \<Longrightarrow> base_sim w ((idle_add ^^ n) s)"
  by (induction n) (simp_all add: base_add)

lemma base_settle: "base_sim w s \<Longrightarrow> base_sim w (settle_for n P s)"
  by (induction n arbitrary: s) (simp_all add: base_advance)

lemma idle_base_sim: "idle_base w \<Longrightarrow> base_sim w s \<Longrightarrow> idle_base (w\<lparr>id_sim := s\<rparr>)"
  by (simp add: idle_base_def base_sim_def setup_ok_def)

lemma base_self: "idle_base w \<Longrightarrow> base_sim w (id_sim w)"
  by (simp add: base_sim_def idle_base_def)

lemma idle_frame [simp]:
  "idle_ok (w\<lparr>id_said := m\<rparr>) = idle_ok w" "idle_ok (w\<lparr>id_paused := b\<rparr>) = idle_ok w" "idle_ok (w\<lparr>id_since := t\<rparr>) = idle_ok w"
  "idle_ok (w\<lparr>id_lastIdle := n\<rparr>) = idle_ok w" "idle_base (w\<lparr>id_said := m\<rparr>) = idle_base w" "idle_base (w\<lparr>id_lastIdle := n\<rparr>) = idle_base w"
  by (simp_all add: idle_ok_def idle_base_def setup_ok_def)

lemma rebuild_ok:
  assumes "view_ok (id_view w)" "2 \<le> id_limit w" "id_limit w \<le> 12" "id_ratio w \<in> {0, 25, 50, 100}"
  shows "idle_ok (idle_rebuild w)"
  unfolding idle_rebuild_def
proof (rule idle_render_ok)
  have "view_ok (pv_reset (id_view w))" using assms(1) els_ok_none(2) [of "id_view w"] by (simp add: view_ok_def, simp add: pv_reset_def)
  then show "idle_base (w\<lparr>id_sim := idle_make (id_limit w) (id_ratio w) (id_expiry w), id_view := pv_reset (id_view w),
      id_code := idle_code (id_limit w) (id_ratio w) (id_expiry w)\<rparr>)"
    using assms(2-4) make_active [of "id_limit w" "id_ratio w" "id_expiry w"] by (simp add: idle_base_def setup_ok_def)
qed

lemma idle_event_ok:
  assumes "idle_ok w"
  shows "idle_ok (idle_event e w)"
proof -
  have b: "idle_base w" "view_ok (id_view w)" "2 \<le> id_limit w" "id_limit w \<le> 12" "id_ratio w \<in> {0, 25, 50, 100}"
    using assms by (simp_all add: idle_ok_def idle_base_def setup_ok_def)
  have t: "idle_ok (idle_tick dt w)" for dt
    using idle_render_ok [OF idle_base_sim [OF b(1) base_advance [OF base_self [OF b(1)]]], of dt]
    by (simp add: idle_tick_def Let_def announceIdle_def)
  have s: "base_sim w ((idle_add ^^ n) (id_sim w))" for n by (rule base_adds [OF base_self [OF b(1)]])
  have u: "idle_ok (idle_burst reduce w)" for reduce
    unfolding idle_burst_def Let_def
    by (rule idle_render_ok) (use idle_base_sim [OF b(1) s [of "nat (id_limit w)"]]
      idle_base_sim [OF b(1) base_settle [OF s [of "nat (id_limit w)"]], of 1200 idle_moving] in
      \<open>simp add: scene_settle_def idle_base_def setup_ok_def del: settle_for.simps\<close>)
  show ?thesis
  proof (cases e)
    case (LimitSlide n)
    then show ?thesis using assms b rebuild_ok [of "w\<lparr>id_limit := n, id_limitOut := n\<rparr>"] by simp
  next
    case (RatioTab r)
    then show ?thesis using assms b rebuild_ok [of "w\<lparr>id_ratio := r\<rparr>"] by (simp add: Let_def)
  next
    case ExpiryPress
    then show ?thesis using b rebuild_ok [of "w\<lparr>id_expiry := \<not> id_expiry w\<rparr>"] by (simp add: Let_def)
  qed (use assms t u in simp_all)
qed

lemma idle_init_ok: "idle_ok (idle_init reduce)"
  unfolding idle_init_def by (rule idle_render_ok) (simp add: idle_base_def setup_ok_def view_ok_def els_ok_none make_active, simp add: PoolView_new_def)

interpretation idle_scene: scene "\<lambda>w. \<exists>reduce. w = idle_init reduce" "\<lambda>e w. Some (idle_event e w)" idle_ok
  by unfold_locales (auto simp: idle_init_ok idle_event_ok)

section \<open>After a burst\<close>

text \<open>While the burst's jobs run: no job waits, and the pool is between its floor and its ceiling.\<close>

definition burst_ok :: "WorkerSim \<Rightarrow> bool" where
  "burst_ok s \<longleftrightarrow> active_ok s \<and> queue s = [] \<and> pool_floor s \<and> pool_ceiling s \<and> clock_ok s"

lemma burst_step:
  assumes "burst_ok s" "0 < dt" "dt \<le> STEP"
  shows "burst_ok (ws_step dt s)"
proof -
  have s: "ws_good s" "isActive s" "ctx s = None" "queue s = []" "parked s = []" using assms(1) active_good by (auto simp: burst_ok_def active_ok_def)
  show ?thesis using step_lanes(5) [OF s(1-3) assms(2) s(4,5)] active_step [of s dt] assms s(4,5) by (simp add: burst_ok_def keeps_lanes_def)
qed

lemma burst_advance: "burst_ok s \<Longrightarrow> burst_ok (ws_advance ms s)"
  by (rule advance_keeps [of burst_ok]) (rule burst_step)

lemma advance_100: "ws_advance 100 s = ws_step 20 (ws_step STEP (ws_step STEP s))"
proof -
  have e: "ws_advance left s = ws_advance (left - STEP) (ws_step STEP s)" if "STEP \<le> left" for left s
    using that STEP_pos by (subst ws_advance.simps) (simp add: Let_def min_def)
  have "ws_advance 100 s = ws_advance (100 - STEP - STEP) (ws_step STEP (ws_step STEP s))"
    using e [of 100 s] e [of "100 - STEP" "ws_step STEP s"] by (simp add: STEP_def)
  then show ?thesis using advance_one [of 20 "ws_step STEP (ws_step STEP s)"] by (simp add: STEP_def)
qed

lemma advance_pot: "burst_ok s \<Longrightarrow> 0 < busy s \<Longrightarrow> pot (ws_advance 100 s) < pot s"
proof -
  assume b: "burst_ok s" and y: "0 < busy s"
  let ?s1 = "ws_step STEP s" and ?s2 = "ws_step STEP (ws_step STEP s)"
  have b1: "burst_ok ?s1" and b2: "burst_ok ?s2" using burst_step b STEP_pos by simp_all
  have g: "ws_good s" "ws_good ?s1" "ws_good ?s2" using b b1 b2 active_good by (simp_all add: burst_ok_def)
  have "pot ?s1 < pot s" using step_calms(2) [OF g(1) STEP_pos refl y] .
  moreover have "pot ?s2 \<le> pot ?s1" using pot_calms [OF step_calms(1) [OF g(2) STEP_pos]] .
  moreover have "pot (ws_step 20 ?s2) \<le> pot ?s2" using pot_calms [OF step_calms(1) [OF g(3)]] by simp
  ultimately show ?thesis by (simp add: advance_100)
qed

lemma moving_busy: "burst_ok s \<Longrightarrow> moving s \<longleftrightarrow> 0 < busy s"
  by (auto simp: burst_ok_def active_ok_def moving_def isActive_def)

text \<open>The sweeps of a worker at rest, with every goroutine idle since \<open>T\<close> or longer.\<close>

definition sweeping :: "rat \<Rightarrow> WorkerSim \<Rightarrow> bool" where
  "sweeping T s \<longleftrightarrow> burst_ok s \<and> busy s = 0 \<and> expiry s = EXPIRY \<and> (\<forall>t \<in> ran (idleSince s). t \<le> T)"

lemma expire_pool_le:
  assumes "ws_inv None [] 0 s"
  shows "length (pool (ws_expire dt s)) \<le> length (pool s)"
proof -
  have o: "only_exits s (ws_expire dt s)" "ws_inv None [] 0 (ws_expire dt s)" using expire_inv [OF assms, of dt] by simp_all
  then have "distinct (pool (ws_expire dt s))" "set (pool (ws_expire dt s)) \<subseteq> set (pool s)"
    using assms by (auto simp: ws_inv_unfold only_exits_def)
  then show ?thesis by (metis List.finite_set card_length card_mono distinct_card order_trans)
qed

lemma sweeping_step:
  assumes "sweeping T s" "0 < dt" "dt \<le> STEP"
  shows "sweeping T (ws_step dt s)" "now (ws_step dt s) = now s + dt" "minIdle (ws_step dt s) = minIdle s"
    "int (length (pool s)) \<le> minIdle s \<Longrightarrow> int (length (pool (ws_step dt s))) \<le> minIdle s"
    "T + EXPIRY < now s \<Longrightarrow> int (length (pool (ws_step dt s))) \<le> minIdle s \<or> (expiryClock (ws_step dt s) = expiryClock s + dt \<and> expiryClock s + dt < EXPIRY)"
proof -
  let ?s1 = "s\<lparr>now := now s + dt\<rparr>"
  have s: "active_ok s" "ws_good s" "isActive s" "ctx s = None" "queue s = []" "parked s = []" "busy s = 0" "expiry s = EXPIRY" "burst_ok s"
    using assms(1) active_good by (auto simp: sweeping_def burst_ok_def active_ok_def)
  have r: "ws_rest s" using s by (simp add: ws_rest_def)
  have i: "ws_inv None [] 0 ?s1" using ws_goodD(1) [OF s(2)] by simp
  have e: "ws_step dt s = ws_expire dt ?s1" unfolding rest_step [OF r assms(2)] using s(3,8) by (simp add: after_expiry_def isActive_def EXPIRY_def)
  note l = step_lanes [OF s(2-4) assms(2)] and c = expire_clock [of dt ?s1, folded e]
  show "now (ws_step dt s) = now s + dt" "minIdle (ws_step dt s) = minIdle s" using c l by simp_all
  have "ws_rest (ws_step dt s)" by (rule rest_steps [OF r assms(2,3)])
  then show "sweeping T (ws_step dt s)"
    using burst_step [OF s(9) assms(2,3)] l(3) s(8) c(2) assms(1) by (auto simp: sweeping_def ws_rest_def)
  have m: "minIdle ?s1 = minIdle s" by (simp add: minIdle_def)
  have p: "length (pool (ws_step dt s)) \<le> length (pool s)" using expire_pool_le [OF i, of dt] e by simp
  then show "int (length (pool (ws_step dt s))) \<le> minIdle s" if "int (length (pool s)) \<le> minIdle s" using that by linarith
  show "int (length (pool (ws_step dt s))) \<le> minIdle s \<or> (expiryClock (ws_step dt s) = expiryClock s + dt \<and> expiryClock s + dt < EXPIRY)"
    if late: "T + EXPIRY < now s"
  proof (cases "expiryClock s + dt < EXPIRY \<or> int (length (pool s)) \<le> minIdle s")
    case True
    then show ?thesis using c(3) s(8) p by auto
  next
    case False
    have "ripe ?s1" using assms(1,2) late s(8) by (auto simp: ripe_def sweeping_def)
    then have "int (length (pool (ws_expire dt ?s1))) = minIdle ?s1" by (rule expire_ripe [OF i]) (use False s(8) m in simp_all)
    then show ?thesis using e m by simp
  qed
qed

text \<open>Rounds left: until every goroutine is idle for longer than the expiry, then until the next sweep.\<close>

definition sweep_rank :: "rat \<Rightarrow> WorkerSim \<Rightarrow> nat" where
  "sweep_rank T s = (if now s \<le> T + EXPIRY then 42 + nat \<lfloor>(T + EXPIRY - now s) / 100\<rfloor> else nat \<lceil>(EXPIRY - expiryClock s) / 100\<rceil>)"

lemma sweeping_advance:
  assumes "sweeping T s"
  shows "sweeping T (ws_advance 100 s)" "now (ws_advance 100 s) = now s + 100" "minIdle (ws_advance 100 s) = minIdle s"
    "T + EXPIRY < now s \<Longrightarrow> int (length (pool (ws_advance 100 s))) \<le> minIdle s
      \<or> (expiryClock (ws_advance 100 s) = expiryClock s + 100 \<and> expiryClock s + 100 < EXPIRY)"
proof -
  let ?s1 = "ws_step STEP s"
  let ?s2 = "ws_step STEP ?s1"
  let ?s3 = "ws_step 20 ?s2"
  have d: "(0 :: rat) < 20" "20 \<le> STEP" "STEP = 40" by (simp_all add: STEP_def)
  note a = sweeping_step [OF assms STEP_pos order_refl]
  note b = sweeping_step [OF a(1) STEP_pos order_refl]
  note c = sweeping_step [OF b(1) d(1,2)]
  show "sweeping T (ws_advance 100 s)" "now (ws_advance 100 s) = now s + 100" "minIdle (ws_advance 100 s) = minIdle s"
    unfolding advance_100 using a(2,3) b(2,3) c(1-3) d(3) by simp_all
  show "int (length (pool (ws_advance 100 s))) \<le> minIdle s \<or> (expiryClock (ws_advance 100 s) = expiryClock s + 100 \<and> expiryClock s + 100 < EXPIRY)"
    if late: "T + EXPIRY < now s"
  proof -
    have l: "T + EXPIRY < now ?s1" "T + EXPIRY < now ?s2" using late a(2) b(2) d(3) by simp_all
    note a5 = a(5) [OF late] and b5 = b(5) [OF l(1)] and c5 = c(5) [OF l(2)]
    have m: "minIdle ?s1 = minIdle s" "minIdle ?s2 = minIdle s" using a(3) b(3) by simp_all
    show ?thesis
    proof (cases "int (length (pool ?s1)) \<le> minIdle s \<or> int (length (pool ?s2)) \<le> minIdle s \<or> int (length (pool ?s3)) \<le> minIdle s")
      case True
      then have "int (length (pool ?s3)) \<le> minIdle s" using b(4) c(4) m by auto
      then show ?thesis by (simp add: advance_100)
    next
      case False
      then have "expiryClock ?s1 = expiryClock s + 40" "expiryClock ?s2 = expiryClock ?s1 + 40" "expiryClock ?s3 = expiryClock ?s2 + 20 \<and> expiryClock ?s2 + 20 < EXPIRY"
        using a5 b5 c5 m d(3) by auto
      then show ?thesis by (simp add: advance_100)
    qed
  qed
qed

lemma sweep_rank_falls:
  assumes "sweeping T s"
  shows "int (length (pool (ws_advance 100 s))) \<le> minIdle s \<or> sweep_rank T (ws_advance 100 s) < sweep_rank T s"
proof -
  let ?t = "ws_advance 100 s"
  note a = sweeping_advance [OF assms]
  have k: "0 \<le> expiryClock s" "0 \<le> expiryClock ?t" using assms a(1) by (simp_all add: sweeping_def burst_ok_def clock_ok_def)
  consider "now ?t \<le> T + EXPIRY" | "now s \<le> T + EXPIRY" "T + EXPIRY < now ?t" | "T + EXPIRY < now s" using a(2) by linarith
  then show ?thesis
  proof cases
    case 1
    let ?x = "(T + EXPIRY - now s) / 100"
    have x: "(T + EXPIRY - now ?t) / 100 = ?x - 1" using a(2) by (simp add: field_simps)
    have "1 \<le> ?x" using 1 a(2) by simp
    then have "1 \<le> \<lfloor>?x\<rfloor>" by (simp add: le_floor_iff)
    then have "nat \<lfloor>?x - 1\<rfloor> < nat \<lfloor>?x\<rfloor>" by (simp add: floor_diff_one)
    moreover have "now s \<le> T + EXPIRY" using 1 a(2) by simp
    ultimately show ?thesis unfolding sweep_rank_def x using 1 by (simp only: if_True add_less_cancel_left) simp
  next
    case 2
    have "(EXPIRY - expiryClock ?t) / 100 \<le> 40" using k(2) by (simp add: EXPIRY_def)
    then have "\<lceil>(EXPIRY - expiryClock ?t) / 100\<rceil> \<le> 40" by (simp add: ceiling_le_iff)
    then have "nat \<lceil>(EXPIRY - expiryClock ?t) / 100\<rceil> < 42 + nat \<lfloor>(T + EXPIRY - now s) / 100\<rfloor>" by linarith
    with 2 show ?thesis by (simp add: sweep_rank_def)
  next
    case 3
    from a(4) [OF this] show ?thesis
    proof
      assume e: "expiryClock ?t = expiryClock s + 100 \<and> expiryClock s + 100 < EXPIRY"
      let ?y = "(EXPIRY - expiryClock s) / 100"
      have y: "(EXPIRY - expiryClock ?t) / 100 = ?y - 1" using e by (simp add: field_simps)
      have "1 < ?y" using e by simp
      then have "1 < \<lceil>?y\<rceil>" by (simp add: less_ceiling_iff)
      then have "nat \<lceil>?y - 1\<rceil> < nat \<lceil>?y\<rceil>" by (simp add: ceiling_diff_one)
      moreover have "\<not> now s \<le> T + EXPIRY" "\<not> now ?t \<le> T + EXPIRY" using 3 a(2) by simp_all
      ultimately show ?thesis unfolding sweep_rank_def y by (simp only: if_False) simp
    qed simp
  qed
qed

lemma sweeps_end:
  "sweeping T s \<Longrightarrow> sweep_rank T s < n \<Longrightarrow> sweeping T (settle_for n idle_moving s) \<and> minIdle (settle_for n idle_moving s) = minIdle s
    \<and> int (length (pool (settle_for n idle_moving s))) \<le> minIdle s"
proof (induction n arbitrary: s)
  case (Suc n)
  have e: "idle_moving t \<longleftrightarrow> minIdle t < int (length (pool t))" if "sweeping T t" for t
    using that moving_busy [of t] by (auto simp: idle_moving_def sweeping_def numIdleWorkers_def EXPIRY_def)
  let ?t = "ws_advance 100 s"
  note a = sweeping_advance(1,3) [OF Suc.prems(1)]
  show ?case
  proof (cases "idle_moving s")
    case False
    with e [OF Suc.prems(1)] Suc.prems(1) show ?thesis by simp
  next
    case True
    show ?thesis
    proof (cases "int (length (pool ?t)) \<le> minIdle s")
      case stop: True
      then have "\<not> idle_moving ?t" using e [OF a(1)] a(2) by simp
      then have "settle_for n idle_moving ?t = ?t" by (cases n) simp_all
      with True stop a show ?thesis by simp
    next
      case False
      with sweep_rank_falls [OF Suc.prems(1)] Suc.prems(2) have "sweep_rank T ?t < n" by simp
      from Suc.IH [OF a(1) this] a(2) True show ?thesis by simp
    qed
  qed
qed simp

lemma burst_settles:
  "burst_ok s \<Longrightarrow> expiry s \<in> {0, EXPIRY} \<Longrightarrow> pot s + 83 < n \<Longrightarrow>
    burst_ok (settle_for n idle_moving s) \<and> busy (settle_for n idle_moving s) = 0
    \<and> int (length (pool (settle_for n idle_moving s))) = minIdle (settle_for n idle_moving s)"
proof (induction n arbitrary: s)
  case (Suc n)
  have full: "int (length (pool t)) = minIdle t" if "burst_ok t" "busy t = 0" "int (length (pool t)) \<le> minIdle t" for t
  proof -
    have "length (gors t) = length (pool t)" using pool_within [OF ws_goodD(1) [OF active_good]] that by (simp add: burst_ok_def)
    then show ?thesis using that by (simp add: burst_ok_def pool_floor_def)
  qed
  show ?case
  proof (cases "0 < busy s")
    case True
    let ?t = "ws_advance 100 s"
    have "idle_moving s" using True moving_busy [OF Suc.prems(1)] by (simp add: idle_moving_def)
    moreover have "expiry ?t = expiry s"
      using advance_keeps [of "\<lambda>t. burst_ok t \<and> expiry t = expiry s" s 100] burst_step step_lanes(3) active_good Suc.prems(1)
      by (auto simp: burst_ok_def active_ok_def)
    ultimately show ?thesis using Suc.IH [OF burst_advance [OF Suc.prems(1), of 100]] Suc.prems(2,3) advance_pot [OF Suc.prems(1) True] by simp
  next
    case False
    show ?thesis
    proof (cases "expiry s = 0")
      case True
      then have "int (length (pool s)) \<le> minIdle s" using Suc.prems(1) by (simp add: burst_ok_def pool_ceiling_def)
      moreover have "\<not> idle_moving s" using False True moving_busy [OF Suc.prems(1)] by (simp add: idle_moving_def)
      ultimately show ?thesis using full [OF Suc.prems(1)] False Suc.prems(1) by simp
    next
      case e: False
      have w: "sweeping (now s) s" using Suc.prems(1,2) False e by (auto simp: sweeping_def burst_ok_def clock_ok_def)
      have "sweep_rank (now s) s = 82" by (simp add: sweep_rank_def EXPIRY_def)
      then have "sweep_rank (now s) s < Suc n" using Suc.prems(3) by simp
      from sweeps_end [OF w this] full [of "settle_for (Suc n) idle_moving s"] show ?thesis by (simp add: sweeping_def del: settle_for.simps)
    qed
  qed
qed simp

section \<open>The burst\<close>

lemma burst_adds:
  assumes "ws_rest s" "clock_ok s" "2 \<le> limit s" "int k \<le> limit s"
  defines "t \<equiv> (idle_add ^^ k) s"
  shows "active_ok t \<and> queue t = [] \<and> busy t = k \<and> limit t = limit s \<and> minIdlePct t = minIdlePct s \<and> expiry t = expiry s \<and> clock_ok t
    \<and> length (pool t) \<le> length (pool s) \<and> pot t \<le> pot s + 40 * k"
  using assms(4) unfolding t_def
proof (induction k)
  case 0
  then show ?case using assms(1,2) by (simp add: ws_rest_def)
next
  case (Suc k)
  let ?u = "(idle_add ^^ k) s"
  have u: "active_ok ?u" "queue ?u = []" "busy ?u = k" "limit ?u = limit s" "minIdlePct ?u = minIdlePct s" "expiry ?u = expiry s" "clock_ok ?u"
    "length (pool ?u) \<le> length (pool s)" "pot ?u \<le> pot s + 40 * k" using Suc by simp_all
  have "int (busy ?u) < limit ?u" "limit ?u \<noteq> 1" using u(3,4) Suc.prems assms(3) by simp_all
  note a = add_starts [OF u(1,2) this, of "\<lparr>o_dur = Some IDLE_DUR, o_fail = None, o_watch = False\<rparr>", folded idle_add_def]
  have j: "job_work IDLE_DUR = 40" by (simp add: job_work_def IDLE_DUR_def STEP_def)
  have "active_ok (idle_add v)" "limit (idle_add v) = limit v" if "active_ok v" for v unfolding idle_add_def by (rule active_add [OF that])+
  from this [OF u(1)] show ?case using a u j by simp
qed

text \<open>Between two presses with reduced motion the worker is at rest, with no more goroutines than the minimum.\<close>

definition at_rest :: "IdleScene \<Rightarrow> bool" where
  "at_rest w \<longleftrightarrow> ws_rest (id_sim w) \<and> clock_ok (id_sim w) \<and> int (length (pool (id_sim w))) \<le> minIdle (id_sim w)"

lemma rest_pot: "ws_rest s \<Longrightarrow> 1 \<le> limit s \<Longrightarrow> open_jobs s = {} \<and> pot s = 0"
  using open_when_idle [OF active_good] by (simp add: ws_rest_def active_ok_def pot_def)

lemma burst_press:
  assumes "idle_ok w" "at_rest w"
  defines "t \<equiv> id_sim (idle_burst True w)"
  shows "burst_ok t \<and> busy t = 0 \<and> int (length (pool t)) = minIdle t"
proof -
  let ?s = "id_sim w"
  let ?u = "(idle_add ^^ nat (id_limit w)) ?s"
  have w: "2 \<le> id_limit w" "id_limit w \<le> 12" "id_ratio w \<in> {0, 25, 50, 100}" "limit ?s = id_limit w"
    "minIdle ?s = max (id_limit w * id_ratio w div 100) 1" "expiry ?s \<in> {0, EXPIRY}" using assms(1) by (auto simp: idle_ok_def idle_base_def setup_ok_def)
  have r: "ws_rest ?s" "clock_ok ?s" "int (length (pool ?s)) \<le> minIdle ?s" using assms(2) by (simp_all add: at_rest_def)
  have pot0: "pot ?s = 0" using rest_pot [OF r(1)] w(1,4) by simp
  note u = burst_adds [OF r(1,2), of "nat (id_limit w)"]
  have u': "active_ok ?u" "queue ?u = []" "busy ?u = nat (id_limit w)" "minIdle ?u = minIdle ?s" "expiry ?u = expiry ?s" "clock_ok ?u"
    "length (pool ?u) \<le> length (pool ?s)" "pot ?u \<le> 40 * nat (id_limit w)" using u w(1,4) pot0 by (simp_all add: minIdle_def)
  have "id_limit w * id_ratio w div 100 \<le> id_limit w" using w(1,3) by auto
  then have "pool_floor ?u" using pool_within [OF ws_goodD(1) [OF active_good [OF u'(1)]]] u'(3,4) w(1,5) by (simp add: pool_floor_def)
  moreover have "pool_ceiling ?u" using u'(4,7) r(3) by (simp add: pool_ceiling_def)
  ultimately have b: "burst_ok ?u" using u' by (simp add: burst_ok_def)
  have n: "pot ?u + 83 < 1200" using u'(8) w(2) by linarith
  have t: "t = settle_for 1200 idle_moving ?u" by (simp add: t_def idle_burst_def Let_def idle_render_def scene_settle_def del: settle_for.simps)
  show ?thesis unfolding t by (rule burst_settles [OF b _ n]) (use u'(5) w(6) in simp)
qed

lemma rest_sim_step:
  assumes "ws_rest s" "clock_ok s" "int (length (pool s)) \<le> minIdle s" "0 < dt" "dt \<le> STEP"
  shows "ws_rest (ws_step dt s) \<and> clock_ok (ws_step dt s) \<and> int (length (pool (ws_step dt s))) \<le> minIdle (ws_step dt s)"
proof -
  let ?s1 = "s\<lparr>now := now s + dt\<rparr>"
  have s: "ws_good s" "isActive s" "ctx s = None" "queue s = []" "parked s = []" using assms(1) active_good by (auto simp: ws_rest_def active_ok_def)
  have i: "ws_inv None [] 0 ?s1" using ws_goodD(1) [OF s(1)] by simp
  note l = step_lanes [OF s(1-3) assms(4)]
  have "length (pool (ws_step dt s)) \<le> length (pool s)"
    unfolding rest_step [OF assms(1,4)] using expire_pool_le [OF i, of dt] by (simp add: after_expiry_def)
  then show ?thesis using rest_steps [OF assms(1,4,5)] l(2) l(5) [OF s(4,5)] assms(2,3) by (simp add: keeps_lanes_def)
qed

lemma at_rest_frame [simp]: "at_rest (w\<lparr>id_said := m\<rparr>) = at_rest w" "at_rest (w\<lparr>id_paused := b\<rparr>) = at_rest w"
  by (simp_all add: at_rest_def)

lemma rebuild_rest: "at_rest (idle_rebuild w)"
  using make_active [of "id_limit w" "id_ratio w" "id_expiry w"] by (simp add: at_rest_def idle_rebuild_def idle_render_def ws_rest_def)

lemma tick_rest:
  assumes "at_rest w"
  shows "at_rest (idle_tick dt w)"
proof -
  have "ws_rest (ws_advance dt (id_sim w)) \<and> clock_ok (ws_advance dt (id_sim w))
    \<and> int (length (pool (ws_advance dt (id_sim w)))) \<le> minIdle (ws_advance dt (id_sim w))"
    by (rule advance_keeps [of "\<lambda>s. ws_rest s \<and> clock_ok s \<and> int (length (pool s)) \<le> minIdle s"])
      (use rest_sim_step assms in \<open>auto simp: at_rest_def\<close>)
  moreover have "id_sim (idle_tick dt w) = ws_advance dt (id_sim w)" by (simp add: idle_tick_def Let_def idle_render_def announceIdle_def)
  ultimately show ?thesis by (simp add: at_rest_def)
qed

lemma event_rest:
  assumes "idle_ok w" "at_rest w" "e \<noteq> BurstPress False"
  shows "at_rest (idle_event e w)"
proof (cases e)
  case (BurstPress b)
  then have "b" using assms(3) by simp
  then show ?thesis using burst_press [OF assms(1,2)] BurstPress by (simp add: at_rest_def burst_ok_def ws_rest_def)
qed (use assms(2) rebuild_rest tick_rest in \<open>simp_all add: Let_def\<close>)

lemma presses_rest:
  "idle_ok w \<Longrightarrow> at_rest w \<Longrightarrow> BurstPress False \<notin> set es \<Longrightarrow> presses (\<lambda>e w. Some (idle_event e w)) es w = Some w' \<Longrightarrow> idle_ok w' \<and> at_rest w'"
proof (induction es arbitrary: w)
  case (Cons e es)
  have "idle_ok (idle_event e w)" "at_rest (idle_event e w)" using Cons.prems idle_event_ok event_rest [of w e] by auto
  from Cons.IH [OF this] Cons.prems show ?case by simp
qed simp

lemma init_rest: "at_rest (idle_init reduce)"
  using make_active [of 6 0 False] by (simp add: at_rest_def idle_init_def idle_render_def ws_rest_def)

section \<open>Properties\<close>

text \<open>C40: With reduced motion \<open>Add jobs\<close> shows the pool as the options promise it. However the reader came there, after the press every job has
  ended, no goroutine is busy, and exactly \<open>max(limit * ratio / 100, 1)\<close> goroutines are idle in the pool, with the expiry timer or without;
  the panel and the blocks show them. The 120 s that \<open>settle\<close> allows are always enough.\<close>

theorem idle_burst_leaves_the_minimum:
  assumes "presses (\<lambda>e w. Some (idle_event e w)) es (idle_init reduce) = Some w" "BurstPress False \<notin> set es"
  shows "open_jobs (id_sim (idle_event (BurstPress True) w)) = {} \<and> numProcessing (id_sim (idle_event (BurstPress True) w)) = 0
    \<and> int (numIdleWorkers (id_sim (idle_event (BurstPress True) w))) = max (id_limit w * id_ratio w div 100) 1
    \<and> id_lastIdle (idle_event (BurstPress True) w) = max (id_limit w * id_ratio w div 100) 1
    \<and> id_panel (idle_event (BurstPress True) w) = Some (idle_panel (id_sim (idle_event (BurstPress True) w)))
    \<and> int (length (pv_blocks (id_view (idle_event (BurstPress True) w)))) = max (id_limit w * id_ratio w div 100) 1"
proof -
  let ?w = "idle_event (BurstPress True) w"
  let ?s = "id_sim ?w"
  have w: "idle_ok w" "at_rest w" using presses_rest [OF idle_init_ok init_rest assms(2,1)] by simp_all
  have b: "burst_ok ?s" "busy ?s = 0" "int (length (pool ?s)) = minIdle ?s" using burst_press [OF w] by simp_all
  have ok: "idle_ok ?w" by (rule idle_event_ok [OF w(1)])
  have f: "id_limit ?w = id_limit w" "id_ratio ?w = id_ratio w" "id_lastIdle ?w = int (numIdleWorkers ?s)"
    by (simp_all add: idle_burst_def Let_def idle_render_def)
  have m: "minIdle ?s = max (id_limit w * id_ratio w div 100) 1" "limit ?s = id_limit w" "2 \<le> id_limit w"
    using ok f by (simp_all add: idle_ok_def idle_base_def setup_ok_def)
  have r: "ws_rest ?s" using b by (simp add: burst_ok_def ws_rest_def)
  have g: "ws_good ?s" using r active_good by (simp add: ws_rest_def)
  have "pv_blocks (id_view ?w) = block_list ?s" "id_panel ?w = Some (idle_panel ?s)" using ok by (simp_all add: idle_ok_def view_shows_def)
  moreover have "length (block_list ?s) = length (pool ?s)" using blocks_true(2) [OF g] pool_within [OF ws_goodD(1) [OF g]] b(2) m(2,3) by simp
  ultimately show ?thesis
    using rest_pot [OF r] b m f(3) by (simp add: numProcessing_def numIdleWorkers_def del: idle_event.simps)
qed

theorem idle_burst_leaves_the_minimum_witness:
  "int (numIdleWorkers (id_sim (idle_event (BurstPress True) (idle_event (RatioTab 50) (idle_init True))))) = 3"
proof -
  have "presses (\<lambda>e w. Some (idle_event e w)) [RatioTab 50] (idle_init True) = Some (idle_event (RatioTab 50) (idle_init True))" by (simp del: idle_event.simps)
  moreover have "id_limit (idle_event (RatioTab 50) (idle_init True)) = 6" "id_ratio (idle_event (RatioTab 50) (idle_init True)) = 50"
    by (simp_all add: idle_init_def idle_rebuild_def idle_render_def Let_def)
  ultimately show ?thesis
    using idle_burst_leaves_the_minimum [of "[RatioTab 50]" True "idle_event (RatioTab 50) (idle_init True)"] by (simp del: idle_event.simps)
qed

end
