(* ===== verification/Spec2Isabelle.thy ===== *)
theory Spec2Isabelle
  imports Prelude Scene Round_Robin Order Strategy Pool_Model Redis_Flow Worker_Sim Worker_Sim_Inv Worker_Sim_Runs Worker_Sim_Live Agenda Hero_Pool Hero_Pool_Runs Hero_Pool_Props Hero_Stores Hero_Stores_Runs Hero_Sqlite Hero_Sqlite_Props Hero_Chapters Hero_Story Hero_Scene Hero_Score Hero_Score_Props Url_Params Bench Bench_Props Hero_Stations Hero_Steps Ack_Scene Sqlite_Scene Store_Demo Store_Demo_Props Guide_Handle Guide_Picker Guide_Order Guide_Waiting Guide_Waiting_Props Worker_Sim_Active Guide_Concurrency Guide_Idle
begin

text \<open>
  \<^bold>\<open>A verification library for the executable models of varmq's documentation site.\<close>

  varmq is a message queue and worker pool for Go. Its site (\<open>src/docs\<close>) explains the library by programs written in
  TypeScript: models that follow the Go sources rule by rule, run in the page and drive every scene and the map of the home page.
  This library translates those programs and proves what they promise. Paths below are relative to \<open>src/docs/src\<close>.

  \<^bold>\<open>The parts and how they work together.\<close>

  \<^item> Two pure modules hold the rules for the order of jobs: \<open>components/home/order.ts\<close> (a priority queue and a round-robin run)
    and \<open>components/guides-a/model.ts\<close> (the four strategies, and the head of a priority queue).
  \<^item> Two models of a worker: \<open>components/learn/engine.ts\<close> (batches and the goroutine pool, step by step) and
    \<open>components/guides-b/sim.ts\<close> (the class \<open>WorkerSim\<close>: status machine, pool, batches, park, purge, contexts, a clock).
  \<^item> The home page's map (\<open>lib/heromap\<close>): \<open>pool.ts\<close> and \<open>stores.ts\<close> simulate a worker and two stores by discrete events,
    \<open>chapters.ts\<close> writes the plans of ten chapters and runs them, each from the carry the one before leaves, \<open>scene.ts\<close> is the
    map with its camera, \<open>score.ts\<close> the animation as tracks and cues. \<open>lib/story/stations.ts\<close> and \<open>steps.ts\<close> pair the chapters with
    code and captions.
  \<^item> Interactive scenes: the Redis, SQLite and crash test scenes (\<open>components/ops\<close>), the storage demo (\<open>components/home/store.ts\<close>)
    and the guides' scenes (\<open>components/guides-a\<close> and \<open>guides-b\<close>), each a closure with handlers for its buttons and timers.
  \<^item> The benchmark explorer (\<open>components/bench/lib.ts\<close>): filters, ranking, wins and losses, and its state in the URL.

  \<^bold>\<open>Theories, sources and what is shown.\<close>

  \<^item> Prelude: JavaScript's array and text operations as the sources use them, the stepper of \<open>guides-a/kit.ts\<close>, shared list lemmas.
    Scene: the locale \<open>scene\<close>, the contract of a page the reader drives (a state, an action per event, an invariant): every
    sequence of events is answered, in states that keep the invariant. Ten scenes are interpretations. Round_Robin: the locale
    \<open>round_robin\<close>, the reference for taking turns with its fairness; \<open>order.ts\<close> and \<open>model.ts\<close> interpret it.
  \<^item> Order (\<open>order.ts\<close>): \<open>priorityQueue\<close> is a stable sort after every add; \<open>roundRobin\<close> returns, and its picks are the run of the rule.
    Strategy (\<open>model.ts\<close>): \<open>pick\<close> meets the abstract contract \<open>strategy_spec\<close>, which names one queue; round robin is fair.
  \<^item> Pool_Model (\<open>engine.ts\<close>): each job in one place, at most \<open>concurrency\<close> goroutines; stepping through the due times drains the pool.
  \<^item> Worker_Sim (\<open>sim.ts\<close>), Worker_Sim_Inv (its invariant, operation by operation), Worker_Sim_Runs (every reachable state: each job in
    one place, an active worker below its limit leaves no job in the queue, so that a job not begun is in the batch of a busy
    goroutine, the status tells what runs, what a purge reaches) and Worker_Sim_Live (while active the clock drains the worker; \<open>Stop\<close>
    ends in Stopped with no goroutine, or in a restart that was waiting).
  \<^item> Agenda: the kernel both simulations of the map share, a list of timers in order. Its locale \<open>des\<close> has a weight that every
    firing lowers and gives that the run ends; its locale \<open>event_sourced\<close> ties a log to the state its replay gives. Hero_Pool with
    Hero_Pool_Runs and Hero_Pool_Props (\<open>pool.ts\<close>), Hero_Stores, Hero_Stores_Runs, Hero_Sqlite and Hero_Sqlite_Props (\<open>stores.ts\<close>): the
    simulations return on every plan, their replays end where they ended, no ring is shared, no record is lost or doubled, and a plan
    is refused only for the reasons the code gives.
  \<^item> Hero_Chapters and Hero_Story (\<open>chapters.ts\<close>): the script is run in the logic, chapter by chapter; no plan is refused, every job
    told ends, the chapters fill the loop. Hero_Scene (\<open>scene.ts\<close>): the camera is the closest fit. Hero_Score and Hero_Score_Props
    (\<open>score.ts\<close>): a tween starts where its property is, tracks are in time order (the locale \<open>track_law\<close>: a law that a push keeps
    holds for every score that can be written), the pads change no value. Hero_Stations and Hero_Steps (\<open>lib/story\<close>): the steps
    tile the loop, and each caption lights code that exists.
  \<^item> Url_Params (\<open>URLSearchParams\<close> over texts kept as their UTF-8 bytes; the locale \<open>param_codec\<close> is the round trip a client needs), Bench and
    Bench_Props (\<open>bench/lib.ts\<close>): every hash reads as a state the page can be in, such a state round-trips but for an empty focus, wins, losses and ties
    account for every group.
  \<^item> Redis_Flow (\<open>ops/redisflow-model.ts\<close>, \<open>redisflow.ts\<close>), Ack_Scene (\<open>ops/ack.ts\<close>, \<open>ack-data.ts\<close>), Sqlite_Scene (\<open>ops/sqliteflow.ts\<close>):
    whatever buttons are pressed, no job is lost unless the scene says so. Store_Demo and Store_Demo_Props (\<open>home/store.ts\<close>): the lane has
    one holder, the demo never stands still in view, jobs keep their order over restarts.
  \<^item> Guide_Handle (\<open>guides-a/queue-handle.ts\<close>), Guide_Picker (\<open>strategy-picker.ts\<close>), Guide_Order (\<open>queue-order.ts\<close>): scenes composed with the
    strategies above. Without a purge every accepted job runs, a purged one never does; a step takes exactly the job the
    strategy promises and Play takes them all; both queues hold the same jobs, and \<open>Run all\<close> agrees with the home page's \<open>priorityQueue\<close>.
  \<^item> Guide_Waiting and Guide_Waiting_Props (\<open>guides-b/waiting.ts\<close> and the clock of \<open>scene.ts\<close>): workers of \<open>WorkerSim\<close> with calls that block.
    Each return finds the worker in the state its call promises, and a press with the clock paused always comes to rest: the 1200
    rounds the code allows its loop are enough.
  \<^item> Worker_Sim_Active (\<open>sim.ts\<close> for scenes that never pause the worker: the queue is a run of job numbers, the pool keeps its minimum, a sweep
    of goroutines idle long enough leaves exactly it), Guide_Concurrency (\<open>guides-b/concurrency.ts\<close>, \<open>poolview.ts\<close>): the cached picture of the worker is
    always true to it, block by block: the elements of the blocks are kept in the map \<open>blockEls\<close> and put in order when one is added, as
    in the source. Guide_Idle (\<open>guides-b/idle.ts\<close>, \<open>settle\<close> of \<open>scene.ts\<close>): after a burst with reduced motion exactly the promised number of
    goroutines is idle, and the 120 s the code allows are enough.

  \<^bold>\<open>How the code is modelled.\<close>

  \<^item> A class or a closure is a record, an operation a function on it, fields and names as in the source (with a prefix where HOL or
    another theory has the name). Objects that several arrays share (jobs and goroutines of \<open>WorkerSim\<close>) live in heaps indexed by their
    number. A disabled or hidden button takes no click: the guards of the render are guards of the events.
  \<^item> A \<open>throw\<close>, and a read of something that is not there, is a value: an error in a sum, or \<open>None\<close>. The properties show where they cannot occur.
  \<^item> A loop that the code does not bound (the round-robin searches, the run over the timers) is a \<open>partial_function\<close> in \<open>option\<close>,
    and it is proved to return; loops with a measure are total functions (\<open>dispatch\<close>, \<open>advance\<close>, \<open>finishJob\<close>, the drains of the
    guides, the calls of the storage demo). No fuel is added: where the code bounds a loop itself (\<open>settle\<close>) the model has the same bound,
    and a property shows that the loop ends before it. The termination arguments are weights over what is left to do.
  \<^item> Counters are \<open>nat\<close> or \<open>int\<close>: the sources' whole numbers stay far below the 53 bits a JavaScript number holds exactly. Times of
    a frame clock are rationals, geometry and eases are reals: rounding of floating point is not modelled. Texts are character
    lists; the few characters outside ASCII are written as their UTF-8 bytes. Bytes of a hash that are not UTF-8 are kept, not replaced.
  \<^item> Timers and ends of animations are events that may come in any order the code allows; what \<open>paint\<close> or \<open>render\<close> decides from the
    state (labels, guards, counts) is a value, its drawing is not.
  \<^item> Parameters stand for code that is not in the repository or belongs to the browser: the anime.js timeline and the page's stage of
    the score (its size and elements), \<open>localeCompare\<close> of the benchmark names, and the reader's motion preference, an argument of
    every handler that asks for it.

  \<^bold>\<open>Not modelled.\<close>

  \<^item> The Go library itself (the repository's root, \<open>internal\<close>, \<open>utils\<close>, \<open>contract\<close>, \<open>examples\<close>): another language; the models above restate its rules.
  \<^item> Drawing: \<open>heromap/choreo.ts\<close> (which turns the chapters' events into tweens of SVG elements), \<open>render.ts\<close>, \<open>still.ts\<close>, \<open>story/main.ts\<close>,
    \<open>map.ts\<close>, \<open>compile.ts\<close>, \<open>wheel.ts\<close>, \<open>home/mini.ts\<close>, \<open>scenes.ts\<close>, \<open>race.ts\<close>, \<open>bench/render.ts\<close>, \<open>explorer.ts\<close>, \<open>home.ts\<close>, \<open>ui/dom.ts\<close>, and the DOM parts of
    the modelled scenes: they build elements, measure them and call animation libraries, and keep no state of the program's own
    logic beyond what the modelled functions give them.
  \<^item> Scenes that only choose a text or a table row to show: the other guides (\<open>worker-types\<close>, \<open>helper-wrap\<close>, \<open>add-all-compare\<close>,
    \<open>config\<close>), \<open>ops/adapters\<close>, \<open>matrix\<close>, \<open>metrics\<close>, \<open>setup\<close> and their data files.
  \<^item> Highlighting, bundling and page tooling: \<open>ui/go.ts\<close>, \<open>lib/*.ts\<close> beside the map and the story, \<open>fd/*.tsx\<close>, the pages' configuration and
    \<open>docs/scripts\<close>: regular expressions over Go text, build-time file access and network calls.
  \<^item> In the benchmark explorer, the locale-dependent number formatting; in the score, the override of the timeline's \<open>seek\<close>.
\<close>

end
